(* ===== verification/Lunaria_Prelude.thy ===== *)
theory Lunaria_Prelude
  imports Main "HOL-Library.Word" "HOL-Library.Monad_Syntax"
begin

text \<open>
  Shared vocabulary of the development: the C integer types, C strings, the memory-fault
  monad in which every model of C code is written, and the calculus in which the safety
  lemmas of the components are proved.

  A computation of type \<open>'a option\<close> is a run of C code: \<open>Some x\<close> is a run that ends and
  yields \<open>x\<close>; \<open>None\<close> is a run that leaves the defined part of the language (an access
  outside an allocation, a NULL dereference) or never ends.  The failures that the code
  itself reports (\<open>false\<close>, \<open>NULL\<close>, \<open>-1\<close>) are values inside \<open>Some\<close>.
\<close>

unbundle bit_operations_syntax

type_synonym u8 = "8 word"
type_synonym u16 = "16 word"
type_synonym u32 = "32 word"
type_synonym u64 = "64 word"

text \<open>
  The host allocator, as seen by the code: whether a request for so many bytes succeeds.  The
  answer is one function of the size for the whole run of an operation, so a request that fails
  after an equal one succeeded within the same operation is not among the runs described; the
  statements quantify over the function, and different operations may be given different ones.
\<close>

type_synonym alloc = "nat \<Rightarrow> bool"

named_theorems ok_rules "introduction rules for runs that end without a fault"

definition ok :: "'a option \<Rightarrow> ('a \<Rightarrow> bool) \<Rightarrow> bool" where
  "ok m Q \<longleftrightarrow> (\<exists>x. m = Some x \<and> Q x)"

lemma ok_Some [simp]: "ok (Some x) Q = Q x"
  by (simp add: ok_def)

lemma ok_None [simp]: "\<not> ok None Q"
  by (simp add: ok_def)

lemma okE: "ok m Q \<Longrightarrow> (\<And>x. m = Some x \<Longrightarrow> Q x \<Longrightarrow> R) \<Longrightarrow> R"
  by (auto simp: ok_def)

lemma ok_mono: "ok m P \<Longrightarrow> (\<And>x. P x \<Longrightarrow> Q x) \<Longrightarrow> ok m Q"
  by (auto simp: ok_def)

lemma ok_bind: "ok m P \<Longrightarrow> (\<And>x. P x \<Longrightarrow> ok (f x) Q) \<Longrightarrow> ok (m \<bind> f) Q"
  by (auto simp: ok_def)

lemma ok_ex: "ok m Q \<Longrightarrow> \<exists>x. m = Some x"
  by (auto simp: ok_def)

text \<open>A C array read and write: outside the allocation is a fault.\<close>

definition c_at :: "'a list \<Rightarrow> nat \<Rightarrow> 'a option" where
  "c_at xs i = (if i < length xs then Some (xs ! i) else None)"

definition c_set :: "'a list \<Rightarrow> nat \<Rightarrow> 'a \<Rightarrow> 'a list option" where
  "c_set xs i v = (if i < length xs then Some (xs[i := v]) else None)"

lemma c_at_in [simp]: "i < length xs \<Longrightarrow> c_at xs i = Some (xs ! i)"
  by (simp add: c_at_def)

lemma c_set_in [simp]: "i < length xs \<Longrightarrow> c_set xs i v = Some (xs[i := v])"
  by (simp add: c_set_def)

text \<open>
  A buffer filled from its start: \<open>buf_put sz buf s\<close> appends \<open>s\<close> to the \<open>length buf\<close> elements
  already written, and is a fault when that runs past the \<open>sz\<close> elements the buffer has.
\<close>

definition buf_put :: "nat \<Rightarrow> 'a list \<Rightarrow> 'a list \<Rightarrow> 'a list option" where
  "buf_put sz buf s = (if length buf + length s \<le> sz then Some (buf @ s) else None)"

lemma buf_put_in [simp]: "length buf + length s \<le> sz \<Longrightarrow> buf_put sz buf s = Some (buf @ s)"
  by (simp add: buf_put_def)

text \<open>
  Two places where C leaves a result on a signed 32-bit operand undefined: the left shift of a
  non-negative value whose result does not fit, and the decrement of the least value.
\<close>

definition c_shl32 :: "u32 \<Rightarrow> nat \<Rightarrow> u32 option" where
  "c_shl32 x n = (if n < 32 \<and> uint x * 2 ^ n < 2 ^ 31 then Some (push_bit n x) else None)"

definition c_pred32 :: "u32 \<Rightarrow> u32 option" where
  "c_pred32 x = (if sint x = - (2 ^ 31) then None else Some (x - 1))"

section \<open>Words\<close>

lemma sint_small: "unat (i::u32) < 2 ^ 31 \<Longrightarrow> sint i = int (unat i)"
proof -
  assume "unat i < 2 ^ 31"
  then have "unat i < 2147483648" by simp
  then have "int (unat i) < 2147483648" by linarith
  then have "uint i < 2 ^ 31" by simp
  moreover have "- (2 ^ 31) \<le> uint i" by (rule order_trans [OF _ uint_ge_0]) simp
  ultimately have "signed_take_bit 31 (uint i) = uint i" by (intro signed_take_bit_int_eq_self)
  then show ?thesis by (simp add: sint_uint)
qed

lemma and127: "(w::'a::len word) AND 127 = take_bit 7 w"
  by (simp add: take_bit_eq_mask mask_eq_exp_minus_1)

lemma and128: "(w::u8) AND 128 = 0 \<longleftrightarrow> \<not> bit w 7"
  using and_exp_eq_0_iff_not_bit [of w 7] by simp

lemma and64: "(w::u8) AND 64 = 0 \<longleftrightarrow> \<not> bit w 6"
  using and_exp_eq_0_iff_not_bit [of w 6] by simp

lemma bit128: "bit (128::u8) n \<longleftrightarrow> n = 7"
  using bit_exp_iff [where 'a = "8 word", of 7 n] by auto

lemma less128_take_bit: "(v::u32) < 128 \<longleftrightarrow> take_bit 7 v = v"
  by (simp add: word_unat_eq_iff take_bit_eq_mod unat_mod word_less_nat_alt)
    (metis mod_less_divisor mod_less zero_less_numeral)

lemma unat_drop_bit7: "unat (drop_bit 7 (v::u32)) = unat v div 128"
  by (simp add: drop_bit_eq_div unat_div)

lemma and15: "(w::'a::len word) AND 15 = take_bit 4 w"
  by (simp add: take_bit_eq_mask mask_eq_exp_minus_1)

lemma and63: "(w::'a::len word) AND 63 = take_bit 6 w"
  by (simp add: take_bit_eq_mask mask_eq_exp_minus_1)

lemma sint_nonneg_unat: "0 \<le> sint (n::u32) \<Longrightarrow> nat (sint n) = unat n"
proof (cases "unat n < 2 ^ 31")
  case True
  then show ?thesis by (simp add: sint_small)
next
  case False
  assume "0 \<le> sint n"
  then have "\<not> bit n 31" by (simp add: sint_uint signed_take_bit_nonnegative_iff bit_uint_iff)
  then have "\<not> bit (unat n) 31" by (simp add: bit_unsigned_iff)
  then have "even (unat n div 2147483648)" by (simp add: bit_iff_odd)
  moreover have "unat n < 4294967296" using unsigned_less [of n] by simp
  moreover have "2147483648 \<le> unat n" using False by simp
  ultimately have "even (unat n div 2147483648)" "unat n div 2147483648 = 1"
    by (simp_all add: div_nat_eqI)
  then have False by simp
  then show ?thesis ..
qed

end
