(* ===== verification/Dex_Reader.thy ===== *)
theory Dex_Reader
  imports Lunaria_Prelude
begin

text \<open>
  The container layer of the DEX reader (\<open>src/src/dvm/dex.c\<close>, \<open>dex.h\<close>): the view over a
  whole image, the little-endian and LEB128 reads, the header, the lazily filled string
  pool with its MUTF-8 conversion, and the id pools.  An access \<open>d->p[i]\<close> of the source is
  \<open>dex_byte d i\<close>, which faults outside the mapping; offsets of type \<open>size_t\<close> and
  \<open>uint64_t\<close> are \<open>nat\<close> (every such sum of the file is below \<open>2 ^ 64\<close>), \<open>uint32_t\<close>
  arithmetic keeps its width.  The lazily built tables are fields of the view, so an
  accessor that fills one returns the new view.
\<close>

section \<open>The view\<close>

record dex_file =
  dex_p :: "u8 list"
  dex_len :: nat
  dex_path :: "string option"
  dex_owned :: "u8 list option"
  string_ids_size :: u32
  string_ids_off :: u32
  type_ids_size :: u32
  type_ids_off :: u32
  proto_ids_size :: u32
  proto_ids_off :: u32
  field_ids_size :: u32
  field_ids_off :: u32
  method_ids_size :: u32
  method_ids_off :: u32
  class_defs_size :: u32
  class_defs_off :: u32
  dex_strings :: "string option list option"
  dex_fixups :: "string option list option"
  cls_hash :: "u32 list option"
  cls_hash_cap :: u32

definition dex_zero :: dex_file where
  "dex_zero = \<lparr>dex_p = [], dex_len = 0, dex_path = None, dex_owned = None,
     string_ids_size = 0, string_ids_off = 0, type_ids_size = 0, type_ids_off = 0,
     proto_ids_size = 0, proto_ids_off = 0, field_ids_size = 0, field_ids_off = 0,
     method_ids_size = 0, method_ids_off = 0, class_defs_size = 0, class_defs_off = 0,
     dex_strings = None, dex_fixups = None, cls_hash = None, cls_hash_cap = 0\<rparr>"

definition dex_byte :: "dex_file \<Rightarrow> nat \<Rightarrow> u8 option" where
  "dex_byte d off = c_at (dex_p d) off"

definition le16 :: "u8 \<Rightarrow> u8 \<Rightarrow> u16" where
  "le16 b0 b1 = ucast b0 OR push_bit 8 (ucast b1)"

definition le32 :: "u8 \<Rightarrow> u8 \<Rightarrow> u8 \<Rightarrow> u8 \<Rightarrow> u32" where
  "le32 b0 b1 b2 b3 = ucast b0 OR push_bit 8 (ucast b1) OR push_bit 16 (ucast b2)
     OR push_bit 24 (ucast b3)"

definition dex_u32_at :: "dex_file \<Rightarrow> nat \<Rightarrow> u32 option" where
  "dex_u32_at d off =
     (if dex_len d < off + 4 then Some 0
      else do { b0 \<leftarrow> dex_byte d off; b1 \<leftarrow> dex_byte d (off + 1);
                b2 \<leftarrow> dex_byte d (off + 2); b3 \<leftarrow> dex_byte d (off + 3);
                Some (le32 b0 b1 b2 b3) })"

definition dex_u16_at :: "dex_file \<Rightarrow> nat \<Rightarrow> u16 option" where
  "dex_u16_at d off =
     (if dex_len d < off + 2 then Some 0
      else do { b0 \<leftarrow> dex_byte d off; b1 \<leftarrow> dex_byte d (off + 1); Some (le16 b0 b1) })"

section \<open>LEB128\<close>

text \<open>
  The two decoding loops run at most five times; the first argument counts the iterations
  that are left.  The result is the new offset and the value stored through \<open>out\<close>.
\<close>

fun dex_uleb_loop :: "nat \<Rightarrow> dex_file \<Rightarrow> nat \<Rightarrow> u32 \<Rightarrow> nat \<Rightarrow> (nat \<times> u32) option" where
  "dex_uleb_loop 0 d off v shift = Some (off, v)"
| "dex_uleb_loop (Suc k) d off v shift =
     (if dex_len d \<le> off then Some (off, 0)
      else do {
        b \<leftarrow> dex_byte d off;
        let v' = v OR push_bit shift (ucast (b AND 0x7f));
        if b AND 0x80 = 0 then Some (off + 1, v')
        else dex_uleb_loop k d (off + 1) v' (shift + 7) })"

definition dex_uleb :: "dex_file \<Rightarrow> nat \<Rightarrow> (nat \<times> u32) option" where
  "dex_uleb d off = dex_uleb_loop 5 d off 0 0"

text \<open>
  \<open>dex_sleb\<close> leaves the loop with the last byte \<open>b\<close> and the accumulated \<open>shift\<close>; the sign
  extension follows.  \<open>int32_t\<close> values are \<open>32 word\<close>s read with \<open>sint\<close>.  The payload is
  shifted as an \<open>int32_t\<close>, so a fifth byte with a bit above the third one faults; \<open>dex_ulebp1\<close>
  faults on the decrement of the least \<open>int32_t\<close>.
\<close>

definition sleb_extend :: "u32 \<Rightarrow> nat \<Rightarrow> u8 \<Rightarrow> u32" where
  "sleb_extend v shift b =
     (if shift < 32 \<and> b AND 0x40 \<noteq> 0 then v OR (- push_bit shift 1) else v)"

fun dex_sleb_loop :: "nat \<Rightarrow> dex_file \<Rightarrow> nat \<Rightarrow> u32 \<Rightarrow> nat \<Rightarrow> u8 \<Rightarrow> (nat \<times> u32) option" where
  "dex_sleb_loop 0 d off v shift b = Some (off, sleb_extend v shift b)"
| "dex_sleb_loop (Suc k) d off v shift b0 =
     (if dex_len d \<le> off then Some (off, 0)
      else do {
        b \<leftarrow> dex_byte d off;
        x \<leftarrow> c_shl32 (ucast (b AND 0x7f)) shift;
        let v' = v OR x;
        if b AND 0x80 = 0 then Some (off + 1, sleb_extend v' (shift + 7) b)
        else dex_sleb_loop k d (off + 1) v' (shift + 7) b })"

definition dex_sleb :: "dex_file \<Rightarrow> nat \<Rightarrow> (nat \<times> u32) option" where
  "dex_sleb d off = dex_sleb_loop 5 d off 0 0 0"

definition dex_ulebp1 :: "dex_file \<Rightarrow> nat \<Rightarrow> (nat \<times> u32) option" where
  "dex_ulebp1 d off = do { (off', v) \<leftarrow> dex_uleb d off; v \<leftarrow> c_pred32 v; Some (off', v) }"

section \<open>The header\<close>

text \<open>One entry of the \<open>pools\<close> array: offset, element count, stride.\<close>

definition pool_fits :: "dex_file \<Rightarrow> u32 \<times> u32 \<times> nat \<Rightarrow> bool" where
  "pool_fits d = (\<lambda>(off, size, stride).
     size = 0 \<or> unat off + unat size * stride \<le> dex_len d)"

definition dex_parse_header :: "dex_file \<Rightarrow> (bool \<times> dex_file) option" where
  "dex_parse_header d =
     (if dex_len d < 112 then Some (False, d)
      else do {
        m0 \<leftarrow> dex_byte d 0; m1 \<leftarrow> dex_byte d 1; m2 \<leftarrow> dex_byte d 2; m3 \<leftarrow> dex_byte d 3;
        if [m0, m1, m2, m3] \<noteq> [0x64, 0x65, 0x78, 0x0a] then Some (False, d)
        else do {
          b7 \<leftarrow> dex_byte d 7;
          if b7 \<noteq> 0 then Some (False, d)
          else do {
            endian \<leftarrow> dex_u32_at d 40;
            if endian \<noteq> 0x12345678 then Some (False, d)
            else do {
              ss \<leftarrow> dex_u32_at d 56; so \<leftarrow> dex_u32_at d 60;
              ts \<leftarrow> dex_u32_at d 64; to \<leftarrow> dex_u32_at d 68;
              ps \<leftarrow> dex_u32_at d 72; po \<leftarrow> dex_u32_at d 76;
              fs \<leftarrow> dex_u32_at d 80; fo \<leftarrow> dex_u32_at d 84;
              ms \<leftarrow> dex_u32_at d 88; mo \<leftarrow> dex_u32_at d 92;
              cs \<leftarrow> dex_u32_at d 96; co \<leftarrow> dex_u32_at d 100;
              let d' = d\<lparr>string_ids_size := ss, string_ids_off := so,
                         type_ids_size := ts, type_ids_off := to,
                         proto_ids_size := ps, proto_ids_off := po,
                         field_ids_size := fs, field_ids_off := fo,
                         method_ids_size := ms, method_ids_off := mo,
                         class_defs_size := cs, class_defs_off := co\<rparr>;
              Some (list_all (pool_fits d')
                      [(so, ss, 4), (to, ts, 4), (po, ps, 12), (fo, fs, 8), (mo, ms, 8),
                       (co, cs, 32)], d') } } } })"

definition dex_close :: "dex_file \<Rightarrow> dex_file" where
  "dex_close d = dex_zero"

definition dex_open_memory ::
    "alloc \<Rightarrow> u8 list \<Rightarrow> string option \<Rightarrow> (bool \<times> dex_file) option" where
  "dex_open_memory al data path = do {
     let d = dex_zero\<lparr>dex_p := data, dex_len := length data,
               dex_path := (case path of None \<Rightarrow> None
                 | Some s \<Rightarrow> if al (length s + 1) then Some s else None)\<rparr>;
     (good, d) \<leftarrow> dex_parse_header d;
     if \<not> good then Some (False, dex_zero)
     else do {
       let n = (if string_ids_size d \<noteq> 0 then unat (string_ids_size d) else 1);
       let d = d\<lparr>dex_strings := (if al (n * 8) then Some (replicate n None) else None),
                 dex_fixups := (if al (n * 8) then Some (replicate n None) else None)\<rparr>;
       if dex_strings d = None \<or> dex_fixups d = None then Some (False, dex_close d)
       else Some (True, d) } }"

text \<open>
  What the host reports about one file: whether \<open>fseek\<close> to the end works, the position
  \<open>ftell\<close> gives there and the bytes a whole-file \<open>fread\<close> delivers.
\<close>

record host_file =
  hf_seek_ok :: bool
  hf_ftell :: int
  hf_fread :: "u8 list"

definition dex_open ::
    "alloc \<Rightarrow> (string \<Rightarrow> host_file option) \<Rightarrow> string \<Rightarrow> (bool \<times> dex_file) option" where
  "dex_open al fopen path =
     (case fopen path of
        None \<Rightarrow> Some (False, dex_zero)
      | Some f \<Rightarrow>
          if \<not> hf_seek_ok f then Some (False, dex_zero)
          else if hf_ftell f \<le> 0 then Some (False, dex_zero)
          else if \<not> al (nat (hf_ftell f)) then Some (False, dex_zero)
          else let buf = take (nat (hf_ftell f)) (hf_fread f) in
            if length buf \<noteq> nat (hf_ftell f) then Some (False, dex_zero)
            else do {
              (good, d) \<leftarrow> dex_open_memory al buf (Some path);
              Some (if good then (True, d\<lparr>dex_owned := Some buf\<rparr>) else (False, d)) })"

section \<open>Strings\<close>

definition c_char :: "u8 \<Rightarrow> char" where
  "c_char b = char_of (unat b)"

text \<open>The bytes \<open>[p, p + n)\<close> of the mapping, as \<open>memchr\<close> and \<open>memcpy\<close> read them.\<close>

definition dex_region :: "dex_file \<Rightarrow> nat \<Rightarrow> nat \<Rightarrow> u8 list option" where
  "dex_region d p n =
     (if p + n \<le> length (dex_p d) then Some (take n (drop p (dex_p d))) else None)"

fun mutf8_needs_fixup :: "u8 list \<Rightarrow> bool" where
  "mutf8_needs_fixup [] = False"
| "mutf8_needs_fixup (b # bs) =
     (if b = 0xed \<and> bs \<noteq> [] \<and> hd bs AND 0xf0 = 0xa0 then True else mutf8_needs_fixup bs)"

definition surrogate_pair :: "u8 list \<Rightarrow> bool" where
  "surrogate_pair s \<longleftrightarrow> 6 \<le> length s \<and> s ! 0 = 0xed \<and> s ! 1 AND 0xf0 = 0xa0 \<and>
     s ! 3 = 0xed \<and> s ! 4 AND 0xf0 = 0xb0"

definition fold_surrogates :: "u8 list \<Rightarrow> u8 list" where
  "fold_surrogates s =
     (let hi = 0xd800 OR push_bit 6 (ucast (s ! 1 AND 0x0f)) OR ucast (s ! 2 AND 0x3f) :: u32;
          lo = 0xdc00 OR push_bit 6 (ucast (s ! 4 AND 0x0f)) OR ucast (s ! 5 AND 0x3f) :: u32;
          cp = 0x10000 + push_bit 10 (hi - 0xd800) + (lo - 0xdc00)
      in [ucast (0xf0 OR drop_bit 18 cp), ucast (0x80 OR (drop_bit 12 cp AND 0x3f)),
          ucast (0x80 OR (drop_bit 6 cp AND 0x3f)), ucast (0x80 OR (cp AND 0x3f))])"

function mutf8_fold :: "u8 list \<Rightarrow> u8 list" where
  "mutf8_fold [] = []"
| "mutf8_fold (b # bs) =
     (if surrogate_pair (b # bs) then fold_surrogates (b # bs) @ mutf8_fold (drop 5 bs)
      else b # mutf8_fold bs)"
  by pat_completeness auto
termination
  by (relation "measure length") auto

definition mutf8_to_utf8 :: "alloc \<Rightarrow> u8 list \<Rightarrow> string option" where
  "mutf8_to_utf8 al s =
     (if al (length s + 1) then Some (map c_char (mutf8_fold s)) else None)"

definition dex_string :: "alloc \<Rightarrow> dex_file \<Rightarrow> u32 \<Rightarrow> (string option \<times> dex_file) option" where
  "dex_string al d idx =
     (if string_ids_size d \<le> idx then Some (None, d)
      else do {
        strs \<leftarrow> dex_strings d;
        cached \<leftarrow> c_at strs (unat idx);
        case cached of Some s \<Rightarrow> Some (Some s, d)
        | None \<Rightarrow> do {
            off \<leftarrow> dex_u32_at d (unat (string_ids_off d) + unat idx * 4);
            if dex_len d \<le> unat off then Some (None, d)
            else do {
              (p, utf16_len) \<leftarrow> dex_uleb d (unat off);
              if dex_len d \<le> p then Some (None, d)
              else do {
                tail \<leftarrow> dex_region d p (dex_len d - p);
                if 0 \<notin> set tail then Some (None, d)
                else
                  let raw = takeWhile (\<lambda>b. b \<noteq> 0) tail in
                  if mutf8_needs_fixup raw then
                    (case mutf8_to_utf8 al raw of
                       None \<Rightarrow> Some (None, d)
                     | Some fixed \<Rightarrow> do {
                         fs \<leftarrow> dex_fixups d;
                         fs' \<leftarrow> c_set fs (unat idx) (Some fixed);
                         strs' \<leftarrow> c_set strs (unat idx) (Some fixed);
                         Some (Some fixed, d\<lparr>dex_fixups := Some fs', dex_strings := Some strs'\<rparr>) })
                  else do {
                    strs' \<leftarrow> c_set strs (unat idx) (Some (map c_char raw));
                    Some (Some (map c_char raw), d\<lparr>dex_strings := Some strs'\<rparr>) } } } } })"

definition dex_type :: "alloc \<Rightarrow> dex_file \<Rightarrow> u32 \<Rightarrow> (string option \<times> dex_file) option" where
  "dex_type al d idx =
     (if type_ids_size d \<le> idx then Some (None, d)
      else do {
        s \<leftarrow> dex_u32_at d (unat (type_ids_off d) + unat idx * 4);
        dex_string al d s })"

section \<open>Id pools\<close>

record dex_method_id =
  mid_class_idx :: u16
  mid_proto_idx :: u16
  mid_name_idx :: u32

record dex_field_id =
  fid_class_idx :: u16
  fid_type_idx :: u16
  fid_name_idx :: u32

record dex_class_def =
  cd_class_idx :: u32
  cd_access_flags :: u32
  cd_superclass_idx :: u32
  cd_interfaces_off :: u32
  cd_source_file_idx :: u32
  cd_annotations_off :: u32
  cd_class_data_off :: u32
  cd_static_values_off :: u32

text \<open>\<open>false\<close> with the output untouched is \<open>Some None\<close>.\<close>

definition dex_method_id :: "dex_file \<Rightarrow> u32 \<Rightarrow> dex_method_id option option" where
  "dex_method_id d idx =
     (if method_ids_size d \<le> idx then Some None
      else do {
        let e = unat (method_ids_off d) + unat idx * 8;
        c \<leftarrow> dex_u16_at d e; p \<leftarrow> dex_u16_at d (e + 2); n \<leftarrow> dex_u32_at d (e + 4);
        Some (Some \<lparr>mid_class_idx = c, mid_proto_idx = p, mid_name_idx = n\<rparr>) })"

definition dex_field_id :: "dex_file \<Rightarrow> u32 \<Rightarrow> dex_field_id option option" where
  "dex_field_id d idx =
     (if field_ids_size d \<le> idx then Some None
      else do {
        let e = unat (field_ids_off d) + unat idx * 8;
        c \<leftarrow> dex_u16_at d e; t \<leftarrow> dex_u16_at d (e + 2); n \<leftarrow> dex_u32_at d (e + 4);
        Some (Some \<lparr>fid_class_idx = c, fid_type_idx = t, fid_name_idx = n\<rparr>) })"

definition dex_class_def :: "dex_file \<Rightarrow> u32 \<Rightarrow> dex_class_def option option" where
  "dex_class_def d idx =
     (if class_defs_size d \<le> idx then Some None
      else do {
        let e = unat (class_defs_off d) + unat idx * 32;
        c \<leftarrow> dex_u32_at d e; a \<leftarrow> dex_u32_at d (e + 4); s \<leftarrow> dex_u32_at d (e + 8);
        i \<leftarrow> dex_u32_at d (e + 12); f \<leftarrow> dex_u32_at d (e + 16); n \<leftarrow> dex_u32_at d (e + 20);
        k \<leftarrow> dex_u32_at d (e + 24); v \<leftarrow> dex_u32_at d (e + 28);
        Some (Some \<lparr>cd_class_idx = c, cd_access_flags = a, cd_superclass_idx = s,
                    cd_interfaces_off = i, cd_source_file_idx = f, cd_annotations_off = n,
                    cd_class_data_off = k, cd_static_values_off = v\<rparr>) })"

section \<open>Prototypes\<close>

definition dex_proto_shorty :: "alloc \<Rightarrow> dex_file \<Rightarrow> u32 \<Rightarrow> (string option \<times> dex_file) option" where
  "dex_proto_shorty al d proto_idx =
     (if proto_ids_size d \<le> proto_idx then Some (None, d)
      else do {
        s \<leftarrow> dex_u32_at d (unat (proto_ids_off d) + unat proto_idx * 12);
        dex_string al d s })"

definition dex_proto_return :: "alloc \<Rightarrow> dex_file \<Rightarrow> u32 \<Rightarrow> (string option \<times> dex_file) option" where
  "dex_proto_return al d proto_idx =
     (if proto_ids_size d \<le> proto_idx then Some (None, d)
      else do {
        t \<leftarrow> dex_u32_at d (unat (proto_ids_off d) + unat proto_idx * 12 + 4);
        dex_type al d t })"

text \<open>
  The loop \<open>for (i = 0; i < n && (int)i < max; ++i) out[i] = ...\<close>: the first argument is
  the number of entries left, \<open>out\<close> the caller's array of \<open>max\<close> pointers.
\<close>

fun proto_params_loop ::
    "nat \<Rightarrow> alloc \<Rightarrow> dex_file \<Rightarrow> u32 \<Rightarrow> u32 \<Rightarrow> string option list \<Rightarrow> int \<Rightarrow>
     (string option list \<times> dex_file) option" where
  "proto_params_loop 0 al d off i out max' = Some (out, d)"
| "proto_params_loop (Suc k) al d off i out max' =
     (if sint i < max' then do {
        t \<leftarrow> dex_u16_at d (unat (off + 4) + unat i * 2);
        (s, d) \<leftarrow> dex_type al d (ucast t);
        out \<leftarrow> c_set out (unat i) s;
        proto_params_loop k al d off (i + 1) out max' }
      else Some (out, d))"

definition dex_proto_params ::
    "alloc \<Rightarrow> dex_file \<Rightarrow> u32 \<Rightarrow> string option list \<Rightarrow> int \<Rightarrow>
     ((int \<times> string option list) \<times> dex_file) option" where
  "dex_proto_params al d proto_idx out max' =
     (if proto_ids_size d \<le> proto_idx then Some ((-1, out), d)
      else do {
        off \<leftarrow> dex_u32_at d (unat (proto_ids_off d) + unat proto_idx * 12 + 8);
        if off = 0 then Some ((0, out), d)
        else if dex_len d < unat (off + 4) then Some ((-1, out), d)
        else do {
          n \<leftarrow> dex_u32_at d (unat off);
          if dex_len d < unat (off + 4) + unat n * 2 then Some ((-1, out), d)
          else do {
            (out, d) \<leftarrow> proto_params_loop (unat n) al d off 0 out max';
            Some ((sint n, out), d) } } })"

text \<open>
  \<open>dex_proto_signature\<close> fills the \<open>buf_sz\<close> bytes at \<open>buf\<close>; a store behind them is a fault.
  \<open>Some None\<close> is \<open>false\<close>.
\<close>

fun proto_sig_loop :: "string option list \<Rightarrow> string \<Rightarrow> nat \<Rightarrow> nat \<Rightarrow> string option option" where
  "proto_sig_loop [] buf rl buf_sz = Some (Some buf)"
| "proto_sig_loop (None # ps) buf rl buf_sz = Some None"
| "proto_sig_loop (Some t # ps) buf rl buf_sz =
     (if buf_sz < length buf + length t + 2 + rl then Some None
      else do { buf \<leftarrow> buf_put buf_sz buf t; proto_sig_loop ps buf rl buf_sz })"

definition proto_sig_store :: "string option list \<Rightarrow> string \<Rightarrow> nat \<Rightarrow> string option option" where
  "proto_sig_store params ret buf_sz =
     (if buf_sz < 3 then Some None
      else do {
        buf \<leftarrow> buf_put buf_sz [] ''('';
        res \<leftarrow> proto_sig_loop params buf (length ret) buf_sz;
        case res of None \<Rightarrow> Some None
        | Some buf \<Rightarrow> do {
            buf \<leftarrow> buf_put buf_sz buf '')'';
            if buf_sz < length buf + length ret + 1 then Some None
            else do {
              buf \<leftarrow> buf_put buf_sz buf ret;
              _ \<leftarrow> buf_put buf_sz buf [CHR 0x00];
              Some (Some buf) } } })"

definition dex_proto_signature ::
    "alloc \<Rightarrow> dex_file \<Rightarrow> u32 \<Rightarrow> nat \<Rightarrow> (string option \<times> dex_file) option" where
  "dex_proto_signature al d proto_idx buf_sz = do {
     ((n, params), d) \<leftarrow> dex_proto_params al d proto_idx (replicate 256 None) 256;
     if n < 0 \<or> 256 < n then Some (None, d)
     else do {
       (ret, d) \<leftarrow> dex_proto_return al d proto_idx;
       case ret of None \<Rightarrow> Some (None, d)
       | Some r \<Rightarrow> do {
           res \<leftarrow> proto_sig_store (take (nat n) params) r buf_sz;
           Some (res, d) } } }"

fun sig_alloc_size :: "string option list \<Rightarrow> nat \<Rightarrow> nat option" where
  "sig_alloc_size [] size' = Some size'"
| "sig_alloc_size (None # ps) size' = None"
| "sig_alloc_size (Some t # ps) size' =
     (if 2 ^ 64 - 1 - size' < length t then None else sig_alloc_size ps (size' + length t))"

definition dex_proto_signature_alloc ::
    "alloc \<Rightarrow> dex_file \<Rightarrow> u32 \<Rightarrow> (string option \<times> dex_file) option" where
  "dex_proto_signature_alloc al d proto_idx = do {
     ((n, params), d) \<leftarrow> dex_proto_params al d proto_idx (replicate 256 None) 256;
     (ret, d) \<leftarrow> dex_proto_return al d proto_idx;
     case ret of None \<Rightarrow> Some (None, d)
     | Some r \<Rightarrow>
         if n < 0 \<or> 256 < n then Some (None, d)
         else (case sig_alloc_size (take (nat n) params) (length r + 3) of
             None \<Rightarrow> Some (None, d)
           | Some size' \<Rightarrow>
               if al size' then dex_proto_signature al d proto_idx size'
               else Some (None, d)) }"


section \<open>Reads stay inside the mapping\<close>

definition dex_mapped :: "dex_file \<Rightarrow> bool" where
  "dex_mapped d \<longleftrightarrow> dex_len d = length (dex_p d)"

lemma dex_byte_in [simp]: "dex_mapped d \<Longrightarrow> off < dex_len d \<Longrightarrow> dex_byte d off = Some (dex_p d ! off)"
  by (simp add: dex_byte_def dex_mapped_def)

definition rd16 :: "dex_file \<Rightarrow> nat \<Rightarrow> u16" where
  "rd16 d off = (if dex_len d < off + 2 then 0 else le16 (dex_p d ! off) (dex_p d ! (off + 1)))"

definition rd32 :: "dex_file \<Rightarrow> nat \<Rightarrow> u32" where
  "rd32 d off = (if dex_len d < off + 4 then 0
     else le32 (dex_p d ! off) (dex_p d ! (off + 1)) (dex_p d ! (off + 2)) (dex_p d ! (off + 3)))"

lemma dex_u16_at_eq [simp]: "dex_mapped d \<Longrightarrow> dex_u16_at d off = Some (rd16 d off)"
  by (simp add: dex_u16_at_def rd16_def)

lemma dex_u32_at_eq [simp]: "dex_mapped d \<Longrightarrow> dex_u32_at d off = Some (rd32 d off)"
  by (simp add: dex_u32_at_def rd32_def)

lemma dex_region_eq [simp]:
  "dex_mapped d \<Longrightarrow> p \<le> dex_len d \<Longrightarrow> dex_region d p (dex_len d - p) = Some (drop p (dex_p d))"
  by (simp add: dex_region_def dex_mapped_def)

text \<open>
  A decoder over the image: when it returns, it has not moved backwards, and started inside
  the mapping it ends inside the mapping.  A bounded decoder also returns on every mapping.
\<close>

locale cursor_decoder =
  fixes dec :: "dex_file \<Rightarrow> nat \<Rightarrow> (nat \<times> 'v) option"
  assumes dec_moves: "dex_mapped d \<Longrightarrow> dec d off = Some (q, v) \<Longrightarrow> off \<le> q \<and> (off \<le> dex_len d \<longrightarrow> q \<le> dex_len d)"
begin

lemma dec_mono: "dex_mapped d \<Longrightarrow> dec d off = Some (q, v) \<Longrightarrow> off \<le> q"
  using dec_moves by simp

lemma dec_bound: "dex_mapped d \<Longrightarrow> dec d off = Some (q, v) \<Longrightarrow> off \<le> dex_len d \<Longrightarrow> q \<le> dex_len d"
  using dec_moves by simp

end

locale bounded_decoder = cursor_decoder +
  assumes dec_returns: "dex_mapped d \<Longrightarrow> \<exists>q v. dec d off = Some (q, v)"
begin

lemma dec_inside:
  "dex_mapped d \<Longrightarrow> off \<le> dex_len d \<Longrightarrow> ok (dec d off) (\<lambda>(q, v). off \<le> q \<and> q \<le> dex_len d)"
  using dec_returns [of d off] dec_moves [of d off] by auto

end

lemma dex_uleb_loop_ok:
  "dex_mapped d \<Longrightarrow> ok (dex_uleb_loop k d off v s)
     (\<lambda>(q, v). off \<le> q \<and> q \<le> off + k \<and> (off \<le> dex_len d \<longrightarrow> q \<le> dex_len d))"
proof (induction k arbitrary: off v s)
  case 0
  then show ?case by simp
next
  case (Suc k)
  show ?case
    using Suc.prems by (auto simp: Let_def intro: ok_mono [OF Suc.IH])
qed

lemma dex_sleb_loop_moves:
  "dex_mapped d \<Longrightarrow> dex_sleb_loop k d off v s b = Some (q, w) \<Longrightarrow>
     off \<le> q \<and> (off \<le> dex_len d \<longrightarrow> q \<le> dex_len d)"
proof (induction k arbitrary: off v s b)
  case 0
  then show ?case by simp
next
  case (Suc k)
  from Suc.prems show ?case
    using Suc.IH [OF Suc.prems(1), of "Suc off"]
    by (auto simp: Let_def bind_eq_Some_conv split: if_splits dest: Suc_leD)
qed

interpretation uleb: bounded_decoder dex_uleb
proof
  fix d off q and v :: u32
  assume m: "dex_mapped d"
  note ok = dex_uleb_loop_ok [OF m, of 5 off 0 0]
  show "\<exists>q v. dex_uleb d off = Some (q, v)"
    using ok by (auto simp: dex_uleb_def elim!: okE)
  show "off \<le> q \<and> (off \<le> dex_len d \<longrightarrow> q \<le> dex_len d)" if "dex_uleb d off = Some (q, v)"
    using ok that by (auto simp: dex_uleb_def)
qed

interpretation sleb: cursor_decoder dex_sleb
  by standard (simp add: dex_sleb_def dex_sleb_loop_moves)

interpretation ulebp1: cursor_decoder dex_ulebp1
  by standard (auto simp: dex_ulebp1_def bind_eq_Some_conv dest: uleb.dec_moves)

text \<open>Started inside the mapping, \<open>dex_uleb\<close> consumes at least one byte.\<close>

lemma dex_uleb_progress:
  assumes "dex_mapped d" and "off < dex_len d" and "dex_uleb d off = Some (q, v)"
  shows "off < q"
proof -
  let ?b = "dex_p d ! off"
  have "ok (dex_uleb_loop 4 d (Suc off) (ucast (?b AND 0x7f)) 7) (\<lambda>(q, v). Suc off \<le> q)"
    using dex_uleb_loop_ok [OF assms(1), of 4 "Suc off"] by (rule ok_mono) auto
  with assms show ?thesis
    by (auto simp: dex_uleb_def numeral_eq_Suc Let_def split: if_splits)
qed

section \<open>The string pool refines a pure lookup\<close>

text \<open>
  Two views are the same image when they differ in the lazily filled string tables only.
\<close>

definition dex_frozen :: "dex_file \<Rightarrow> dex_file" where
  "dex_frozen d = d\<lparr>dex_strings := None, dex_fixups := None\<rparr>"

definition same_image :: "dex_file \<Rightarrow> dex_file \<Rightarrow> bool" where
  "same_image d d' \<longleftrightarrow> dex_frozen d = dex_frozen d'"

lemma same_image_refl [intro]: "same_image d d"
  by (simp add: same_image_def)

lemma same_image_trans: "same_image a b \<Longrightarrow> same_image b c \<Longrightarrow> same_image a c"
  by (simp add: same_image_def)

lemma same_image_fields:
  assumes "same_image d d'"
  shows "dex_p d' = dex_p d" "dex_len d' = dex_len d"
    "string_ids_size d' = string_ids_size d" "string_ids_off d' = string_ids_off d"
    "type_ids_size d' = type_ids_size d" "type_ids_off d' = type_ids_off d"
    "proto_ids_size d' = proto_ids_size d" "proto_ids_off d' = proto_ids_off d"
    "field_ids_size d' = field_ids_size d" "field_ids_off d' = field_ids_off d"
    "method_ids_size d' = method_ids_size d" "method_ids_off d' = method_ids_off d"
    "class_defs_size d' = class_defs_size d" "class_defs_off d' = class_defs_off d"
    "cls_hash d' = cls_hash d" "cls_hash_cap d' = cls_hash_cap d"
  using assms by (cases d; cases d'; simp add: same_image_def dex_frozen_def)+

lemma same_image_tables [simp]:
  "same_image d (d\<lparr>dex_strings := a\<rparr>)"
  "same_image d (d\<lparr>dex_fixups := b, dex_strings := a\<rparr>)"
  by (simp_all add: same_image_def dex_frozen_def)

lemma same_image_rd:
  assumes "same_image d d'"
  shows "rd32 d' = rd32 d" "rd16 d' = rd16 d" "dex_mapped d' = dex_mapped d"
  using same_image_fields [OF assms]
  by (auto simp: rd32_def rd16_def dex_mapped_def fun_eq_iff)

lemma dex_uleb_loop_cong:
  "dex_p d' = dex_p d \<Longrightarrow> dex_len d' = dex_len d \<Longrightarrow>
   dex_uleb_loop k d' off v s = dex_uleb_loop k d off v s"
  by (induction k arbitrary: off v s) (auto simp: dex_byte_def Let_def cong: if_cong)

lemma dex_uleb_same: "same_image d d' \<Longrightarrow> dex_uleb d' = dex_uleb d"
  by (rule ext) (simp add: dex_uleb_def dex_uleb_loop_cong [OF same_image_fields(1,2)])

lemmas same_image_simps = same_image_fields same_image_rd dex_uleb_same

text \<open>The string the pool entry denotes, computed from the image alone.\<close>

definition raw_string :: "u8 list \<Rightarrow> u8 list option" where
  "raw_string tail = (if 0 \<in> set tail then Some (takeWhile (\<lambda>b. b \<noteq> 0) tail) else None)"

definition decode_raw :: "alloc \<Rightarrow> u8 list \<Rightarrow> string option" where
  "decode_raw al raw = (if mutf8_needs_fixup raw then mutf8_to_utf8 al raw else Some (map c_char raw))"

definition string_res :: "alloc \<Rightarrow> dex_file \<Rightarrow> u32 \<Rightarrow> string option" where
  "string_res al d idx =
     (if string_ids_size d \<le> idx then None
      else let off = unat (rd32 d (unat (string_ids_off d) + unat idx * 4)) in
        if dex_len d \<le> off then None
        else do {
          (p, utf16_len) \<leftarrow> dex_uleb d off;
          raw \<leftarrow> (if dex_len d \<le> p then None else raw_string (drop p (dex_p d)));
          decode_raw al raw })"

definition type_res :: "alloc \<Rightarrow> dex_file \<Rightarrow> u32 \<Rightarrow> string option" where
  "type_res al d idx =
     (if type_ids_size d \<le> idx then None
      else string_res al d (rd32 d (unat (type_ids_off d) + unat idx * 4)))"

lemma string_res_same: "same_image d d' \<Longrightarrow> string_res al d' = string_res al d"
  by (rule ext) (simp add: string_res_def same_image_simps [of d d'] Let_def cong: if_cong)

lemma type_res_same: "same_image d d' \<Longrightarrow> type_res al d' = type_res al d"
  by (rule ext) (simp add: type_res_def same_image_simps [of d d'] string_res_same [of d d'])

text \<open>
  The representation invariant: the tables are allocated, and a filled entry of the string
  table holds what the image says.
\<close>

definition strings_ok :: "alloc \<Rightarrow> dex_file \<Rightarrow> string option list \<Rightarrow> bool" where
  "strings_ok al d strs \<longleftrightarrow> unat (string_ids_size d) \<le> length strs \<and>
     (\<forall>idx s. idx < string_ids_size d \<longrightarrow> strs ! unat idx = Some s \<longrightarrow> string_res al d idx = Some s)"

definition dex_inv :: "alloc \<Rightarrow> dex_file \<Rightarrow> bool" where
  "dex_inv al d \<longleftrightarrow> dex_mapped d
     \<and> (\<exists>strs. dex_strings d = Some strs \<and> strings_ok al d strs)
     \<and> (\<exists>fs. dex_fixups d = Some fs \<and> unat (string_ids_size d) \<le> length fs)"

lemma dex_inv_mapped: "dex_inv al d \<Longrightarrow> dex_mapped d"
  by (simp add: dex_inv_def)

text \<open>
  \<open>dok al d m Q\<close>: the run \<open>m\<close> of an accessor on the view \<open>d\<close> ends without a fault, keeps
  the invariant and the image, and its result satisfies \<open>Q\<close>.
\<close>

definition dok :: "alloc \<Rightarrow> dex_file \<Rightarrow> ('a \<times> dex_file) option \<Rightarrow> ('a \<Rightarrow> bool) \<Rightarrow> bool" where
  "dok al d m Q \<longleftrightarrow> ok m (\<lambda>(r, d'). dex_inv al d' \<and> same_image d d' \<and> Q r)"

lemma dok_ret: "dex_inv al d \<Longrightarrow> Q r \<Longrightarrow> dok al d (Some (r, d)) Q"
  by (auto simp: dok_def)

lemma dok_mono: "dok al d m P \<Longrightarrow> (\<And>r. P r \<Longrightarrow> Q r) \<Longrightarrow> dok al d m Q"
  unfolding dok_def by (erule ok_mono) auto

lemma dok_bind:
  assumes "dok al d m P"
    and "\<And>r d'. P r \<Longrightarrow> dex_inv al d' \<Longrightarrow> same_image d d' \<Longrightarrow> dok al d' (f (r, d')) Q"
  shows "dok al d (m \<bind> f) Q"
  using assms(1) unfolding dok_def
proof (rule ok_bind)
  fix x
  assume x: "case x of (r, d') \<Rightarrow> dex_inv al d' \<and> same_image d d' \<and> P r"
  obtain r d' where [simp]: "x = (r, d')" by (cases x)
  from x assms(2) [of r d'] show "ok (f x) (\<lambda>(r, d'). dex_inv al d' \<and> same_image d d' \<and> Q r)"
    by (auto simp: dok_def elim!: ok_mono intro: same_image_trans)
qed

lemma dok_read: "ok m P \<Longrightarrow> (\<And>x. P x \<Longrightarrow> dok al d (f x) Q) \<Longrightarrow> dok al d (m \<bind> f) Q"
  unfolding dok_def by (rule ok_bind)

lemma dokE:
  assumes "dok al d m Q"
  obtains r d' where "m = Some (r, d')" "dex_inv al d'" "same_image d d'" "Q r"
  using assms by (auto simp: dok_def elim!: okE)

lemma decode_raw_split:
  "decode_raw al raw = (if mutf8_needs_fixup raw then mutf8_to_utf8 al raw else Some (map c_char raw))"
  by (simp add: decode_raw_def)

lemma strings_ok_update:
  assumes "strings_ok al d strs" and "idx < string_ids_size d" and "string_res al d idx = Some s"
  shows "strings_ok al d (strs[unat idx := Some s])"
proof -
  have "strs[unat idx := Some s] ! unat i = (if i = idx then Some s else strs ! unat i)"
    if "i < string_ids_size d" for i
    using assms(1) that
    by (cases "i = idx") (simp_all add: strings_ok_def word_less_nat_alt word_unat_eq_iff)
  with assms show ?thesis by (auto simp: strings_ok_def split: if_splits)
qed

lemma dex_inv_store:
  assumes "dex_inv al d" and "dex_strings d = Some strs" and "idx < string_ids_size d"
    and "string_res al d idx = Some s"
  shows "dex_inv al (d\<lparr>dex_strings := Some (strs[unat idx := Some s])\<rparr>)" (is "dex_inv al ?d1")
    and "dex_fixups d = Some fs \<Longrightarrow>
      dex_inv al (d\<lparr>dex_fixups := Some (fs[unat idx := f]), dex_strings := Some (strs[unat idx := Some s])\<rparr>)"
proof -
  have st: "strings_ok al d (strs[unat idx := Some s])"
    using assms by (intro strings_ok_update) (auto simp: dex_inv_def)
  have same: "strings_ok al d' xs = strings_ok al d xs" if "same_image d d'" for d' xs
    using that by (simp add: strings_ok_def same_image_simps [OF that] string_res_same [OF that])
  show "dex_inv al ?d1"
    using assms(1) st same [of ?d1] by (auto simp: dex_inv_def dex_mapped_def)
  show "dex_inv al (d\<lparr>dex_fixups := Some (fs[unat idx := f]), dex_strings := Some (strs[unat idx := Some s])\<rparr>)"
    if "dex_fixups d = Some fs"
    using assms(1) st same [of "d\<lparr>dex_fixups := Some (fs[unat idx := f]), dex_strings := Some (strs[unat idx := Some s])\<rparr>"] that
    by (auto simp: dex_inv_def dex_mapped_def)
qed

lemma dex_string_dok: 
  assumes inv: "dex_inv al d"
  shows "dok al d (dex_string al d idx) (\<lambda>r. r = string_res al d idx)"
proof (cases "string_ids_size d \<le> idx")
  case True
  with inv show ?thesis by (auto simp: dex_string_def dok_def string_res_def)
next
  case False
  then have lt: "idx < string_ids_size d" by simp
  from inv obtain strs fs where strs: "dex_strings d = Some strs" "strings_ok al d strs"
    and fs: "dex_fixups d = Some fs" "unat (string_ids_size d) \<le> length fs" and m: "dex_mapped d"
    by (auto simp: dex_inv_def)
  have i: "unat idx < length strs" "unat idx < length fs"
    using lt strs(2) fs(2) by (auto simp: strings_ok_def word_less_nat_alt)
  show ?thesis
  proof (cases "strs ! unat idx")
    case (Some s)
    with strs lt i inv show ?thesis by (auto simp: dex_string_def dok_def strings_ok_def)
  next
    case None
    let ?off = "unat (rd32 d (unat (string_ids_off d) + unat idx * 4))"
    obtain p u where u: "dex_uleb d ?off = Some (p, u)" using uleb.dec_returns [OF m] by blast
    note store = dex_inv_store [OF inv strs(1) lt]
    show ?thesis
      using None lt i inv m strs(1) fs u store(1) store(2) [OF _ fs(1)]
      by (auto simp: dex_string_def dok_def string_res_def raw_string_def decode_raw_def Let_def
          split: option.splits)
  qed
qed

lemma dex_type_dok:
  "dex_inv al d \<Longrightarrow> dok al d (dex_type al d idx) (\<lambda>r. r = type_res al d idx)"
  using dex_string_dok [of al d] dex_inv_mapped [of al d]
  by (auto simp: dex_type_def type_res_def intro: dok_ret)

lemma dex_proto_shorty_dok:
  "dex_inv al d \<Longrightarrow> dok al d (dex_proto_shorty al d i) (\<lambda>r. proto_ids_size d \<le> i \<longrightarrow> r = None)"
  using dex_string_dok [of al d] dex_inv_mapped [of al d]
  by (auto simp: dex_proto_shorty_def intro: dok_ret dok_mono)

definition proto_return_res :: "alloc \<Rightarrow> dex_file \<Rightarrow> u32 \<Rightarrow> string option" where
  "proto_return_res al d i =
     (if proto_ids_size d \<le> i then None
      else type_res al d (rd32 d (unat (proto_ids_off d) + unat i * 12 + 4)))"

lemma dex_proto_return_dok:
  "dex_inv al d \<Longrightarrow> dok al d (dex_proto_return al d i) (\<lambda>r. r = proto_return_res al d i)"
  using dex_type_dok [of al d] dex_inv_mapped [of al d]
  by (auto simp: dex_proto_return_def proto_return_res_def intro: dok_ret)

text \<open>Parameter \<open>i\<close> of the type list at \<open>off\<close>.\<close>

definition param_res :: "alloc \<Rightarrow> dex_file \<Rightarrow> u32 \<Rightarrow> nat \<Rightarrow> string option" where
  "param_res al d off i = type_res al d (ucast (rd16 d (unat (off + 4) + i * 2)))"

lemma param_res_same: "same_image d d' \<Longrightarrow> param_res al d' = param_res al d"
  by (rule ext)+ (simp add: param_res_def same_image_rd [of d d'] type_res_same [of d d'])

definition fill :: "'a list \<Rightarrow> nat \<Rightarrow> nat \<Rightarrow> (nat \<Rightarrow> 'a) \<Rightarrow> 'a list" where
  "fill xs i j f = map (\<lambda>k. if i \<le> k \<and> k < j then f k else xs ! k) [0..<length xs]"

lemma fill_step: "i < j \<Longrightarrow> i < length xs \<Longrightarrow> fill (xs[i := f i]) (Suc i) j f = fill xs i j f"
  by (auto simp: fill_def nth_list_update intro!: map_cong)

lemma fill_empty: "j \<le> i \<Longrightarrow> fill xs i j f = xs"
  by (intro nth_equalityI) (auto simp: fill_def)

lemma fill_beyond: "length xs \<le> i \<Longrightarrow> fill xs i j f = xs"
  by (intro nth_equalityI) (auto simp: fill_def)

lemma fill_length [simp]: "length (fill xs i j f) = length xs"
  by (simp add: fill_def)

lemma fill_nth: "k < length xs \<Longrightarrow> fill xs i j f ! k = (if i \<le> k \<and> k < j then f k else xs ! k)"
  by (simp add: fill_def)

lemma proto_params_loop_dok:
  "dex_inv al d \<Longrightarrow> unat i \<le> length out \<Longrightarrow> length out < 2 ^ 31 \<Longrightarrow> unat i + k < 2 ^ 32 \<Longrightarrow>
   dok al d (proto_params_loop k al d off i out (int (length out)))
     (\<lambda>r. r = fill out (unat i) (unat i + k) (param_res al d off))"
proof (induction k arbitrary: d i out)
  case 0
  then show ?case by (auto simp: fill_empty intro: dok_ret)
next
  case (Suc k)
  have s: "sint i = int (unat i)" using Suc.prems(2,3) by (intro sint_small) simp
  have m: "dex_mapped d" using Suc.prems(1) by (rule dex_inv_mapped)
  show ?case
  proof (cases "unat i < length out")
    case False
    with Suc.prems s show ?thesis by (auto simp: fill_beyond intro: dok_ret)
  next
    case True
    have si: "unat (i + 1) = Suc (unat i)"
      using Suc.prems(4) by (simp add: unat_word_ariths)
    let ?t = "ucast (rd16 d (unat (off + 4) + unat i * 2)) :: u32"
    have "dok al d (dex_type al d ?t \<bind> (\<lambda>(s, d). c_set out (unat i) s \<bind>
        (\<lambda>out. proto_params_loop k al d off (i + 1) out (int (length out)))))
        (\<lambda>r. r = fill out (unat i) (unat i + Suc k) (param_res al d off))"
    proof (rule dok_bind [OF dex_type_dok [OF Suc.prems(1)]])
      fix r d'
      assume r: "r = type_res al d ?t" and d': "dex_inv al d'" "same_image d d'"
      have "dok al d' (proto_params_loop k al d' off (i + 1) (out[unat i := r]) (int (length (out[unat i := r]))))
        (\<lambda>x. x = fill (out[unat i := r]) (unat (i + 1)) (unat (i + 1) + k) (param_res al d' off))"
        using True Suc.prems si by (intro Suc.IH [OF d'(1)]) auto
      moreover have "fill (out[unat i := r]) (unat (i + 1)) (unat (i + 1) + k) (param_res al d' off)
          = fill out (unat i) (unat i + Suc k) (param_res al d off)"
        using True r fill_step [of "unat i" "unat i + Suc k" out "param_res al d off"]
        by (simp add: si param_res_same [OF d'(2)] param_res_def)
      ultimately show "dok al d' (case (r, d') of (s, d) \<Rightarrow> c_set out (unat i) s \<bind>
        (\<lambda>out. proto_params_loop k al d off (i + 1) out (int (length out))))
        (\<lambda>r. r = fill out (unat i) (unat i + Suc k) (param_res al d off))"
        using True by simp
    qed
    moreover have "int (length out) = int (length (out[unat i := s]))" for s by simp
    moreover have "sint i < int (length out)"
      unfolding s using True by (simp only: of_nat_less_iff)
    ultimately show ?thesis using True m by (simp add: c_set_def)
  qed
qed

definition proto_off :: "dex_file \<Rightarrow> u32 \<Rightarrow> u32" where
  "proto_off d i = rd32 d (unat (proto_ids_off d) + unat i * 12 + 8)"

definition proto_count :: "dex_file \<Rightarrow> u32 \<Rightarrow> int" where
  "proto_count d i =
     (let off = proto_off d i; n = rd32 d (unat off) in
      if proto_ids_size d \<le> i then -1
      else if off = 0 then 0
      else if dex_len d < unat (off + 4) + unat n * 2 then -1
      else sint n)"

lemma proto_same:
  assumes "same_image d d'"
  shows "proto_count d' = proto_count d" "proto_off d' = proto_off d"
    "proto_return_res al d' = proto_return_res al d"
  using assms
  by (auto simp: fun_eq_iff proto_count_def proto_off_def proto_return_res_def
      same_image_fields [OF assms] same_image_rd [OF assms] type_res_same [OF assms] Let_def
      cong: if_cong)

lemma dex_proto_params_dok:
  assumes "dex_inv al d" and "length out < 2 ^ 31"
  shows "dok al d (dex_proto_params al d i out (int (length out)))
    (\<lambda>(n, ps). n = proto_count d i \<and> length ps = length out \<and>
       (0 \<le> n \<longrightarrow> ps = fill out 0 (nat n) (param_res al d (proto_off d i))))"
proof -
  have m: "dex_mapped d" using assms(1) by (rule dex_inv_mapped)
  let ?off = "proto_off d i" and ?n = "rd32 d (unat (proto_off d i))"
  have loop: "dok al d (proto_params_loop (unat ?n) al d ?off 0 out (int (length out)) \<bind>
      (\<lambda>(out, d). Some ((sint ?n, out), d)))
    (\<lambda>(n, ps). n = sint ?n \<and> length ps = length out \<and>
       (0 \<le> n \<longrightarrow> ps = fill out 0 (nat n) (param_res al d ?off)))"
    using assms unsigned_less [of ?n]
    by (intro dok_bind [OF proto_params_loop_dok]) (auto intro!: dok_ret simp: sint_nonneg_unat)
  show ?thesis
    using m loop assms(1)
    by (auto simp: dex_proto_params_def proto_count_def Let_def fill_empty intro!: dok_ret
        simp flip: proto_off_def)
qed

text \<open>The loop stays inside the buffer, and leaves room for \<open>')'\<close>, the return type and the NUL.\<close>

definition sig_filled :: "string option list \<Rightarrow> string \<Rightarrow> nat \<Rightarrow> nat \<Rightarrow> string option \<Rightarrow> bool" where
  "sig_filled ps buf rl sz r \<longleftrightarrow>
     (\<forall>s. r = Some s \<longrightarrow> None \<notin> set ps \<and> s = buf @ concat (map the ps) \<and> (ps \<noteq> [] \<longrightarrow> length s + 2 + rl \<le> sz)) \<and>
     (None \<notin> set ps \<longrightarrow> length buf + length (concat (map the ps)) + 2 + rl \<le> sz \<longrightarrow>
        r = Some (buf @ concat (map the ps)))"

lemma proto_sig_loop_ok: "ok (proto_sig_loop ps buf rl sz) (sig_filled ps buf rl sz)"
proof (induction ps arbitrary: buf)
  case Nil
  then show ?case by (simp add: sig_filled_def)
next
  case (Cons p ps)
  show ?case
  proof (cases p)
    case None
    then show ?thesis by (simp add: sig_filled_def)
  next
    case (Some t)
    show ?thesis
    proof (cases "sz < length buf + length t + 2 + rl")
      case True
      with Some show ?thesis by (simp add: sig_filled_def)
    next
      case False
      with Some Cons.IH [of "buf @ t"] show ?thesis
        by (auto simp: sig_filled_def elim!: ok_mono)
    qed
  qed
qed

lemma proto_sig_store_eq:
  "proto_sig_store ps r sz =
     Some (if None \<notin> set ps \<and> length (concat (map the ps)) + length r + 3 \<le> sz
           then Some (''('' @ concat (map the ps) @ '')'' @ r) else None)"
proof (cases "sz < 3")
  case True
  then show ?thesis by (simp add: proto_sig_store_def)
next
  case False
  obtain res where res: "proto_sig_loop ps ''('' (length r) sz = Some res"
    "sig_filled ps ''('' (length r) sz res"
    by (rule okE [OF proto_sig_loop_ok])
  show ?thesis
  proof (cases res)
    case None
    with False res show ?thesis by (auto simp: proto_sig_store_def sig_filled_def)
  next
    case (Some buf)
    with res(2) have "None \<notin> set ps" "buf = ''('' @ concat (map the ps)"
      "ps \<noteq> [] \<longrightarrow> length buf + 2 + length r \<le> sz"
      unfolding sig_filled_def by blast+
    then show ?thesis using False res(1) Some by (cases ps) (simp_all add: proto_sig_store_def)
  qed
qed

text \<open>The descriptor a prototype denotes.\<close>

definition proto_types :: "alloc \<Rightarrow> dex_file \<Rightarrow> u32 \<Rightarrow> string option list" where
  "proto_types al d i = map (param_res al d (proto_off d i)) [0..<nat (proto_count d i)]"

definition signature_res :: "alloc \<Rightarrow> dex_file \<Rightarrow> u32 \<Rightarrow> string option" where
  "signature_res al d i =
     (if proto_count d i < 0 \<or> 256 < proto_count d i \<or> None \<in> set (proto_types al d i) then None
      else map_option (\<lambda>r. ''('' @ concat (map the (proto_types al d i)) @ '')'' @ r)
             (proto_return_res al d i))"

lemma take_fill:
  "n \<le> length xs \<Longrightarrow> take n (fill xs 0 n f) = map f [0..<n]"
  by (intro nth_equalityI) (auto simp: fill_nth)

lemma dex_proto_signature_dok:
  assumes "dex_inv al d"
  shows "dok al d (dex_proto_signature al d i sz)
    (\<lambda>r. (\<forall>s. r = Some s \<longrightarrow> signature_res al d i = Some s \<and> length s + 1 \<le> sz) \<and>
         (\<forall>s. signature_res al d i = Some s \<longrightarrow> length s + 1 \<le> sz \<longrightarrow> r = Some s))"
  unfolding dex_proto_signature_def
proof (rule dok_bind)
  show "dok al d (dex_proto_params al d i (replicate 256 None) 256)
    (\<lambda>(n, ps). n = proto_count d i \<and> length ps = 256 \<and>
       (0 \<le> n \<longrightarrow> ps = fill (replicate 256 None) 0 (nat n) (param_res al d (proto_off d i))))"
    using dex_proto_params_dok [OF assms, of "replicate 256 None"] by simp
next
  fix np d1
  let ?Q = "\<lambda>r. (\<forall>s. r = Some s \<longrightarrow> signature_res al d i = Some s \<and> length s + 1 \<le> sz) \<and>
         (\<forall>s. signature_res al d i = Some s \<longrightarrow> length s + 1 \<le> sz \<longrightarrow> r = Some s)"
  assume np: "case np of (n, ps) \<Rightarrow> n = proto_count d i \<and> length ps = 256 \<and>
       (0 \<le> n \<longrightarrow> ps = fill (replicate 256 None) 0 (nat n) (param_res al d (proto_off d i)))"
    and d1: "dex_inv al d1" "same_image d d1"
  obtain n ps where [simp]: "np = (n, ps)" by (cases np)
  from np have n: "n = proto_count d i" by simp
  have types: "take (nat n) ps = proto_types al d i" if "0 \<le> n" "n \<le> 256"
    using np that by (auto simp: proto_types_def take_fill)
  have ret: "dok al d1 (dex_proto_return al d1 i) (\<lambda>r. r = proto_return_res al d i)"
    using dex_proto_return_dok [OF d1(1)] proto_same(3) [OF d1(2)] by simp
  show "dok al d1 (case (np, d1) of (x, d1) \<Rightarrow> (case x of (n, params) \<Rightarrow> \<lambda>d.
      if n < 0 \<or> 256 < n then Some (None, d)
      else dex_proto_return al d i \<bind> (\<lambda>(ret, d). case ret of None \<Rightarrow> Some (None, d)
        | Some r \<Rightarrow> proto_sig_store (take (nat n) params) r sz \<bind> (\<lambda>res. Some (res, d)))) d1) ?Q"
  proof (cases "n < 0 \<or> 256 < n")
    case True
    with d1 n show ?thesis by (auto simp: signature_res_def intro!: dok_ret)
  next
    case False
    with types show ?thesis
      by (auto intro!: dok_bind [OF ret] dok_ret simp: signature_res_def n [symmetric]
          proto_sig_store_eq split: option.splits)
  qed
qed

lemma length_mutf8_fold: "length (mutf8_fold s) \<le> length s"
proof (induction s rule: mutf8_fold.induct)
  case 1
  then show ?case by simp
next
  case (2 b bs)
  show ?case
  proof (cases "surrogate_pair (b # bs)")
    case True
    then have "5 \<le> length bs" by (simp add: surrogate_pair_def)
    with 2(1) [OF True] True show ?thesis by (simp add: fold_surrogates_def Let_def)
  next
    case False
    with 2(2) show ?thesis by simp
  qed
qed

lemma length_string_res: "string_res al d idx = Some s \<Longrightarrow> length s \<le> length (dex_p d)"
proof -
  assume s: "string_res al d idx = Some s"
  then obtain p raw where raw: "raw_string (drop p (dex_p d)) = Some raw" "decode_raw al raw = Some s"
    by (auto simp: string_res_def Let_def split: if_splits Option.bind_splits)
  have "length s \<le> length raw"
    using raw(2) length_mutf8_fold [of raw]
    by (auto simp: decode_raw_def mutf8_to_utf8_def split: if_splits)
  also have "\<dots> \<le> length (dex_p d)"
    using raw(1) length_takeWhile_le [of "\<lambda>b. b \<noteq> 0" "drop p (dex_p d)"]
    by (auto simp: raw_string_def split: if_splits)
  finally show ?thesis .
qed

lemma length_type_res: "type_res al d idx = Some s \<Longrightarrow> length s \<le> length (dex_p d)"
  by (auto simp: type_res_def split: if_splits dest: length_string_res)

lemma sig_alloc_size_fits:
  "None \<notin> set ps \<Longrightarrow> sz + length (concat (map the ps)) < 2 ^ 64 \<Longrightarrow>
   sig_alloc_size ps sz = Some (sz + length (concat (map the ps)))"
proof (induction ps arbitrary: sz)
  case Nil
  then show ?case by simp
next
  case (Cons p ps)
  then show ?case by (cases p) auto
qed

lemma sig_alloc_size_None: "None \<in> set ps \<Longrightarrow> sig_alloc_size ps sz = None"
proof (induction ps arbitrary: sz)
  case (Cons p ps)
  then show ?case by (cases p) auto
qed simp

lemma length_concat_le:
  "\<forall>x \<in> set xs. length x \<le> b \<Longrightarrow> length (concat xs) \<le> length xs * b"
  by (induction xs) auto

lemma proto_types_size:
  assumes "dex_mapped d" and "dex_len d < 2 ^ 32" and "proto_count d i \<le> 256"
    and "None \<notin> set (proto_types al d i)" and "proto_return_res al d i = Some r"
  shows "length r + 3 + length (concat (map the (proto_types al d i))) < 2 ^ 64"
proof -
  have len: "length (dex_p d) < 2 ^ 32" using assms(1,2) by (simp add: dex_mapped_def)
  have "length t \<le> length (dex_p d)" if t: "t \<in> set (map the (proto_types al d i))" for t
  proof -
    from t obtain j where j: "j < nat (proto_count d i)" "t = the (param_res al d (proto_off d i) j)"
      by (auto simp: proto_types_def)
    then have "param_res al d (proto_off d i) j \<noteq> None" using assms(4) by (force simp: proto_types_def)
    with j(2) length_type_res show ?thesis by (auto simp: param_res_def)
  qed
  then have "length (concat (map the (proto_types al d i))) \<le> length (proto_types al d i) * length (dex_p d)"
    using length_concat_le [of "map the (proto_types al d i)" "length (dex_p d)"] by simp
  also have "\<dots> \<le> 256 * length (dex_p d)" using assms(3) by (simp add: proto_types_def nat_le_iff)
  finally have "length (concat (map the (proto_types al d i))) \<le> 256 * length (dex_p d)" .
  moreover have "length r \<le> length (dex_p d)"
    using assms(5) by (auto simp: proto_return_res_def split: if_splits dest: length_type_res)
  ultimately show ?thesis using len by simp
qed

lemma dex_proto_signature_alloc_dok:
  assumes "dex_inv al d" and "\<forall>n. al n" and "dex_len d < 2 ^ 32"
  shows "dok al d (dex_proto_signature_alloc al d i) (\<lambda>r. r = signature_res al d i)"
  unfolding dex_proto_signature_alloc_def
proof (rule dok_bind)
  show "dok al d (dex_proto_params al d i (replicate 256 None) 256)
    (\<lambda>(n, ps). n = proto_count d i \<and> length ps = 256 \<and>
       (0 \<le> n \<longrightarrow> ps = fill (replicate 256 None) 0 (nat n) (param_res al d (proto_off d i))))"
    using dex_proto_params_dok [OF assms(1), of "replicate 256 None"] by simp
next
  fix np d1
  assume np: "case np of (n, ps) \<Rightarrow> n = proto_count d i \<and> length ps = 256 \<and>
       (0 \<le> n \<longrightarrow> ps = fill (replicate 256 None) 0 (nat n) (param_res al d (proto_off d i)))"
    and d1: "dex_inv al d1" "same_image d d1"
  obtain n ps where [simp]: "np = (n, ps)" by (cases np)
  from np have n: "n = proto_count d i" by simp
  have types: "take (nat n) ps = proto_types al d i" if "\<not> (n < 0 \<or> 256 < n)"
    using np that by (auto simp: proto_types_def take_fill)
  have ret: "dok al d1 (dex_proto_return al d1 i) (\<lambda>r. r = proto_return_res al d i)"
    using dex_proto_return_dok [OF d1(1)] proto_same(3) [OF d1(2)] by simp
  have step: "dok al d2 (case r of None \<Rightarrow> Some (None, d2)
      | Some r \<Rightarrow> if n < 0 \<or> 256 < n then Some (None, d2)
          else case sig_alloc_size (take (nat n) ps) (length r + 3) of None \<Rightarrow> Some (None, d2)
             | Some sz \<Rightarrow> if al sz then dex_proto_signature al d2 i sz else Some (None, d2))
      (\<lambda>r. r = signature_res al d i)"
    if r: "r = proto_return_res al d i" and d2: "dex_inv al d2" "same_image d d2" for r d2
  proof (cases "proto_return_res al d i")
    case None
    with r d2 show ?thesis by (auto simp: signature_res_def intro!: dok_ret)
  next
    case (Some rt)
    show ?thesis
    proof (cases "n < 0 \<or> 256 < n \<or> None \<in> set (proto_types al d i)")
      case True
      then show ?thesis
        using r Some d2 types n by (auto simp: signature_res_def sig_alloc_size_None intro!: dok_ret)
    next
      case False
      let ?sz = "length rt + 3 + length (concat (map the (proto_types al d i)))"
      have sz: "sig_alloc_size (take (nat n) ps) (length rt + 3) = Some ?sz"
        using False types n Some assms proto_types_size [OF dex_inv_mapped [OF assms(1)] assms(3), of i al rt]
        by (simp add: sig_alloc_size_fits)
      have same: "signature_res al d2 i = signature_res al d i"
        by (simp add: signature_res_def proto_types_def proto_same [OF d2(2)] param_res_same [OF d2(2)])
      obtain s where s: "signature_res al d i = Some s" "length s + 1 = ?sz"
        using False Some by (simp add: signature_res_def n [symmetric])
      have "dok al d2 (dex_proto_signature al d2 i ?sz) (\<lambda>r. r = signature_res al d i)"
        by (rule dok_mono [OF dex_proto_signature_dok [OF d2(1)]]) (metis order_refl s same)
      with sz r Some False assms(2) show ?thesis by simp
    qed
  qed
  show "dok al d1 (case (np, d1) of (x, d1) \<Rightarrow> (case x of (n, params) \<Rightarrow> \<lambda>d.
      dex_proto_return al d i \<bind> (\<lambda>(ret, d). case ret of None \<Rightarrow> Some (None, d)
        | Some r \<Rightarrow> if n < 0 \<or> 256 < n then Some (None, d)
          else case sig_alloc_size (take (nat n) params) (length r + 3) of None \<Rightarrow> Some (None, d)
             | Some sz \<Rightarrow> if al sz then dex_proto_signature al d i sz else Some (None, d))) d1)
      (\<lambda>r. r = signature_res al d i)"
    using step d1(2) by (auto intro!: dok_bind [OF ret] intro: same_image_trans)
qed

section \<open>Opening an image\<close>

lemma dex_parse_header_ok:
  assumes "dex_mapped d"
  shows "ok (dex_parse_header d) (\<lambda>(good, d'). dex_mapped d' \<and> dex_p d' = dex_p d \<and>
     dex_strings d' = dex_strings d \<and> dex_fixups d' = dex_fixups d \<and>
     (good \<longrightarrow> 112 \<le> dex_len d' \<and> list_all (pool_fits d')
        [(string_ids_off d', string_ids_size d', 4), (type_ids_off d', type_ids_size d', 4),
         (proto_ids_off d', proto_ids_size d', 12), (field_ids_off d', field_ids_size d', 8),
         (method_ids_off d', method_ids_size d', 8), (class_defs_off d', class_defs_size d', 32)]))"
  using assms by (auto simp: dex_parse_header_def Let_def dex_mapped_def [of "d\<lparr>string_ids_size := _\<rparr>"])
     (auto simp: dex_mapped_def)

definition pools_ok :: "dex_file \<Rightarrow> bool" where
  "pools_ok d \<longleftrightarrow> list_all (pool_fits d)
     [(string_ids_off d, string_ids_size d, 4), (type_ids_off d, type_ids_size d, 4),
      (proto_ids_off d, proto_ids_size d, 12), (field_ids_off d, field_ids_size d, 8),
      (method_ids_off d, method_ids_size d, 8), (class_defs_off d, class_defs_size d, 32)]"

lemma dex_open_memory_ok:
  "ok (dex_open_memory al data path)
     (\<lambda>(good, d). if good then dex_inv al d \<and> dex_p d = data \<and> pools_ok d else d = dex_zero)"
proof -
  let ?d = "dex_zero\<lparr>dex_p := data, dex_len := length data,
               dex_path := (case path of None \<Rightarrow> None
                 | Some s \<Rightarrow> if al (length s + 1) then Some s else None)\<rparr>"
  have "dex_mapped ?d" by (simp add: dex_mapped_def)
  from dex_parse_header_ok [OF this] show ?thesis
    unfolding dex_open_memory_def Let_def
    by (rule ok_bind)
      (auto simp: dex_inv_def strings_ok_def pools_ok_def pool_fits_def dex_close_def dex_mapped_def
        word_less_nat_alt)
qed

end
