(* ===== verification/Dex_Encoding.thy ===== *)
theory Dex_Encoding
  imports Dex_Reader
begin

text \<open>
  The byte encodings the DEX reader decodes, stated as encoders, and the round trips:
  \<open>dex_uleb\<close> and \<open>dex_sleb\<close> invert the LEB128 encodings, and the MUTF-8 conversion of
  \<open>dex_string\<close> yields standard UTF-8 for every sequence of Unicode scalar values.
\<close>

section \<open>LEB128 round trips\<close>

text \<open>
  The encodings of the DEX format: seven bits per byte, low group first, the top bit set
  on every byte but the last.
\<close>

function uleb_bytes :: "u32 \<Rightarrow> u8 list" where
  "uleb_bytes v = (if v < 128 then [ucast v]
     else (ucast (v AND 0x7f) OR 0x80) # uleb_bytes (drop_bit 7 v))"
  by pat_completeness auto
termination
  by (relation "measure unat") (auto simp only: in_measure unat_drop_bit7 word_less_nat_alt, auto)

declare uleb_bytes.simps [simp del]

definition has_bytes :: "dex_file \<Rightarrow> nat \<Rightarrow> u8 list \<Rightarrow> bool" where
  "has_bytes d off bs \<longleftrightarrow>
     off + length bs \<le> length (dex_p d) \<and> take (length bs) (drop off (dex_p d)) = bs"

lemma has_bytes_Cons:
  "has_bytes d off (b # bs) \<longleftrightarrow>
     off < length (dex_p d) \<and> dex_p d ! off = b \<and> has_bytes d (Suc off) bs"
  by (auto simp: has_bytes_def Cons_nth_drop_Suc [symmetric])

lemma leb_small_byte:
  assumes "(v::u32) < 128"
  shows "(ucast v :: u8) AND 0x80 = 0" and "ucast ((ucast v :: u8) AND 0x7f) = v"
proof -
  have v: "take_bit 7 v = v" using assms less128_take_bit by blast
  show "(ucast v :: u8) AND 0x80 = 0"
    by (subst v [symmetric]) (simp add: and128 bit_simps)
  have "ucast ((ucast v :: u8) AND 0x7f) = take_bit 7 v"
    by (rule bit_word_eqI) (auto simp: and127 bit_simps)
  with v show "ucast ((ucast v :: u8) AND 0x7f) = v" by simp
qed

lemma leb_big_byte: "((ucast ((v::u32) AND 0x7f) OR 0x80)::u8) AND 0x80 \<noteq> 0"
  by (simp add: and128 bit_simps bit128)

lemma leb_split:
  "push_bit s (v::u32) =
   push_bit s (ucast (((ucast (v AND 0x7f) OR 0x80)::u8) AND 0x7f)) OR push_bit (s + 7) (drop_bit 7 v)"
proof (rule bit_word_eqI)
  fix n
  assume n: "n < LENGTH(32)"
  show "bit (push_bit s v) n =
    bit (push_bit s (ucast (((ucast (v AND 0x7f) OR 0x80)::u8) AND 0x7f)) OR push_bit (s + 7) (drop_bit 7 v)) n"
  proof (cases "s + 7 \<le> n")
    case True
    then have "7 + (n - (s + 7)) = n - s" by simp
    with True n show ?thesis by (auto simp: and127 bit128 bit_simps)
  next
    case False
    with n show ?thesis by (auto simp: and127 bit128 bit_simps)
  qed
qed

lemma uleb_loop_bytes:
  "dex_mapped d \<Longrightarrow> has_bytes d off (uleb_bytes v) \<Longrightarrow> unat v < 128 ^ Suc k \<Longrightarrow>
   dex_uleb_loop (Suc k) d off acc s = Some (off + length (uleb_bytes v), acc OR push_bit s v)"
proof (induction v arbitrary: k off acc s rule: uleb_bytes.induct)
  case (1 v)
  note simps = uleb_bytes.simps [of v] has_bytes_Cons dex_mapped_def dex_byte_def
  show ?case
  proof (cases "v < 128")
    case True
    with "1.prems" show ?thesis by (simp add: simps leb_small_byte)
  next
    case False
    then obtain j where k: "k = Suc j"
      using "1.prems"(3) by (cases k) (auto simp: word_less_nat_alt)
    have "unat (drop_bit 7 v) < 128 ^ Suc j"
      using "1.prems"(3) k by (simp only: unat_drop_bit7) (simp add: less_mult_imp_div_less)
    with "1.prems" k "1.IH" [OF False] False show ?thesis
      by (simp add: simps leb_big_byte leb_split [of s v] or.assoc)
  qed
qed

lemma dex_uleb_bytes:
  assumes "dex_mapped d" and "has_bytes d off (uleb_bytes v)"
  shows "dex_uleb d off = Some (off + length (uleb_bytes v), v)"
proof -
  have "unat v < 2 ^ LENGTH(32)" by (rule unsigned_less)
  then have "unat v < 128 ^ Suc 4" by simp
  from uleb_loop_bytes [OF assms this, of 0 0] show ?thesis
    by (simp add: dex_uleb_def numeral_eq_Suc)
qed

lemma has_bytes_append:
  "has_bytes d off (xs @ ys) \<longleftrightarrow> has_bytes d off xs \<and> has_bytes d (off + length xs) ys"
proof (induction xs arbitrary: off)
  case Nil
  then show ?case by (auto simp: has_bytes_def)
next
  case (Cons x xs)
  then show ?case by (simp add: has_bytes_Cons)
qed

lemma uleb_bytes_nonempty: "\<exists>k. length (uleb_bytes v) = Suc k"
  by (subst uleb_bytes.simps) simp

text \<open>The signed encoding: the last byte's bit 6 is the sign.\<close>

function sleb_bytes :: "int \<Rightarrow> u8 list" where
  "sleb_bytes v = (if -64 \<le> v \<and> v < 64 then [word_of_int (take_bit 7 v)]
     else (word_of_int (take_bit 7 v) OR 0x80) # sleb_bytes (drop_bit 7 v))"
  by pat_completeness auto
termination
  by (relation "measure (\<lambda>v. nat (if v < 0 then - v else v))")
    (auto simp: drop_bit_eq_div minus_div_mult_eq_mod [symmetric])

declare sleb_bytes.simps [simp del]

lemma bit_minus_exp: "bit (- (2 ^ k) :: u32) n \<longleftrightarrow> k \<le> n \<and> n < 32"
  by (subst minus_exp_eq_not_mask) (auto simp: bit_simps)

lemma bit_sleb_extend:
  "n < 32 \<Longrightarrow> bit (sleb_extend v k b) n \<longleftrightarrow> bit v n \<or> (bit b 6 \<and> k \<le> n)"
  by (auto simp: sleb_extend_def and64 bit_or_iff bit_minus_exp)

lemma sleb_last_byte:
  assumes v: "-64 \<le> v" "v < 64" and b: "b = (word_of_int (take_bit 7 v) :: u8)"
  shows "b AND 0x80 = 0"
    and "sleb_extend (acc OR push_bit s (ucast (b AND 0x7f))) (s + 7) b =
         acc OR push_bit s (word_of_int v)"
proof -
  have "signed_take_bit 6 v = v" using v by (intro signed_take_bit_int_eq_self) auto
  then have sign: "bit v n = bit v (min 6 n)" for n
    by (metis bit_signed_take_bit_iff possible_bit_int)
  show "b AND 0x80 = 0"
    by (simp add: b and128 bit_simps)
  show "sleb_extend (acc OR push_bit s (ucast (b AND 0x7f))) (s + 7) b =
         acc OR push_bit s (word_of_int v)"
  proof (rule bit_word_eqI)
    fix n assume n: "n < LENGTH(32)"
    show "bit (sleb_extend (acc OR push_bit s (ucast (b AND 0x7f))) (s + 7) b) n =
         bit (acc OR push_bit s (word_of_int v)) n"
    proof (cases "s + 7 \<le> n")
      case True
      then have "bit v (n - s) = bit v 6" using sign [of "n - s"] by simp
      with True n show ?thesis
        by (auto simp: bit_sleb_extend b and127 bit_simps)
    next
      case False
      with n show ?thesis
        by (auto simp: bit_sleb_extend b and127 bit_simps)
    qed
  qed
qed

lemma sleb_split:
  "(acc OR push_bit s (ucast (((word_of_int (take_bit 7 v) OR 0x80)::u8) AND 0x7f))) OR
     push_bit (s + 7) (word_of_int (drop_bit 7 v)) = acc OR push_bit s (word_of_int v :: u32)"
proof (rule bit_word_eqI)
  fix n assume n: "n < LENGTH(32)"
  show "bit ((acc OR push_bit s (ucast (((word_of_int (take_bit 7 v) OR 0x80)::u8) AND 0x7f))) OR
     push_bit (s + 7) (word_of_int (drop_bit 7 v))) n = bit (acc OR push_bit s (word_of_int v :: u32)) n"
  proof (cases "s + 7 \<le> n")
    case True
    then have "7 + (n - (s + 7)) = n - s" by simp
    with True n show ?thesis by (auto simp: and127 bit128 bit_simps)
  next
    case False
    with n show ?thesis by (auto simp: and127 bit128 bit_simps)
  qed
qed

text \<open>The seven payload bits of a byte, and when their signed shift is defined.\<close>

lemma sleb_payload:
  fixes v :: int
  shows "uint (ucast (((word_of_int (take_bit 7 v) :: u8)) AND 0x7f) :: u32) = v mod 128"
    and "uint (ucast (((word_of_int (take_bit 7 v) OR 0x80) :: u8) AND 0x7f) :: u32) = v mod 128"
proof -
  have 1: "(word_of_int (take_bit 7 v) :: u8) AND 0x7f = word_of_int (take_bit 7 v)"
    by (rule bit_word_eqI) (simp add: and127 bit_simps)
  have 2: "((word_of_int (take_bit 7 v) OR 0x80) :: u8) AND 0x7f = word_of_int (take_bit 7 v)"
    by (rule bit_word_eqI) (auto simp: and127 bit128 bit_simps)
  have 3: "ucast (word_of_int (take_bit 7 v) :: u8) = (word_of_int (take_bit 7 v) :: u32)"
    by (rule bit_word_eqI) (auto simp: bit_simps)
  have "uint (word_of_int (take_bit 7 v) :: u32) = v mod 128"
    by (simp add: uint_word_of_int take_bit_eq_mod)
  then show "uint (ucast (((word_of_int (take_bit 7 v) :: u8)) AND 0x7f) :: u32) = v mod 128"
    and "uint (ucast (((word_of_int (take_bit 7 v) OR 0x80) :: u8) AND 0x7f) :: u32) = v mod 128"
    by (simp_all only: 1 2 3)
qed

lemma c_shl32_small: "uint x < 128 \<Longrightarrow> n \<le> 21 \<Longrightarrow> c_shl32 x n = Some (push_bit n x)"
proof -
  assume x: "uint x < 128" and n: "n \<le> 21"
  from n have "(2::int) ^ n \<le> 2 ^ 21" by (rule power_increasing) simp
  with x have "uint x * 2 ^ n \<le> 127 * 2 ^ 21" by (intro mult_mono) simp_all
  with n show ?thesis by (simp add: c_shl32_def)
qed

lemma sleb_shift_low:
  "n \<le> 21 \<Longrightarrow> c_shl32 (ucast (((word_of_int (take_bit 7 v) :: u8)) AND 0x7f)) n =
     Some (push_bit n (ucast (((word_of_int (take_bit 7 v) :: u8)) AND 0x7f)))"
  "n \<le> 21 \<Longrightarrow> c_shl32 (ucast (((word_of_int (take_bit 7 v) OR 0x80) :: u8) AND 0x7f)) n =
     Some (push_bit n (ucast (((word_of_int (take_bit 7 v) OR 0x80) :: u8) AND 0x7f)))"
  by (rule c_shl32_small; simp add: sleb_payload)+

lemma sleb_shift_last:
  assumes "0 \<le> v" and "v < 64" and "n < 32" and "v * 2 ^ n < 2 ^ 31"
  shows "c_shl32 (ucast (((word_of_int (take_bit 7 v) :: u8)) AND 0x7f)) n =
     Some (push_bit n (ucast (((word_of_int (take_bit 7 v) :: u8)) AND 0x7f)))"
  using assms by (simp add: c_shl32_def sleb_payload)

lemma sleb_loop_bytes:
  "dex_mapped d \<Longrightarrow> has_bytes d off (sleb_bytes v) \<Longrightarrow> s + 7 * k = 28 \<Longrightarrow>
   (v < 0 \<longrightarrow> (\<exists>j. k = Suc j \<and> - (64 * 128 ^ j) \<le> v)) \<Longrightarrow> v * 2 ^ s < 2 ^ 31 \<Longrightarrow>
   dex_sleb_loop (Suc k) d off acc s b = Some (off + length (sleb_bytes v), acc OR push_bit s (word_of_int v))"
proof (induction v arbitrary: k off acc s b rule: sleb_bytes.induct)
  case (1 v)
  show ?case
  proof (cases "-64 \<le> v \<and> v < 64")
    case True
    have "c_shl32 (ucast (((word_of_int (take_bit 7 v) :: u8)) AND 0x7f)) s =
       Some (push_bit s (ucast (((word_of_int (take_bit 7 v) :: u8)) AND 0x7f)))"
      using "1.prems"(3-5) True by (cases "v < 0") (auto intro: sleb_shift_low sleb_shift_last)
    with "1.prems"(1,2) True sleb_last_byte [of v, OF _ _ refl] show ?thesis
      by (simp add: sleb_bytes.simps [of v] has_bytes_Cons dex_mapped_def dex_byte_def Let_def)
  next
    case False
    have "k \<noteq> 0"
      using "1.prems"(3-5) False by (cases k) auto
    then obtain j where k: "k = Suc j" by (cases k) auto
    have neg: "drop_bit 7 v < 0 \<longrightarrow> (\<exists>i. j = Suc i \<and> - (64 * 128 ^ i) \<le> drop_bit 7 v)"
    proof
      assume "drop_bit 7 v < 0"
      then have "v < 0" by simp
      with "1.prems"(4) k have low: "- (64 * 128 ^ j) \<le> v" by auto
      with \<open>v < 0\<close> False obtain i where j: "j = Suc i" by (cases j) auto
      with low have "- (64 * 128 ^ i) \<le> drop_bit 7 v" by (auto simp: drop_bit_eq_div)
      with j show "\<exists>i. j = Suc i \<and> - (64 * 128 ^ i) \<le> drop_bit 7 v" by blast
    qed
    have "v div 128 * 128 \<le> v" by presburger
    then have "v div 128 * 128 * 2 ^ s \<le> v * 2 ^ s" by (rule mult_right_mono) simp
    also have "v div 128 * 128 * 2 ^ s = drop_bit 7 v * 2 ^ (s + 7)"
      by (simp add: drop_bit_eq_div power_add)
    finally have hi: "drop_bit 7 v * 2 ^ (s + 7) < 2 ^ 31"
      using "1.prems"(5) by (rule le_less_trans)
    have sb: "sleb_bytes v = (word_of_int (take_bit 7 v) OR 0x80) # sleb_bytes (drop_bit 7 v)"
      using False by (subst sleb_bytes.simps) auto
    have "((word_of_int (take_bit 7 v) OR 0x80)::u8) AND 0x80 \<noteq> 0"
      by (simp add: and128 bit_simps bit128)
    moreover have "s \<le> 21" "(s + 7) + 7 * j = 28" using "1.prems"(3) k by simp_all
    ultimately show ?thesis
      using "1.prems"(1,2) k "1.IH" [OF False _ _ _ neg hi]
      by (simp add: sb has_bytes_Cons dex_mapped_def dex_byte_def sleb_split sleb_shift_low)
  qed
qed

lemma dex_sleb_bytes:
  assumes "dex_mapped d" and "has_bytes d off (sleb_bytes v)" and "- (2 ^ 27) \<le> v" and "v < 2 ^ 31"
  shows "dex_sleb d off = Some (off + length (sleb_bytes v), word_of_int v)"
    and "sint (word_of_int v :: u32) = v"
proof -
  have neg: "v < 0 \<longrightarrow> (\<exists>j. 4 = Suc j \<and> - (64 * 128 ^ j) \<le> v)" using assms(3) by (auto intro: exI [of _ 3])
  from sleb_loop_bytes [OF assms(1,2) _ neg, of 0 0 0] assms(4)
  show "dex_sleb d off = Some (off + length (sleb_bytes v), word_of_int v)"
    by (simp add: dex_sleb_def numeral_eq_Suc)
  show "sint (word_of_int v :: u32) = v"
    using assms(3,4) by (simp add: sint_sbintrunc' signed_take_bit_int_eq_self)
qed

section \<open>MUTF-8 to UTF-8\<close>

declare mutf8_fold.simps(2) [simp del]

lemma mutf8_fold_pair:
  "surrogate_pair (b # bs) \<Longrightarrow> mutf8_fold (b # bs) = fold_surrogates (b # bs) @ mutf8_fold (drop 5 bs)"
  by (simp add: mutf8_fold.simps)

lemma mutf8_fold_skip: "\<not> surrogate_pair (b # bs) \<Longrightarrow> mutf8_fold (b # bs) = b # mutf8_fold bs"
  by (simp add: mutf8_fold.simps)

lemma mutf8_fold_plain: "b \<noteq> 0xed \<Longrightarrow> mutf8_fold (b # bs) = b # mutf8_fold bs"
  by (rule mutf8_fold_skip) (simp add: surrogate_pair_def)

definition utf8_tail :: "u32 \<Rightarrow> nat \<Rightarrow> u8" where
  "utf8_tail cp k = ucast (0x80 OR (drop_bit k cp AND 0x3f))"

definition utf8_supp :: "u32 \<Rightarrow> u8 list" where
  "utf8_supp cp = [ucast (0xf0 OR drop_bit 18 cp), utf8_tail cp 12, utf8_tail cp 6, utf8_tail cp 0]"

definition mutf8_supp :: "u32 \<Rightarrow> u8 list" where
  "mutf8_supp cp = (let v = cp - 0x10000; hi = drop_bit 10 v; lo = take_bit 10 v in
     [0xed, ucast (0xa0 OR take_bit 4 (drop_bit 6 hi)), ucast (0x80 OR take_bit 6 hi),
      0xed, ucast (0xb0 OR take_bit 4 (drop_bit 6 lo)), ucast (0x80 OR take_bit 6 lo)])"

lemma byte_low4: "(ucast (push_bit 4 c OR take_bit 4 x :: u32) :: u8) AND 15 = ucast (take_bit 4 x)"
  by (rule bit_word_eqI) (auto simp: and15 bit_simps)

lemma byte_high4: "(ucast (push_bit 4 c OR take_bit 4 x :: u32) :: u8) AND push_bit 4 (mask 4) = push_bit 4 (ucast c)"
  by (rule bit_word_eqI) (auto simp: bit_simps)

lemma byte_low6: "(ucast (push_bit 6 c OR take_bit 6 x :: u32) :: u8) AND 63 = ucast (take_bit 6 x)"
  by (rule bit_word_eqI) (auto simp: and63 bit_simps)

lemma mutf8_bytes:
  "(ucast (0xa0 OR take_bit 4 x :: u32) :: u8) AND 0x0f = ucast (take_bit 4 x)"
  "(ucast (0xb0 OR take_bit 4 x :: u32) :: u8) AND 0x0f = ucast (take_bit 4 x)"
  "(ucast (0xa0 OR take_bit 4 x :: u32) :: u8) AND 0xf0 = 0xa0"
  "(ucast (0xb0 OR take_bit 4 x :: u32) :: u8) AND 0xf0 = 0xb0"
  "(ucast (0x80 OR take_bit 6 x :: u32) :: u8) AND 0x3f = ucast (take_bit 6 x)"
  using byte_low4 [of 10 x] byte_low4 [of 11 x] byte_high4 [of 10 x] byte_high4 [of 11 x]
    byte_low6 [of 2 x]
  by (simp_all add: mask_eq_exp_minus_1)

lemma ten_bits: "(push_bit 6 (ucast (ucast (take_bit 4 (drop_bit 6 x)) :: u8)) :: u32) OR ucast (ucast (take_bit 6 x) :: u8) = take_bit 10 x"
proof (rule bit_word_eqI)
  fix n assume "n < LENGTH(32)"
  then show "bit ((push_bit 6 (ucast (ucast (take_bit 4 (drop_bit 6 x)) :: u8)) :: u32) OR ucast (ucast (take_bit 6 x) :: u8)) n = bit (take_bit 10 x) n"
    by (cases "n < 6") (auto simp: bit_simps)
qed

lemma or_is_add:
  "(push_bit 10 c OR take_bit 10 x :: u32) = push_bit 10 c + take_bit 10 x"
  by (rule disjunctive_add [symmetric]) (auto simp: bit_simps)

lemma fold_surrogates_supp:
  assumes cp: "0x10000 \<le> cp" "cp \<le> 0x10ffff"
  shows "surrogate_pair (mutf8_supp cp @ rest)"
    and "fold_surrogates (mutf8_supp cp @ rest) = utf8_supp cp"
proof -
  let ?v = "cp - 0x10000"
  have "unat ?v = unat cp - 0x10000" using cp by (simp add: unat_sub)
  then have "unat ?v < 2 ^ 20" using cp by (simp add: word_le_nat_alt)
  then have v: "take_bit 20 ?v = ?v" by (simp add: word_unat_eq_iff take_bit_eq_mod unat_mod)
  have hi: "take_bit 10 (drop_bit 10 ?v) = drop_bit 10 ?v"
    by (subst (2) v [symmetric]) (rule bit_word_eqI, auto simp: bit_simps)
  have sum: "push_bit 10 (drop_bit 10 ?v) + take_bit 10 ?v = ?v"
    using bits_ident [of 10 ?v] by (simp add: push_bit_eq_mult)
  show "surrogate_pair (mutf8_supp cp @ rest)"
    by (simp add: surrogate_pair_def mutf8_supp_def Let_def mutf8_bytes)
  have "0xd800 OR take_bit 10 (drop_bit 10 ?v) = (0xd800 :: u32) + take_bit 10 (drop_bit 10 ?v)"
    using or_is_add [of 54 "drop_bit 10 ?v"] by simp
  moreover have "0xdc00 OR take_bit 10 ?v = (0xdc00 :: u32) + take_bit 10 ?v"
    using or_is_add [of 55 ?v] by simp
  moreover have "take_bit 10 (take_bit 10 ?v) = take_bit 10 ?v" by simp
  ultimately show "fold_surrogates (mutf8_supp cp @ rest) = utf8_supp cp"
    using hi sum ten_bits [of "drop_bit 10 ?v"] ten_bits [of "take_bit 10 ?v"]
    by (simp add: fold_surrogates_def mutf8_supp_def utf8_supp_def utf8_tail_def Let_def mutf8_bytes or.assoc)
qed

text \<open>
  One code point in UTF-8 (\<open>utf8_cp\<close>, where U+0000 is the single byte 0) and in MUTF-8
  (\<open>mutf8_cp\<close>), which differs in two places: U+0000 is spelled \<open>C0 80\<close>, and a supplementary code
  point is a surrogate pair of three-byte sequences.
\<close>

definition utf8_bmp :: "u32 \<Rightarrow> u8 list" where
  "utf8_bmp cp =
     (if cp < 0x80 then [ucast cp]
      else if cp < 0x800 then [ucast (0xc0 OR drop_bit 6 cp), utf8_tail cp 0]
      else [ucast (0xe0 OR drop_bit 12 cp), utf8_tail cp 6, utf8_tail cp 0])"

definition utf8_cp :: "u32 \<Rightarrow> u8 list" where
  "utf8_cp cp = (if cp < 0x10000 then utf8_bmp cp else utf8_supp cp)"

definition mutf8_cp :: "u32 \<Rightarrow> u8 list" where
  "mutf8_cp cp =
     (if cp = 0 then [0xc0, 0x80] else if cp < 0x10000 then utf8_bmp cp else mutf8_supp cp)"

definition scalar_value :: "u32 \<Rightarrow> bool" where
  "scalar_value cp \<longleftrightarrow> cp \<le> 0x10ffff \<and> \<not> (0xd800 \<le> cp \<and> cp \<le> 0xdfff)"

lemma neq_by_bit: "bit a n \<noteq> bit b n \<Longrightarrow> a \<noteq> b"
  by auto

lemma utf8_tail_not_ed: "utf8_tail cp k \<noteq> 0xed"
  by (rule neq_by_bit [of _ 6]) (simp add: utf8_tail_def and63 bit_simps)

lemma small_high_bit:
  assumes "(cp::u32) < 2 ^ k" and "k \<le> n"
  shows "\<not> bit cp n"
proof
  assume b: "bit cp n"
  have "unat ((2::u32) ^ k) = unat (of_nat (2 ^ k) :: u32)" by simp
  also have "\<dots> \<le> 2 ^ k" by (simp only: unsigned_of_nat of_nat_id) (rule take_bit_nat_less_eq_self)
  finally have "unat cp < 2 ^ k" using assms(1) by (simp add: word_less_nat_alt)
  also have "(2::nat) ^ k \<le> 2 ^ n" using assms(2) by simp
  finally have "unat cp div 2 ^ n = 0" by simp
  moreover have "bit (unat cp) n" using b by (simp add: bit_unsigned_iff)
  ultimately show False by (simp add: bit_iff_odd)
qed

lemma surrogate_range:
  assumes cp: "cp < 0x10000" and lead: "(ucast (0xe0 OR drop_bit 12 cp) :: u8) = 0xed"
    and tail: "utf8_tail cp 6 AND 0xf0 = 0xa0"
  shows "0xd800 \<le> cp \<and> cp \<le> 0xdfff"
proof -
  have top: "\<not> bit cp n" if "16 \<le> n" for n
    using small_high_bit [of cp 16 n] cp that by simp
  have "bit (ucast (0xe0 OR drop_bit 12 cp) :: u8) n = bit (0xed :: u8) n" for n
    by (simp add: lead)
  from this [of 0] this [of 1] this [of 2] this [of 3]
  have b: "bit cp 12" "\<not> bit cp 13" "bit cp 14" "bit cp 15" by (simp_all add: bit_simps)
  have "bit (utf8_tail cp 6 AND 0xf0) 5 = bit (0xa0 :: u8) 5" by (simp add: tail)
  then have "bit cp 11" by (simp add: utf8_tail_def and63 bit_simps)
  have "drop_bit 11 cp = 27"
  proof (rule bit_word_eqI)
    fix n assume "n < LENGTH(32)"
    have "n = 0 \<or> n = 1 \<or> n = 2 \<or> n = 3 \<or> n = 4 \<or> 5 \<le> n" by arith
    moreover have "\<not> bit (27 :: u32) n" if "5 \<le> n" using small_high_bit [of 27 5 n] that by simp
    ultimately show "bit (drop_bit 11 cp) n = bit (27 :: u32) n"
      using b \<open>bit cp 11\<close> top [of "11 + n"] by (auto simp: bit_simps)
  qed
  then have "unat (drop_bit 11 cp) = 27" by simp
  then have "unat cp div 2048 = 27" by (simp add: drop_bit_eq_div unat_div)
  then have "55296 \<le> unat cp \<and> unat cp \<le> 57343" by arith
  then show ?thesis by (simp add: word_le_nat_alt)
qed

lemma mutf8_fold_bmp:
  assumes "cp < 0x10000" and "scalar_value cp"
  shows "mutf8_fold (utf8_bmp cp @ rest) = utf8_bmp cp @ mutf8_fold rest"
proof -
  have 1: "(ucast cp :: u8) \<noteq> 0xed" if "cp < 0x80"
    using small_high_bit [of cp 7 7] that by (intro neq_by_bit [of _ 7]) (simp add: bit_simps)
  have 2: "(ucast (0xc0 OR drop_bit 6 cp) :: u8) \<noteq> 0xed" if "cp < 0x800"
    using small_high_bit [of cp 11 11] that by (intro neq_by_bit [of _ 5]) (simp add: bit_simps)
  have 3: "\<not> surrogate_pair (ucast (0xe0 OR drop_bit 12 cp) # utf8_tail cp 6 # utf8_tail cp 0 # rest)"
    using surrogate_range [OF assms(1)] assms(2)
    by (auto simp: surrogate_pair_def scalar_value_def)
  show ?thesis
    using 1 2 3 by (simp add: utf8_bmp_def mutf8_fold_plain mutf8_fold_skip utf8_tail_not_ed)
qed

lemma mutf8_fold_cp:
  assumes "scalar_value cp"
  shows "mutf8_fold (mutf8_cp cp @ rest) = (if cp = 0 then [0xc0, 0x80] else utf8_cp cp) @ mutf8_fold rest"
proof (cases "cp < 0x10000")
  case True
  with assms show ?thesis by (simp add: mutf8_cp_def utf8_cp_def mutf8_fold_bmp mutf8_fold_plain)
next
  case False
  with assms have r: "0x10000 \<le> cp" "cp \<le> 0x10ffff" by (auto simp: scalar_value_def)
  obtain b bs where s: "mutf8_supp cp = b # bs" "length bs = 5" by (simp add: mutf8_supp_def Let_def)
  from fold_surrogates_supp [OF r, of rest] s
  have "mutf8_fold (mutf8_supp cp @ rest) = utf8_supp cp @ mutf8_fold rest"
    by (simp add: mutf8_fold_pair)
  moreover from False have "cp \<noteq> 0" by auto
  ultimately show ?thesis using False by (simp add: mutf8_cp_def utf8_cp_def)
qed

lemma mutf8_fold_concat:
  "list_all scalar_value cps \<Longrightarrow>
   mutf8_fold (concat (map mutf8_cp cps)) =
     concat (map (\<lambda>cp. if cp = 0 then [0xc0, 0x80] else utf8_cp cp) cps)"
  by (induction cps) (simp_all add: mutf8_fold_cp)

lemma mutf8_fold_id: "\<not> mutf8_needs_fixup s \<Longrightarrow> mutf8_fold s = s"
proof (induction s)
  case Nil
  then show ?case by simp
next
  case (Cons b bs)
  then have "\<not> surrogate_pair (b # bs)"
    by (cases bs) (auto simp: surrogate_pair_def split: if_splits)
  with Cons show ?case by (simp add: mutf8_fold_skip split: if_splits)
qed

lemma decode_raw_fold: "al (length raw + 1) \<Longrightarrow> decode_raw al raw = Some (map c_char (mutf8_fold raw))"
  by (simp add: decode_raw_def mutf8_to_utf8_def mutf8_fold_id)

lemma utf8_tail_nonzero: "utf8_tail cp k \<noteq> 0"
  by (rule neq_by_bit [of _ 7]) (simp add: utf8_tail_def and63 bit_simps)

lemma mutf8_cp_nonzero: "0 \<notin> set (mutf8_cp cp)"
proof -
  have 1: "(ucast cp :: u8) \<noteq> 0" if "cp < 0x80" "cp \<noteq> 0"
    using leb_small_byte(2) [OF that(1)] that(2) by auto
  have 2: "(ucast (0xc0 OR x) :: u8) \<noteq> 0" "(ucast (0xe0 OR x) :: u8) \<noteq> 0"
    "(ucast (0xa0 OR x) :: u8) \<noteq> 0" "(ucast (0xb0 OR x) :: u8) \<noteq> 0"
    "(ucast (0x80 OR x) :: u8) \<noteq> 0" for x :: u32
    by (rule neq_by_bit [of _ 7]; simp add: bit_simps)+
  show ?thesis
    using 1 utf8_tail_nonzero
    by (auto simp: mutf8_cp_def utf8_bmp_def mutf8_supp_def Let_def 2 2 [symmetric])
qed

lemma has_bytes_drop:
  "has_bytes d p bs \<longleftrightarrow> (\<exists>ys. drop p (dex_p d) = bs @ ys) \<and> p + length bs \<le> length (dex_p d)"
proof -
  have "take (length bs) xs = bs \<longleftrightarrow> (\<exists>ys. xs = bs @ ys)" for xs :: "u8 list"
    by (metis append_eq_conv_conj append_take_drop_id)
  then show ?thesis by (auto simp: has_bytes_def)
qed

lemma raw_string_nul: "0 \<notin> set bs \<Longrightarrow> raw_string (bs @ 0 # ys) = Some bs"
  by (simp add: raw_string_def takeWhile_append)

end
