(* ===== verification/Probe.thy ===== *)
theory Probe
  imports Lunaria_Prelude
begin

text \<open>
  Linear probing in a table whose capacity is a power of two.  Three tables of the VM use
  it: the class index of a DEX file (\<open>dex_find_class\<close>), the pool of interned strings
  (\<open>dvm__intern\<close>) and the resolved-method cache (\<open>mcache_get\<close>, \<open>mcache_insert\<close>).  The
  probe loops are given here once; a loop that would visit every slot without meeting a
  free one never ends in C, and is \<open>None\<close>.
\<close>

section \<open>The loops\<close>

text \<open>\<open>while (tab[k] is used) k = (k + 1u) & m;\<close>\<close>

fun probe_free :: "nat \<Rightarrow> ('e \<Rightarrow> bool) \<Rightarrow> 'e list \<Rightarrow> u32 \<Rightarrow> u32 \<Rightarrow> u32 option" where
  "probe_free 0 used tab m k = None"
| "probe_free (Suc n) used tab m k = do {
     e \<leftarrow> c_at tab (unat k);
     if used e then probe_free n used tab m ((k + 1) AND m) else Some k }"

text \<open>\<open>while (tab[k] is used) { if (match) return tab[k]; k = (k + 1u) & m; }\<close>\<close>

fun probe_find :: "nat \<Rightarrow> ('e \<Rightarrow> bool) \<Rightarrow> ('e \<Rightarrow> bool) \<Rightarrow> 'e list \<Rightarrow> u32 \<Rightarrow> u32 \<Rightarrow> 'e option option" where
  "probe_find 0 used P tab m k = None"
| "probe_find (Suc n) used P tab m k = do {
     e \<leftarrow> c_at tab (unat k);
     if \<not> used e then Some None
     else if P e then Some (Some e)
     else probe_find n used P tab m ((k + 1) AND m) }"

definition probe_insert :: "('e \<Rightarrow> bool) \<Rightarrow> ('e \<Rightarrow> u32) \<Rightarrow> 'e list \<Rightarrow> u32 \<Rightarrow> 'e \<Rightarrow> 'e list option" where
  "probe_insert used hash tab m e = do {
     k \<leftarrow> probe_free (length tab) used tab m (hash e AND m);
     c_set tab (unat k) e }"

section \<open>Index arithmetic\<close>

lemma unat_and_mask: "unat ((w::u32) AND mask b) = unat w mod 2 ^ b"
  by (simp only: take_bit_eq_mask [symmetric] unsigned_take_bit_eq) (simp add: take_bit_eq_mod)

lemma mod_below_twice: "x < 2 * c \<Longrightarrow> x mod c = (if x < c then x else x - c)" for x c :: nat
  by (simp add: le_mod_geq)

lemma unat_succ_mask:
  assumes "unat (k::u32) < 2 ^ b" and "b < 32"
  shows "unat ((k + 1) AND mask b) = (unat k + 1) mod 2 ^ b"
proof -
  have "(2::nat) ^ b \<le> 2 ^ 31" using assms(2) by (intro power_increasing) auto
  then have "unat k + 1 < 2 ^ 32" using assms(1) by simp
  then have "unat (k + 1) = unat k + 1" by (simp add: unat_word_ariths)
  then show ?thesis by (simp add: unat_and_mask)
qed

lemma rotate_update:
  assumes "k < length xs" and "h < length xs"
  shows "rotate h (xs[k := e]) = (rotate h xs)[(k + length xs - h) mod length xs := e]"
proof (rule nth_equalityI)
  show "length (rotate h (xs[k := e])) = length ((rotate h xs)[(k + length xs - h) mod length xs := e])"
    by simp
next
  fix n
  assume "n < length (rotate h (xs[k := e]))"
  then have n: "n < length xs" by simp
  let ?c = "length xs"
  have "(h + n) mod ?c = k \<longleftrightarrow> n = (k + ?c - h) mod ?c"
    using n assms by (subst (1 2) mod_below_twice) auto
  then show "rotate h (xs[k := e]) ! n = (rotate h xs)[(k + ?c - h) mod ?c := e] ! n"
    using n assms by (auto simp: nth_rotate nth_list_update)
qed

lemma rotate_pos:
  assumes "h < length xs" and "j < length xs"
  shows "((h + j) mod length xs + length xs - h) mod length xs = j"
  using assms by (subst (2) mod_below_twice) (auto simp: mod_below_twice)

section \<open>The first free slot\<close>

definition free_dist :: "('e \<Rightarrow> bool) \<Rightarrow> 'e list \<Rightarrow> nat \<Rightarrow> nat" where
  "free_dist used tab h = length (takeWhile used (rotate h tab))"

lemma length_takeWhile_less: "\<exists>e \<in> set xs. \<not> P e \<Longrightarrow> length (takeWhile P xs) < length xs"
  by (induction xs) auto

lemma free_dist_less: "\<exists>e \<in> set tab. \<not> used e \<Longrightarrow> free_dist used tab h < length tab"
  using length_takeWhile_less [of "rotate h tab" used] by (simp add: free_dist_def)

lemma rotate_Cons:
  assumes "h < length tab"
  shows "rotate h tab = tab ! h # tl (rotate h tab)"
    and "rotate ((h + 1) mod length tab) tab = tl (rotate h tab) @ [tab ! h]"
proof -
  from assms have "tab \<noteq> []" by auto
  then have ne: "rotate h tab \<noteq> []" by simp
  have hd: "hd (rotate h tab) = tab ! h"
    using assms \<open>tab \<noteq> []\<close> nth_rotate [of 0 tab h] by (simp add: hd_conv_nth [OF ne])
  with ne show 1: "rotate h tab = tab ! h # tl (rotate h tab)" by (metis list.collapse)
  have "rotate ((h + 1) mod length tab) tab = rotate (Suc h) tab"
    by (metis Suc_eq_plus1 rotate_conv_mod)
  also have "\<dots> = rotate1 (rotate h tab)" by simp
  also have "\<dots> = tl (rotate h tab) @ [tab ! h]"
    by (subst 1) simp
  finally show "rotate ((h + 1) mod length tab) tab = tl (rotate h tab) @ [tab ! h]"
    .
qed

lemma takeWhile_step:
  assumes "h < length tab" and "used (tab ! h)" and "free_dist used tab h < length tab"
  shows "takeWhile used (rotate h tab) = tab ! h # takeWhile used (rotate ((h + 1) mod length tab) tab)"
proof -
  let ?t = "tl (rotate h tab)"
  note r = rotate_Cons [OF assms(1)]
  have len: "length (rotate h tab) = length tab" by simp
  have "\<exists>x \<in> set ?t. \<not> used x"
  proof (rule ccontr)
    assume "\<not> ?thesis"
    with assms(2) have "takeWhile used (rotate h tab) = rotate h tab"
      by (subst (1 2) r(1)) auto
    with assms(3) len show False by (simp add: free_dist_def)
  qed
  then have "takeWhile used (?t @ [tab ! h]) = takeWhile used ?t"
    by (auto simp: takeWhile_append)
  then show ?thesis using assms(2) r(2) by (subst r(1)) simp
qed

lemma free_dist_step:
  assumes "h < length tab" and "used (tab ! h)" and "free_dist used tab h < length tab"
  shows "free_dist used tab h = Suc (free_dist used tab ((h + 1) mod length tab))"
  using takeWhile_step [OF assms] by (simp add: free_dist_def)

section \<open>What the loops compute\<close>

lemma probe_free_eq:
  assumes "length tab = 2 ^ b" and "b < 32"
  shows "unat k < length tab \<Longrightarrow> free_dist used tab (unat k) < n \<Longrightarrow>
    free_dist used tab (unat k) < length tab \<Longrightarrow>
    \<exists>k'. probe_free n used tab (mask b) k = Some k' \<and>
         unat k' = (unat k + free_dist used tab (unat k)) mod length tab"
proof (induction n arbitrary: k)
  case 0
  then show ?case by simp
next
  case (Suc n)
  show ?case
  proof (cases "used (tab ! unat k)")
    case False
    then have "free_dist used tab (unat k) = 0"
      using rotate_Cons(1) [OF Suc.prems(1)] unfolding free_dist_def by (metis list.size(3) takeWhile.simps(2))
    with False Suc.prems(1) show ?thesis by simp
  next
    case True
    let ?k = "(k + 1) AND mask b"
    have k: "unat ?k = (unat k + 1) mod length tab"
      using unat_succ_mask [of k b] assms Suc.prems(1) by simp
    have lt: "unat ?k < length tab" unfolding k using assms(1) by simp
    have d: "free_dist used tab (unat k) = Suc (free_dist used tab (unat ?k))"
      using free_dist_step [OF Suc.prems(1) True Suc.prems(3)] k by simp
    obtain k' where "probe_free n used tab (mask b) ?k = Some k'"
        "unat k' = (unat ?k + free_dist used tab (unat ?k)) mod length tab"
      using Suc.IH [OF lt] d Suc.prems(2,3) by auto
    with True Suc.prems(1) d k show ?thesis
      by (auto simp: mod_simps)
  qed
qed

lemma probe_find_eq:
  assumes "length tab = 2 ^ b" and "b < 32"
  shows "unat k < length tab \<Longrightarrow> free_dist used tab (unat k) < n \<Longrightarrow>
    free_dist used tab (unat k) < length tab \<Longrightarrow>
    probe_find n used P tab (mask b) k = Some (find P (takeWhile used (rotate (unat k) tab)))"
proof (induction n arbitrary: k)
  case 0
  then show ?case by simp
next
  case (Suc n)
  show ?case
  proof (cases "used (tab ! unat k)")
    case False
    then have "takeWhile used (rotate (unat k) tab) = []"
      using rotate_Cons(1) [OF Suc.prems(1)] by (metis takeWhile.simps(2))
    with False Suc.prems(1) show ?thesis by simp
  next
    case True
    let ?k = "(k + 1) AND mask b"
    have k: "unat ?k = (unat k + 1) mod length tab"
      using unat_succ_mask [of k b] assms Suc.prems(1) by simp
    have lt: "unat ?k < length tab" unfolding k using assms(1) by simp
    have d: "free_dist used tab (unat k) = Suc (free_dist used tab (unat ?k))"
      using free_dist_step [OF Suc.prems(1) True Suc.prems(3)] k by simp
    have t: "takeWhile used (rotate (unat k) tab) = tab ! unat k # takeWhile used (rotate (unat ?k) tab)"
      using takeWhile_step [OF Suc.prems(1) True Suc.prems(3)] k by simp
    have "probe_find n used P tab (mask b) ?k = Some (find P (takeWhile used (rotate (unat ?k) tab)))"
      using Suc.IH [OF lt] d Suc.prems(2,3) by simp
    with True Suc.prems(1) t show ?thesis by simp
  qed
qed

section \<open>Buckets\<close>

text \<open>
  The home slot of an entry, and the entries with home \<open>h\<close> in the order the probe from \<open>h\<close>
  meets them.  The invariant: no used entry lies behind the first free slot of the probe
  that starts at its home.
\<close>

definition home :: "('e \<Rightarrow> u32) \<Rightarrow> 'e list \<Rightarrow> 'e \<Rightarrow> nat" where
  "home hash tab e = unat (hash e) mod length tab"

definition bucket :: "('e \<Rightarrow> bool) \<Rightarrow> ('e \<Rightarrow> u32) \<Rightarrow> 'e list \<Rightarrow> nat \<Rightarrow> 'e list" where
  "bucket used hash tab h = filter (\<lambda>e. home hash tab e = h) (takeWhile used (rotate h tab))"

definition probe_inv :: "('e \<Rightarrow> bool) \<Rightarrow> ('e \<Rightarrow> u32) \<Rightarrow> 'e list \<Rightarrow> bool" where
  "probe_inv used hash tab \<longleftrightarrow>
     (\<forall>h < length tab. \<forall>e \<in> set (dropWhile used (rotate h tab)). used e \<longrightarrow> home hash tab e \<noteq> h)"

lemma probe_inv_empty: "\<forall>e \<in> set tab. \<not> used e \<Longrightarrow> probe_inv used hash tab"
  by (auto simp: probe_inv_def dest!: set_dropWhileD)

lemma bucket_empty: "\<forall>e \<in> set tab. \<not> used e \<Longrightarrow> bucket used hash tab h = []"
  unfolding bucket_def
  by (metis (no_types, lifting) filter.simps(1) list.set_intros(1) set_rotate takeWhile.simps(1)
      takeWhile.simps(2) neq_Nil_conv)

text \<open>Filling the slot at distance \<open>i\<close> of a probe, seen from the probe's list.\<close>

lemma fill_run:
  assumes "i < length xs" and "\<not> used (xs ! i)" and "used e"
  shows "takeWhile used (xs[i := e]) =
      (if length (takeWhile used xs) = i
       then takeWhile used xs @ e # takeWhile used (drop (Suc i) xs) else takeWhile used xs)"
    and "set (dropWhile used (xs[i := e])) \<subseteq>
      (if length (takeWhile used xs) = i then set (tl (dropWhile used xs))
       else insert e (set (dropWhile used xs)))"
  using assms
proof (induction xs arbitrary: i)
  case (Cons x xs)
  {
    case 1
    then show ?case using Cons.IH(1) by (cases i) auto
  next
    case 2
    show ?case
    proof (cases i)
      case 0
      with 2 show ?thesis by (auto dest: set_dropWhileD)
    next
      case (Suc j)
      with 2 Cons.IH(2) [of j] show ?thesis by (auto dest: set_update_subset_insert [THEN subsetD])
    qed
  }
qed simp_all

lemma set_tl_subset: "set (tl xs) \<subseteq> set xs"
  by (cases xs) auto

lemma drop_Suc_takeWhile:
  "length (takeWhile used xs) = i \<Longrightarrow> i < length xs \<Longrightarrow> drop (Suc i) xs = tl (dropWhile used xs)"
  by (metis drop_Suc dropWhile_eq_drop tl_drop drop_drop plus_1_eq_Suc)


lemma probe_insert_buckets:
  assumes cap: "length tab = 2 ^ b" "b < 32" and inv: "probe_inv used hash tab"
    and room: "\<exists>x \<in> set tab. \<not> used x" and e: "used e"
  shows "\<exists>tab'. probe_insert used hash tab (mask b) e = Some tab' \<and> length tab' = length tab \<and>
    probe_inv used hash tab' \<and>
    (\<forall>h < length tab. bucket used hash tab' h =
       bucket used hash tab h @ (if home hash tab e = h then [e] else [])) \<and>
    length (filter used tab') = Suc (length (filter used tab))"
proof -
  let ?c = "length tab" and ?h = "home hash tab e"
  let ?j = "free_dist used tab ?h"
  have hc: "?h < ?c" using cap(1) by (simp add: home_def)
  have home_k: "unat (hash e AND mask b) = ?h" by (simp add: home_def unat_and_mask cap(1))
  have j: "?j < ?c" using room by (rule free_dist_less)
  obtain k where k: "probe_free ?c used tab (mask b) (hash e AND mask b) = Some k"
      "unat k = (?h + ?j) mod ?c"
    using probe_free_eq [OF cap, of "hash e AND mask b" used ?c] hc j home_k by auto
  let ?k = "unat k" and ?tab = "tab[unat k := e]"
  have kc: "?k < ?c" unfolding k(2) using cap(1) by simp
  have unused: "\<not> used (tab ! ?k)"
  proof -
    have "\<not> used (rotate ?h tab ! ?j)"
      using j nth_length_takeWhile [of used "rotate ?h tab"] by (simp add: free_dist_def)
    with j show ?thesis by (simp add: nth_rotate k(2))
  qed
  have home': "home hash ?tab x = home hash tab x" for x by (simp add: home_def)
  have main: "bucket used hash ?tab h = bucket used hash tab h @ (if ?h = h then [e] else []) \<and>
      (\<forall>x \<in> set (dropWhile used (rotate h ?tab)). used x \<longrightarrow> home hash tab x \<noteq> h)"
    if h: "h < ?c" for h
  proof -
    let ?xs = "rotate h tab" and ?i = "(?k + ?c - h) mod ?c"
    have xs': "rotate h ?tab = ?xs[?i := e]" by (rule rotate_update [OF kc h])
    have ic: "?i < length ?xs" using cap(1) by simp
    have xi: "?xs ! ?i = tab ! ?k"
    proof -
      have "(h + ?i) mod ?c = ?k" using kc h by (subst (1 2) mod_below_twice) (auto simp: mod_below_twice)
      then show ?thesis using ic by (simp add: nth_rotate)
    qed
    have own: "length (takeWhile used ?xs) = ?i" if "?h = h"
    proof -
      have "?i = free_dist used tab h" unfolding k(2) using that rotate_pos [OF h, of "free_dist used tab h"] j by simp
      then show ?thesis by (simp add: free_dist_def)
    qed
    have behind: "\<forall>x \<in> set (dropWhile used ?xs). used x \<longrightarrow> home hash tab x \<noteq> h"
      using inv h by (simp add: probe_inv_def)
    note run = fill_run [of ?i ?xs used e, OF ic _ e, unfolded xi, OF unused]
    show ?thesis
    proof (cases "length (takeWhile used ?xs) = ?i")
      case True
      have tl: "drop (Suc ?i) ?xs = tl (dropWhile used ?xs)" using True ic by (rule drop_Suc_takeWhile)
      have tl_in: "set (tl (dropWhile used ?xs)) \<subseteq> set (dropWhile used ?xs)" by (rule set_tl_subset)
      have "filter (\<lambda>x. home hash tab x = h) (takeWhile used (drop (Suc ?i) ?xs)) = []"
        using behind tl_in set_takeWhileD unfolding tl filter_empty_conv by (metis subsetD)
      with True run behind tl_in show ?thesis
        by (auto simp: bucket_def xs' home')
    next
      case False
      with own have "?h \<noteq> h" by blast
      with False run behind show ?thesis by (auto simp: bucket_def xs' home')
    qed
  qed
  have "length (filter used ?tab) = Suc (length (filter used tab))"
  proof -
    have "tab = take ?k tab @ tab ! ?k # drop (Suc ?k) tab" using kc by (rule id_take_nth_drop)
    then have "length (filter used tab) = length (filter used (take ?k tab)) + length (filter used (drop (Suc ?k) tab))"
      using unused by (metis filter.simps(2) filter_append length_append)
    with kc e show ?thesis by (simp add: upd_conv_take_nth_drop)
  qed
  with main kc k(1) show ?thesis
    by (auto simp: probe_insert_def probe_inv_def home')
qed


section \<open>The interface of a probed index\<close>

text \<open>
  What the clients of such a table rely on: entries are kept per hash in insertion order,
  an insertion succeeds while two slots are free, and a lookup whose predicate fixes the
  hash finds the oldest matching entry.
\<close>

lemma find_append: "find P (xs @ ys) = (case find P xs of None \<Rightarrow> find P ys | r \<Rightarrow> r)"
  by (induction xs) auto

fun insert_all :: "('t \<Rightarrow> 'e \<Rightarrow> 't option) \<Rightarrow> 't \<Rightarrow> 'e list \<Rightarrow> 't option" where
  "insert_all ins t [] = Some t"
| "insert_all ins t (e # es) = do { t \<leftarrow> ins t e; insert_all ins t es }"

locale hash_index =
  fixes used :: "'e \<Rightarrow> bool" and hash :: "'e \<Rightarrow> u32"
    and ins :: "'t \<Rightarrow> 'e \<Rightarrow> 't option"
    and look :: "'t \<Rightarrow> ('e \<Rightarrow> bool) \<Rightarrow> u32 \<Rightarrow> 'e option option"
    and entries :: "'t \<Rightarrow> u32 \<Rightarrow> 'e list"
    and inv :: "'t \<Rightarrow> bool" and room :: "'t \<Rightarrow> nat"
  assumes ins_ok: "inv t \<Longrightarrow> used e \<Longrightarrow> 1 < room t \<Longrightarrow>
      \<exists>t'. ins t e = Some t' \<and> inv t' \<and> Suc (room t') = room t \<and>
        (\<forall>P h. (\<forall>x. P x \<longrightarrow> hash x = h) \<longrightarrow> find P (entries t' h) = find P (entries t h @ [e]))"
    and look_ok: "inv t \<Longrightarrow> 0 < room t \<Longrightarrow> (\<forall>e. P e \<longrightarrow> hash e = h) \<Longrightarrow>
      look t P h = Some (find P (entries t h))"
begin

lemma insert_all_ok:
  "inv t \<Longrightarrow> \<forall>e \<in> set es. used e \<Longrightarrow> length es < room t \<Longrightarrow>
   \<exists>t'. insert_all ins t es = Some t' \<and> inv t' \<and> room t' + length es = room t \<and>
     (\<forall>P h. (\<forall>x. P x \<longrightarrow> hash x = h) \<longrightarrow> find P (entries t' h) = find P (entries t h @ es))"
proof (induction es arbitrary: t)
  case Nil
  then show ?case by simp
next
  case (Cons e es)
  obtain t1 where t1: "ins t e = Some t1" "inv t1" "Suc (room t1) = room t"
      "\<forall>P h. (\<forall>x. P x \<longrightarrow> hash x = h) \<longrightarrow> find P (entries t1 h) = find P (entries t h @ [e])"
    using ins_ok [of t e] Cons.prems by auto
  obtain t2 where t2: "insert_all ins t1 es = Some t2" "inv t2" "room t2 + length es = room t1"
      "\<forall>P h. (\<forall>x. P x \<longrightarrow> hash x = h) \<longrightarrow> find P (entries t2 h) = find P (entries t1 h @ es)"
    using Cons.IH [OF t1(2)] Cons.prems t1(3) by auto
  have "find P (entries t2 h) = find P (entries t h @ e # es)" if "\<forall>x. P x \<longrightarrow> hash x = h" for P h
    using t1(4) t2(4) that by (simp add: find_append split: option.splits)
  with t1 t2 show ?case by auto
qed

text \<open>An index filled from an empty table answers like a scan of the inserted entries.\<close>

lemma built_index_scans:
  assumes "inv t" and "\<forall>h. entries t h = []" and "\<forall>e \<in> set es. used e" and "length es < room t"
  shows "\<exists>t'. insert_all ins t es = Some t' \<and> inv t' \<and> room t' + length es = room t \<and>
    (\<forall>P h. (\<forall>x. P x \<longrightarrow> hash x = h) \<longrightarrow> look t' P h = Some (find P es))"
proof -
  obtain t' where t': "insert_all ins t es = Some t'" "inv t'" "room t' + length es = room t"
     "\<forall>P h. (\<forall>x. P x \<longrightarrow> hash x = h) \<longrightarrow> find P (entries t' h) = find P (entries t h @ es)"
    using insert_all_ok [OF assms(1,3,4)] by blast
  with assms(2,4) look_ok [of t'] show ?thesis by auto
qed

end

definition tab_mask :: "'e list \<Rightarrow> u32" where
  "tab_mask tab = of_nat (length tab) - 1"

definition probe_wf :: "('e \<Rightarrow> bool) \<Rightarrow> ('e \<Rightarrow> u32) \<Rightarrow> 'e list \<Rightarrow> bool" where
  "probe_wf used hash tab \<longleftrightarrow> (\<exists>b < 32. length tab = 2 ^ b) \<and> probe_inv used hash tab"

definition free_slots :: "('e \<Rightarrow> bool) \<Rightarrow> 'e list \<Rightarrow> nat" where
  "free_slots used tab = length (filter (\<lambda>e. \<not> used e) tab)"

definition probe_entries :: "('e \<Rightarrow> bool) \<Rightarrow> ('e \<Rightarrow> u32) \<Rightarrow> 'e list \<Rightarrow> u32 \<Rightarrow> 'e list" where
  "probe_entries used hash tab h = bucket used hash tab (unat h mod length tab)"

definition probe_look :: "('e \<Rightarrow> bool) \<Rightarrow> 'e list \<Rightarrow> ('e \<Rightarrow> bool) \<Rightarrow> u32 \<Rightarrow> 'e option option" where
  "probe_look used tab P h = probe_find (length tab) used P tab (tab_mask tab) (h AND tab_mask tab)"

lemma tab_mask_eq: "length tab = 2 ^ b \<Longrightarrow> tab_mask tab = mask b"
  by (simp add: tab_mask_def mask_eq_exp_minus_1)

lemma free_slots_pos: "0 < free_slots used tab \<longleftrightarrow> (\<exists>e \<in> set tab. \<not> used e)"
  by (auto simp: free_slots_def filter_empty_conv)

lemma used_free: "length (filter used tab) + free_slots used tab = length tab"
  by (simp add: free_slots_def sum_length_filter_compl)

lemma find_filter: "\<forall>x. P x \<longrightarrow> Q x \<Longrightarrow> find P (filter Q xs) = find P xs"
  by (induction xs) auto

interpretation probe: hash_index used hash "\<lambda>tab. probe_insert used hash tab (tab_mask tab)"
    "probe_look used" "probe_entries used hash" "probe_wf used hash" "free_slots used"
  for used :: "'e \<Rightarrow> bool" and hash :: "'e \<Rightarrow> u32"
proof
  fix t e
  assume wf: "probe_wf used hash t" and e: "used e" and room: "1 < free_slots used t"
  from wf obtain b where b: "b < 32" "length t = 2 ^ b" "probe_inv used hash t"
    by (auto simp: probe_wf_def)
  from room have "\<exists>x \<in> set t. \<not> used x" using free_slots_pos [of used t] by simp
  from probe_insert_buckets [OF b(2,1,3) this e] obtain t' where t':
    "probe_insert used hash t (mask b) e = Some t'" "length t' = length t" "probe_inv used hash t'"
    "\<forall>h < length t. bucket used hash t' h = bucket used hash t h @ (if home hash t e = h then [e] else [])"
    "length (filter used t') = Suc (length (filter used t))" by blast
  have "find P (probe_entries used hash t' h) = find P (probe_entries used hash t h @ [e])"
    if P: "\<forall>x. P x \<longrightarrow> hash x = h" for P h
  proof -
    have "unat h mod length t < length t" using b(2) by simp
    with t'(2,4) have eq: "probe_entries used hash t' h =
      probe_entries used hash t h @ (if home hash t e = unat h mod length t then [e] else [])"
      by (simp add: probe_entries_def)
    have "\<not> P e" if "home hash t e \<noteq> unat h mod length t" using P that by (auto simp: home_def)
    then show ?thesis
      by (cases "home hash t e = unat h mod length t") (simp_all add: eq find_append split: option.split)
  qed
  moreover have "Suc (free_slots used t') = free_slots used t"
    using used_free [of used t] used_free [of used t'] t'(2,5) by simp
  moreover have "probe_wf used hash t'" using b(1,2) t'(2,3) by (auto simp: probe_wf_def)
  moreover have "probe_insert used hash t (tab_mask t) e = Some t'"
    using t'(1) tab_mask_eq [OF b(2)] by simp
  ultimately show "\<exists>t'. probe_insert used hash t (tab_mask t) e = Some t' \<and> probe_wf used hash t' \<and>
      Suc (free_slots used t') = free_slots used t \<and>
      (\<forall>P h. (\<forall>x. P x \<longrightarrow> hash x = h) \<longrightarrow>
        find P (probe_entries used hash t' h) = find P (probe_entries used hash t h @ [e]))"
    by blast
next
  fix t P h
  assume wf: "probe_wf used hash t" and room: "0 < free_slots used t" and P: "\<forall>e. P e \<longrightarrow> hash e = h"
  from wf obtain b where b: "b < 32" "length t = 2 ^ b" by (auto simp: probe_wf_def)
  have m: "tab_mask t = mask b" using b(2) by (rule tab_mask_eq)
  have h: "unat (h AND mask b) = unat h mod length t" using b(2) by (simp add: unat_and_mask)
  have d: "free_dist used t (unat (h AND mask b)) < length t"
    using room by (intro free_dist_less) (simp add: free_slots_pos)
  have "probe_look used t P h = Some (find P (takeWhile used (rotate (unat h mod length t) t)))"
    using probe_find_eq [OF b(2,1), of "h AND mask b" used "length t" P] d b(2)
    by (simp add: probe_look_def m h)
  also have "find P (takeWhile used (rotate (unat h mod length t) t)) = find P (probe_entries used hash t h)"
    unfolding probe_entries_def bucket_def using P by (subst find_filter) (auto simp: home_def)
  finally show "probe_look used t P h = Some (find P (probe_entries used hash t h))" .
qed

section \<open>Tables as sets of entries\<close>

definition used_in :: "('e \<Rightarrow> bool) \<Rightarrow> 'e list \<Rightarrow> 'e set" where
  "used_in used tab = {e \<in> set tab. used e}"

lemma probe_entries_sound: "e \<in> set (probe_entries used hash t h) \<Longrightarrow> e \<in> set t \<and> used e"
  by (auto simp: probe_entries_def bucket_def dest: set_takeWhileD)

lemma probe_entries_complete:
  assumes "probe_wf used hash t" and "e \<in> set t" and "used e"
  shows "e \<in> set (probe_entries used hash t (hash e))"
proof -
  let ?h = "unat (hash e) mod length t"
  have "0 < length t" using assms(2) by auto
  then have "?h < length t" by simp
  then have "e \<notin> set (dropWhile used (rotate ?h t))"
    using assms by (auto simp: probe_wf_def probe_inv_def home_def)
  moreover have "e \<in> set (takeWhile used (rotate ?h t) @ dropWhile used (rotate ?h t))"
    using assms(2) by (simp only: takeWhile_dropWhile_id) simp
  ultimately have "e \<in> set (takeWhile used (rotate ?h t))" unfolding set_append by blast
  then show ?thesis by (simp add: probe_entries_def bucket_def home_def)
qed

lemma find_eq_mem: "find (\<lambda>x. x = e) xs = (if e \<in> set xs then Some e else None)"
  by (induction xs) auto

lemma used_in_entries:
  "probe_wf used hash t \<Longrightarrow>
    e \<in> used_in used t \<longleftrightarrow> find (\<lambda>x. x = e) (probe_entries used hash t (hash e)) = Some e"
  using probe_entries_sound [of e used hash t "hash e"] probe_entries_complete [of used hash t e]
  by (auto simp: used_in_def find_eq_mem)

lemma used_in_by_find:
  assumes "probe_wf used hash t"
    and "\<forall>P h. (\<forall>x. P x \<longrightarrow> hash x = h) \<longrightarrow> find P (probe_entries used hash t h) = find P (f h)"
  shows "used_in used t = {e. e \<in> set (f (hash e))}"
  using assms(2) [rule_format, of "\<lambda>x. x = _"]
  by (auto simp: used_in_entries [OF assms(1)] find_eq_mem split: if_splits)

lemma insert_all_length:
  "insert_all (\<lambda>t. probe_insert u g t (tab_mask t)) t es = Some t' \<Longrightarrow> length t' = length t"
  by (induction es arbitrary: t)
    (auto simp: probe_insert_def c_set_def bind_eq_Some_conv split: if_splits)

lemma used_in_insert:
  assumes "probe_wf used hash t" and "used e" and "1 < free_slots used t"
  shows "\<exists>t'. probe_insert used hash t (tab_mask t) e = Some t' \<and> probe_wf used hash t' \<and>
    Suc (free_slots used t') = free_slots used t \<and> used_in used t' = insert e (used_in used t) \<and> length t' = length t"
proof -
  obtain t' where t': "probe_insert used hash t (tab_mask t) e = Some t'" "probe_wf used hash t'"
    "Suc (free_slots used t') = free_slots used t"
    "\<forall>P h. (\<forall>x. P x \<longrightarrow> hash x = h) \<longrightarrow>
      find P (probe_entries used hash t' h) = find P (probe_entries used hash t h @ [e])"
    using probe.ins_ok [OF assms] by blast
  have "used_in used t' = {x. x \<in> set (probe_entries used hash t (hash x) @ [e])}"
    by (rule used_in_by_find [OF t'(2,4)])
  also have "\<dots> = insert e (used_in used t)"
    by (auto simp: used_in_entries [OF assms(1)] find_eq_mem)
  finally have "used_in used t' = insert e (used_in used t)" .
  moreover have "length t' = length t"
    using t'(1) by (auto simp: probe_insert_def c_set_def bind_eq_Some_conv split: if_splits)
  ultimately show ?thesis using t' by blast
qed

lemma probe_wf_zero:
  assumes "b < 32" and "\<not> used z"
  shows "probe_wf used hash (replicate (2 ^ b) z)"
    and "free_slots used (replicate (2 ^ b) z) = 2 ^ b"
    and "probe_entries used hash (replicate (2 ^ b) z) h = []"
proof -
  show "probe_wf used hash (replicate (2 ^ b) z)"
    using assms by (auto simp: probe_wf_def intro!: probe_inv_empty)
  show "free_slots used (replicate (2 ^ b) z) = 2 ^ b" using assms by (simp add: free_slots_def)
  show "probe_entries used hash (replicate (2 ^ b) z) h = []"
    unfolding probe_entries_def using assms by (intro bucket_empty) auto
qed

text \<open>Copying the used entries of one table into an empty larger one.\<close>

lemma rebuild_ok:
  assumes "length (filter used es) < 2 ^ b" and "b < 32" and "\<not> used z"
  shows "\<exists>t'. insert_all (\<lambda>t. probe_insert used hash t (tab_mask t)) (replicate (2 ^ b) z) (filter used es) = Some t' \<and>
    probe_wf used hash t' \<and> used_in used t' = used_in used es \<and> length t' = 2 ^ b \<and>
    length (filter used t') = length (filter used es)"
proof -
  note z = probe_wf_zero [of b used z, OF assms(2,3)] and zh = probe_wf_zero(1) [of b used z hash, OF assms(2,3)]
  have "\<forall>e \<in> set (filter used es). used e" by simp
  from probe.insert_all_ok [OF zh this] obtain t' where t':
    "insert_all (\<lambda>t. probe_insert used hash t (tab_mask t)) (replicate (2 ^ b) z) (filter used es) = Some t'"
    "probe_wf used hash t'" "free_slots used t' + length (filter used es) = 2 ^ b"
    "\<forall>P h. (\<forall>x. P x \<longrightarrow> hash x = h) \<longrightarrow>
       find P (probe_entries used hash t' h) = find P (filter used es)"
    using assms(1) by (auto simp: z)
  have "used_in used t' = {x. x \<in> set (filter used es)}"
    by (rule used_in_by_find [OF t'(2,4)])
  moreover have "length t' = 2 ^ b" using insert_all_length [OF t'(1)] by simp
  moreover have "length (filter used t') + free_slots used t' = length t'" by (rule used_free)
  ultimately show ?thesis using t'(1,2,3) by (auto simp: used_in_def)
qed

end
