(* ===== verification/Dex_Class.thy ===== *)
theory Dex_Class
  imports Dex_Encoding Probe
begin

text \<open>
  The class layer of the DEX reader (\<open>src/src/dvm/dex.c\<close>): the lazily built index from a
  class descriptor to its class definition, the delta-encoded member lists of a class, code
  items and interface lists.
\<close>

section \<open>Finding a class\<close>

text \<open>FNV-1a over the bytes of a C string.\<close>

definition desc_hash_step :: "u32 \<Rightarrow> char \<Rightarrow> u32" where
  "desc_hash_step h c = (h XOR of_nat (of_char c)) * 16777619"

definition dex_desc_hash :: "string \<Rightarrow> u32" where
  "dex_desc_hash s = fold (\<lambda>c h. desc_hash_step h c) s 2166136261"

definition dex_class_desc :: "alloc \<Rightarrow> dex_file \<Rightarrow> u32 \<Rightarrow> (string option \<times> dex_file) option" where
  "dex_class_desc al d i = do {
     t \<leftarrow> dex_u32_at d (unat (class_defs_off d) + unat i * 32);
     dex_type al d t }"

text \<open>\<open>while (cap < limit) cap <<= 1;\<close> a capacity shifted to zero never reaches the limit.\<close>

fun grow_cap :: "nat \<Rightarrow> u32 \<Rightarrow> u32 \<Rightarrow> u32 option" where
  "grow_cap 0 cap limit = None"
| "grow_cap (Suc n) cap limit = (if cap < limit then grow_cap n (push_bit 1 cap) limit else Some cap)"

definition slot_used :: "u32 \<Rightarrow> bool" where
  "slot_used e \<longleftrightarrow> e \<noteq> 0"

fun find_class_build ::
    "nat \<Rightarrow> alloc \<Rightarrow> dex_file \<Rightarrow> u32 \<Rightarrow> u32 \<Rightarrow> u32 list \<Rightarrow> (u32 list \<times> dex_file) option" where
  "find_class_build 0 al d i cap h = Some (h, d)"
| "find_class_build (Suc n) al d i cap h = do {
     (t, d) \<leftarrow> dex_class_desc al d i;
     case t of None \<Rightarrow> find_class_build n al d (i + 1) cap h
     | Some s \<Rightarrow> do {
         let m = cap - 1;
         k \<leftarrow> probe_free (length h) slot_used h m (dex_desc_hash s AND m);
         h \<leftarrow> c_set h (unat k) (i + 1);
         find_class_build n al d (i + 1) cap h } }"

fun find_class_probe ::
    "nat \<Rightarrow> alloc \<Rightarrow> dex_file \<Rightarrow> string \<Rightarrow> u32 list \<Rightarrow> u32 \<Rightarrow> u32 \<Rightarrow> (int \<times> dex_file) option" where
  "find_class_probe 0 al d desc h m k = None"
| "find_class_probe (Suc n) al d desc h m k = do {
     e \<leftarrow> c_at h (unat k);
     if e = 0 then Some (-1, d)
     else do {
       let i = e - 1;
       (t, d) \<leftarrow> dex_class_desc al d i;
       if t = Some desc then Some (sint i, d)
       else find_class_probe n al d desc h m ((k + 1) AND m) } }"

fun find_class_scan ::
    "nat \<Rightarrow> alloc \<Rightarrow> dex_file \<Rightarrow> string \<Rightarrow> u32 \<Rightarrow> (int \<times> dex_file) option" where
  "find_class_scan 0 al d desc i = Some (-1, d)"
| "find_class_scan (Suc n) al d desc i = do {
     (t, d) \<leftarrow> dex_class_desc al d i;
     if t = Some desc then Some (sint i, d)
     else find_class_scan n al d desc (i + 1) }"

definition find_class_index :: "alloc \<Rightarrow> dex_file \<Rightarrow> dex_file option" where
  "find_class_index al d =
     (if cls_hash d = None \<and> class_defs_size d \<noteq> 0 then do {
        cap \<leftarrow> grow_cap 33 64 (class_defs_size d * 2);
        if al (unat cap * 4) then do {
          (h, d) \<leftarrow> find_class_build (unat (class_defs_size d)) al d 0 cap (replicate (unat cap) 0);
          Some (d\<lparr>cls_hash := Some h, cls_hash_cap := cap\<rparr>) }
        else Some d }
      else Some d)"

definition dex_find_class :: "alloc \<Rightarrow> dex_file \<Rightarrow> string option \<Rightarrow> (int \<times> dex_file) option" where
  "dex_find_class al d descriptor =
     (case descriptor of None \<Rightarrow> Some (-1, d)
      | Some desc \<Rightarrow> do {
          d \<leftarrow> find_class_index al d;
          case cls_hash d of
            Some h \<Rightarrow> let m = cls_hash_cap d - 1 in
              find_class_probe (length h) al d desc h m (dex_desc_hash desc AND m)
          | None \<Rightarrow> find_class_scan (unat (class_defs_size d)) al d desc 0 })"

section \<open>Class data\<close>

record dex_encoded_field =
  ef_field_idx :: u32
  ef_access_flags :: u32

record dex_encoded_method =
  em_method_idx :: u32
  em_access_flags :: u32
  em_code_off :: u32

record dex_class_data =
  static_fields :: "dex_encoded_field list"
  instance_fields :: "dex_encoded_field list"
  direct_methods :: "dex_encoded_method list"
  virtual_methods :: "dex_encoded_method list"

definition class_data_zero :: dex_class_data where
  "class_data_zero = \<lparr>static_fields = [], instance_fields = [], direct_methods = [], virtual_methods = []\<rparr>"

text \<open>
  The bodies of the two loops; the arrays are the lists of the entries written so far, of
  the length the counts say.
\<close>

fun read_fields_loop ::
    "nat \<Rightarrow> dex_file \<Rightarrow> nat \<Rightarrow> u32 \<Rightarrow> (nat \<times> dex_encoded_field list) option" where
  "read_fields_loop 0 d p idx = Some (p, [])"
| "read_fields_loop (Suc n) d p idx = do {
     (p, diff) \<leftarrow> dex_uleb d p;
     (p, acc) \<leftarrow> dex_uleb d p;
     let idx = idx + diff;
     (p, out) \<leftarrow> read_fields_loop n d p idx;
     Some (p, \<lparr>ef_field_idx = idx, ef_access_flags = acc\<rparr> # out) }"

definition read_fields ::
    "alloc \<Rightarrow> dex_file \<Rightarrow> nat \<Rightarrow> u32 \<Rightarrow> (nat \<times> dex_encoded_field list) option option" where
  "read_fields al d p n =
     (if n \<noteq> 0 \<and> \<not> al (unat n * 8) then Some None
      else do { r \<leftarrow> read_fields_loop (unat n) d p 0; Some (Some r) })"

fun read_methods_loop ::
    "nat \<Rightarrow> dex_file \<Rightarrow> nat \<Rightarrow> u32 \<Rightarrow> (nat \<times> dex_encoded_method list) option" where
  "read_methods_loop 0 d p idx = Some (p, [])"
| "read_methods_loop (Suc n) d p idx = do {
     (p, diff) \<leftarrow> dex_uleb d p;
     (p, acc) \<leftarrow> dex_uleb d p;
     (p, code) \<leftarrow> dex_uleb d p;
     let idx = idx + diff;
     (p, out) \<leftarrow> read_methods_loop n d p idx;
     Some (p, \<lparr>em_method_idx = idx, em_access_flags = acc, em_code_off = code\<rparr> # out) }"

definition read_methods ::
    "alloc \<Rightarrow> dex_file \<Rightarrow> nat \<Rightarrow> u32 \<Rightarrow> (nat \<times> dex_encoded_method list) option option" where
  "read_methods al d p n =
     (if n \<noteq> 0 \<and> \<not> al (unat n * 12) then Some None
      else do { r \<leftarrow> read_methods_loop (unat n) d p 0; Some (Some r) })"

text \<open>\<open>dex_class_data_release\<close> frees the arrays and clears the structure.\<close>

definition dex_class_data_release :: "dex_class_data \<Rightarrow> dex_class_data" where
  "dex_class_data_release cd = class_data_zero"

text \<open>
  \<open>Some (False, cd)\<close> is the \<open>false\<close> return with \<open>*out\<close> cleared.  Reading stops at the first
  array that cannot be allocated.
\<close>

definition dex_class_data :: "alloc \<Rightarrow> dex_file \<Rightarrow> u32 \<Rightarrow> (bool \<times> dex_class_data) option" where
  "dex_class_data al d off =
     (if off = 0 \<or> dex_len d \<le> unat off then Some (False, class_data_zero)
      else do {
        (p, sf) \<leftarrow> dex_uleb d (unat off);
        (p, nf) \<leftarrow> dex_uleb d p;
        (p, dm) \<leftarrow> dex_uleb d p;
        (p, vm) \<leftarrow> dex_uleb d p;
        let total = unat sf + unat nf + unat dm + unat vm;
        if dex_len d - p < total * 2 then Some (False, class_data_zero)
        else do {
          r \<leftarrow> read_fields al d p sf;
          case r of None \<Rightarrow> Some (False, dex_class_data_release class_data_zero)
          | Some (p, sfs) \<Rightarrow> do {
            r \<leftarrow> read_fields al d p nf;
            case r of None \<Rightarrow> Some (False, dex_class_data_release (class_data_zero\<lparr>static_fields := sfs\<rparr>))
            | Some (p, ifs) \<Rightarrow> do {
              r \<leftarrow> read_methods al d p dm;
              case r of None \<Rightarrow> Some (False, dex_class_data_release
                    (class_data_zero\<lparr>static_fields := sfs, instance_fields := ifs\<rparr>))
              | Some (p, dms) \<Rightarrow> do {
                r \<leftarrow> read_methods al d p vm;
                case r of None \<Rightarrow> Some (False, dex_class_data_release
                    (class_data_zero\<lparr>static_fields := sfs, instance_fields := ifs, direct_methods := dms\<rparr>))
                | Some (p, vms) \<Rightarrow>
                    Some (True, \<lparr>static_fields = sfs, instance_fields = ifs,
                                 direct_methods = dms, virtual_methods = vms\<rparr>) } } } } })"

section \<open>Code items and interfaces\<close>

text \<open>The pointers into the mapping are offsets; \<open>None\<close> is \<open>NULL\<close>.\<close>

record dex_code =
  registers_size :: u16
  ins_size :: u16
  outs_size :: u16
  tries_size :: u16
  insns_size :: u32
  code_insns :: "nat option"
  code_tries :: "nat option"
  code_handlers :: "nat option"

definition code_zero :: dex_code where
  "code_zero = \<lparr>registers_size = 0, ins_size = 0, outs_size = 0, tries_size = 0, insns_size = 0,
     code_insns = None, code_tries = None, code_handlers = None\<rparr>"

definition dex_code :: "dex_file \<Rightarrow> u32 \<Rightarrow> (bool \<times> dex_code) option" where
  "dex_code d off =
     (if off = 0 \<or> dex_len d < unat off + 16 then Some (False, code_zero)
      else do {
        rs \<leftarrow> dex_u16_at d (unat off);
        is \<leftarrow> dex_u16_at d (unat (off + 2));
        os \<leftarrow> dex_u16_at d (unat (off + 4));
        ts \<leftarrow> dex_u16_at d (unat (off + 6));
        ns \<leftarrow> dex_u32_at d (unat (off + 12));
        let c = code_zero\<lparr>registers_size := rs, ins_size := is, outs_size := os, tries_size := ts,
                  insns_size := ns\<rparr>;
        let insns_off = unat off + 16;
        if dex_len d < insns_off + unat ns * 2 then Some (False, c)
        else do {
          let c = c\<lparr>code_insns := Some insns_off\<rparr>;
          if ts \<noteq> 0 then do {
            let t = insns_off + unat ns * 2 + (if ns AND 1 \<noteq> 0 then 2 else 0);
            if dex_len d < t + unat ts * 8 then Some (True, c\<lparr>tries_size := 0\<rparr>)
            else Some (True, c\<lparr>code_tries := Some t, code_handlers := Some (t + unat ts * 8)\<rparr>) }
          else Some (True, c) } })"

fun interfaces_loop :: "nat \<Rightarrow> dex_file \<Rightarrow> u32 \<Rightarrow> u32 \<Rightarrow> u16 list \<Rightarrow> int \<Rightarrow> u16 list option" where
  "interfaces_loop 0 d off i out max' = Some out"
| "interfaces_loop (Suc n) d off i out max' =
     (if sint i < max' then do {
        v \<leftarrow> dex_u16_at d (unat (off + 4) + unat i * 2);
        out \<leftarrow> c_set out (unat i) v;
        interfaces_loop n d off (i + 1) out max' }
      else Some out)"

definition dex_interfaces :: "dex_file \<Rightarrow> u32 \<Rightarrow> u16 list \<Rightarrow> int \<Rightarrow> (int \<times> u16 list) option" where
  "dex_interfaces d off out max' =
     (if off = 0 \<or> dex_len d < unat off + 4 then Some (0, out)
      else do {
        n \<leftarrow> dex_u32_at d (unat off);
        if dex_len d < unat off + 4 + unat n * 2 then Some (0, out)
        else do {
          out \<leftarrow> interfaces_loop (unat n) d off 0 out max';
          Some (sint n, out) } })"

section \<open>The index answers like a scan\<close>

definition class_desc_res :: "alloc \<Rightarrow> dex_file \<Rightarrow> u32 \<Rightarrow> string option" where
  "class_desc_res al d i = type_res al d (rd32 d (unat (class_defs_off d) + unat i * 32))"

lemma class_desc_res_same: "same_image d d' \<Longrightarrow> class_desc_res al d' = class_desc_res al d"
  by (rule ext) (simp add: class_desc_res_def same_image_simps [of d d'] type_res_same [of d d'])

lemma dex_class_desc_dok:
  "dex_inv al d \<Longrightarrow> dok al d (dex_class_desc al d i) (\<lambda>r. r = class_desc_res al d i)"
  using dex_type_dok [of al d] dex_inv_mapped [of al d]
  by (simp add: dex_class_desc_def class_desc_res_def)

text \<open>The specification: the first class definition with that descriptor.\<close>

definition class_scan :: "alloc \<Rightarrow> dex_file \<Rightarrow> string \<Rightarrow> nat list \<Rightarrow> int" where
  "class_scan al d desc is =
     (case find (\<lambda>i. class_desc_res al d (of_nat i) = Some desc) is of None \<Rightarrow> -1 | Some i \<Rightarrow> int i)"

definition find_class_res :: "alloc \<Rightarrow> dex_file \<Rightarrow> string \<Rightarrow> int" where
  "find_class_res al d desc = class_scan al d desc [0..<unat (class_defs_size d)]"

lemma class_scan_same: "same_image d d' \<Longrightarrow> class_scan al d' = class_scan al d"
  by (simp add: class_scan_def fun_eq_iff class_desc_res_same [of d d'])

lemma sint_of_nat_small: "i < 2 ^ 31 \<Longrightarrow> sint (of_nat i :: u32) = int i"
  by (subst sint_small) (simp_all add: unsigned_of_nat take_bit_nat_eq_self)

lemma unat_of_nat_small: "i < 2 ^ 32 \<Longrightarrow> unat (of_nat i :: u32) = i"
  by (simp add: unsigned_of_nat take_bit_nat_eq_self)

lemma class_scan_Cons:
  "class_scan al d desc (i # is) =
     (if class_desc_res al d (of_nat i) = Some desc then int i else class_scan al d desc is)"
  by (simp add: class_scan_def)

lemma upt_step: "[i..<i + Suc n] = i # [Suc i..<Suc i + n]"
  by (simp add: upt_conv_Cons)

lemma find_class_scan_dok:
  "dex_inv al d \<Longrightarrow> i + n < 2 ^ 31 \<Longrightarrow>
   dok al d (find_class_scan n al d desc (of_nat i)) (\<lambda>r. r = class_scan al d desc [i..<i + n])"
proof (induction n arbitrary: d i)
  case 0
  then show ?case by (auto simp: class_scan_def intro: dok_ret)
next
  case (Suc n)
  show ?case
    unfolding find_class_scan.simps
  proof (rule dok_bind [OF dex_class_desc_dok [OF Suc.prems(1)]])
    fix t d1
    assume t: "t = class_desc_res al d (of_nat i)" and d1: "dex_inv al d1" "same_image d d1"
    have "dok al d1 (find_class_scan n al d1 desc (of_nat (Suc i)))
        (\<lambda>r. r = class_scan al d desc [Suc i..<Suc i + n])"
      using Suc.IH [OF d1(1), of "Suc i"] Suc.prems(2) by (simp add: class_scan_same [OF d1(2)])
    then show "dok al d1 (case (t, d1) of (t, d) \<Rightarrow> if t = Some desc then Some (sint (of_nat i :: u32), d)
        else find_class_scan n al d desc (of_nat i + 1)) (\<lambda>r. r = class_scan al d desc [i..<i + Suc n])"
      using t d1(1) Suc.prems(2) unfolding upt_step
      by (auto simp: class_scan_Cons sint_of_nat_small add.commute intro: dok_ret)
  qed
qed

text \<open>The hash of a slot entry: the hash of the descriptor it stands for.\<close>

definition slot_desc :: "alloc \<Rightarrow> dex_file \<Rightarrow> u32 \<Rightarrow> string option" where
  "slot_desc al d e = class_desc_res al d (e - 1)"

definition slot_hash :: "alloc \<Rightarrow> dex_file \<Rightarrow> u32 \<Rightarrow> u32" where
  "slot_hash al d e = (case slot_desc al d e of None \<Rightarrow> 0 | Some s \<Rightarrow> dex_desc_hash s)"

definition class_slots :: "alloc \<Rightarrow> dex_file \<Rightarrow> nat list \<Rightarrow> u32 list" where
  "class_slots al d is = map (\<lambda>i. of_nat i + 1) (filter (\<lambda>i. class_desc_res al d (of_nat i) \<noteq> None) is)"

lemma slots_same:
  assumes "same_image d d'"
  shows "slot_desc al d' = slot_desc al d" "slot_hash al d' = slot_hash al d"
    "class_slots al d' = class_slots al d"
  using class_desc_res_same [OF assms] by (auto simp: slot_desc_def slot_hash_def class_slots_def fun_eq_iff)

lemma class_slots_Cons:
  "class_slots al d (i # is) =
     (if class_desc_res al d (of_nat i) = None then class_slots al d is
      else (of_nat i + 1) # class_slots al d is)"
  by (simp add: class_slots_def)

lemma length_probe_insert: "probe_insert used hash tab m e = Some tab' \<Longrightarrow> length tab' = length tab"
  by (auto simp: probe_insert_def c_set_def split: Option.bind_splits if_splits)

lemma find_class_build_dok:
  "dex_inv al d \<Longrightarrow> cap = of_nat (length h) \<Longrightarrow>
   insert_all (\<lambda>tab. probe_insert slot_used (slot_hash al d) tab (tab_mask tab)) h
     (class_slots al d [i..<i + n]) = Some h' \<Longrightarrow>
   dok al d (find_class_build n al d (of_nat i) cap h) (\<lambda>r. r = h')"
proof (induction n arbitrary: d i h)
  case 0
  then show ?case by (auto simp: class_slots_def intro: dok_ret)
next
  case (Suc n)
  show ?case
    unfolding find_class_build.simps
  proof (rule dok_bind [OF dex_class_desc_dok [OF Suc.prems(1)]])
    fix t d1
    assume t: "t = class_desc_res al d (of_nat i)" and d1: "dex_inv al d1" "same_image d d1"
    note same = slots_same [OF d1(2)]
    show "dok al d1 (case (t, d1) of (t, d) \<Rightarrow> case t of None \<Rightarrow> find_class_build n al d (of_nat i + 1) cap h
      | Some s \<Rightarrow> let m = cap - 1 in probe_free (length h) slot_used h m (dex_desc_hash s AND m) \<bind>
          (\<lambda>k. c_set h (unat k) (of_nat i + 1) \<bind> find_class_build n al d (of_nat i + 1) cap)) (\<lambda>r. r = h')"
    proof (cases t)
      case None
      with Suc.IH [OF d1(1) Suc.prems(2), of "Suc i"] Suc.prems(3) [unfolded upt_step class_slots_Cons] t
      show ?thesis by (simp add: same add.commute)
    next
      case (Some s)
      let ?e = "of_nat i + 1 :: u32"
      have hash: "slot_hash al d ?e = dex_desc_hash s"
        using Some t by (simp add: slot_hash_def slot_desc_def)
      have slots: "class_slots al d [i..<i + Suc n] = ?e # class_slots al d [Suc i..<Suc i + n]"
        using Some t unfolding upt_step class_slots_Cons by simp
      obtain h1 where h1: "probe_insert slot_used (slot_hash al d) h (tab_mask h) ?e = Some h1"
        and rest: "insert_all (\<lambda>tab. probe_insert slot_used (slot_hash al d) tab (tab_mask tab)) h1
          (class_slots al d [Suc i..<Suc i + n]) = Some h'"
        using Suc.prems(3) unfolding slots by (auto simp del: upt_Suc split: Option.bind_splits)
      have ins: "(probe_free (length h) slot_used h (cap - 1) (dex_desc_hash s AND (cap - 1)) \<bind>
          (\<lambda>k. c_set h (unat k) ?e)) = Some h1"
        using h1 Suc.prems(2) by (simp add: probe_insert_def tab_mask_def hash)
      have "length h1 = length h" using h1 by (rule length_probe_insert)
      then have "dok al d1 (find_class_build n al d1 (of_nat (Suc i)) cap h1) (\<lambda>r. r = h')"
        using Suc.IH [OF d1(1), of h1 "Suc i"] Suc.prems(2) rest by (simp add: same)
      moreover have "(probe_free (length h) slot_used h (cap - 1) (dex_desc_hash s AND (cap - 1)) \<bind>
          (\<lambda>k. c_set h (unat k) ?e \<bind> find_class_build n al d1 ?e cap)) = find_class_build n al d1 ?e cap h1"
        using ins by (auto split: Option.bind_splits)
      ultimately show ?thesis using Some by (simp add: Let_def add.commute)
    qed
  qed
qed

text \<open>The look-up loop is the generic probe with the descriptor comparison as its test.\<close>

definition slot_is :: "alloc \<Rightarrow> dex_file \<Rightarrow> string \<Rightarrow> u32 \<Rightarrow> bool" where
  "slot_is al d desc e \<longleftrightarrow> slot_desc al d e = Some desc"

definition slot_result :: "u32 option \<Rightarrow> int" where
  "slot_result r = (case r of None \<Rightarrow> -1 | Some e \<Rightarrow> sint (e - 1))"

lemma find_class_probe_dok:
  "dex_inv al d \<Longrightarrow> probe_find n slot_used (slot_is al d desc) h m k = Some r \<Longrightarrow>
   dok al d (find_class_probe n al d desc h m k) (\<lambda>x. x = slot_result r)"
proof (induction n arbitrary: d k)
  case 0
  then show ?case by simp
next
  case (Suc n)
  from Suc.prems(2) obtain e where e: "c_at h (unat k) = Some e"
    by (auto split: Option.bind_splits)
  show ?case
  proof (cases "e = 0")
    case True
    with e Suc.prems show ?thesis by (auto simp: slot_used_def slot_result_def intro: dok_ret)
  next
    case False
    have "dok al d (dex_class_desc al d (e - 1) \<bind> (\<lambda>(t, d). if t = Some desc then Some (sint (e - 1), d)
        else find_class_probe n al d desc h m ((k + 1) AND m))) (\<lambda>x. x = slot_result r)"
    proof (rule dok_bind [OF dex_class_desc_dok [OF Suc.prems(1)]])
      fix t d1
      assume t: "t = class_desc_res al d (e - 1)" and d1: "dex_inv al d1" "same_image d d1"
      have sis: "slot_is al d1 desc = slot_is al d desc"
        by (simp add: slot_is_def fun_eq_iff slots_same [OF d1(2)])
      have t': "slot_is al d desc e \<longleftrightarrow> t = Some desc" by (simp add: slot_is_def slot_desc_def t)
      show "dok al d1 (case (t, d1) of (t, d) \<Rightarrow> if t = Some desc then Some (sint (e - 1), d)
        else find_class_probe n al d desc h m ((k + 1) AND m)) (\<lambda>x. x = slot_result r)"
      proof (cases "t = Some desc")
        case True
        with Suc.prems(2) e False d1(1) t' show ?thesis
          by (auto simp: slot_used_def slot_result_def intro: dok_ret)
      next
        case neq: False
        with Suc.prems(2) e False t' have "probe_find n slot_used (slot_is al d1 desc) h m ((k + 1) AND m) = Some r"
          by (simp add: sis) (simp add: slot_used_def)
        from Suc.IH [OF d1(1) this] neq show ?thesis by simp
      qed
    qed
    with e False show ?thesis by (simp add: Let_def)
  qed
qed

text \<open>What a built index guarantees.\<close>

definition index_ok :: "alloc \<Rightarrow> dex_file \<Rightarrow> u32 list \<Rightarrow> u32 \<Rightarrow> bool" where
  "index_ok al d h cap \<longleftrightarrow> cap = of_nat (length h) \<and>
     (\<forall>desc. probe_look slot_used h (slot_is al d desc) (dex_desc_hash desc) =
        Some (find (slot_is al d desc) (class_slots al d [0..<unat (class_defs_size d)])))"

definition cls_ok :: "alloc \<Rightarrow> dex_file \<Rightarrow> bool" where
  "cls_ok al d \<longleftrightarrow> (\<forall>h. cls_hash d = Some h \<longrightarrow> index_ok al d h (cls_hash_cap d))"

lemma index_ok_same: "same_image d d' \<Longrightarrow> index_ok al d' h cap = index_ok al d h cap"
  by (simp add: index_ok_def slots_same [of d d'] same_image_fields [of d d'] slot_is_def [abs_def])

text \<open>The capacity: a power of two, at least twice the number of classes.\<close>

lemma grow_cap_ok:
  "unat limit \<le> 2 ^ 31 \<Longrightarrow> b \<le> 31 \<Longrightarrow> 31 < b + n \<Longrightarrow>
   \<exists>b'. b' \<le> 31 \<and> b \<le> b' \<and> unat limit \<le> 2 ^ b' \<and> grow_cap n (2 ^ b) limit = Some (2 ^ b')"
proof (induction n arbitrary: b)
  case 0
  then show ?case by simp
next
  case (Suc n)
  have pow: "unat ((2::u32) ^ b) = 2 ^ b"
    using Suc.prems(2) unat_of_nat_small [of "2 ^ b"] power_increasing [of b 31 "2::nat"] by simp
  show ?case
  proof (cases "(2::u32) ^ b < limit")
    case True
    then have lt: "2 ^ b < unat limit" by (simp add: word_less_nat_alt pow)
    then have "b < 31"
      using Suc.prems(1,2) by (metis le_less_linear le_antisym less_le_not_le)
    then obtain b' where b': "b' \<le> 31" "Suc b \<le> b'" "unat limit \<le> 2 ^ b'"
      "grow_cap n (2 ^ Suc b) limit = Some (2 ^ b')"
      using Suc.IH [of "Suc b"] Suc.prems by auto
    moreover have "push_bit 1 ((2::u32) ^ b) = 2 ^ Suc b" by (simp add: push_bit_eq_mult mult.commute)
    ultimately have "grow_cap (Suc n) (2 ^ b) limit = Some (2 ^ b')"
      using True by (simp del: power_Suc One_nat_def)
    with b' show ?thesis by (metis Suc_leD)
  next
    case False
    with Suc.prems(2) show ?thesis
      by (auto simp: word_less_nat_alt pow not_less)
  qed
qed

lemma find_map: "find P (map f xs) = map_option f (find (P \<circ> f) xs)"
  by (induction xs) auto

lemma find_class_slots:
  assumes "\<forall>i \<in> set is. i < 2 ^ 31"
  shows "slot_result (find (slot_is al d desc) (class_slots al d is)) = class_scan al d desc is"
  using assms
proof (induction "is")
  case Nil
  then show ?case by (simp add: class_slots_def slot_result_def class_scan_def)
next
  case (Cons i js)
  then show ?case
    by (auto simp: class_slots_Cons class_scan_Cons slot_is_def slot_desc_def slot_result_def sint_of_nat_small)
qed

definition no_index :: "dex_file \<Rightarrow> dex_file" where
  "no_index d = d\<lparr>cls_hash := None, cls_hash_cap := 0\<rparr>"

lemma no_index_same: "same_image d d' \<Longrightarrow> same_image (no_index d) (no_index d')"
  by (cases d; cases d') (simp add: same_image_def dex_frozen_def no_index_def)

lemma of_nat_pow2: "(of_nat (2 ^ b) :: u32) = 2 ^ b"
  by simp

text \<open>A table filled with every class answers every look-up like the scan.\<close>

lemma built_index_ok:
  assumes cap: "b \<le> 31" and size: "unat (class_defs_size d) < 2 ^ b"
  shows "\<exists>h. insert_all (\<lambda>tab. probe_insert slot_used (slot_hash al d) tab (tab_mask tab))
      (replicate (2 ^ b) 0) (class_slots al d [0..<unat (class_defs_size d)]) = Some h \<and>
    index_ok al d h (2 ^ b)"
proof -
  let ?t = "replicate (2 ^ b) (0::u32)" and ?es = "class_slots al d [0..<unat (class_defs_size d)]"
  have pow: "(2::nat) ^ b \<le> 2 ^ 31" using cap by (intro power_increasing) auto
  have wf: "probe_wf slot_used (slot_hash al d) ?t"
    using cap by (auto simp: probe_wf_def slot_used_def intro!: probe_inv_empty exI [of _ b])
  have empty: "\<forall>h. probe_entries slot_used (slot_hash al d) ?t h = []"
    by (auto simp: probe_entries_def slot_used_def intro!: bucket_empty)
  have used: "\<forall>e \<in> set ?es. slot_used e"
  proof
    fix e assume "e \<in> set ?es"
    then obtain i where i: "i < unat (class_defs_size d)" "e = of_nat i + 1" by (auto simp: class_slots_def)
    then have "e = of_nat (Suc i)" by simp
    moreover have "Suc i < 2 ^ 32" using i(1) pow size by simp
    ultimately have "unat e = Suc i" using unat_of_nat_small by blast
    then show "slot_used e" by (auto simp: slot_used_def)
  qed
  have free: "free_slots slot_used ?t = 2 ^ b" by (simp add: free_slots_def slot_used_def)
  have len: "length ?es \<le> unat (class_defs_size d)"
    using length_filter_le [of _ "[0..<unat (class_defs_size d)]"] by (simp add: class_slots_def)
  obtain h where h: "insert_all (\<lambda>tab. probe_insert slot_used (slot_hash al d) tab (tab_mask tab)) ?t ?es = Some h"
    "free_slots slot_used h + length ?es = 2 ^ b"
    "\<forall>P x. (\<forall>e. P e \<longrightarrow> slot_hash al d e = x) \<longrightarrow> probe_look slot_used h P x = Some (find P ?es)"
    using probe.built_index_scans [OF wf empty used] len size free by auto
  have "length h = 2 ^ b"
  proof -
    have "length tab' = length tab" if "insert_all (\<lambda>tab. probe_insert slot_used (slot_hash al d) tab (tab_mask tab)) tab es = Some tab'"
      for tab tab' es
      using that by (induction es arbitrary: tab) (auto split: Option.bind_splits dest: length_probe_insert)
    from this [OF h(1)] show ?thesis by simp
  qed
  moreover have "probe_look slot_used h (slot_is al d desc) (dex_desc_hash desc) = Some (find (slot_is al d desc) ?es)" for desc
    using h(3) [rule_format, of "slot_is al d desc" "dex_desc_hash desc"] by (auto simp: slot_is_def slot_hash_def)
  ultimately show ?thesis using h(1) by (auto simp: index_ok_def)
qed

text \<open>Storing the index changes nothing of what the image denotes.\<close>

lemma cls_update_image:
  fixes d a b
  defines "d' \<equiv> d\<lparr>cls_hash := a, cls_hash_cap := b\<rparr>"
  shows "string_res al d' = string_res al d" and "dex_inv al d' = dex_inv al d"
    and "class_desc_res al d' = class_desc_res al d"
proof -
  have rd: "rd32 d' = rd32 d" by (simp add: fun_eq_iff rd32_def d'_def)
  have ul: "dex_uleb d' = dex_uleb d"
    unfolding dex_uleb_def d'_def by (rule ext, rule dex_uleb_loop_cong) simp_all
  show str: "string_res al d' = string_res al d"
    unfolding string_res_def rd ul by (rule ext) (simp add: d'_def cong: if_cong)
  show "dex_inv al d' = dex_inv al d"
    unfolding dex_inv_def strings_ok_def str by (simp add: d'_def dex_mapped_def)
  show "class_desc_res al d' = class_desc_res al d"
    by (rule ext) (simp add: class_desc_res_def type_res_def rd str, simp add: d'_def)
qed

lemma find_class_index_ok:
  assumes inv: "dex_inv al d" "cls_ok al d" and size: "unat (class_defs_size d) \<le> 2 ^ 30"
  shows "ok (find_class_index al d) (\<lambda>d'. dex_inv al d' \<and> cls_ok al d' \<and> same_image (no_index d) (no_index d'))"
proof (cases "cls_hash d = None \<and> class_defs_size d \<noteq> 0")
  case False
  with inv show ?thesis by (auto simp: find_class_index_def)
next
  case True
  have dbl: "unat (class_defs_size d * 2) = unat (class_defs_size d) * 2"
    using size by (simp add: unat_word_ariths)
  obtain b where b: "b \<le> 31" "unat (class_defs_size d) * 2 \<le> 2 ^ b"
      "grow_cap 33 64 (class_defs_size d * 2) = Some (2 ^ b)"
    using grow_cap_ok [of "class_defs_size d * 2" 6 33] size by (auto simp: dbl)
  have "unat (class_defs_size d) \<noteq> 0" using True by (simp add: unat_eq_zero)
  with b(2) have lt: "unat (class_defs_size d) < 2 ^ b" by linarith
  obtain h where h: "insert_all (\<lambda>tab. probe_insert slot_used (slot_hash al d) tab (tab_mask tab))
      (replicate (2 ^ b) 0) (class_slots al d [0..<unat (class_defs_size d)]) = Some h"
    "index_ok al d h (2 ^ b)"
    using built_index_ok [OF b(1) lt] by blast
  have pow: "unat ((2::u32) ^ b) = 2 ^ b"
    using b(1) unat_of_nat_small [of "2 ^ b"] power_increasing [of b 31 "2::nat"] by simp
  have "dok al d (find_class_build (unat (class_defs_size d)) al d 0 (2 ^ b) (replicate (2 ^ b) 0)) (\<lambda>r. r = h)"
    using find_class_build_dok [OF inv(1), of "2 ^ b" "replicate (2 ^ b) 0" 0] h(1) by simp
  then obtain d' where d': "find_class_build (unat (class_defs_size d)) al d 0 (2 ^ b) (replicate (2 ^ b) 0) = Some (h, d')"
    "dex_inv al d'" "same_image d d'" by (auto elim: dokE)
  let ?d = "d'\<lparr>cls_hash := Some h, cls_hash_cap := 2 ^ b\<rparr>"
  have "dex_inv al ?d" using d'(2) by (simp add: cls_update_image)
  moreover have "class_desc_res al ?d = class_desc_res al d"
    using class_desc_res_same [OF d'(3), of al] by (simp add: cls_update_image)
  then have "cls_ok al ?d"
    using h(2) same_image_fields [OF d'(3)]
    by (simp add: cls_ok_def index_ok_def slot_is_def [abs_def] slot_desc_def class_slots_def)
  moreover have "same_image (no_index d) (no_index ?d)"
    using no_index_same [OF d'(3)] by (simp add: no_index_def)
  ultimately show ?thesis
    using True b(3) d'(1) inv by (auto simp: find_class_index_def pow)
qed

lemma find_class_res_same:
  "same_image (no_index d) (no_index d') \<Longrightarrow> find_class_res al d' desc = find_class_res al d desc"
proof -
  assume s: "same_image (no_index d) (no_index d')"
  have "class_desc_res al d' = class_desc_res al d"
    using class_desc_res_same [OF s, of al] by (simp add: no_index_def cls_update_image)
  moreover have "class_defs_size d' = class_defs_size d"
    using same_image_fields(13) [OF s] by (simp add: no_index_def)
  ultimately show ?thesis by (simp add: find_class_res_def class_scan_def)
qed

text \<open>
  \<open>dex_find_class\<close> never faults, ends, keeps the image, and returns what the scan returns,
  whether the index exists, is built by this call, or cannot be allocated.
\<close>

lemma dex_find_class_ok:
  assumes inv: "dex_inv al d" "cls_ok al d" and size: "unat (class_defs_size d) \<le> 2 ^ 30"
  shows "ok (dex_find_class al d (Some desc)) (\<lambda>(r, d'). r = find_class_res al d desc \<and>
    dex_inv al d' \<and> cls_ok al d' \<and> same_image (no_index d) (no_index d'))"
proof -
  let ?Q = "\<lambda>(r, d'). r = find_class_res al d desc \<and> dex_inv al d' \<and> cls_ok al d' \<and> same_image (no_index d) (no_index d')"
  have step: "ok m ?Q"
    if d1: "dex_inv al d1" "cls_ok al d1" "same_image (no_index d) (no_index d1)"
      and m: "dok al d1 m (\<lambda>r. r = find_class_res al d1 desc)" for d1 m
    using m unfolding dok_def
    by (rule ok_mono) (use d1 find_class_res_same [OF d1(3)] in
        \<open>auto simp: cls_ok_def index_ok_same same_image_fields intro: same_image_trans no_index_same\<close>)
  show ?thesis
    unfolding dex_find_class_def option.case
  proof (rule ok_bind [OF find_class_index_ok [OF assms]], elim conjE)
    fix d1
    assume d1: "dex_inv al d1" "cls_ok al d1" "same_image (no_index d) (no_index d1)"
    have sz: "\<forall>i \<in> set [0..<unat (class_defs_size d1)]. i < 2 ^ 31"
      using size same_image_fields(13) [OF d1(3)] by (auto simp: no_index_def)
    show "ok (case cls_hash d1 of None \<Rightarrow> find_class_scan (unat (class_defs_size d1)) al d1 desc 0
       | Some h \<Rightarrow> let m = cls_hash_cap d1 - 1 in
           find_class_probe (length h) al d1 desc h m (dex_desc_hash desc AND m)) ?Q"
    proof (cases "cls_hash d1")
      case None
      have "dok al d1 (find_class_scan (unat (class_defs_size d1)) al d1 desc 0) (\<lambda>r. r = find_class_res al d1 desc)"
        using find_class_scan_dok [OF d1(1), of 0 "unat (class_defs_size d1)" desc] size
          same_image_fields(13) [OF d1(3)]
        by (simp add: find_class_res_def no_index_def)
      from step [OF d1 this] None show ?thesis by simp
    next
      case (Some h)
      with d1(2) have h: "cls_hash_cap d1 = of_nat (length h)"
        "probe_look slot_used h (slot_is al d1 desc) (dex_desc_hash desc) =
          Some (find (slot_is al d1 desc) (class_slots al d1 [0..<unat (class_defs_size d1)]))"
        by (auto simp: cls_ok_def index_ok_def)
      have "dok al d1 (find_class_probe (length h) al d1 desc h (cls_hash_cap d1 - 1)
          (dex_desc_hash desc AND (cls_hash_cap d1 - 1))) (\<lambda>r. r = find_class_res al d1 desc)"
        using find_class_probe_dok [OF d1(1) h(2) [unfolded probe_look_def]] find_class_slots [OF sz]
        by (simp add: h(1) tab_mask_def find_class_res_def)
      from step [OF d1 this] Some show ?thesis by (simp add: Let_def)
    qed
  qed
qed

section \<open>Class data: safety and round trip\<close>

lemma read_fields_loop_ok:
  "dex_mapped d \<Longrightarrow> p \<le> dex_len d \<Longrightarrow>
   ok (read_fields_loop n d p idx) (\<lambda>(q, out). q \<le> dex_len d \<and> length out = n)"
proof (induction n arbitrary: p idx)
  case 0
  then show ?case by simp
next
  case (Suc n)
  note dec = ok_bind [OF uleb.dec_inside [OF Suc.prems(1)]]
  show ?case
    using Suc.prems
    by (auto intro!: dec ok_bind [OF Suc.IH] simp: Let_def)
qed

lemma read_methods_loop_ok:
  "dex_mapped d \<Longrightarrow> p \<le> dex_len d \<Longrightarrow>
   ok (read_methods_loop n d p idx) (\<lambda>(q, out). q \<le> dex_len d \<and> length out = n)"
proof (induction n arbitrary: p idx)
  case 0
  then show ?case by simp
next
  case (Suc n)
  note dec = ok_bind [OF uleb.dec_inside [OF Suc.prems(1)]]
  show ?case
    using Suc.prems
    by (auto intro!: dec ok_bind [OF Suc.IH] simp: Let_def)
qed

definition member_count :: "dex_class_data \<Rightarrow> nat" where
  "member_count cd = length (static_fields cd) + length (instance_fields cd)
     + length (direct_methods cd) + length (virtual_methods cd)"

lemma read_fields_ok:
  "dex_mapped d \<Longrightarrow> p \<le> dex_len d \<Longrightarrow> ok (read_fields al d p n)
     (\<lambda>r. r = None \<or> (\<exists>q out. r = Some (q, out) \<and> q \<le> dex_len d \<and> length out = unat n))"
  by (auto simp: read_fields_def intro!: ok_bind [OF read_fields_loop_ok])

lemma read_methods_ok:
  "dex_mapped d \<Longrightarrow> p \<le> dex_len d \<Longrightarrow> ok (read_methods al d p n)
     (\<lambda>r. r = None \<or> (\<exists>q out. r = Some (q, out) \<and> q \<le> dex_len d \<and> length out = unat n))"
  by (auto simp: read_methods_def intro!: ok_bind [OF read_methods_loop_ok])

lemma dex_class_data_ok:
  assumes m: "dex_mapped d"
  shows "ok (dex_class_data al d off)
    (\<lambda>(good, cd). if good then 2 * member_count cd \<le> dex_len d else cd = class_data_zero)"
proof (cases "off = 0 \<or> dex_len d \<le> unat off")
  case True
  then show ?thesis by (auto simp: dex_class_data_def)
next
  case False
  note dec = ok_bind [OF uleb.dec_inside [OF m]]
  note rf = ok_bind [OF read_fields_ok [OF m]] and rm = ok_bind [OF read_methods_ok [OF m]]
  show ?thesis
    using False
    by (auto simp: dex_class_data_def Let_def dex_class_data_release_def member_count_def not_less
        intro!: dec rf rm) (simp add: algebra_simps)
qed

text \<open>The format's encoding: member indices as differences, wrapping like the decoder.\<close>

fun field_bytes :: "u32 \<Rightarrow> dex_encoded_field list \<Rightarrow> u8 list" where
  "field_bytes prev [] = []"
| "field_bytes prev (f # fs) = uleb_bytes (ef_field_idx f - prev) @ uleb_bytes (ef_access_flags f)
     @ field_bytes (ef_field_idx f) fs"

fun method_bytes :: "u32 \<Rightarrow> dex_encoded_method list \<Rightarrow> u8 list" where
  "method_bytes prev [] = []"
| "method_bytes prev (m # ms) = uleb_bytes (em_method_idx m - prev) @ uleb_bytes (em_access_flags m)
     @ uleb_bytes (em_code_off m) @ method_bytes (em_method_idx m) ms"

definition class_data_bytes :: "dex_class_data \<Rightarrow> u8 list" where
  "class_data_bytes cd =
     uleb_bytes (of_nat (length (static_fields cd))) @ uleb_bytes (of_nat (length (instance_fields cd)))
     @ uleb_bytes (of_nat (length (direct_methods cd))) @ uleb_bytes (of_nat (length (virtual_methods cd)))
     @ field_bytes 0 (static_fields cd) @ field_bytes 0 (instance_fields cd)
     @ method_bytes 0 (direct_methods cd) @ method_bytes 0 (virtual_methods cd)"

lemma read_fields_bytes:
  "dex_mapped d \<Longrightarrow> has_bytes d p (field_bytes prev fs) \<Longrightarrow>
   read_fields_loop (length fs) d p prev = Some (p + length (field_bytes prev fs), fs)"
proof (induction fs arbitrary: p prev)
  case Nil
  then show ?case by simp
next
  case (Cons f fs)
  then have "has_bytes d p (uleb_bytes (ef_field_idx f - prev))"
    "has_bytes d (p + length (uleb_bytes (ef_field_idx f - prev))) (uleb_bytes (ef_access_flags f))"
    by (simp_all add: has_bytes_append)
  note dec = this [THEN dex_uleb_bytes [OF Cons.prems(1)]]
  from Cons show ?case by (simp add: has_bytes_append dec Let_def)
qed

lemma read_methods_bytes:
  "dex_mapped d \<Longrightarrow> has_bytes d p (method_bytes prev ms) \<Longrightarrow>
   read_methods_loop (length ms) d p prev = Some (p + length (method_bytes prev ms), ms)"
proof (induction ms arbitrary: p prev)
  case Nil
  then show ?case by simp
next
  case (Cons m ms)
  then have "has_bytes d p (uleb_bytes (em_method_idx m - prev))"
    "has_bytes d (p + length (uleb_bytes (em_method_idx m - prev))) (uleb_bytes (em_access_flags m))"
    "has_bytes d (p + length (uleb_bytes (em_method_idx m - prev)) + length (uleb_bytes (em_access_flags m)))
       (uleb_bytes (em_code_off m))"
    by (simp_all add: has_bytes_append)
  note dec = this [THEN dex_uleb_bytes [OF Cons.prems(1)]]
  from Cons show ?case by (simp add: has_bytes_append dec Let_def)
qed

lemma field_bytes_length: "2 * length fs \<le> length (field_bytes prev fs)"
proof (induction fs arbitrary: prev)
  case (Cons f fs)
  from Cons [of "ef_field_idx f"] uleb_bytes_nonempty [of "ef_field_idx f - prev"]
    uleb_bytes_nonempty [of "ef_access_flags f"]
  show ?case by auto
qed simp

lemma method_bytes_length: "2 * length ms \<le> length (method_bytes prev ms)"
proof (induction ms arbitrary: prev)
  case (Cons m ms)
  from Cons [of "em_method_idx m"] uleb_bytes_nonempty [of "em_method_idx m - prev"]
    uleb_bytes_nonempty [of "em_access_flags m"]
  show ?case by auto
qed simp

definition counts_fit :: "dex_class_data \<Rightarrow> bool" where
  "counts_fit cd \<longleftrightarrow> length (static_fields cd) < 2 ^ 32 \<and> length (instance_fields cd) < 2 ^ 32
     \<and> length (direct_methods cd) < 2 ^ 32 \<and> length (virtual_methods cd) < 2 ^ 32"

lemma dex_class_data_bytes:
  assumes m: "dex_mapped d" and off: "off \<noteq> 0" and enc: "has_bytes d (unat off) (class_data_bytes cd)"
    and fit: "counts_fit cd" and al: "\<forall>n. al n"
  shows "dex_class_data al d off = Some (True, cd)"
proof -
  have cnt: "unat (of_nat (length (static_fields cd)) :: u32) = length (static_fields cd)"
    "unat (of_nat (length (instance_fields cd)) :: u32) = length (instance_fields cd)"
    "unat (of_nat (length (direct_methods cd)) :: u32) = length (direct_methods cd)"
    "unat (of_nat (length (virtual_methods cd)) :: u32) = length (virtual_methods cd)"
    using fit by (simp_all add: counts_fit_def unat_of_nat_small)
  have len: "unat off + length (class_data_bytes cd) \<le> dex_len d"
    using enc m by (simp add: has_bytes_def dex_mapped_def)
  have in_map: "\<not> dex_len d \<le> unat off"
    using len uleb_bytes_nonempty [of "of_nat (length (static_fields cd))"]
    by (auto simp: class_data_bytes_def)
  have room: "member_count cd * 2 \<le> length (field_bytes 0 (static_fields cd)) + length (field_bytes 0 (instance_fields cd))
      + length (method_bytes 0 (direct_methods cd)) + length (method_bytes 0 (virtual_methods cd))"
    using field_bytes_length [of "static_fields cd" 0] field_bytes_length [of "instance_fields cd" 0]
      method_bytes_length [of "direct_methods cd" 0] method_bytes_length [of "virtual_methods cd" 0]
    by (simp add: member_count_def)
  let ?s = "uleb_bytes (of_nat (length (static_fields cd)))"
    and ?i = "uleb_bytes (of_nat (length (instance_fields cd)))"
    and ?d = "uleb_bytes (of_nat (length (direct_methods cd)))"
    and ?v = "uleb_bytes (of_nat (length (virtual_methods cd)))"
  let ?p = "unat off + length ?s + length ?i + length ?d + length ?v"
  have counts: "has_bytes d (unat off) ?s" "has_bytes d (unat off + length ?s) ?i"
    "has_bytes d (unat off + length ?s + length ?i) ?d"
    "has_bytes d (unat off + length ?s + length ?i + length ?d) ?v"
    using enc by (simp_all add: class_data_bytes_def has_bytes_append)
  have members: "has_bytes d ?p (field_bytes 0 (static_fields cd))"
    "has_bytes d (?p + length (field_bytes 0 (static_fields cd))) (field_bytes 0 (instance_fields cd))"
    "has_bytes d (?p + length (field_bytes 0 (static_fields cd)) + length (field_bytes 0 (instance_fields cd)))
      (method_bytes 0 (direct_methods cd))"
    "has_bytes d (?p + length (field_bytes 0 (static_fields cd)) + length (field_bytes 0 (instance_fields cd))
       + length (method_bytes 0 (direct_methods cd))) (method_bytes 0 (virtual_methods cd))"
    using enc by (simp_all add: class_data_bytes_def has_bytes_append)
  note dec = counts [THEN dex_uleb_bytes [OF m]] members(1,2) [THEN read_fields_bytes [OF m]]
    members(3,4) [THEN read_methods_bytes [OF m]]
  have "member_count cd * 2 \<le> dex_len d - ?p"
    using len room by (simp add: class_data_bytes_def)
  then have small: "\<not> dex_len d - ?p < (length (static_fields cd) + length (instance_fields cd)
     + length (direct_methods cd) + length (virtual_methods cd)) * 2" by (simp add: member_count_def)
  show ?thesis
    using off in_map al small
    by (simp add: dex_class_data_def read_fields_def read_methods_def dec cnt Let_def)
qed

section \<open>Code items and interface lists\<close>

text \<open>Where the instruction array and the handler tables of a decoded code item lie.\<close>

definition code_inside :: "dex_file \<Rightarrow> dex_code \<Rightarrow> bool" where
  "code_inside d c \<longleftrightarrow> (\<exists>io. code_insns c = Some io \<and> io + 2 * unat (insns_size c) \<le> dex_len d \<and>
     (if tries_size c = 0 then code_tries c = None \<and> code_handlers c = None
      else \<exists>t. code_tries c = Some t \<and> io + 2 * unat (insns_size c) \<le> t \<and>
        t + 8 * unat (tries_size c) \<le> dex_len d \<and>
        code_handlers c = Some (t + 8 * unat (tries_size c))))"

lemma dex_code_ok:
  "dex_mapped d \<Longrightarrow> ok (dex_code d off) (\<lambda>(good, c). good \<longrightarrow> code_inside d c)"
  by (auto simp: dex_code_def code_zero_def Let_def code_inside_def)

definition interface_at :: "dex_file \<Rightarrow> u32 \<Rightarrow> nat \<Rightarrow> u16" where
  "interface_at d off i = rd16 d (unat (off + 4) + i * 2)"

lemma interfaces_loop_ok:
  "dex_mapped d \<Longrightarrow> unat i \<le> length out \<Longrightarrow> length out < 2 ^ 31 \<Longrightarrow> unat i + n < 2 ^ 32 \<Longrightarrow>
   interfaces_loop n d off i out (int (length out)) = Some (fill out (unat i) (unat i + n) (interface_at d off))"
proof (induction n arbitrary: i out)
  case 0
  then show ?case by (simp add: fill_empty)
next
  case (Suc n)
  have s: "sint i = int (unat i)" using Suc.prems(2,3) by (intro sint_small) simp
  show ?case
  proof (cases "unat i < length out")
    case False
    with Suc.prems s show ?thesis by (simp add: fill_beyond)
  next
    case True
    have si: "unat (i + 1) = Suc (unat i)" using Suc.prems(4) by (simp add: unat_word_ariths)
    let ?out = "out[unat i := interface_at d off (unat i)]"
    have lt: "sint i < int (length out)" unfolding s using True by (simp only: of_nat_less_iff)
    have "interfaces_loop n d off (i + 1) ?out (int (length ?out)) =
        Some (fill ?out (unat (i + 1)) (unat (i + 1) + n) (interface_at d off))"
      using Suc.prems True si by (intro Suc.IH) auto
    with lt True Suc.prems(1) si fill_step [of "unat i" "unat i + Suc n" out "interface_at d off"]
    show ?thesis by (simp add: interface_at_def [of d off "unat i"])
  qed
qed

end
