(* ===== verification/Dex_Sample.thy ===== *)
theory Dex_Sample
  imports Dex_Class
begin

text \<open>
  A complete small image on which the theorems of the DEX layers are instantiated: two
  classes \<open>LA;\<close> and \<open>LB;\<close>, a static field with an initial value, a method with a code item
  and one try range, a runtime annotation and a generic signature.
\<close>

definition sample_image :: "u8 list" where
  "sample_image = [
    100, 101, 120, 10, 48, 51, 53, 0, 0, 0, 0, 0, 0, 0, 0, 0, 0, 0, 0, 0,
    0, 0, 0, 0, 0, 0, 0, 0, 0, 0, 0, 0, 208, 1, 0, 0, 112, 0, 0, 0,
    120, 86, 52, 18, 0, 0, 0, 0, 0, 0, 0, 0, 0, 0, 0, 0, 11, 0, 0, 0,
    112, 0, 0, 0, 6, 0, 0, 0, 156, 0, 0, 0, 1, 0, 0, 0, 180, 0, 0, 0,
    1, 0, 0, 0, 192, 0, 0, 0, 1, 0, 0, 0, 200, 0, 0, 0, 2, 0, 0, 0,
    208, 0, 0, 0, 0, 0, 0, 0, 0, 0, 0, 0, 16, 1, 0, 0, 19, 1, 0, 0,
    24, 1, 0, 0, 29, 1, 0, 0, 32, 1, 0, 0, 36, 1, 0, 0, 39, 1, 0, 0,
    42, 1, 0, 0, 50, 1, 0, 0, 55, 1, 0, 0, 86, 1, 0, 0, 0, 0, 0, 0,
    1, 0, 0, 0, 2, 0, 0, 0, 3, 0, 0, 0, 8, 0, 0, 0, 9, 0, 0, 0,
    4, 0, 0, 0, 3, 0, 0, 0, 96, 1, 0, 0, 1, 0, 0, 0, 5, 0, 0, 0,
    1, 0, 0, 0, 6, 0, 0, 0, 1, 0, 0, 0, 1, 0, 0, 0, 4, 0, 0, 0,
    104, 1, 0, 0, 255, 255, 255, 255, 192, 1, 0, 0, 148, 1, 0, 0, 160, 1, 0, 0,
    2, 0, 0, 0, 1, 2, 0, 0, 4, 0, 0, 0, 0, 0, 0, 0, 255, 255, 255, 255,
    0, 0, 0, 0, 0, 0, 0, 0, 0, 0, 0, 0, 1, 73, 0, 3, 76, 65, 59, 0,
    3, 76, 66, 59, 0, 1, 86, 0, 2, 86, 73, 0, 1, 102, 0, 1, 109, 0, 2, 237,
    160, 189, 237, 184, 128, 0, 3, 76, 79, 59, 0, 29, 76, 100, 97, 108, 118, 105, 107, 47,
    97, 110, 110, 111, 116, 97, 116, 105, 111, 110, 47, 83, 105, 103, 110, 97, 116, 117, 114, 101,
    59, 0, 5, 118, 97, 108, 117, 101, 0, 0, 0, 0, 1, 0, 0, 0, 0, 0, 0, 0,
    1, 0, 0, 0, 2, 0, 0, 0, 2, 0, 1, 0, 0, 0, 1, 0, 0, 0, 0, 0,
    3, 0, 0, 0, 18, 16, 40, 0, 14, 0, 0, 0, 0, 0, 0, 0, 2, 0, 1, 0,
    1, 1, 1, 2, 1, 0, 1, 0, 0, 9, 0, 129, 128, 4, 240, 2, 1, 4, 249, 1,
    2, 1, 5, 4, 7, 2, 5, 1, 10, 28, 2, 23, 8, 23, 2, 0, 2, 0, 0, 0,
    163, 1, 0, 0, 169, 1, 0, 0, 180, 1, 0, 0, 0, 0, 0, 0, 0, 0, 0, 0,
    0, 0, 0, 0]"

definition all_mem :: alloc where
  "all_mem n = True"

definition sample_dex :: dex_file where
  "sample_dex = (case dex_open_memory all_mem sample_image None of
     Some (good, d) \<Rightarrow> d | None \<Rightarrow> dex_zero)"

lemma sample_good: "map_option fst (dex_open_memory all_mem sample_image None) = Some True"
  by code_simp

lemma sample_open: "dex_open_memory all_mem sample_image None = Some (True, sample_dex)"
  using sample_good by (auto simp: sample_dex_def)

lemma sample_inv: "dex_inv all_mem sample_dex" "dex_p sample_dex = sample_image" "pools_ok sample_dex"
  using dex_open_memory_ok [of all_mem sample_image None] by (simp_all add: sample_open)

lemma sample_mapped: "dex_mapped sample_dex"
  using sample_inv(1) by (rule dex_inv_mapped)

lemma sample_len: "dex_len sample_dex = 464"
  using sample_mapped by (simp add: dex_mapped_def sample_inv(2) sample_image_def)

lemma sample_index: "cls_hash sample_dex = None"
  by code_simp

lemma sample_cls_ok: "cls_ok all_mem sample_dex"
  by (simp add: cls_ok_def sample_index)

lemma all_mem_all: "\<forall>n. all_mem n"
  by (simp add: all_mem_def)

end
