(* ===== verification/Dex_Value.thy ===== *)
theory Dex_Value
  imports Dex_Class
begin

text \<open>
  Encoded values of the DEX reader (\<open>src/src/dvm/dex.c\<close>): the recursive decoder
  \<open>dex_read_value\<close>, the validating skipper \<open>dex_skip_value\<close>, static initialisers and value
  arrays.  The recursion of the two walkers follows the nesting of the image; their first
  argument bounds its depth.  A nested value starts at a larger offset than the value that
  holds it, so a bound above the number of bytes left is never reached.
\<close>

section \<open>Values\<close>

record dex_value =
  val_type :: u32
  val_bits :: u64

definition DEX_VALUE_BYTE :: u32 where "DEX_VALUE_BYTE = 0x00"
definition DEX_VALUE_SHORT :: u32 where "DEX_VALUE_SHORT = 0x02"
definition DEX_VALUE_CHAR :: u32 where "DEX_VALUE_CHAR = 0x03"
definition DEX_VALUE_INT :: u32 where "DEX_VALUE_INT = 0x04"
definition DEX_VALUE_LONG :: u32 where "DEX_VALUE_LONG = 0x06"
definition DEX_VALUE_FLOAT :: u32 where "DEX_VALUE_FLOAT = 0x10"
definition DEX_VALUE_DOUBLE :: u32 where "DEX_VALUE_DOUBLE = 0x11"
definition DEX_VALUE_STRING :: u32 where "DEX_VALUE_STRING = 0x17"
definition DEX_VALUE_TYPE :: u32 where "DEX_VALUE_TYPE = 0x18"
definition DEX_VALUE_METHOD :: u32 where "DEX_VALUE_METHOD = 0x1a"
definition DEX_VALUE_ARRAY :: u32 where "DEX_VALUE_ARRAY = 0x1c"
definition DEX_VALUE_ANNOTATION :: u32 where "DEX_VALUE_ANNOTATION = 0x1d"
definition DEX_VALUE_NULL :: u32 where "DEX_VALUE_NULL = 0x1e"
definition DEX_VALUE_BOOLEAN :: u32 where "DEX_VALUE_BOOLEAN = 0x1f"

lemmas dex_value_types =
  DEX_VALUE_BYTE_def DEX_VALUE_SHORT_def DEX_VALUE_CHAR_def DEX_VALUE_INT_def DEX_VALUE_LONG_def
  DEX_VALUE_FLOAT_def DEX_VALUE_DOUBLE_def DEX_VALUE_STRING_def DEX_VALUE_TYPE_def
  DEX_VALUE_METHOD_def DEX_VALUE_ARRAY_def DEX_VALUE_ANNOTATION_def DEX_VALUE_NULL_def
  DEX_VALUE_BOOLEAN_def

text \<open>The header byte: the type in the low five bits, the payload size less one above.\<close>

definition value_type :: "u8 \<Rightarrow> u32" where
  "value_type hdr = ucast (hdr AND 0x1f)"

definition value_size :: "u8 \<Rightarrow> nat" where
  "value_size hdr = unat (drop_bit 5 hdr) + 1"

text \<open>\<open>for (i = 0; i < n; ++i) v |= (T)d->p[p + i] << (8u * i);\<close>\<close>

fun le_bytes :: "nat \<Rightarrow> dex_file \<Rightarrow> nat \<Rightarrow> nat \<Rightarrow> 'w::len word \<Rightarrow> 'w word option" where
  "le_bytes 0 d p i v = Some v"
| "le_bytes (Suc n) d p i v = do {
     b \<leftarrow> dex_byte d (p + i);
     le_bytes n d p (Suc i) (v OR push_bit (8 * i) (ucast b)) }"

text \<open>\<open>Some None\<close> is \<open>false\<close>; otherwise the advanced position and the index.\<close>

definition dex_value_index :: "dex_file \<Rightarrow> nat \<Rightarrow> u8 \<Rightarrow> (nat \<times> u32) option option" where
  "dex_value_index d p hdr =
     (let n = value_size hdr in
      if 4 < n \<or> dex_len d < p \<or> dex_len d - p < n then Some None
      else do { v \<leftarrow> le_bytes n d p 0 0; Some (Some (p + n, v)) })"

section \<open>Skipping\<close>

fun skip_array :: "(nat \<Rightarrow> nat option option) \<Rightarrow> nat \<Rightarrow> nat \<Rightarrow> nat option option" where
  "skip_array skip 0 p = Some (Some p)"
| "skip_array skip (Suc n) p = do {
     r \<leftarrow> skip p;
     case r of None \<Rightarrow> Some None | Some p \<Rightarrow> skip_array skip n p }"

fun skip_annotation ::
    "(nat \<Rightarrow> nat option option) \<Rightarrow> dex_file \<Rightarrow> nat \<Rightarrow> nat \<Rightarrow> nat option option" where
  "skip_annotation skip d 0 p = Some (Some p)"
| "skip_annotation skip d (Suc n) p = do {
     (q, ignored) \<leftarrow> dex_uleb d p;
     if q \<le> p \<or> dex_len d < q then Some None
     else do {
       r \<leftarrow> skip q;
       case r of None \<Rightarrow> Some None | Some p \<Rightarrow> skip_annotation skip d n p } }"

fun skip_value :: "nat \<Rightarrow> dex_file \<Rightarrow> nat \<Rightarrow> nat option option" where
  "skip_value 0 d p = None"
| "skip_value (Suc depth) d p =
     (if dex_len d \<le> p then Some None
      else do {
        hdr \<leftarrow> dex_byte d p;
        let p = p + 1;
        let type = value_type hdr;
        if type = DEX_VALUE_NULL \<or> type = DEX_VALUE_BOOLEAN then Some (Some p)
        else if type = DEX_VALUE_ARRAY then do {
          (q, n) \<leftarrow> dex_uleb d p;
          if q \<le> p \<or> dex_len d < q then Some None
          else skip_array (skip_value depth d) (unat n) q }
        else if type = DEX_VALUE_ANNOTATION then do {
          (q, ignored) \<leftarrow> dex_uleb d p;
          (q, n) \<leftarrow> dex_uleb d q;
          if q \<le> p \<or> dex_len d < q then Some None
          else skip_annotation (skip_value depth d) d (unat n) q }
        else
          let n = value_size hdr in
          if dex_len d < p \<or> dex_len d - p < n then Some None else Some (Some (p + n)) })"

definition dex_skip_value :: "dex_file \<Rightarrow> nat \<Rightarrow> nat option option" where
  "dex_skip_value d p = skip_value (Suc (dex_len d)) d p"

section \<open>Reading\<close>

text \<open>
  Integers are sign-extended, characters and indices zero-extended, floating-point values
  extended with zeros to the right.  A \<open>float\<close> with a payload of more than four bytes shifts
  by \<open>32u - size * 8u\<close>, an unsigned count far beyond the width of the operand, which C leaves
  undefined: a fault.
\<close>

definition c_shl64 :: "u64 \<Rightarrow> u32 \<Rightarrow> u64 option" where
  "c_shl64 x n = (if unat n < 64 then Some (push_bit (unat n) x) else None)"

definition value_payload :: "u32 \<Rightarrow> nat \<Rightarrow> u64 \<Rightarrow> u64 option" where
  "value_payload type size' raw =
     (if type \<in> {DEX_VALUE_BYTE, DEX_VALUE_SHORT, DEX_VALUE_INT, DEX_VALUE_LONG} then
        (let bits = size' * 8 in
         Some (if bits < 64 \<and> drop_bit (bits - 1) raw AND 1 \<noteq> 0 then raw OR push_bit bits (- 1) else raw))
      else if type = DEX_VALUE_CHAR then Some raw
      else if type = DEX_VALUE_FLOAT then c_shl64 raw (32 - of_nat size' * 8)
      else if type = DEX_VALUE_DOUBLE then c_shl64 raw (64 - of_nat size' * 8)
      else Some raw)"

definition read_scalar :: "dex_file \<Rightarrow> nat \<Rightarrow> u32 \<Rightarrow> nat \<Rightarrow> (nat \<times> dex_value) option" where
  "read_scalar d p type size' =
     (if 8 < size' \<or> dex_len d < p + size' then
        Some (dex_len d, \<lparr>val_type = DEX_VALUE_NULL, val_bits = 0\<rparr>)
      else do {
        raw \<leftarrow> le_bytes size' d p 0 0;
        bits \<leftarrow> value_payload type size' raw;
        Some (p + size', \<lparr>val_type = type, val_bits = bits\<rparr>) })"

fun read_array :: "(nat \<Rightarrow> (nat \<times> dex_value) option) \<Rightarrow> dex_file \<Rightarrow> nat \<Rightarrow> nat \<Rightarrow> nat option" where
  "read_array rd d 0 q = Some q"
| "read_array rd d (Suc n) q =
     (if q < dex_len d then do { (q, tmp) \<leftarrow> rd q; read_array rd d n q } else Some q)"

fun read_annotation :: "(nat \<Rightarrow> (nat \<times> dex_value) option) \<Rightarrow> dex_file \<Rightarrow> nat \<Rightarrow> nat \<Rightarrow> nat option" where
  "read_annotation rd d 0 q = Some q"
| "read_annotation rd d (Suc n) q =
     (if q < dex_len d then do {
        (q, ni) \<leftarrow> dex_uleb d q;
        (q, tmp) \<leftarrow> rd q;
        read_annotation rd d n q }
      else Some q)"

fun read_value :: "nat \<Rightarrow> dex_file \<Rightarrow> nat \<Rightarrow> (nat \<times> dex_value) option" where
  "read_value 0 d p = None"
| "read_value (Suc depth) d p =
     (if dex_len d \<le> p then Some (p, \<lparr>val_type = DEX_VALUE_NULL, val_bits = 0\<rparr>)
      else do {
        hdr \<leftarrow> dex_byte d p;
        let p = p + 1;
        let type = value_type hdr;
        if type = DEX_VALUE_NULL then Some (p, \<lparr>val_type = type, val_bits = 0\<rparr>)
        else if type = DEX_VALUE_BOOLEAN then
          Some (p, \<lparr>val_type = type, val_bits = ucast (drop_bit 5 hdr AND 1)\<rparr>)
        else if type = DEX_VALUE_ARRAY then do {
          (q, n) \<leftarrow> dex_uleb d p;
          q \<leftarrow> read_array (read_value depth d) d (unat n) q;
          Some (q, \<lparr>val_type = type, val_bits = of_nat p\<rparr>) }
        else if type = DEX_VALUE_ANNOTATION then do {
          (q, ti) \<leftarrow> dex_uleb d p;
          (q, n) \<leftarrow> dex_uleb d q;
          q \<leftarrow> read_annotation (read_value depth d) d (unat n) q;
          Some (q, \<lparr>val_type = type, val_bits = of_nat p\<rparr>) }
        else read_scalar d p type (value_size hdr) })"

definition dex_read_value :: "dex_file \<Rightarrow> nat \<Rightarrow> (nat \<times> dex_value) option" where
  "dex_read_value d p = read_value (Suc (dex_len d)) d p"

section \<open>Arrays of values\<close>

text \<open>
  The entries that do not fit the caller's array are decoded into a temporary.  The test
  \<open>(int)i < max\<close> converts the unsigned counter.
\<close>

fun static_values_loop ::
    "nat \<Rightarrow> dex_file \<Rightarrow> nat \<Rightarrow> u32 \<Rightarrow> dex_value list \<Rightarrow> int \<Rightarrow> dex_value list option" where
  "static_values_loop 0 d p i out max' = Some out"
| "static_values_loop (Suc n) d p i out max' = do {
     (p, v) \<leftarrow> dex_read_value d p;
     out \<leftarrow> (if sint i < max' then c_set out (unat i) v else Some out);
     static_values_loop n d p (i + 1) out max' }"

definition dex_static_values ::
    "dex_file \<Rightarrow> u32 \<Rightarrow> dex_value list \<Rightarrow> int \<Rightarrow> (int \<times> dex_value list) option" where
  "dex_static_values d off out max' =
     (if off = 0 \<or> dex_len d \<le> unat off then Some (-1, out)
      else do {
        (p, n) \<leftarrow> dex_uleb d (unat off);
        out \<leftarrow> static_values_loop (unat n) d p 0 out max';
        Some (sint n, out) })"

fun value_array_loop ::
    "nat \<Rightarrow> dex_file \<Rightarrow> nat \<Rightarrow> u32 \<Rightarrow> dex_value list \<Rightarrow> int \<Rightarrow> (bool \<times> dex_value list) option" where
  "value_array_loop 0 d p i out max' = Some (True, out)"
| "value_array_loop (Suc n) d p i out max' = do {
     (next', v) \<leftarrow> dex_read_value d p;
     out \<leftarrow> (if sint i < max' then c_set out (unat i) v else Some out);
     if next' \<le> p \<or> dex_len d < next' then Some (False, out)
     else value_array_loop n d next' (i + 1) out max' }"

definition dex_value_array ::
    "dex_file \<Rightarrow> dex_value \<Rightarrow> dex_value list \<Rightarrow> int \<Rightarrow> (int \<times> dex_value list) option" where
  "dex_value_array d array out max' =
     (if val_type array \<noteq> DEX_VALUE_ARRAY \<or> dex_len d \<le> unat (val_bits array) then Some (-1, out)
      else do {
        (p, count') \<leftarrow> dex_uleb d (unat (val_bits array));
        if p \<le> unat (val_bits array) \<or> dex_len d < p then Some (-1, out)
        else do {
          (good, out) \<leftarrow> value_array_loop (unat count') d p 0 out max';
          Some (if \<not> good then -1 else if 2 ^ 31 - 1 < unat count' then -1 else sint count', out) } })"

section \<open>The decoder stays inside the mapping\<close>

lemma value_size_bounds: "1 \<le> value_size hdr" "value_size hdr \<le> 8"
proof -
  show "1 \<le> value_size hdr" by (simp add: value_size_def)
  have "unat hdr < 2 ^ LENGTH(8)" by (rule unsigned_less)
  then have "unat hdr < 256" by simp
  then have "unat hdr div 32 < 8" by (simp add: less_mult_imp_div_less)
  moreover have "unat (drop_bit 5 hdr) = unat hdr div 32" by (simp add: drop_bit_eq_div unat_div)
  ultimately show "value_size hdr \<le> 8" by (simp add: value_size_def)
qed

lemma le_bytes_ok: "dex_mapped d \<Longrightarrow> p + i + n \<le> dex_len d \<Longrightarrow> \<exists>w. le_bytes n d p i v = Some w"
  by (induction n arbitrary: i v) auto

definition advances :: "dex_file \<Rightarrow> nat \<Rightarrow> nat \<Rightarrow> bool" where
  "advances d p q \<longleftrightarrow> p \<le> q \<and> (p \<le> dex_len d \<longrightarrow> q \<le> dex_len d) \<and> (p < dex_len d \<longrightarrow> p < q)"

text \<open>The payload is undefined for an over-wide \<open>float\<close> only.\<close>

lemma size_cases:
  assumes "1 \<le> n" and "n \<le> (8 :: nat)"
  shows "n = 1 \<or> n = 2 \<or> n = 3 \<or> n = 4 \<or> n = 5 \<or> n = 6 \<or> n = 7 \<or> n = 8"
  using assms by arith

lemma value_payload_undefined:
  assumes "1 \<le> n" and "n \<le> 8"
  shows "value_payload type n raw = None \<longleftrightarrow> type = DEX_VALUE_FLOAT \<and> 4 < n"
  using size_cases [OF assms]
  by (elim disjE) (auto simp: value_payload_def c_shl64_def Let_def dex_value_types)

lemma read_scalar_undefined:
  assumes "dex_mapped d" and "1 \<le> n" and "n \<le> 8"
  shows "read_scalar d p type n = None \<longleftrightarrow> type = DEX_VALUE_FLOAT \<and> 4 < n \<and> p + n \<le> dex_len d"
  using assms le_bytes_ok [of d p 0 n "0 :: u64"] value_payload_undefined [OF assms(2,3)]
  by (auto simp: read_scalar_def bind_eq_None_conv)

lemma read_scalar_moves:
  "read_scalar d p type n = Some (q, v) \<Longrightarrow> p \<le> dex_len d \<Longrightarrow> p \<le> q \<and> q \<le> dex_len d"
  by (auto simp: read_scalar_def bind_eq_Some_conv split: if_splits)

text \<open>Whenever it returns, the reader has moved forwards and stayed inside the mapping.\<close>

lemma read_array_moves:
  assumes rd: "\<And>p q v. rd p = Some (q, v) \<Longrightarrow> p \<le> dex_len d \<Longrightarrow> p \<le> q \<and> q \<le> dex_len d"
  shows "read_array rd d n q = Some r \<Longrightarrow> q \<le> dex_len d \<Longrightarrow> q \<le> r \<and> r \<le> dex_len d"
proof (induction n arbitrary: q)
  case (Suc n)
  then show ?case
    by (auto simp: bind_eq_Some_conv split: if_splits dest!: rd intro: order_trans)
qed simp

lemma read_annotation_moves:
  assumes m: "dex_mapped d"
    and rd: "\<And>p q v. rd p = Some (q, v) \<Longrightarrow> p \<le> dex_len d \<Longrightarrow> p \<le> q \<and> q \<le> dex_len d"
  shows "read_annotation rd d n q = Some r \<Longrightarrow> q \<le> dex_len d \<Longrightarrow> q \<le> r \<and> r \<le> dex_len d"
proof (induction n arbitrary: q)
  case (Suc n)
  show ?case
  proof (cases "q < dex_len d")
    case True
    with Suc.prems(1) obtain q1 ni q2 v where
      r: "dex_uleb d q = Some (q1, ni)" "rd q1 = Some (q2, v)" "read_annotation rd d n q2 = Some r"
      by (auto simp: bind_eq_Some_conv)
    from uleb.dec_moves [OF m r(1)] True have "q \<le> q1" "q1 \<le> dex_len d" by simp_all
    with rd [OF r(2)] Suc.IH [OF r(3)] show ?thesis by auto
  qed (use Suc.prems in simp)
qed simp

lemma read_value_moves:
  "dex_mapped d \<Longrightarrow> read_value depth d p = Some (q, v) \<Longrightarrow> advances d p q"
proof (induction depth arbitrary: p q v)
  case 0
  then show ?case by simp
next
  case (Suc depth)
  note m = Suc.prems(1)
  have rd: "q \<le> r \<and> r \<le> dex_len d" if "read_value depth d q = Some (r, v)" "q \<le> dex_len d" for q r v
    using Suc.IH [OF m that(1)] that(2) by (simp add: advances_def)
  have arr: "a \<le> r \<and> r \<le> dex_len d"
    if "read_array (read_value depth d) d n a = Some r" "a \<le> dex_len d" for n a r
    by (rule read_array_moves [OF _ that]) (rule rd)
  have ann: "a \<le> r \<and> r \<le> dex_len d"
    if "read_annotation (read_value depth d) d n a = Some r" "a \<le> dex_len d" for n a r
    by (rule read_annotation_moves [OF m _ that]) (rule rd)
  show ?case
  proof (cases "p < dex_len d")
    case False
    with Suc.prems(2) show ?thesis by (simp add: advances_def)
  next
    case True
    then have p1: "Suc p \<le> dex_len d" by simp
    have arr1: "Suc p \<le> r \<and> r \<le> dex_len d"
      if "dex_uleb d (Suc p) = Some (a, n)" "read_array (read_value depth d) d k a = Some r" for a n k r
      using uleb.dec_moves [OF m that(1)] arr [OF that(2)] p1 by auto
    have ann1: "Suc p \<le> r \<and> r \<le> dex_len d"
      if "dex_uleb d (Suc p) = Some (a, n)" "dex_uleb d a = Some (b, n')"
        "read_annotation (read_value depth d) d k b = Some r" for a n b n' k r
      using uleb.dec_moves [OF m that(1)] uleb.dec_moves [OF m that(2)] ann [OF that(3)] p1 by auto
    have "Suc p \<le> q \<and> q \<le> dex_len d"
      using Suc.prems(2) True p1 m
      by (auto simp: Let_def bind_eq_Some_conv split: if_splits dest: read_scalar_moves [OF _ p1] arr1 ann1)
    then show ?thesis using True by (simp add: advances_def)
  qed
qed

text \<open>A deeper bound changes nothing: the bound of \<open>dex_read_value\<close> is never reached.\<close>

lemma read_array_mono:
  "(\<And>p r. rd p = Some r \<Longrightarrow> rd' p = Some r) \<Longrightarrow> read_array rd d n q = Some r \<Longrightarrow> read_array rd' d n q = Some r"
  by (induction n arbitrary: q) (auto split: if_splits Option.bind_splits)

lemma read_annotation_mono:
  "(\<And>p r. rd p = Some r \<Longrightarrow> rd' p = Some r) \<Longrightarrow> read_annotation rd d n q = Some r \<Longrightarrow>
   read_annotation rd' d n q = Some r"
  by (induction n arbitrary: q) (auto split: if_splits Option.bind_splits)

lemma read_value_mono: "read_value depth d p = Some r \<Longrightarrow> read_value (Suc depth) d p = Some r"
proof (induction depth arbitrary: p r)
  case 0
  then show ?case by simp
next
  case (Suc depth)
  note mono = read_array_mono [of "read_value depth d" "read_value (Suc depth) d", OF Suc.IH]
    read_annotation_mono [of "read_value depth d" "read_value (Suc depth) d", OF Suc.IH]
  show ?case
    using Suc.prems mono unfolding read_value.simps(2) [of "Suc depth"] read_value.simps(2) [of depth]
    by (auto simp: Let_def simp del: read_value.simps split: if_splits Option.bind_splits)
qed

lemma read_value_mono_le: "depth \<le> k \<Longrightarrow> read_value depth d p = Some r \<Longrightarrow> read_value k d p = Some r"
  by (induction k rule: dec_induct) (simp_all add: read_value_mono del: read_value.simps)

lemma read_value_det: "read_value i d p = Some r \<Longrightarrow> read_value j d p = Some r' \<Longrightarrow> r = r'"
  using read_value_mono_le [of i "max i j" d p r] read_value_mono_le [of j "max i j" d p r'] by simp

text \<open>
  Where the decoding is undefined: the value at \<open>p\<close> is a \<open>float\<close> of more than four bytes that
  lies inside the mapping, or it is an array or an annotation and the decoder meets such a
  value among the elements it visits.
\<close>

inductive wide_value :: "dex_file \<Rightarrow> nat \<Rightarrow> bool"
  and wide_elements :: "dex_file \<Rightarrow> nat \<Rightarrow> nat \<Rightarrow> bool"
  and wide_pairs :: "dex_file \<Rightarrow> nat \<Rightarrow> nat \<Rightarrow> bool" for d where
  wide_float: "p < dex_len d \<Longrightarrow> dex_byte d p = Some hdr \<Longrightarrow> value_type hdr = DEX_VALUE_FLOAT \<Longrightarrow>
    4 < value_size hdr \<Longrightarrow> p + 1 + value_size hdr \<le> dex_len d \<Longrightarrow> wide_value d p"
| wide_array: "p < dex_len d \<Longrightarrow> dex_byte d p = Some hdr \<Longrightarrow> value_type hdr = DEX_VALUE_ARRAY \<Longrightarrow>
    dex_uleb d (p + 1) = Some (q, n) \<Longrightarrow> wide_elements d (unat n) q \<Longrightarrow> wide_value d p"
| wide_annotation: "p < dex_len d \<Longrightarrow> dex_byte d p = Some hdr \<Longrightarrow> value_type hdr = DEX_VALUE_ANNOTATION \<Longrightarrow>
    dex_uleb d (p + 1) = Some (q, ti) \<Longrightarrow> dex_uleb d q = Some (q', n) \<Longrightarrow> wide_pairs d (unat n) q' \<Longrightarrow>
    wide_value d p"
| element_here: "q < dex_len d \<Longrightarrow> wide_value d q \<Longrightarrow> wide_elements d (Suc n) q"
| element_later: "q < dex_len d \<Longrightarrow> dex_read_value d q = Some (r, v) \<Longrightarrow> wide_elements d n r \<Longrightarrow>
    wide_elements d (Suc n) q"
| pair_here: "q < dex_len d \<Longrightarrow> dex_uleb d q = Some (q', ni) \<Longrightarrow> wide_value d q' \<Longrightarrow> wide_pairs d (Suc n) q"
| pair_later: "q < dex_len d \<Longrightarrow> dex_uleb d q = Some (q', ni) \<Longrightarrow> dex_read_value d q' = Some (r, v) \<Longrightarrow>
    wide_pairs d n r \<Longrightarrow> wide_pairs d (Suc n) q"

lemma wide_undefined:
  assumes m: "dex_mapped d"
  shows "wide_value d p \<Longrightarrow> read_value depth d p = None"
    and "wide_elements d n q \<Longrightarrow> read_array (read_value depth d) d n q = None"
    and "wide_pairs d n q \<Longrightarrow> read_annotation (read_value depth d) d n q = None"
proof (induction arbitrary: depth and depth and depth rule: wide_value_wide_elements_wide_pairs.inducts)
  case (wide_float p hdr)
  then have "read_scalar d (Suc p) DEX_VALUE_FLOAT (value_size hdr) = None"
    using read_scalar_undefined [OF m value_size_bounds] by simp
  with wide_float show ?case
    by (cases depth) (simp_all add: Let_def dex_value_types)
next
  case (wide_array p hdr q n)
  then show ?case by (cases depth) (simp_all add: Let_def dex_value_types)
next
  case (wide_annotation p hdr q ti q' n)
  then show ?case by (cases depth) (simp_all add: Let_def dex_value_types)
next
  case (element_here q n)
  then show ?case by simp
next
  case (element_later q r v n)
  then show ?case
    by (cases "read_value depth d q")
      (auto simp: dex_read_value_def simp del: read_value.simps dest: read_value_det)
next
  case (pair_here q q' ni n)
  then show ?case by simp
next
  case (pair_later q q' ni r v n)
  then show ?case
    by (cases "read_value depth d q'")
      (auto simp: dex_read_value_def simp del: read_value.simps dest: read_value_det)
qed

text \<open>
  With as much depth as there are bytes left, nothing else keeps the decoder from returning.
  (The bound \<open>depth \<le> Suc (dex_len d)\<close> lets the elements be read with \<open>dex_read_value\<close>.)
\<close>

lemma read_array_returns:
  assumes rd: "\<And>p. p0 \<le> p \<Longrightarrow> p < dex_len d \<Longrightarrow> (\<exists>q v. rd p = Some (q, v) \<and> p \<le> q \<and> dex_read_value d p = Some (q, v)) \<or> wide_value d p"
  shows "p0 \<le> q \<Longrightarrow> (\<exists>r. read_array rd d n q = Some r) \<or> wide_elements d n q"
proof (induction n arbitrary: q)
  case (Suc n)
  show ?case
  proof (cases "q < dex_len d")
    case True
    with rd [OF Suc.prems] consider "wide_value d q" | r v where "rd q = Some (r, v)" "q \<le> r" "dex_read_value d q = Some (r, v)"
      by blast
    then show ?thesis
    proof cases
      case 1
      with True show ?thesis by (blast intro: element_here)
    next
      case 2
      with Suc.IH [of r] Suc.prems True show ?thesis by (auto intro: element_later)
    qed
  qed simp
qed simp

lemma read_annotation_returns:
  assumes m: "dex_mapped d"
    and rd: "\<And>p. p0 \<le> p \<Longrightarrow> p \<le> dex_len d \<Longrightarrow> (\<exists>q v. rd p = Some (q, v) \<and> p \<le> q \<and> dex_read_value d p = Some (q, v)) \<or> wide_value d p"
  shows "p0 \<le> q \<Longrightarrow> (\<exists>r. read_annotation rd d n q = Some r) \<or> wide_pairs d n q"
proof (induction n arbitrary: q)
  case (Suc n)
  show ?case
  proof (cases "q < dex_len d")
    case True
    obtain q1 ni where u: "dex_uleb d q = Some (q1, ni)" using uleb.dec_returns [OF m] by blast
    with uleb.dec_moves [OF m u] True Suc.prems have q1: "p0 \<le> q1" "q1 \<le> dex_len d" by simp_all
    from rd [OF q1] consider "wide_value d q1" | r v where "rd q1 = Some (r, v)" "q1 \<le> r" "dex_read_value d q1 = Some (r, v)"
      by blast
    then show ?thesis
    proof cases
      case 1
      with True u show ?thesis by (blast intro: pair_here)
    next
      case 2
      with Suc.IH [of r] q1 True u show ?thesis by (auto intro: pair_later)
    qed
  qed simp
qed simp

lemma read_value_returns:
  "dex_mapped d \<Longrightarrow> dex_len d < p + depth \<Longrightarrow> 0 < depth \<Longrightarrow> depth \<le> Suc (dex_len d) \<Longrightarrow>
   (\<exists>r. read_value depth d p = Some r) \<or> wide_value d p"
proof (induction depth arbitrary: p)
  case 0
  then show ?case by simp
next
  case (Suc depth)
  show ?case
  proof (cases "p < dex_len d")
    case False
    then show ?thesis by simp
  next
    case True
    note m = Suc.prems(1)
    obtain hdr where hdr: "dex_byte d p = Some hdr" using m True by (auto simp: dex_byte_def dex_mapped_def)
    have rd: "(\<exists>r v. read_value depth d q = Some (r, v) \<and> q \<le> r \<and> dex_read_value d q = Some (r, v)) \<or> wide_value d q"
      if "Suc p \<le> q" "q \<le> dex_len d" for q
    proof -
      have "dex_len d < q + depth" "0 < depth" "depth \<le> Suc (dex_len d)" using that Suc.prems by simp_all
      from Suc.IH [OF m this] consider "wide_value d q" | r v where "read_value depth d q = Some (r, v)" by auto
      then show ?thesis
      proof cases
        case 2
        with read_value_moves [OF m 2] read_value_mono_le [OF _ 2, of "Suc (dex_len d)"] Suc.prems(4)
        show ?thesis by (auto simp: advances_def dex_read_value_def)
      qed blast
    qed
    note arr = read_array_returns [of "Suc p" d "read_value depth d", OF rd, simplified]
      and ann = read_annotation_returns [OF m, of "Suc p" "read_value depth d", OF rd, simplified]
    obtain q n where u: "dex_uleb d (Suc p) = Some (q, n)" "Suc p \<le> q"
      using uleb.dec_returns [OF m] uleb.dec_mono [OF m] by blast
    obtain q' n' where u': "dex_uleb d q = Some (q', n')" "q \<le> q'"
      using uleb.dec_returns [OF m] uleb.dec_mono [OF m] by blast
    consider "value_type hdr = DEX_VALUE_ARRAY" | "value_type hdr = DEX_VALUE_ANNOTATION"
      | "value_type hdr \<noteq> DEX_VALUE_ARRAY" "value_type hdr \<noteq> DEX_VALUE_ANNOTATION" by blast
    then show ?thesis
    proof cases
      case 1
      with arr [OF u(2), of "unat n"] True hdr u(1) show ?thesis
        by (auto simp: Let_def dex_value_types intro: wide_array)
    next
      case 2
      have "Suc p \<le> q'" using u(2) u'(2) by simp
      from ann [OF this, of "unat n'"] 2 True hdr u(1) u'(1) show ?thesis
        by (auto simp: Let_def dex_value_types intro: wide_annotation)
    next
      case 3
      show ?thesis
      proof (cases "read_scalar d (Suc p) (value_type hdr) (value_size hdr)")
        case None
        then show ?thesis
          using read_scalar_undefined [OF m value_size_bounds] True hdr by (auto intro: wide_float)
      next
        case (Some r)
        with 3 True hdr show ?thesis by (auto simp: Let_def)
      qed
    qed
  qed
qed

lemma dex_read_value_undefined: "dex_mapped d \<Longrightarrow> dex_read_value d p = None \<longleftrightarrow> wide_value d p"
  using read_value_returns [of d p "Suc (dex_len d)"] wide_undefined(1) [of d p "Suc (dex_len d)"]
  by (auto simp: dex_read_value_def simp del: read_value.simps)

lemma dex_read_value_moves: "dex_mapped d \<Longrightarrow> dex_read_value d p = Some (q, v) \<Longrightarrow> advances d p q"
  unfolding dex_read_value_def by (rule read_value_moves)

lemma read_value_enough:
  assumes "dex_mapped d" and "dex_len d < p + depth" and "0 < depth"
  shows "read_value depth d p = dex_read_value d p"
proof (cases "wide_value d p")
  case True
  then show ?thesis
    using wide_undefined(1) [OF assms(1)] by (simp add: dex_read_value_def del: read_value.simps)
next
  case False
  let ?k = "min depth (Suc (dex_len d))"
  have "dex_len d < p + ?k" "0 < ?k" "?k \<le> Suc (dex_len d)" using assms(2,3) by (simp_all add: min_def)
  from read_value_returns [OF assms(1) this] False obtain r where r: "read_value ?k d p = Some r" by blast
  from read_value_mono_le [OF _ r, of depth] read_value_mono_le [OF _ r, of "Suc (dex_len d)"]
  show ?thesis by (simp add: dex_read_value_def del: read_value.simps)
qed

interpretation val: cursor_decoder dex_read_value
  by standard (auto dest: dex_read_value_moves simp: advances_def)

section \<open>The skipper\<close>

lemma skip_array_ok:
  assumes sk: "\<And>p. p0 \<le> p \<Longrightarrow> p \<le> dex_len d \<Longrightarrow> ok (sk p) (\<lambda>r. r = None \<or> (\<exists>q. r = Some q \<and> p \<le> q \<and> q \<le> dex_len d))"
  shows "p0 \<le> p \<Longrightarrow> p \<le> dex_len d \<Longrightarrow>
    ok (skip_array sk n p) (\<lambda>r. r = None \<or> (\<exists>q. r = Some q \<and> p \<le> q \<and> q \<le> dex_len d))"
proof (induction n arbitrary: p)
  case (Suc n)
  then show ?case
    by (auto intro!: ok_bind [OF sk [of p]] ok_mono [OF Suc.IH] split: option.split)
qed simp

lemma skip_annotation_ok:
  assumes m: "dex_mapped d"
    and sk: "\<And>p. p0 \<le> p \<Longrightarrow> p \<le> dex_len d \<Longrightarrow> ok (sk p) (\<lambda>r. r = None \<or> (\<exists>q. r = Some q \<and> p \<le> q \<and> q \<le> dex_len d))"
  shows "p0 \<le> p \<Longrightarrow> p \<le> dex_len d \<Longrightarrow>
    ok (skip_annotation sk d n p) (\<lambda>r. r = None \<or> (\<exists>q. r = Some q \<and> p \<le> q \<and> q \<le> dex_len d))"
proof (induction n arbitrary: p)
  case (Suc n)
  then show ?case
    by (auto intro!: ok_bind [OF uleb.dec_inside [OF m]] ok_bind [OF sk] ok_mono [OF Suc.IH]
        split: option.split)
qed simp

lemma skip_value_ok:
  "dex_mapped d \<Longrightarrow> dex_len d < p + depth \<Longrightarrow> 0 < depth \<Longrightarrow>
   ok (skip_value depth d p) (\<lambda>r. r = None \<or> (\<exists>q. r = Some q \<and> p < q \<and> q \<le> dex_len d))"
proof (induction depth arbitrary: p)
  case 0
  then show ?case by simp
next
  case (Suc depth)
  show ?case
  proof (cases "p < dex_len d")
    case False
    then show ?thesis by simp
  next
    case True
    note m = Suc.prems(1)
    have sk: "ok (skip_value depth d q) (\<lambda>r. r = None \<or> (\<exists>s. r = Some s \<and> q \<le> s \<and> s \<le> dex_len d))"
      if "Suc p \<le> q" "q \<le> dex_len d" for q
      using that Suc.prems by (intro ok_mono [OF Suc.IH]) auto
    have arr: "ok (skip_array (skip_value depth d) n q) (\<lambda>r. r = None \<or> (\<exists>s. r = Some s \<and> q \<le> s \<and> s \<le> dex_len d))"
      if "Suc p \<le> q" "q \<le> dex_len d" for n q
      using that by (intro skip_array_ok [of "Suc p"] sk) auto
    have ann: "ok (skip_annotation (skip_value depth d) d n q) (\<lambda>r. r = None \<or> (\<exists>s. r = Some s \<and> q \<le> s \<and> s \<le> dex_len d))"
      if "Suc p \<le> q" "q \<le> dex_len d" for n q
      using that by (intro skip_annotation_ok [of d "Suc p"] sk m) auto
    show ?thesis
      using True m value_size_bounds(1)
      by (auto simp: Let_def intro!: ok_bind [OF uleb.dec_inside [OF m]] ok_mono [OF arr] ok_mono [OF ann])
  qed
qed

lemma dex_skip_value_ok:
  "dex_mapped d \<Longrightarrow> ok (dex_skip_value d p) (\<lambda>r. r = None \<or> (\<exists>q. r = Some q \<and> p < q \<and> q \<le> dex_len d))"
  unfolding dex_skip_value_def by (rule skip_value_ok) simp_all

section \<open>Integers round trip\<close>

text \<open>The encoding of an integer in \<open>n\<close> little-endian bytes behind its header.\<close>

definition word_bytes :: "u64 \<Rightarrow> nat \<Rightarrow> nat \<Rightarrow> u8 list" where
  "word_bytes w i n = map (\<lambda>j. ucast (drop_bit (8 * j) w)) [i..<i + n]"

definition int_value_bytes :: "u32 \<Rightarrow> nat \<Rightarrow> int \<Rightarrow> u8 list" where
  "int_value_bytes type n v = (push_bit 5 (of_nat (n - 1)) OR ucast type) # word_bytes (word_of_int v) 0 n"

lemma word_bytes_Suc: "word_bytes w i (Suc n) = ucast (drop_bit (8 * i) w) # word_bytes w (Suc i) n"
  unfolding word_bytes_def upt_step by simp

lemma le_bytes_word:
  "dex_mapped d \<Longrightarrow> has_bytes d (p + i) (word_bytes w i n) \<Longrightarrow>
   le_bytes n d p i (take_bit (8 * i) w) = Some (take_bit (8 * (i + n)) w)"
proof (induction n arbitrary: i)
  case 0
  then show ?case by simp
next
  case (Suc n)
  have "take_bit (8 * i) w OR push_bit (8 * i) (ucast (ucast (drop_bit (8 * i) w) :: u8)) = take_bit (8 * Suc i) w"
    by (rule bit_word_eqI) (auto simp: bit_simps)
  with Suc.prems Suc.IH [of "Suc i"] show ?case
    by (simp add: word_bytes_Suc has_bytes_Cons dex_mapped_def dex_byte_def)
qed

lemma bit_signed_range:
  assumes "- (2 ^ k) \<le> v" and "v < 2 ^ k"
  shows "bit (v :: int) n = bit v (min k n)"
proof -
  have "signed_take_bit k v = v" using assms by (rule signed_take_bit_int_eq_self)
  then show ?thesis by (metis bit_signed_take_bit_iff possible_bit_int)
qed

definition int_type :: "u32 \<Rightarrow> bool" where
  "int_type type \<longleftrightarrow> type \<in> {DEX_VALUE_BYTE, DEX_VALUE_SHORT, DEX_VALUE_INT, DEX_VALUE_LONG}"

lemma value_payload_int:
  assumes "int_type type" and n: "1 \<le> n" "n \<le> 8" and v: "- (2 ^ (8 * n - 1)) \<le> v" "v < 2 ^ (8 * n - 1)"
  shows "value_payload type n (take_bit (8 * n) (word_of_int v)) = Some (word_of_int v)"
proof -
  let ?raw = "take_bit (8 * n) (word_of_int v) :: u64"
  have sign: "(drop_bit (n * 8 - 1) ?raw AND 1 \<noteq> 0) = bit v (8 * n - 1)"
    using n by (auto simp: and_one_eq odd_iff_mod_2_eq_one [symmetric] bit_iff_odd_drop_bit [symmetric]
        bit_simps mult.commute)
  have top: "bit v k = bit v (8 * n - 1)" if "8 * n \<le> k" for k
    using bit_signed_range [OF v, of k] that n by (simp add: min_def split: if_splits)
  show ?thesis
  proof (cases "n * 8 < 64 \<and> drop_bit (n * 8 - 1) ?raw AND 1 \<noteq> 0")
    case True
    then have "?raw OR push_bit (n * 8) (- 1) = word_of_int v"
      using sign top by (intro bit_word_eqI) (auto simp: bit_simps mult.commute not_less)
    with True assms(1) show ?thesis by (simp add: value_payload_def int_type_def Let_def)
  next
    case False
    have "?raw = word_of_int v"
    proof (rule bit_word_eqI)
      fix k assume k: "k < LENGTH(64)"
      show "bit ?raw k = bit (word_of_int v :: u64) k"
      proof (cases "k < 8 * n")
        case True
        with k show ?thesis by (simp add: bit_simps)
      next
        case beyond: False
        with k have "n * 8 < 64" by simp
        with False sign have "\<not> bit v (8 * n - 1)" by blast
        with top [of k] beyond k show ?thesis by (simp add: bit_simps)
      qed
    qed
    with False assms(1) show ?thesis by (auto simp: value_payload_def int_type_def Let_def)
  qed
qed

lemma header_byte:
  assumes "1 \<le> n" and "n \<le> 8" and "type < 32"
  shows "value_type (push_bit 5 (of_nat (n - 1)) OR ucast type) = type"
    and "value_size (push_bit 5 (of_nat (n - 1)) OR ucast type) = n"
proof -
  have t: "\<not> bit type k" if "5 \<le> k" for k using small_high_bit [of type 5 k] assms(3) that by simp
  have m: "(w :: u8) AND 0x1f = take_bit 5 w" for w by (simp add: take_bit_eq_mask mask_eq_exp_minus_1)
  show "value_type (push_bit 5 (of_nat (n - 1)) OR ucast type) = type"
    unfolding value_type_def m using t by (intro bit_word_eqI) (auto simp: bit_simps not_le [symmetric])
  have "n = 1 \<or> n = 2 \<or> n = 3 \<or> n = 4 \<or> n = 5 \<or> n = 6 \<or> n = 7 \<or> n = 8" using assms(1,2) by arith
  moreover have "drop_bit 5 (push_bit 5 (of_nat (n - 1)) OR ucast type :: u8) = drop_bit 5 (push_bit 5 (of_nat (n - 1)))"
    using t by (intro bit_word_eqI) (auto simp: bit_simps)
  ultimately show "value_size (push_bit 5 (of_nat (n - 1)) OR ucast type) = n"
    unfolding value_size_def by auto
qed

lemma dex_read_value_int:
  assumes m: "dex_mapped d" and type: "int_type type" and n: "1 \<le> n" "n \<le> 8"
    and v: "- (2 ^ (8 * n - 1)) \<le> v" "v < 2 ^ (8 * n - 1)"
    and bytes: "has_bytes d p (int_value_bytes type n v)"
  shows "dex_read_value d p = Some (p + 1 + n, \<lparr>val_type = type, val_bits = word_of_int v\<rparr>)"
proof -
  let ?hdr = "push_bit 5 (of_nat (n - 1)) OR ucast type :: u8"
  have t32: "type < 32" using type by (auto simp: int_type_def dex_value_types)
  have other: "type \<noteq> DEX_VALUE_NULL" "type \<noteq> DEX_VALUE_BOOLEAN" "type \<noteq> DEX_VALUE_ARRAY"
    "type \<noteq> DEX_VALUE_ANNOTATION" using type by (auto simp: int_type_def dex_value_types)
  have hb: "p < length (dex_p d)" "dex_p d ! p = ?hdr" "has_bytes d (Suc p) (word_bytes (word_of_int v) 0 n)"
    using bytes by (simp_all add: int_value_bytes_def has_bytes_Cons)
  have "le_bytes n d (Suc p) 0 0 = Some (take_bit (8 * n) (word_of_int v) :: u64)"
    using le_bytes_word [OF m, of "Suc p" 0 "word_of_int v" n] hb(3) by simp
  moreover have "Suc p + n \<le> dex_len d"
    using hb(3) m by (simp add: has_bytes_def word_bytes_def dex_mapped_def)
  ultimately show ?thesis
    using hb(1,2) m n other header_byte [OF n t32] value_payload_int [OF type n v]
    by (simp add: dex_read_value_def Let_def read_scalar_def dex_mapped_def dex_byte_def)
qed

section \<open>Static initialisers\<close>

text \<open>Where the \<open>i\<close>-th value of a sequence starts, and the value there.\<close>

fun value_start :: "dex_file \<Rightarrow> nat \<Rightarrow> nat \<Rightarrow> nat" where
  "value_start d p 0 = p"
| "value_start d p (Suc i) = (case dex_read_value d p of Some (q, v) \<Rightarrow> value_start d q i | None \<Rightarrow> p)"

definition value_nth :: "dex_file \<Rightarrow> nat \<Rightarrow> nat \<Rightarrow> dex_value" where
  "value_nth d p i = (case dex_read_value d (value_start d p i) of Some (q, v) \<Rightarrow> v
     | None \<Rightarrow> \<lparr>val_type = DEX_VALUE_NULL, val_bits = 0\<rparr>)"

lemma unat_succ: "unat (i :: u32) + 1 < 2 ^ 32 \<Longrightarrow> unat (i + 1) = Suc (unat i)"
  by (simp add: unat_word_ariths)

lemma fill_cong: "(\<And>k. i \<le> k \<Longrightarrow> k < j \<Longrightarrow> f k = g k) \<Longrightarrow> fill xs i j f = fill xs i j g"
  by (auto simp: fill_def)

lemma static_values_loop_ok:
  "dex_mapped d \<Longrightarrow> length out < 2 ^ 31 \<Longrightarrow> unat i + n \<le> 2 ^ 31 \<Longrightarrow> (\<forall>k<n. \<not> wide_value d (value_start d p k)) \<Longrightarrow>
   static_values_loop n d p i out (int (length out)) =
     Some (fill out (unat i) (unat i + n) (\<lambda>k. value_nth d p (k - unat i)))"
proof (induction n arbitrary: p i out)
  case 0
  then show ?case by (simp add: fill_empty)
next
  case (Suc n)
  have "\<not> wide_value d p" using Suc.prems(4) by (metis value_start.simps(1) zero_less_Suc)
  then obtain q v where qv: "dex_read_value d p = Some (q, v)"
    using dex_read_value_undefined [OF Suc.prems(1), of p] by fastforce
  have narrow: "\<forall>k<n. \<not> wide_value d (value_start d q k)" using Suc.prems(4) qv by fastforce
  have si: "unat (i + 1) = Suc (unat i)" using Suc.prems(3) by (intro unat_succ) simp
  have s: "sint i = int (unat i)" using Suc.prems(3) by (intro sint_small) simp
  have nth: "value_nth d q (k - Suc (unat i)) = value_nth d p (k - unat i)" if "Suc (unat i) \<le> k" for k
  proof -
    from le_Suc_ex [OF that] obtain j where "k = Suc (unat i) + j" by blast
    with qv show ?thesis by (simp add: value_nth_def)
  qed
  have v: "value_nth d p (unat i - unat i) = v" using qv by (simp add: value_nth_def)
  note f = fill_cong [of "Suc (unat i)" _ "\<lambda>k. value_nth d q (k - Suc (unat i))", OF nth]
  show ?case
  proof (cases "unat i < length out")
    case True
    have "sint i < int (length out)" unfolding s using True by (simp only: of_nat_less_iff)
    with True Suc.prems(1-3) narrow Suc.IH [of "out[unat i := v]" "i + 1" q] qv si
      fill_step [of "unat i" "unat i + Suc n" out "\<lambda>k. value_nth d p (k - unat i)"] v
    show ?thesis by (simp add: f)
  next
    case False
    then have "\<not> sint i < int (length out)" unfolding s by (simp only: of_nat_less_iff) simp
    with False Suc.prems(1-3) narrow Suc.IH [of out "i + 1" q] qv si
    show ?thesis by (simp add: fill_beyond)
  qed
qed

text \<open>
  The counter \<open>2 ^ 31\<close> converts to a negative \<open>int\<close>, passes the test and indexes far outside
  the caller's array.
\<close>

lemma static_values_loop_fault:
  "dex_mapped d \<Longrightarrow> length out < 2 ^ 31 \<Longrightarrow> unat i \<le> 2 ^ 31 \<Longrightarrow> 2 ^ 31 < unat i + n \<Longrightarrow>
   static_values_loop n d p i out (int (length out)) = None"
proof (induction n arbitrary: p i out)
  case 0
  then show ?case by simp
next
  case (Suc n)
  show ?case
  proof (cases "dex_read_value d p")
    case None
    then show ?thesis by simp
  next
    case (Some qv')
    then obtain q v where qv: "dex_read_value d p = Some (q, v)" by (cases qv') simp
    show ?thesis
    proof (cases "unat i = 2 ^ 31")
      case True
      then have "unat i = unat (0x80000000 :: u32)" by simp
      then have "i = 0x80000000" by (simp only: word_unat_eq_iff)
      then have "sint i < int (length out)" by simp
      with True Suc.prems(2) qv show ?thesis by (simp add: c_set_def)
    next
      case False
      have si: "unat (i + 1) = Suc (unat i)" using Suc.prems(3) by (intro unat_succ) simp
      have "static_values_loop n d q (i + 1) out' (int (length out)) = None" if "length out' = length out" for out'
        using Suc.IH [of out' "i + 1" q] Suc.prems False si that by simp
      with qv show ?thesis by (auto simp: c_set_def)
    qed
  qed
qed

text \<open>An over-wide \<open>float\<close> among the values is decoded, and faults, also beyond the caller's array.\<close>

lemma static_values_loop_wide:
  "dex_mapped d \<Longrightarrow> k < n \<Longrightarrow> wide_value d (value_start d p k) \<Longrightarrow> static_values_loop n d p i out max' = None"
proof (induction n arbitrary: p i out k)
  case (Suc n)
  show ?case
  proof (cases "dex_read_value d p")
    case (Some qv)
    then obtain q v where qv: "dex_read_value d p = Some (q, v)" by (cases qv) simp
    with Suc.prems dex_read_value_undefined [OF Suc.prems(1), of p] obtain j where "k = Suc j"
      by (cases k) auto
    with Suc.prems qv Suc.IH [of j q] show ?thesis by (auto simp: c_set_def)
  qed simp
qed simp


section \<open>Value arrays\<close>

text \<open>The values of an image do not depend on the lazily filled tables.\<close>

lemma le_bytes_same: "same_image d d' \<Longrightarrow> le_bytes n d' p i v = le_bytes n d p i v"
  by (induction n arbitrary: i v) (simp_all add: dex_byte_def same_image_fields cong: Option.bind_cong if_cong)

lemma uleb_same: "same_image d d' \<Longrightarrow> dex_uleb d' p = dex_uleb d p"
proof -
  assume s: "same_image d d'"
  have "dex_uleb_loop k d' p v n = dex_uleb_loop k d p v n" for k p v n
    by (induction k arbitrary: p v n) (simp_all add: dex_byte_def same_image_fields [OF s] cong: Option.bind_cong if_cong)
  then show ?thesis by (simp add: dex_uleb_def)
qed

lemma read_array_same: "same_image d d' \<Longrightarrow> read_array rd d' n q = read_array rd d n q"
  by (induction n arbitrary: q) (simp_all add: same_image_fields cong: Option.bind_cong if_cong)

lemma read_annotation_same: "same_image d d' \<Longrightarrow> read_annotation rd d' n q = read_annotation rd d n q"
  by (induction n arbitrary: q) (simp_all add: same_image_fields uleb_same cong: Option.bind_cong if_cong)

lemma dex_read_value_same:
  assumes "same_image d d'"
  shows "dex_read_value d' p = dex_read_value d p"
proof -
  note same = same_image_fields [OF assms] uleb_same [OF assms] le_bytes_same [OF assms]
    read_array_same [OF assms] read_annotation_same [OF assms]
  have "read_value k d' = read_value k d" for k
  proof (induction k)
    case (Suc k)
    then show ?case by (intro ext) (simp add: same read_scalar_def dex_byte_def Let_def cong: if_cong)
  qed (simp add: fun_eq_iff)
  then show ?thesis by (simp add: dex_read_value_def same del: read_value.simps)
qed

text \<open>An image that holds no over-wide \<open>float\<close>, wherever a value is taken to start.\<close>

definition narrow_floats :: "dex_file \<Rightarrow> bool" where
  "narrow_floats d \<longleftrightarrow> (\<forall>p. \<not> wide_value d p)"

lemma narrow_same:
  assumes "dex_mapped d" and "same_image d d'" and "narrow_floats d"
  shows "narrow_floats d'"
proof -
  have "dex_mapped d'" using assms(1) same_image_rd(3) [OF assms(2)] by simp
  from dex_read_value_undefined [OF assms(1)] dex_read_value_undefined [OF this] assms(3) show ?thesis
    by (simp add: narrow_floats_def dex_read_value_same [OF assms(2)])
qed

lemma narrow_returns: "dex_mapped d \<Longrightarrow> narrow_floats d \<Longrightarrow> \<exists>q v. dex_read_value d p = Some (q, v)"
  using dex_read_value_undefined [of d p] by (auto simp: narrow_floats_def)

text \<open>
  Every element of a value array takes at least a byte, so the counter stays below the
  length of the mapping and the conversion to \<open>int\<close> is exact.
\<close>

lemma value_array_loop_ok:
  "dex_mapped d \<Longrightarrow> p \<le> dex_len d \<Longrightarrow> unat i + (dex_len d - p) < 2 ^ 31 \<Longrightarrow> narrow_floats d \<Longrightarrow>
   ok (value_array_loop n d p i out (int (length out))) (\<lambda>(good, out'). length out' = length out)"
proof (induction n arbitrary: p i out)
  case 0
  then show ?case by simp
next
  case (Suc n)
  obtain q v where qv: "dex_read_value d p = Some (q, v)" using narrow_returns [OF Suc.prems(1,4)] by blast
  have s: "sint i = int (unat i)" using Suc.prems(3) by (intro sint_small) simp
  have si: "unat (i + 1) = Suc (unat i)" using Suc.prems(3) by (intro unat_succ) simp
  have less: "sint i < int (length out) \<longleftrightarrow> unat i < length out" unfolding s by (rule of_nat_less_iff)
  have "ok (value_array_loop n d q (i + 1) out' (int (length out))) (\<lambda>(good, out''). length out'' = length out)"
    if "p < q" "q \<le> dex_len d" "length out' = length out" for out'
    using that Suc.IH [of q "i + 1" out'] Suc.prems si by simp
  with qv less show ?case by auto
qed

lemma dex_value_array_ok:
  assumes "dex_mapped d" and "dex_len d < 2 ^ 31" and "narrow_floats d"
  shows "ok (dex_value_array d v out (int (length out))) (\<lambda>(n, out'). length out' = length out)"
proof -
  have loop: "ok (value_array_loop n d p 0 out (int (length out))) (\<lambda>(good, out'). length out' = length out)"
    if "p \<le> dex_len d" for n p
    using value_array_loop_ok [OF assms(1) that, of 0] assms(2,3) by simp
  show ?thesis
    using assms(1) unfolding dex_value_array_def
    by (auto intro!: ok_bind [OF uleb.dec_inside] ok_bind [OF loop])
qed

end
