(* ===== verification/Dex_Annotation.thy ===== *)
theory Dex_Annotation
  imports Dex_Value
begin

text \<open>
  The annotation queries of the DEX reader (\<open>src/src/dvm/dex.c\<close>): annotation sets, the
  directory of a class and its member tables, annotation elements, generic signatures and
  the inner-class metadata.  A \<open>char *\<close> argument that may be \<open>NULL\<close> is an option; an output
  pointer that may be \<open>NULL\<close> is modelled by returning the value that would be stored.
\<close>

section \<open>Annotation sets\<close>

text \<open>One item of a set: its visibility byte and the descriptor of its type.\<close>

definition item_type ::
    "alloc \<Rightarrow> dex_file \<Rightarrow> nat \<Rightarrow> (string option \<times> dex_file) option" where
  "item_type al d p = do {
     (q, type_idx) \<leftarrow> dex_uleb d p;
     if p < q then dex_type al d type_idx else Some (None, d) }"

fun set_find_loop ::
    "nat \<Rightarrow> alloc \<Rightarrow> dex_file \<Rightarrow> u32 \<Rightarrow> u32 \<Rightarrow> string \<Rightarrow> bool \<Rightarrow> (u32 option \<times> dex_file) option" where
  "set_find_loop 0 al d set_off i desc runtime_only = Some (None, d)"
| "set_find_loop (Suc n) al d set_off i desc runtime_only = do {
     item_off \<leftarrow> dex_u32_at d (unat (set_off + 4) + unat i * 4);
     if item_off = 0 \<or> dex_len d < unat item_off + 2 then
       set_find_loop n al d set_off (i + 1) desc runtime_only
     else do {
       vis \<leftarrow> dex_byte d (unat item_off);
       if runtime_only \<and> vis \<noteq> 1 then set_find_loop n al d set_off (i + 1) desc runtime_only
       else do {
         let p = unat item_off + 1;
         (type, d) \<leftarrow> item_type al d p;
         if type = Some desc then Some (Some (of_nat p), d)
         else set_find_loop n al d set_off (i + 1) desc runtime_only } } }"

text \<open>\<open>Some (Some off, d)\<close> is \<open>true\<close> with \<open>*encoded_off = off\<close>.\<close>

definition dex_annotation_set_find ::
    "alloc \<Rightarrow> dex_file \<Rightarrow> u32 \<Rightarrow> string \<Rightarrow> bool \<Rightarrow> (u32 option \<times> dex_file) option" where
  "dex_annotation_set_find al d set_off desc runtime_only =
     (if set_off = 0 \<or> dex_len d < unat set_off + 4 then Some (None, d)
      else do {
        count' \<leftarrow> dex_u32_at d (unat set_off);
        if dex_len d < unat set_off + 4 + unat count' * 4 then Some (None, d)
        else set_find_loop (unat count') al d set_off 0 desc runtime_only })"

text \<open>
  The listing: the caller's two arrays (either may be \<open>NULL\<close>) receive the first \<open>max\<close>
  entries, the result counts all of them.
\<close>

definition put_out :: "'a list option \<Rightarrow> nat \<Rightarrow> 'a \<Rightarrow> 'a list option option" where
  "put_out xs n v = (case xs of None \<Rightarrow> Some None | Some ys \<Rightarrow> map_option Some (c_set ys n v))"

type_synonym ann_out = "nat \<times> u32 list option \<times> string option list option"

fun set_list_loop ::
    "nat \<Rightarrow> alloc \<Rightarrow> dex_file \<Rightarrow> u32 \<Rightarrow> u32 \<Rightarrow> ann_out \<Rightarrow> int \<Rightarrow> (ann_out \<times> dex_file) option" where
  "set_list_loop 0 al d set_off i acc max' = Some (acc, d)"
| "set_list_loop (Suc k) al d set_off i acc max' = do {
     let (n, offs, types) = acc;
     item_off \<leftarrow> dex_u32_at d (unat (set_off + 4) + unat i * 4);
     if item_off = 0 \<or> dex_len d < unat item_off + 2 then
       set_list_loop k al d set_off (i + 1) acc max'
     else do {
       vis \<leftarrow> dex_byte d (unat item_off);
       if vis \<noteq> 1 then set_list_loop k al d set_off (i + 1) acc max'
       else do {
         let p = unat item_off + 1;
         (type, d) \<leftarrow> item_type al d p;
         case type of None \<Rightarrow> set_list_loop k al d set_off (i + 1) acc max'
         | Some t \<Rightarrow>
             if int n < max' then do {
               offs \<leftarrow> put_out offs n (of_nat p);
               types \<leftarrow> put_out types n (Some t);
               set_list_loop k al d set_off (i + 1) (n + 1, offs, types) max' }
             else set_list_loop k al d set_off (i + 1) (n + 1, offs, types) max' } } }"

definition dex_annotation_set_list ::
    "alloc \<Rightarrow> dex_file \<Rightarrow> u32 \<Rightarrow> u32 list option \<Rightarrow> string option list option \<Rightarrow> int \<Rightarrow>
     (ann_out \<times> dex_file) option" where
  "dex_annotation_set_list al d set_off offs types max' =
     (if set_off = 0 \<or> dex_len d < unat set_off + 4 then Some ((0, offs, types), d)
      else do {
        count' \<leftarrow> dex_u32_at d (unat set_off);
        if dex_len d < unat set_off + 4 + unat count' * 4 then Some ((0, offs, types), d)
        else set_list_loop (unat count') al d set_off 0 (0, offs, types) max' })"

section \<open>The directory of a class\<close>

text \<open>
  The test that opens most queries: the class definition exists, has annotations, and the
  directory's four words lie inside the mapping.
\<close>

definition annotations_dir :: "dex_file \<Rightarrow> u32 \<Rightarrow> u32 option option" where
  "annotations_dir d class_def_idx = do {
     cd \<leftarrow> dex_class_def d class_def_idx;
     case cd of None \<Rightarrow> Some None
     | Some c \<Rightarrow>
         if cd_annotations_off c = 0 \<or> dex_len d < unat (cd_annotations_off c) + 16 then Some None
         else Some (Some (cd_annotations_off c)) }"

definition dex_class_annotation ::
    "alloc \<Rightarrow> dex_file \<Rightarrow> u32 \<Rightarrow> string \<Rightarrow> (u32 option \<times> dex_file) option" where
  "dex_class_annotation al d class_def_idx desc = do {
     dir \<leftarrow> annotations_dir d class_def_idx;
     case dir of None \<Rightarrow> Some (None, d)
     | Some a \<Rightarrow> do {
         set_off \<leftarrow> dex_u32_at d (unat a);
         dex_annotation_set_find al d set_off desc True } }"

definition dex_class_annotations ::
    "alloc \<Rightarrow> dex_file \<Rightarrow> u32 \<Rightarrow> u32 list option \<Rightarrow> string option list option \<Rightarrow> int \<Rightarrow>
     (ann_out \<times> dex_file) option" where
  "dex_class_annotations al d class_def_idx offs types max' = do {
     dir \<leftarrow> annotations_dir d class_def_idx;
     case dir of None \<Rightarrow> Some ((0, offs, types), d)
     | Some a \<Rightarrow> do {
         set_off \<leftarrow> dex_u32_at d (unat a);
         if set_off = 0 \<or> dex_len d < unat set_off + 4 then Some ((0, offs, types), d)
         else do {
           count' \<leftarrow> dex_u32_at d (unat set_off);
           if dex_len d < unat set_off + 4 + unat count' * 4 then Some ((0, offs, types), d)
           else set_list_loop (unat count') al d set_off 0 (0, offs, types) max' } } }"

fun field_entry_loop ::
    "nat \<Rightarrow> alloc \<Rightarrow> dex_file \<Rightarrow> nat \<Rightarrow> u32 \<Rightarrow> string \<Rightarrow> (u32 \<times> dex_file) option" where
  "field_entry_loop 0 al d table i field_name = Some (0, d)"
| "field_entry_loop (Suc n) al d table i field_name = do {
     field_idx \<leftarrow> dex_u32_at d (table + unat i * 8);
     set_off \<leftarrow> dex_u32_at d (table + unat i * 8 + 4);
     fid \<leftarrow> dex_field_id d field_idx;
     case fid of None \<Rightarrow> field_entry_loop n al d table (i + 1) field_name
     | Some f \<Rightarrow> do {
         (name, d) \<leftarrow> dex_string al d (fid_name_idx f);
         if name = Some field_name then Some (set_off, d)
         else field_entry_loop n al d table (i + 1) field_name } }"

definition dex_field_entry ::
    "alloc \<Rightarrow> dex_file \<Rightarrow> u32 \<Rightarrow> string option \<Rightarrow> (u32 \<times> dex_file) option" where
  "dex_field_entry al d class_def_idx field_name =
     (case field_name of None \<Rightarrow> Some (0, d)
      | Some name \<Rightarrow> do {
          dir \<leftarrow> annotations_dir d class_def_idx;
          case dir of None \<Rightarrow> Some (0, d)
          | Some a \<Rightarrow> do {
              fields \<leftarrow> dex_u32_at d (unat (a + 4));
              let table = unat a + 16;
              if dex_len d < table + unat fields * 8 then Some (0, d)
              else field_entry_loop (unat fields) al d table 0 name } })"

definition dex_field_annotation ::
    "alloc \<Rightarrow> dex_file \<Rightarrow> u32 \<Rightarrow> string option \<Rightarrow> string \<Rightarrow> (u32 option \<times> dex_file) option" where
  "dex_field_annotation al d class_def_idx field_name desc = do {
     (set_off, d) \<leftarrow> dex_field_entry al d class_def_idx field_name;
     if set_off = 0 then Some (None, d)
     else dex_annotation_set_find al d set_off desc True }"

definition dex_field_annotations ::
    "alloc \<Rightarrow> dex_file \<Rightarrow> u32 \<Rightarrow> string option \<Rightarrow> u32 list option \<Rightarrow> string option list option \<Rightarrow> int \<Rightarrow>
     (ann_out \<times> dex_file) option" where
  "dex_field_annotations al d class_def_idx field_name offs types max' = do {
     (set_off, d) \<leftarrow> dex_field_entry al d class_def_idx field_name;
     if set_off = 0 then Some ((0, offs, types), d)
     else dex_annotation_set_list al d set_off offs types max' }"

section \<open>Methods and parameters\<close>

definition dex_method_is ::
    "alloc \<Rightarrow> dex_file \<Rightarrow> u32 \<Rightarrow> string \<Rightarrow> string option \<Rightarrow> (bool \<times> dex_file) option" where
  "dex_method_is al d method_idx name sig = do {
     mid \<leftarrow> dex_method_id d method_idx;
     case mid of None \<Rightarrow> Some (False, d)
     | Some m \<Rightarrow> do {
         (n, d) \<leftarrow> dex_string al d (mid_name_idx m);
         if n \<noteq> Some name then Some (False, d)
         else case sig of None \<Rightarrow> Some (True, d)
         | Some s \<Rightarrow> do {
             (buf, d) \<leftarrow> dex_proto_signature_alloc al d (ucast (mid_proto_idx m));
             Some (buf = Some s, d) } } }"

fun method_entry_loop ::
    "nat \<Rightarrow> alloc \<Rightarrow> dex_file \<Rightarrow> nat \<Rightarrow> u32 \<Rightarrow> string \<Rightarrow> string option \<Rightarrow> (u32 \<times> dex_file) option" where
  "method_entry_loop 0 al d at i name sig = Some (0, d)"
| "method_entry_loop (Suc n) al d at i name sig = do {
     idx \<leftarrow> dex_u32_at d (at + unat i * 8);
     (is, d) \<leftarrow> dex_method_is al d idx name sig;
     if is then do { r \<leftarrow> dex_u32_at d (at + unat i * 8 + 4); Some (r, d) }
     else method_entry_loop n al d at (i + 1) name sig }"

definition dex_method_entry ::
    "alloc \<Rightarrow> dex_file \<Rightarrow> u32 \<Rightarrow> string option \<Rightarrow> string option \<Rightarrow> int \<Rightarrow> (u32 \<times> dex_file) option" where
  "dex_method_entry al d class_def_idx name sig table =
     (case name of None \<Rightarrow> Some (0, d)
      | Some nm \<Rightarrow> do {
          dir \<leftarrow> annotations_dir d class_def_idx;
          case dir of None \<Rightarrow> Some (0, d)
          | Some a \<Rightarrow> do {
              fields \<leftarrow> dex_u32_at d (unat (a + 4));
              methods \<leftarrow> dex_u32_at d (unat (a + 8));
              params \<leftarrow> dex_u32_at d (unat (a + 12));
              let at = unat a + 16 + unat fields * 8;
              let (at, n) = (if table = 2 then (at + unat methods * 8, params) else (at, methods));
              if dex_len d < at + unat n * 8 then Some (0, d)
              else method_entry_loop (unat n) al d at 0 nm sig } })"

definition dex_method_annotations ::
    "alloc \<Rightarrow> dex_file \<Rightarrow> u32 \<Rightarrow> string option \<Rightarrow> string option \<Rightarrow> u32 list option \<Rightarrow>
     string option list option \<Rightarrow> int \<Rightarrow> (ann_out \<times> dex_file) option" where
  "dex_method_annotations al d class_def_idx name sig offs types max' = do {
     (set_off, d) \<leftarrow> dex_method_entry al d class_def_idx name sig 1;
     if set_off = 0 then Some ((0, offs, types), d)
     else dex_annotation_set_list al d set_off offs types max' }"

definition dex_method_annotation ::
    "alloc \<Rightarrow> dex_file \<Rightarrow> u32 \<Rightarrow> string option \<Rightarrow> string option \<Rightarrow> string \<Rightarrow> (u32 option \<times> dex_file) option" where
  "dex_method_annotation al d class_def_idx name sig desc = do {
     (set_off, d) \<leftarrow> dex_method_entry al d class_def_idx name sig 1;
     if set_off = 0 then Some (None, d)
     else dex_annotation_set_find al d set_off desc True }"

definition dex_parameter_annotation_lists ::
    "alloc \<Rightarrow> dex_file \<Rightarrow> u32 \<Rightarrow> string option \<Rightarrow> string option \<Rightarrow> (int \<times> dex_file) option" where
  "dex_parameter_annotation_lists al d class_def_idx name sig = do {
     (list_off, d) \<leftarrow> dex_method_entry al d class_def_idx name sig 2;
     if list_off = 0 \<or> dex_len d < unat list_off + 4 then Some (-1, d)
     else do { n \<leftarrow> dex_u32_at d (unat list_off); Some (sint n, d) } }"

definition dex_parameter_annotations ::
    "alloc \<Rightarrow> dex_file \<Rightarrow> u32 \<Rightarrow> string option \<Rightarrow> string option \<Rightarrow> int \<Rightarrow> u32 list option \<Rightarrow>
     string option list option \<Rightarrow> int \<Rightarrow> (ann_out \<times> dex_file) option" where
  "dex_parameter_annotations al d class_def_idx name sig param offs types max' = do {
     (list_off, d) \<leftarrow> dex_method_entry al d class_def_idx name sig 2;
     if list_off = 0 \<or> dex_len d < unat list_off + 4 \<or> param < 0 then Some ((0, offs, types), d)
     else do {
       size' \<leftarrow> dex_u32_at d (unat list_off);
       if int (unat size') \<le> param \<or> dex_len d < unat list_off + 4 + unat size' * 4 then
         Some ((0, offs, types), d)
       else do {
         set_off \<leftarrow> dex_u32_at d (unat (list_off + 4) + nat param * 4);
         dex_annotation_set_list al d set_off offs types max' } } }"

section \<open>Elements\<close>

definition dex_annotation_type :: "alloc \<Rightarrow> dex_file \<Rightarrow> u32 \<Rightarrow> (string option \<times> dex_file) option" where
  "dex_annotation_type al d encoded_off =
     (if dex_len d \<le> unat encoded_off then Some (None, d) else item_type al d (unat encoded_off))"

fun element_loop ::
    "nat \<Rightarrow> alloc \<Rightarrow> dex_file \<Rightarrow> nat \<Rightarrow> string \<Rightarrow> (dex_value option \<times> dex_file) option" where
  "element_loop 0 al d p name = Some (None, d)"
| "element_loop (Suc n) al d p name = do {
     (q, name_idx) \<leftarrow> dex_uleb d p;
     if q \<le> p \<or> dex_len d \<le> q then Some (None, d)
     else do {
       (next', value) \<leftarrow> dex_read_value d q;
       if next' \<le> q \<or> dex_len d < next' then Some (None, d)
       else do {
         (element_name, d) \<leftarrow> dex_string al d name_idx;
         if element_name = Some name then Some (Some value, d)
         else element_loop n al d next' name } } }"

definition dex_annotation_element ::
    "alloc \<Rightarrow> dex_file \<Rightarrow> u32 \<Rightarrow> string option \<Rightarrow> (dex_value option \<times> dex_file) option" where
  "dex_annotation_element al d encoded_off name =
     (case name of None \<Rightarrow> Some (None, d)
      | Some nm \<Rightarrow>
          if dex_len d \<le> unat encoded_off then Some (None, d)
          else do {
            (p, ignored) \<leftarrow> dex_uleb d (unat encoded_off);
            (q, count') \<leftarrow> dex_uleb d p;
            if p \<le> unat encoded_off \<or> q \<le> p \<or> dex_len d < q then Some (None, d)
            else element_loop (unat count') al d q nm })"

text \<open>\<open>dex_annotation_set_find\<close> without the visibility filter, in the class's own set.\<close>

definition class_set_find ::
    "alloc \<Rightarrow> dex_file \<Rightarrow> u32 \<Rightarrow> string \<Rightarrow> (u32 option \<times> dex_file) option" where
  "class_set_find al d class_def_idx desc = do {
     dir \<leftarrow> annotations_dir d class_def_idx;
     case dir of None \<Rightarrow> Some (None, d)
     | Some a \<Rightarrow> do {
         set_off \<leftarrow> dex_u32_at d (unat a);
         dex_annotation_set_find al d set_off desc False } }"

definition dex_annotation_default ::
    "alloc \<Rightarrow> dex_file \<Rightarrow> u32 \<Rightarrow> string option \<Rightarrow> (dex_value option \<times> dex_file) option" where
  "dex_annotation_default al d class_def_idx name = do {
     (a, d) \<leftarrow> class_set_find al d class_def_idx ''Ldalvik/annotation/AnnotationDefault;'';
     case a of None \<Rightarrow> Some (None, d)
     | Some annotation_default \<Rightarrow> do {
         (v, d) \<leftarrow> dex_annotation_element al d annotation_default (Some ''value'');
         case v of None \<Rightarrow> Some (None, d)
         | Some defaults \<Rightarrow>
             if val_type defaults \<noteq> DEX_VALUE_ANNOTATION \<or> 0xffffffff < val_bits defaults then Some (None, d)
             else dex_annotation_element al d (ucast (val_bits defaults)) name } }"

section \<open>Generic signatures\<close>

text \<open>\<open>memcpy(out + used, fragment, n); out[used + n] = 0;\<close> outside the buffer is a fault.\<close>

definition put_text :: "nat \<Rightarrow> string \<Rightarrow> string \<Rightarrow> string option" where
  "put_text out_sz buf frag = (if length buf + length frag + 1 \<le> out_sz then Some (buf @ frag) else None)"

definition value_zero :: dex_value where
  "value_zero = \<lparr>val_type = 0, val_bits = 0\<rparr>"

fun fragments_loop ::
    "dex_value list \<Rightarrow> alloc \<Rightarrow> dex_file \<Rightarrow> string \<Rightarrow> nat \<Rightarrow> (string option \<times> dex_file) option" where
  "fragments_loop [] al d buf out_sz = Some (Some buf, d)"
| "fragments_loop (f # fs) al d buf out_sz =
     (if val_type f \<noteq> DEX_VALUE_STRING \<or> 0xffffffff < val_bits f then Some (None, d)
      else do {
        (frag, d) \<leftarrow> dex_string al d (ucast (val_bits f));
        case frag of None \<Rightarrow> Some (None, d)
        | Some s \<Rightarrow>
            if out_sz - length buf \<le> length s then Some (None, d)
            else do {
              buf \<leftarrow> put_text out_sz buf s;
              fragments_loop fs al d buf out_sz } })"

definition dex_signature_text ::
    "alloc \<Rightarrow> dex_file \<Rightarrow> u32 \<Rightarrow> nat \<Rightarrow> (string option \<times> dex_file) option" where
  "dex_signature_text al d signature_off out_sz = do {
     (v, d) \<leftarrow> dex_annotation_element al d signature_off (Some ''value'');
     case v of None \<Rightarrow> Some (None, d)
     | Some value \<Rightarrow>
         if val_type value \<noteq> DEX_VALUE_ARRAY then Some (None, d)
         else do {
           (count', ignored) \<leftarrow> dex_value_array d value [] 0;
           if count' \<le> 0 then Some (None, d)
           else if \<not> al (nat count' * 16) then Some (None, d)
           else do {
             (count2, fragments) \<leftarrow> dex_value_array d value (replicate (nat count') value_zero) count';
             if count2 \<noteq> count' then Some (None, d)
             else do {
               (text, d) \<leftarrow> fragments_loop fragments al d [] out_sz;
               Some (if text = Some [] then None else text, d) } } } }"

definition dex_method_signature ::
    "alloc \<Rightarrow> dex_file \<Rightarrow> u32 \<Rightarrow> string option \<Rightarrow> string option \<Rightarrow> nat \<Rightarrow> (string option \<times> dex_file) option" where
  "dex_method_signature al d class_def_idx name sig out_sz =
     (if out_sz = 0 then Some (None, d)
      else do {
        (set_off, d) \<leftarrow> dex_method_entry al d class_def_idx name sig 1;
        if set_off = 0 then Some (None, d)
        else do {
          (so, d) \<leftarrow> dex_annotation_set_find al d set_off ''Ldalvik/annotation/Signature;'' False;
          case so of None \<Rightarrow> Some (None, d)
          | Some signature_off \<Rightarrow> dex_signature_text al d signature_off out_sz } })"

fun field_signature_loop ::
    "nat \<Rightarrow> alloc \<Rightarrow> dex_file \<Rightarrow> nat \<Rightarrow> u32 \<Rightarrow> string \<Rightarrow> (u32 option \<times> dex_file) option" where
  "field_signature_loop 0 al d table i field_name = Some (None, d)"
| "field_signature_loop (Suc n) al d table i field_name = do {
     field_idx \<leftarrow> dex_u32_at d (table + unat i * 8);
     fid \<leftarrow> dex_field_id d field_idx;
     case fid of None \<Rightarrow> field_signature_loop n al d table (i + 1) field_name
     | Some f \<Rightarrow> do {
         (name, d) \<leftarrow> dex_string al d (fid_name_idx f);
         if name \<noteq> Some field_name then field_signature_loop n al d table (i + 1) field_name
         else do {
           set_off \<leftarrow> dex_u32_at d (table + unat i * 8 + 4);
           dex_annotation_set_find al d set_off ''Ldalvik/annotation/Signature;'' False } } }"

definition dex_field_signature ::
    "alloc \<Rightarrow> dex_file \<Rightarrow> u32 \<Rightarrow> string option \<Rightarrow> nat \<Rightarrow> (string option \<times> dex_file) option" where
  "dex_field_signature al d class_def_idx field_name out_sz =
     (case field_name of None \<Rightarrow> Some (None, d)
      | Some name \<Rightarrow>
          if out_sz = 0 then Some (None, d)
          else do {
            dir \<leftarrow> annotations_dir d class_def_idx;
            case dir of None \<Rightarrow> Some (None, d)
            | Some a \<Rightarrow> do {
                fields \<leftarrow> dex_u32_at d (unat (a + 4));
                let table = unat a + 16;
                if dex_len d < table + unat fields * 8 then Some (None, d)
                else do {
                  (so, d) \<leftarrow> field_signature_loop (unat fields) al d table 0 name;
                  case so of None \<Rightarrow> Some (None, d)
                  | Some signature_off \<Rightarrow>
                      if signature_off = 0 then Some (None, d)
                      else dex_signature_text al d signature_off out_sz } } })"

text \<open>
  \<open>dex_class_signature\<close> decodes the fragments in place.  The inner loops answer \<open>None\<close> to go
  on with the next annotation, \<open>Some r\<close> to return.
\<close>

fun sig_fragments ::
    "nat \<Rightarrow> alloc \<Rightarrow> dex_file \<Rightarrow> nat \<Rightarrow> string \<Rightarrow> nat \<Rightarrow> (string option \<times> dex_file) option" where
  "sig_fragments 0 al d p buf out_sz = Some (if buf = [] then None else Some buf, d)"
| "sig_fragments (Suc n) al d p buf out_sz =
     (if dex_len d \<le> p then Some (None, d)
      else do {
        fh \<leftarrow> dex_byte d p;
        if value_type fh \<noteq> DEX_VALUE_STRING then Some (None, d)
        else do {
          r \<leftarrow> dex_value_index d (p + 1) fh;
          case r of None \<Rightarrow> Some (None, d)
          | Some (p, string_idx) \<Rightarrow> do {
              (frag, d) \<leftarrow> dex_string al d string_idx;
              case frag of None \<Rightarrow> Some (None, d)
              | Some s \<Rightarrow>
                  if out_sz - length buf \<le> length s then Some (None, d)
                  else do {
                    buf \<leftarrow> put_text out_sz buf s;
                    sig_fragments n al d p buf out_sz } } } })"

fun sig_elements ::
    "nat \<Rightarrow> alloc \<Rightarrow> dex_file \<Rightarrow> nat \<Rightarrow> string \<Rightarrow> nat \<Rightarrow> (string option option \<times> dex_file) option" where
  "sig_elements 0 al d p ann_type out_sz = Some (None, d)"
| "sig_elements (Suc n) al d p ann_type out_sz = do {
     (q, name_idx) \<leftarrow> dex_uleb d p;
     if q \<le> p \<or> dex_len d \<le> q then Some (Some None, d)
     else do {
       (name, d) \<leftarrow> dex_string al d name_idx;
       if ann_type \<noteq> ''Ldalvik/annotation/Signature;'' \<or> name \<noteq> Some ''value'' then do {
         r \<leftarrow> dex_skip_value d q;
         case r of None \<Rightarrow> Some (Some None, d)
         | Some p \<Rightarrow> sig_elements n al d p ann_type out_sz }
       else do {
         hdr \<leftarrow> dex_byte d q;
         if value_type hdr \<noteq> DEX_VALUE_ARRAY then Some (Some None, d)
         else do {
           (q', fragments) \<leftarrow> dex_uleb d (q + 1);
           if q' \<le> q + 1 \<or> dex_len d < q' then Some (Some None, d)
           else do {
             (r, d) \<leftarrow> sig_fragments (unat fragments) al d q' [] out_sz;
             Some (Some r, d) } } } } }"

fun class_signature_loop ::
    "nat \<Rightarrow> alloc \<Rightarrow> dex_file \<Rightarrow> u32 \<Rightarrow> u32 \<Rightarrow> nat \<Rightarrow> (string option \<times> dex_file) option" where
  "class_signature_loop 0 al d set_off ai out_sz = Some (None, d)"
| "class_signature_loop (Suc n) al d set_off ai out_sz = do {
     ann_off \<leftarrow> dex_u32_at d (unat (set_off + 4) + unat ai * 4);
     if ann_off = 0 \<or> dex_len d \<le> unat ann_off then class_signature_loop n al d set_off (ai + 1) out_sz
     else do {
       (p, type_idx) \<leftarrow> dex_uleb d (unat ann_off + 1);
       (p, elements) \<leftarrow> dex_uleb d p;
       (ann_type, d) \<leftarrow> dex_type al d type_idx;
       case ann_type of None \<Rightarrow> class_signature_loop n al d set_off (ai + 1) out_sz
       | Some ty \<Rightarrow> do {
           (r, d) \<leftarrow> sig_elements (unat elements) al d p ty out_sz;
           case r of Some text \<Rightarrow> Some (text, d)
           | None \<Rightarrow> class_signature_loop n al d set_off (ai + 1) out_sz } } }"

definition dex_class_signature ::
    "alloc \<Rightarrow> dex_file \<Rightarrow> u32 \<Rightarrow> nat \<Rightarrow> (string option \<times> dex_file) option" where
  "dex_class_signature al d class_def_idx out_sz =
     (if out_sz = 0 then Some (None, d)
      else do {
        dir \<leftarrow> annotations_dir d class_def_idx;
        case dir of None \<Rightarrow> Some (None, d)
        | Some a \<Rightarrow> do {
            set_off \<leftarrow> dex_u32_at d (unat a);
            if set_off = 0 \<or> dex_len d < unat set_off + 4 then Some (None, d)
            else do {
              count' \<leftarrow> dex_u32_at d (unat set_off);
              if dex_len d < unat set_off + 4 + unat count' * 4 then Some (None, d)
              else class_signature_loop (unat count') al d set_off 0 out_sz } } })"

section \<open>Inner classes\<close>

definition dex_class_inner_element ::
    "alloc \<Rightarrow> dex_file \<Rightarrow> u32 \<Rightarrow> string \<Rightarrow> (dex_value option \<times> dex_file) option" where
  "dex_class_inner_element al d class_def_idx element = do {
     (a, d) \<leftarrow> class_set_find al d class_def_idx ''Ldalvik/annotation/InnerClass;'';
     case a of None \<Rightarrow> Some (None, d)
     | Some annotation \<Rightarrow> dex_annotation_element al d annotation (Some element) }"

text \<open>\<open>Some (Some name, d)\<close> is \<open>true\<close> with \<open>*name = name\<close>; an anonymous class has \<open>NULL\<close>.\<close>

definition dex_class_inner_name ::
    "alloc \<Rightarrow> dex_file \<Rightarrow> u32 \<Rightarrow> (string option option \<times> dex_file) option" where
  "dex_class_inner_name al d class_def_idx = do {
     (v, d) \<leftarrow> dex_class_inner_element al d class_def_idx ''name'';
     case v of None \<Rightarrow> Some (None, d)
     | Some value \<Rightarrow>
         if val_type value = DEX_VALUE_NULL then Some (Some None, d)
         else if val_type value \<noteq> DEX_VALUE_STRING \<or> ucast (string_ids_size d) \<le> val_bits value then
           Some (None, d)
         else do {
           (text, d) \<leftarrow> dex_string al d (ucast (val_bits value));
           Some (case text of None \<Rightarrow> None | Some s \<Rightarrow> Some (Some s), d) } }"

definition dex_class_inner_flags ::
    "alloc \<Rightarrow> dex_file \<Rightarrow> u32 \<Rightarrow> (u32 option \<times> dex_file) option" where
  "dex_class_inner_flags al d class_def_idx = do {
     (v, d) \<leftarrow> dex_class_inner_element al d class_def_idx ''accessFlags'';
     case v of None \<Rightarrow> Some (None, d)
     | Some value \<Rightarrow>
         if val_type value \<noteq> DEX_VALUE_INT then Some (None, d)
         else Some (Some (ucast (val_bits value)), d) }"

fun member_types_loop ::
    "nat \<Rightarrow> alloc \<Rightarrow> dex_file \<Rightarrow> nat \<Rightarrow> u32 \<Rightarrow> string option list option \<Rightarrow> int \<Rightarrow>
     ((bool \<times> string option list option) \<times> dex_file) option" where
  "member_types_loop 0 al d p i types max' = Some ((True, types), d)"
| "member_types_loop (Suc n) al d p i types max' = do {
     (next', value) \<leftarrow> dex_read_value d p;
     if next' \<le> p \<or> dex_len d < next' \<or> val_type value \<noteq> DEX_VALUE_TYPE \<or>
        ucast (type_ids_size d) \<le> val_bits value then Some ((False, types), d)
     else do {
       (desc, d) \<leftarrow> dex_type al d (ucast (val_bits value));
       case desc of None \<Rightarrow> Some ((False, types), d)
       | Some s \<Rightarrow>
           if take 1 s \<noteq> ''L'' then Some ((False, types), d)
           else do {
             types \<leftarrow> (if sint i < max' then put_out types (unat i) (Some s) else Some types);
             member_types_loop n al d next' (i + 1) types max' } } }"

definition dex_class_member_types ::
    "alloc \<Rightarrow> dex_file \<Rightarrow> u32 \<Rightarrow> string option list option \<Rightarrow> int \<Rightarrow>
     ((int \<times> string option list option) \<times> dex_file) option" where
  "dex_class_member_types al d class_def_idx types max' = do {
     cd \<leftarrow> dex_class_def d class_def_idx;
     case cd of None \<Rightarrow> Some ((-1, types), d)
     | Some c \<Rightarrow>
         if cd_annotations_off c = 0 then Some ((0, types), d)
         else if dex_len d < unat (cd_annotations_off c) + 16 then Some ((-1, types), d)
         else do {
           set_off \<leftarrow> dex_u32_at d (unat (cd_annotations_off c));
           (a, d) \<leftarrow> dex_annotation_set_find al d set_off ''Ldalvik/annotation/MemberClasses;'' False;
           case a of None \<Rightarrow> Some ((0, types), d)
           | Some annotation \<Rightarrow> do {
               (v, d) \<leftarrow> dex_annotation_element al d annotation (Some ''value'');
               case v of None \<Rightarrow> Some ((-1, types), d)
               | Some array \<Rightarrow>
                   if val_type array \<noteq> DEX_VALUE_ARRAY \<or> dex_len d \<le> unat (val_bits array) then
                     Some ((-1, types), d)
                   else do {
                     (p, count') \<leftarrow> dex_uleb d (unat (val_bits array));
                     if p \<le> unat (val_bits array) \<or> dex_len d < p \<or> 2 ^ 31 - 1 < unat count' then
                       Some ((-1, types), d)
                     else do {
                       ((good, types), d) \<leftarrow> member_types_loop (unat count') al d p 0 types max';
                       Some ((if good then sint count' else -1, types), d) } } } } }"

text \<open>The result of the enclosing-type scan: the descriptor and whether the class is a member.\<close>

fun enclosing_elements ::
    "nat \<Rightarrow> alloc \<Rightarrow> dex_file \<Rightarrow> nat \<Rightarrow> bool \<Rightarrow> bool \<Rightarrow>
     ((string option \<times> bool) option \<times> dex_file) option" where
  "enclosing_elements 0 al d p in_class in_method = Some (None, d)"
| "enclosing_elements (Suc n) al d p in_class in_method = do {
     (q, name_idx) \<leftarrow> dex_uleb d p;
     if q \<le> p \<or> dex_len d \<le> q then Some (Some (None, False), d)
     else do {
       (name, d) \<leftarrow> dex_string al d name_idx;
       if (\<not> in_class \<and> \<not> in_method) \<or> name \<noteq> Some ''value'' then do {
         r \<leftarrow> dex_skip_value d q;
         case r of None \<Rightarrow> Some (Some (None, False), d)
         | Some p \<Rightarrow> enclosing_elements n al d p in_class in_method }
       else do {
         hdr \<leftarrow> dex_byte d q;
         r \<leftarrow> dex_value_index d (q + 1) hdr;
         case r of None \<Rightarrow> Some (Some (None, False), d)
         | Some (p, idx) \<Rightarrow>
             if in_class \<and> value_type hdr = DEX_VALUE_TYPE then do {
               (ty, d) \<leftarrow> dex_type al d idx;
               Some (Some (ty, True), d) }
             else if in_method \<and> value_type hdr = DEX_VALUE_METHOD then do {
               mid \<leftarrow> dex_method_id d idx;
               case mid of None \<Rightarrow> Some (Some (None, False), d)
               | Some m \<Rightarrow> do {
                   (ty, d) \<leftarrow> dex_type al d (ucast (mid_class_idx m));
                   Some (Some (ty, False), d) } }
             else Some (Some (None, False), d) } } }"

fun enclosing_loop ::
    "nat \<Rightarrow> alloc \<Rightarrow> dex_file \<Rightarrow> u32 \<Rightarrow> u32 \<Rightarrow> ((string option \<times> bool) \<times> dex_file) option" where
  "enclosing_loop 0 al d set_off ai = Some ((None, False), d)"
| "enclosing_loop (Suc n) al d set_off ai = do {
     ann_off \<leftarrow> dex_u32_at d (unat (set_off + 4) + unat ai * 4);
     if ann_off = 0 \<or> dex_len d \<le> unat ann_off then enclosing_loop n al d set_off (ai + 1)
     else do {
       (p, type_idx) \<leftarrow> dex_uleb d (unat ann_off + 1);
       (p, elements) \<leftarrow> dex_uleb d p;
       (ann_type, d) \<leftarrow> dex_type al d type_idx;
       (r, d) \<leftarrow> enclosing_elements (unat elements) al d p
          (ann_type = Some ''Ldalvik/annotation/EnclosingClass;'')
          (ann_type = Some ''Ldalvik/annotation/EnclosingMethod;'');
       case r of Some res \<Rightarrow> Some (res, d)
       | None \<Rightarrow> enclosing_loop n al d set_off (ai + 1) } }"

definition class_enclosing_type ::
    "alloc \<Rightarrow> dex_file \<Rightarrow> u32 \<Rightarrow> ((string option \<times> bool) \<times> dex_file) option" where
  "class_enclosing_type al d class_def_idx = do {
     dir \<leftarrow> annotations_dir d class_def_idx;
     case dir of None \<Rightarrow> Some ((None, False), d)
     | Some a \<Rightarrow> do {
         set_off \<leftarrow> dex_u32_at d (unat a);
         if set_off = 0 \<or> dex_len d < unat set_off + 4 then Some ((None, False), d)
         else do {
           count' \<leftarrow> dex_u32_at d (unat set_off);
           if dex_len d < unat set_off + 4 + unat count' * 4 then Some ((None, False), d)
           else enclosing_loop (unat count') al d set_off 0 } } }"

definition dex_class_enclosing_type :: "alloc \<Rightarrow> dex_file \<Rightarrow> u32 \<Rightarrow> (string option \<times> dex_file) option" where
  "dex_class_enclosing_type al d class_def_idx = do {
     ((ty, member), d) \<leftarrow> class_enclosing_type al d class_def_idx;
     Some (ty, d) }"

definition dex_class_is_member :: "alloc \<Rightarrow> dex_file \<Rightarrow> u32 \<Rightarrow> (bool \<times> dex_file) option" where
  "dex_class_is_member al d class_def_idx = do {
     ((ty, member), d) \<leftarrow> class_enclosing_type al d class_def_idx;
     Some (member, d) }"

definition dex_class_enclosing_method ::
    "alloc \<Rightarrow> dex_file \<Rightarrow> u32 \<Rightarrow> (u32 option \<times> dex_file) option" where
  "dex_class_enclosing_method al d class_def_idx = do {
     (a, d) \<leftarrow> class_set_find al d class_def_idx ''Ldalvik/annotation/EnclosingMethod;'';
     case a of None \<Rightarrow> Some (None, d)
     | Some annotation \<Rightarrow>
         if annotation = 0 then Some (None, d)
         else do {
           vis \<leftarrow> dex_byte d (unat (annotation - 1));
           if vis \<noteq> 2 then Some (None, d)
           else do {
             (v, d) \<leftarrow> dex_annotation_element al d annotation (Some ''value'');
             case v of None \<Rightarrow> Some (None, d)
             | Some value \<Rightarrow>
                 if val_type value \<noteq> DEX_VALUE_METHOD \<or> ucast (method_ids_size d) \<le> val_bits value then
                   Some (None, d)
                 else Some (Some (ucast (val_bits value)), d) } } }"

section \<open>Rules for the queries\<close>

text \<open>
  Each query is a chain of reads and of cache-filling look-ups.  The rules below take one
  link each: they hand on that the view is mapped, satisfies the invariant and has the
  length it had.
\<close>

lemma dok_call:
  assumes "dok al d m P"
    and "\<And>r d'. P r \<Longrightarrow> dex_inv al d' \<Longrightarrow> dex_mapped d' \<Longrightarrow> same_image d d' \<Longrightarrow> dex_len d' = dex_len d \<Longrightarrow>
      dok al d' (f (r, d')) Q"
  shows "dok al d (m \<bind> f) Q"
  using assms(1)
  by (rule dok_bind) (use assms(2) in \<open>simp add: same_image_fields dex_inv_mapped\<close>)

lemma dok_uleb:
  assumes "dex_mapped d" and "off \<le> dex_len d"
    and "\<And>q v. off \<le> q \<Longrightarrow> q \<le> dex_len d \<Longrightarrow> dok al d (f (q, v)) Q"
  shows "dok al d (dex_uleb d off \<bind> f) Q"
  using uleb.dec_inside [OF assms(1,2)] by (rule dok_read) (auto intro: assms(3))

text \<open>
  Reading a value returns unless the image has an over-wide \<open>float\<close> there, so the queries that
  read values are followed on images without one (\<open>narrow_floats\<close>).
\<close>

lemma dok_value:
  assumes "dex_mapped d" and "narrow_floats d" and "off \<le> dex_len d"
    and "\<And>q v. off \<le> q \<Longrightarrow> q \<le> dex_len d \<Longrightarrow> dok al d (f (q, v)) Q"
  shows "dok al d (dex_read_value d off \<bind> f) Q"
proof -
  obtain q v where qv: "dex_read_value d off = Some (q, v)" using narrow_returns [OF assms(1,2)] by blast
  with val.dec_moves [OF assms(1) qv] assms(3,4) show ?thesis by simp
qed

lemma dok_call_narrow:
  assumes "narrow_floats d" and "dex_mapped d" and "dok al d m P"
    and "\<And>r d'. P r \<Longrightarrow> dex_inv al d' \<Longrightarrow> dex_mapped d' \<Longrightarrow> same_image d d' \<Longrightarrow> dex_len d' = dex_len d \<Longrightarrow>
      narrow_floats d' \<Longrightarrow> dok al d' (f (r, d')) Q"
  shows "dok al d (m \<bind> f) Q"
  using assms(3) by (rule dok_call) (rule assms(4); simp add: narrow_same [OF assms(2) _ assms(1)])

lemma dok_skip:
  assumes "dex_mapped d" and "dok al d (f None) Q"
    and "\<And>q. p < q \<Longrightarrow> q \<le> dex_len d \<Longrightarrow> dok al d (f (Some q)) Q"
  shows "dok al d (dex_skip_value d p \<bind> f) Q"
  using dex_skip_value_ok [OF assms(1)] by (rule dok_read) (auto intro: assms(2,3))

lemma dex_value_index_ok:
  assumes "dex_mapped d"
  shows "ok (dex_value_index d p hdr) (\<lambda>r. r = None \<or> (\<exists>q v. r = Some (q, v) \<and> q \<le> dex_len d))"
proof (cases "4 < value_size hdr \<or> dex_len d < p \<or> dex_len d - p < value_size hdr")
  case True
  then show ?thesis by (simp add: dex_value_index_def)
next
  case False
  then have "p + 0 + value_size hdr \<le> dex_len d" by arith
  from le_bytes_ok [OF assms this, of "0 :: u32"] False show ?thesis
    by (auto simp: dex_value_index_def Let_def)
qed

lemma dok_index:
  assumes "dex_mapped d" and "dok al d (f None) Q"
    and "\<And>q v. q \<le> dex_len d \<Longrightarrow> dok al d (f (Some (q, v))) Q"
  shows "dok al d (dex_value_index d p hdr \<bind> f) Q"
  using dex_value_index_ok [OF assms(1)] by (rule dok_read) (auto intro: assms(2,3))

lemma id_reads_ok:
  assumes "dex_mapped d"
  shows "ok (dex_class_def d i) (\<lambda>_. True)" "ok (dex_method_id d i) (\<lambda>_. True)" "ok (dex_field_id d i) (\<lambda>_. True)"
  using assms by (simp_all add: dex_class_def_def dex_method_id_def dex_field_id_def Let_def)

lemmas dok_id = id_reads_ok [THEN dok_read]

lemma annotations_dir_ok:
  "dex_mapped d \<Longrightarrow> ok (annotations_dir d i) (\<lambda>r. r = None \<or> (\<exists>a. r = Some a \<and> unat a + 16 \<le> dex_len d))"
  by (auto simp: annotations_dir_def intro!: ok_bind [OF id_reads_ok(1)] split: option.split)

lemma dok_dir:
  assumes "dex_mapped d" and "dok al d (f None) Q"
    and "\<And>a. unat a + 16 \<le> dex_len d \<Longrightarrow> dok al d (f (Some a)) Q"
  shows "dok al d (annotations_dir d i \<bind> f) Q"
  using annotations_dir_ok [OF assms(1)] by (rule dok_read) (auto intro: assms(2,3))

lemmas dok_string = dok_call [OF dex_string_dok] and dok_type = dok_call [OF dex_type_dok]

lemmas dok_rules = dok_uleb dok_skip dok_index dok_id dok_dir dok_string dok_type dok_ret

lemmas narrow_call = dok_call_narrow [OF _ _ dex_string_dok] dok_call_narrow [OF _ _ dex_type_dok]

lemmas narrow_rules = dok_uleb dok_value dok_skip dok_index dok_id dok_dir narrow_call dok_ret

section \<open>Annotation sets: the first match\<close>

definition item_at :: "dex_file \<Rightarrow> u32 \<Rightarrow> nat \<Rightarrow> u32" where
  "item_at d set_off i = rd32 d (unat (set_off + 4) + i * 4)"

definition item_inside :: "dex_file \<Rightarrow> u32 \<Rightarrow> bool" where
  "item_inside d io \<longleftrightarrow> io \<noteq> 0 \<and> unat io + 2 \<le> dex_len d"

definition item_visible :: "dex_file \<Rightarrow> u32 \<Rightarrow> bool" where
  "item_visible d io \<longleftrightarrow> dex_p d ! unat io = 1"

definition item_desc :: "alloc \<Rightarrow> dex_file \<Rightarrow> nat \<Rightarrow> string option" where
  "item_desc al d p = (case dex_uleb d p of None \<Rightarrow> None
     | Some (q, ti) \<Rightarrow> if p < q then type_res al d ti else None)"

lemma item_same:
  assumes "same_image d d'"
  shows "item_at d' = item_at d" "item_inside d' = item_inside d" "item_visible d' = item_visible d"
    "item_desc al d' = item_desc al d"
  using assms by (auto simp: fun_eq_iff item_at_def item_inside_def item_visible_def item_desc_def
      same_image_simps [OF assms] type_res_same [OF assms] cong: if_cong split: option.splits)

lemma item_type_dok:
  assumes "dex_inv al d" and "p \<le> dex_len d"
  shows "dok al d (item_type al d p) (\<lambda>r. r = item_desc al d p)"
proof -
  have m: "dex_mapped d" using assms(1) by (rule dex_inv_mapped)
  obtain q v where "dex_uleb d p = Some (q, v)" using uleb.dec_returns [OF m] by blast
  with assms dex_type_dok [OF assms(1), of v] show ?thesis
    by (auto simp: item_type_def item_desc_def intro: dok_ret)
qed

definition item_matches :: "alloc \<Rightarrow> dex_file \<Rightarrow> u32 \<Rightarrow> string \<Rightarrow> bool \<Rightarrow> nat \<Rightarrow> bool" where
  "item_matches al d set_off desc runtime_only i \<longleftrightarrow>
     (let io = item_at d set_off i in item_inside d io \<and>
        (if runtime_only then item_visible d io else True) \<and> item_desc al d (unat io + 1) = Some desc)"

definition find_item :: "alloc \<Rightarrow> dex_file \<Rightarrow> u32 \<Rightarrow> string \<Rightarrow> bool \<Rightarrow> nat list \<Rightarrow> u32 option" where
  "find_item al d set_off desc ro is =
     map_option (\<lambda>i. item_at d set_off i + 1) (find (item_matches al d set_off desc ro) is)"

lemma find_item_Cons:
  "find_item al d set_off desc ro (i # is) =
     (if item_matches al d set_off desc ro i then Some (item_at d set_off i + 1)
      else find_item al d set_off desc ro is)"
  by (simp add: find_item_def)

lemma find_item_same: "same_image d d' \<Longrightarrow> find_item al d' = find_item al d"
  by (simp add: fun_eq_iff find_item_def item_matches_def [abs_def] item_same [of d d'])

lemma set_find_loop_dok:
  "dex_inv al d \<Longrightarrow> i + n < 2 ^ 32 \<Longrightarrow>
   dok al d (set_find_loop n al d set_off (of_nat i) desc ro) (\<lambda>r. r = find_item al d set_off desc ro [i..<i + n])"
proof (induction n arbitrary: d i)
  case 0
  then show ?case by (auto simp: find_item_def intro: dok_ret)
next
  case (Suc n)
  note inv = Suc.prems(1)
  have m: "dex_mapped d" using inv by (rule dex_inv_mapped)
  let ?io = "item_at d set_off i"
  have ui: "unat (of_nat i :: u32) = i" using Suc.prems(2) by (intro unat_of_nat_small) simp
  have rest: "dok al d1 (set_find_loop n al d1 set_off (of_nat i + 1) desc ro)
      (\<lambda>r. r = find_item al d set_off desc ro [Suc i..<Suc i + n])" if "dex_inv al d1" "same_image d d1" for d1
    using Suc.IH [OF that(1), of "Suc i"] Suc.prems(2)
    by (simp add: find_item_same [OF that(2)] add.commute del: upt_Suc)
  have here: "dok al d (item_type al d (unat ?io + 1) \<bind> (\<lambda>(type, d).
        if type = Some desc then Some (Some (of_nat (unat ?io + 1)), d)
        else set_find_loop n al d set_off (of_nat i + 1) desc ro))
      (\<lambda>r. r = (if item_desc al d (unat ?io + 1) = Some desc then Some (?io + 1)
         else find_item al d set_off desc ro [Suc i..<Suc i + n]))" if "item_inside d ?io"
    using that inv
    by (intro dok_bind [OF item_type_dok]) (auto simp: item_inside_def intro: dok_ret rest simp del: upt_Suc add_Suc)
  have vis: "dex_byte d (unat ?io) = Some (dex_p d ! unat ?io)" if "item_inside d ?io"
    using that m by (simp add: item_inside_def)
  have cond: "(?io = 0 \<or> dex_len d < unat ?io + 2) = (\<not> item_inside d ?io)"
    by (auto simp: item_inside_def)
  show ?case
    unfolding upt_step find_item_Cons item_matches_def Let_def set_find_loop.simps
      dex_u32_at_eq [OF m] ui item_at_def [symmetric] Option.bind.simps cond
    using here rest [OF inv same_image_refl] vis by (auto simp: item_visible_def simp del: upt_Suc)
qed

text \<open>The specification of the search in a set.\<close>

definition set_count :: "dex_file \<Rightarrow> u32 \<Rightarrow> nat" where
  "set_count d set_off =
     (let n = unat (rd32 d (unat set_off)) in
      if set_off = 0 \<or> dex_len d < unat set_off + 4 \<or> dex_len d < unat set_off + 4 + n * 4 then 0 else n)"

definition set_find_res :: "alloc \<Rightarrow> dex_file \<Rightarrow> u32 \<Rightarrow> string \<Rightarrow> bool \<Rightarrow> u32 option" where
  "set_find_res al d set_off desc ro = find_item al d set_off desc ro [0..<set_count d set_off]"

lemma set_find_dok:
  assumes "dex_inv al d"
  shows "dok al d (dex_annotation_set_find al d set_off desc ro) (\<lambda>r. r = set_find_res al d set_off desc ro)"
proof -
  have m: "dex_mapped d" using assms by (rule dex_inv_mapped)
  let ?n = "unat (rd32 d (unat set_off))"
  have "?n < 2 ^ LENGTH(32)" by (rule unsigned_less)
  then have "dok al d (set_find_loop ?n al d set_off 0 desc ro) (\<lambda>r. r = find_item al d set_off desc ro [0..<?n])"
    using set_find_loop_dok [OF assms, of 0 ?n] by simp
  with assms m show ?thesis
    by (auto simp: dex_annotation_set_find_def set_find_res_def set_count_def find_item_def intro: dok_ret)
qed

lemma set_find_res_inside:
  "set_find_res al d set_off desc ro = Some off \<Longrightarrow> unat (off - 1) + 2 \<le> dex_len d"
  by (auto simp: set_find_res_def find_item_def find_Some_iff item_matches_def Let_def item_inside_def)

lemmas dok_set_find = dok_call [OF set_find_dok]

section \<open>Annotation sets: the listing\<close>

text \<open>The runtime-visible annotations of a set, in order: element offset and descriptor.\<close>

definition set_item :: "alloc \<Rightarrow> dex_file \<Rightarrow> u32 \<Rightarrow> nat \<Rightarrow> (u32 \<times> string) list" where
  "set_item al d set_off i =
     (let io = item_at d set_off i in
      if item_inside d io \<and> item_visible d io
      then (case item_desc al d (unat io + 1) of None \<Rightarrow> [] | Some t \<Rightarrow> [(io + 1, t)]) else [])"

definition set_items :: "alloc \<Rightarrow> dex_file \<Rightarrow> u32 \<Rightarrow> (u32 \<times> string) list" where
  "set_items al d set_off = concat (map (set_item al d set_off) [0..<set_count d set_off])"

lemma set_item_same: "same_image d d' \<Longrightarrow> set_item al d' = set_item al d"
  by (simp add: fun_eq_iff set_item_def item_same [of d d'] cong: if_cong)

text \<open>Storing a list of values from position \<open>n\<close> on, as far as the array reaches.\<close>

fun store_from :: "'a list option \<Rightarrow> nat \<Rightarrow> 'a list \<Rightarrow> 'a list option" where
  "store_from xs n [] = xs"
| "store_from xs n (v # vs) = store_from (map_option (\<lambda>ys. ys[n := v]) xs) (Suc n) vs"

definition list_result :: "ann_out \<Rightarrow> (u32 \<times> string) list \<Rightarrow> ann_out" where
  "list_result acc es = (case acc of (n, offs, types) \<Rightarrow>
     (n + length es, store_from offs n (map fst es), store_from types n (map (Some \<circ> snd) es)))"

lemma list_result_Nil [simp]: "list_result acc [] = acc"
  by (simp add: list_result_def split: prod.split)

lemma list_result_Cons:
  "list_result (n, offs, types) ((o', t) # es) =
     list_result (Suc n, map_option (\<lambda>ys. ys[n := o']) offs, map_option (\<lambda>ys. ys[n := Some t]) types) es"
  by (simp add: list_result_def)

definition arrays_fit :: "ann_out \<Rightarrow> nat \<Rightarrow> bool" where
  "arrays_fit acc max' = (case acc of (n, offs, types) \<Rightarrow>
     (\<forall>xs. offs = Some xs \<longrightarrow> length xs = max') \<and> (\<forall>xs. types = Some xs \<longrightarrow> length xs = max'))"

lemma put_out_fit:
  "(\<forall>ys. xs = Some ys \<longrightarrow> length ys = max') \<Longrightarrow> n < max' \<Longrightarrow> put_out xs n v = Some (map_option (\<lambda>ys. ys[n := v]) xs)"
  by (cases xs) (auto simp: put_out_def)

lemma map_option_update_id:
  "(\<forall>ys. xs = Some ys \<longrightarrow> length ys = max') \<Longrightarrow> max' \<le> n \<Longrightarrow> map_option (\<lambda>ys. ys[n := v]) xs = xs"
  by (cases xs) (auto simp: list_update_beyond)

lemma set_list_loop_dok:
  "dex_inv al d \<Longrightarrow> i + n < 2 ^ 32 \<Longrightarrow> arrays_fit acc max' \<Longrightarrow>
   dok al d (set_list_loop n al d set_off (of_nat i) acc (int max'))
     (\<lambda>r. r = list_result acc (concat (map (set_item al d set_off) [i..<i + n])))"
proof (induction n arbitrary: d i acc)
  case 0
  then show ?case by (auto intro: dok_ret)
next
  case (Suc n)
  note inv = Suc.prems(1)
  have m: "dex_mapped d" using inv by (rule dex_inv_mapped)
  let ?io = "item_at d set_off i" and ?es = "concat (map (set_item al d set_off) [Suc i..<Suc i + n])"
  obtain k offs types where acc: "acc = (k, offs, types)" by (cases acc)
  have ui: "unat (of_nat i :: u32) = i" using Suc.prems(2) by (intro unat_of_nat_small) simp
  have rest: "dok al d1 (set_list_loop n al d1 set_off (of_nat i + 1) acc' (int max')) (\<lambda>r. r = list_result acc' ?es)"
    if "dex_inv al d1" "same_image d d1" "arrays_fit acc' max'" for d1 acc'
    using Suc.IH [OF that(1), of "Suc i" acc'] Suc.prems(2) that(3)
    by (simp add: set_item_same [OF that(2)] add.commute del: upt_Suc)
  let ?next = "\<lambda>t. (Suc k, map_option (\<lambda>ys. ys[k := ?io + 1]) offs, map_option (\<lambda>ys. ys[k := Some t]) types)"
  have fit: "\<forall>ys. offs = Some ys \<longrightarrow> length ys = max'" "\<forall>ys. types = Some ys \<longrightarrow> length ys = max'"
    using Suc.prems(3) by (simp_all add: acc arrays_fit_def)
  have next_fit: "arrays_fit (?next t) max'" for t using fit by (auto simp: arrays_fit_def)
  have step: "(if int k < int max' then put_out offs k (of_nat (unat ?io + 1)) \<bind> (\<lambda>offs.
        put_out types k (Some t) \<bind> (\<lambda>types. set_list_loop n al d1 set_off (of_nat i + 1) (k + 1, offs, types) (int max')))
      else set_list_loop n al d1 set_off (of_nat i + 1) (k + 1, offs, types) (int max')) =
      set_list_loop n al d1 set_off (of_nat i + 1) (?next t) (int max')" for t d1
    using put_out_fit [OF fit(1)] put_out_fit [OF fit(2)] map_option_update_id [OF fit(1)] map_option_update_id [OF fit(2)]
    by (simp add: not_less add.commute)
  have here: "dok al d (item_type al d (unat ?io + 1) \<bind> (\<lambda>(type, d). case type of
        None \<Rightarrow> set_list_loop n al d set_off (of_nat i + 1) acc (int max')
      | Some t \<Rightarrow> set_list_loop n al d set_off (of_nat i + 1) (?next t) (int max')))
      (\<lambda>r. r = (case item_desc al d (unat ?io + 1) of None \<Rightarrow> list_result acc ?es
         | Some t \<Rightarrow> list_result acc ((?io + 1, t) # ?es)))" if "item_inside d ?io"
    using that inv Suc.prems(3)
    by (intro dok_bind [OF item_type_dok])
      (auto simp: item_inside_def acc list_result_Cons intro!: rest [unfolded acc] next_fit
        simp del: upt_Suc add_Suc split: option.split)
  have vis: "dex_byte d (unat ?io) = Some (dex_p d ! unat ?io)" if "item_inside d ?io"
    using that m by (simp add: item_inside_def)
  have cond: "(?io = 0 \<or> dex_len d < unat ?io + 2) = (\<not> item_inside d ?io)"
    by (auto simp: item_inside_def)
  show ?case
    unfolding upt_step set_list_loop.simps dex_u32_at_eq [OF m] ui item_at_def [symmetric] Option.bind.simps
      cond acc Let_def prod.case step
    using here [unfolded acc] rest [OF inv same_image_refl Suc.prems(3)] vis
    by (auto simp: item_visible_def [of d ?io] set_item_def [of al d set_off i] acc Let_def
        simp del: upt_Suc add_Suc split: option.splits)
qed

lemma set_list_dok:
  assumes "dex_inv al d" and "arrays_fit (0, offs, types) max'"
  shows "dok al d (dex_annotation_set_list al d set_off offs types (int max'))
    (\<lambda>r. r = list_result (0, offs, types) (set_items al d set_off))"
proof -
  have m: "dex_mapped d" using assms(1) by (rule dex_inv_mapped)
  let ?n = "unat (rd32 d (unat set_off))"
  have "?n < 2 ^ LENGTH(32)" by (rule unsigned_less)
  then have "dok al d (set_list_loop ?n al d set_off 0 (0, offs, types) (int max'))
      (\<lambda>r. r = list_result (0, offs, types) (concat (map (set_item al d set_off) [0..<?n])))"
    using set_list_loop_dok [OF assms(1), of 0 ?n "(0, offs, types)" max' set_off] assms(2) by simp
  with assms(1) m show ?thesis
    by (auto simp: dex_annotation_set_list_def set_items_def set_count_def intro: dok_ret)
qed

section \<open>The remaining queries never fault\<close>

lemma proto_alloc_safe:
  assumes "dex_inv al d"
  shows "dok al d (dex_proto_signature_alloc al d i) (\<lambda>_. True)"
proof -
  have par: "dok al d (dex_proto_params al d i (replicate 256 None) 256) (\<lambda>_. True)"
    using dex_proto_params_dok [OF assms, of "replicate 256 None" i] by (auto elim!: dok_mono)
  have ret: "dok al d1 (dex_proto_return al d1 i) (\<lambda>_. True)" if "dex_inv al d1" for d1
    using dex_proto_return_dok [OF that] by (rule dok_mono) simp
  have sig: "dok al d1 (dex_proto_signature al d1 i n) (\<lambda>_. True)" if "dex_inv al d1" for d1 n
    using dex_proto_signature_dok [OF that] by (rule dok_mono) simp
  show ?thesis
    unfolding dex_proto_signature_alloc_def
    by (auto intro!: dok_bind [OF par] dok_bind [OF ret] sig dok_ret split: option.split)
qed

lemmas dok_alloc = dok_call [OF proto_alloc_safe]

lemma method_is_safe: "dex_inv al d \<Longrightarrow> dok al d (dex_method_is al d i name sig) (\<lambda>_. True)"
  using dex_inv_mapped [of al d]
  by (auto simp: dex_method_is_def intro!: dok_rules dok_alloc split: option.split)

lemmas dok_method_is = dok_call [OF method_is_safe]

lemma method_entry_loop_safe:
  "dex_inv al d \<Longrightarrow> dok al d (method_entry_loop n al d at i name sig) (\<lambda>_. True)"
proof (induction n arbitrary: d i)
  case (Suc n)
  with dex_inv_mapped [of al d] show ?case
    by (auto intro!: dok_rules dok_method_is)
qed (simp add: dok_ret)

lemma method_entry_safe: "dex_inv al d \<Longrightarrow> dok al d (dex_method_entry al d c name sig k) (\<lambda>_. True)"
  using dex_inv_mapped [of al d]
  by (auto simp: dex_method_entry_def Let_def intro!: dok_rules method_entry_loop_safe split: option.split)

lemmas dok_method_entry = dok_call [OF method_entry_safe]

lemma field_entry_loop_safe:
  "dex_inv al d \<Longrightarrow> dok al d (field_entry_loop n al d table i name) (\<lambda>_. True)"
proof (induction n arbitrary: d i)
  case (Suc n)
  with dex_inv_mapped [of al d] show ?case
    by (auto intro!: dok_rules split: option.split)
qed (simp add: dok_ret)

lemma field_entry_safe: "dex_inv al d \<Longrightarrow> dok al d (dex_field_entry al d c name) (\<lambda>_. True)"
  using dex_inv_mapped [of al d]
  by (auto simp: dex_field_entry_def Let_def intro!: dok_rules field_entry_loop_safe split: option.split)

lemmas dok_field_entry = dok_call [OF field_entry_safe]

lemma element_loop_safe:
  "dex_inv al d \<Longrightarrow> narrow_floats d \<Longrightarrow> p \<le> dex_len d \<Longrightarrow> dok al d (element_loop n al d p name) (\<lambda>_. True)"
proof (induction n arbitrary: d p)
  case (Suc n)
  with dex_inv_mapped [of al d] show ?case
    by (auto intro!: narrow_rules)
qed (simp add: dok_ret)

lemma element_safe:
  "dex_inv al d \<Longrightarrow> narrow_floats d \<Longrightarrow> dok al d (dex_annotation_element al d off name) (\<lambda>_. True)"
  using dex_inv_mapped [of al d]
  by (auto simp: dex_annotation_element_def intro!: dok_rules element_loop_safe split: option.split)

lemmas dok_element = dok_call_narrow [OF _ _ element_safe]

lemma class_set_find_dok:
  "dex_inv al d \<Longrightarrow> dok al d (class_set_find al d c desc) (\<lambda>r. \<forall>a. r = Some a \<longrightarrow> unat (a - 1) < dex_len d)"
  using dex_inv_mapped [of al d]
  by (auto simp: class_set_find_def intro!: dok_rules dok_mono [OF set_find_dok] dest!: set_find_res_inside
      split: option.split)

lemmas dok_class_set = dok_call_narrow [OF _ _ class_set_find_dok]

lemma put_text_room: "\<not> out_sz - length buf \<le> length s \<Longrightarrow> put_text out_sz buf s = Some (buf @ s)"
  by (simp add: put_text_def)

text \<open>A concatenation of fragments never passes the end of the caller's buffer.\<close>

lemma fragments_loop_safe:
  "dex_inv al d \<Longrightarrow> length buf < out_sz \<Longrightarrow>
   dok al d (fragments_loop fs al d buf out_sz) (\<lambda>r. \<forall>s. r = Some s \<longrightarrow> length s < out_sz)"
proof (induction fs arbitrary: d buf)
  case (Cons f fs)
  with dex_inv_mapped [of al d] show ?case
    by (auto intro!: dok_rules simp: put_text_room split: option.split)
qed (simp add: dok_ret)

lemma signature_text_safe:
  assumes inv: "dex_inv al d" "narrow_floats d" and sz: "0 < out_sz" and len: "dex_len d < 2 ^ 31"
  shows "dok al d (dex_signature_text al d off out_sz) (\<lambda>r. \<forall>s. r = Some s \<longrightarrow> length s < out_sz)"
proof -
  have count: "ok (dex_value_array d1 v [] 0) (\<lambda>_. True)" if "dex_mapped d1" "dex_len d1 < 2 ^ 31" "narrow_floats d1" for d1 v
    using dex_value_array_ok [OF that, of v "[]"] by (auto elim!: ok_mono)
  have frags: "ok (dex_value_array d1 v (replicate (nat c) value_zero) c) (\<lambda>_. True)"
    if "dex_mapped d1" "dex_len d1 < 2 ^ 31" "narrow_floats d1" "\<not> c \<le> 0" for d1 v c
    using dex_value_array_ok [OF that(1-3), of v "replicate (nat c) value_zero"] that(4) by (auto elim!: ok_mono)
  show ?thesis
    unfolding dex_signature_text_def
    using assms dex_inv_mapped [OF inv(1)]
    by (auto intro!: dok_element dok_rules dok_read [OF count] dok_read [OF frags]
        dok_call [OF fragments_loop_safe] split: option.split if_splits)
qed

lemma method_signature_safe:
  "dex_inv al d \<Longrightarrow> narrow_floats d \<Longrightarrow> dex_len d < 2 ^ 31 \<Longrightarrow>
   dok al d (dex_method_signature al d c name sig out_sz) (\<lambda>r. \<forall>s. r = Some s \<longrightarrow> length s < out_sz)"
  using dex_inv_mapped [of al d]
  by (auto simp: dex_method_signature_def intro!: dok_call_narrow [OF _ _ method_entry_safe]
      dok_call_narrow [OF _ _ set_find_dok] dok_ret signature_text_safe split: option.split)

lemma field_signature_loop_safe:
  "dex_inv al d \<Longrightarrow> dok al d (field_signature_loop n al d table i name) (\<lambda>_. True)"
proof (induction n arbitrary: d i)
  case (Suc n)
  with dex_inv_mapped [of al d] show ?case
    by (auto intro!: dok_rules dok_mono [OF set_find_dok] split: option.split)
qed (simp add: dok_ret)

lemma field_signature_safe:
  "dex_inv al d \<Longrightarrow> narrow_floats d \<Longrightarrow> dex_len d < 2 ^ 31 \<Longrightarrow>
   dok al d (dex_field_signature al d c name out_sz) (\<lambda>r. \<forall>s. r = Some s \<longrightarrow> length s < out_sz)"
  using dex_inv_mapped [of al d]
  by (auto simp: dex_field_signature_def Let_def intro!: narrow_rules dok_call_narrow [OF _ _ field_signature_loop_safe]
      signature_text_safe split: option.split)

lemma sig_fragments_safe:
  "dex_inv al d \<Longrightarrow> length buf < out_sz \<Longrightarrow>
   dok al d (sig_fragments n al d p buf out_sz) (\<lambda>r. \<forall>s. r = Some s \<longrightarrow> length s < out_sz)"
proof (induction n arbitrary: d p buf)
  case (Suc n)
  with dex_inv_mapped [of al d] show ?case
    by (auto intro!: dok_rules simp: put_text_room split: option.split)
qed (simp add: dok_ret)

lemma sig_elements_safe:
  "dex_inv al d \<Longrightarrow> p \<le> dex_len d \<Longrightarrow> 0 < out_sz \<Longrightarrow>
   dok al d (sig_elements n al d p ty out_sz) (\<lambda>r. \<forall>s. r = Some (Some s) \<longrightarrow> length s < out_sz)"
proof (induction n arbitrary: d p)
  case (Suc n)
  with dex_inv_mapped [of al d] show ?case
    by (auto intro!: dok_rules dok_call [OF sig_fragments_safe] split: option.split)
qed (simp add: dok_ret)

lemma class_signature_loop_safe:
  "dex_inv al d \<Longrightarrow> 0 < out_sz \<Longrightarrow>
   dok al d (class_signature_loop n al d so ai out_sz) (\<lambda>r. \<forall>s. r = Some s \<longrightarrow> length s < out_sz)"
proof (induction n arbitrary: d ai)
  case (Suc n)
  with dex_inv_mapped [of al d] show ?case
    by (auto intro!: dok_rules dok_call [OF sig_elements_safe] split: option.split)
qed (simp add: dok_ret)

lemma class_signature_safe:
  "dex_inv al d \<Longrightarrow> dok al d (dex_class_signature al d c out_sz) (\<lambda>r. \<forall>s. r = Some s \<longrightarrow> length s < out_sz)"
  using dex_inv_mapped [of al d]
  by (auto simp: dex_class_signature_def intro!: dok_rules class_signature_loop_safe split: option.split)

lemma inner_element_safe:
  "dex_inv al d \<Longrightarrow> narrow_floats d \<Longrightarrow> dok al d (dex_class_inner_element al d c e) (\<lambda>_. True)"
  using dex_inv_mapped [of al d]
  by (auto simp: dex_class_inner_element_def intro!: dok_class_set dok_ret element_safe split: option.split)

lemmas dok_inner = dok_call_narrow [OF _ _ inner_element_safe]

lemma inner_name_safe:
  "dex_inv al d \<Longrightarrow> narrow_floats d \<Longrightarrow> dok al d (dex_class_inner_name al d c) (\<lambda>_. True)"
  using dex_inv_mapped [of al d]
  by (auto simp: dex_class_inner_name_def intro!: dok_inner dok_rules split: option.split)

lemma inner_flags_safe:
  "dex_inv al d \<Longrightarrow> narrow_floats d \<Longrightarrow> dok al d (dex_class_inner_flags al d c) (\<lambda>_. True)"
  using dex_inv_mapped [of al d]
  by (auto simp: dex_class_inner_flags_def intro!: dok_inner dok_rules split: option.split)

lemma annotation_default_safe:
  "dex_inv al d \<Longrightarrow> narrow_floats d \<Longrightarrow> dok al d (dex_annotation_default al d c name) (\<lambda>_. True)"
  using dex_inv_mapped [of al d]
  by (auto simp: dex_annotation_default_def intro!: dok_class_set dok_element dok_ret element_safe split: option.split)

lemma member_types_loop_safe:
  "dex_inv al d \<Longrightarrow> p \<le> dex_len d \<Longrightarrow> unat i + n < 2 ^ 31 \<Longrightarrow> (\<forall>xs. types = Some xs \<longrightarrow> length xs = max') \<Longrightarrow>
   narrow_floats d \<Longrightarrow> dok al d (member_types_loop n al d p i types (int max')) (\<lambda>_. True)"
proof (induction n arbitrary: d p i types)
  case (Suc n)
  have s: "sint i = int (unat i)" using Suc.prems(3) by (intro sint_small) simp
  have si: "unat (i + 1) = Suc (unat i)" using Suc.prems(3) by (intro unat_succ) simp
  have less: "sint i < int max' \<longleftrightarrow> unat i < max'" unfolding s by (rule of_nat_less_iff)
  have rest: "dok al d1 (member_types_loop n al d1 q (i + 1) ys (int max')) (\<lambda>_. True)"
    if "dex_inv al d1" "q \<le> dex_len d1" "\<forall>xs. ys = Some xs \<longrightarrow> length xs = max'" "narrow_floats d1" for d1 q ys
    using Suc.IH [OF that(1,2), of "i + 1" ys] Suc.prems(3) si that(3,4) by simp
  have put: "dok al d1 (put_out types (unat i) (Some v) \<bind>
      (\<lambda>types. member_types_loop n al d1 q (i + 1) types (int max'))) (\<lambda>_. True)"
    if "dex_inv al d1" "q \<le> dex_len d1" "sint i < int max'" "narrow_floats d1" for d1 q v
    using put_out_fit [OF Suc.prems(4), of "unat i" "Some v"] that Suc.prems(4)
    by (auto simp: less intro!: rest)
  show ?case
    using Suc.prems(1,2,5) dex_inv_mapped [of al d]
    by (auto intro!: narrow_rules rest put simp: Suc.prems(4) split: option.split)
qed (simp add: dok_ret)

lemma member_types_safe:
  assumes "dex_inv al d" and "\<forall>xs. types = Some xs \<longrightarrow> length xs = max'" and "narrow_floats d"
  shows "dok al d (dex_class_member_types al d c types (int max')) (\<lambda>_. True)"
  using assms dex_inv_mapped [OF assms(1)]
  by (auto simp: dex_class_member_types_def intro!: narrow_rules dok_call_narrow [OF _ _ set_find_dok] dok_element
      dok_call_narrow [OF _ _ member_types_loop_safe] split: option.split)

lemma enclosing_elements_safe:
  "dex_inv al d \<Longrightarrow> p \<le> dex_len d \<Longrightarrow> dok al d (enclosing_elements n al d p ic im) (\<lambda>_. True)"
proof (induction n arbitrary: d p)
  case (Suc n)
  with dex_inv_mapped [of al d] show ?case
    by (auto intro!: dok_rules split: option.split)
qed (simp add: dok_ret)

lemma enclosing_loop_safe: "dex_inv al d \<Longrightarrow> dok al d (enclosing_loop n al d so ai) (\<lambda>_. True)"
proof (induction n arbitrary: d ai)
  case (Suc n)
  with dex_inv_mapped [of al d] show ?case
    by (auto intro!: dok_rules dok_call [OF enclosing_elements_safe] split: option.split)
qed (simp add: dok_ret)

lemma enclosing_type_safe: "dex_inv al d \<Longrightarrow> dok al d (class_enclosing_type al d c) (\<lambda>_. True)"
  using dex_inv_mapped [of al d]
  by (auto simp: class_enclosing_type_def intro!: dok_rules enclosing_loop_safe split: option.split)

lemma enclosing_method_safe:
  "dex_inv al d \<Longrightarrow> narrow_floats d \<Longrightarrow> dok al d (dex_class_enclosing_method al d c) (\<lambda>_. True)"
  using dex_inv_mapped [of al d]
  by (auto simp: dex_class_enclosing_method_def intro!: dok_class_set dok_element dok_ret split: option.split)

lemma class_annotation_safe:
  "dex_inv al d \<Longrightarrow> dok al d (dex_class_annotation al d c desc) (\<lambda>_. True)"
  using dex_inv_mapped [of al d]
  by (auto simp: dex_class_annotation_def intro!: dok_rules dok_mono [OF set_find_dok] split: option.split)

lemma field_annotation_safe:
  "dex_inv al d \<Longrightarrow> dok al d (dex_field_annotation al d c name desc) (\<lambda>_. True)"
  by (auto simp: dex_field_annotation_def intro!: dok_field_entry dok_ret dok_mono [OF set_find_dok])

lemma method_annotation_safe:
  "dex_inv al d \<Longrightarrow> dok al d (dex_method_annotation al d c name sig desc) (\<lambda>_. True)"
  by (auto simp: dex_method_annotation_def intro!: dok_method_entry dok_ret dok_mono [OF set_find_dok])

lemma field_annotations_safe:
  "dex_inv al d \<Longrightarrow> arrays_fit (0, offs, types) max' \<Longrightarrow>
   dok al d (dex_field_annotations al d c name offs types (int max')) (\<lambda>_. True)"
  by (auto simp: dex_field_annotations_def intro!: dok_field_entry dok_ret dok_mono [OF set_list_dok])

lemma method_annotations_safe:
  "dex_inv al d \<Longrightarrow> arrays_fit (0, offs, types) max' \<Longrightarrow>
   dok al d (dex_method_annotations al d c name sig offs types (int max')) (\<lambda>_. True)"
  by (auto simp: dex_method_annotations_def intro!: dok_method_entry dok_ret dok_mono [OF set_list_dok])

lemma parameter_annotations_safe:
  "dex_inv al d \<Longrightarrow> arrays_fit (0, offs, types) max' \<Longrightarrow>
   dok al d (dex_parameter_annotations al d c name sig k offs types (int max')) (\<lambda>_. True)"
  by (auto simp: dex_parameter_annotations_def intro!: dok_method_entry dok_ret dok_mono [OF set_list_dok])

lemma parameter_lists_safe:
  "dex_inv al d \<Longrightarrow> dok al d (dex_parameter_annotation_lists al d c name sig) (\<lambda>_. True)"
  by (auto simp: dex_parameter_annotation_lists_def intro!: dok_method_entry dok_ret)

lemma class_annotations_dok:
  assumes "dex_inv al d" and "arrays_fit (0, offs, types) max'"
  shows "dok al d (dex_class_annotations al d c offs types (int max')) (\<lambda>_. True)"
proof -
  have loop: "dok al d (set_list_loop (unat n) al d so 0 (0, offs, types) (int max')) (\<lambda>_. True)" for n :: u32 and so
    using set_list_loop_dok [OF assms(1), of 0 "unat n" "(0, offs, types)" max' so] assms(2) unsigned_less [of n, where 'a = nat]
    by (auto elim!: dok_mono)
  show ?thesis
    using assms(1) dex_inv_mapped [OF assms(1)]
    by (auto simp: dex_class_annotations_def intro!: dok_rules loop split: option.split)
qed

end
