(* ===== verification/Dex_Theorems.thy ===== *)
theory Dex_Theorems
  imports Dex_Sample Dex_Annotation
begin

text \<open>
  What the DEX reader guarantees its callers, with an application of each conditional
  statement to the sample image.
\<close>

section \<open>The container\<close>

text \<open>
  C1. \<open>dex_open_memory\<close> is total on every byte sequence, however malformed: it never reads
  outside the mapping, and either it fails and leaves a cleared view, or the view satisfies
  the representation invariant, keeps the bytes, and every id pool lies inside the mapping.
\<close>

theorem dex_open_memory_safe:
  "\<exists>good d. dex_open_memory al data path = Some (good, d) \<and>
     (if good then dex_inv al d \<and> pools_ok d \<and> dex_p d = data else d = dex_zero)"
proof -
  from dex_open_memory_ok [of al data path] obtain x where x: "dex_open_memory al data path = Some x"
    "case x of (good, d) \<Rightarrow> if good then dex_inv al d \<and> dex_p d = data \<and> pools_ok d else d = dex_zero"
    by (rule okE)
  obtain good d where "x = (good, d)" by (cases x)
  with x show ?thesis by (intro exI [of _ good] exI [of _ d]) simp
qed

text \<open>
  C2. The string pool's cache is transparent: on every view that satisfies the invariant and
  for every index, \<open>dex_string\<close> ends without a fault, returns what the bytes of the image
  denote, and keeps the invariant and the image.
\<close>

theorem dex_string_refines:
  assumes "dex_inv al d"
  shows "\<exists>d'. dex_string al d idx = Some (string_res al d idx, d') \<and> dex_inv al d' \<and> same_image d d'"
  using dex_string_dok [OF assms, of idx] by (auto elim!: dokE)

theorem dex_string_refines_witness:
  "\<exists>d'. dex_string all_mem sample_dex 7 = Some (string_res all_mem sample_dex 7, d') \<and>
     dex_inv all_mem d' \<and> same_image sample_dex d'"
  by (rule dex_string_refines [OF sample_inv(1)])



section \<open>LEB128\<close>

text \<open>
  C4. \<open>dex_uleb\<close> inverts the unsigned LEB128 encoding: over the encoding of any 32-bit value
  at any offset of the mapping it returns that value and the offset behind the encoding.
\<close>

theorem dex_uleb_roundtrip:
  assumes "dex_mapped d" and "has_bytes d off (uleb_bytes v)"
  shows "dex_uleb d off = Some (off + length (uleb_bytes v), v)"
  using assms by (rule dex_uleb_bytes)

theorem dex_uleb_roundtrip_witness:
  "dex_uleb sample_dex 411 = Some (411 + length (uleb_bytes 0x10001), 0x10001)"
  by (rule dex_uleb_roundtrip [OF sample_mapped]) code_simp

text \<open>
  \<open>dex_sleb\<close> inverts the signed LEB128 encoding from \<open>- 2 ^ 27\<close> up to the greatest \<open>int32_t\<close>;
  the result read as a signed word is the encoded integer.  Below \<open>- 2 ^ 27\<close> the encoding has
  five bytes and the shift of the last one (dex.c:41) leaves the range of \<open>int32_t\<close>.
\<close>

theorem dex_sleb_roundtrip:
  assumes "dex_mapped d" and "has_bytes d off (sleb_bytes v)" and "- (2 ^ 27) \<le> v" and "v < 2 ^ 31"
  shows "\<exists>w. dex_sleb d off = Some (off + length (sleb_bytes v), w) \<and> sint w = v"
  using dex_sleb_bytes [OF assms] by blast

definition sleb_sample :: dex_file where
  "sleb_sample = dex_zero\<lparr>dex_p := [0x80, 0x7f], dex_len := 2\<rparr>"

theorem dex_sleb_roundtrip_witness:
  "\<exists>w. dex_sleb sleb_sample 0 = Some (0 + length (sleb_bytes (-128)), w) \<and> sint w = -128"
proof (rule dex_sleb_roundtrip)
  show "dex_mapped sleb_sample" by (simp add: sleb_sample_def dex_mapped_def)
  show "has_bytes sleb_sample 0 (sleb_bytes (-128))" by code_simp
qed simp_all

section \<open>Prototypes\<close>

text \<open>
  C5. \<open>dex_proto_signature\<close> never writes past the caller's buffer (a store behind its
  \<open>buf_sz\<close> bytes is a fault of the model, and no run faults) and never truncates: it yields the method descriptor exactly when the prototype denotes one and the descriptor with
  its terminator fits, and keeps the invariant and the image.
\<close>

theorem dex_proto_signature_bounded:
  assumes "dex_inv al d"
  shows "\<exists>d'. dex_proto_signature al d i buf_sz =
      Some (case signature_res al d i of None \<Rightarrow> None
        | Some s \<Rightarrow> if length s + 1 \<le> buf_sz then Some s else None, d') \<and>
    dex_inv al d' \<and> same_image d d'"
proof -
  from dex_proto_signature_dok [OF assms, of i buf_sz] obtain r d' where
    r: "dex_proto_signature al d i buf_sz = Some (r, d')" "dex_inv al d'" "same_image d d'"
      "\<forall>s. r = Some s \<longrightarrow> signature_res al d i = Some s \<and> length s + 1 \<le> buf_sz"
      "\<forall>s. signature_res al d i = Some s \<longrightarrow> length s + 1 \<le> buf_sz \<longrightarrow> r = Some s"
    by (rule dokE) blast
  have "r = (case signature_res al d i of None \<Rightarrow> None
        | Some s \<Rightarrow> if length s + 1 \<le> buf_sz then Some s else None)"
    using r(4,5) by (cases r; cases "signature_res al d i") simp_all
  with r(1-3) show ?thesis by blast
qed

theorem dex_proto_signature_bounded_witness:
  "\<exists>d'. dex_proto_signature all_mem sample_dex 0 5 =
      Some (case signature_res all_mem sample_dex 0 of None \<Rightarrow> None
        | Some s \<Rightarrow> if length s + 1 \<le> 5 then Some s else None, d') \<and>
    dex_inv all_mem d' \<and> same_image sample_dex d'"
  by (rule dex_proto_signature_bounded [OF sample_inv(1)])

text \<open>
  The two-pass \<open>dex_proto_signature_alloc\<close> sizes its buffer exactly: when memory is
  available, the second pass never fails for lack of room, so the result is the descriptor
  of the prototype whenever it has one.
\<close>

theorem dex_proto_signature_alloc_exact:
  assumes "dex_inv al d" and "\<forall>n. al n" and "dex_len d < 2 ^ 32"
  shows "map_option fst (dex_proto_signature_alloc al d i) = Some (signature_res al d i)"
  using dex_proto_signature_alloc_dok [OF assms, of i] by (auto elim!: dokE)

theorem dex_proto_signature_alloc_exact_witness:
  "map_option fst (dex_proto_signature_alloc all_mem sample_dex 0) = Some (Some ''(I)V'')"
proof -
  have "signature_res all_mem sample_dex 0 = Some ''(I)V''" by code_simp
  with dex_proto_signature_alloc_exact [OF sample_inv(1) all_mem_all, of 0] show ?thesis
    by (simp add: sample_len)
qed

section \<open>Classes\<close>

text \<open>
  C6. \<open>dex_find_class\<close> answers like a scan of the class definitions for the first one with
  that descriptor, whether the hash index already exists, is built by this call or could not
  be allocated; it always ends, never leaves the table, and keeps the invariants.
\<close>

theorem dex_find_class_scan:
  assumes "dex_inv al d" and "cls_ok al d" and "pools_ok d" and "dex_len d < 2 ^ 32"
  shows "\<exists>d'. dex_find_class al d (Some desc) = Some (find_class_res al d desc, d') \<and>
    dex_inv al d' \<and> cls_ok al d'"
proof -
  have "unat (class_defs_size d) * 32 \<le> dex_len d \<or> class_defs_size d = 0"
    using assms(3) by (auto simp: pools_ok_def pool_fits_def)
  then have "unat (class_defs_size d) \<le> 2 ^ 30" using assms(4) by auto
  from dex_find_class_ok [OF assms(1,2) this, of desc] show ?thesis by (auto elim!: okE)
qed

theorem dex_find_class_scan_witness:
  "\<exists>d'. dex_find_class all_mem sample_dex (Some ''LB;'') = Some (1, d') \<and>
    dex_inv all_mem d' \<and> cls_ok all_mem d'"
proof -
  have "find_class_res all_mem sample_dex ''LB;'' = 1" by code_simp
  with dex_find_class_scan [OF sample_inv(1) sample_cls_ok sample_inv(3), of "''LB;''"] show ?thesis
    by (simp add: sample_len)
qed

text \<open>
  C7. \<open>dex_class_data\<close> recovers every encoded class: over the encoding of four member lists,
  with their indices stored as differences, it returns exactly those lists.
\<close>

theorem dex_class_data_roundtrip:
  assumes "dex_mapped d" and "off \<noteq> 0" and "has_bytes d (unat off) (class_data_bytes cd)"
    and "counts_fit cd" and "\<forall>n. al n"
  shows "dex_class_data al d off = Some (True, cd)"
  using assms by (rule dex_class_data_bytes)

definition sample_class :: dex_class_data where
  "sample_class = \<lparr>static_fields = [\<lparr>ef_field_idx = 0, ef_access_flags = 9\<rparr>], instance_fields = [],
     direct_methods = [\<lparr>em_method_idx = 0, em_access_flags = 0x10001, em_code_off = 368\<rparr>],
     virtual_methods = []\<rparr>"

theorem dex_class_data_roundtrip_witness:
  "dex_class_data all_mem sample_dex 404 = Some (True, sample_class)"
  by (rule dex_class_data_roundtrip [OF sample_mapped])
    (simp, code_simp, simp add: counts_fit_def sample_class_def, rule all_mem_all)

text \<open>
  \<open>dex_class_data\<close> is total on every mapping: at any offset, whatever the bytes, it ends
  without a fault, and the members it allocates for are at most half as many as the mapping
  has bytes; on failure the result is cleared.
\<close>

theorem dex_class_data_safe:
  assumes "dex_mapped d"
  shows "\<exists>good cd. dex_class_data al d off = Some (good, cd) \<and>
    (if good then 2 * member_count cd \<le> dex_len d else cd = class_data_zero)"
proof -
  from dex_class_data_ok [OF assms, of al off] obtain x where
    x: "dex_class_data al d off = Some x"
      "case x of (good, cd) \<Rightarrow> if good then 2 * member_count cd \<le> dex_len d else cd = class_data_zero"
    by (rule okE)
  obtain good cd where "x = (good, cd)" by (cases x)
  with x show ?thesis by (intro exI [of _ good] exI [of _ cd]) simp
qed

theorem dex_class_data_safe_witness:
  "\<exists>good cd. dex_class_data all_mem sample_dex 5 = Some (good, cd) \<and>
    (if good then 2 * member_count cd \<le> dex_len sample_dex else cd = class_data_zero)"
  by (rule dex_class_data_safe [OF sample_mapped])

text \<open>
  A code item that \<open>dex_code\<close> accepts has its instructions, and its try and handler
  tables when it keeps them, inside the mapping; the decoder itself never faults.
\<close>

theorem dex_code_inside:
  assumes "dex_mapped d"
  shows "\<exists>good c. dex_code d off = Some (good, c) \<and> (if good then code_inside d c else True)"
proof -
  from dex_code_ok [OF assms, of off] obtain x where x: "dex_code d off = Some x"
      "case x of (good, c) \<Rightarrow> good \<longrightarrow> code_inside d c"
    by (rule okE)
  obtain good c where "x = (good, c)" by (cases x)
  with x show ?thesis by (intro exI [of _ good] exI [of _ c]) simp
qed

theorem dex_code_inside_witness:
  "\<exists>good c. dex_code sample_dex 368 = Some (good, c) \<and> (if good then code_inside sample_dex c else True)"
  by (rule dex_code_inside [OF sample_mapped])

section \<open>Encoded values\<close>



text \<open>
  An integer encoded in as few bytes as its type allows is read back with its sign: over
  the \<open>n\<close>-byte encoding of any value that fits \<open>n\<close> bytes, \<open>dex_read_value\<close> yields the
  sign-extended 64-bit value and the offset behind it.
\<close>

theorem dex_read_value_int_roundtrip:
  assumes "dex_mapped d" and "int_type type" and "1 \<le> n" and "n \<le> 8"
    and "- (2 ^ (8 * n - 1)) \<le> v" and "v < 2 ^ (8 * n - 1)" and "has_bytes d p (int_value_bytes type n v)"
  shows "dex_read_value d p = Some (p + 1 + n, \<lparr>val_type = type, val_bits = word_of_int v\<rparr>)"
  using assms by (rule dex_read_value_int)

theorem dex_read_value_int_roundtrip_witness:
  "dex_read_value sample_dex 417 = Some (417 + 1 + 1, \<lparr>val_type = DEX_VALUE_INT, val_bits = word_of_int (-7)\<rparr>)"
proof (rule dex_read_value_int_roundtrip [OF sample_mapped])
  show "has_bytes sample_dex 417 (int_value_bytes DEX_VALUE_INT 1 (-7))" by code_simp
qed (simp_all add: int_type_def)

text \<open>
  C9. \<open>dex_static_values\<close> fills the caller's array with the first values of the encoded array
  as long as the stored count is at most \<open>2 ^ 31\<close> and every value has a defined decoding (no
  \<open>float\<close> of more than four bytes, see the previous claim).  A larger count, which five bytes of a
  malformed image can state, makes the unsigned counter negative in the bounds test and the
  decoder write outside the array.
\<close>

theorem dex_static_values_exact:
  assumes "dex_mapped d" and "off \<noteq> 0" and "unat off < dex_len d" and "dex_uleb d (unat off) = Some (p, n)"
    and "length out < 2 ^ 31"
  shows "dex_static_values d off out (int (length out)) =
    (if unat n \<le> 2 ^ 31 \<and> (\<forall>i<unat n. \<not> wide_value d (value_start d p i))
     then Some (sint n, fill out 0 (unat n) (value_nth d p)) else None)"
proof (cases "unat n \<le> 2 ^ 31")
  case True
  show ?thesis
  proof (cases "\<forall>i<unat n. \<not> wide_value d (value_start d p i)")
    case narrow: True
    with True assms static_values_loop_ok [OF assms(1,5), of 0 "unat n" p] show ?thesis
      by (simp add: dex_static_values_def)
  next
    case False
    then obtain i where "i < unat n" "wide_value d (value_start d p i)" by blast
    with assms static_values_loop_wide [OF assms(1) this] False show ?thesis
      by (simp add: dex_static_values_def)
  qed
next
  case False
  with assms static_values_loop_fault [OF assms(1,5), of 0 "unat n" p] show ?thesis
    by (simp add: dex_static_values_def)
qed

theorem dex_static_values_exact_witness:
  "dex_static_values sample_dex 416 [value_zero, value_zero] (int (length [value_zero, value_zero])) =
    Some (1, fill [value_zero, value_zero] 0 1 (value_nth sample_dex 417))"
proof -
  have "dex_read_value sample_dex 417 \<noteq> None" by code_simp
  then have narrow: "\<forall>i<unat (1 :: u32). \<not> wide_value sample_dex (value_start sample_dex 417 i)"
    using dex_read_value_undefined [OF sample_mapped] by simp
  have "dex_uleb sample_dex (unat (416 :: u32)) = Some (417, 1)" by code_simp
  from dex_static_values_exact [OF sample_mapped _ _ this, of "[value_zero, value_zero]"] narrow show ?thesis
    by (simp add: sample_len)
qed

section \<open>Annotations\<close>

text \<open>
  \<open>dex_annotation_set_find\<close> returns the first annotation of a set whose type has the
  asked descriptor (and, when asked, runtime visibility), and \<open>false\<close> exactly when there is
  none or the set does not lie inside the mapping.
\<close>

theorem dex_annotation_set_find_first:
  assumes "dex_inv al d"
  shows "\<exists>d'. dex_annotation_set_find al d set_off desc runtime_only =
      Some (set_find_res al d set_off desc runtime_only, d') \<and> dex_inv al d' \<and> same_image d d'"
  using set_find_dok [OF assms, of set_off desc runtime_only] by (rule dokE) blast

theorem dex_annotation_set_find_first_witness:
  "\<exists>d'. dex_annotation_set_find all_mem sample_dex 436 ''LB;'' True = Some (Some 420, d') \<and>
     dex_inv all_mem d' \<and> same_image sample_dex d'"
proof -
  have "set_find_res all_mem sample_dex 436 ''LB;'' True = Some 420" by code_simp
  with dex_annotation_set_find_first [OF sample_inv(1), of 436 "''LB;''" True] show ?thesis by simp
qed

text \<open>
  \<open>dex_annotation_set_list\<close> counts every runtime-visible annotation of the set and stores
  the first ones, in order, in the caller's arrays, of which either may be absent; it never
  writes beyond them.
\<close>

theorem dex_annotation_set_list_exact:
  assumes "dex_inv al d" and "arrays_fit (0, offs, types) max'"
  shows "\<exists>d'. dex_annotation_set_list al d set_off offs types (int max') =
      Some (list_result (0, offs, types) (set_items al d set_off), d') \<and> dex_inv al d' \<and> same_image d d'"
  using set_list_dok [OF assms, of set_off] by (rule dokE) blast

theorem dex_annotation_set_list_exact_witness:
  "\<exists>d'. dex_annotation_set_list all_mem sample_dex 436 (Some [0]) None (int 1) =
      Some (list_result (0, Some [0], None) (set_items all_mem sample_dex 436), d') \<and>
    dex_inv all_mem d' \<and> same_image sample_dex d'"
  by (rule dex_annotation_set_list_exact [OF sample_inv(1)]) (simp add: arrays_fit_def)

definition fits_in :: "nat \<Rightarrow> string option \<Rightarrow> bool" where
  "fits_in sz r = (case r of None \<Rightarrow> True | Some s \<Rightarrow> length s < sz)"

text \<open>
  The three generic-signature queries never write past the caller's buffer: they end without a
  fault, and a signature they return fits with its terminator.  The class query skips values;
  the other two read them, and may also meet an over-wide \<open>float\<close>.
\<close>

lemma fits_in_run:
  "dok al d m (\<lambda>r. \<forall>s. r = Some s \<longrightarrow> length s < out_sz) \<Longrightarrow>
   \<exists>r d'. m = Some (r, d') \<and> fits_in out_sz r \<and> dex_inv al d'"
  by (erule dokE) (auto simp: fits_in_def split: option.split)

theorem dex_class_signature_bounded:
  assumes "dex_inv al d"
  shows "\<exists>r d'. dex_class_signature al d c out_sz = Some (r, d') \<and> fits_in out_sz r \<and> dex_inv al d'"
  by (rule fits_in_run [OF class_signature_safe [OF assms]])

theorem dex_member_signatures_bounded:
  assumes "dex_inv al d" and "narrow_floats d" and "dex_len d < 2 ^ 31"
  shows "(\<exists>r d'. dex_method_signature al d c name sig out_sz = Some (r, d') \<and> fits_in out_sz r \<and> dex_inv al d') \<and>
    (\<exists>r d'. dex_field_signature al d c name out_sz = Some (r, d') \<and> fits_in out_sz r \<and> dex_inv al d')"
  using fits_in_run [OF method_signature_safe [OF assms]] fits_in_run [OF field_signature_safe [OF assms]] by blast

definition returns_safely :: "alloc \<Rightarrow> ('a \<times> dex_file) option \<Rightarrow> bool" where
  "returns_safely al m = (case m of None \<Rightarrow> False | Some (r, d') \<Rightarrow> dex_inv al d')"

lemma dok_returns: "dok al d m Q \<Longrightarrow> returns_safely al m"
  by (erule dokE) (simp add: returns_safely_def)

text \<open>
  The annotation and inner-class queries: on every view that satisfies the invariant, whatever
  bytes the image holds, those that skip values end without a fault and leave a view that
  satisfies the invariant; those that read values do so on an image without over-wide floats.
\<close>

theorem dex_annotation_queries_safe:
  assumes "dex_inv al d"
  shows "returns_safely al (dex_class_annotation al d c desc) \<and>
    returns_safely al (dex_field_annotation al d c name desc) \<and>
    returns_safely al (dex_method_annotation al d c name sig desc) \<and>
    returns_safely al (dex_parameter_annotation_lists al d c name sig) \<and>
    returns_safely al (class_enclosing_type al d c)"
  by (simp add: class_annotation_safe [OF assms, THEN dok_returns]
      field_annotation_safe [OF assms, THEN dok_returns]
      method_annotation_safe [OF assms, THEN dok_returns]
      parameter_lists_safe [OF assms, THEN dok_returns]
      enclosing_type_safe [OF assms, THEN dok_returns])

theorem dex_value_queries_safe:
  assumes "dex_inv al d" and "narrow_floats d"
  shows "returns_safely al (dex_annotation_element al d off name) \<and>
    returns_safely al (dex_annotation_default al d c name) \<and>
    returns_safely al (dex_class_inner_name al d c) \<and>
    returns_safely al (dex_class_inner_flags al d c) \<and>
    returns_safely al (dex_class_enclosing_method al d c)"
  by (simp add: element_safe [OF assms, THEN dok_returns]
      annotation_default_safe [OF assms, THEN dok_returns]
      inner_name_safe [OF assms, THEN dok_returns]
      inner_flags_safe [OF assms, THEN dok_returns]
      enclosing_method_safe [OF assms, THEN dok_returns])

end
