(* ===== verification/Dvm_Descriptor.thy ===== *)
theory Dvm_Descriptor
  imports Lunaria_Prelude
begin

text \<open>
  Type descriptors and method signatures of the VM (\<open>src/src/dvm/dvm.c\<close>, section
  "Descriptors" and "Argument marshalling").  A \<open>const char *\<close> into a descriptor is the
  string from that position on; \<open>NULL\<close> is \<open>None\<close>.
\<close>

section \<open>Walking a descriptor\<close>

definition prim_kinds :: string where
  "prim_kinds = ''ZBCSIJFDV''"

definition dvm__kind_of :: "string option \<Rightarrow> char" where
  "dvm__kind_of desc = (case desc of None \<Rightarrow> CHR ''V'' | Some [] \<Rightarrow> CHR ''V''
     | Some (c # cs) \<Rightarrow> if c \<in> set prim_kinds then c else CHR ''L'')"

definition dvm__slots_of :: "char \<Rightarrow> nat" where
  "dvm__slots_of kind =
     (if kind = CHR ''J'' \<or> kind = CHR ''D'' then 2 else if kind = CHR ''V'' then 0 else 1)"

definition past_semi :: "string \<Rightarrow> string" where
  "past_semi p = (case dropWhile (\<lambda>c. c \<noteq> CHR '';'') p of [] \<Rightarrow> [] | semi # rest \<Rightarrow> rest)"

definition desc_base :: "string \<Rightarrow> string" where
  "desc_base p = (case p of [] \<Rightarrow> [] | c # cs \<Rightarrow> if c = CHR ''L'' then past_semi p else cs)"

definition desc_skip :: "string \<Rightarrow> string" where
  "desc_skip p = desc_base (dropWhile (\<lambda>c. c = CHR ''['') p)"

text \<open>Every step moves to a suffix; one that moves at all gets shorter.\<close>

lemma dropWhile_suffix: "\<exists>ys. xs = ys @ dropWhile P xs"
  by (metis takeWhile_dropWhile_id)

lemma past_semi_suffix: "\<exists>ys. p = ys @ past_semi p"
proof -
  obtain ys where ys: "p = ys @ dropWhile (\<lambda>c. c \<noteq> CHR '';'') p" using dropWhile_suffix by blast
  show ?thesis
  proof (cases "dropWhile (\<lambda>c. c \<noteq> CHR '';'') p")
    case Nil
    have "past_semi p = []" unfolding past_semi_def Nil by simp
    then show ?thesis by simp
  next
    case (Cons s rest)
    with ys have "p = (ys @ [s]) @ past_semi p" by (simp add: past_semi_def)
    then show ?thesis by blast
  qed
qed

lemma desc_base_suffix: "\<exists>ys. p = ys @ desc_base p"
proof (cases p)
  case Nil
  then show ?thesis by (simp add: desc_base_def)
next
  case (Cons c cs)
  then show ?thesis using past_semi_suffix [of p] by (auto simp: desc_base_def)
qed

lemma desc_skip_suffix: "\<exists>ys. p = ys @ desc_skip p"
proof -
  obtain ys where ys: "p = ys @ dropWhile (\<lambda>c. c = CHR ''['') p" using dropWhile_suffix by blast
  obtain zs where "dropWhile (\<lambda>c. c = CHR ''['') p = zs @ desc_skip p"
    unfolding desc_skip_def using desc_base_suffix by blast
  with ys have "p = (ys @ zs) @ desc_skip p" by simp
  then show ?thesis by blast
qed

lemma desc_skip_less: "desc_skip p \<noteq> p \<Longrightarrow> length (desc_skip p) < length p"
proof -
  assume ne: "desc_skip p \<noteq> p"
  obtain ys where ys: "p = ys @ desc_skip p" using desc_skip_suffix by blast
  with ne have "ys \<noteq> []" by (metis append_Nil)
  moreover have "length p = length ys + length (desc_skip p)" by (subst ys) simp
  ultimately show ?thesis by simp
qed

section \<open>Signatures\<close>

text \<open>
  The loops over the parameters of a signature; a position that does not advance makes the
  two counting functions answer \<open>-1\<close>.
\<close>

function arg_slots_loop :: "string \<Rightarrow> int \<Rightarrow> int" where
  "arg_slots_loop p n =
     (if p = [] \<or> hd p = CHR '')'' then n
      else if desc_skip p = p then -1
      else arg_slots_loop (desc_skip p) (n + int (dvm__slots_of (dvm__kind_of (Some p)))))"
  by pat_completeness auto
termination by (relation "measure (length \<circ> fst)") (auto simp: desc_skip_less)

declare arg_slots_loop.simps [simp del]

definition dvm_sig_arg_slots :: "string option \<Rightarrow> int" where
  "dvm_sig_arg_slots sig = (case sig of None \<Rightarrow> -1
     | Some s \<Rightarrow> if take 1 s \<noteq> ''('' then -1 else arg_slots_loop (tl s) 0)"

function arg_count_loop :: "string \<Rightarrow> int \<Rightarrow> int" where
  "arg_count_loop p n =
     (if p = [] \<or> hd p = CHR '')'' then n
      else if desc_skip p = p then -1
      else arg_count_loop (desc_skip p) (n + 1))"
  by pat_completeness auto
termination by (relation "measure (length \<circ> fst)") (auto simp: desc_skip_less)

declare arg_count_loop.simps [simp del]

definition dvm_sig_arg_count :: "string option \<Rightarrow> int" where
  "dvm_sig_arg_count sig = (case sig of None \<Rightarrow> -1
     | Some s \<Rightarrow> if take 1 s \<noteq> ''('' then -1 else arg_count_loop (tl s) 0)"

definition dvm_sig_return_kind :: "string option \<Rightarrow> char" where
  "dvm_sig_return_kind sig = (case sig of None \<Rightarrow> CHR ''V''
     | Some s \<Rightarrow> (case dropWhile (\<lambda>c. c \<noteq> CHR '')'') s of [] \<Rightarrow> CHR ''V''
        | p # rest \<Rightarrow> dvm__kind_of (Some rest)))"

text \<open>
  \<open>dvm__sig_param\<close> has no test for a position that does not advance; the recursion is
  bounded by the length of the signature, and a walk that stood still would be \<open>None\<close>.
  \<open>Some None\<close> is \<open>false\<close>.
\<close>

fun sig_param_loop :: "nat \<Rightarrow> string \<Rightarrow> int \<Rightarrow> int \<Rightarrow> nat \<Rightarrow> string option option" where
  "sig_param_loop 0 p i idx sz = None"
| "sig_param_loop (Suc n) p i idx sz =
     (if p = [] \<or> hd p = CHR '')'' then Some None
      else
        let q = desc_skip p in
        if i = idx then
          (let l = length p - length q in
           if sz < l + 1 then Some None else Some (Some (take l p)))
        else sig_param_loop n q (i + 1) idx sz)"

definition dvm__sig_param :: "string option \<Rightarrow> int \<Rightarrow> nat \<Rightarrow> string option option" where
  "dvm__sig_param sig idx sz = (case sig of None \<Rightarrow> Some None
     | Some s \<Rightarrow> if take 1 s \<noteq> ''('' then Some None else sig_param_loop (length s) (tl s) 0 idx sz)"

text \<open>
  \<open>name_to_desc\<close>: the text left in \<open>buf\<close>, \<open>None\<close> when \<open>sz\<close> is zero and nothing is written.
\<close>

definition dot_to_slash :: "char \<Rightarrow> char" where
  "dot_to_slash c = (if c = CHR ''.'' then CHR ''/'' else c)"

definition desc_wraps :: "string \<Rightarrow> bool" where
  "desc_wraps name = (\<not> ((take 1 name = ''L'' \<and> last name = CHR '';'') \<or> take 1 name = ''['' \<or>
     (length name = 1 \<and> hd name \<in> set prim_kinds)))"

definition name_to_desc :: "string option \<Rightarrow> nat \<Rightarrow> string option" where
  "name_to_desc name sz =
     (if sz = 0 then None
      else case name of None \<Rightarrow> Some []
      | Some s \<Rightarrow>
          let wrap = desc_wraps s; n = length s; need = n + (if wrap then 2 else 0) in
          Some (map dot_to_slash
            (if sz \<le> need then
               (let room = sz - 1; pre = (if wrap \<and> room \<noteq> 0 then ''L'' else []);
                    room = (if wrap \<and> room \<noteq> 0 then room - 1 else room);
                    room = (if n < room then n else room) in
                pre @ take room s)
             else if wrap then ''L'' @ s @ '';'' else s)))"

section \<open>Argument marshalling\<close>

text \<open>
  A \<open>union dvm_value\<close> is its 64 bits; the narrow members alias the low half.  Writing
  \<open>out[n].u\<close> keeps the upper half of what the array held.
\<close>

definition set_low :: "u64 \<Rightarrow> u32 \<Rightarrow> u64" where
  "set_low v u = (push_bit 32 (drop_bit 32 v)) OR ucast u"

definition wide_kind :: "char \<Rightarrow> bool" where
  "wide_kind k \<longleftrightarrow> k = CHR ''J'' \<or> k = CHR ''D''"

definition slot_at :: "u32 list \<Rightarrow> nat \<Rightarrow> nat \<Rightarrow> u32 option" where
  "slot_at slots nslots s = (if s < nslots then c_at slots s else Some 0)"

fun slots_to_values_loop ::
    "nat \<Rightarrow> string \<Rightarrow> u32 list \<Rightarrow> nat \<Rightarrow> nat \<Rightarrow> nat \<Rightarrow> u64 list \<Rightarrow> nat \<Rightarrow> (nat \<times> u64 list) option" where
  "slots_to_values_loop 0 p slots nslots n s out max' = None"
| "slots_to_values_loop (Suc f) p slots nslots n s out max' =
     (if p = [] \<or> hd p = CHR '')'' then Some (n, out)
      else
        let q = desc_skip p; k = dvm__kind_of (Some p) in
        if max' \<le> n then Some (n, out)
        else if wide_kind k then do {
          lo \<leftarrow> slot_at slots nslots s;
          hi \<leftarrow> slot_at slots nslots (s + 1);
          out \<leftarrow> c_set out n (ucast lo OR push_bit 32 (ucast hi));
          slots_to_values_loop f q slots nslots (n + 1) (s + 2) out max' }
        else do {
          u \<leftarrow> slot_at slots nslots s;
          old \<leftarrow> c_at out n;
          out \<leftarrow> c_set out n (set_low old u);
          slots_to_values_loop f q slots nslots (n + 1) (s + 1) out max' })"

definition slots_to_values ::
    "string option \<Rightarrow> u32 list \<Rightarrow> nat \<Rightarrow> u64 list \<Rightarrow> nat \<Rightarrow> (nat \<times> u64 list) option" where
  "slots_to_values sig slots nslots out max' = (case sig of None \<Rightarrow> Some (0, out)
     | Some s \<Rightarrow> if take 1 s \<noteq> ''('' then Some (0, out)
        else slots_to_values_loop (length s) (tl s) slots nslots 0 0 out max')"

fun values_to_slots_loop ::
    "nat \<Rightarrow> string \<Rightarrow> u64 list \<Rightarrow> nat \<Rightarrow> nat \<Rightarrow> nat \<Rightarrow> u32 list \<Rightarrow> int \<Rightarrow> (nat \<times> u32 list) option" where
  "values_to_slots_loop 0 p vals nvals n s out max' = None"
| "values_to_slots_loop (Suc f) p vals nvals n s out max' =
     (if p = [] \<or> hd p = CHR '')'' then Some (s, out)
      else do {
        let q = desc_skip p;
        let k = dvm__kind_of (Some p);
        v \<leftarrow> (if n < nvals then c_at vals n else Some 0);
        if wide_kind k then
          (if max' - 1 \<le> int s then Some (s, out)
           else do {
             out \<leftarrow> c_set out s (ucast v);
             out \<leftarrow> c_set out (s + 1) (ucast (drop_bit 32 v));
             values_to_slots_loop f q vals nvals (n + 1) (s + 2) out max' })
        else
          (if max' \<le> int s then Some (s, out)
           else do {
             out \<leftarrow> c_set out s (ucast v);
             values_to_slots_loop f q vals nvals (n + 1) (s + 1) out max' }) })"

definition values_to_slots ::
    "string option \<Rightarrow> u64 list \<Rightarrow> nat \<Rightarrow> u32 list \<Rightarrow> int \<Rightarrow> (nat \<times> u32 list) option" where
  "values_to_slots sig vals nvals out max' = (case sig of None \<Rightarrow> Some (0, out)
     | Some s \<Rightarrow> if take 1 s \<noteq> ''('' then Some (0, out)
        else values_to_slots_loop (length s) (tl s) vals nvals 0 0 out max')"

section \<open>Signatures as lists of types\<close>

text \<open>The abstract view: a method takes a list of types; its signature is their print.\<close>

datatype jtype = JPrim char | JClass string | JArray jtype

fun jdesc :: "jtype \<Rightarrow> string" where
  "jdesc (JPrim c) = [c]"
| "jdesc (JClass n) = ''L'' @ n @ '';''"
| "jdesc (JArray t) = ''['' @ jdesc t"

fun wf_jtype :: "jtype \<Rightarrow> bool" where
  "wf_jtype (JPrim c) \<longleftrightarrow> c \<in> set ''ZBCSIJFD''"
| "wf_jtype (JClass n) \<longleftrightarrow> CHR '';'' \<notin> set n \<and> CHR '')'' \<notin> set n"
| "wf_jtype (JArray t) \<longleftrightarrow> wf_jtype t"

fun jkind :: "jtype \<Rightarrow> char" where
  "jkind (JPrim c) = c"
| "jkind (JClass n) = CHR ''L''"
| "jkind (JArray t) = CHR ''L''"

definition jsig :: "jtype list \<Rightarrow> string \<Rightarrow> string" where
  "jsig ts ret = ''('' @ concat (map jdesc ts) @ '')'' @ ret"

lemma desc_skip_jdesc: "wf_jtype t \<Longrightarrow> desc_skip (jdesc t @ rest) = rest"
proof (induction t)
  case (JClass n)
  have "dropWhile (\<lambda>c. c \<noteq> CHR '';'') (n @ CHR '';'' # rest) = CHR '';'' # rest"
    using JClass by (induction n) auto
  then show ?case by (simp add: desc_skip_def desc_base_def past_semi_def)
next
  case (JArray t)
  then show ?case by (simp add: desc_skip_def)
qed (auto simp: desc_skip_def desc_base_def)

lemma kind_of_jdesc: "wf_jtype t \<Longrightarrow> dvm__kind_of (Some (jdesc t @ rest)) = jkind t"
  by (cases t) (auto simp: dvm__kind_of_def prim_kinds_def)

lemma jdesc_nonempty [simp]: "jdesc t \<noteq> []"
  by (cases t) auto

lemma hd_jdesc: "wf_jtype t \<Longrightarrow> hd (jdesc t) \<noteq> CHR '')''"
  by (cases t) auto

lemma jdesc_head:
  assumes "wf_jtype t"
  shows "jdesc t @ rest \<noteq> []" "hd (jdesc t @ rest) \<noteq> CHR '')''" "desc_skip (jdesc t @ rest) \<noteq> jdesc t @ rest"
proof -
  show "jdesc t @ rest \<noteq> []" "hd (jdesc t @ rest) \<noteq> CHR '')''" using assms by (cases t; auto)+
  show "desc_skip (jdesc t @ rest) \<noteq> jdesc t @ rest" using assms by (simp add: desc_skip_jdesc)
qed

lemmas jdesc_step = jdesc_head hd_jdesc desc_skip_jdesc kind_of_jdesc

lemma arg_slots_loop_jsig:
  "list_all wf_jtype ts \<Longrightarrow> arg_slots_loop (concat (map jdesc ts) @ '')'' @ ret) n =
     n + int (\<Sum>t\<leftarrow>ts. dvm__slots_of (jkind t))"
proof (induction ts arbitrary: n)
  case Nil
  then show ?case by (subst arg_slots_loop.simps) simp
next
  case (Cons t ts)
  then show ?case by (subst arg_slots_loop.simps) (simp add: jdesc_step del: append_Cons)
qed

lemma arg_count_loop_jsig:
  "list_all wf_jtype ts \<Longrightarrow> arg_count_loop (concat (map jdesc ts) @ '')'' @ ret) n = n + int (length ts)"
proof (induction ts arbitrary: n)
  case Nil
  then show ?case by (subst arg_count_loop.simps) simp
next
  case (Cons t ts)
  then show ?case by (subst arg_count_loop.simps) (simp add: jdesc_step del: append_Cons)
qed

lemma jdesc_no_paren: "wf_jtype t \<Longrightarrow> CHR '')'' \<notin> set (jdesc t)"
  by (induction t) auto

lemma return_kind_jsig:
  "list_all wf_jtype ts \<Longrightarrow> dvm_sig_return_kind (Some (jsig ts ret)) = dvm__kind_of (Some ret)"
proof -
  assume "list_all wf_jtype ts"
  then have "CHR '')'' \<notin> set (concat (map jdesc ts))" by (auto simp: list_all_iff dest: jdesc_no_paren)
  then have "dropWhile (\<lambda>c. c \<noteq> CHR '')'') (concat (map jdesc ts) @ '')'' @ ret) = '')'' @ ret"
    by (induction "concat (map jdesc ts)") (auto simp: dropWhile_append)
  then show ?thesis by (simp add: dvm_sig_return_kind_def jsig_def)
qed

lemma sig_param_loop_jsig:
  "list_all wf_jtype ts \<Longrightarrow> length ts < f \<Longrightarrow>
   sig_param_loop f (concat (map jdesc ts) @ '')'' @ ret) i (i + int k) sz =
     Some (if k < length ts \<and> length (jdesc (ts ! k)) < sz then Some (jdesc (ts ! k)) else None)"
proof (induction ts arbitrary: f i k)
  case Nil
  then show ?case by (cases f) auto
next
  case (Cons t ts)
  then obtain f' where f: "f = Suc f'" "length ts < f'" by (cases f) auto
  show ?case
  proof (cases k)
    case 0
    with Cons.prems f show ?thesis by (auto simp: jdesc_step Let_def simp del: append_Cons)
  next
    case (Suc j)
    have "sig_param_loop f' (concat (map jdesc ts) @ '')'' @ ret) (i + 1) (i + 1 + int j) sz =
      Some (if j < length ts \<and> length (jdesc (ts ! j)) < sz then Some (jdesc (ts ! j)) else None)"
      using Cons f by (intro Cons.IH) auto
    with Suc Cons.prems f show ?thesis by (auto simp: jdesc_step Let_def add.assoc simp del: append_Cons)
  qed
qed

lemma concat_jdesc_length: "length ts \<le> length (concat (map jdesc ts))"
proof (induction ts)
  case (Cons t ts)
  have "1 \<le> length (jdesc t)" by (cases t) auto
  with Cons show ?case by simp
qed simp

section \<open>Marshalling\<close>

definition flat_value :: "jtype \<Rightarrow> u64 \<Rightarrow> u32 list" where
  "flat_value t v = (if wide_kind (jkind t) then [ucast v, ucast (drop_bit 32 v)] else [ucast v])"

definition flat_values :: "jtype list \<Rightarrow> u64 list \<Rightarrow> u32 list" where
  "flat_values ts vs = concat (map2 flat_value ts vs)"

text \<open>What survives the trip: all of a wide value, the low half of a narrow one.\<close>

definition norm_value :: "jtype \<Rightarrow> u64 \<Rightarrow> u64" where
  "norm_value t v = (if wide_kind (jkind t) then v else ucast (ucast v :: u32))"

lemma values_to_slots_loop_ok:
  "list_all wf_jtype ts \<Longrightarrow> length vs = length ts \<Longrightarrow> length ts < f \<Longrightarrow> length (flat_values ts vs) \<le> length rest \<Longrightarrow>
   max' = int (length pre + length rest) \<Longrightarrow>
   values_to_slots_loop f (concat (map jdesc ts) @ '')'' @ ret) (us @ vs) (length us + length vs) (length us)
      (length pre) (pre @ rest) max' =
     Some (length pre + length (flat_values ts vs),
       pre @ flat_values ts vs @ drop (length (flat_values ts vs)) rest)"
proof (induction ts arbitrary: vs us f pre rest)
  case Nil
  then obtain f' where "f = Suc f'" by (cases f) auto
  with Nil show ?case by (simp add: flat_values_def)
next
  case (Cons t ts)
  obtain v ws where vs: "vs = v # ws" using Cons.prems(2) by (cases vs) auto
  obtain f' where f: "f = Suc f'" "length ts < f'" using Cons.prems(3) by (cases f) auto
  have fl: "flat_values (t # ts) (v # ws) = flat_value t v @ flat_values ts ws" by (simp add: flat_values_def)
  have ih: "values_to_slots_loop f' (concat (map jdesc ts) @ '')'' @ ret) (us @ v # ws) (Suc (length us + length ws))
      (Suc (length us)) (length (pre @ xs)) ((pre @ xs) @ ys) max' =
     Some (length (pre @ xs) + length (flat_values ts ws),
       (pre @ xs) @ flat_values ts ws @ drop (length (flat_values ts ws)) ys)"
    if "length xs + length ys = length rest" "length (flat_values ts ws) \<le> length ys" for xs ys
    using Cons.IH [of ws f' ys "pre @ xs" "us @ [v]"] Cons.prems f that by (simp add: vs)
  have nth: "(us @ v # ws) ! length us = v" by simp
  show ?case
  proof (cases "wide_kind (jkind t)")
    case True
    then obtain a b ys where rest: "rest = a # b # ys" "length (flat_values ts ws) \<le> length ys"
      using Cons.prems(4) by (cases rest; cases "tl rest") (auto simp: vs fl flat_value_def)
    from ih [of "[ucast v, ucast (drop_bit 32 v)]" ys] rest True Cons.prems f show ?thesis
      by (simp add: vs fl jdesc_step Let_def nth flat_value_def list_update_append)
  next
    case False
    then obtain a ys where rest: "rest = a # ys" "length (flat_values ts ws) \<le> length ys"
      using Cons.prems(4) by (cases rest) (auto simp: vs fl flat_value_def)
    from ih [of "[ucast v]" ys] rest False Cons.prems f show ?thesis
      by (simp add: vs fl jdesc_step Let_def nth flat_value_def list_update_append)
  qed
qed

lemma join_halves: "(ucast (ucast (v :: u64) :: u32) :: u64) OR push_bit 32 (ucast (ucast (drop_bit 32 v) :: u32)) = v"
proof (rule bit_word_eqI)
  fix n assume "n < LENGTH(64)"
  then show "bit ((ucast (ucast v :: u32) :: u64) OR push_bit 32 (ucast (ucast (drop_bit 32 v) :: u32))) n = bit v n"
    by (cases "n < 32") (auto simp: bit_simps)
qed

lemma set_low_zero: "set_low 0 u = ucast u"
  by (simp add: set_low_def)

lemma slots_to_values_loop_ok:
  "list_all wf_jtype ts \<Longrightarrow> length vs = length ts \<Longrightarrow> length ts < f \<Longrightarrow> nslots = length (pre @ flat_values ts vs) \<Longrightarrow>
   max' = length done' + length ts \<Longrightarrow>
   slots_to_values_loop f (concat (map jdesc ts) @ '')'' @ ret) (pre @ flat_values ts vs @ junk) nslots (length done')
      (length pre) (done' @ replicate (length ts) 0) max' =
     Some (length done' + length ts, done' @ map2 norm_value ts vs)"
proof (induction ts arbitrary: vs f pre done')
  case Nil
  then obtain f' where "f = Suc f'" by (cases f) auto
  with Nil show ?case by simp
next
  case (Cons t ts)
  obtain v ws where vs: "vs = v # ws" using Cons.prems(2) by (cases vs) auto
  obtain f' where f: "f = Suc f'" "length ts < f'" using Cons.prems(3) by (cases f) auto
  have fl: "flat_values (t # ts) (v # ws) = flat_value t v @ flat_values ts ws" by (simp add: flat_values_def)
  have ih: "slots_to_values_loop f' (concat (map jdesc ts) @ '')'' @ ret) ((pre @ flat_value t v) @ flat_values ts ws @ junk)
      nslots (length (done' @ [norm_value t v])) (length (pre @ flat_value t v)) ((done' @ [norm_value t v]) @ replicate (length ts) 0) max' =
     Some (length (done' @ [norm_value t v]) + length ts, (done' @ [norm_value t v]) @ map2 norm_value ts ws)"
    using Cons.prems f by (intro Cons.IH) (auto simp: vs fl)
  show ?case
  proof (cases "wide_kind (jkind t)")
    case True
    with ih Cons.prems f show ?thesis
      by (simp add: vs fl jdesc_step Let_def flat_value_def norm_value_def slot_at_def nth_append list_update_append
          join_halves)
  next
    case False
    with ih Cons.prems f show ?thesis
      by (simp add: vs fl jdesc_step Let_def flat_value_def norm_value_def slot_at_def nth_append list_update_append
          set_low_zero)
  qed
qed

section \<open>Properties\<close>

text \<open>
  On the signature of a method the walkers compute what the signature says: the number of
  parameters, the registers they take (two for a \<open>long\<close> or \<open>double\<close>), the kind of the return
  type, and the descriptor of any parameter that fits the caller's buffer.
\<close>

theorem signature_walk:
  assumes "list_all wf_jtype ts"
  shows "dvm_sig_arg_count (Some (jsig ts ret)) = int (length ts) \<and>
    dvm_sig_arg_slots (Some (jsig ts ret)) = int (\<Sum>t\<leftarrow>ts. dvm__slots_of (jkind t)) \<and>
    dvm_sig_return_kind (Some (jsig ts ret)) = dvm__kind_of (Some ret) \<and>
    dvm__sig_param (Some (jsig ts ret)) (int k) sz =
      Some (if k < length ts \<and> length (jdesc (ts ! k)) < sz then Some (jdesc (ts ! k)) else None)"
proof -
  have f: "length ts < length (jsig ts ret)" using concat_jdesc_length [of ts] by (simp add: jsig_def)
  have "sig_param_loop (length (jsig ts ret)) (concat (map jdesc ts) @ '')'' @ ret) 0 (0 + int k) sz =
      Some (if k < length ts \<and> length (jdesc (ts ! k)) < sz then Some (jdesc (ts ! k)) else None)"
    using assms f by (rule sig_param_loop_jsig)
  moreover have "take 1 (jsig ts ret) = ''(''" "tl (jsig ts ret) = concat (map jdesc ts) @ '')'' @ ret"
    by (simp_all add: jsig_def)
  ultimately show ?thesis
    using assms arg_count_loop_jsig [OF assms, of ret 0] arg_slots_loop_jsig [OF assms, of ret 0]
      return_kind_jsig [OF assms, of ret]
    by (simp add: dvm_sig_arg_count_def dvm_sig_arg_slots_def dvm__sig_param_def)
qed

theorem signature_walk_witness:
  "dvm_sig_arg_count (Some (jsig [JPrim CHR ''J'', JArray (JClass ''A'')] ''V'')) = int (length [JPrim CHR ''J'', JArray (JClass ''A'')]) \<and>
    dvm_sig_arg_slots (Some (jsig [JPrim CHR ''J'', JArray (JClass ''A'')] ''V'')) =
      int (\<Sum>t\<leftarrow>[JPrim CHR ''J'', JArray (JClass ''A'')]. dvm__slots_of (jkind t)) \<and>
    dvm_sig_return_kind (Some (jsig [JPrim CHR ''J'', JArray (JClass ''A'')] ''V'')) = dvm__kind_of (Some ''V'') \<and>
    dvm__sig_param (Some (jsig [JPrim CHR ''J'', JArray (JClass ''A'')] ''V'')) (int 1) 8 =
      Some (if 1 < length [JPrim CHR ''J'', JArray (JClass ''A'')] \<and>
          length (jdesc ([JPrim CHR ''J'', JArray (JClass ''A'')] ! 1)) < 8
        then Some (jdesc ([JPrim CHR ''J'', JArray (JClass ''A'')] ! 1)) else None)"
  by (rule signature_walk) simp

text \<open>
  C10. Marshalling is lossless: arguments laid out as register slots and read back against the
  same signature are the arguments, wide values whole and narrow values in their 32 bits;
  neither direction leaves its arrays.
\<close>

theorem marshalling_roundtrip:
  assumes "list_all wf_jtype ts" and "length vs = length ts" and "length (flat_values ts vs) \<le> length out"
  shows "\<exists>n slots. values_to_slots (Some (jsig ts ret)) vs (length vs) out (int (length out)) = Some (n, slots) \<and>
    n = length (flat_values ts vs) \<and>
    slots_to_values (Some (jsig ts ret)) slots n (replicate (length ts) 0) (length ts) =
      Some (length ts, map2 norm_value ts vs)"
proof -
  have f: "length ts < length (jsig ts ret)" using concat_jdesc_length [of ts] by (simp add: jsig_def)
  have sig: "take (Suc 0) (jsig ts ret) = ''(''" "tl (jsig ts ret) = concat (map jdesc ts) @ '')'' @ ret"
    by (simp_all add: jsig_def)
  let ?slots = "flat_values ts vs @ drop (length (flat_values ts vs)) out"
  have "values_to_slots (Some (jsig ts ret)) vs (length vs) out (int (length out)) =
      Some (length (flat_values ts vs), ?slots)"
    using values_to_slots_loop_ok [OF assms(1,2) f assms(3), of "int (length out)" "[]" ret "[]"]
    by (simp add: values_to_slots_def sig)
  moreover have "slots_to_values (Some (jsig ts ret)) ?slots (length (flat_values ts vs)) (replicate (length ts) 0) (length ts) =
      Some (length ts, map2 norm_value ts vs)"
    using slots_to_values_loop_ok [OF assms(1,2) f, of "length (flat_values ts vs)" "[]" "length ts" "[]" ret]
    by (simp add: slots_to_values_def sig)
  ultimately show ?thesis by blast
qed

theorem marshalling_roundtrip_witness:
  "\<exists>n slots. values_to_slots (Some (jsig [JPrim CHR ''J'', JPrim CHR ''I''] ''V'')) [0x100000002, 3]
      (length [0x100000002, 3 :: u64]) [0, 0, 0, 0] (int (length [0, 0, 0, 0 :: u32])) = Some (n, slots) \<and>
    n = length (flat_values [JPrim CHR ''J'', JPrim CHR ''I''] [0x100000002, 3]) \<and>
    slots_to_values (Some (jsig [JPrim CHR ''J'', JPrim CHR ''I''] ''V'')) slots n
      (replicate (length [JPrim CHR ''J'', JPrim CHR ''I'']) 0) (length [JPrim CHR ''J'', JPrim CHR ''I'']) =
      Some (length [JPrim CHR ''J'', JPrim CHR ''I''], map2 norm_value [JPrim CHR ''J'', JPrim CHR ''I''] [0x100000002, 3])"
  by (rule marshalling_roundtrip) (simp_all add: flat_values_def flat_value_def wide_kind_def)

text \<open>
  \<open>name_to_desc\<close> always stays inside the buffer it was given; when the buffer is large
  enough the result is a fixed point: applied to a descriptor it changes nothing.
\<close>

theorem name_to_desc_bounded:
  assumes "0 < sz"
  shows "\<exists>d. name_to_desc name sz = Some d \<and> length d < sz \<and> CHR ''.'' \<notin> set d \<and>
    (case name of None \<Rightarrow> d = [] | Some s \<Rightarrow>
       if length s + 2 < sz then \<not> desc_wraps d \<and> name_to_desc (Some d) sz = Some d else True)"
proof (cases name)
  case None
  with assms show ?thesis by (simp add: name_to_desc_def)
next
  case (Some s)
  obtain d where d: "name_to_desc (Some s) sz = Some d" using assms by (simp add: name_to_desc_def Let_def)
  have dot: "dot_to_slash c \<noteq> CHR ''.''" for c by (simp add: dot_to_slash_def)
  have keep: "dot_to_slash c = k \<longleftrightarrow> c = k" if "k \<noteq> CHR ''/''" "k \<noteq> CHR ''.''" for c k
    using that by (auto simp: dot_to_slash_def)
  obtain x where "d = map dot_to_slash x" using d assms by (auto simp: name_to_desc_def Let_def)
  then have "CHR ''.'' \<notin> set d" using dot [THEN not_sym] by auto
  moreover have "length d < sz"
    using d assms by (auto simp: name_to_desc_def Let_def split: if_splits)
  moreover have "\<not> desc_wraps d \<and> name_to_desc (Some d) sz = Some d" if big: "length s + 2 < sz"
  proof -
    have dd: "d = map dot_to_slash (if desc_wraps s then ''L'' @ s @ '';'' else s)"
      using d big assms by (auto simp: name_to_desc_def Let_def split: if_splits)
    have "\<not> desc_wraps d"
    proof (cases "desc_wraps s")
      case True
      then show ?thesis by (simp add: dd desc_wraps_def dot_to_slash_def last_map)
    next
      case False
      then show ?thesis
        by (cases s) (auto simp: dd desc_wraps_def keep last_map prim_kinds_def dot_to_slash_def split: if_splits)
    qed
    moreover have "map dot_to_slash d = d" by (auto simp: dd dot_to_slash_def)
    moreover have "length d < sz" using \<open>length d < sz\<close> .
    ultimately show ?thesis using assms by (simp add: name_to_desc_def Let_def)
  qed
  ultimately show ?thesis using Some d by (intro exI [of _ d]) auto
qed

theorem name_to_desc_bounded_witness:
  "\<exists>d. name_to_desc (Some ''java.lang.String'') 64 = Some d \<and> length d < 64 \<and> CHR ''.'' \<notin> set d \<and>
    (case Some ''java.lang.String'' of None \<Rightarrow> d = [] | Some s \<Rightarrow>
       if length s + 2 < 64 then \<not> desc_wraps d \<and> name_to_desc (Some d) 64 = Some d else True)"
  by (rule name_to_desc_bounded) simp

end
