(* ===== verification/Dvm_Heap.thy ===== *)
theory Dvm_Heap
  imports Dvm_Descriptor
begin

text \<open>
  The object heap of the VM (\<open>src/src/dvm/dvm.c\<close>, section "Heap"): fixed-size blocks that
  never move, a bump pointer, a free list threaded through dead slots, and pins that keep an
  object from being reclaimed.  References are \<open>u32\<close>, zero is null.  A class pointer is the
  index of the class in the registry; where an operation asks the registry for a class, the
  answer is an argument.  An exception that an operation raises with \<open>dvm__throw\<close> is returned
  as the class name it asks for.  The fields of \<open>struct dvm_object\<close> that only the built-in
  library uses (string index, payload destructor, annotation link) are left out: the heap
  only clears them.
\<close>

datatype dvm_obj_kind = DVM_OBJ_PLAIN | DVM_OBJ_STRING | DVM_OBJ_ARRAY | DVM_OBJ_CLASS | DVM_OBJ_EXTERNAL

record dvm_object =
  o_cls :: "nat option"
  o_kind :: dvm_obj_kind
  o_pins :: u32
  o_host_handle :: u32
  o_utf8 :: "string option"
  o_utf8_len :: u32
  o_length :: u32
  o_elem_kind :: char
  o_data :: "u8 list option"
  o_klass :: "nat option"
  o_slots :: "u64 list option"
  o_monitor_owner :: u64
  o_monitor_depth :: u32
  o_monitor_seq :: u64
  o_next_free :: u32
  o_live :: bool

definition obj_zero :: dvm_object where
  "obj_zero = \<lparr>o_cls = None, o_kind = DVM_OBJ_PLAIN, o_pins = 0, o_host_handle = 0, o_utf8 = None,
     o_utf8_len = 0, o_length = 0, o_elem_kind = CHR 0x00, o_data = None, o_klass = None, o_slots = None,
     o_monitor_owner = 0, o_monitor_depth = 0, o_monitor_seq = 0, o_next_free = 0, o_live = False\<rparr>"

record dvm_heap =
  heap_blocks :: "dvm_object list list"
  heap_nblocks :: u32
  heap_size :: u32
  heap_cap :: u32
  free_head :: u32

definition heap_empty :: dvm_heap where
  "heap_empty = \<lparr>heap_blocks = [], heap_nblocks = 0, heap_size = 0, heap_cap = 0, free_head = 0\<rparr>"

definition DVM_HEAP_BLOCK :: nat where "DVM_HEAP_BLOCK = 4096"

text \<open>\<open>sizeof (struct dvm_object)\<close> on the supported hosts.\<close>

definition object_bytes :: nat where "object_bytes = 152"

section \<open>Operations\<close>

definition heap_slot :: "dvm_heap \<Rightarrow> u32 \<Rightarrow> dvm_object option" where
  "heap_slot h ref = do {
     let i = unat (ref - 1);
     blk \<leftarrow> c_at (heap_blocks h) (i div DVM_HEAP_BLOCK);
     c_at blk (i mod DVM_HEAP_BLOCK) }"

text \<open>A store through the pointer \<open>heap_slot\<close> returns.\<close>

definition heap_put :: "dvm_heap \<Rightarrow> u32 \<Rightarrow> dvm_object \<Rightarrow> dvm_heap option" where
  "heap_put h ref ob = do {
     let i = unat (ref - 1);
     blk \<leftarrow> c_at (heap_blocks h) (i div DVM_HEAP_BLOCK);
     blk \<leftarrow> c_set blk (i mod DVM_HEAP_BLOCK) ob;
     bs \<leftarrow> c_set (heap_blocks h) (i div DVM_HEAP_BLOCK) blk;
     Some (h\<lparr>heap_blocks := bs\<rparr>) }"

definition dvm__obj :: "dvm_heap \<Rightarrow> u32 \<Rightarrow> dvm_object option option" where
  "dvm__obj h ref =
     (if ref = 0 \<or> heap_size h < ref then Some None
      else do { ob \<leftarrow> heap_slot h ref; Some (if o_live ob then Some ob else None) })"

definition heap_alloc :: "alloc \<Rightarrow> dvm_heap \<Rightarrow> (u32 \<times> dvm_heap) option" where
  "heap_alloc al h =
     (if free_head h \<noteq> 0 then do {
        let r = free_head h;
        ob \<leftarrow> heap_slot h r;
        let h = h\<lparr>free_head := o_next_free ob\<rparr>;
        h \<leftarrow> heap_put h r (obj_zero\<lparr>o_live := True\<rparr>);
        Some (r, h) }
      else if heap_size h = heap_cap h \<and> \<not> al (unat (heap_nblocks h + 1) * 8) then Some (0, h)
      else if heap_size h = heap_cap h \<and> \<not> al (DVM_HEAP_BLOCK * object_bytes) then Some (0, h)
      else do {
        let h = (if heap_size h = heap_cap h then
            h\<lparr>heap_blocks := heap_blocks h @ [replicate DVM_HEAP_BLOCK obj_zero],
              heap_nblocks := heap_nblocks h + 1, heap_cap := heap_cap h + of_nat DVM_HEAP_BLOCK\<rparr>
            else h);
        let r = heap_size h + 1;
        let h = h\<lparr>heap_size := r\<rparr>;
        ob \<leftarrow> heap_slot h r;
        h \<leftarrow> heap_put h r (ob\<lparr>o_live := True\<rparr>);
        Some (r, h) })"

definition dvm_pin :: "dvm_heap \<Rightarrow> u32 \<Rightarrow> dvm_heap option" where
  "dvm_pin h ref = do {
     ob \<leftarrow> dvm__obj h ref;
     case ob of None \<Rightarrow> Some h | Some x \<Rightarrow> heap_put h ref (x\<lparr>o_pins := o_pins x + 1\<rparr>) }"

definition dvm_unpin :: "dvm_heap \<Rightarrow> u32 \<Rightarrow> dvm_heap option" where
  "dvm_unpin h ref = do {
     ob \<leftarrow> dvm__obj h ref;
     case ob of None \<Rightarrow> Some h
     | Some x \<Rightarrow> if o_pins x \<noteq> 0 then heap_put h ref (x\<lparr>o_pins := o_pins x - 1\<rparr>) else Some h }"

definition heap_free :: "dvm_heap \<Rightarrow> u32 \<Rightarrow> dvm_heap option" where
  "heap_free h ref = do {
     ob \<leftarrow> dvm__obj h ref;
     case ob of None \<Rightarrow> Some h
     | Some x \<Rightarrow>
         if o_pins x \<noteq> 0 then Some h
         else do {
           h \<leftarrow> heap_put h ref (obj_zero\<lparr>o_next_free := free_head h\<rparr>);
           Some (h\<lparr>free_head := ref\<rparr>) } }"

definition dvm__discard_temporary :: "dvm_heap \<Rightarrow> u32 \<Rightarrow> dvm_heap option" where
  "dvm__discard_temporary h ref = heap_free h ref"

text \<open>
  The constructors write the fields of the fresh slot and give it back when their own
  allocation fails.
\<close>

definition init_slot ::
    "dvm_heap \<Rightarrow> u32 \<Rightarrow> (dvm_object \<Rightarrow> dvm_object) \<Rightarrow> dvm_heap option" where
  "init_slot h r f = do { ob \<leftarrow> heap_slot h r; heap_put h r (f ob) }"

definition dvm_new_object :: "alloc \<Rightarrow> dvm_heap \<Rightarrow> (nat \<times> nat) option \<Rightarrow> (u32 \<times> dvm_heap) option" where
  "dvm_new_object al h cls =
     (case cls of None \<Rightarrow> Some (0, h)
      | Some (c, islots) \<Rightarrow> do {
          (r, h) \<leftarrow> heap_alloc al h;
          if r = 0 then Some (0, h)
          else do {
            h \<leftarrow> init_slot h r (\<lambda>ob. ob\<lparr>o_cls := Some c, o_kind := DVM_OBJ_PLAIN\<rparr>);
            if 0 < islots then
              (if al (islots * 8) then do {
                 h \<leftarrow> init_slot h r (\<lambda>ob. ob\<lparr>o_slots := Some (replicate islots 0)\<rparr>);
                 Some (r, h) }
               else do { h \<leftarrow> heap_free h r; Some (0, h) })
            else Some (r, h) } })"

definition dvm_new_string_n :: "alloc \<Rightarrow> dvm_heap \<Rightarrow> nat option \<Rightarrow> string \<Rightarrow> (u32 \<times> dvm_heap) option" where
  "dvm_new_string_n al h string_cls text = do {
     (r, h) \<leftarrow> heap_alloc al h;
     if r = 0 then Some (0, h)
     else do {
       h \<leftarrow> init_slot h r (\<lambda>ob. ob\<lparr>o_cls := string_cls, o_kind := DVM_OBJ_STRING\<rparr>);
       if al (length text + 1) then do {
         h \<leftarrow> init_slot h r (\<lambda>ob. ob\<lparr>o_utf8 := Some text, o_utf8_len := of_nat (length text)\<rparr>);
         Some (r, h) }
       else do { h \<leftarrow> heap_free h r; Some (0, h) } } }"

definition dvm_new_string :: "alloc \<Rightarrow> dvm_heap \<Rightarrow> nat option \<Rightarrow> string option \<Rightarrow> (u32 \<times> dvm_heap) option" where
  "dvm_new_string al h string_cls utf8 =
     dvm_new_string_n al h string_cls (case utf8 of None \<Rightarrow> [] | Some s \<Rightarrow> s)"

definition dvm__elem_width :: "char \<Rightarrow> nat" where
  "dvm__elem_width kind =
     (if kind \<in> set ''ZB'' then 1 else if kind \<in> set ''CS'' then 2 else if kind \<in> set ''JD'' then 8 else 4)"

definition array_component :: "char \<Rightarrow> string option \<Rightarrow> string" where
  "array_component elem elem_desc = (case elem_desc of Some d \<Rightarrow> d
     | None \<Rightarrow> if elem = CHR ''L'' then ''Ljava/lang/Object;'' else [elem])"

text \<open>\<open>Some ((r, exc), h)\<close>: the reference, or zero with the exception class asked for.\<close>

definition dvm_new_array ::
    "alloc \<Rightarrow> dvm_heap \<Rightarrow> (string \<Rightarrow> nat option) \<Rightarrow> char \<Rightarrow> string option \<Rightarrow> u32 \<Rightarrow>
     ((u32 \<times> string option) \<times> dvm_heap) option" where
  "dvm_new_array al h cls_of elem elem_desc len' =
     (let component = array_component elem elem_desc;
          count' = length (takeWhile (\<lambda>c. c = CHR ''['') component) in
      if 255 \<le> count' \<or> component = [] \<or> component = ''V'' then
        Some ((0, Some ''java/lang/IllegalArgumentException''), h)
      else if 256 < length component + 2 \<and> \<not> al (length component + 2) then
        Some ((0, Some ''java/lang/OutOfMemoryError''), h)
      else do {
        let cls = cls_of (''['' @ component);
        let width = dvm__elem_width elem;
        if width = 0 \<or> (2 ^ 64 - 1) div width < unat len' then
          Some ((0, Some ''java/lang/OutOfMemoryError''), h)
        else do {
          (r, h) \<leftarrow> heap_alloc al h;
          if r = 0 then Some ((0, None), h)
          else do {
            let bytes = unat len' * width;
            h \<leftarrow> init_slot h r (\<lambda>ob. ob\<lparr>o_cls := cls, o_kind := DVM_OBJ_ARRAY, o_length := len', o_elem_kind := elem\<rparr>);
            if al (if bytes = 0 then 1 else bytes) then do {
              h \<leftarrow> init_slot h r (\<lambda>ob. ob\<lparr>o_data := Some (replicate (if bytes = 0 then 1 else bytes) 0)\<rparr>);
              Some ((r, None), h) }
            else do {
              h \<leftarrow> heap_free h r;
              Some ((0, Some ''java/lang/OutOfMemoryError''), h) } } } })"

definition dvm_wrap_external ::
    "alloc \<Rightarrow> dvm_heap \<Rightarrow> (string \<Rightarrow> (nat \<times> nat) option) \<Rightarrow> string option \<Rightarrow> u32 \<Rightarrow> (u32 \<times> dvm_heap) option" where
  "dvm_wrap_external al h cls_of class_name host_handle = do {
     desc \<leftarrow> name_to_desc class_name 512;
     let cls = cls_of desc;
     (r, h) \<leftarrow> heap_alloc al h;
     if r = 0 then Some (0, h)
     else do {
       h \<leftarrow> init_slot h r (\<lambda>ob. ob\<lparr>o_cls := map_option fst cls, o_kind := DVM_OBJ_EXTERNAL, o_host_handle := host_handle\<rparr>);
       case cls of Some (c, islots) \<Rightarrow>
           if 0 < islots then do {
             h \<leftarrow> init_slot h r (\<lambda>ob. ob\<lparr>o_slots := (if al (islots * 8) then Some (replicate islots 0) else None)\<rparr>);
             Some (r, h) }
           else Some (r, h)
         | None \<Rightarrow> Some (r, h) } }"

text \<open>The accessors.\<close>

definition obj_field :: "dvm_heap \<Rightarrow> u32 \<Rightarrow> (dvm_object \<Rightarrow> 'a) \<Rightarrow> 'a \<Rightarrow> 'a option" where
  "obj_field h ref f d = do { ob \<leftarrow> dvm__obj h ref; Some (case ob of None \<Rightarrow> d | Some x \<Rightarrow> f x) }"

definition dvm_object_class :: "dvm_heap \<Rightarrow> u32 \<Rightarrow> nat option option" where
  "dvm_object_class h ref = obj_field h ref o_cls None"

definition dvm_string_utf8 :: "dvm_heap \<Rightarrow> u32 \<Rightarrow> string option option" where
  "dvm_string_utf8 h ref = obj_field h ref (\<lambda>x. if o_kind x = DVM_OBJ_STRING then o_utf8 x else None) None"

definition dvm_string_utf8_length :: "dvm_heap \<Rightarrow> u32 \<Rightarrow> u32 option" where
  "dvm_string_utf8_length h ref = obj_field h ref (\<lambda>x. if o_kind x = DVM_OBJ_STRING then o_utf8_len x else 0) 0"

definition dvm_array_length :: "dvm_heap \<Rightarrow> u32 \<Rightarrow> u32 option" where
  "dvm_array_length h ref = obj_field h ref (\<lambda>x. if o_kind x = DVM_OBJ_ARRAY then o_length x else 0) 0"

definition dvm_array_data :: "dvm_heap \<Rightarrow> u32 \<Rightarrow> u8 list option option" where
  "dvm_array_data h ref = obj_field h ref (\<lambda>x. if o_kind x = DVM_OBJ_ARRAY then o_data x else None) None"

definition dvm_external_handle :: "dvm_heap \<Rightarrow> u32 \<Rightarrow> u32 option" where
  "dvm_external_handle h ref = obj_field h ref o_host_handle 0"

section \<open>Blocks as one array\<close>

lemma concat_uniform_nth:
  assumes "\<forall>b \<in> set bs. length b = n" and "i < length bs * n"
  shows "concat bs ! i = bs ! (i div n) ! (i mod n)"
  using assms
proof (induction bs arbitrary: i)
  case (Cons b bs)
  then have n: "length b = n" "0 < n" by (auto intro: ccontr)
  show ?case
  proof (cases "i < n")
    case True
    with n show ?thesis by (simp add: nth_append)
  next
    case False
    then have d: "i div n = Suc ((i - n) div n)" "i mod n = (i - n) mod n"
      using n by (simp_all add: le_div_geq le_mod_geq)
    from Cons n False have "concat bs ! (i - n) = bs ! ((i - n) div n) ! ((i - n) mod n)"
      by (intro Cons.IH) auto
    with n False d show ?thesis by (simp add: nth_append)
  qed
qed simp

lemma length_concat_uniform: "\<forall>b \<in> set bs. length b = n \<Longrightarrow> length (concat bs) = length bs * n"
  by (induction bs) auto

lemma concat_uniform_update:
  assumes "\<forall>b \<in> set bs. length b = n" and "i < length bs * n"
  shows "concat (bs[i div n := (bs ! (i div n))[i mod n := x]]) = (concat bs)[i := x]"
proof (rule nth_equalityI)
  have n: "0 < n" using assms(2) by (auto intro: ccontr)
  have id: "i div n < length bs" using assms(2) by (simp add: less_mult_imp_div_less)
  have im: "i mod n < n" using n by simp
  let ?bs = "bs[i div n := (bs ! (i div n))[i mod n := x]]"
  have uni: "\<forall>b \<in> set ?bs. length b = n"
    using assms(1) id by (auto dest: set_update_subset_insert [THEN subsetD])
  show len: "length (concat ?bs) = length ((concat bs)[i := x])"
    using length_concat_uniform [OF uni] length_concat_uniform [OF assms(1)] by simp
  fix k assume k: "k < length (concat ?bs)"
  then have kb: "k < length bs * n" using length_concat_uniform [OF uni] by simp
  have kd: "k div n < length bs" using kb by (simp add: less_mult_imp_div_less)
  have bl: "length (bs ! (i div n)) = n" using assms(1) id by simp
  have eq: "k = i \<longleftrightarrow> k div n = i div n \<and> k mod n = i mod n" by (metis div_mult_mod_eq)
  have "concat ?bs ! k = ?bs ! (k div n) ! (k mod n)"
    using concat_uniform_nth [OF uni, of k] kb by simp
  also have "\<dots> = (concat bs)[i := x] ! k"
    using concat_uniform_nth [OF assms(1) kb] kd id im bl n kb length_concat_uniform [OF assms(1)] eq
    by (auto simp: nth_list_update)
  finally show "concat ?bs ! k = (concat bs)[i := x] ! k" .
qed


section \<open>The representation invariant\<close>

definition heap_cells :: "dvm_heap \<Rightarrow> dvm_object list" where
  "heap_cells h = concat (heap_blocks h)"

text \<open>\<open>free_chain cs r rs\<close>: following \<open>next_free\<close> from \<open>r\<close> visits \<open>rs\<close> and ends.\<close>

fun free_chain :: "dvm_object list \<Rightarrow> u32 \<Rightarrow> u32 list \<Rightarrow> bool" where
  "free_chain cs r [] = (r = 0)"
| "free_chain cs r (x # xs) =
     (r = x \<and> r \<noteq> 0 \<and> unat r \<le> length cs \<and> free_chain cs (o_next_free (cs ! (unat r - 1))) xs)"

definition heap_dead :: "dvm_heap \<Rightarrow> u32 set" where
  "heap_dead h = {r. r \<noteq> 0 \<and> r \<le> heap_size h \<and> \<not> o_live (heap_cells h ! (unat r - 1))}"

definition heap_shape :: "dvm_heap \<Rightarrow> bool" where
  "heap_shape h \<longleftrightarrow> (\<forall>b \<in> set (heap_blocks h). length b = DVM_HEAP_BLOCK) \<and>
     length (heap_blocks h) < 2 ^ 20 \<and> unat (heap_nblocks h) = length (heap_blocks h) \<and>
     unat (heap_cap h) = length (heap_blocks h) * DVM_HEAP_BLOCK \<and> heap_size h \<le> heap_cap h"

definition heap_ok :: "dvm_heap \<Rightarrow> bool" where
  "heap_ok h \<longleftrightarrow> heap_shape h \<and>
     (\<forall>i. unat (heap_size h) \<le> i \<longrightarrow> i < length (heap_cells h) \<longrightarrow> heap_cells h ! i = obj_zero) \<and>
     (\<exists>rs. free_chain (heap_cells h) (free_head h) rs \<and> distinct rs \<and> set rs = heap_dead h)"

text \<open>The abstract heap: a partial map from references to live objects.\<close>

definition heap_abs :: "dvm_heap \<Rightarrow> u32 \<Rightarrow> dvm_object option" where
  "heap_abs h r = (if r = 0 \<or> heap_size h < r then None
     else if o_live (heap_cells h ! (unat r - 1)) then Some (heap_cells h ! (unat r - 1)) else None)"

lemma heap_cells_length: "heap_shape h \<Longrightarrow> length (heap_cells h) = unat (heap_cap h)"
  by (simp add: heap_shape_def heap_cells_def length_concat_uniform)

lemma unat_pred: "(r::u32) \<noteq> 0 \<Longrightarrow> unat (r - 1) = unat r - 1"
  by (simp add: unat_minus_one)

lemma unat_pos: "(r::u32) \<noteq> 0 \<Longrightarrow> 0 < unat r"
  by (simp add: word_neq_0_conv unat_gt_0)

lemma heap_index:
  assumes "heap_shape h" and "r \<noteq> 0" and "r \<le> heap_cap h"
  shows "unat r - 1 < length (heap_cells h)"
    and "(unat r - 1) div DVM_HEAP_BLOCK < length (heap_blocks h)"
    and "unat r - 1 < length (heap_blocks h) * DVM_HEAP_BLOCK"
proof -
  have r: "0 < unat r" "unat r \<le> unat (heap_cap h)"
    using assms by (simp_all add: unat_pos word_le_nat_alt)
  then show "unat r - 1 < length (heap_cells h)" using heap_cells_length [OF assms(1)] by simp
  show "unat r - 1 < length (heap_blocks h) * DVM_HEAP_BLOCK"
    using r assms(1) by (simp add: heap_shape_def)
  then show "(unat r - 1) div DVM_HEAP_BLOCK < length (heap_blocks h)"
    by (simp add: less_mult_imp_div_less)
qed

lemma heap_slot_cell:
  assumes "heap_shape h" and "r \<noteq> 0" and "r \<le> heap_cap h"
  shows "heap_slot h r = Some (heap_cells h ! (unat r - 1))"
proof -
  note i = heap_index [OF assms]
  have u: "\<forall>b \<in> set (heap_blocks h). length b = DVM_HEAP_BLOCK" using assms(1) by (simp add: heap_shape_def)
  have "length (heap_blocks h ! ((unat r - 1) div DVM_HEAP_BLOCK)) = DVM_HEAP_BLOCK"
    using u i(2) by simp
  moreover have "(unat r - 1) mod DVM_HEAP_BLOCK < DVM_HEAP_BLOCK" by (simp add: DVM_HEAP_BLOCK_def)
  ultimately show ?thesis
    using i(2) concat_uniform_nth [OF u i(3)] assms(2)
    by (simp add: heap_slot_def heap_cells_def unat_pred Let_def)
qed

lemma heap_put_cell:
  assumes "heap_shape h" and "r \<noteq> 0" and "r \<le> heap_cap h"
  obtains bs where "heap_put h r x = Some (h\<lparr>heap_blocks := bs\<rparr>)"
    and "heap_cells (h\<lparr>heap_blocks := bs\<rparr>) = (heap_cells h)[unat r - 1 := x]"
    and "heap_shape (h\<lparr>heap_blocks := bs\<rparr>)" and "length bs = length (heap_blocks h)"
proof -
  note i = heap_index [OF assms]
  let ?i = "unat r - 1"
  let ?d = "?i div DVM_HEAP_BLOCK" and ?m = "?i mod DVM_HEAP_BLOCK"
  let ?bs = "(heap_blocks h)[?d := (heap_blocks h ! ?d)[?m := x]]"
  have u: "\<forall>b \<in> set (heap_blocks h). length b = DVM_HEAP_BLOCK" using assms(1) by (simp add: heap_shape_def)
  have l: "length (heap_blocks h ! ?d) = DVM_HEAP_BLOCK" using u i(2) by simp
  have m: "?m < DVM_HEAP_BLOCK" by (simp add: DVM_HEAP_BLOCK_def)
  have u': "\<forall>b \<in> set ?bs. length b = DVM_HEAP_BLOCK"
    using u l by (auto dest: set_update_subset_insert [THEN subsetD])
  show thesis
  proof (rule that)
    show "heap_put h r x = Some (h\<lparr>heap_blocks := ?bs\<rparr>)"
      using i(2) l m assms(2) by (simp add: heap_put_def unat_pred Let_def)
    show "heap_cells (h\<lparr>heap_blocks := ?bs\<rparr>) = (heap_cells h)[?i := x]"
      using concat_uniform_update [OF u i(3)] by (simp add: heap_cells_def)
    show "heap_shape (h\<lparr>heap_blocks := ?bs\<rparr>)" using assms(1) u' by (simp add: heap_shape_def)
    show "length ?bs = length (heap_blocks h)" by simp
  qed
qed

lemma free_chain_update:
  "free_chain cs r rs \<Longrightarrow> x \<notin> set rs \<Longrightarrow> x \<noteq> 0 \<Longrightarrow> free_chain (cs[unat x - 1 := ob]) r rs"
proof (induction rs arbitrary: r)
  case (Cons y rs)
  have "unat x - 1 \<noteq> unat r - 1"
    using Cons.prems unat_pos [of r] unat_pos [of x] by (auto simp: word_unat_eq_iff)
  then have "cs[unat x - 1 := ob] ! (unat r - 1) = cs ! (unat r - 1)" by (rule nth_list_update_neq)
  then show ?case using Cons by auto
qed simp

lemma free_chain_append: "free_chain cs r rs \<Longrightarrow> free_chain (cs @ ds) r rs"
proof (induction rs arbitrary: r)
  case (Cons x rs)
  then have "(cs @ ds) ! (unat r - 1) = cs ! (unat r - 1)"
    using unat_pos [of r] by (auto simp: nth_append)
  with Cons show ?case by auto
qed simp

lemma heap_ok_shape: "heap_ok h \<Longrightarrow> heap_shape h"
  by (simp add: heap_ok_def)

lemma heap_abs_bound: "heap_abs h r = Some x \<Longrightarrow> r \<noteq> 0 \<and> r \<le> heap_size h"
  by (auto simp: heap_abs_def split: if_splits)

lemma heap_size_cap: "heap_shape h \<Longrightarrow> r \<le> heap_size h \<Longrightarrow> r \<le> heap_cap h"
  by (auto simp: heap_shape_def)

lemma unat_pred_eq: "(r::u32) \<noteq> 0 \<Longrightarrow> s \<noteq> 0 \<Longrightarrow> unat r - 1 = unat s - 1 \<longleftrightarrow> r = s"
  using unat_pos [of r] unat_pos [of s] by (auto simp: word_unat_eq_iff)

section \<open>Lookup and update\<close>

lemma dvm__obj_abs: "heap_ok h \<Longrightarrow> dvm__obj h r = Some (heap_abs h r)"
  using heap_slot_cell [of h r] heap_size_cap [of h r]
  by (auto simp: dvm__obj_def heap_abs_def heap_ok_shape)

text \<open>A store into a live cell that leaves it live updates the map.\<close>

lemma heap_put_live:
  assumes ok: "heap_ok h" and x: "heap_abs h r = Some x" and y: "o_live y"
  shows "\<exists>h'. heap_put h r y = Some h' \<and> heap_ok h' \<and> heap_abs h' = (heap_abs h)(r \<mapsto> y) \<and>
    length (heap_blocks h') = length (heap_blocks h)"
proof -
  note sh = heap_ok_shape [OF ok]
  from heap_abs_bound [OF x] have r: "r \<noteq> 0" "r \<le> heap_size h" by auto
  note rc = heap_size_cap [OF sh r(2)]
  obtain bs where p: "heap_put h r y = Some (h\<lparr>heap_blocks := bs\<rparr>)"
    "heap_cells (h\<lparr>heap_blocks := bs\<rparr>) = (heap_cells h)[unat r - 1 := y]"
    "heap_shape (h\<lparr>heap_blocks := bs\<rparr>)" "length bs = length (heap_blocks h)"
    by (rule heap_put_cell [OF sh r(1) rc])
  have i: "unat r - 1 < length (heap_cells h)" using heap_index(1) [OF sh r(1) rc] .
  have live: "o_live (heap_cells h ! (unat r - 1))" using x by (simp add: heap_abs_def split: if_splits)
  have nth: "(heap_cells h)[unat r - 1 := y] ! (unat s - 1) = (if s = r then y else heap_cells h ! (unat s - 1))"
    if "s \<noteq> 0" for s :: u32
    using i unat_pred_eq [OF r(1) that] by (auto simp: nth_list_update)
  have abs: "heap_abs (h\<lparr>heap_blocks := bs\<rparr>) = (heap_abs h)(r \<mapsto> y)"
    using r y nth by (auto simp: heap_abs_def p(2) fun_eq_iff)
  have dead: "heap_dead (h\<lparr>heap_blocks := bs\<rparr>) = heap_dead h"
    using nth y live by (auto simp: heap_dead_def p(2) split: if_splits)
  obtain rs where rs: "free_chain (heap_cells h) (free_head h) rs" "distinct rs" "set rs = heap_dead h"
    using ok by (auto simp: heap_ok_def)
  have "r \<notin> set rs" using rs(3) live by (simp add: heap_dead_def)
  then have "free_chain ((heap_cells h)[unat r - 1 := y]) (free_head h) rs"
    by (rule free_chain_update [OF rs(1) _ r(1)])
  moreover have "\<forall>i. unat (heap_size h) \<le> i \<longrightarrow> i < length (heap_cells h) \<longrightarrow>
      (heap_cells h)[unat r - 1 := y] ! i = obj_zero"
    using ok r unat_pos [OF r(1)] by (auto simp: heap_ok_def word_le_nat_alt nth_list_update)
  ultimately have "heap_ok (h\<lparr>heap_blocks := bs\<rparr>)"
    using p(2,3) dead rs(2,3) unfolding heap_ok_def by auto
  with p abs show ?thesis by auto
qed

section \<open>Freeing and allocating\<close>

lemma cells_update_nth:
  assumes "unat r - 1 < length cs" and "(r::u32) \<noteq> 0" and "s \<noteq> 0"
  shows "cs[unat r - 1 := y] ! (unat s - 1) = (if s = r then y else cs ! (unat s - 1))"
  using assms unat_pred_eq [OF assms(2,3)] by (auto simp: nth_list_update)

lemma beyond_size_update:
  assumes "heap_ok h" and "r \<noteq> 0" and "r \<le> heap_size h"
    and "unat (heap_size h) \<le> i" and "i < length (heap_cells h)"
  shows "(heap_cells h)[unat r - 1 := y] ! i = obj_zero"
  using assms unat_pos [OF assms(2)] by (auto simp: heap_ok_def word_le_nat_alt nth_list_update)

lemma heap_ok_chain:
  assumes "heap_ok h"
  obtains rs where "free_chain (heap_cells h) (free_head h) rs" "distinct rs" "set rs = heap_dead h"
  using assms by (auto simp: heap_ok_def)

lemma heap_cells_free_head [simp]: "heap_cells (h\<lparr>free_head := f\<rparr>) = heap_cells h"
  by (simp add: heap_cells_def)

lemma heap_shape_free_head [simp]: "heap_shape (h\<lparr>free_head := f\<rparr>) = heap_shape h"
  by (simp add: heap_shape_def)

lemma heap_release:
  assumes ok: "heap_ok h" and x: "heap_abs h r = Some x"
  shows "\<exists>h'. heap_put h r (obj_zero\<lparr>o_next_free := free_head h\<rparr>) = Some h' \<and>
    heap_ok (h'\<lparr>free_head := r\<rparr>) \<and> heap_abs (h'\<lparr>free_head := r\<rparr>) = (heap_abs h)(r := None) \<and>
    length (heap_blocks h') = length (heap_blocks h)"
proof -
  note sh = heap_ok_shape [OF ok]
  let ?y = "obj_zero\<lparr>o_next_free := free_head h\<rparr>"
  from heap_abs_bound [OF x] have r: "r \<noteq> 0" "r \<le> heap_size h" by auto
  note rc = heap_size_cap [OF sh r(2)]
  obtain bs where p: "heap_put h r ?y = Some (h\<lparr>heap_blocks := bs\<rparr>)"
    "heap_cells (h\<lparr>heap_blocks := bs\<rparr>) = (heap_cells h)[unat r - 1 := ?y]"
    "heap_shape (h\<lparr>heap_blocks := bs\<rparr>)" "length bs = length (heap_blocks h)"
    by (rule heap_put_cell [OF sh r(1) rc])
  note i = heap_index(1) [OF sh r(1) rc]
  note nth = cells_update_nth [OF i r(1), of _ ?y]
  have y: "\<not> o_live ?y" by (simp add: obj_zero_def)
  have live: "o_live (heap_cells h ! (unat r - 1))" using x by (simp add: heap_abs_def split: if_splits)
  let ?h = "h\<lparr>heap_blocks := bs, free_head := r\<rparr>"
  have shape: "heap_shape ?h" using p(3) heap_shape_free_head [of r "h\<lparr>heap_blocks := bs\<rparr>"] by simp
  have abs: "heap_abs ?h = (heap_abs h)(r := None)"
    using r y nth by (auto simp: heap_abs_def p(2) fun_eq_iff)
  have dead: "heap_dead ?h = insert r (heap_dead h)"
    using nth y r by (auto simp: heap_dead_def p(2) split: if_splits)
  obtain rs where rs: "free_chain (heap_cells h) (free_head h) rs" "distinct rs" "set rs = heap_dead h"
    by (rule heap_ok_chain [OF ok])
  have nin: "r \<notin> set rs" using rs(3) live by (simp add: heap_dead_def)
  then have "free_chain ((heap_cells h)[unat r - 1 := ?y]) (free_head h) rs"
    by (rule free_chain_update [OF rs(1) _ r(1)])
  then have "free_chain (heap_cells ?h) r (r # rs)"
    using i r(1) nth [OF r(1)] by (auto simp: p(2))
  moreover have "\<forall>i. unat (heap_size ?h) \<le> i \<longrightarrow> i < length (heap_cells ?h) \<longrightarrow> heap_cells ?h ! i = obj_zero"
    using beyond_size_update [OF ok r] by (simp add: p(2))
  ultimately have "heap_ok ?h"
    using shape dead rs(2,3) nin unfolding heap_ok_def
    by (intro conjI exI [of _ "r # rs"]) auto
  with p abs show ?thesis by auto
qed

lemma heap_free_ok:
  assumes "heap_ok h"
  shows "\<exists>h'. heap_free h r = Some h' \<and> heap_ok h' \<and> length (heap_blocks h') = length (heap_blocks h) \<and>
    heap_abs h' = (case heap_abs h r of None \<Rightarrow> heap_abs h
       | Some x \<Rightarrow> if o_pins x = 0 then (heap_abs h)(r := None) else heap_abs h)"
proof (cases "heap_abs h r")
  case None
  with assms show ?thesis by (simp add: heap_free_def dvm__obj_abs)
next
  case (Some x)
  from heap_release [OF assms Some] obtain h' where
    "heap_put h r (obj_zero\<lparr>o_next_free := free_head h\<rparr>) = Some h'"
    "heap_ok (h'\<lparr>free_head := r\<rparr>)" "heap_abs (h'\<lparr>free_head := r\<rparr>) = (heap_abs h)(r := None)"
    "length (heap_blocks h') = length (heap_blocks h)" by auto
  with assms Some show ?thesis by (simp add: heap_free_def dvm__obj_abs)
qed

text \<open>Reusing the head of the free list.\<close>

lemma heap_reuse:
  assumes ok: "heap_ok h" and f: "free_head h \<noteq> 0"
  shows "\<exists>h'. heap_alloc al h = Some (free_head h, h') \<and> heap_ok h' \<and> heap_abs h (free_head h) = None \<and>
    heap_abs h' = (heap_abs h)(free_head h \<mapsto> obj_zero\<lparr>o_live := True\<rparr>) \<and>
    length (heap_blocks h') = length (heap_blocks h)"
proof -
  note sh = heap_ok_shape [OF ok]
  obtain rs where rs: "free_chain (heap_cells h) (free_head h) rs" "distinct rs" "set rs = heap_dead h"
    by (rule heap_ok_chain [OF ok])
  define r where "r = free_head h"
  let ?y = "obj_zero\<lparr>o_live := True\<rparr>"
  from rs(1) f obtain rs' where rs': "rs = r # rs'"
      "free_chain (heap_cells h) (o_next_free (heap_cells h ! (unat r - 1))) rs'"
    by (cases rs) (auto simp: r_def)
  have "r \<in> heap_dead h" using rs(3) rs'(1) by auto
  then have r: "r \<noteq> 0" "r \<le> heap_size h" "\<not> o_live (heap_cells h ! (unat r - 1))" by (auto simp: heap_dead_def)
  note rc = heap_size_cap [OF sh r(2)]
  define g where "g = h\<lparr>free_head := o_next_free (heap_cells h ! (unat r - 1))\<rparr>"
  have gs: "heap_shape g" "r \<le> heap_cap g" using sh rc by (simp_all add: g_def)
  obtain bs where p: "heap_put g r ?y = Some (g\<lparr>heap_blocks := bs\<rparr>)"
    "heap_cells (g\<lparr>heap_blocks := bs\<rparr>) = (heap_cells g)[unat r - 1 := ?y]"
    "heap_shape (g\<lparr>heap_blocks := bs\<rparr>)" "length bs = length (heap_blocks g)"
    by (rule heap_put_cell [OF gs(1) r(1) gs(2)])
  let ?h = "g\<lparr>heap_blocks := bs\<rparr>"
  note i = heap_index(1) [OF sh r(1) rc]
  note nth = cells_update_nth [OF i r(1), of _ ?y]
  have cells: "heap_cells ?h = (heap_cells h)[unat r - 1 := ?y]" using p(2) by (simp add: g_def)
  have size: "heap_size ?h = heap_size h" by (simp add: g_def)
  have fh: "free_head ?h = o_next_free (heap_cells h ! (unat r - 1))" by (simp add: g_def)
  have abs: "heap_abs ?h = (heap_abs h)(r \<mapsto> ?y)"
    using r nth by (auto simp: heap_abs_def cells size fun_eq_iff)
  have dead: "heap_dead ?h = heap_dead h - {r}"
    using nth by (auto simp: heap_dead_def cells size split: if_splits)
  have "free_chain (heap_cells ?h) (free_head ?h) rs'"
    using free_chain_update [OF rs'(2) _ r(1)] rs(2) rs'(1) fh by (simp add: cells)
  moreover have "\<forall>i. unat (heap_size ?h) \<le> i \<longrightarrow> i < length (heap_cells ?h) \<longrightarrow> heap_cells ?h ! i = obj_zero"
    using beyond_size_update [OF ok r(1,2)] by (simp add: cells size)
  ultimately have "heap_ok ?h"
    using p(3) dead rs(2,3) rs'(1) unfolding heap_ok_def by (intro conjI exI [of _ rs']) auto
  moreover have "heap_alloc al h = Some (r, ?h)"
    using f p(1) heap_slot_cell [OF sh r(1) rc] by (simp add: heap_alloc_def r_def [symmetric] g_def Let_def)
  moreover have "heap_abs h r = None" using r by (simp add: heap_abs_def)
  ultimately show ?thesis using abs p(4) by (simp add: r_def g_def)
qed

text \<open>A new block keeps the invariant and the map.\<close>

definition heap_grow :: "dvm_heap \<Rightarrow> dvm_heap" where
  "heap_grow h = h\<lparr>heap_blocks := heap_blocks h @ [replicate DVM_HEAP_BLOCK obj_zero],
     heap_nblocks := heap_nblocks h + 1, heap_cap := heap_cap h + of_nat DVM_HEAP_BLOCK\<rparr>"

lemma heap_grow_ok:
  assumes ok: "heap_ok h" and lim: "length (heap_blocks h) < 2 ^ 20 - 1"
  shows "heap_ok (heap_grow h)" and "heap_abs (heap_grow h) = heap_abs h"
    and "unat (heap_cap (heap_grow h)) = unat (heap_cap h) + DVM_HEAP_BLOCK"
proof -
  note sh = heap_ok_shape [OF ok]
  have cells: "heap_cells (heap_grow h) = heap_cells h @ replicate DVM_HEAP_BLOCK obj_zero"
    by (simp add: heap_grow_def heap_cells_def)
  have fields: "heap_size (heap_grow h) = heap_size h" "free_head (heap_grow h) = free_head h"
    by (simp_all add: heap_grow_def)
  note len = heap_cells_length [OF sh]
  have cap: "unat (heap_cap h) = length (heap_blocks h) * 4096"
    using sh by (simp add: heap_shape_def DVM_HEAP_BLOCK_def)
  show capn: "unat (heap_cap (heap_grow h)) = unat (heap_cap h) + DVM_HEAP_BLOCK"
    using cap lim by (simp add: heap_grow_def DVM_HEAP_BLOCK_def unat_word_ariths)
  have nb: "unat (heap_nblocks h + 1) = length (heap_blocks h) + 1"
    using sh lim by (simp add: heap_shape_def unat_word_ariths)
  have size: "unat (heap_size h) \<le> unat (heap_cap h)" using sh by (simp add: heap_shape_def word_le_nat_alt)
  have shape: "heap_shape (heap_grow h)"
    using sh nb lim capn size cap fields
    by (auto simp: heap_shape_def heap_grow_def word_le_nat_alt DVM_HEAP_BLOCK_def)
  have nth: "heap_cells (heap_grow h) ! (unat r - 1) = heap_cells h ! (unat r - 1)"
    if "r \<noteq> 0" "r \<le> heap_size h" for r
    using heap_index(1) [OF sh that(1) heap_size_cap [OF sh that(2)]] by (simp add: cells nth_append)
  show "heap_abs (heap_grow h) = heap_abs h"
    using nth by (auto simp: heap_abs_def fields fun_eq_iff not_less)
  have dead: "heap_dead (heap_grow h) = heap_dead h"
    using nth by (auto simp: heap_dead_def fields)
  obtain rs where rs: "free_chain (heap_cells h) (free_head h) rs" "distinct rs" "set rs = heap_dead h"
    by (rule heap_ok_chain [OF ok])
  have "\<forall>i. unat (heap_size h) \<le> i \<longrightarrow> i < length (heap_cells (heap_grow h)) \<longrightarrow>
      heap_cells (heap_grow h) ! i = obj_zero"
    using ok by (auto simp: heap_ok_def cells nth_append)
  then show "heap_ok (heap_grow h)"
    using shape rs free_chain_append [OF rs(1)] dead unfolding heap_ok_def fields
    by (intro conjI exI [of _ rs]) (auto simp: cells)
qed

text \<open>The bump pointer takes the next cell of the current block.\<close>

lemma heap_bump:
  assumes ok: "heap_ok h" and lt: "heap_size h < heap_cap h"
  defines "r \<equiv> heap_size h + 1"
  shows "\<exists>h'. heap_slot (h\<lparr>heap_size := r\<rparr>) r = Some obj_zero \<and>
    heap_put (h\<lparr>heap_size := r\<rparr>) r (obj_zero\<lparr>o_live := True\<rparr>) = Some h' \<and> heap_ok h' \<and> r \<noteq> 0 \<and>
    heap_abs h r = None \<and> heap_abs h' = (heap_abs h)(r \<mapsto> obj_zero\<lparr>o_live := True\<rparr>) \<and>
    length (heap_blocks h') = length (heap_blocks h)"
proof -
  note sh = heap_ok_shape [OF ok]
  let ?y = "obj_zero\<lparr>o_live := True\<rparr>"
  define g where "g = h\<lparr>heap_size := r\<rparr>"
  have ltn: "unat (heap_size h) < unat (heap_cap h)" using lt by (simp add: word_less_nat_alt)
  have "unat (heap_cap h) < 2 ^ LENGTH(32)" by (rule unsigned_less)
  with ltn have ur: "unat r = unat (heap_size h) + 1" by (simp add: r_def unat_word_ariths)
  then have r: "r \<noteq> 0" by auto
  have rc: "r \<le> heap_cap h" "heap_size h < r" using ur ltn by (simp_all add: word_le_nat_alt word_less_nat_alt)
  have gs: "heap_shape g" using sh rc by (simp add: g_def heap_shape_def)
  have gc: "heap_cells g = heap_cells h" "r \<le> heap_cap g" using rc by (simp_all add: g_def heap_cells_def)
  note i = heap_index(1) [OF sh r rc(1)]
  have zero: "heap_cells h ! (unat r - 1) = obj_zero" using ok i ur by (simp add: heap_ok_def)
  obtain bs where p: "heap_put g r ?y = Some (g\<lparr>heap_blocks := bs\<rparr>)"
    "heap_cells (g\<lparr>heap_blocks := bs\<rparr>) = (heap_cells g)[unat r - 1 := ?y]"
    "heap_shape (g\<lparr>heap_blocks := bs\<rparr>)" "length bs = length (heap_blocks g)"
    by (rule heap_put_cell [OF gs r gc(2)])
  let ?h = "g\<lparr>heap_blocks := bs\<rparr>"
  have cells: "heap_cells ?h = (heap_cells h)[unat r - 1 := ?y]" using p(2) gc by simp
  have fields: "heap_size ?h = r" "free_head ?h = free_head h" by (simp_all add: g_def)
  note nth = cells_update_nth [OF i r, of _ ?y]
  have le: "s \<le> r \<longleftrightarrow> s = r \<or> s \<le> heap_size h" for s
    using ur by (auto simp: word_le_nat_alt word_unat_eq_iff)
  have nle: "s \<noteq> r \<Longrightarrow> r < s \<longleftrightarrow> heap_size h < s" for s using le [of s] by auto
  have abs: "heap_abs ?h = (heap_abs h)(r \<mapsto> ?y)"
  proof
    fix s
    show "heap_abs ?h s = ((heap_abs h)(r \<mapsto> ?y)) s"
      using r nth [of s] nle [of s] by (cases "s = r"; cases "s = 0") (simp_all add: heap_abs_def cells fields)
  qed
  have "s \<in> heap_dead ?h \<longleftrightarrow> s \<in> heap_dead h" for s
    using nth [of s] rc(2) [unfolded not_le [symmetric]] zero le [of s]
    by (cases "s = r"; cases "s = 0") (simp_all add: heap_dead_def cells fields)
  then have dead: "heap_dead ?h = heap_dead h" by blast
  obtain rs where rs: "free_chain (heap_cells h) (free_head h) rs" "distinct rs" "set rs = heap_dead h"
    by (rule heap_ok_chain [OF ok])
  have "r \<notin> set rs" unfolding rs(3) using rc(2) by (simp add: heap_dead_def not_le [symmetric])
  then have "free_chain (heap_cells ?h) (free_head ?h) rs"
    using free_chain_update [OF rs(1) _ r] fields by (simp add: cells)
  moreover have "\<forall>i. unat (heap_size ?h) \<le> i \<longrightarrow> i < length (heap_cells ?h) \<longrightarrow> heap_cells ?h ! i = obj_zero"
    using ok ur fields by (auto simp: heap_ok_def cells nth_list_update)
  ultimately have "heap_ok ?h"
    using p(3) dead rs(2,3) unfolding heap_ok_def by (intro conjI exI [of _ rs]) auto
  moreover have "heap_slot g r = Some obj_zero"
    using heap_slot_cell [OF gs r gc(2)] zero gc(1) by simp
  moreover have "heap_abs h r = None" using rc(2) by (simp add: heap_abs_def)
  ultimately show ?thesis using p abs r by (auto simp: g_def)
qed

lemma heap_alloc_ok:
  assumes ok: "heap_ok h" and lim: "length (heap_blocks h) < 2 ^ 20 - 1"
  shows "\<exists>r h'. heap_alloc al h = Some (r, h') \<and> heap_ok h' \<and>
    length (heap_blocks h') \<le> length (heap_blocks h) + 1 \<and>
    (if r = 0 then h' = h \<and> (\<exists>n. \<not> al n) \<and> free_head h = 0 \<and> heap_size h = heap_cap h
     else heap_abs h r = None \<and> heap_abs h' = (heap_abs h)(r \<mapsto> obj_zero\<lparr>o_live := True\<rparr>))"
proof (cases "free_head h = 0")
  case False
  from heap_reuse [OF ok False, of al] obtain h' where
    "heap_alloc al h = Some (free_head h, h')" "heap_ok h'" "heap_abs h (free_head h) = None"
    "heap_abs h' = (heap_abs h)(free_head h \<mapsto> obj_zero\<lparr>o_live := True\<rparr>)"
    "length (heap_blocks h') = length (heap_blocks h)" by auto
  then show ?thesis using False by (intro exI [of _ "free_head h"] exI [of _ h']) simp
next
  case nofree: True
  show ?thesis
  proof (cases "heap_size h = heap_cap h \<and>
      (\<not> al (unat (heap_nblocks h + 1) * 8) \<or> \<not> al (DVM_HEAP_BLOCK * object_bytes))")
    case True
    then have "heap_alloc al h = Some (0, h)" using nofree by (auto simp: heap_alloc_def)
    moreover have "\<exists>n. \<not> al n" using True by blast
    ultimately show ?thesis using ok True nofree by (intro exI [of _ 0] exI [of _ h]) simp
  next
    case False
    define g where "g = (if heap_size h = heap_cap h then heap_grow h else h)"
    have g: "heap_ok g" "heap_abs g = heap_abs h" "heap_size g = heap_size h"
      "length (heap_blocks g) \<le> length (heap_blocks h) + 1"
      using ok heap_grow_ok [OF ok lim] by (simp_all add: g_def heap_grow_def)
    have sc: "heap_size h \<le> heap_cap h" using heap_ok_shape [OF ok] by (simp add: heap_shape_def)
    have "heap_size g < heap_cap g"
      using heap_grow_ok(3) [OF ok lim] sc g(3)
      by (auto simp: g_def word_less_nat_alt DVM_HEAP_BLOCK_def word_le_nat_alt word_unat_eq_iff)
    from heap_bump [OF g(1) this] obtain h' where h':
      "heap_slot (g\<lparr>heap_size := heap_size g + 1\<rparr>) (heap_size g + 1) = Some obj_zero"
      "heap_put (g\<lparr>heap_size := heap_size g + 1\<rparr>) (heap_size g + 1) (obj_zero\<lparr>o_live := True\<rparr>) = Some h'"
      "heap_ok h'" "heap_size g + 1 \<noteq> 0" "heap_abs g (heap_size g + 1) = None"
      "heap_abs h' = (heap_abs g)(heap_size g + 1 \<mapsto> obj_zero\<lparr>o_live := True\<rparr>)"
      "length (heap_blocks h') = length (heap_blocks g)" by auto
    have "heap_alloc al h = Some (heap_size g + 1, h')"
      using nofree False h'(1,2) by (simp add: heap_alloc_def heap_grow_def [symmetric] g_def Let_def split: if_splits)
    then show ?thesis using h' g by (intro exI [of _ "heap_size g + 1"] exI [of _ h']) simp
  qed
qed

end
