(* ===== verification/Dvm_Store.thy ===== *)
theory Dvm_Store
  imports Dvm_Heap
begin

text \<open>
  The contract of the object heap.  The locale states what the users of the heap rely on (a
  lookup is the abstract map, a store into a live object updates the map and nothing else);
  it is interpreted on the blocks and free list of \<open>Dvm_Heap\<close>, and the pins, the accessors
  and the constructors are shown to refine operations on the map.  The last part runs
  arbitrary sequences of heap operations.
\<close>

section \<open>The interface\<close>

locale object_store =
  fixes inv :: "'h \<Rightarrow> bool"
    and view :: "'h \<Rightarrow> 'r \<Rightarrow> 'o option"
    and live :: "'o \<Rightarrow> bool"
    and look :: "'h \<Rightarrow> 'r \<Rightarrow> 'o option option"
    and slot :: "'h \<Rightarrow> 'r \<Rightarrow> 'o option"
    and store :: "'h \<Rightarrow> 'r \<Rightarrow> 'o \<Rightarrow> 'h option"
  assumes look_view: "inv h \<Longrightarrow> look h r = Some (view h r)"
    and slot_view: "inv h \<Longrightarrow> view h r = Some x \<Longrightarrow> slot h r = Some x"
    and view_live: "view h r = Some x \<Longrightarrow> live x"
    and store_view: "inv h \<Longrightarrow> view h r = Some x \<Longrightarrow> live y \<Longrightarrow>
      ok (store h r y) (\<lambda>h'. inv h' \<and> view h' = (view h)(r \<mapsto> y))"
begin

lemma read_field:
  "inv h \<Longrightarrow> (do { ob \<leftarrow> look h r; Some (case ob of None \<Rightarrow> d | Some x \<Rightarrow> f x) })
     = Some (case view h r of None \<Rightarrow> d | Some x \<Rightarrow> f x)"
  by (simp add: look_view)

lemma modify:
  assumes "inv h" and "\<And>x. live x \<Longrightarrow> live (f x)"
  shows "ok (do { ob \<leftarrow> look h r; case ob of None \<Rightarrow> Some h | Some x \<Rightarrow> store h r (f x) })
    (\<lambda>h'. inv h' \<and> view h' = (view h)(r := map_option f (view h r)))"
proof (cases "view h r")
  case None
  then show ?thesis using assms by (simp add: look_view fun_upd_idem)
next
  case (Some x)
  with store_view [OF assms(1) Some assms(2) [OF view_live [OF Some]]] show ?thesis
    using assms by (simp add: look_view)
qed

lemma write_fields:
  assumes "inv h" and "view h r = Some x" and "live (f x)"
  shows "ok (do { ob \<leftarrow> slot h r; store h r (f ob) }) (\<lambda>h'. inv h' \<and> view h' = (view h)(r \<mapsto> f x))"
  using store_view [OF assms] slot_view [OF assms(1,2)] by simp

end

definition heap_sized :: "nat \<Rightarrow> dvm_heap \<Rightarrow> bool" where
  "heap_sized n h \<longleftrightarrow> heap_ok h \<and> length (heap_blocks h) = n"

lemma heap_sized_ok: "heap_sized n h \<Longrightarrow> heap_ok h"
  by (simp add: heap_sized_def)

interpretation heap: object_store "heap_sized n" heap_abs o_live dvm__obj heap_slot heap_put for n
proof unfold_locales
  fix h r x y
  show "heap_sized n h \<Longrightarrow> dvm__obj h r = Some (heap_abs h r)"
    by (rule dvm__obj_abs [OF heap_sized_ok])
  show "heap_abs h r = Some x \<Longrightarrow> o_live x" by (simp add: heap_abs_def split: if_splits)
  show "heap_slot h r = Some x" if "heap_sized n h" "heap_abs h r = Some x"
    using heap_slot_cell [of h r] heap_size_cap [of h r] heap_abs_bound [OF that(2)]
      heap_ok_shape [OF heap_sized_ok [OF that(1)]] that(2) by (simp add: heap_abs_def split: if_splits)
  show "ok (heap_put h r y) (\<lambda>h'. heap_sized n h' \<and> heap_abs h' = (heap_abs h)(r \<mapsto> y))"
    if "heap_sized n h" "heap_abs h r = Some x" "o_live y"
    using heap_put_live [OF heap_sized_ok [OF that(1)] that(2,3)] that(1)
    by (auto simp: heap_sized_def)
qed

lemma heap_sized_refl: "heap_ok h \<Longrightarrow> heap_sized (length (heap_blocks h)) h"
  by (simp add: heap_sized_def)

section \<open>Pins and accessors\<close>

lemma dvm_pin_ok:
  "heap_sized n h \<Longrightarrow> ok (dvm_pin h r) (\<lambda>h'. heap_sized n h' \<and>
     heap_abs h' = (heap_abs h)(r := map_option (\<lambda>x. x\<lparr>o_pins := o_pins x + 1\<rparr>) (heap_abs h r)))"
  unfolding dvm_pin_def by (rule heap.modify) simp_all

definition unpin_object :: "dvm_object \<Rightarrow> dvm_object" where
  "unpin_object x = (if o_pins x \<noteq> 0 then x\<lparr>o_pins := o_pins x - 1\<rparr> else x)"

lemma dvm_unpin_ok:
  assumes "heap_sized n h"
  shows "ok (dvm_unpin h r) (\<lambda>h'. heap_sized n h' \<and>
     heap_abs h' = (heap_abs h)(r := map_option unpin_object (heap_abs h r)))"
proof (cases "heap_abs h r")
  case None
  then show ?thesis using assms by (simp add: dvm_unpin_def heap.look_view [OF assms] fun_upd_idem)
next
  case (Some x)
  show ?thesis
  proof (cases "o_pins x = 0")
    case True
    with Some assms show ?thesis
      by (simp add: dvm_unpin_def heap.look_view [OF assms] unpin_object_def fun_upd_idem)
  next
    case False
    have "ok (heap_put h r (x\<lparr>o_pins := o_pins x - 1\<rparr>))
      (\<lambda>h'. heap_sized n h' \<and> heap_abs h' = (heap_abs h)(r \<mapsto> x\<lparr>o_pins := o_pins x - 1\<rparr>))"
      using heap.view_live [OF Some] by (intro heap.store_view [OF assms Some]) simp
    with False Some show ?thesis
      by (simp add: dvm_unpin_def heap.look_view [OF assms] unpin_object_def)
  qed
qed

lemma obj_field_abs:
  "heap_ok h \<Longrightarrow> obj_field h r f d = Some (case heap_abs h r of None \<Rightarrow> d | Some x \<Rightarrow> f x)"
  unfolding obj_field_def by (rule heap.read_field [OF heap_sized_refl])

lemma heap_free_sized:
  "heap_sized n h \<Longrightarrow> ok (heap_free h r) (\<lambda>h'. heap_sized n h' \<and>
     heap_abs h' = (case heap_abs h r of None \<Rightarrow> heap_abs h
       | Some x \<Rightarrow> if o_pins x = 0 then (heap_abs h)(r := None) else heap_abs h))"
  using heap_free_ok [of h r] unfolding heap_sized_def ok_def by blast

section \<open>Constructors\<close>

text \<open>
  \<open>creates h ob (r, h')\<close>: either nothing was created and the map is unchanged, or \<open>r\<close> was not in
  use and now holds \<open>ob\<close>; at most one block was added.
\<close>

definition creates :: "dvm_heap \<Rightarrow> dvm_object \<Rightarrow> u32 \<times> dvm_heap \<Rightarrow> bool" where
  "creates h ob = (\<lambda>(r, h'). heap_ok h' \<and> length (heap_blocks h') \<le> length (heap_blocks h) + 1 \<and>
     (if r = 0 then heap_abs h' = heap_abs h
      else heap_abs h r = None \<and> heap_abs h' = (heap_abs h)(r \<mapsto> ob)))"

definition obj_new :: dvm_object where "obj_new = obj_zero\<lparr>o_live := True\<rparr>"

lemma obj_new_live [simp]: "o_live obj_new" "o_pins obj_new = 0"
  by (simp_all add: obj_new_def obj_zero_def)

definition heap_room :: "dvm_heap \<Rightarrow> bool" where
  "heap_room h \<longleftrightarrow> heap_ok h \<and> length (heap_blocks h) < 2 ^ 20 - 1"

lemma heap_alloc_creates: "heap_room h \<Longrightarrow> ok (heap_alloc al h) (creates h obj_new)"
  using heap_alloc_ok [of h al] unfolding heap_room_def creates_def ok_def obj_new_def
  by (auto split: if_splits)

lemma creates_init:
  assumes "creates h x (r, g)" and "r \<noteq> 0" and "o_live (f x)"
  shows "ok (init_slot g r f) (\<lambda>g'. creates h (f x) (r, g'))"
proof -
  have "heap_sized (length (heap_blocks g)) g" "heap_abs g r = Some x"
    using assms by (auto simp: creates_def heap_sized_def)
  from heap.write_fields [OF this, where f = f, OF assms(3)] show ?thesis unfolding init_slot_def
    by (rule ok_mono) (use assms in \<open>auto simp: creates_def heap_sized_def\<close>)
qed

lemma creates_undo:
  assumes "creates h x (r, g)" and "r \<noteq> 0" and "o_pins x = 0"
  shows "ok (heap_free g r) (\<lambda>g'. creates h y (0, g'))"
proof -
  have g: "heap_sized (length (heap_blocks g)) g" "heap_abs g r = Some x" "heap_abs h r = None"
    using assms by (auto simp: creates_def heap_sized_def)
  from heap_free_sized [OF g(1), of r] show ?thesis
    by (rule ok_mono) (use assms g in \<open>auto simp: creates_def heap_sized_def fun_upd_idem\<close>)
qed

lemma creates_null: "creates h x (0, g) \<Longrightarrow> creates h y (0, g)"
  by (simp add: creates_def)

lemma creates_same: "heap_ok h \<Longrightarrow> creates h y (0, h)"
  by (simp add: creates_def)

lemma heap_room_ok: "heap_room h \<Longrightarrow> heap_ok h"
  by (simp add: heap_room_def)

definition plain_object :: "nat \<Rightarrow> nat \<Rightarrow> dvm_object" where
  "plain_object c islots = obj_new\<lparr>o_cls := Some c, o_kind := DVM_OBJ_PLAIN,
     o_slots := if 0 < islots then Some (replicate islots 0) else None\<rparr>"

text \<open>The common part of the constructors: take a cell, give up on null, fill in the header.\<close>

lemma alloc_init:
  assumes room: "heap_room h"
    and null: "\<And>g. creates h obj_new (0, g) \<Longrightarrow> Q (z g)"
    and live: "o_live (f obj_new)"
    and rest: "\<And>r g. r \<noteq> 0 \<Longrightarrow> creates h (f obj_new) (r, g) \<Longrightarrow> ok (K r g) Q"
  shows "ok (heap_alloc al h \<bind> (\<lambda>(r, g). if r = 0 then Some (z g) else init_slot g r f \<bind> K r)) Q"
proof (rule ok_bind [OF heap_alloc_creates [OF room]])
  fix p
  assume c: "creates h obj_new p"
  obtain r g where p: "p = (r, g)" by (cases p)
  show "ok (case p of (r, g) \<Rightarrow> if r = 0 then Some (z g) else init_slot g r f \<bind> K r) Q"
  proof (cases "r = 0")
    case True
    with c p null show ?thesis by simp
  next
    case False
    from creates_init [where f = f, OF c [unfolded p] False live] have "ok (init_slot g r f \<bind> K r) Q"
      by (rule ok_bind) (rule rest [OF False])
    with False p show ?thesis by simp
  qed
qed

text \<open>A further allocation fills a field, or the cell goes back.\<close>

lemma init_or_undo:
  assumes c: "creates h x (r, g)" and r: "r \<noteq> 0" and live: "o_live (f x)" and pins: "o_pins x = 0"
    and yes: "\<And>g'. creates h (f x) (r, g') \<Longrightarrow> Q (y g')"
    and no: "\<And>g'. creates h (f x) (0, g') \<Longrightarrow> Q (n g')"
  shows "ok (if b then init_slot g r f \<bind> (\<lambda>g. Some (y g)) else heap_free g r \<bind> (\<lambda>g. Some (n g))) Q"
proof (cases b)
  case True
  have "ok (init_slot g r f \<bind> (\<lambda>g. Some (y g))) Q"
    by (rule ok_bind [OF creates_init [where f = f, OF c r live]]) (simp add: yes)
  with True show ?thesis by simp
next
  case False
  have "ok (heap_free g r \<bind> (\<lambda>g. Some (n g))) Q"
    by (rule ok_bind [OF creates_undo [OF c r pins, of "f x"]]) (simp add: no)
  with False show ?thesis by simp
qed

lemma dvm_new_object_creates:
  assumes "heap_room h"
  shows "ok (dvm_new_object al h (Some (c, islots))) (creates h (plain_object c islots))"
  unfolding dvm_new_object_def option.case prod.case
proof (rule alloc_init [OF assms])
  fix r g
  let ?x = "obj_new\<lparr>o_cls := Some c, o_kind := DVM_OBJ_PLAIN\<rparr>"
  assume r: "r \<noteq> (0::u32)" and g: "creates h ?x (r, g)"
  show "ok (if 0 < islots then
          (if al (islots * 8) then init_slot g r (\<lambda>ob. ob\<lparr>o_slots := Some (replicate islots 0)\<rparr>) \<bind> (\<lambda>h. Some (r, h))
           else heap_free g r \<bind> (\<lambda>h. Some (0, h)))
          else Some (r, g)) (creates h (plain_object c islots))"
  proof (cases "0 < islots")
    case True
    have "ok (if al (islots * 8) then init_slot g r (\<lambda>ob. ob\<lparr>o_slots := Some (replicate islots 0)\<rparr>) \<bind> (\<lambda>h. Some (r, h))
           else heap_free g r \<bind> (\<lambda>h. Some (0, h))) (creates h (plain_object c islots))"
      by (rule init_or_undo [OF g r]) (use True in \<open>simp_all add: plain_object_def\<close>)
    with True show ?thesis by simp
  next
    case False
    with g show ?thesis by (simp add: plain_object_def obj_new_def obj_zero_def)
  qed
qed (simp_all add: creates_null)

definition string_object :: "nat option \<Rightarrow> string \<Rightarrow> dvm_object" where
  "string_object cls text = obj_new\<lparr>o_cls := cls, o_kind := DVM_OBJ_STRING, o_utf8 := Some text,
     o_utf8_len := of_nat (length text)\<rparr>"

lemma dvm_new_string_n_creates:
  assumes "heap_room h"
  shows "ok (dvm_new_string_n al h cls text) (creates h (string_object cls text))"
  unfolding dvm_new_string_n_def
proof (rule alloc_init [OF assms])
  fix r g
  assume "r \<noteq> (0::u32)" "creates h (obj_new\<lparr>o_cls := cls, o_kind := DVM_OBJ_STRING\<rparr>) (r, g)"
  note g = this
  show "ok (if al (length text + 1) then init_slot g r (\<lambda>ob. ob\<lparr>o_utf8 := Some text, o_utf8_len := of_nat (length text)\<rparr>)
           \<bind> (\<lambda>h. Some (r, h))
         else heap_free g r \<bind> (\<lambda>h. Some (0, h))) (creates h (string_object cls text))"
    by (rule init_or_undo [OF g(2,1)]) (simp_all add: string_object_def)
qed (simp_all add: creates_null)

definition array_object :: "nat option \<Rightarrow> char \<Rightarrow> u32 \<Rightarrow> dvm_object" where
  "array_object cls elem len' = (let bytes = unat len' * dvm__elem_width elem in
     obj_new\<lparr>o_cls := cls, o_kind := DVM_OBJ_ARRAY, o_length := len', o_elem_kind := elem,
       o_data := Some (replicate (if bytes = 0 then 1 else bytes) 0)\<rparr>)"

text \<open>The component descriptors that \<open>dvm_new_array\<close> refuses.\<close>

definition bad_component :: "string \<Rightarrow> bool" where
  "bad_component d \<longleftrightarrow> 255 \<le> length (takeWhile (\<lambda>c. c = CHR ''['') d) \<or> d = [] \<or> d = ''V''"

definition array_outcome ::
    "dvm_heap \<Rightarrow> (string \<Rightarrow> nat option) \<Rightarrow> char \<Rightarrow> string option \<Rightarrow> u32 \<Rightarrow> (u32 \<times> string option) \<times> dvm_heap \<Rightarrow> bool" where
  "array_outcome h cls_of elem d len' = (\<lambda>((r, exc), h').
     creates h (array_object (cls_of (''['' @ array_component elem d)) elem len') (r, h') \<and>
     (r \<noteq> 0 \<longrightarrow> exc = None) \<and>
     (bad_component (array_component elem d) \<longleftrightarrow> exc = Some ''java/lang/IllegalArgumentException''))"

lemma elem_width_range: "1 \<le> dvm__elem_width k" "dvm__elem_width k \<le> 8"
  by (simp_all add: dvm__elem_width_def)

lemma dvm_new_array_outcome:
  assumes room: "heap_room h"
  shows "ok (dvm_new_array al h cls_of elem d len') (array_outcome h cls_of elem d len')"
proof (cases "bad_component (array_component elem d)")
  case True
  then show ?thesis using creates_same [OF heap_room_ok [OF room]]
    by (simp add: dvm_new_array_def bad_component_def array_outcome_def)
next
  case good: False
  let ?w = "dvm__elem_width elem"
  have "unat len' < 2 ^ LENGTH(32)" by (rule unsigned_less)
  moreover have "(2 ^ 64 - 1) div 8 \<le> (2 ^ 64 - 1) div ?w"
    using elem_width_range [of elem] by (intro div_le_mono2) simp_all
  ultimately have fits: "\<not> (?w = 0 \<or> (2 ^ 64 - 1) div ?w < unat len')"
    using elem_width_range [of elem] by simp
  let ?body = "heap_alloc al h \<bind> (\<lambda>(r, h). if r = 0 then Some ((0, None), h)
      else init_slot h r (\<lambda>ob. ob\<lparr>o_cls := cls_of (''['' @ array_component elem d), o_kind := DVM_OBJ_ARRAY,
             o_length := len', o_elem_kind := elem\<rparr>) \<bind>
        (\<lambda>h. if al (if unat len' * ?w = 0 then 1 else unat len' * ?w)
          then init_slot h r (\<lambda>ob. ob\<lparr>o_data := Some (replicate (if unat len' * ?w = 0 then 1 else unat len' * ?w) 0)\<rparr>) \<bind>
                (\<lambda>h. Some ((r, None), h))
          else heap_free h r \<bind> (\<lambda>h. Some ((0, Some ''java/lang/OutOfMemoryError''), h))))"
  have body: "ok (?body)
     (array_outcome h cls_of elem d len')"
    by (rule alloc_init [OF room _ _ init_or_undo])
      (use good in \<open>simp_all add: array_outcome_def creates_null array_object_def Let_def\<close>)
  show ?thesis
  proof (cases "256 < length (array_component elem d) + 2 \<and> \<not> al (length (array_component elem d) + 2)")
    case True
    then have "dvm_new_array al h cls_of elem d len' = Some ((0, Some ''java/lang/OutOfMemoryError''), h)"
      using good unfolding dvm_new_array_def bad_component_def Let_def by (simp only: if_False if_True simp_thms)
    with good creates_same [OF heap_room_ok [OF room]] show ?thesis by (simp add: array_outcome_def)
  next
    case False
    then have "dvm_new_array al h cls_of elem d len' = ?body"
      using good fits unfolding dvm_new_array_def bad_component_def Let_def by (simp only: if_False if_True simp_thms)
    with body show ?thesis by simp
  qed
qed

definition external_object :: "(nat \<times> nat) option \<Rightarrow> u32 \<Rightarrow> u64 list option \<Rightarrow> dvm_object" where
  "external_object cls handle slots = obj_new\<lparr>o_cls := map_option fst cls, o_kind := DVM_OBJ_EXTERNAL,
     o_host_handle := handle, o_slots := slots\<rparr>"

lemma obj_new_slots: "o_slots obj_new = None"
  by (simp add: obj_new_def obj_zero_def)

lemma dvm_wrap_external_creates:
  assumes room: "heap_room h" and desc: "name_to_desc name 512 = Some desc"
  shows "ok (dvm_wrap_external al h cls_of name handle)
    (\<lambda>p. \<exists>slots. creates h (external_object (cls_of desc) handle slots) p)"
  unfolding dvm_wrap_external_def desc bind.bind_lunit Let_def
proof (rule alloc_init [OF room], goal_cases)
  case (1 g)
  then show ?case using creates_null by blast
next
  case (3 r g)
  let ?x = "obj_new\<lparr>o_cls := map_option fst (cls_of desc), o_kind := DVM_OBJ_EXTERNAL, o_host_handle := handle\<rparr>"
  let ?Q = "\<lambda>p. \<exists>slots. creates h (external_object (cls_of desc) handle slots) p"
  have x: "?x = external_object (cls_of desc) handle None" by (simp add: external_object_def obj_new_slots)
  then have here: "?Q (r, g)" using 3 by metis
  have upd: "ok (init_slot g r (\<lambda>ob. ob\<lparr>o_slots := sl\<rparr>) \<bind> (\<lambda>h. Some (r, h))) ?Q" for sl
    by (rule ok_bind [OF creates_init [OF 3(2,1)]]) (auto simp: external_object_def)
  show ?case using here upd by (auto split: option.split)
qed simp

section \<open>Sequences of heap operations\<close>

datatype heap_op =
    Pin u32
  | Unpin u32
  | Discard u32
  | NewObject "(nat \<times> nat) option"
  | NewString "nat option" "string option"
  | NewArray "string \<Rightarrow> nat option" char "string option" u32
  | WrapExternal "string \<Rightarrow> (nat \<times> nat) option" "string option" u32

fun heap_exec :: "alloc \<Rightarrow> heap_op \<Rightarrow> dvm_heap \<Rightarrow> dvm_heap option" where
  "heap_exec al (Pin r) h = dvm_pin h r"
| "heap_exec al (Unpin r) h = dvm_unpin h r"
| "heap_exec al (Discard r) h = dvm__discard_temporary h r"
| "heap_exec al (NewObject cls) h = map_option snd (dvm_new_object al h cls)"
| "heap_exec al (NewString cls s) h = map_option snd (dvm_new_string al h cls s)"
| "heap_exec al (NewArray f e d n) h = map_option snd (dvm_new_array al h f e d n)"
| "heap_exec al (WrapExternal f name k) h = map_option snd (dvm_wrap_external al h f name k)"

text \<open>The allocator may answer differently at every step.\<close>

fun heap_run :: "(alloc \<times> heap_op) list \<Rightarrow> dvm_heap \<Rightarrow> dvm_heap option" where
  "heap_run [] h = Some h"
| "heap_run ((al, c) # cs) h = heap_exec al c h \<bind> heap_run cs"

text \<open>What one operation can do to the abstract heap.\<close>

definition heap_effect :: "heap_op \<Rightarrow> dvm_heap \<Rightarrow> dvm_heap \<Rightarrow> bool" where
  "heap_effect c h h' \<longleftrightarrow> heap_ok h' \<and> length (heap_blocks h') \<le> length (heap_blocks h) + 1 \<and>
     (case c of
        Pin r \<Rightarrow> heap_abs h' = (heap_abs h)(r := map_option (\<lambda>x. x\<lparr>o_pins := o_pins x + 1\<rparr>) (heap_abs h r))
      | Unpin r \<Rightarrow> heap_abs h' = (heap_abs h)(r := map_option unpin_object (heap_abs h r))
      | Discard r \<Rightarrow> heap_abs h' = (case heap_abs h r of None \<Rightarrow> heap_abs h
          | Some x \<Rightarrow> if o_pins x = 0 then (heap_abs h)(r := None) else heap_abs h)
      | _ \<Rightarrow> heap_abs h' = heap_abs h \<or>
          (\<exists>r ob. r \<noteq> 0 \<and> heap_abs h r = None \<and> heap_abs h' = (heap_abs h)(r \<mapsto> ob)))"

lemma creates_effect:
  assumes "creates h ob p" and "\<nexists>r. c = Pin r \<or> c = Unpin r \<or> c = Discard r"
  shows "heap_effect c h (snd p)"
proof -
  obtain r h' where p: "p = (r, h')" by (cases p)
  have "heap_abs h' = heap_abs h \<or> (\<exists>r ob. r \<noteq> 0 \<and> heap_abs h r = None \<and> heap_abs h' = (heap_abs h)(r \<mapsto> ob))"
    using assms(1) by (cases "r = 0") (auto simp: creates_def p)
  with assms show ?thesis
    by (cases c) (simp_all add: creates_def heap_effect_def p)
qed

lemma ok_map_option: "ok m (\<lambda>x. Q (f x)) \<Longrightarrow> ok (map_option f m) Q"
  by (auto simp: ok_def)

lemma heap_exec_effect:
  assumes room: "heap_room h"
  shows "ok (heap_exec al c h) (heap_effect c h)"
proof -
  note hok = heap_room_ok [OF room]
  note sz = heap_sized_refl [OF hok]
  have new: "ok (map_option snd m) (heap_effect c h)"
    if "ok m (creates h ob)" "\<nexists>r. c = Pin r \<or> c = Unpin r \<or> c = Discard r" for m :: "(u32 \<times> dvm_heap) option" and ob
    using that(1) by (intro ok_map_option, elim ok_mono) (rule creates_effect [OF _ that(2)])
  show ?thesis
  proof (cases c)
    case (Pin r)
    show ?thesis using dvm_pin_ok [OF sz, of r] unfolding Pin heap_exec.simps
      by (rule ok_mono) (simp add: heap_effect_def heap_sized_def)
  next
    case (Unpin r)
    show ?thesis using dvm_unpin_ok [OF sz, of r] unfolding Unpin heap_exec.simps
      by (rule ok_mono) (simp add: heap_effect_def heap_sized_def)
  next
    case (Discard r)
    show ?thesis using heap_free_sized [OF sz, of r] unfolding Discard heap_exec.simps dvm__discard_temporary_def
      by (rule ok_mono) (simp add: heap_effect_def heap_sized_def)
  next
    case (NewObject cls)
    show ?thesis
    proof (cases cls)
      case None
      then show ?thesis using hok by (simp add: NewObject dvm_new_object_def heap_effect_def)
    next
      case (Some ci)
      obtain a b where "ci = (a, b)" by (cases ci)
      with Some show ?thesis using new [OF dvm_new_object_creates [OF room, of al a b]] by (simp add: NewObject)
    qed
  next
    case (NewString cls s)
    then show ?thesis using new [OF dvm_new_string_n_creates [OF room, of al cls]]
      by (simp add: dvm_new_string_def)
  next
    case (NewArray f e d n)
    have "ok (map_option snd (dvm_new_array al h f e d n)) (heap_effect c h)"
      using dvm_new_array_outcome [OF room, of al f e d n]
      by (intro ok_map_option, elim ok_mono)
        (use NewArray in \<open>auto simp: array_outcome_def dest!: creates_effect [where c = c]\<close>)
    then show ?thesis by (simp add: NewArray)
  next
    case (WrapExternal f name k)
    obtain desc where "name_to_desc name 512 = Some desc"
      by (cases name) (simp_all add: name_to_desc_def Let_def)
    from dvm_wrap_external_creates [OF room this, of al f k] have "ok (heap_exec al c h) (heap_effect c h)"
      unfolding WrapExternal heap_exec.simps
      by (intro ok_map_option, elim ok_mono) (auto dest!: creates_effect [where c = c] simp: WrapExternal)
    then show ?thesis .
  qed
qed

lemma heap_run_induct:
  assumes "heap_ok h" and "length (heap_blocks h) + length cs < 2 ^ 20" and "P h"
    and step: "\<And>al c h h'. (al, c) \<in> set cs \<Longrightarrow> heap_ok h \<Longrightarrow> heap_effect c h h' \<Longrightarrow> P h \<Longrightarrow> P h'"
  shows "ok (heap_run cs h) (\<lambda>h'. heap_ok h' \<and> length (heap_blocks h') \<le> length (heap_blocks h) + length cs \<and> P h')"
  using assms
proof (induction cs arbitrary: h)
  case Nil
  then show ?case by simp
next
  case (Cons a cs)
  obtain al c where a: "a = (al, c)" by (cases a)
  have "heap_room h" using Cons.prems by (simp add: heap_room_def)
  from heap_exec_effect [OF this, of al c] show ?case unfolding a heap_run.simps
  proof (rule ok_bind)
    fix h'
    assume e: "heap_effect c h h'"
    then have h': "heap_ok h'" "length (heap_blocks h') \<le> length (heap_blocks h) + 1" by (simp_all add: heap_effect_def)
    have "P h'" using Cons.prems(4) [of al c h h'] a e Cons.prems(1,3) by simp
    then have "ok (heap_run cs h') (\<lambda>x. heap_ok x \<and> length (heap_blocks x) \<le> length (heap_blocks h') + length cs \<and> P x)"
      using Cons.prems h' by (intro Cons.IH) (auto simp: a)
    then show "ok (heap_run cs h') (\<lambda>x. heap_ok x \<and> length (heap_blocks x) \<le> length (heap_blocks h) + length ((al, c) # cs) \<and> P x)"
      by (rule ok_mono) (use h' in auto)
  qed
qed

lemma heap_empty_ok: "heap_ok heap_empty"
  by (auto simp: heap_ok_def heap_shape_def heap_empty_def heap_cells_def heap_dead_def intro!: exI [of _ "[]"])

text \<open>A pin count that cannot wrap keeps the object through one operation, and so through a run.\<close>

lemma pinned_step:
  assumes e: "heap_effect c h h'" and x: "heap_abs h r = Some x" "0 < o_pins x"
    and lim: "unat (o_pins x) + 1 < 2 ^ 32" and c: "c \<noteq> Unpin r"
  shows "\<exists>y. heap_abs h' r = Some y \<and> 0 < o_pins y \<and> unat (o_pins y) \<le> unat (o_pins x) + 1 \<and>
    y\<lparr>o_pins := 0\<rparr> = x\<lparr>o_pins := 0\<rparr>"
proof -
  have up: "unat (o_pins x + 1) = unat (o_pins x) + 1" using lim by (simp add: unat_word_ariths)
  then have "0 < o_pins x + 1" by (simp add: word_less_nat_alt)
  with up e x c show ?thesis
    by (cases c) (auto simp: heap_effect_def split: option.splits if_splits)
qed

lemma pinned_run:
  assumes "heap_ok h" and "length (heap_blocks h) + length cs < 2 ^ 20"
    and "heap_abs h r = Some x" and "0 < o_pins x" and "unat (o_pins x) + length cs < 2 ^ 32"
    and "\<forall>(al, c) \<in> set cs. c \<noteq> Unpin r"
  shows "ok (heap_run cs h) (\<lambda>h'. heap_ok h' \<and> (\<exists>y. heap_abs h' r = Some y \<and> 0 < o_pins y \<and>
    y\<lparr>o_pins := 0\<rparr> = x\<lparr>o_pins := 0\<rparr>))"
  using assms
proof (induction cs arbitrary: h x)
  case Nil
  then show ?case by simp
next
  case (Cons a cs)
  obtain al c where a: "a = (al, c)" by (cases a)
  have "heap_room h" using Cons.prems by (simp add: heap_room_def)
  from heap_exec_effect [OF this, of al c] show ?case unfolding a heap_run.simps
  proof (rule ok_bind)
    fix h'
    assume e: "heap_effect c h h'"
    then have h': "heap_ok h'" "length (heap_blocks h') \<le> length (heap_blocks h) + 1" by (simp_all add: heap_effect_def)
    obtain y where y: "heap_abs h' r = Some y" "0 < o_pins y" "unat (o_pins y) \<le> unat (o_pins x) + 1"
        "y\<lparr>o_pins := 0\<rparr> = x\<lparr>o_pins := 0\<rparr>"
      using pinned_step [OF e Cons.prems(3,4)] Cons.prems(5,6) a by auto
    show "ok (heap_run cs h') (\<lambda>h'. heap_ok h' \<and> (\<exists>z. heap_abs h' r = Some z \<and> 0 < o_pins z \<and>
        z\<lparr>o_pins := 0\<rparr> = x\<lparr>o_pins := 0\<rparr>))"
      unfolding y(4) [symmetric] using Cons.prems h' y by (intro Cons.IH) auto
  qed
qed

text \<open>A heap of one block that holds one pinned object.\<close>

definition pinned_heap :: dvm_heap where
  "pinned_heap = \<lparr>heap_blocks = [(obj_new\<lparr>o_pins := 1\<rparr>) # replicate 4095 obj_zero], heap_nblocks = 1,
     heap_size = 1, heap_cap = 4096, free_head = 0\<rparr>"

lemma pinned_heap_ok: "heap_ok pinned_heap"
proof -
  have one: "unat r = 1" if "r \<noteq> 0" "r \<le> 1" for r :: u32
    using that unat_pos [of r] by (simp add: word_le_nat_alt)
  have "heap_dead pinned_heap = {}"
    using one by (force simp: heap_dead_def pinned_heap_def heap_cells_def)
  then show ?thesis
    unfolding heap_ok_def
    by (intro conjI exI [of _ "[]"])
      (auto simp: pinned_heap_def heap_shape_def DVM_HEAP_BLOCK_def heap_cells_def nth_Cons split: nat.splits)
qed

section \<open>Properties\<close>

text \<open>
  C11. \<open>heap_alloc\<close> refines the choice of an unused reference: it never faults, and it either
  reports exhaustion (zero, heap untouched, which happens only when the free list is empty, the
  blocks are full and the allocator refused) or returns a non-null reference that no live
  object has and that now holds a cleared live object, every other object being as before.
\<close>

theorem heap_alloc_refines:
  assumes "heap_ok h" and "length (heap_blocks h) < 2 ^ 20 - 1"
  shows "\<exists>r h'. heap_alloc al h = Some (r, h') \<and> heap_ok h' \<and>
    length (heap_blocks h') \<le> length (heap_blocks h) + 1 \<and>
    (if r = 0 then h' = h \<and> (\<exists>n. \<not> al n) \<and> free_head h = 0 \<and> heap_size h = heap_cap h
     else heap_abs h r = None \<and> heap_abs h' = (heap_abs h)(r \<mapsto> obj_zero\<lparr>o_live := True\<rparr>))"
  by (rule heap_alloc_ok [OF assms])

theorem heap_alloc_refines_witness:
  "\<exists>r h'. heap_alloc (\<lambda>_. True) heap_empty = Some (r, h') \<and> heap_ok h' \<and> r \<noteq> 0 \<and>
     heap_abs h' r = Some (obj_zero\<lparr>o_live := True\<rparr>)"
  using heap_alloc_refines [OF heap_empty_ok, of "\<lambda>_. True"]
  by (auto simp: heap_empty_def split: if_splits)

text \<open>
  C12. \<open>heap_free\<close> removes exactly the object it is given, and only when that object is live and
  not pinned: a null, stale or pinned reference leaves the heap as it was.
\<close>

theorem heap_free_refines:
  assumes "heap_ok h"
  shows "\<exists>h'. heap_free h r = Some h' \<and> heap_ok h' \<and>
    heap_abs h' = (case heap_abs h r of None \<Rightarrow> heap_abs h
       | Some x \<Rightarrow> if o_pins x = 0 then (heap_abs h)(r := None) else heap_abs h)"
  using heap_free_ok [OF assms, of r] by auto

theorem heap_free_refines_witness:
  "\<exists>h'. heap_free heap_empty 5 = Some h' \<and> heap_ok h' \<and> heap_abs h' = heap_abs heap_empty"
  using heap_free_refines [OF heap_empty_ok, of 5]
  by (auto simp: heap_empty_def heap_abs_def)

text \<open>
  \<open>dvm_new_array\<close> never faults: either no object is created and the heap is unchanged, or a
  fresh reference holds an array of the requested length whose zeroed storage has exactly
  \<open>length * width\<close> bytes (one byte when that is zero); an illegal component descriptor, and
  only that, raises \<open>IllegalArgumentException\<close>, and a created array raises nothing.
\<close>

theorem dvm_new_array_exact:
  assumes "heap_ok h" and "length (heap_blocks h) < 2 ^ 20 - 1"
  shows "\<exists>r exc h'. dvm_new_array al h cls_of elem d n = Some ((r, exc), h') \<and> heap_ok h' \<and>
    (if r = 0 then heap_abs h' = heap_abs h
     else heap_abs h r = None \<and> exc = None \<and>
       heap_abs h' = (heap_abs h)(r \<mapsto> obj_zero\<lparr>o_live := True, o_cls := cls_of (''['' @ array_component elem d),
         o_kind := DVM_OBJ_ARRAY, o_length := n, o_elem_kind := elem,
         o_data := Some (replicate (max 1 (unat n * dvm__elem_width elem)) 0)\<rparr>)) \<and>
    (bad_component (array_component elem d) \<longleftrightarrow> exc = Some ''java/lang/IllegalArgumentException'')"
proof -
  have "heap_room h" using assms by (simp add: heap_room_def)
  then obtain r exc h' where n: "dvm_new_array al h cls_of elem d n = Some ((r, exc), h')"
    and o: "array_outcome h cls_of elem d n ((r, exc), h')"
    using dvm_new_array_outcome [of h al cls_of elem d n] by (auto elim!: okE)
  have "(if k = 0 then 1 else k) = max 1 k" for k :: nat by simp
  with n o show ?thesis
    by (intro exI [of _ r] exI [of _ exc] exI [of _ h'])
      (simp add: array_outcome_def creates_def array_object_def obj_new_def Let_def split: if_splits)
qed

theorem dvm_new_array_exact_witness:
  "\<exists>r h'. dvm_new_array (\<lambda>_. True) heap_empty (\<lambda>_. None) CHR ''I'' None 3 = Some ((r, None), h') \<and> r \<noteq> 0 \<and>
     dvm_array_data h' r = Some (Some (replicate 12 0))"
proof -
  obtain r exc h' where e: "dvm_new_array (\<lambda>_. True) heap_empty (\<lambda>_. None) CHR ''I'' None 3 = Some ((r, exc), h')"
    "heap_ok h'"
    "r \<noteq> 0 \<longrightarrow> exc = None \<and> heap_abs h' r = Some (obj_zero\<lparr>o_live := True, o_cls := None,
         o_kind := DVM_OBJ_ARRAY, o_length := 3, o_elem_kind := CHR ''I'',
         o_data := Some (replicate 12 0)\<rparr>)"
    using dvm_new_array_exact [OF heap_empty_ok, of "\<lambda>_. True" "\<lambda>_. None" "CHR ''I''" None 3]
    by (auto simp: heap_empty_def dvm__elem_width_def split: if_splits)
  obtain r\<^sub>0 g where "heap_alloc (\<lambda>_. True) heap_empty = Some (r\<^sub>0, g)" "r\<^sub>0 \<noteq> 0"
    using heap_alloc_ok [OF heap_empty_ok, of "\<lambda>_. True"] by (auto simp: heap_empty_def split: if_splits)
  with e(1) have "r \<noteq> 0"
    by (auto simp: dvm_new_array_def array_component_def Let_def dvm__elem_width_def bind_eq_Some_conv)
  with e show ?thesis by (auto simp: dvm_array_data_def obj_field_abs)
qed

text \<open>
  Starting from the empty heap, every sequence of fewer than \<open>2 ^ 20\<close> heap operations (object,
  string, array and external constructors, pins, unpins and discards in any order, with an
  allocator that may refuse any request) runs without a memory fault and keeps the invariant:
  lookups through the blocks and the free list always agree with the abstract map.
\<close>

theorem heap_run_safe:
  assumes "length cs < 2 ^ 20"
  shows "\<exists>h. heap_run cs heap_empty = Some h \<and> heap_ok h \<and> (\<forall>r. dvm__obj h r = Some (heap_abs h r))"
proof -
  have "ok (heap_run cs heap_empty) (\<lambda>h'. heap_ok h' \<and> length (heap_blocks h') \<le> length (heap_blocks heap_empty) + length cs \<and> True)"
    using assms by (intro heap_run_induct [OF heap_empty_ok]) (simp_all add: heap_empty_def)
  then show ?thesis by (auto elim!: okE simp: dvm__obj_abs)
qed

theorem heap_run_safe_witness:
  "\<exists>h. heap_run [(\<lambda>_. True, NewObject (Some (0, 2))), (\<lambda>_. False, NewString None None), (\<lambda>_. True, Discard 1)] heap_empty = Some h
     \<and> heap_ok h \<and> (\<forall>r. dvm__obj h r = Some (heap_abs h r))"
  by (rule heap_run_safe) simp

text \<open>
  C13. A pinned object survives: whatever sequence of heap operations runs (none of them an
  unpin of this reference), the reference still denotes the same object with the same
  contents, so native code holding it never sees it reclaimed or reused.
\<close>

theorem pinned_survives:
  assumes "heap_ok h" and "length (heap_blocks h) + length cs < 2 ^ 20"
    and "heap_abs h r = Some x" and "0 < o_pins x" and "unat (o_pins x) + length cs < 2 ^ 32"
    and "\<forall>(al, c) \<in> set cs. c \<noteq> Unpin r"
  shows "\<exists>h' y. heap_run cs h = Some h' \<and> dvm__obj h' r = Some (Some y) \<and> 0 < o_pins y \<and>
    y\<lparr>o_pins := 0\<rparr> = x\<lparr>o_pins := 0\<rparr>"
  using pinned_run [OF assms] by (auto elim!: okE simp: dvm__obj_abs)

theorem pinned_survives_witness:
  "\<exists>h' y. heap_run [(\<lambda>_. True, NewString None (Some ''a'')), (\<lambda>_. True, Discard 1)] pinned_heap = Some h' \<and>
     dvm__obj h' 1 = Some (Some y) \<and> 0 < o_pins y \<and> y\<lparr>o_pins := 0\<rparr> = obj_new\<lparr>o_pins := 1\<rparr>\<lparr>o_pins := 0\<rparr>"
  by (rule pinned_survives [OF pinned_heap_ok]) (auto simp: pinned_heap_def heap_abs_def heap_cells_def)

end
