(* ===== verification/Dvm_Intern.thy ===== *)
theory Dvm_Intern
  imports Dvm_Store Probe
begin

text \<open>
  The pool of interned strings (\<open>dvm__intern\<close> in \<open>src/src/dvm/dvm.c\<close>): an open-addressed table,
  at most half full, whose entries name pinned string objects of the heap.  The key of an
  entry is the text of its object.
\<close>

record dvm_intern =
  in_key :: string
  in_ref :: u32
  in_hash :: u32

record intern_pool =
  interns :: "dvm_intern list"
  ninterns :: nat

definition intern_zero :: dvm_intern where
  "intern_zero = \<lparr>in_key = [], in_ref = 0, in_hash = 0\<rparr>"

definition intern_used :: "dvm_intern \<Rightarrow> bool" where "intern_used e \<longleftrightarrow> in_ref e \<noteq> 0"

definition str_hash :: "string \<Rightarrow> u32" where
  "str_hash s = foldl (\<lambda>h c. (h XOR of_char c) * 16777619) 2166136261 s"

definition intern_match :: "string \<Rightarrow> dvm_intern \<Rightarrow> bool" where
  "intern_match s e \<longleftrightarrow> in_hash e = str_hash s \<and> in_key e = s"

text \<open>The copy of the used entries into a larger table.\<close>

fun intern_rehash :: "dvm_intern list \<Rightarrow> dvm_intern list \<Rightarrow> dvm_intern list option" where
  "intern_rehash n [] = Some n"
| "intern_rehash n (e # es) =
     (if \<not> intern_used e then intern_rehash n es
      else do { n \<leftarrow> probe_insert intern_used in_hash n (tab_mask n) e; intern_rehash n es })"

text \<open>\<open>Some None\<close>: the table could not grow.\<close>

definition intern_entry_bytes :: nat where "intern_entry_bytes = 16"

definition intern_grow :: "alloc \<Rightarrow> intern_pool \<Rightarrow> intern_pool option option" where
  "intern_grow al p =
     (let cap = length (interns p) in
      if cap div 2 \<le> ninterns p then
        if (2 ^ 31 - 1) div 2 < cap then Some None
        else do {
          let cap' = (if cap \<noteq> 0 then cap * 2 else 64);
          if al (cap' * intern_entry_bytes) then do {
            n \<leftarrow> intern_rehash (replicate cap' intern_zero) (interns p);
            Some (Some (p\<lparr>interns := n\<rparr>)) }
          else Some None }
      else Some (Some p))"

definition intern_find :: "intern_pool \<Rightarrow> string \<Rightarrow> dvm_intern option option" where
  "intern_find p s = (if length (interns p) \<noteq> 0 then probe_look intern_used (interns p) (intern_match s) (str_hash s)
     else Some None)"

definition intern_add :: "alloc \<Rightarrow> dvm_heap \<Rightarrow> intern_pool \<Rightarrow> string \<Rightarrow> u32 \<Rightarrow> intern_pool option" where
  "intern_add al h p s r = do {
     g \<leftarrow> intern_grow al p;
     case g of None \<Rightarrow> Some p
     | Some p \<Rightarrow> do {
         key \<leftarrow> dvm_string_utf8 h r;
         case key of None \<Rightarrow> Some p
         | Some key \<Rightarrow> do {
             tab \<leftarrow> probe_insert intern_used in_hash (interns p) (tab_mask (interns p))
               \<lparr>in_key = key, in_ref = r, in_hash = str_hash s\<rparr>;
             Some (p\<lparr>interns := tab, ninterns := ninterns p + 1\<rparr>) } } }"

definition dvm__intern ::
    "alloc \<Rightarrow> nat option \<Rightarrow> dvm_heap \<Rightarrow> intern_pool \<Rightarrow> string \<Rightarrow> (u32 \<times> dvm_heap \<times> intern_pool) option" where
  "dvm__intern al string_cls h p s = do {
     hit \<leftarrow> intern_find p s;
     case hit of Some e \<Rightarrow> Some (in_ref e, h, p)
     | None \<Rightarrow> do {
         (r, h) \<leftarrow> dvm_new_string al h string_cls (Some s);
         if r = 0 then Some (0, h, p)
         else do {
           h \<leftarrow> dvm_pin h r;
           p \<leftarrow> intern_add al h p s r;
           Some (r, h, p) } } }"

section \<open>The table\<close>

lemma intern_rehash_all: "intern_rehash n es =
    insert_all (\<lambda>t. probe_insert intern_used in_hash t (tab_mask t)) n (filter intern_used es)"
  by (induction es arbitrary: n) auto

definition table_ok :: "intern_pool \<Rightarrow> bool" where
  "table_ok p \<longleftrightarrow> probe_wf intern_used in_hash (interns p) \<and> length (interns p) \<le> 2 ^ 30 \<and>
     length (filter intern_used (interns p)) = ninterns p \<and> 2 * ninterns p \<le> length (interns p) \<and> 4 \<le> length (interns p)"

text \<open>The empty pool has no table yet; \<open>pool_ok\<close> covers both states.\<close>

definition pool_empty :: intern_pool where "pool_empty = \<lparr>interns = [], ninterns = 0\<rparr>"

definition intern_entries :: "intern_pool \<Rightarrow> string \<Rightarrow> dvm_intern list" where
  "intern_entries p s = (if interns p = [] then [] else probe_entries intern_used in_hash (interns p) (str_hash s))"

definition intern_abs :: "intern_pool \<Rightarrow> string \<Rightarrow> u32 option" where
  "intern_abs p s = map_option in_ref (find (intern_match s) (intern_entries p s))"

definition pool_shape :: "intern_pool \<Rightarrow> bool" where
  "pool_shape p \<longleftrightarrow> (interns p = [] \<and> ninterns p = 0) \<or> table_ok p"

lemma match_hash: "\<forall>e. intern_match s e \<longrightarrow> in_hash e = str_hash s"
  by (simp add: intern_match_def)

lemma table_room:
  assumes "table_ok p"
  shows "1 < free_slots intern_used (interns p)"
  using assms used_free [of intern_used "interns p"] by (auto simp: table_ok_def)

lemma intern_find_abs:
  assumes "pool_shape p"
  shows "intern_find p s = Some (find (intern_match s) (intern_entries p s))"
proof (cases "interns p = []")
  case True
  then show ?thesis by (simp add: intern_find_def intern_entries_def)
next
  case False
  with assms have t: "table_ok p" by (simp add: pool_shape_def)
  from table_room [OF t] have "0 < free_slots intern_used (interns p)" by simp
  from probe.look_ok [OF _ this match_hash] t False show ?thesis
    by (simp add: intern_find_def intern_entries_def table_ok_def)
qed

text \<open>The used entries as a set: every probe of a well-formed table sees exactly these.\<close>

definition used_set :: "dvm_intern list \<Rightarrow> dvm_intern set" where
  "used_set tab = used_in intern_used tab"

lemma used_set_insert:
  assumes "probe_wf intern_used in_hash t" and "intern_used e" and "1 < free_slots intern_used t"
  shows "\<exists>t'. probe_insert intern_used in_hash t (tab_mask t) e = Some t' \<and> probe_wf intern_used in_hash t' \<and>
    Suc (free_slots intern_used t') = free_slots intern_used t \<and> used_set t' = insert e (used_set t) \<and> length t' = length t"
  unfolding used_set_def by (rule used_in_insert [OF assms])

lemma rehash_ok:
  assumes "length (filter intern_used es) < 2 ^ b" and "b < 32"
  shows "\<exists>t'. intern_rehash (replicate (2 ^ b) intern_zero) es = Some t' \<and> probe_wf intern_used in_hash t' \<and>
    used_set t' = used_set es \<and> length t' = 2 ^ b \<and>
    length (filter intern_used t') = length (filter intern_used es)"
  unfolding intern_rehash_all used_set_def
  by (rule rebuild_ok [OF assms]) (simp add: intern_used_def intern_zero_def)

section \<open>The pool and the heap\<close>

text \<open>
  Every entry names a live pinned string object with the text of its key, its hash is the hash
  of that text, and no two entries have the same text.
\<close>

definition entry_ok :: "dvm_heap \<Rightarrow> dvm_intern \<Rightarrow> bool" where
  "entry_ok h e \<longleftrightarrow> in_hash e = str_hash (in_key e) \<and>
     (\<exists>x. heap_abs h (in_ref e) = Some x \<and> 0 < o_pins x \<and> o_kind x = DVM_OBJ_STRING \<and> o_utf8 x = Some (in_key e))"

definition pool_ok :: "dvm_heap \<Rightarrow> intern_pool \<Rightarrow> bool" where
  "pool_ok h p \<longleftrightarrow> pool_shape p \<and> (\<forall>e \<in> used_set (interns p). entry_ok h e) \<and> inj_on in_key (used_set (interns p))"

lemma intern_entries_set:
  assumes "pool_shape p"
  shows "e \<in> set (intern_entries p s) \<and> intern_match s e \<longleftrightarrow> e \<in> used_set (interns p) \<and> intern_match s e"
proof (cases "interns p = []")
  case False
  then have wf: "probe_wf intern_used in_hash (interns p)" using assms by (simp add: pool_shape_def table_ok_def)
  show ?thesis using False probe_entries_sound [of e intern_used in_hash "interns p" "str_hash s"]
      probe_entries_complete [OF wf, of e]
    by (auto simp: intern_entries_def used_set_def used_in_def intern_match_def)
qed (simp add: intern_entries_def used_set_def used_in_def)

lemma intern_lookup:
  assumes "pool_ok h p"
  shows "find (intern_match s) (intern_entries p s) = Some e \<longleftrightarrow> e \<in> used_set (interns p) \<and> in_key e = s"
proof -
  have sh: "pool_shape p" and inj: "inj_on in_key (used_set (interns p))"
    and hash: "\<forall>e \<in> used_set (interns p). in_hash e = str_hash (in_key e)"
    using assms by (auto simp: pool_ok_def entry_ok_def)
  note set = intern_entries_set [OF sh, of _ s]
  show ?thesis
  proof
    assume "find (intern_match s) (intern_entries p s) = Some e"
    then have "e \<in> set (intern_entries p s)" "intern_match s e" by (auto simp: find_Some_iff)
    with set [of e] show "e \<in> used_set (interns p) \<and> in_key e = s" by (simp add: intern_match_def)
  next
    assume e: "e \<in> used_set (interns p) \<and> in_key e = s"
    with hash have m: "intern_match s e" by (auto simp: intern_match_def)
    with e set [of e] have "e \<in> set (intern_entries p s)" by simp
    with m have "find (intern_match s) (intern_entries p s) \<noteq> None" by (auto simp: find_None_iff)
    then obtain e' where f: "find (intern_match s) (intern_entries p s) = Some e'" by blast
    then have "e' \<in> set (intern_entries p s)" "intern_match s e'" by (auto simp: find_Some_iff)
    with set [of e'] have "e' \<in> used_set (interns p)" "in_key e' = s" by (auto simp: intern_match_def)
    with e inj have "e' = e" by (auto dest: inj_onD)
    with f show "find (intern_match s) (intern_entries p s) = Some e" by simp
  qed
qed

lemma intern_abs_iff:
  "pool_ok h p \<Longrightarrow> intern_abs p s = Some r \<longleftrightarrow> (\<exists>e \<in> used_set (interns p). in_key e = s \<and> in_ref e = r)"
  using intern_lookup [of h p s] by (auto simp: intern_abs_def)

lemma intern_abs_None:
  assumes "pool_ok h p"
  shows "intern_abs p s = None \<longleftrightarrow> (\<forall>e \<in> used_set (interns p). in_key e \<noteq> s)"
proof (cases "intern_abs p s")
  case None
  then have "\<not> (\<exists>e \<in> used_set (interns p). in_key e = s)" using intern_abs_iff [OF assms, of s] by auto
  with None show ?thesis by blast
next
  case (Some r)
  with intern_abs_iff [OF assms, of s r] show ?thesis by auto
qed

lemma intern_grow_ok:
  assumes "pool_shape p"
  shows "ok (intern_grow al p) (\<lambda>g. case g of
      None \<Rightarrow> (\<exists>n. \<not> al n) \<or> 2 ^ 29 \<le> ninterns p
    | Some q \<Rightarrow> table_ok q \<and> used_set (interns q) = used_set (interns p) \<and> ninterns q = ninterns p \<and>
        2 * (ninterns q + 1) \<le> length (interns q))"
proof (cases "length (interns p) div 2 \<le> ninterns p")
  case False
  then have "table_ok p" using assms by (auto simp: pool_shape_def)
  moreover then obtain b where "length (interns p) = 2 ^ b" "4 \<le> length (interns p)"
    by (auto simp: table_ok_def probe_wf_def)
  moreover then have "even (length (interns p))" by (cases b) auto
  ultimately show ?thesis using False by (auto simp: intern_grow_def)
next
  case full: True
  show ?thesis
  proof (cases "(2 ^ 31 - 1) div 2 < length (interns p)")
    case True
    then have "length (interns p) = 2 ^ 30" using assms by (auto simp: pool_shape_def table_ok_def)
    then show ?thesis using full by (simp add: intern_grow_def)
  next
    case small: False
    define cap' where "cap' = (if length (interns p) \<noteq> 0 then length (interns p) * 2 else 64)"
    obtain b where b: "cap' = 2 ^ b" "b < 31" "64 \<le> cap' \<or> 8 \<le> cap'"
    proof (cases "interns p = []")
      case True
      then show ?thesis using that [of 6] by (simp add: cap'_def)
    next
      case False
      then have t: "table_ok p" using assms by (simp add: pool_shape_def)
      then obtain k where k: "length (interns p) = 2 ^ k" "4 \<le> length (interns p)"
        by (auto simp: table_ok_def probe_wf_def)
      then have "(2::nat) ^ k < 2 ^ 30" using small by simp
      then have "k < 30" by (rule power_less_imp_less_exp [rotated]) simp
      then show ?thesis using that [of "Suc k"] k False by (simp add: cap'_def)
    qed
    have n: "length (filter intern_used (interns p)) = ninterns p"
      using assms by (auto simp: pool_shape_def table_ok_def)
    have half: "2 * (ninterns p + 1) \<le> cap'"
      using assms full b(3) by (auto simp: cap'_def pool_shape_def table_ok_def)
    have "length (filter intern_used (interns p)) < 2 ^ b" using n half b(1) by simp
    with b(2) obtain t' where t': "intern_rehash (replicate (2 ^ b) intern_zero) (interns p) = Some t'"
        "probe_wf intern_used in_hash t'" "used_set t' = used_set (interns p)" "length t' = 2 ^ b"
        "length (filter intern_used t') = length (filter intern_used (interns p))"
      using rehash_ok [of "interns p" b] by auto
    have "(2::nat) ^ b \<le> 2 ^ 30" using b(2) by (intro power_increasing) auto
    with t' n half b have "table_ok (p\<lparr>interns := t'\<rparr>)" by (auto simp: table_ok_def)
    moreover have "intern_grow al p = (if al (cap' * intern_entry_bytes)
        then intern_rehash (replicate cap' intern_zero) (interns p) \<bind> (\<lambda>n. Some (Some (p\<lparr>interns := n\<rparr>)))
        else Some None)"
      using full small unfolding intern_grow_def Let_def cap'_def by (simp only: if_True if_False)
    ultimately show ?thesis using t' b(1) half by auto
  qed
qed

section \<open>Interning\<close>

lemma entry_ok_effect:
  assumes e: "entry_ok h e" and "heap_abs h' = (heap_abs h)(r \<mapsto> y)" and "in_ref e \<noteq> r"
  shows "entry_ok h' e"
  using assms by (simp add: entry_ok_def)

lemma intern_add_ok:
  assumes p: "pool_ok h p" and new: "intern_abs p s = None" and r: "r \<noteq> 0"
    and ob: "heap_abs h r = Some x" "0 < o_pins x" "o_kind x = DVM_OBJ_STRING" "o_utf8 x = Some s"
    and h: "heap_ok h"
  shows "ok (intern_add al h p s r) (\<lambda>q. pool_ok h q \<and> ninterns q \<le> ninterns p + 1 \<and>
    (intern_abs q = (intern_abs p)(s \<mapsto> r) \<or>
     q = p \<and> ((\<exists>n. \<not> al n) \<or> 2 ^ 29 \<le> ninterns p)))"
proof -
  have sh: "pool_shape p" using p by (simp add: pool_ok_def)
  let ?e = "\<lparr>in_key = s, in_ref = r, in_hash = str_hash s\<rparr>"
  have key: "dvm_string_utf8 h r = Some (Some s)" using ob h by (simp add: dvm_string_utf8_def obj_field_abs)
  show ?thesis unfolding intern_add_def
  proof (rule ok_bind [OF intern_grow_ok [OF sh]])
    fix g
    assume g: "case g of None \<Rightarrow> (\<exists>n. \<not> al n) \<or> 2 ^ 29 \<le> ninterns p
      | Some q \<Rightarrow> table_ok q \<and> used_set (interns q) = used_set (interns p) \<and> ninterns q = ninterns p \<and>
          2 * (ninterns q + 1) \<le> length (interns q)"
    show "ok (case g of None \<Rightarrow> Some p
      | Some q \<Rightarrow> dvm_string_utf8 h r \<bind> (\<lambda>key. case key of None \<Rightarrow> Some q
          | Some key \<Rightarrow> probe_insert intern_used in_hash (interns q) (tab_mask (interns q))
              \<lparr>in_key = key, in_ref = r, in_hash = str_hash s\<rparr> \<bind>
              (\<lambda>tab. Some (q\<lparr>interns := tab, ninterns := ninterns q + 1\<rparr>))))
      (\<lambda>q. pool_ok h q \<and> ninterns q \<le> ninterns p + 1 \<and> (intern_abs q = (intern_abs p)(s \<mapsto> r) \<or>
        q = p \<and> ((\<exists>n. \<not> al n) \<or> 2 ^ 29 \<le> ninterns p)))"
    proof (cases g)
      case None
      with g p show ?thesis by simp
    next
      case (Some q)
      with g have q: "table_ok q" "used_set (interns q) = used_set (interns p)" "ninterns q = ninterns p"
        "2 * (ninterns q + 1) \<le> length (interns q)" by auto
      have "intern_used ?e" using r by (simp add: intern_used_def)
      from used_set_insert [OF _ this table_room [OF q(1)]] q(1) obtain t' where t':
        "probe_insert intern_used in_hash (interns q) (tab_mask (interns q)) ?e = Some t'"
        "probe_wf intern_used in_hash t'" "Suc (free_slots intern_used t') = free_slots intern_used (interns q)"
        "used_set t' = insert ?e (used_set (interns q))" "length t' = length (interns q)"
        by (auto simp: table_ok_def)
      let ?q = "q\<lparr>interns := t', ninterns := ninterns q + 1\<rparr>"
      have "length (filter intern_used t') = ninterns q + 1"
        using used_free [of intern_used t'] used_free [of intern_used "interns q"] t'(3,5) q(1)
        by (simp add: table_ok_def)
      then have tq: "table_ok ?q" using t' q by (simp add: table_ok_def)
      have fresh: "\<forall>e \<in> used_set (interns p). in_key e \<noteq> s" using new intern_abs_None [OF p] by simp
      have us: "used_set (interns ?q) = insert ?e (used_set (interns p))" using t'(4) q(2) by simp
      have "entry_ok h ?e" using ob by (simp add: entry_ok_def)
      moreover have "inj_on in_key (insert ?e (used_set (interns p)))"
        using p fresh by (auto simp: pool_ok_def)
      ultimately have pq: "pool_ok h ?q" using p tq us by (auto simp: pool_ok_def pool_shape_def)
      have "intern_abs ?q = (intern_abs p)(s \<mapsto> r)"
      proof
        fix t
        show "intern_abs ?q t = ((intern_abs p)(s \<mapsto> r)) t"
        proof (cases "intern_abs ?q t")
          case None
          then have "t \<noteq> s" "\<forall>e \<in> used_set (interns p). in_key e \<noteq> t"
            using intern_abs_None [OF pq, of t] us by auto
          with None intern_abs_None [OF p, of t] show ?thesis by simp
        next
          case (Some u)
          with intern_abs_iff [OF pq, of t u] obtain e where
            "e \<in> insert ?e (used_set (interns p))" "in_key e = t" "in_ref e = u"
            unfolding us by blast
          then show ?thesis using Some intern_abs_iff [OF p, of t u] fresh by auto
        qed
      qed
      with Some key t'(1) pq q(3) show ?thesis by simp
    qed
  qed
qed

text \<open>What one call of \<open>dvm__intern\<close> does, with the allocator and the heap below their limits.\<close>

definition interned :: "alloc \<Rightarrow> dvm_heap \<Rightarrow> intern_pool \<Rightarrow> string \<Rightarrow> u32 \<times> dvm_heap \<times> intern_pool \<Rightarrow> bool" where
  "interned al h p s = (\<lambda>(r, h', q). heap_ok h' \<and> pool_ok h' q \<and>
     length (heap_blocks h') \<le> length (heap_blocks h) + 1 \<and> ninterns q \<le> ninterns p + 1 \<and>
     (r = 0 \<longrightarrow> heap_abs h' = heap_abs h \<and> q = p) \<and>
     (r \<noteq> 0 \<longrightarrow> dvm_string_utf8 h' r = Some (Some s)) \<and>
     (case intern_abs p s of
        Some u \<Rightarrow> r = u \<and> h' = h \<and> q = p
      | None \<Rightarrow> r = 0 \<or> heap_abs h r = None \<and>
          (intern_abs q = (intern_abs p)(s \<mapsto> r) \<or> q = p \<and> ((\<exists>n. \<not> al n) \<or> 2 ^ 29 \<le> ninterns p))))"

lemma pool_ok_new:
  assumes "pool_ok h p" and "heap_abs h r = None" and "heap_abs h' = (heap_abs h)(r \<mapsto> y)"
  shows "pool_ok h' p"
proof -
  have "entry_ok h' e" if "e \<in> used_set (interns p)" for e
  proof -
    have e: "entry_ok h e" using assms(1) that by (simp add: pool_ok_def)
    then have "in_ref e \<noteq> r" using assms(2) by (auto simp: entry_ok_def)
    then show ?thesis by (rule entry_ok_effect [OF e assms(3)])
  qed
  with assms(1) show ?thesis by (simp add: pool_ok_def)
qed

lemma dvm__intern_ok:
  assumes h: "heap_room h" and p: "pool_ok h p"
  shows "ok (dvm__intern al cls h p s) (interned al h p s)"
proof (cases "intern_abs p s")
  case (Some u)
  then obtain e where e: "find (intern_match s) (intern_entries p s) = Some e" "in_ref e = u"
    by (auto simp: intern_abs_def)
  then have "e \<in> used_set (interns p)" "in_key e = s" using intern_lookup [OF p] by auto
  then have "entry_ok h e" using p by (simp add: pool_ok_def)
  then have "dvm_string_utf8 h u = Some (Some s)" "u \<noteq> 0"
    using e(2) heap_room_ok [OF h] \<open>in_key e = s\<close>
    by (auto simp: entry_ok_def dvm_string_utf8_def obj_field_abs dest: heap_abs_bound)
  moreover have "intern_find p s = Some (Some e)" using intern_find_abs p e(1) by (simp add: pool_ok_def)
  ultimately show ?thesis using Some e(2) p heap_room_ok [OF h] by (simp add: dvm__intern_def interned_def)
next
  case None
  then have f: "intern_find p s = Some None"
    using intern_find_abs [of p s] p by (simp add: pool_ok_def intern_abs_def)
  have "ok (dvm_new_string al h cls (Some s)) (creates h (string_object cls s))"
    using dvm_new_string_n_creates [OF h] by (simp add: dvm_new_string_def)
  then obtain r g where n: "dvm_new_string al h cls (Some s) = Some (r, g)" and c: "creates h (string_object cls s) (r, g)"
    by (auto elim!: okE)
  show ?thesis
  proof (cases "r = 0")
    case True
    with c have g: "heap_ok g" "heap_abs g = heap_abs h" "length (heap_blocks g) \<le> length (heap_blocks h) + 1"
      by (auto simp: creates_def)
    then have "pool_ok g p" using p by (simp add: pool_ok_def entry_ok_def)
    with True g f n None show ?thesis by (simp add: dvm__intern_def interned_def)
  next
    case False
    let ?x = "string_object cls s"
    from c False have g: "heap_ok g" "heap_abs h r = None" "heap_abs g = (heap_abs h)(r \<mapsto> ?x)"
      "length (heap_blocks g) \<le> length (heap_blocks h) + 1" by (auto simp: creates_def)
    let ?y = "?x\<lparr>o_pins := o_pins ?x + 1\<rparr>"
    obtain k where k: "dvm_pin g r = Some k" "heap_ok k" "length (heap_blocks k) = length (heap_blocks g)"
        "heap_abs k = (heap_abs h)(r \<mapsto> ?y)"
      using dvm_pin_ok [OF heap_sized_refl [OF g(1)], of r] g(3) by (auto elim!: okE simp: heap_sized_def)
    have y: "heap_abs k r = Some ?y" "0 < o_pins ?y" "o_kind ?y = DVM_OBJ_STRING" "o_utf8 ?y = Some s"
      using k(4) by (simp_all add: string_object_def obj_new_def obj_zero_def)
    note pk = pool_ok_new [OF p g(2) k(4)]
    have "ok (intern_add al k p s r) (\<lambda>q. pool_ok k q \<and> ninterns q \<le> ninterns p + 1 \<and> (intern_abs q = (intern_abs p)(s \<mapsto> r) \<or>
      q = p \<and> ((\<exists>n. \<not> al n) \<or> 2 ^ 29 \<le> ninterns p)))"
      by (rule intern_add_ok [OF pk None False y k(2)])
    then obtain q where q: "intern_add al k p s r = Some q" "pool_ok k q" "ninterns q \<le> ninterns p + 1"
      "intern_abs q = (intern_abs p)(s \<mapsto> r) \<or> q = p \<and> ((\<exists>n. \<not> al n) \<or> 2 ^ 29 \<le> ninterns p)"
      by (auto elim!: okE)
    moreover have "dvm_string_utf8 k r = Some (Some s)"
      using y k(2) by (simp add: dvm_string_utf8_def obj_field_abs)
    ultimately show ?thesis using False f n k g None by (simp add: dvm__intern_def interned_def)
  qed
qed

text \<open>An allocator that refuses nothing: every literal gets an object.\<close>

lemma new_string_created:
  assumes h: "heap_room h" and n: "dvm_new_string (\<lambda>_. True) h cls s = Some (r, g)"
  shows "r \<noteq> 0"
proof -
  obtain r0 h0 where "heap_alloc (\<lambda>_. True) h = Some (r0, h0)" "r0 \<noteq> 0"
    using heap_alloc_ok [of h "\<lambda>_. True"] h by (auto simp: heap_room_def split: if_splits)
  with n show ?thesis by (auto simp: dvm_new_string_def dvm_new_string_n_def bind_eq_Some_conv)
qed

lemma intern_created:
  assumes h: "heap_room h" and p: "pool_ok h p" and n: "ninterns p < 2 ^ 29"
    and i: "dvm__intern (\<lambda>_. True) cls h p s = Some (r, h', q)"
  shows "intern_abs q s = Some r \<and> (\<forall>t u. intern_abs p t = Some u \<longrightarrow> intern_abs q t = Some u)"
proof -
  have o: "interned (\<lambda>_. True) h p s (r, h', q)" using dvm__intern_ok [OF h p, of "\<lambda>_. True" cls s] i by simp
  show ?thesis
  proof (cases "intern_abs p s")
    case (Some u)
    with o show ?thesis by (auto simp: interned_def)
  next
    case None
    then have "intern_find p s = Some None"
      using intern_find_abs [of p s] p by (simp add: pool_ok_def intern_abs_def)
    with i have "r \<noteq> 0"
      using new_string_created [OF h, of cls "Some s"]
      by (auto simp: dvm__intern_def bind_eq_Some_conv split: if_splits)
    with o None n show ?thesis by (auto simp: interned_def)
  qed
qed

text \<open>Interning a list of literals in order.\<close>

fun intern_all :: "alloc \<Rightarrow> nat option \<Rightarrow> dvm_heap \<Rightarrow> intern_pool \<Rightarrow> string list \<Rightarrow>
    (u32 list \<times> dvm_heap \<times> intern_pool) option" where
  "intern_all al cls h p [] = Some ([], h, p)"
| "intern_all al cls h p (s # ss) = do {
     (r, h, p) \<leftarrow> dvm__intern al cls h p s;
     (rs, h, p) \<leftarrow> intern_all al cls h p ss;
     Some (r # rs, h, p) }"

lemma intern_all_ok:
  assumes "heap_ok h" and "pool_ok h p" and "length (heap_blocks h) + length ss < 2 ^ 20"
    and "ninterns p + length ss < 2 ^ 29"
  shows "\<exists>rs h' q. intern_all (\<lambda>_. True) cls h p ss = Some (rs, h', q) \<and> pool_ok h' q \<and> length rs = length ss \<and>
    (\<forall>t u. intern_abs p t = Some u \<longrightarrow> intern_abs q t = Some u) \<and>
    (\<forall>i < length ss. intern_abs q (ss ! i) = Some (rs ! i))"
  using assms
proof (induction ss arbitrary: h p)
  case Nil
  then show ?case by simp
next
  case (Cons s ss)
  have room: "heap_room h" using Cons.prems by (simp add: heap_room_def)
  obtain r h1 p1 where i: "dvm__intern (\<lambda>_. True) cls h p s = Some (r, h1, p1)"
    and o: "interned (\<lambda>_. True) h p s (r, h1, p1)"
    using dvm__intern_ok [OF room Cons.prems(2), of "\<lambda>_. True" cls s] by (auto elim!: okE)
  have c: "intern_abs p1 s = Some r" "\<forall>t u. intern_abs p t = Some u \<longrightarrow> intern_abs p1 t = Some u"
    using intern_created [OF room Cons.prems(2) _ i] Cons.prems(4) by auto
  have "heap_ok h1" "pool_ok h1 p1" "length (heap_blocks h1) + length ss < 2 ^ 20" "ninterns p1 + length ss < 2 ^ 29"
    using o Cons.prems by (auto simp: interned_def)
  from Cons.IH [OF this] obtain rs h' q where q: "intern_all (\<lambda>_. True) cls h1 p1 ss = Some (rs, h', q)"
    "pool_ok h' q" "length rs = length ss" "\<forall>t u. intern_abs p1 t = Some u \<longrightarrow> intern_abs q t = Some u"
    "\<forall>i < length ss. intern_abs q (ss ! i) = Some (rs ! i)" by blast
  have "\<forall>i < length (s # ss). intern_abs q ((s # ss) ! i) = Some ((r # rs) ! i)"
    using q c(1) by (auto simp: nth_Cons split: nat.split)
  with i q c(2) show ?case by simp
qed

lemma pool_empty_ok: "pool_ok h pool_empty"
  by (simp add: pool_ok_def pool_empty_def pool_shape_def used_set_def used_in_def)

section \<open>Properties\<close>

text \<open>
  C14. \<open>dvm__intern\<close> refines a map from texts to references: a text already in the pool yields
  its object and changes nothing; a new text yields a fresh pinned string object with exactly
  that text, recorded in the pool unless the table cannot grow; zero means that no object was
  created.  The probe loops always end and the pool keeps its invariant.
\<close>

theorem dvm__intern_refines:
  assumes "heap_ok h" and "length (heap_blocks h) < 2 ^ 20 - 1" and "pool_ok h p"
  shows "\<exists>r h' q. dvm__intern al cls h p s = Some (r, h', q) \<and> heap_ok h' \<and> pool_ok h' q \<and>
    (r \<noteq> 0 \<longrightarrow> dvm_string_utf8 h' r = Some (Some s)) \<and>
    (case intern_abs p s of
       Some u \<Rightarrow> r = u \<and> h' = h \<and> q = p
     | None \<Rightarrow> r = 0 \<and> heap_abs h' = heap_abs h \<and> q = p \<or>
         r \<noteq> 0 \<and> heap_abs h r = None \<and>
         (intern_abs q = (intern_abs p)(s \<mapsto> r) \<or> q = p \<and> ((\<exists>n. \<not> al n) \<or> 2 ^ 29 \<le> ninterns p)))"
proof -
  have "heap_room h" using assms by (simp add: heap_room_def)
  from dvm__intern_ok [OF this assms(3), of al cls s] obtain r h' q where
    "dvm__intern al cls h p s = Some (r, h', q)" "interned al h p s (r, h', q)" by (auto elim!: okE)
  then show ?thesis
    by (intro exI [of _ r] exI [of _ h'] exI [of _ q]) (auto simp: interned_def split: option.splits)
qed

theorem dvm__intern_refines_witness:
  "\<exists>r h' q. dvm__intern (\<lambda>_. True) None heap_empty pool_empty ''main'' = Some (r, h', q) \<and> heap_ok h' \<and> pool_ok h' q"
  using dvm__intern_refines [OF heap_empty_ok _ pool_empty_ok, of "\<lambda>_. True" None "''main''"]
  by (auto simp: heap_empty_def)

text \<open>
  Identity of literals: interning any sequence of fewer than \<open>2 ^ 20\<close> texts from the empty
  pool (with an allocator that refuses nothing) yields equal references for two positions
  exactly when the texts are equal, through every growth of the table.
\<close>

theorem intern_identity:
  assumes "length ss < 2 ^ 20"
  shows "\<exists>rs h q. intern_all (\<lambda>_. True) cls heap_empty pool_empty ss = Some (rs, h, q) \<and> length rs = length ss \<and>
    (\<forall>i < length ss. \<forall>j < length ss. rs ! i = rs ! j \<longleftrightarrow> ss ! i = ss ! j)"
proof -
  obtain rs h q where q: "intern_all (\<lambda>_. True) cls heap_empty pool_empty ss = Some (rs, h, q)" "pool_ok h q"
    "length rs = length ss" "\<forall>i < length ss. intern_abs q (ss ! i) = Some (rs ! i)"
    using intern_all_ok [OF heap_empty_ok pool_empty_ok, of ss cls] assms
    by (auto simp: heap_empty_def pool_empty_def)
  have inj: "s = t" if st: "intern_abs q s = Some r" "intern_abs q t = Some r" for s t r
  proof -
    obtain d e where "d \<in> used_set (interns q)" "in_key d = s" "in_ref d = r"
      "e \<in> used_set (interns q)" "in_key e = t" "in_ref e = r"
      using st intern_abs_iff [OF q(2)] by blast
    moreover from this q(2) have "entry_ok h d" "entry_ok h e" by (simp_all add: pool_ok_def)
    ultimately show ?thesis by (auto simp: entry_ok_def)
  qed
  have "rs ! i = rs ! j \<longleftrightarrow> ss ! i = ss ! j" if "i < length ss" "j < length ss" for i j
  proof
    assume "rs ! i = rs ! j"
    with q(4) that have "intern_abs q (ss ! i) = Some (rs ! i)" "intern_abs q (ss ! j) = Some (rs ! i)" by auto
    then show "ss ! i = ss ! j" by (rule inj)
  next
    assume "ss ! i = ss ! j"
    with q(4) that show "rs ! i = rs ! j" by (metis option.inject)
  qed
  with q show ?thesis by blast
qed

theorem intern_identity_witness:
  "\<exists>rs h q. intern_all (\<lambda>_. True) None heap_empty pool_empty [''a'', ''b'', ''a''] = Some (rs, h, q) \<and> length rs = 3 \<and>
    rs ! 0 = rs ! 2 \<and> rs ! 0 \<noteq> rs ! 1"
proof -
  obtain rs h q where "intern_all (\<lambda>_. True) None heap_empty pool_empty [''a'', ''b'', ''a''] = Some (rs, h, q)"
    "length rs = length [''a'', ''b'', ''a'']"
    "\<forall>i < length [''a'', ''b'', ''a'']. \<forall>j < length [''a'', ''b'', ''a''].
       rs ! i = rs ! j \<longleftrightarrow> [''a'', ''b'', ''a''] ! i = [''a'', ''b'', ''a''] ! j"
    using intern_identity [of "[''a'', ''b'', ''a'']" None] by (auto simp del: intern_all.simps)
  then show ?thesis by (intro exI [of _ rs] exI [of _ h] exI [of _ q]) (simp del: intern_all.simps)
qed

end
