(* ===== verification/Dvm_Class.thy ===== *)
theory Dvm_Class
  imports Dvm_Intern Dex_Annotation
begin

text \<open>
  Classes and their resolution (\<open>src/src/dvm/dvm.c\<close>, sections "Class registry" and
  "Resolution"): the hash chains of the registry, assignability, method lookup with its
  per-class cache, and field lookup.  A class pointer is the index of the class among all
  classes allocated so far; a method pointer is a class and an index into its methods.  The
  loops that follow superclass, interface and chain links take a bound on their length, and
  \<open>None\<close> is a walk that has not ended within it.
\<close>

type_synonym cref = nat
type_synonym mref = "nat \<times> nat"

record dvm_field =
  f_name :: "string option"
  f_type :: "string option"
  f_access :: u32
  f_cls :: cref
  f_slot :: u16
  f_kind :: char

record dvm_method =
  m_cls :: cref
  m_name :: "string option"
  m_sig :: "string option"
  m_shorty :: "string option"
  m_access :: u32
  m_dex :: "nat option"
  m_code :: dex_code
  m_has_code :: bool
  m_builtin :: bool
  m_arg_slots :: int
  m_arg_count :: int
  m_ret_kind :: char

record mcache_slot =
  mc_hash :: u32
  mc_name :: string
  mc_sig :: "string option"
  mc_m :: mref

record dvm_class =
  c_desc :: string
  c_name :: string
  c_super :: "cref option"
  c_ifaces :: "cref option list"
  c_access :: u32
  c_dex :: "nat option"
  c_class_def_idx :: u32
  c_static_values_off :: u32
  c_ifields :: "dvm_field list"
  c_ifields_null :: bool
  c_sfields :: "dvm_field list"
  c_sfields_null :: bool
  c_sslots :: "u64 list option"
  c_methods :: "dvm_method list"
  c_islots :: nat
  c_init_state :: nat
  c_is_array :: bool
  c_is_primitive :: bool
  c_is_interface :: bool
  c_external :: bool
  c_synthesized :: bool
  c_elem_kind :: char
  c_elem :: "cref option"
  c_hash_next :: "cref option"
  c_mcache :: "mcache_slot list"
  c_mcache_len :: u32

definition class_zero :: dvm_class where
  "class_zero = \<lparr>c_desc = [], c_name = [], c_super = None, c_ifaces = [], c_access = 0, c_dex = None,
     c_class_def_idx = 0, c_static_values_off = 0, c_ifields = [], c_ifields_null = False,
     c_sfields = [], c_sfields_null = False, c_sslots = None,
     c_methods = [], c_islots = 0, c_init_state = 0, c_is_array = False, c_is_primitive = False,
     c_is_interface = False, c_external = False, c_synthesized = False, c_elem_kind = CHR 0x00,
     c_elem = None, c_hash_next = None, c_mcache = [], c_mcache_len = 0\<rparr>"

text \<open>
  \<open>reg_all\<close> are the classes allocated so far, \<open>reg_list\<close> with its capacity the teardown list of
  the VM, \<open>class_hash\<close> the heads of the hash chains.
\<close>

record registry =
  reg_all :: "dvm_class list"
  class_hash :: "cref option list"
  reg_list :: "cref list"
  classes_cap :: nat

definition DVM_CLASS_HASH :: nat where "DVM_CLASS_HASH = 1024"

definition registry_empty :: registry where
  "registry_empty = \<lparr>reg_all = [], class_hash = replicate DVM_CLASS_HASH None, reg_list = [], classes_cap = 0\<rparr>"

section \<open>Registry\<close>

definition desc_bucket :: "string \<Rightarrow> nat" where
  "desc_bucket desc = unat (str_hash desc mod of_nat DVM_CLASS_HASH)"

primrec chain_find :: "nat \<Rightarrow> dvm_class list \<Rightarrow> string \<Rightarrow> cref option \<Rightarrow> cref option option" where
  "chain_find 0 cs desc c = None"
| "chain_find (Suc n) cs desc c = (case c of None \<Rightarrow> Some None
     | Some i \<Rightarrow> do {
         k \<leftarrow> c_at cs i;
         if c_desc k = desc then Some (Some i) else chain_find n cs desc (c_hash_next k) })"

definition class_lookup :: "registry \<Rightarrow> string \<Rightarrow> cref option option" where
  "class_lookup g desc = do {
     c \<leftarrow> c_at (class_hash g) (desc_bucket desc);
     chain_find (length (reg_all g) + 1) (reg_all g) desc c }"

text \<open>\<open>sizeof (struct dvm_class)\<close> on the supported hosts.\<close>

definition class_bytes :: nat where "class_bytes = 240"

definition desc_class_name :: "string \<Rightarrow> string" where
  "desc_class_name desc = (if 2 \<le> length desc \<and> hd desc = CHR ''L'' \<and> last desc = CHR '';''
     then take (length desc - 2) (drop 1 desc) else desc)"

definition class_register :: "alloc \<Rightarrow> registry \<Rightarrow> string \<Rightarrow> (cref option \<times> registry) option" where
  "class_register al g desc =
     (if \<not> al class_bytes \<or> \<not> al (length desc + 1) \<or> \<not> al (length (desc_class_name desc) + 1)
      then Some (None, g)
      else do {
        let h = desc_bucket desc;
        let r = length (reg_all g);
        head \<leftarrow> c_at (class_hash g) h;
        heads \<leftarrow> c_set (class_hash g) h (Some r);
        let c = class_zero\<lparr>c_desc := desc, c_name := desc_class_name desc, c_hash_next := head\<rparr>;
        let cap = (if length (reg_list g) = classes_cap g then
                     (let cap = (if classes_cap g \<noteq> 0 then classes_cap g * 2 else 256) in
                      if al (cap * 8) then cap else classes_cap g)
                   else classes_cap g);
        Some (Some r, g\<lparr>reg_all := reg_all g @ [c], class_hash := heads, classes_cap := cap,
          reg_list := (if length (reg_list g) < cap then reg_list g @ [r] else reg_list g)\<rparr>) })"

definition dvm__register_builtin :: "alloc \<Rightarrow> registry \<Rightarrow> string \<Rightarrow> (cref option \<times> registry) option" where
  "dvm__register_builtin al g desc = class_register al g desc"

definition set_class :: "registry \<Rightarrow> cref \<Rightarrow> (dvm_class \<Rightarrow> dvm_class) \<Rightarrow> registry option" where
  "set_class g i f = do {
     c \<leftarrow> c_at (reg_all g) i;
     cs \<leftarrow> c_set (reg_all g) i (f c);
     Some (g\<lparr>reg_all := cs\<rparr>) }"

definition dvm__define_primitive :: "alloc \<Rightarrow> registry \<Rightarrow> string \<Rightarrow> (cref option \<times> registry) option" where
  "dvm__define_primitive al g desc = do {
     c \<leftarrow> class_lookup g desc;
     case c of Some i \<Rightarrow> Some (Some i, g)
     | None \<Rightarrow> do {
         (c, g) \<leftarrow> class_register al g desc;
         case c of None \<Rightarrow> Some (None, g)
         | Some i \<Rightarrow> do {
             g \<leftarrow> set_class g i (\<lambda>c. c\<lparr>c_is_primitive := True, c_init_state := 2\<rparr>);
             Some (Some i, g) } } }"

definition has_prefix :: "string \<Rightarrow> string \<Rightarrow> bool" where
  "has_prefix p s \<longleftrightarrow> take (length p) s = p"

definition boot_prefixes :: "string list" where
  "boot_prefixes = [''Ljava/'', ''Ljavax/'', ''Landroid/'', ''Ldalvik/'', ''Llibcore/'']"

text \<open>\<open>http_core\<close> is \<open>dvm_runtime_http_core_class\<close>, a table of the built-in library.\<close>

definition desc_is_boot_class :: "(string \<Rightarrow> bool) \<Rightarrow> string \<Rightarrow> bool" where
  "desc_is_boot_class http_core desc \<longleftrightarrow> http_core desc \<or> (\<exists>p \<in> set boot_prefixes. has_prefix p desc)"

definition platform_prefixes :: "string list" where
  "platform_prefixes = [''Ljava/'', ''Ljavax/'', ''Landroid/'', ''Landroidx/'', ''Ldalvik/'', ''Llibcore/'',
     ''Lsun/'', ''Lcom/android/'', ''Lorg/apache/'', ''Lorg/json/'', ''Lorg/w3c/'',
     ''Lorg/xml/'', ''Lorg/xmlpull/'', ''Ljunit/'']"

definition desc_is_platform :: "(string \<Rightarrow> bool) \<Rightarrow> bool \<Rightarrow> string option \<Rightarrow> bool" where
  "desc_is_platform http_core http_optional desc = (case desc of None \<Rightarrow> True
     | Some d \<Rightarrow>
         if has_prefix ''Lorg/apache/http/'' d \<and> \<not> http_core d \<and> \<not> http_optional then False
         else if d \<noteq> [] \<and> hd d = CHR ''['' then True
         else (\<exists>p \<in> set platform_prefixes. has_prefix p d))"

definition class_absent :: "(string \<Rightarrow> bool) \<Rightarrow> bool \<Rightarrow> dvm_class option \<Rightarrow> bool" where
  "class_absent http_core http_optional c = (case c of None \<Rightarrow> False
     | Some k \<Rightarrow> c_synthesized k \<and> \<not> desc_is_platform http_core http_optional (Some (c_desc k)))"

section \<open>Assignability\<close>

text \<open>
  \<open>class_assignable\<close> and \<open>iface_assignable\<close> call each other; the bound counts calls and loop
  iterations together.
\<close>

primrec super_reaches :: "nat \<Rightarrow> dvm_class list \<Rightarrow> cref option \<Rightarrow> cref \<Rightarrow> bool option" where
  "super_reaches 0 cs c t = None"
| "super_reaches (Suc n) cs c t = (case c of None \<Rightarrow> Some False
     | Some i \<Rightarrow> do {
         k \<leftarrow> c_at cs i;
         kt \<leftarrow> c_at cs t;
         if i = t \<or> c_desc k = c_desc kt then Some True else super_reaches n cs (c_super k) t })"

definition OBJECT_DESC :: string where "OBJECT_DESC = ''Ljava/lang/Object;''"

primrec iface_any :: "(cref \<Rightarrow> bool option) \<Rightarrow> cref \<Rightarrow> cref \<Rightarrow> cref option list \<Rightarrow> bool option" where
  "iface_any assignable from' c [] = Some False"
| "iface_any assignable from' c (j # js) = (case j of None \<Rightarrow> iface_any assignable from' c js
     | Some i \<Rightarrow>
         if i \<noteq> c \<and> i \<noteq> from' then do {
           a \<leftarrow> assignable i;
           if a then Some True else iface_any assignable from' c js }
         else iface_any assignable from' c js)"

primrec iface_assignable ::
    "nat \<Rightarrow> (cref \<Rightarrow> bool option) \<Rightarrow> dvm_class list \<Rightarrow> cref \<Rightarrow> cref option \<Rightarrow> bool option" where
  "iface_assignable 0 assignable cs from' c = None"
| "iface_assignable (Suc n) assignable cs from' c = (case c of None \<Rightarrow> Some False
     | Some i \<Rightarrow> do {
         k \<leftarrow> c_at cs i;
         a \<leftarrow> iface_any assignable from' i (c_ifaces k);
         if a then Some True else iface_assignable n assignable cs from' (c_super k) })"

primrec class_assignable :: "nat \<Rightarrow> dvm_class list \<Rightarrow> cref option \<Rightarrow> cref option \<Rightarrow> bool option" where
  "class_assignable 0 cs from' to' = None"
| "class_assignable (Suc n) cs from' to' = (case (from', to') of
     (Some f, Some t) \<Rightarrow> do {
       kf \<leftarrow> c_at cs f;
       kt \<leftarrow> c_at cs t;
       if f = t \<or> c_desc kf = c_desc kt then Some True
       else if c_is_primitive kf \<or> c_is_primitive kt then Some False
       else if c_desc kt = OBJECT_DESC then Some True
       else do {
         s \<leftarrow> super_reaches (Suc n) cs (Some f) t;
         if s then Some True
         else do {
           i \<leftarrow> iface_assignable (Suc n) (\<lambda>i. class_assignable n cs (Some i) (Some t)) cs f (Some f);
           if i then Some True
           else if c_is_array kf \<and> c_is_array kt then class_assignable n cs (c_elem kf) (c_elem kt)
           else Some False } } }
   | _ \<Rightarrow> Some True)"

section \<open>Methods\<close>

definition own_matches :: "string \<Rightarrow> string option \<Rightarrow> dvm_method \<Rightarrow> bool" where
  "own_matches name sg m \<longleftrightarrow> m_name m = Some name \<and>
     (case (sg, m_sig m) of (Some a, Some b) \<Rightarrow> b = a | _ \<Rightarrow> True)"

primrec own_index :: "nat \<Rightarrow> dvm_method list \<Rightarrow> string \<Rightarrow> string option \<Rightarrow> nat option" where
  "own_index i [] name sg = None"
| "own_index i (m # ms) name sg = (if own_matches name sg m then Some i else own_index (Suc i) ms name sg)"

definition class_own_method :: "dvm_class list \<Rightarrow> cref \<Rightarrow> string \<Rightarrow> string option \<Rightarrow> mref option option" where
  "class_own_method cs c name sg = do {
     k \<leftarrow> c_at cs c;
     Some (map_option (Pair c) (own_index 0 (c_methods k) name sg)) }"

definition method_at :: "dvm_class list \<Rightarrow> mref \<Rightarrow> dvm_method option" where
  "method_at cs r = do { k \<leftarrow> c_at cs (fst r); c_at (c_methods k) (snd r) }"

definition fnv_step :: "u32 \<Rightarrow> char \<Rightarrow> u32" where
  "fnv_step h c = (h XOR of_char c) * 16777619"

definition mcache_hash :: "string \<Rightarrow> string option \<Rightarrow> u32" where
  "mcache_hash name sg =
     (let h = foldl fnv_step 2166136261 name in
      (case sg of None \<Rightarrow> h | Some s \<Rightarrow> foldl fnv_step ((h XOR 0xff) * 16777619) s) OR 1)"

definition mcache_used :: "mcache_slot \<Rightarrow> bool" where "mcache_used s \<longleftrightarrow> mc_hash s \<noteq> 0"

definition mcache_key_eq :: "u32 \<Rightarrow> string \<Rightarrow> string option \<Rightarrow> mcache_slot \<Rightarrow> bool" where
  "mcache_key_eq h name sg s \<longleftrightarrow> mc_hash s = h \<and> mc_name s = name \<and> mc_sig s = sg"

text \<open>The probe of \<open>mcache_get\<close> also stops after a full turn.\<close>

primrec mcache_probe :: "nat \<Rightarrow> mcache_slot list \<Rightarrow> u32 \<Rightarrow> u32 \<Rightarrow> u32 \<Rightarrow> string \<Rightarrow> string option \<Rightarrow> mref option option" where
  "mcache_probe 0 tab mask' i h name sg = Some None"
| "mcache_probe (Suc n) tab mask' i h name sg = do {
     s \<leftarrow> c_at tab (unat i);
     if \<not> mcache_used s then Some None
     else if mcache_key_eq h name sg s then Some (Some (mc_m s))
     else mcache_probe n tab mask' ((i + 1) AND mask') h name sg }"

definition mcache_get :: "dvm_class \<Rightarrow> u32 \<Rightarrow> string \<Rightarrow> string option \<Rightarrow> mref option option" where
  "mcache_get c h name sg = (if c_mcache c = [] then Some None
     else mcache_probe (length (c_mcache c)) (c_mcache c) (tab_mask (c_mcache c)) (h AND tab_mask (c_mcache c)) h name sg)"

definition mcache_insert :: "mcache_slot list \<Rightarrow> mcache_slot \<Rightarrow> mcache_slot list option" where
  "mcache_insert tab e = probe_insert mcache_used mc_hash tab (tab_mask tab) e"

primrec mcache_rehash :: "mcache_slot list \<Rightarrow> mcache_slot list \<Rightarrow> mcache_slot list option" where
  "mcache_rehash tab [] = Some tab"
| "mcache_rehash tab (e # es) = (if mcache_used e then do { tab \<leftarrow> mcache_insert tab e; mcache_rehash tab es }
     else mcache_rehash tab es)"

definition mcache_zero :: mcache_slot where
  "mcache_zero = \<lparr>mc_hash = 0, mc_name = [], mc_sig = None, mc_m = (0, 0)\<rparr>"

definition mcache_slot_bytes :: nat where "mcache_slot_bytes = 32"

definition mcache_put ::
    "alloc \<Rightarrow> dvm_class list \<Rightarrow> cref \<Rightarrow> u32 \<Rightarrow> string option \<Rightarrow> mref \<Rightarrow> dvm_class list option" where
  "mcache_put al cs c h sg r = do {
     k \<leftarrow> c_at cs c;
     m \<leftarrow> method_at cs r;
     case m_name m of None \<Rightarrow> Some cs
     | Some name \<Rightarrow>
         if sg \<noteq> None \<and> m_sig m = None then Some cs
         else do {
           let sg = (if sg \<noteq> None then m_sig m else None);
           let cap = length (c_mcache k);
           let cap' = (if cap \<noteq> 0 then cap * 2 else 16);
           let full = (cap - cap div 4 < unat (c_mcache_len k + 1));
           if full \<and> \<not> al (cap' * mcache_slot_bytes) then Some cs
           else do {
             tab \<leftarrow> (if full then mcache_rehash (replicate cap' mcache_zero) (c_mcache k) else Some (c_mcache k));
             tab \<leftarrow> mcache_insert tab \<lparr>mc_hash = h, mc_name = name, mc_sig = sg, mc_m = r\<rparr>;
             c_set cs c (k\<lparr>c_mcache := tab, c_mcache_len := c_mcache_len k + 1\<rparr>) } } }"

primrec super_method :: "nat \<Rightarrow> dvm_class list \<Rightarrow> cref option \<Rightarrow> string \<Rightarrow> string option \<Rightarrow> mref option option" where
  "super_method 0 cs c name sg = None"
| "super_method (Suc n) cs c name sg = (case c of None \<Rightarrow> Some None
     | Some i \<Rightarrow> do {
         m \<leftarrow> class_own_method cs i name sg;
         case m of Some r \<Rightarrow> Some (Some r)
         | None \<Rightarrow> do { k \<leftarrow> c_at cs i; super_method n cs (c_super k) name sg } })"

definition concrete :: "dvm_class list \<Rightarrow> mref \<Rightarrow> bool option" where
  "concrete cs r = do { m \<leftarrow> method_at cs r; Some (m_has_code m \<or> m_builtin m) }"

text \<open>
  The two nested loops over the superclasses and their interfaces; \<open>find\<close> is the recursive
  lookup.  They thread the classes, since the caches of the interfaces fill up, and the first
  abstract declaration met.
\<close>

type_synonym method_search = "dvm_class list \<Rightarrow> cref \<Rightarrow> (mref option \<times> dvm_class list) option"

primrec iface_list :: "method_search \<Rightarrow> cref option list \<Rightarrow> dvm_class list \<Rightarrow> mref option \<Rightarrow>
    ((mref option \<times> mref option) \<times> dvm_class list) option" where
  "iface_list search [] cs decl = Some ((None, decl), cs)"
| "iface_list search (j # js) cs decl = (case j of None \<Rightarrow> iface_list search js cs decl
     | Some i \<Rightarrow> do {
         (m, cs) \<leftarrow> search cs i;
         case m of None \<Rightarrow> iface_list search js cs decl
         | Some r \<Rightarrow> do {
             b \<leftarrow> concrete cs r;
             if b then Some ((Some r, decl), cs)
             else iface_list search js cs (if decl \<noteq> None then decl else Some r) } })"

primrec iface_methods :: "nat \<Rightarrow> method_search \<Rightarrow> dvm_class list \<Rightarrow> cref option \<Rightarrow> mref option \<Rightarrow>
    ((mref option \<times> mref option) \<times> dvm_class list) option" where
  "iface_methods 0 search cs c decl = None"
| "iface_methods (Suc n) search cs c decl = (case c of None \<Rightarrow> Some ((None, decl), cs)
     | Some i \<Rightarrow> do {
         k \<leftarrow> c_at cs i;
         ((m, decl), cs) \<leftarrow> iface_list search (c_ifaces k) cs decl;
         if m \<noteq> None then Some ((m, decl), cs) else iface_methods n search cs (c_super k) decl })"

primrec dvm_find_method :: "nat \<Rightarrow> alloc \<Rightarrow> string \<Rightarrow> string option \<Rightarrow> dvm_class list \<Rightarrow> cref \<Rightarrow>
    (mref option \<times> dvm_class list) option" where
  "dvm_find_method 0 al name sg cs c = None"
| "dvm_find_method (Suc n) al name sg cs c = do {
     let h = mcache_hash name sg;
     k \<leftarrow> c_at cs c;
     hit \<leftarrow> mcache_get k h name sg;
     case hit of Some r \<Rightarrow> Some (Some r, cs)
     | None \<Rightarrow> do {
         m \<leftarrow> class_own_method cs c name sg;
         case m of Some r \<Rightarrow> do { cs \<leftarrow> mcache_put al cs c h sg r; Some (Some r, cs) }
         | None \<Rightarrow>
             if name = ''<init>'' \<or> name = ''<clinit>'' then Some (None, cs)
             else do {
               m \<leftarrow> super_method (Suc n) cs (c_super k) name sg;
               case m of Some r \<Rightarrow> do { cs \<leftarrow> mcache_put al cs c h sg r; Some (Some r, cs) }
               | None \<Rightarrow> do {
                   ((m, decl), cs) \<leftarrow> iface_methods (Suc n) (dvm_find_method n al name sg) cs (Some c) None;
                   case (if m \<noteq> None then m else decl) of
                     Some r \<Rightarrow> do { cs \<leftarrow> mcache_put al cs c h sg r; Some (Some r, cs) }
                   | None \<Rightarrow> Some (None, cs) } } } }"

definition find_method_in :: "nat \<Rightarrow> alloc \<Rightarrow> dvm_class list \<Rightarrow> cref option \<Rightarrow> string \<Rightarrow> string option \<Rightarrow>
    (mref option \<times> dvm_class list) option" where
  "find_method_in n al cs cls name sg =
     (case cls of None \<Rightarrow> Some (None, cs) | Some c \<Rightarrow> dvm_find_method n al name sg cs c)"

definition sig_params :: "string \<Rightarrow> string option" where
  "sig_params sg = (if CHR '')'' \<in> set sg then Some (takeWhile (\<lambda>c. c \<noteq> CHR '')'') sg @ '')'') else None)"

definition param_matches :: "string \<Rightarrow> string \<Rightarrow> dvm_method \<Rightarrow> bool" where
  "param_matches name params m \<longleftrightarrow> m_name m = Some name \<and>
     (case m_sig m of None \<Rightarrow> False | Some s \<Rightarrow> take (length params) s = params)"

primrec params_index :: "nat \<Rightarrow> dvm_method list \<Rightarrow> string \<Rightarrow> string \<Rightarrow> nat option" where
  "params_index i [] name params = None"
| "params_index i (m # ms) name params =
     (if param_matches name params m then Some i else params_index (Suc i) ms name params)"

primrec super_by_params :: "nat \<Rightarrow> dvm_class list \<Rightarrow> cref option \<Rightarrow> string \<Rightarrow> string \<Rightarrow> mref option option" where
  "super_by_params 0 cs c name params = None"
| "super_by_params (Suc n) cs c name params = (case c of None \<Rightarrow> Some None
     | Some i \<Rightarrow> do {
         k \<leftarrow> c_at cs i;
         case params_index 0 (c_methods k) name params of Some j \<Rightarrow> Some (Some (i, j))
         | None \<Rightarrow> super_by_params n cs (c_super k) name params })"

definition dvm_find_method_by_params :: "nat \<Rightarrow> alloc \<Rightarrow> dvm_class list \<Rightarrow> cref option \<Rightarrow> string \<Rightarrow> string option \<Rightarrow>
    (mref option \<times> dvm_class list) option" where
  "dvm_find_method_by_params n al cs cls name sg = do {
     (m, cs) \<leftarrow> find_method_in n al cs cls name sg;
     case (m, cls, sg) of
       (None, Some c, Some s) \<Rightarrow> (case sig_params s of None \<Rightarrow> Some (None, cs)
         | Some params \<Rightarrow> do { m \<leftarrow> super_by_params n cs (Some c) name params; Some (m, cs) })
     | _ \<Rightarrow> Some (m, cs) }"

section \<open>Fields\<close>

definition field_matches :: "string \<Rightarrow> string option \<Rightarrow> dvm_field \<Rightarrow> bool" where
  "field_matches name ty f \<longleftrightarrow> f_name f = Some name \<and>
     (case (ty, f_type f) of (Some a, Some b) \<Rightarrow> b = a | _ \<Rightarrow> True)"

primrec field_index :: "nat \<Rightarrow> dvm_field list \<Rightarrow> string \<Rightarrow> string option \<Rightarrow> nat option" where
  "field_index i [] name ty = None"
| "field_index i (f # fs) name ty = (if field_matches name ty f then Some i else field_index (Suc i) fs name ty)"

text \<open>The result is the owner and the index in its static or instance fields.\<close>

primrec iface_fields :: "(cref \<Rightarrow> (cref \<times> nat) option option) \<Rightarrow> cref option list \<Rightarrow> (cref \<times> nat) option option" where
  "iface_fields search [] = Some None"
| "iface_fields search (j # js) = (case j of None \<Rightarrow> iface_fields search js
     | Some i \<Rightarrow> do { f \<leftarrow> search i; case f of Some r \<Rightarrow> Some (Some r) | None \<Rightarrow> iface_fields search js })"

text \<open>The array the search reads: a null one is read as soon as the class counts a field.\<close>

definition class_fields :: "bool \<Rightarrow> dvm_class \<Rightarrow> dvm_field list option" where
  "class_fields statics k =
     (if (if statics then c_sfields_null k else c_ifields_null k) then None
      else Some (if statics then c_sfields k else c_ifields k))"

primrec field_walk :: "nat \<Rightarrow> (cref \<Rightarrow> (cref \<times> nat) option option) \<Rightarrow> dvm_class list \<Rightarrow> cref option \<Rightarrow> string \<Rightarrow>
    string option \<Rightarrow> bool \<Rightarrow> (cref \<times> nat) option option" where
  "field_walk 0 search cs c name ty statics = None"
| "field_walk (Suc n) search cs c name ty statics = (case c of None \<Rightarrow> Some None
     | Some i \<Rightarrow> do {
         k \<leftarrow> c_at cs i;
         fs \<leftarrow> class_fields statics k;
         case field_index 0 fs name ty of Some j \<Rightarrow> Some (Some (i, j))
         | None \<Rightarrow> do {
             f \<leftarrow> (if statics then iface_fields search (c_ifaces k) else Some None);
             case f of Some r \<Rightarrow> Some (Some r)
             | None \<Rightarrow> field_walk n search cs (c_super k) name ty statics } })"

primrec class_find_field_slow :: "nat \<Rightarrow> dvm_class list \<Rightarrow> string \<Rightarrow> string option \<Rightarrow> bool \<Rightarrow> cref \<Rightarrow>
    (cref \<times> nat) option option" where
  "class_find_field_slow 0 cs name ty statics c = None"
| "class_find_field_slow (Suc n) cs name ty statics c =
     field_walk (Suc n) (class_find_field_slow n cs name ty True) cs (Some c) name ty statics"

end
