(* ===== verification/Dvm_Registry.thy ===== *)
theory Dvm_Registry
  imports Dvm_Class
begin

text \<open>
  The class registry refines a map from descriptors to the class registered last under them,
  and assignability decides the subtype relation of an acyclic hierarchy.
\<close>

section \<open>Hash chains\<close>

definition in_bucket :: "dvm_class list \<Rightarrow> nat \<Rightarrow> nat \<Rightarrow> bool" where
  "in_bucket cs h i \<longleftrightarrow> desc_bucket (c_desc (cs ! i)) = h"

text \<open>The youngest class below \<open>n\<close> with a property.\<close>

primrec latest :: "(nat \<Rightarrow> bool) \<Rightarrow> nat \<Rightarrow> nat option" where
  "latest P 0 = None"
| "latest P (Suc n) = (if P n then Some n else latest P n)"

lemma latest_less: "latest P n = Some i \<Longrightarrow> i < n \<and> P i"
  by (induction n) (auto split: if_splits)

lemma latest_None: "latest P n = None \<longleftrightarrow> (\<forall>i < n. \<not> P i)"
  by (induction n) (auto simp: less_Suc_eq)

lemma latest_cong: "(\<And>i. i < n \<Longrightarrow> P i = Q i) \<Longrightarrow> latest P n = latest Q n"
  by (induction n) auto

lemma latest_skip:
  assumes "latest P n = Some i" and "\<And>j. Q j \<Longrightarrow> P j"
  shows "latest Q n = (if Q i then Some i else latest Q i)"
  using assms
proof (induction n)
  case (Suc n)
  show ?case
  proof (cases "P n")
    case True
    with Suc.prems show ?thesis by auto
  next
    case False
    with Suc show ?thesis by auto
  qed
qed simp

lemma latest_subset_None: "latest P n = None \<Longrightarrow> (\<And>j. Q j \<Longrightarrow> P j) \<Longrightarrow> latest Q n = None"
  by (auto simp: latest_None)

definition reg_ok :: "registry \<Rightarrow> bool" where
  "reg_ok g \<longleftrightarrow> length (class_hash g) = DVM_CLASS_HASH \<and>
     (\<forall>h < DVM_CLASS_HASH. class_hash g ! h = latest (in_bucket (reg_all g) h) (length (reg_all g))) \<and>
     (\<forall>i < length (reg_all g). c_hash_next (reg_all g ! i) =
        latest (in_bucket (reg_all g) (desc_bucket (c_desc (reg_all g ! i)))) i)"

text \<open>The abstract registry.\<close>

definition reg_abs :: "registry \<Rightarrow> string \<Rightarrow> cref option" where
  "reg_abs g desc = latest (\<lambda>i. c_desc (reg_all g ! i) = desc) (length (reg_all g))"

lemma desc_bucket_less: "desc_bucket d < DVM_CLASS_HASH"
proof -
  have "str_hash d mod of_nat DVM_CLASS_HASH < (of_nat DVM_CLASS_HASH :: u32)"
    by (rule word_mod_less_divisor) (simp add: DVM_CLASS_HASH_def)
  then show ?thesis by (simp add: desc_bucket_def word_less_nat_alt DVM_CLASS_HASH_def)
qed

lemma chain_find_latest:
  assumes links: "\<forall>i < length cs. c_hash_next (cs ! i) = latest (in_bucket cs (desc_bucket (c_desc (cs ! i)))) i"
  shows "m \<le> length cs \<Longrightarrow> m < n \<Longrightarrow>
    chain_find n cs desc (latest (in_bucket cs (desc_bucket desc)) m) =
      Some (latest (\<lambda>i. c_desc (cs ! i) = desc) m)"
proof (induction n arbitrary: m)
  case (Suc n)
  let ?P = "in_bucket cs (desc_bucket desc)" and ?Q = "\<lambda>i. c_desc (cs ! i) = desc"
  have QP: "?Q j \<Longrightarrow> ?P j" for j by (simp add: in_bucket_def)
  show ?case
  proof (cases "latest ?P m")
    case None
    with latest_subset_None [OF None, of ?Q] QP show ?thesis by simp
  next
    case (Some i)
    with latest_less [OF Some] have i: "i < m" "i < length cs" "?P i" using Suc.prems by auto
    then have next': "c_hash_next (cs ! i) = latest ?P i" using links by (simp add: in_bucket_def)
    have "latest ?Q m = (if ?Q i then Some i else latest ?Q i)" by (rule latest_skip [OF Some QP])
    with Some i next' Suc.IH [of i] Suc.prems show ?thesis by simp
  qed
qed simp

lemma class_lookup_abs: "reg_ok g \<Longrightarrow> class_lookup g desc = Some (reg_abs g desc)"
  using desc_bucket_less [of desc]
    chain_find_latest [of "reg_all g" "length (reg_all g)" "length (reg_all g) + 1" desc]
  by (simp add: class_lookup_def reg_ok_def reg_abs_def del: chain_find.simps)

lemma registry_empty_ok: "reg_ok registry_empty"
  by (simp add: reg_ok_def registry_empty_def)

lemma class_register_ok:
  assumes ok: "reg_ok g"
  shows "\<exists>c g'. class_register al g desc = Some (c, g') \<and> reg_ok g' \<and>
    (case c of
       None \<Rightarrow> g' = g \<and> (\<exists>n. \<not> al n)
     | Some i \<Rightarrow> i = length (reg_all g) \<and> length (reg_all g') = Suc i \<and> take i (reg_all g') = reg_all g \<and>
         c_desc (reg_all g' ! i) = desc \<and> reg_abs g' = (reg_abs g)(desc \<mapsto> i))"
proof (cases "\<not> al class_bytes \<or> \<not> al (length desc + 1) \<or> \<not> al (length (desc_class_name desc) + 1)")
  case True
  then have "\<exists>n. \<not> al n" by blast
  with True ok show ?thesis by (simp add: class_register_def)
next
  case False
  let ?n = "length (reg_all g)" and ?h = "desc_bucket desc"
  define head where "head = class_hash g ! ?h"
  define k where "k = class_zero\<lparr>c_desc := desc, c_name := desc_class_name desc, c_hash_next := head\<rparr>"
  have hb: "?h < DVM_CLASS_HASH" by (rule desc_bucket_less)
  have len: "length (class_hash g) = DVM_CLASS_HASH" using ok by (simp add: reg_ok_def)
  obtain g' where reg: "class_register al g desc = Some (Some ?n, g')"
    and all: "reg_all g' = reg_all g @ [k]" and hash: "class_hash g' = (class_hash g)[?h := Some ?n]"
    using False hb len by (auto simp: class_register_def Let_def head_def k_def)
  have old: "(reg_all g @ [k]) ! i = reg_all g ! i" if "i < ?n" for i using that by (simp add: nth_append)
  have lat: "latest (\<lambda>i. P ((reg_all g @ [k]) ! i)) m = latest (\<lambda>i. P (reg_all g ! i)) m" if "m \<le> ?n" for P m
    using that old by (intro latest_cong) simp
  have bucket: "latest (in_bucket (reg_all g @ [k]) h) m = latest (in_bucket (reg_all g) h) m" if "m \<le> ?n" for h m
    unfolding in_bucket_def using lat [OF that, of "\<lambda>c. desc_bucket (c_desc c) = h"] by simp
  have ok': "reg_ok g'"
    unfolding reg_ok_def all hash
  proof (intro conjI allI impI)
    show "length ((class_hash g)[?h := Some ?n]) = DVM_CLASS_HASH" using len by simp
    fix h assume h: "h < DVM_CLASS_HASH"
    show "(class_hash g)[?h := Some ?n] ! h = latest (in_bucket (reg_all g @ [k]) h) (length (reg_all g @ [k]))"
      using ok h len bucket [of ?n h] by (auto simp: reg_ok_def nth_list_update in_bucket_def k_def)
  next
    fix i assume i: "i < length (reg_all g @ [k])"
    show "c_hash_next ((reg_all g @ [k]) ! i) =
      latest (in_bucket (reg_all g @ [k]) (desc_bucket (c_desc ((reg_all g @ [k]) ! i)))) i"
    proof (cases "i < ?n")
      case True
      then show ?thesis using ok bucket [of i] by (simp add: reg_ok_def old)
    next
      case False
      with i have "i = ?n" by simp
      then show ?thesis using ok hb bucket [of ?n ?h] by (simp add: k_def head_def reg_ok_def)
    qed
  qed
  have "reg_abs g' = (reg_abs g)(desc \<mapsto> ?n)"
    using lat [of ?n "\<lambda>c. c_desc c = _"] by (auto simp: reg_abs_def all k_def fun_eq_iff)
  with reg all ok' show ?thesis by (simp add: k_def)
qed

text \<open>Updates of a class that leave its name and its chain alone.\<close>

definition keeps_identity :: "(dvm_class \<Rightarrow> dvm_class) \<Rightarrow> bool" where
  "keeps_identity f \<longleftrightarrow> (\<forall>c. c_desc (f c) = c_desc c \<and> c_hash_next (f c) = c_hash_next c)"

lemma set_class_ok:
  assumes "reg_ok g" and "i < length (reg_all g)" and "keeps_identity f"
  shows "\<exists>g'. set_class g i f = Some g' \<and> reg_ok g' \<and> reg_abs g' = reg_abs g \<and>
    reg_all g' = (reg_all g)[i := f (reg_all g ! i)]"
proof -
  let ?cs = "(reg_all g)[i := f (reg_all g ! i)]"
  have d: "c_desc (?cs ! j) = c_desc (reg_all g ! j)" "c_hash_next (?cs ! j) = c_hash_next (reg_all g ! j)" for j
    using assms(2,3) by (auto simp: keeps_identity_def nth_list_update)
  have "in_bucket ?cs h = in_bucket (reg_all g) h" for h by (simp add: in_bucket_def fun_eq_iff d)
  then have "reg_ok (g\<lparr>reg_all := ?cs\<rparr>)"
    using assms(1) by (simp add: reg_ok_def d)
  moreover have "reg_abs (g\<lparr>reg_all := ?cs\<rparr>) = reg_abs g" by (simp add: reg_abs_def d fun_eq_iff)
  ultimately show ?thesis using assms(2) by (simp add: set_class_def)
qed

section \<open>Subtypes\<close>

text \<open>
  The specification: a class is a subtype of one with its own descriptor, of
  \<open>java.lang.Object\<close>, and of what its superclass or one of its interfaces is a subtype of; arrays
  follow their components, and a component the VM does not know is not held against the app.
  Primitive types are subtypes of themselves only.
\<close>

inductive subtype :: "dvm_class list \<Rightarrow> cref \<Rightarrow> cref \<Rightarrow> bool" for cs where
  same: "c_desc (cs ! f) = c_desc (cs ! t) \<Longrightarrow> subtype cs f t"
| object: "\<not> c_is_primitive (cs ! f) \<Longrightarrow> \<not> c_is_primitive (cs ! t) \<Longrightarrow> c_desc (cs ! t) = OBJECT_DESC \<Longrightarrow> subtype cs f t"
| super: "\<not> c_is_primitive (cs ! f) \<Longrightarrow> \<not> c_is_primitive (cs ! t) \<Longrightarrow> c_super (cs ! f) = Some s \<Longrightarrow>
    subtype cs s t \<Longrightarrow> subtype cs f t"
| iface: "\<not> c_is_primitive (cs ! f) \<Longrightarrow> \<not> c_is_primitive (cs ! t) \<Longrightarrow> Some i \<in> set (c_ifaces (cs ! f)) \<Longrightarrow>
    subtype cs i t \<Longrightarrow> subtype cs f t"
| array: "c_is_array (cs ! f) \<Longrightarrow> c_is_array (cs ! t) \<Longrightarrow> \<not> c_is_primitive (cs ! f) \<Longrightarrow> \<not> c_is_primitive (cs ! t) \<Longrightarrow>
    c_elem (cs ! f) = Some a \<Longrightarrow> c_elem (cs ! t) = Some b \<Longrightarrow> subtype cs a b \<Longrightarrow> subtype cs f t"
| unknown: "c_is_array (cs ! f) \<Longrightarrow> c_is_array (cs ! t) \<Longrightarrow> \<not> c_is_primitive (cs ! f) \<Longrightarrow> \<not> c_is_primitive (cs ! t) \<Longrightarrow>
    c_elem (cs ! f) = None \<or> c_elem (cs ! t) = None \<Longrightarrow> subtype cs f t"

text \<open>
  A well-formed hierarchy: links stay inside the registry and lead to classes of smaller rank,
  superclasses and interfaces are neither primitive nor arrays, and a descriptor determines
  whether its class is primitive.
\<close>

definition parents :: "dvm_class \<Rightarrow> cref set" where
  "parents c = set_option (c_super c) \<union> {i. Some i \<in> set (c_ifaces c)}"

definition hierarchy :: "dvm_class list \<Rightarrow> (cref \<Rightarrow> nat) \<Rightarrow> bool" where
  "hierarchy cs rank \<longleftrightarrow> (\<forall>c < length cs.
     (\<forall>p \<in> parents (cs ! c). p < length cs \<and> rank p < rank c \<and> \<not> c_is_primitive (cs ! p) \<and> \<not> c_is_array (cs ! p)) \<and>
     (\<forall>e \<in> set_option (c_elem (cs ! c)). e < length cs \<and> rank e < rank c))"

lemma hierarchy_parent:
  assumes "hierarchy cs rank" and "c < length cs" and "p \<in> parents (cs ! c)"
  shows "p < length cs" "rank p < rank c" "\<not> c_is_primitive (cs ! p)" "\<not> c_is_array (cs ! p)"
  using assms(1) [unfolded hierarchy_def, rule_format, OF assms(2)] assms(3) by blast+

lemma hierarchy_elem:
  assumes "hierarchy cs rank" and "c < length cs" and "c_elem (cs ! c) = Some e"
  shows "e < length cs" "rank e < rank c"
  using assms(1) [unfolded hierarchy_def, rule_format, OF assms(2)] assms(3) by simp_all

text \<open>The superclass chain of a class, bounded by its rank.\<close>

inductive super_chain :: "dvm_class list \<Rightarrow> cref \<Rightarrow> cref \<Rightarrow> bool" for cs where
  here: "super_chain cs c c"
| up: "c_super (cs ! c) = Some s \<Longrightarrow> super_chain cs s d \<Longrightarrow> super_chain cs c d"

lemma super_chain_step:
  "super_chain cs c d \<longleftrightarrow> c = d \<or> (\<exists>s. c_super (cs ! c) = Some s \<and> super_chain cs s d)"
  by (subst super_chain.simps) auto

lemma parents_super: "c_super (cs ! c) = Some s \<Longrightarrow> s \<in> parents (cs ! c)"
  by (simp add: parents_def)

lemma super_reaches_chain:
  assumes h: "hierarchy cs rank" and t: "t < length cs"
  shows "c < length cs \<Longrightarrow> rank c + 2 \<le> n \<Longrightarrow>
    super_reaches n cs (Some c) t = Some (\<exists>d. super_chain cs c d \<and> c_desc (cs ! d) = c_desc (cs ! t))"
proof (induction n arbitrary: c)
  case (Suc n)
  show ?case
  proof (cases "c = t \<or> c_desc (cs ! c) = c_desc (cs ! t)")
    case True
    then show ?thesis using Suc.prems(1) t by (auto intro: super_chain.here)
  next
    case False
    show ?thesis
    proof (cases "c_super (cs ! c)")
      case None
      then have "super_chain cs c d \<longleftrightarrow> d = c" for d by (subst super_chain_step) auto
      moreover obtain m where "n = Suc m" using Suc.prems(2) by (cases n) auto
      ultimately show ?thesis using False Suc.prems(1) t None by auto
    next
      case (Some s)
      note p = hierarchy_parent [OF h Suc.prems(1) parents_super [OF Some]]
      have "super_chain cs c d \<longleftrightarrow> d = c \<or> super_chain cs s d" for d
        using Some by (subst super_chain_step) auto
      then show ?thesis using False Suc.prems t Some p Suc.IH [of s] by auto
    qed
  qed
qed simp

lemma iface_any_spec:
  assumes "\<forall>i. Some i \<in> set ifs \<longrightarrow> i \<noteq> c \<and> i \<noteq> f \<and> assignable i = Some (Q i)"
  shows "iface_any assignable f c ifs = Some (\<exists>i. Some i \<in> set ifs \<and> Q i)"
  using assms by (induction ifs) (auto split: option.splits)

lemma super_chain_rank:
  assumes h: "hierarchy cs rank"
  shows "super_chain cs c d \<Longrightarrow> c < length cs \<Longrightarrow> d < length cs \<and> rank d \<le> rank c"
proof (induction rule: super_chain.induct)
  case (up c s d)
  note p = hierarchy_parent [OF h up.prems parents_super [OF up.hyps(1)]]
  with up.IH [OF p(1)] show ?case by simp
qed simp

lemma iface_assignable_spec:
  assumes h: "hierarchy cs rank" and f: "f < length cs"
    and rec: "\<And>i. i < length cs \<Longrightarrow> rank i < rank f \<Longrightarrow> assignable i = Some (Q i)"
  shows "super_chain cs f c \<Longrightarrow> rank c + 2 \<le> n \<Longrightarrow>
    iface_assignable n assignable cs f (Some c) =
      Some (\<exists>d i. super_chain cs c d \<and> Some i \<in> set (c_ifaces (cs ! d)) \<and> Q i)"
proof (induction n arbitrary: c)
  case (Suc n)
  have c: "c < length cs" "rank c \<le> rank f" using super_chain_rank [OF h Suc.prems(1) f] by auto
  have ifs: "i \<noteq> c \<and> i \<noteq> f \<and> assignable i = Some (Q i)" if "Some i \<in> set (c_ifaces (cs ! c))" for i
  proof -
    have "i \<in> parents (cs ! c)" using that by (simp add: parents_def)
    note p = hierarchy_parent [OF h c(1) this]
    with c rec show ?thesis by auto
  qed
  then have any: "iface_any assignable f c (c_ifaces (cs ! c)) = Some (\<exists>i. Some i \<in> set (c_ifaces (cs ! c)) \<and> Q i)"
    by (intro iface_any_spec) blast
  show ?case
  proof (cases "c_super (cs ! c)")
    case None
    then have ch: "super_chain cs c d \<longleftrightarrow> d = c" for d by (subst super_chain_step) auto
    obtain m where "n = Suc m" using Suc.prems(2) by (cases n) auto
    then show ?thesis using any c(1) None by (simp add: ch)
  next
    case (Some s)
    note p = hierarchy_parent [OF h c(1) parents_super [OF Some]]
    have ch: "super_chain cs c d \<longleftrightarrow> d = c \<or> super_chain cs s d" for d
      using Some by (subst super_chain_step) auto
    have "super_chain cs f s" using Suc.prems(1) Some
      by (induction rule: super_chain.induct) (auto intro: super_chain.intros)
    with Suc.IH [of s] p(2) Suc.prems(2) any c(1) Some show ?thesis by (auto simp: ch)
  qed
qed simp

text \<open>What the code checks, one level deep.\<close>

definition subtype_level :: "dvm_class list \<Rightarrow> cref \<Rightarrow> cref \<Rightarrow> bool" where
  "subtype_level cs f t \<longleftrightarrow> c_desc (cs ! t) = OBJECT_DESC \<or>
     (\<exists>d. super_chain cs f d \<and> c_desc (cs ! d) = c_desc (cs ! t)) \<or>
     (\<exists>d i. super_chain cs f d \<and> Some i \<in> set (c_ifaces (cs ! d)) \<and> subtype cs i t) \<or>
     c_is_array (cs ! f) \<and> c_is_array (cs ! t) \<and>
       (case (c_elem (cs ! f), c_elem (cs ! t)) of (Some a, Some b) \<Rightarrow> subtype cs a b | _ \<Rightarrow> True)"

lemma subtype_via_chain:
  assumes h: "hierarchy cs rank" and t: "\<not> c_is_primitive (cs ! t)"
  shows "super_chain cs f d \<Longrightarrow> f < length cs \<Longrightarrow> \<not> c_is_primitive (cs ! f) \<Longrightarrow>
    subtype cs d t \<or> (\<exists>i. Some i \<in> set (c_ifaces (cs ! d)) \<and> subtype cs i t) \<Longrightarrow> subtype cs f t"
proof (induction rule: super_chain.induct)
  case (here c)
  with t show ?case by (blast intro: subtype.iface)
next
  case (up c s d)
  note p = hierarchy_parent [OF h up.prems(1) parents_super [OF up.hyps(1)]]
  from up.IH [OF p(1) p(3) up.prems(3)] up.hyps(1) up.prems(2) t show ?case by (blast intro: subtype.super)
qed

lemma subtype_level_sound:
  assumes h: "hierarchy cs rank" and f: "f < length cs"
    and p: "\<not> c_is_primitive (cs ! f)" "\<not> c_is_primitive (cs ! t)" and l: "subtype_level cs f t"
  shows "subtype cs f t"
proof -
  consider "c_desc (cs ! t) = OBJECT_DESC"
    | d where "super_chain cs f d" "c_desc (cs ! d) = c_desc (cs ! t)"
    | d i where "super_chain cs f d" "Some i \<in> set (c_ifaces (cs ! d))" "subtype cs i t"
    | "c_is_array (cs ! f)" "c_is_array (cs ! t)" "c_elem (cs ! f) = None \<or> c_elem (cs ! t) = None"
    | a b where "c_is_array (cs ! f)" "c_is_array (cs ! t)" "c_elem (cs ! f) = Some a" "c_elem (cs ! t) = Some b"
        "subtype cs a b"
    using l unfolding subtype_level_def by (cases "c_elem (cs ! f)"; cases "c_elem (cs ! t)") auto
  then show ?thesis
  proof cases
    case 1
    with p show ?thesis by (rule subtype.object)
  next
    case 2
    then have "subtype cs d t" by (intro subtype.same)
    with subtype_via_chain [OF h p(2) 2(1) f p(1)] show ?thesis by blast
  next
    case 3
    with subtype_via_chain [OF h p(2) 3(1) f p(1)] show ?thesis by blast
  next
    case 4
    show ?thesis by (rule subtype.unknown [OF 4(1,2) p 4(3)])
  next
    case 5
    show ?thesis by (rule subtype.array [OF 5(1,2) p 5(3,4,5)])
  qed
qed

lemma subtype_level_complete:
  assumes h: "hierarchy cs rank"
  shows "subtype cs f t \<Longrightarrow> f < length cs \<Longrightarrow> c_desc (cs ! f) \<noteq> c_desc (cs ! t) \<Longrightarrow>
    \<not> c_is_primitive (cs ! f) \<and> \<not> c_is_primitive (cs ! t) \<and> subtype_level cs f t"
proof (induction rule: subtype.induct)
  case (super f t s)
  note p = hierarchy_parent [OF h super.prems(1) parents_super [OF super.hyps(3)]]
  have up: "super_chain cs s d \<Longrightarrow> super_chain cs f d" for d
    using super.hyps(3) by (rule super_chain.up)
  show ?case
  proof (cases "c_desc (cs ! s) = c_desc (cs ! t)")
    case True
    with up [OF super_chain.here] super.hyps show ?thesis by (auto simp: subtype_level_def)
  next
    case False
    with super.IH [OF p(1)] have "subtype_level cs s t" by blast
    with p(4) up super.hyps show ?thesis unfolding subtype_level_def by blast
  qed
next
  case (iface f t i)
  then show ?case unfolding subtype_level_def using super_chain.here [of cs f] by blast
qed (auto simp: subtype_level_def split: option.splits)

lemma subtype_unfold:
  assumes "hierarchy cs rank" and "f < length cs"
  shows "subtype cs f t \<longleftrightarrow> c_desc (cs ! f) = c_desc (cs ! t) \<or>
    \<not> c_is_primitive (cs ! f) \<and> \<not> c_is_primitive (cs ! t) \<and> subtype_level cs f t"
  using subtype_level_sound [OF assms] subtype_level_complete [OF assms(1) _ assms(2)]
  by (blast intro: subtype.same)

lemma class_assignable_spec:
  assumes h: "hierarchy cs rank"
  shows "f < length cs \<Longrightarrow> t < length cs \<Longrightarrow> rank f + 2 \<le> n \<Longrightarrow>
    class_assignable n cs (Some f) (Some t) = Some (subtype cs f t)"
proof (induction n arbitrary: f t)
  case (Suc n)
  note f = Suc.prems(1) and t = Suc.prems(2)
  let ?kf = "cs ! f" and ?kt = "cs ! t"
  show ?case
  proof (cases "c_desc ?kf = c_desc ?kt \<or> c_is_primitive ?kf \<or> c_is_primitive ?kt \<or> c_desc ?kt = OBJECT_DESC")
    case True
    then show ?thesis using f t subtype_unfold [OF h f, of t] by (auto simp: subtype_level_def)
  next
    case False
    have sup: "super_reaches (Suc n) cs (Some f) t = Some (\<exists>d. super_chain cs f d \<and> c_desc (cs ! d) = c_desc ?kt)"
      by (rule super_reaches_chain [OF h t f Suc.prems(3)])
    have ifc: "iface_assignable (Suc n) (\<lambda>i. class_assignable n cs (Some i) (Some t)) cs f (Some f) =
        Some (\<exists>d i. super_chain cs f d \<and> Some i \<in> set (c_ifaces (cs ! d)) \<and> subtype cs i t)"
      by (rule iface_assignable_spec [OF h f _ super_chain.here Suc.prems(3)])
        (use Suc.IH t Suc.prems(3) in auto)
    have arr: "class_assignable n cs (c_elem ?kf) (c_elem ?kt) =
        Some (case (c_elem ?kf, c_elem ?kt) of (Some a, Some b) \<Rightarrow> subtype cs a b | _ \<Rightarrow> True)"
    proof (cases "c_elem ?kf")
      case None
      obtain m where "n = Suc m" using Suc.prems(3) by (cases n) auto
      with None show ?thesis by simp
    next
      case (Some a)
      note a = hierarchy_elem [OF h f Some]
      show ?thesis
      proof (cases "c_elem ?kt")
        case None
        obtain m where "n = Suc m" using Suc.prems(3) by (cases n) auto
        with None Some show ?thesis by simp
      next
        case (Some b)
        note b = hierarchy_elem [OF h t Some]
        show ?thesis using Some \<open>c_elem ?kf = Some a\<close> a b Suc.IH [of a b] Suc.prems(3) by simp
      qed
    qed
    have lev: "subtype cs f t \<longleftrightarrow> subtype_level cs f t" using False subtype_unfold [OF h f, of t] by blast
    have ne: "f \<noteq> t" using False by auto
    define A B C where "A \<longleftrightarrow> (\<exists>d. super_chain cs f d \<and> c_desc (cs ! d) = c_desc ?kt)"
      and "B \<longleftrightarrow> (\<exists>d i. super_chain cs f d \<and> Some i \<in> set (c_ifaces (cs ! d)) \<and> subtype cs i t)"
      and "C \<longleftrightarrow> (case (c_elem ?kf, c_elem ?kt) of (Some a, Some b) \<Rightarrow> subtype cs a b | _ \<Rightarrow> True)"
    note folded = sup [folded A_def] ifc [folded B_def] arr [folded C_def]
    have "subtype_level cs f t \<longleftrightarrow> A \<or> B \<or> c_is_array ?kf \<and> c_is_array ?kt \<and> C"
      using False unfolding subtype_level_def A_def B_def C_def by blast
    then show ?thesis
      using False f t ne folded unfolding lev
      by (cases A; cases B; cases "c_is_array ?kf") (simp_all del: super_reaches.simps iface_assignable.simps)
  qed
qed simp

text \<open>A superclass chain that never leaves a set of classes keeps the walk going.\<close>

lemma super_reaches_cyclic:
  assumes "\<And>c. c \<in> S \<Longrightarrow> c < length cs \<and> c_desc (cs ! c) \<noteq> c_desc (cs ! t) \<and> (\<exists>s \<in> S. c_super (cs ! c) = Some s)"
    and "t < length cs"
  shows "c \<in> S \<Longrightarrow> super_reaches n cs (Some c) t = None"
proof (induction n arbitrary: c)
  case (Suc n)
  obtain s where s: "s \<in> S" "c_super (cs ! c) = Some s" "c < length cs" "c_desc (cs ! c) \<noteq> c_desc (cs ! t)"
    using assms(1) [OF Suc.prems] by blast
  then have "c \<noteq> t" by auto
  with s Suc.IH [OF s(1)] assms(2) show ?case by simp
qed simp

section \<open>Properties\<close>

text \<open>
  C15. The class registry refines a map from descriptors to classes: \<open>class_register\<close> either
  reports exhaustion and changes nothing, or binds its descriptor to a new class and leaves
  every other binding and every existing class alone; \<open>class_lookup\<close> through the hash chains
  always ends and answers from that map.
\<close>

theorem class_registry_refines:
  assumes "reg_ok g"
  shows "\<exists>c g'. class_register al g desc = Some (c, g') \<and> reg_ok g' \<and>
    (\<forall>d. class_lookup g' d = Some (case c of None \<Rightarrow> reg_abs g d | Some i \<Rightarrow> ((reg_abs g)(desc \<mapsto> i)) d)) \<and>
    (case c of None \<Rightarrow> g' = g \<and> (\<exists>n. \<not> al n)
     | Some i \<Rightarrow> reg_all g' = reg_all g @ [reg_all g' ! i] \<and> i = length (reg_all g) \<and> c_desc (reg_all g' ! i) = desc)"
proof -
  obtain c g' where c: "class_register al g desc = Some (c, g')" "reg_ok g'"
    "case c of None \<Rightarrow> g' = g \<and> (\<exists>n. \<not> al n)
     | Some i \<Rightarrow> i = length (reg_all g) \<and> length (reg_all g') = Suc i \<and> take i (reg_all g') = reg_all g \<and>
         c_desc (reg_all g' ! i) = desc \<and> reg_abs g' = (reg_abs g)(desc \<mapsto> i)"
    using class_register_ok [OF assms, of al desc] by blast
  have "reg_all g' = reg_all g @ [reg_all g' ! i]"
    if "i = length (reg_all g)" "length (reg_all g') = Suc i" "take i (reg_all g') = reg_all g" for i
    using that by (metis lessI take_Suc_conv_app_nth take_all order_refl)
  with c class_lookup_abs [OF c(2)] show ?thesis by (auto split: option.splits)
qed

theorem class_registry_refines_witness:
  "\<exists>c g'. class_register (\<lambda>_. True) registry_empty ''LFoo;'' = Some (c, g') \<and> reg_ok g' \<and> class_lookup g' ''LFoo;'' = Some c"
proof -
  obtain c g' where "class_register (\<lambda>_. True) registry_empty ''LFoo;'' = Some (c, g')" "reg_ok g'"
    "\<forall>d. class_lookup g' d = Some (case c of None \<Rightarrow> reg_abs registry_empty d | Some i \<Rightarrow> ((reg_abs registry_empty)(''LFoo;'' \<mapsto> i)) d)"
    "case c of None \<Rightarrow> g' = registry_empty \<and> (\<exists>n. \<not> (\<lambda>_. True) n) | Some i \<Rightarrow> True"
    using class_registry_refines [OF registry_empty_ok, of "\<lambda>_. True" "''LFoo;''"] by (auto split: option.splits)
  then show ?thesis by (auto split: option.splits)
qed

text \<open>
  C16. On every acyclic hierarchy \<open>class_assignable\<close> returns, with a bound on calls and loop
  iterations given by the height of the hierarchy, and it decides exactly the subtype relation:
  reflexive by descriptor, through superclasses and (transitively) interfaces, covariant in
  arrays of references, and never between a primitive and another type.
\<close>

theorem class_assignable_decides:
  assumes "hierarchy cs rank" and "f < length cs" and "t < length cs" and "rank f + 2 \<le> n"
  shows "class_assignable n cs (Some f) (Some t) = Some (subtype cs f t)"
  by (rule class_assignable_spec [OF assms])

definition sample_hierarchy :: "dvm_class list" where
  "sample_hierarchy =
     [class_zero\<lparr>c_desc := OBJECT_DESC\<rparr>,
      class_zero\<lparr>c_desc := ''Ljava/util/List;'', c_super := Some 0, c_is_interface := True\<rparr>,
      class_zero\<lparr>c_desc := ''LBase;'', c_super := Some 0, c_ifaces := [Some 1]\<rparr>,
      class_zero\<lparr>c_desc := ''LDerived;'', c_super := Some 2\<rparr>]"

lemma sample_hierarchy_ok: "hierarchy sample_hierarchy id"
  by (auto simp: hierarchy_def sample_hierarchy_def parents_def class_zero_def less_Suc_eq)

theorem class_assignable_decides_witness:
  "class_assignable 5 sample_hierarchy (Some 3) (Some 1) = Some (subtype sample_hierarchy 3 1) \<and>
   class_assignable 5 sample_hierarchy (Some 3) (Some 1) = Some True"
proof
  show "class_assignable 5 sample_hierarchy (Some 3) (Some 1) = Some (subtype sample_hierarchy 3 1)"
    by (rule class_assignable_decides [OF sample_hierarchy_ok]) (simp_all add: sample_hierarchy_def)
  show "class_assignable 5 sample_hierarchy (Some 3) (Some 1) = Some True" by code_simp
qed

text \<open>
  Nothing in the walk guards against a superclass cycle: when the superclasses of a class
  stay inside a set of non-primitive classes none of which has the descriptor looked for, the
  walk never ends, whatever the bound.  Loading \<open>LA;\<close> and \<open>LB;\<close> that name each other as
  superclass builds such a set.
\<close>

theorem class_assignable_cyclic:
  assumes "\<forall>c \<in> S. c < length cs \<and> \<not> c_is_primitive (cs ! c) \<and> c_desc (cs ! c) \<noteq> c_desc (cs ! t) \<and>
      (\<exists>s \<in> S. c_super (cs ! c) = Some s)"
    and "t < length cs" and "\<not> c_is_primitive (cs ! t)" and "c_desc (cs ! t) \<noteq> OBJECT_DESC" and "f \<in> S"
  shows "class_assignable n cs (Some f) (Some t) = None"
proof (cases n)
  case (Suc m)
  have f: "f < length cs" "\<not> c_is_primitive (cs ! f)" "c_desc (cs ! f) \<noteq> c_desc (cs ! t)" using assms by auto
  then have "f \<noteq> t" by auto
  moreover have "super_reaches (Suc m) cs (Some f) t = None"
    by (rule super_reaches_cyclic [OF _ assms(2,5)]) (use assms(1) in blast)
  ultimately show ?thesis using f assms(2,3,4) Suc by (simp del: super_reaches.simps)
qed simp

definition cyclic_classes :: "dvm_class list" where
  "cyclic_classes = [class_zero\<lparr>c_desc := ''LA;'', c_super := Some 1\<rparr>, class_zero\<lparr>c_desc := ''LB;'', c_super := Some 0\<rparr>,
     class_zero\<lparr>c_desc := ''LC;''\<rparr>]"

theorem class_assignable_cyclic_witness:
  "\<forall>n. class_assignable n cyclic_classes (Some 0) (Some 2) = None"
proof
  fix n
  show "class_assignable n cyclic_classes (Some 0) (Some 2) = None"
    by (rule class_assignable_cyclic [of "{0, 1}"]) (simp_all add: cyclic_classes_def class_zero_def OBJECT_DESC_def)
qed

end
