(* ===== verification/Dvm_Method.thy ===== *)
theory Dvm_Method
  imports Dvm_Registry
begin

text \<open>
  Method lookup: the per-class cache of \<open>dvm_find_method\<close> is transparent.  The reference is the
  same search without the cache (\<open>resolve_method\<close>); the invariant of the caches is that every
  entry holds what the reference finds for its key on the class that owns the cache.
\<close>

section \<open>The search without a cache\<close>

primrec iface_list_ref :: "(cref \<Rightarrow> mref option option) \<Rightarrow> cref option list \<Rightarrow> dvm_class list \<Rightarrow> mref option \<Rightarrow>
    (mref option \<times> mref option) option" where
  "iface_list_ref search [] cs decl = Some (None, decl)"
| "iface_list_ref search (j # js) cs decl = (case j of None \<Rightarrow> iface_list_ref search js cs decl
     | Some i \<Rightarrow> do {
         m \<leftarrow> search i;
         case m of None \<Rightarrow> iface_list_ref search js cs decl
         | Some r \<Rightarrow> do {
             b \<leftarrow> concrete cs r;
             if b then Some (Some r, decl)
             else iface_list_ref search js cs (if decl \<noteq> None then decl else Some r) } })"

primrec iface_methods_ref :: "nat \<Rightarrow> (cref \<Rightarrow> mref option option) \<Rightarrow> dvm_class list \<Rightarrow> cref option \<Rightarrow> mref option \<Rightarrow>
    (mref option \<times> mref option) option" where
  "iface_methods_ref 0 search cs c decl = None"
| "iface_methods_ref (Suc n) search cs c decl = (case c of None \<Rightarrow> Some (None, decl)
     | Some i \<Rightarrow> do {
         k \<leftarrow> c_at cs i;
         (m, decl) \<leftarrow> iface_list_ref search (c_ifaces k) cs decl;
         if m \<noteq> None then Some (m, decl) else iface_methods_ref n search cs (c_super k) decl })"

primrec resolve_method :: "nat \<Rightarrow> string \<Rightarrow> string option \<Rightarrow> dvm_class list \<Rightarrow> cref \<Rightarrow> mref option option" where
  "resolve_method 0 name sg cs c = None"
| "resolve_method (Suc n) name sg cs c = do {
     k \<leftarrow> c_at cs c;
     m \<leftarrow> class_own_method cs c name sg;
     case m of Some r \<Rightarrow> Some (Some r)
     | None \<Rightarrow>
         if name = ''<init>'' \<or> name = ''<clinit>'' then Some None
         else do {
           m \<leftarrow> super_method (Suc n) cs (c_super k) name sg;
           case m of Some r \<Rightarrow> Some (Some r)
           | None \<Rightarrow> do {
               (m, decl) \<leftarrow> iface_methods_ref (Suc n) (resolve_method n name sg cs) cs (Some c) None;
               Some (if m \<noteq> None then m else decl) } } }"

section \<open>Caches do not matter to the reference\<close>

definition strip :: "dvm_class \<Rightarrow> dvm_class" where
  "strip c = c\<lparr>c_mcache := [], c_mcache_len := 0\<rparr>"

definition same_but_caches :: "dvm_class list \<Rightarrow> dvm_class list \<Rightarrow> bool" where
  "same_but_caches cs cs' \<longleftrightarrow> map strip cs = map strip cs'"

lemma strip_fields [simp]:
  "c_methods (strip c) = c_methods c" "c_super (strip c) = c_super c" "c_ifaces (strip c) = c_ifaces c"
  by (simp_all add: strip_def)

lemma same_refl [simp]: "same_but_caches cs cs"
  by (simp add: same_but_caches_def)

lemma same_trans: "same_but_caches a b \<Longrightarrow> same_but_caches b c \<Longrightarrow> same_but_caches a c"
  by (simp add: same_but_caches_def)

lemma same_length: "same_but_caches a b \<Longrightarrow> length b = length a"
  unfolding same_but_caches_def by (metis length_map)

lemma same_fields:
  assumes "same_but_caches a b" and "i < length a"
  shows "c_methods (b ! i) = c_methods (a ! i)" "c_super (b ! i) = c_super (a ! i)" "c_ifaces (b ! i) = c_ifaces (a ! i)"
    "strip (b ! i) = strip (a ! i)"
proof -
  have "map strip a ! i = map strip b ! i" using assms(1) by (simp add: same_but_caches_def)
  then show s: "strip (b ! i) = strip (a ! i)" using assms same_length [OF assms(1)] by simp
  show "c_methods (b ! i) = c_methods (a ! i)" "c_super (b ! i) = c_super (a ! i)" "c_ifaces (b ! i) = c_ifaces (a ! i)"
    using s by (metis strip_fields)+
qed

lemma same_at:
  assumes "same_but_caches a b"
  shows "(c_at b i = None) = (c_at a i = None)"
    and "c_at a i = Some k \<Longrightarrow> \<exists>k'. c_at b i = Some k' \<and> c_methods k' = c_methods k \<and> c_super k' = c_super k \<and> c_ifaces k' = c_ifaces k"
  using same_length [OF assms] same_fields [OF assms, of i] by (auto simp: c_at_def split: if_splits)

lemma same_own: "same_but_caches a b \<Longrightarrow> class_own_method b c name sg = class_own_method a c name sg"
  using same_at [of a b c] by (cases "c_at a c") (auto simp: class_own_method_def)

lemma same_method_at: "same_but_caches a b \<Longrightarrow> method_at b r = method_at a r"
  using same_at [of a b "fst r"] by (cases "c_at a (fst r)") (auto simp: method_at_def)

lemma same_super:
  assumes s: "same_but_caches a b"
  shows "super_method n b c name sg = super_method n a c name sg"
proof (induction n arbitrary: c)
  case (Suc n)
  show ?case
  proof (cases c)
    case (Some i)
    show ?thesis using same_at [OF s, of i] Suc same_own [OF s] Some
      by (cases "c_at a i") (auto split: option.splits)
  qed simp
qed simp

lemma same_iface_list:
  "same_but_caches a b \<Longrightarrow> iface_list_ref search ifs b decl = iface_list_ref search ifs a decl"
proof (induction ifs arbitrary: decl)
  case (Cons j js)
  then show ?case by (simp add: concrete_def same_method_at cong: option.case_cong if_cong)
qed simp

lemma same_iface_methods:
  assumes s: "same_but_caches a b"
  shows "iface_methods_ref n search b c decl = iface_methods_ref n search a c decl"
proof (induction n arbitrary: c decl)
  case (Suc n)
  show ?case
  proof (cases c)
    case (Some i)
    show ?thesis
    proof (cases "c_at a i")
      case None
      with same_at(1) [OF s, of i] Some show ?thesis by simp
    next
      case (Some k)
      with same_at(2) [OF s Some] obtain k' where "c_at b i = Some k'" "c_super k' = c_super k" "c_ifaces k' = c_ifaces k"
        by blast
      with Some \<open>c = Some i\<close> show ?thesis by (simp add: same_iface_list [OF s] Suc cong: if_cong)
    qed
  qed simp
qed simp

lemma same_resolve:
  assumes s: "same_but_caches a b"
  shows "resolve_method n name sg b = resolve_method n name sg a"
proof (induction n)
  case (Suc n)
  show ?case
  proof
    fix c
    show "resolve_method (Suc n) name sg b c = resolve_method (Suc n) name sg a c"
      using same_at [OF s, of c] Suc
      by (cases "c_at a c")
        (auto simp: same_own [OF s] same_super [OF s] same_iface_methods [OF s]
          simp del: super_method.simps iface_methods_ref.simps)
  qed
next
  case 0
  show ?case by (rule ext) simp
qed

section \<open>More fuel does not change an answer\<close>

lemma super_method_mono: "super_method n cs c name sg = Some r \<Longrightarrow> n \<le> m \<Longrightarrow> super_method m cs c name sg = Some r"
proof (induction n arbitrary: c m)
  case (Suc n)
  then obtain m' where "m = Suc m'" "n \<le> m'" by (cases m) auto
  with Suc show ?case by (auto simp: bind_eq_Some_conv split: option.splits)
qed simp

lemma iface_list_mono:
  assumes "\<And>i r. s i = Some r \<Longrightarrow> s' i = Some r"
  shows "iface_list_ref s ifs cs decl = Some r \<Longrightarrow> iface_list_ref s' ifs cs decl = Some r"
proof (induction ifs arbitrary: decl)
  case (Cons j js)
  show ?case
  proof (cases j)
    case None
    with Cons show ?thesis by simp
  next
    case (Some i)
    with Cons.prems obtain m where m: "s i = Some m" by (auto simp: bind_eq_Some_conv)
    show ?thesis
    proof (cases m)
      case None
      with Cons Some m assms [OF m] show ?thesis by simp
    next
      case (Some q)
      with Cons.prems \<open>j = Some i\<close> m obtain b where b: "concrete cs q = Some b" by (auto simp: bind_eq_Some_conv)
      show ?thesis using Cons Some \<open>j = Some i\<close> m assms [OF m] b by (cases b) simp_all
    qed
  qed
qed simp

lemma iface_methods_mono:
  assumes "\<And>i r. s i = Some r \<Longrightarrow> s' i = Some r"
  shows "iface_methods_ref n s cs c decl = Some r \<Longrightarrow> n \<le> m \<Longrightarrow> iface_methods_ref m s' cs c decl = Some r"
proof (induction n arbitrary: c decl m)
  case (Suc n)
  then obtain m' where m: "m = Suc m'" "n \<le> m'" by (cases m) auto
  show ?case
  proof (cases c)
    case None
    with Suc.prems m show ?thesis by simp
  next
    case (Some i)
    with Suc.prems(1) obtain k x d where k: "c_at cs i = Some k" "iface_list_ref s (c_ifaces k) cs decl = Some (x, d)"
      "(if x \<noteq> None then Some (x, d) else iface_methods_ref n s cs (c_super k) d) = Some r"
      by (auto simp: bind_eq_Some_conv)
    from iface_list_mono [OF assms k(2)] k Suc.IH [of "c_super k" d m'] m Some show ?thesis
      by (auto split: if_splits)
  qed
qed simp

lemma resolve_mono: "resolve_method n name sg cs c = Some r \<Longrightarrow> n \<le> m \<Longrightarrow> resolve_method m name sg cs c = Some r"
proof (induction n arbitrary: c m r)
  case (Suc n)
  then obtain m' where m: "m = Suc m'" "n \<le> m'" by (cases m) auto
  have rec: "\<And>i r. resolve_method n name sg cs i = Some r \<Longrightarrow> resolve_method m' name sg cs i = Some r"
    using Suc.IH m(2) by blast
  obtain k x where k: "c_at cs c = Some k" "class_own_method cs c name sg = Some x"
    using Suc.prems(1) by (auto simp: bind_eq_Some_conv simp del: super_method.simps iface_methods_ref.simps)
  show ?case
  proof (cases "x \<noteq> None \<or> name = ''<init>'' \<or> name = ''<clinit>''")
    case True
    with Suc.prems k m show ?thesis by (auto split: option.splits)
  next
    case False
    then have xn: "x = None" by (cases x) auto
    obtain y where y: "super_method (Suc n) cs (c_super k) name sg = Some y"
      using Suc.prems(1) k xn False
      by (cases "super_method (Suc n) cs (c_super k) name sg")
        (simp_all del: super_method.simps iface_methods_ref.simps)
    have y': "super_method (Suc m') cs (c_super k) name sg = Some y"
      by (rule super_method_mono [OF y]) (use m in simp)
    show ?thesis
    proof (cases y)
      case (Some q)
      with Suc.prems(1) k False xn y have "r = Some q"
        by (simp del: super_method.simps iface_methods_ref.simps)
      with Some k m False xn y' show ?thesis
        by (simp del: super_method.simps iface_methods_ref.simps)
    next
      case None
      with Suc.prems(1) k False xn y obtain a b where ab:
        "iface_methods_ref (Suc n) (resolve_method n name sg cs) cs (Some c) None = Some (a, b)"
        "r = (if a \<noteq> None then a else b)"
        by (auto simp: bind_eq_Some_conv simp del: super_method.simps iface_methods_ref.simps)
      have "iface_methods_ref (Suc m') (resolve_method m' name sg cs) cs (Some c) None = Some (a, b)"
        by (rule iface_methods_mono [OF rec ab(1)]) (use m in auto)
      with None k False xn y' ab m show ?thesis
        by (simp del: super_method.simps iface_methods_ref.simps)
    qed
  qed
qed simp

definition resolves :: "dvm_class list \<Rightarrow> string \<Rightarrow> string option \<Rightarrow> cref \<Rightarrow> mref option \<Rightarrow> bool" where
  "resolves cs name sg c r \<longleftrightarrow> (\<exists>n. resolve_method n name sg cs c = Some r)"

lemma resolves_unique: "resolves cs name sg c r \<Longrightarrow> resolve_method n name sg cs c = Some r' \<Longrightarrow> r' = r"
  unfolding resolves_def by (metis nat_le_linear option.inject resolve_mono)

lemma same_resolves: "same_but_caches a b \<Longrightarrow> resolves b name sg c r = resolves a name sg c r"
  by (simp add: resolves_def same_resolve)

section \<open>What the search finds\<close>

lemma own_index_matches: "own_index i ms name sg = Some j \<Longrightarrow> i \<le> j \<and> j - i < length ms \<and> own_matches name sg (ms ! (j - i))"
proof (induction ms arbitrary: i)
  case (Cons m ms)
  show ?case
  proof (cases "own_matches name sg m")
    case True
    with Cons.prems show ?thesis by simp
  next
    case False
    with Cons have "Suc i \<le> j \<and> j - Suc i < length ms \<and> own_matches name sg (ms ! (j - Suc i))" by simp
    moreover from this have "j - i = Suc (j - Suc i)" by arith
    ultimately show ?thesis by simp
  qed
qed simp

definition finds :: "dvm_class list \<Rightarrow> string \<Rightarrow> string option \<Rightarrow> mref \<Rightarrow> bool" where
  "finds cs name sg r \<longleftrightarrow> (\<exists>m. method_at cs r = Some m \<and> own_matches name sg m)"

lemma own_finds: "class_own_method cs c name sg = Some (Some r) \<Longrightarrow> finds cs name sg r"
  by (auto simp: class_own_method_def bind_eq_Some_conv finds_def method_at_def dest!: own_index_matches)

lemma super_finds: "super_method n cs c name sg = Some (Some r) \<Longrightarrow> finds cs name sg r"
  by (induction n arbitrary: c) (auto simp: bind_eq_Some_conv own_finds split: option.splits)

lemma iface_list_finds:
  assumes "\<And>i r. s i = Some (Some r) \<Longrightarrow> F r"
  shows "iface_list_ref s ifs cs decl = Some (m, d) \<Longrightarrow> (\<forall>r \<in> set_option decl. F r) \<Longrightarrow>
    (\<forall>r \<in> set_option m \<union> set_option d. F r)"
proof (induction ifs arbitrary: decl)
  case (Cons j js)
  show ?case
  proof (cases j)
    case None
    with Cons.IH [of decl] Cons.prems show ?thesis by simp
  next
    case (Some i)
    with Cons.prems obtain x where x: "s i = Some x" by (auto simp: bind_eq_Some_conv)
    show ?thesis
    proof (cases x)
      case None
      with Cons.IH [of decl] Cons.prems Some x show ?thesis by simp
    next
      case (Some q)
      have q: "F q" using assms x Some by simp
      obtain b where b: "concrete cs q = Some b" using Cons.prems Some \<open>j = Some i\<close> x by (auto simp: bind_eq_Some_conv)
      let ?d = "if decl \<noteq> None then decl else Some q"
      have "\<forall>r \<in> set_option ?d. F r" using Cons.prems(2) q by simp
      with Cons.IH [of ?d] Cons.prems Some \<open>j = Some i\<close> x b q show ?thesis
        by (cases b) (auto split: if_splits)
    qed
  qed
qed simp

lemma iface_methods_finds:
  assumes "\<And>i r. s i = Some (Some r) \<Longrightarrow> F r"
  shows "iface_methods_ref n s cs c decl = Some (m, d) \<Longrightarrow> (\<forall>r \<in> set_option decl. F r) \<Longrightarrow>
    (\<forall>r \<in> set_option m \<union> set_option d. F r)"
proof (induction n arbitrary: c decl)
  case (Suc n)
  show ?case
  proof (cases c)
    case None
    with Suc.prems show ?thesis by simp
  next
    case (Some i)
    with Suc.prems(1) obtain k x e where k: "c_at cs i = Some k" "iface_list_ref s (c_ifaces k) cs decl = Some (x, e)"
      "(if x \<noteq> None then Some (x, e) else iface_methods_ref n s cs (c_super k) e) = Some (m, d)"
      by (auto simp: bind_eq_Some_conv)
    have "\<forall>r \<in> set_option x \<union> set_option e. F r" by (rule iface_list_finds [OF assms k(2) Suc.prems(2)])
    with k(3) Suc.IH [of "c_super k" e] show ?thesis by (auto split: if_splits)
  qed
qed simp

lemma resolve_finds: "resolve_method n name sg cs c = Some (Some r) \<Longrightarrow> finds cs name sg r"
proof (induction n arbitrary: c r)
  case (Suc n)
  obtain k x where k: "c_at cs c = Some k" "class_own_method cs c name sg = Some x"
    using Suc.prems(1) by (auto simp: bind_eq_Some_conv simp del: super_method.simps iface_methods_ref.simps)
  show ?case
  proof (cases x)
    case (Some q)
    with k Suc.prems own_finds show ?thesis by simp
  next
    case None
    then obtain y where y: "super_method (Suc n) cs (c_super k) name sg = Some y"
        "name \<noteq> ''<init>''" "name \<noteq> ''<clinit>''"
      using Suc.prems(1) k by (cases "super_method (Suc n) cs (c_super k) name sg")
        (simp_all split: if_splits del: super_method.simps iface_methods_ref.simps)
    show ?thesis
    proof (cases y)
      case (Some q)
      with y k None Suc.prems super_finds show ?thesis by (simp del: super_method.simps iface_methods_ref.simps)
    next
      case yn: None
      with Suc.prems k None y obtain a b where ab:
        "iface_methods_ref (Suc n) (resolve_method n name sg cs) cs (Some c) None = Some (a, b)"
        "Some r = (if a \<noteq> None then a else b)"
        by (auto simp: bind_eq_Some_conv simp del: super_method.simps iface_methods_ref.simps)
      have "\<forall>r \<in> set_option a \<union> set_option b. finds cs name sg r"
        by (rule iface_methods_finds [OF Suc.IH ab(1)]) simp_all
      with ab(2) show ?thesis by (auto split: if_splits)
    qed
  qed
qed simp

lemma same_finds: "same_but_caches a b \<Longrightarrow> finds b name sg r = finds a name sg r"
  by (simp add: finds_def same_method_at)

section \<open>The cache\<close>

definition cache_shape :: "mcache_slot list \<Rightarrow> u32 \<Rightarrow> bool" where
  "cache_shape tab len' \<longleftrightarrow> tab = [] \<and> len' = 0 \<or>
     probe_wf mcache_used mc_hash tab \<and> 16 \<le> length tab \<and> length tab < 2 ^ 31 \<and>
     length (filter mcache_used tab) = unat len' \<and> unat len' \<le> length tab - length tab div 4"

definition slot_ok :: "dvm_class list \<Rightarrow> cref \<Rightarrow> mcache_slot \<Rightarrow> bool" where
  "slot_ok cs c s \<longleftrightarrow> mc_hash s = mcache_hash (mc_name s) (mc_sig s) \<and>
     resolves cs (mc_name s) (mc_sig s) c (Some (mc_m s))"

definition caches_ok :: "dvm_class list \<Rightarrow> bool" where
  "caches_ok cs \<longleftrightarrow> (\<forall>c < length cs. cache_shape (c_mcache (cs ! c)) (c_mcache_len (cs ! c)) \<and>
     (\<forall>s \<in> used_in mcache_used (c_mcache (cs ! c)). slot_ok cs c s))"

text \<open>No allocator grants a cache of \<open>2 ^ 31\<close> slots.\<close>

definition bounded_alloc :: "alloc \<Rightarrow> bool" where
  "bounded_alloc al \<longleftrightarrow> (\<forall>n. 2 ^ 36 \<le> n \<longrightarrow> \<not> al n)"

lemma mcache_hash_nonzero: "mcache_hash name sg \<noteq> 0"
proof
  assume "mcache_hash name sg = 0"
  then have "bit (mcache_hash name sg) 0 = bit (0::u32) 0" by simp
  then show False by (simp add: mcache_hash_def Let_def bit_simps)
qed

lemma mcache_probe_find:
  "probe_find n mcache_used (mcache_key_eq h name sg) tab m k = Some r \<Longrightarrow>
   mcache_probe n tab m k h name sg = Some (map_option mc_m r)"
proof (induction n arbitrary: k)
  case (Suc n)
  then obtain e where e: "c_at tab (unat k) = Some e" by (auto simp: bind_eq_Some_conv)
  show ?case using Suc.prems Suc.IH [of "(k + 1) AND m"]
    by (cases "mcache_used e"; cases "mcache_key_eq h name sg e") (auto simp: e)
qed simp

lemma cache_room:
  assumes "cache_shape tab l" and "tab \<noteq> []"
  shows "1 < free_slots mcache_used tab"
  using assms used_free [of mcache_used tab] by (auto simp: cache_shape_def)

lemma mcache_get_ok:
  assumes ok: "caches_ok cs" and c: "c < length cs"
  shows "\<exists>hit. mcache_get (cs ! c) (mcache_hash name sg) name sg = Some hit \<and>
    (\<forall>r. hit = Some r \<longrightarrow> resolves cs name sg c (Some r))"
proof (cases "c_mcache (cs ! c) = []")
  case True
  then show ?thesis by (simp add: mcache_get_def)
next
  case False
  let ?tab = "c_mcache (cs ! c)" and ?h = "mcache_hash name sg"
  have sh: "cache_shape ?tab (c_mcache_len (cs ! c))" using ok c by (simp add: caches_ok_def)
  then have wf: "probe_wf mcache_used mc_hash ?tab" using False by (simp add: cache_shape_def)
  have room: "0 < free_slots mcache_used ?tab" using cache_room [OF sh False] by simp
  have "probe_look mcache_used ?tab (mcache_key_eq ?h name sg) ?h =
      Some (find (mcache_key_eq ?h name sg) (probe_entries mcache_used mc_hash ?tab ?h))"
    by (rule probe.look_ok [OF wf room]) (simp add: mcache_key_eq_def)
  then have get: "mcache_get (cs ! c) ?h name sg =
      Some (map_option mc_m (find (mcache_key_eq ?h name sg) (probe_entries mcache_used mc_hash ?tab ?h)))"
    unfolding mcache_get_def probe_look_def using False by (simp add: mcache_probe_find)
  moreover have "resolves cs name sg c (Some r)"
    if r: "map_option mc_m (find (mcache_key_eq ?h name sg) (probe_entries mcache_used mc_hash ?tab ?h)) = Some r" for r
  proof -
    obtain s where s: "find (mcache_key_eq ?h name sg) (probe_entries mcache_used mc_hash ?tab ?h) = Some s" "r = mc_m s"
      using r by auto
    then have "s \<in> set (probe_entries mcache_used mc_hash ?tab ?h)" "mcache_key_eq ?h name sg s"
      by (auto simp: find_Some_iff)
    then have "s \<in> used_in mcache_used ?tab" "mc_name s = name" "mc_sig s = sg"
      using probe_entries_sound [of s mcache_used mc_hash ?tab ?h] by (auto simp: used_in_def mcache_key_eq_def)
    with ok c s(2) show ?thesis by (auto simp: caches_ok_def slot_ok_def)
  qed
  ultimately show ?thesis by blast
qed

lemma mcache_rehash_all: "mcache_rehash tab es =
    insert_all (\<lambda>t. probe_insert mcache_used mc_hash t (tab_mask t)) tab (filter mcache_used es)"
  by (induction es arbitrary: tab) (auto simp: mcache_insert_def)

lemma cache_grow:
  assumes sh: "cache_shape tab l" and al: "bounded_alloc al" and full: "length tab - length tab div 4 < unat (l + 1)"
    and granted: "al ((if length tab \<noteq> 0 then length tab * 2 else 16) * mcache_slot_bytes)"
  shows "\<exists>t'. mcache_rehash (replicate (if length tab \<noteq> 0 then length tab * 2 else 16) mcache_zero) tab = Some t' \<and>
    cache_shape t' l \<and> t' \<noteq> [] \<and> used_in mcache_used t' = used_in mcache_used tab \<and>
    unat l + 1 \<le> length t' - length t' div 4"
proof -
  let ?cap = "if length tab \<noteq> 0 then length tab * 2 else 16"
  have lt: "?cap * 32 < 2 ^ 36" using granted al by (auto simp: bounded_alloc_def mcache_slot_bytes_def not_le [symmetric])
  obtain b where b: "?cap = 2 ^ b" "16 \<le> ?cap"
  proof (cases "tab = []")
    case True
    then show ?thesis using that [of 4] by simp
  next
    case False
    with sh obtain k where "length tab = 2 ^ k" "16 \<le> length tab" by (auto simp: cache_shape_def probe_wf_def)
    with False show ?thesis using that [of "Suc k"] by simp
  qed
  have "(2::nat) ^ b < 2 ^ 31" using lt b(1) by simp
  then have b32: "b < 31" by (rule power_less_imp_less_exp [rotated]) simp
  have n: "length (filter mcache_used tab) = unat l" "unat l + 1 \<le> ?cap - ?cap div 4"
    using sh full by (auto simp: cache_shape_def)
  have "length (filter mcache_used tab) < 2 ^ b" using n b by simp
  then obtain t' where "mcache_rehash (replicate (2 ^ b) mcache_zero) tab = Some t'" "probe_wf mcache_used mc_hash t'"
      "used_in mcache_used t' = used_in mcache_used tab" "length t' = 2 ^ b"
      "length (filter mcache_used t') = length (filter mcache_used tab)"
    using rebuild_ok [of mcache_used tab b mcache_zero mc_hash] b32
    by (auto simp: mcache_rehash_all mcache_used_def mcache_zero_def)
  moreover from this have "t' \<noteq> []" by auto
  ultimately show ?thesis using n b lt unfolding b(1) by (intro exI [of _ t']) (auto simp: cache_shape_def)
qed

lemma same_slot_ok: "same_but_caches a b \<Longrightarrow> slot_ok b c s = slot_ok a c s"
  by (simp add: slot_ok_def same_resolves)

lemma caches_ok_update:
  assumes ok: "caches_ok cs" and c: "c < length cs"
    and sh: "cache_shape tab l" and slots: "\<forall>s \<in> used_in mcache_used tab. slot_ok cs c s"
  defines "cs' \<equiv> cs[c := (cs ! c)\<lparr>c_mcache := tab, c_mcache_len := l\<rparr>]"
  shows "same_but_caches cs cs'" and "caches_ok cs'"
proof -
  have "map strip cs' = (map strip cs)[c := strip ((cs ! c)\<lparr>c_mcache := tab, c_mcache_len := l\<rparr>)]"
    by (simp add: cs'_def map_update)
  also have "strip ((cs ! c)\<lparr>c_mcache := tab, c_mcache_len := l\<rparr>) = map strip cs ! c" using c by (simp add: strip_def)
  finally have "map strip cs' = map strip cs" by simp
  then show s: "same_but_caches cs cs'" by (simp add: same_but_caches_def)
  show "caches_ok cs'"
    unfolding caches_ok_def
  proof (intro allI impI conjI ballI)
    fix d assume d: "d < length cs'"
    then have dl: "d < length cs" by (simp add: cs'_def)
    show "cache_shape (c_mcache (cs' ! d)) (c_mcache_len (cs' ! d))"
      using ok sh dl c by (cases "d = c") (simp_all add: cs'_def caches_ok_def)
    fix x assume "x \<in> used_in mcache_used (c_mcache (cs' ! d))"
    then have "slot_ok cs d x" using ok slots dl c by (cases "d = c") (simp_all add: cs'_def caches_ok_def)
    then show "slot_ok cs' d x" by (simp add: same_slot_ok [OF s])
  qed
qed

lemma mcache_put_ok:
  assumes ok: "caches_ok cs" and c: "c < length cs" and al: "bounded_alloc al"
    and r: "resolves cs name sg c (Some r)" and f: "finds cs name sg r"
  shows "\<exists>cs'. mcache_put al cs c (mcache_hash name sg) sg r = Some cs' \<and> same_but_caches cs cs' \<and> caches_ok cs'"
proof -
  obtain m where m: "method_at cs r = Some m" "own_matches name sg m" using f by (auto simp: finds_def)
  let ?k = "cs ! c"
  define tab where "tab = c_mcache ?k"
  define l where "l = c_mcache_len ?k"
  have sh: "cache_shape tab l" and sl: "\<forall>s \<in> used_in mcache_used tab. slot_ok cs c s"
    using ok c by (simp_all add: caches_ok_def tab_def l_def)
  have name: "m_name m = Some name" using m(2) by (simp add: own_matches_def)
  show ?thesis
  proof (cases "sg \<noteq> None \<and> m_sig m = None")
    case True
    then show ?thesis using ok c m name by (simp add: mcache_put_def)
  next
    case cached: False
    have sg: "(if sg \<noteq> None then m_sig m else None) = sg"
      using cached m(2) by (auto simp: own_matches_def split: option.splits)
    let ?cap = "if length tab \<noteq> 0 then length tab * 2 else 16"
    let ?full = "length tab - length tab div 4 < unat (l + 1)"
    let ?e = "\<lparr>mc_hash = mcache_hash name sg, mc_name = name, mc_sig = sg, mc_m = r\<rparr>"
    have put: "mcache_put al cs c (mcache_hash name sg) sg r =
        (if ?full \<and> \<not> al (?cap * mcache_slot_bytes) then Some cs
         else (if ?full then mcache_rehash (replicate ?cap mcache_zero) tab else Some tab) \<bind> (\<lambda>t.
           mcache_insert t ?e \<bind> (\<lambda>t. c_set cs c (?k\<lparr>c_mcache := t, c_mcache_len := l + 1\<rparr>))))"
      using c m(1) name cached unfolding mcache_put_def Let_def tab_def l_def
      by (simp only: c_at_in bind.bind_lunit option.case if_False sg simp_thms)
    show ?thesis
    proof (cases "?full \<and> \<not> al (?cap * mcache_slot_bytes)")
      case True
      then show ?thesis unfolding put using ok by (intro exI [of _ cs]) simp
    next
      case False
      have lbound: "unat l < 2 ^ 31" using sh by (auto simp: cache_shape_def)
      then have l1: "unat (l + 1) = unat l + 1" by (simp add: unat_word_ariths)
      obtain t where t: "(if ?full then mcache_rehash (replicate ?cap mcache_zero) tab else Some tab) = Some t"
          "cache_shape t l" "t \<noteq> []" "used_in mcache_used t = used_in mcache_used tab"
          "unat l + 1 \<le> length t - length t div 4"
      proof (cases ?full)
        case True
        with False cache_grow [OF sh al True] that show ?thesis by auto
      next
        case nofull: False
        then have "tab \<noteq> []" using l1 by auto
        with nofull that [of tab] sh l1 show ?thesis by simp
      qed
      have e: "mcache_used ?e" using mcache_hash_nonzero by (simp add: mcache_used_def)
      have wf: "probe_wf mcache_used mc_hash t" using t(2,3) by (simp add: cache_shape_def)
      obtain t' where t': "probe_insert mcache_used mc_hash t (tab_mask t) ?e = Some t'" "probe_wf mcache_used mc_hash t'"
        "Suc (free_slots mcache_used t') = free_slots mcache_used t"
        "used_in mcache_used t' = insert ?e (used_in mcache_used t)" "length t' = length t"
        using used_in_insert [OF wf e cache_room [OF t(2,3)]] by blast
      have "length (filter mcache_used t') = unat (l + 1)"
        using used_free [of mcache_used t'] used_free [of mcache_used t] t'(3,5) t(2,3) l1
        by (simp add: cache_shape_def)
      then have sh': "cache_shape t' (l + 1)" using t' t l1 by (simp add: cache_shape_def)
      have "slot_ok cs c ?e" using r by (simp add: slot_ok_def)
      then have sl': "\<forall>s \<in> used_in mcache_used t'. slot_ok cs c s" using t'(4) t(4) sl by simp
      note upd = caches_ok_update [OF ok c sh' sl']
      have "mcache_put al cs c (mcache_hash name sg) sg r = Some (cs[c := ?k\<lparr>c_mcache := t', c_mcache_len := l + 1\<rparr>])"
        unfolding put if_not_P [OF False] t(1) using t'(1) c by (simp add: mcache_insert_def)
      with upd show ?thesis by blast
    qed
  qed
qed

section \<open>The cached search\<close>

lemma own_total: "c < length cs \<Longrightarrow> \<exists>m. class_own_method cs c name sg = Some m"
  by (simp add: class_own_method_def)

lemma super_total:
  assumes h: "hierarchy cs rank"
  shows "(\<forall>i. c = Some i \<longrightarrow> i < length cs \<and> rank i + 2 \<le> n) \<Longrightarrow> 0 < n \<Longrightarrow> \<exists>m. super_method n cs c name sg = Some m"
proof (induction n arbitrary: c)
  case (Suc n)
  show ?case
  proof (cases c)
    case (Some i)
    with Suc.prems have i: "i < length cs" "rank i + 2 \<le> Suc n" by auto
    have "\<exists>m. super_method n cs (c_super (cs ! i)) name sg = Some m"
      by (rule Suc.IH) (use hierarchy_parent [OF h i(1) parents_super] i(2) in fastforce)+
    with own_total [OF i(1), of name sg] i(1) Some show ?thesis by (auto split: option.splits)
  qed simp
qed simp

text \<open>What the two interface loops need of the search they call.\<close>

definition search_ok :: "dvm_class list \<Rightarrow> string \<Rightarrow> string option \<Rightarrow> method_search \<Rightarrow> (cref \<Rightarrow> mref option option) \<Rightarrow> cref \<Rightarrow> bool" where
  "search_ok cs name sg search ref i \<longleftrightarrow> (\<forall>cs1. same_but_caches cs cs1 \<longrightarrow> caches_ok cs1 \<longrightarrow>
     (\<exists>m cs2. search cs1 i = Some (m, cs2) \<and> ref i = Some m \<and> same_but_caches cs cs2 \<and> caches_ok cs2 \<and>
       (\<forall>r \<in> set_option m. finds cs name sg r)))"

lemma concrete_total: "same_but_caches cs cs' \<Longrightarrow> finds cs name sg r \<Longrightarrow> \<exists>b. concrete cs' r = Some b \<and> concrete cs r = Some b"
  by (auto simp: concrete_def finds_def same_method_at)

lemma iface_list_cached:
  assumes "\<forall>i. Some i \<in> set ifs \<longrightarrow> search_ok cs name sg search ref i"
    and "same_but_caches cs cs1" and "caches_ok cs1"
  shows "\<exists>p cs2. iface_list search ifs cs1 decl = Some (p, cs2) \<and> iface_list_ref ref ifs cs decl = Some p \<and>
    same_but_caches cs cs2 \<and> caches_ok cs2"
  using assms
proof (induction ifs arbitrary: decl cs1)
  case Nil
  then show ?case by auto
next
  case (Cons j js)
  have js: "\<forall>i. Some i \<in> set js \<longrightarrow> search_ok cs name sg search ref i" using Cons.prems(1) by simp
  show ?case
  proof (cases j)
    case None
    with Cons.IH [OF js Cons.prems(2,3)] show ?thesis by simp
  next
    case (Some i)
    then have "search_ok cs name sg search ref i" using Cons.prems(1) by simp
    then obtain m cs2 where m: "search cs1 i = Some (m, cs2)" "ref i = Some m" "same_but_caches cs cs2" "caches_ok cs2"
        "\<forall>r \<in> set_option m. finds cs name sg r"
      using Cons.prems(2,3) unfolding search_ok_def by blast
    show ?thesis
    proof (cases m)
      case None
      with Cons.IH [OF js m(3,4)] Some m show ?thesis by simp
    next
      case (Some q)
      with m(5) concrete_total [OF m(3), of name sg q] obtain b where b: "concrete cs2 q = Some b" "concrete cs q = Some b"
        by auto
      show ?thesis
      proof (cases b)
        case True
        with b m Some \<open>j = Some i\<close> show ?thesis by simp
      next
        case False
        with b m Some \<open>j = Some i\<close> Cons.IH [OF js m(3,4), of "if decl \<noteq> None then decl else Some q"]
        show ?thesis by simp
      qed
    qed
  qed
qed

lemma iface_methods_cached:
  assumes h: "hierarchy cs rank" and f: "f < length cs"
    and srch: "\<And>i. i < length cs \<Longrightarrow> rank i < rank f \<Longrightarrow> search_ok cs name sg search ref i"
  shows "(\<forall>i. c = Some i \<longrightarrow> i < length cs \<and> rank i \<le> rank f \<and> rank i + 2 \<le> n) \<Longrightarrow> 0 < n \<Longrightarrow>
    same_but_caches cs cs1 \<Longrightarrow> caches_ok cs1 \<Longrightarrow>
    \<exists>p cs2. iface_methods n search cs1 c decl = Some (p, cs2) \<and> iface_methods_ref n ref cs c decl = Some p \<and>
      same_but_caches cs cs2 \<and> caches_ok cs2"
proof (induction n arbitrary: c decl cs1)
  case (Suc n)
  show ?case
  proof (cases c)
    case None
    with Suc.prems show ?thesis by auto
  next
    case (Some i)
    with Suc.prems have i: "i < length cs" "rank i \<le> rank f" "rank i + 2 \<le> Suc n" by auto
    have len: "length cs1 = length cs" by (rule same_length [OF Suc.prems(3)])
    have ifs: "\<forall>j. Some j \<in> set (c_ifaces (cs ! i)) \<longrightarrow> search_ok cs name sg search ref j"
    proof (intro allI impI)
      fix j assume "Some j \<in> set (c_ifaces (cs ! i))"
      then have "j \<in> parents (cs ! i)" by (simp add: parents_def)
      note p = hierarchy_parent [OF h i(1) this]
      show "search_ok cs name sg search ref j" by (rule srch) (use p i in simp_all)
    qed
    from iface_list_cached [OF ifs Suc.prems(3,4)] obtain m d cs2 where l:
      "iface_list search (c_ifaces (cs ! i)) cs1 decl = Some ((m, d), cs2)"
      "iface_list_ref ref (c_ifaces (cs ! i)) cs decl = Some (m, d)" "same_but_caches cs cs2" "caches_ok cs2"
      by (metis surj_pair)
    have sup: "\<forall>s. c_super (cs ! i) = Some s \<longrightarrow> s < length cs \<and> rank s \<le> rank f \<and> rank s + 2 \<le> n"
      using hierarchy_parent [OF h i(1) parents_super] i by fastforce
    note s1 = same_fields [OF Suc.prems(3) i(1)]
    have "0 < n" using i(3) by simp
    from Suc.IH [OF sup this l(3,4), of d] obtain p cs3 where
      "iface_methods n search cs2 (c_super (cs ! i)) d = Some (p, cs3)"
      "iface_methods_ref n ref cs (c_super (cs ! i)) d = Some p" "same_but_caches cs cs3" "caches_ok cs3" by blast
    with l Some i(1) len s1 show ?thesis by (cases m) simp_all
  qed
qed simp

lemma hierarchy_same: "same_but_caches cs cs' \<Longrightarrow> hierarchy cs rank \<Longrightarrow> hierarchy cs' rank"
proof -
  assume s: "same_but_caches cs cs'" and h: "hierarchy cs rank"
  have f: "c_is_primitive (cs' ! i) = c_is_primitive (cs ! i)" "c_is_array (cs' ! i) = c_is_array (cs ! i)"
    "c_elem (cs' ! i) = c_elem (cs ! i)" "parents (cs' ! i) = parents (cs ! i)" if "i < length cs" for i
  proof -
    note sf = same_fields [OF s that]
    have e: "(strip (cs' ! i)) = (strip (cs ! i))" by (rule sf(4))
    show "c_is_primitive (cs' ! i) = c_is_primitive (cs ! i)" using arg_cong [OF e, of c_is_primitive] by (simp add: strip_def)
    show "c_is_array (cs' ! i) = c_is_array (cs ! i)" using arg_cong [OF e, of c_is_array] by (simp add: strip_def)
    show "c_elem (cs' ! i) = c_elem (cs ! i)" using arg_cong [OF e, of c_elem] by (simp add: strip_def)
    show "parents (cs' ! i) = parents (cs ! i)" using sf by (simp add: parents_def)
  qed
  note p = hierarchy_parent [OF h] and e = hierarchy_elem [OF h]
  show ?thesis
    unfolding hierarchy_def same_length [OF s]
  proof (intro allI impI conjI ballI)
    fix c q assume c: "c < length cs" and "q \<in> parents (cs' ! c)"
    then have q: "q \<in> parents (cs ! c)" using f by simp
    note pq = p [OF c q]
    show "q < length cs" "rank q < rank c" by (rule pq)+
    show "\<not> c_is_primitive (cs' ! q)" "\<not> c_is_array (cs' ! q)" using pq f by simp_all
  next
    fix c d assume c: "c < length cs" and "d \<in> set_option (c_elem (cs' ! c))"
    then have "c_elem (cs ! c) = Some d" using f by simp
    from e [OF c this] show "d < length cs" "rank d < rank c" by simp_all
  qed
qed

lemma stripped_ok: "caches_ok (map strip cs)" "same_but_caches cs (map strip cs)"
  by (simp_all add: caches_ok_def strip_def cache_shape_def used_in_def same_but_caches_def)

lemma super_of_class:
  assumes "hierarchy cs rank" and "c < length cs" and "rank c + 2 \<le> Suc n"
  shows "\<exists>m. super_method (Suc n) cs (c_super (cs ! c)) name sg = Some m"
  by (rule super_total [OF assms(1)])
    (use hierarchy_parent [OF assms(1,2) parents_super] assms(3) in fastforce)+

lemma resolve_total:
  assumes h: "hierarchy cs rank"
  shows "c < length cs \<Longrightarrow> rank c + 2 \<le> n \<Longrightarrow> \<exists>m. resolve_method n name sg cs c = Some m"
proof (induction n arbitrary: c)
  case (Suc n)
  obtain x where x: "class_own_method cs c name sg = Some x" using own_total [OF Suc.prems(1)] by blast
  obtain y where y: "super_method (Suc n) cs (c_super (cs ! c)) name sg = Some y"
    using super_of_class [OF h Suc.prems] by blast
  let ?ref = "resolve_method n name sg cs"
  let ?search = "\<lambda>cs1 i. do { m \<leftarrow> ?ref i; Some (m, cs1) }"
  have "search_ok cs name sg ?search ?ref i" if i: "i < length cs" "rank i < rank c" for i
  proof -
    obtain m where "?ref i = Some m" using Suc.IH [OF i(1)] i(2) Suc.prems(2) by auto
    then show ?thesis by (auto simp: search_ok_def intro: resolve_finds)
  qed
  from iface_methods_cached [OF h Suc.prems(1) this _ _ stripped_ok(2,1), of "Some c" "Suc n" None]
  obtain p where "iface_methods_ref (Suc n) ?ref cs (Some c) None = Some p" using Suc.prems by auto
  with x y Suc.prems(1) show ?case
    by (cases x; cases y; cases p) (simp_all del: super_method.simps iface_methods_ref.simps)
qed simp

lemma put_done:
  assumes "same_but_caches cs cs1" and "caches_ok cs1" and "c < length cs" and "bounded_alloc al"
    and "resolve_method n name sg cs c = Some (Some r)"
  shows "\<exists>cs2. mcache_put al cs1 c (mcache_hash name sg) sg r = Some cs2 \<and> same_but_caches cs cs2 \<and> caches_ok cs2"
proof -
  have "resolves cs1 name sg c (Some r)" using assms(5) same_resolves [OF assms(1)] by (auto simp: resolves_def)
  moreover have "finds cs1 name sg r" using resolve_finds [OF assms(5)] same_finds [OF assms(1)] by simp
  ultimately obtain cs2 where "mcache_put al cs1 c (mcache_hash name sg) sg r = Some cs2" "same_but_caches cs1 cs2" "caches_ok cs2"
    using mcache_put_ok [OF assms(2)] assms(3,4) same_length [OF assms(1)] by metis
  then show ?thesis using same_trans [OF assms(1)] by blast
qed

lemma find_method_cached:
  assumes h: "hierarchy cs rank" and al: "bounded_alloc al"
  shows "c < length cs \<Longrightarrow> rank c + 2 \<le> n \<Longrightarrow> same_but_caches cs cs1 \<Longrightarrow> caches_ok cs1 \<Longrightarrow>
    \<exists>m cs2. dvm_find_method n al name sg cs1 c = Some (m, cs2) \<and> resolve_method n name sg cs c = Some m \<and>
      same_but_caches cs cs2 \<and> caches_ok cs2"
proof (induction n arbitrary: c cs1)
  case (Suc n)
  note c = Suc.prems(1) and s = Suc.prems(3) and ok = Suc.prems(4)
  have c1: "c < length cs1" using c same_length [OF s] by simp
  obtain res where res: "resolve_method (Suc n) name sg cs c = Some res" using resolve_total [OF h Suc.prems(1,2)] by blast
  obtain hit where hit: "mcache_get (cs1 ! c) (mcache_hash name sg) name sg = Some hit"
    "\<forall>r. hit = Some r \<longrightarrow> resolves cs1 name sg c (Some r)" using mcache_get_ok [OF ok c1] by blast
  note own = same_own [OF s, of c name sg] and sup = same_super [OF s] and sf = same_fields(2) [OF s c]
  note del = super_method.simps iface_methods_ref.simps iface_methods.simps
  show ?case
  proof (cases hit)
    case (Some r)
    then have "resolves cs name sg c (Some r)" using hit(2) same_resolves [OF s] by simp
    then have "res = Some r" by (rule resolves_unique [OF _ res])
    with Some hit(1) res c1 s ok show ?thesis by (simp add: Let_def del: resolve_method.simps)
  next
    case miss: None
    obtain x where x: "class_own_method cs c name sg = Some x" using own_total [OF c] by blast
    obtain y where y: "super_method (Suc n) cs (c_super (cs ! c)) name sg = Some y"
      using super_of_class [OF h Suc.prems(1,2)] by blast
    note put = put_done [OF _ _ c al]
    consider r where "x = Some r" | "x = None" "name = ''<init>'' \<or> name = ''<clinit>''"
      | r where "x = None" "name \<noteq> ''<init>''" "name \<noteq> ''<clinit>''" "y = Some r"
      | "x = None" "name \<noteq> ''<init>''" "name \<noteq> ''<clinit>''" "y = None"
      by (cases x; cases y) auto
    then show ?thesis
    proof cases
      case 1
      then have r: "resolve_method (Suc n) name sg cs c = Some (Some r)" using x c by simp
      from put [OF s ok r] show ?thesis using 1 x own miss hit c1 r by (auto simp: Let_def simp del: resolve_method.simps)
    next
      case 2
      then show ?thesis using x own miss hit c1 c s ok by (auto simp: Let_def)
    next
      case 3
      then have r: "resolve_method (Suc n) name sg cs c = Some (Some r)" using x y c by (simp del: del)
      from put [OF s ok r] show ?thesis using 3 x y own sup sf miss hit c1 r
        by (auto simp: Let_def simp del: del resolve_method.simps)
    next
      case 4
      have "search_ok cs name sg (dvm_find_method n al name sg) (resolve_method n name sg cs) i"
        if i: "i < length cs" "rank i < rank c" for i
        unfolding search_ok_def
      proof (intro allI impI)
        fix cs1 assume "same_but_caches cs cs1" "caches_ok cs1"
        then obtain m cs2 where "dvm_find_method n al name sg cs1 i = Some (m, cs2)" "resolve_method n name sg cs i = Some m"
            "same_but_caches cs cs2" "caches_ok cs2"
          using Suc.IH [OF i(1)] i(2) Suc.prems(2) by fastforce
        moreover from this have "\<forall>r \<in> set_option m. finds cs name sg r" by (auto intro: resolve_finds)
        ultimately show "\<exists>m cs2. dvm_find_method n al name sg cs1 i = Some (m, cs2) \<and> resolve_method n name sg cs i = Some m \<and>
            same_but_caches cs cs2 \<and> caches_ok cs2 \<and> (\<forall>r \<in> set_option m. finds cs name sg r)" by blast
      qed
      from iface_methods_cached [OF h c this _ _ s ok, of "Some c" "Suc n" None] obtain a b cs2 where i:
        "iface_methods (Suc n) (dvm_find_method n al name sg) cs1 (Some c) None = Some ((a, b), cs2)"
        "iface_methods_ref (Suc n) (resolve_method n name sg cs) cs (Some c) None = Some (a, b)"
        "same_but_caches cs cs2" "caches_ok cs2"
        using Suc.prems(1,2) by auto
      let ?r = "if a \<noteq> None then a else b"
      have r: "resolve_method (Suc n) name sg cs c = Some ?r" using 4 x y c i(2) by (simp del: del)
      have find: "dvm_find_method (Suc n) al name sg cs1 c = (case ?r of
          Some r \<Rightarrow> mcache_put al cs2 c (mcache_hash name sg) sg r \<bind> (\<lambda>cs. Some (Some r, cs))
        | None \<Rightarrow> Some (None, cs2))"
        using 4 x y own sup sf miss hit c1 i(1) by (simp add: Let_def del: del)
      show ?thesis
      proof (cases ?r)
        case None
        then show ?thesis using find r i by (simp del: dvm_find_method.simps resolve_method.simps)
      next
        case (Some q)
        from put [OF i(3,4) r [unfolded Some]] obtain cs3 where
          "mcache_put al cs2 c (mcache_hash name sg) sg q = Some cs3" "same_but_caches cs cs3" "caches_ok cs3" by blast
        then show ?thesis using find r Some by (simp del: dvm_find_method.simps resolve_method.simps)
      qed
    qed
  qed
qed simp

section \<open>Properties\<close>

definition sample_method :: dvm_method where
  "sample_method = \<lparr>m_cls = 1, m_name = Some ''run'', m_sig = Some ''()V'', m_shorty = None, m_access = 1, m_dex = None,
     m_code = code_zero, m_has_code = True, m_builtin = False, m_arg_slots = 0, m_arg_count = 0, m_ret_kind = CHR ''V''\<rparr>"

text \<open>A base class, an interface with a default method and a class that inherits it.\<close>

definition sample_classes :: "dvm_class list" where
  "sample_classes =
     [class_zero\<lparr>c_desc := OBJECT_DESC\<rparr>,
      class_zero\<lparr>c_desc := ''LTask;'', c_super := Some 0, c_methods := [sample_method]\<rparr>,
      class_zero\<lparr>c_desc := ''LJob;'', c_super := Some 0, c_ifaces := [Some 1]\<rparr>]"

lemma sample_classes_ok: "hierarchy sample_classes id" "caches_ok sample_classes"
  by (auto simp: hierarchy_def caches_ok_def sample_classes_def parents_def class_zero_def less_Suc_eq
      cache_shape_def used_in_def)

lemma sample_alloc: "bounded_alloc (\<lambda>n. n < 4096)"
  by (simp add: bounded_alloc_def)

text \<open>
  C17. The resolved-method cache is transparent: on every acyclic hierarchy whose caches hold
  only answers of the search, \<open>dvm_find_method\<close> (cache probe, own methods, superclasses, default
  methods of interfaces, abstract declarations; with growth of the caches that the allocator may
  refuse) returns what the search without any cache returns, its loops end within the height of
  the hierarchy, and it changes nothing but caches, which stay correct.
\<close>

theorem find_method_transparent:
  assumes "hierarchy cs rank" and "bounded_alloc al" and "caches_ok cs" and "c < length cs" and "rank c + 2 \<le> n"
  shows "\<exists>m cs'. dvm_find_method n al name sg cs c = Some (m, cs') \<and> resolve_method n name sg cs c = Some m \<and>
    same_but_caches cs cs' \<and> caches_ok cs'"
  by (rule find_method_cached [OF assms(1,2,4,5) same_refl assms(3)])

theorem find_method_transparent_witness:
  "\<exists>m cs'. dvm_find_method 4 (\<lambda>n. n < 4096) ''run'' (Some ''()V'') sample_classes 2 = Some (m, cs') \<and>
     resolve_method 4 ''run'' (Some ''()V'') sample_classes 2 = Some m \<and> same_but_caches sample_classes cs' \<and> caches_ok cs' \<and>
     m = Some (1, 0)"
proof -
  obtain m cs' where "dvm_find_method 4 (\<lambda>n. n < 4096) ''run'' (Some ''()V'') sample_classes 2 = Some (m, cs')"
     "resolve_method 4 ''run'' (Some ''()V'') sample_classes 2 = Some m" "same_but_caches sample_classes cs'" "caches_ok cs'"
    using find_method_transparent [OF sample_classes_ok(1) sample_alloc sample_classes_ok(2), of 2 4 "''run''" "Some ''()V''"]
    by (auto simp: sample_classes_def simp del: dvm_find_method.simps resolve_method.simps)
  moreover have "resolve_method 4 ''run'' (Some ''()V'') sample_classes 2 = Some (Some (1, 0))" by code_simp
  ultimately show ?thesis by auto
qed

text \<open>
  Constructors are not inherited: looking up \<open><init>\<close> or \<open><clinit>\<close> on a class yields a method
  of that very class or nothing, whatever its superclasses and interfaces declare.
\<close>

theorem find_method_constructor:
  assumes "hierarchy cs rank" and "bounded_alloc al" and "caches_ok cs" and "c < length cs" and "rank c + 2 \<le> n"
    and "name = ''<init>'' \<or> name = ''<clinit>''"
  shows "\<exists>cs'. dvm_find_method n al name sg cs c = Some (map_option (Pair c) (own_index 0 (c_methods (cs ! c)) name sg), cs')"
proof -
  obtain m cs' where m: "dvm_find_method n al name sg cs c = Some (m, cs')" "resolve_method n name sg cs c = Some m"
    using find_method_cached [OF assms(1,2,4,5) same_refl assms(3)] by blast
  moreover obtain k where "n = Suc k" using assms(5) by (cases n) auto
  ultimately show ?thesis using assms(4,6)
    by (cases "own_index 0 (c_methods (cs ! c)) name sg") (auto simp: class_own_method_def)
qed

theorem find_method_constructor_witness:
  "\<exists>cs'. dvm_find_method 4 (\<lambda>n. n < 4096) ''<init>'' None sample_classes 2 = Some (None, cs')"
  using find_method_constructor [OF sample_classes_ok(1) sample_alloc sample_classes_ok(2), of 2 4 "''<init>''" None]
  by (auto simp: sample_classes_def class_zero_def simp del: dvm_find_method.simps)

end
