(* ===== verification/Dvm_Interp.thy ===== *)
theory Dvm_Interp
  imports Dvm_Store "HOL-Library.Signed_Division"
begin

text \<open>
  The instructions of the bytecode interpreter that work on registers, constants, branches and
  arrays (\<open>execute\<close> in \<open>src/src/dvm/dvm.c\<close>).  One definition per group of \<open>case\<close> labels; a
  group yields what the C code does next: \<open>break\<close> to the next instruction, \<open>goto exception\<close>
  (with the class handed to \<open>dvm__throw\<close>, or with an exception that is already pending), or
  \<open>return true\<close> with the result.  \<open>None\<close> is a fault: an access outside an allocation, or a signed
  operation whose result does not fit, which C leaves undefined.
\<close>

section \<open>State\<close>

record dvm =
  vm_heap :: dvm_heap
  vm_exception :: u32
  vm_exc_ref :: u32
  vm_steps :: u64
  vm_step_limit :: u64
  vm_call_steps :: u64
  vm_parked :: bool

record frame =
  fr_regs :: "u32 list"
  fr_pc :: u32
  fr_result :: u64

datatype outcome =
    Next dvm frame
  | Raise "string option" dvm frame
  | Return u64 dvm

section \<open>Operand fetch\<close>

definition OPCODE :: "u16 \<Rightarrow> u8" where "OPCODE u = ucast (u AND 0xff)"

definition AA :: "u16 \<Rightarrow> u8" where "AA u = ucast (drop_bit 8 u)"

definition A4 :: "u16 \<Rightarrow> u8" where "A4 u = ucast (drop_bit 8 u AND 0x0f)"

definition B4 :: "u16 \<Rightarrow> u8" where "B4 u = ucast (drop_bit 12 u AND 0x0f)"

definition IU :: "u16 list \<Rightarrow> u32 \<Rightarrow> u32 \<Rightarrow> u16" where
  "IU insns pc k = (if unat (pc + k) < length insns then insns ! unat (pc + k) else 0)"

text \<open>\<open>(uint32_t) IU(1) | ((uint32_t) IU(2) << 16)\<close>, and the same over two units of a payload.\<close>

definition units32 :: "u16 \<Rightarrow> u16 \<Rightarrow> u32" where
  "units32 lo hi = ucast lo OR push_bit 16 (ucast hi)"

definition IU32 :: "u16 list \<Rightarrow> u32 \<Rightarrow> u32" where
  "IU32 insns pc = units32 (IU insns pc 1) (IU insns pc 2)"

definition insn_u32 :: "u16 list \<Rightarrow> u32 \<Rightarrow> u32 option" where
  "insn_u32 insns i = do {
     lo \<leftarrow> c_at insns (unat i);
     hi \<leftarrow> c_at insns (unat (i + 1));
     Some (units32 lo hi) }"

text \<open>The two source registers of the \<open>vAA, vBB, vCC\<close> format.\<close>

definition src_b :: "u16 list \<Rightarrow> u32 \<Rightarrow> nat" where "src_b insns pc = unat (IU insns pc 1 AND 0xff)"

definition src_c :: "u16 list \<Rightarrow> u32 \<Rightarrow> nat" where "src_c insns pc = unat (drop_bit 8 (IU insns pc 1))"

text \<open>\<open>REQ\<close> over the registers a case checks: one outside the frame raises \<open>VerifyError\<close>.\<close>

definition REQ :: "nat list \<Rightarrow> dvm \<Rightarrow> frame \<Rightarrow> outcome option \<Rightarrow> outcome option" where
  "REQ rs vm fr k = (if list_all (\<lambda>i. i < length (fr_regs fr)) rs then k
     else Some (Raise (Some ''java/lang/VerifyError'') vm fr))"

definition rw :: "u32 list \<Rightarrow> nat \<Rightarrow> u64 option" where
  "rw r i = do { lo \<leftarrow> c_at r i; hi \<leftarrow> c_at r (i + 1); Some (ucast lo OR push_bit 32 (ucast hi)) }"

definition sw :: "u32 list \<Rightarrow> nat \<Rightarrow> u64 \<Rightarrow> u32 list option" where
  "sw r i v = do { r \<leftarrow> c_set r i (ucast v); c_set r (i + 1) (ucast (drop_bit 32 v)) }"

text \<open>Store into a register (pair) and fall through to the next instruction.\<close>

definition next_at :: "u32 \<Rightarrow> dvm \<Rightarrow> frame \<Rightarrow> u32 list \<Rightarrow> outcome" where
  "next_at n vm fr rs = Next vm (fr\<lparr>fr_regs := rs, fr_pc := fr_pc fr + n\<rparr>)"

definition put_reg :: "nat \<Rightarrow> u32 \<Rightarrow> u32 \<Rightarrow> dvm \<Rightarrow> frame \<Rightarrow> outcome option" where
  "put_reg i v n vm fr = do { rs \<leftarrow> c_set (fr_regs fr) i v; Some (next_at n vm fr rs) }"

definition put_wide :: "nat \<Rightarrow> u64 \<Rightarrow> u32 \<Rightarrow> dvm \<Rightarrow> frame \<Rightarrow> outcome option" where
  "put_wide i v n vm fr = do { rs \<leftarrow> sw (fr_regs fr) i v; Some (next_at n vm fr rs) }"

section \<open>Moves, results and returns\<close>

definition exec_move :: "u8 \<Rightarrow> u16 \<Rightarrow> u16 list \<Rightarrow> dvm \<Rightarrow> frame \<Rightarrow> outcome option" where
  "exec_move op u0 insns vm fr =
     (let pc = fr_pc fr;
          i1 = unat (IU insns pc 1); i2 = unat (IU insns pc 2);
          (d, s, n) = (if op = 0x01 \<or> op = 0x07 \<or> op = 0x04 then (unat (A4 u0), unat (B4 u0), 1)
                       else if op = 0x02 \<or> op = 0x08 \<or> op = 0x05 then (unat (AA u0), i1, 2)
                       else (i1, i2, 3)) in
      if op = 0x04 \<or> op = 0x05 \<or> op = 0x06 then
        REQ [d + 1, s + 1] vm fr (do { v \<leftarrow> rw (fr_regs fr) s; put_wide d v n vm fr })
      else
        REQ [d, s] vm fr (do { v \<leftarrow> c_at (fr_regs fr) s; put_reg d v n vm fr }))"

definition exec_move_result :: "u8 \<Rightarrow> u16 \<Rightarrow> dvm \<Rightarrow> frame \<Rightarrow> outcome option" where
  "exec_move_result op u0 vm fr =
     (let a = unat (AA u0) in
      if op = 0x0b then REQ [a + 1] vm fr (put_wide a (fr_result fr) 1 vm fr)
      else if op = 0x0d then
        REQ [a] vm fr (put_reg a (if vm_exception vm \<noteq> 0 then vm_exception vm else vm_exc_ref vm) 1
          (vm\<lparr>vm_exception := 0\<rparr>) fr)
      else REQ [a] vm fr (put_reg a (ucast (fr_result fr)) 1 vm fr))"

definition exec_return :: "u8 \<Rightarrow> u16 \<Rightarrow> dvm \<Rightarrow> frame \<Rightarrow> outcome option" where
  "exec_return op u0 vm fr =
     (let a = unat (AA u0) in
      if op = 0x0e then Some (Return 0 vm)
      else if op = 0x10 then REQ [a + 1] vm fr (do { v \<leftarrow> rw (fr_regs fr) a; Some (Return v vm) })
      else REQ [a] vm fr (do { v \<leftarrow> c_at (fr_regs fr) a; Some (Return (ucast v) vm) }))"

section \<open>Constants\<close>

definition const4 :: "u16 \<Rightarrow> u32" where
  "const4 u0 = signed_drop_bit 4 (scast (push_bit 4 (B4 u0)))"

definition const_wide4 :: "u16 list \<Rightarrow> u32 \<Rightarrow> u64" where
  "const_wide4 insns pc = ucast (IU insns pc 1) OR push_bit 16 (ucast (IU insns pc 2))
     OR push_bit 32 (ucast (IU insns pc 3)) OR push_bit 48 (ucast (IU insns pc 4))"

definition exec_const :: "u8 \<Rightarrow> u16 \<Rightarrow> u16 list \<Rightarrow> dvm \<Rightarrow> frame \<Rightarrow> outcome option" where
  "exec_const op u0 insns vm fr =
     (let pc = fr_pc fr; a = unat (AA u0); i1 = IU insns pc 1 in
      if op = 0x12 then REQ [unat (A4 u0)] vm fr (put_reg (unat (A4 u0)) (const4 u0) 1 vm fr)
      else if op = 0x13 then REQ [a] vm fr (put_reg a (scast i1) 2 vm fr)
      else if op = 0x14 then REQ [a] vm fr (put_reg a (IU32 insns pc) 3 vm fr)
      else if op = 0x15 then REQ [a] vm fr (put_reg a (push_bit 16 (ucast i1)) 2 vm fr)
      else if op = 0x16 then REQ [a + 1] vm fr (put_wide a (scast i1) 2 vm fr)
      else if op = 0x17 then REQ [a + 1] vm fr (put_wide a (scast (IU32 insns pc)) 3 vm fr)
      else if op = 0x18 then REQ [a + 1] vm fr (put_wide a (const_wide4 insns pc) 5 vm fr)
      else REQ [a + 1] vm fr (put_wide a (push_bit 48 (ucast i1)) 2 vm fr))"

section \<open>Branches and switches\<close>

text \<open>\<open>(uint32_t) ((int32_t) pc + off)\<close>: the signed sum has to fit.\<close>

definition fits32 :: "int \<Rightarrow> bool" where "fits32 z \<longleftrightarrow> - (2 ^ 31) \<le> z \<and> z < 2 ^ 31"

definition branch_to :: "u32 \<Rightarrow> u32 \<Rightarrow> u32 option" where
  "branch_to pc off = (if fits32 (sint pc + sint off) then Some (pc + off) else None)"

definition jump :: "u32 \<Rightarrow> dvm \<Rightarrow> frame \<Rightarrow> outcome" where
  "jump t vm fr = Next vm (fr\<lparr>fr_pc := t\<rparr>)"

definition exec_goto :: "u8 \<Rightarrow> u16 \<Rightarrow> u16 list \<Rightarrow> dvm \<Rightarrow> frame \<Rightarrow> outcome option" where
  "exec_goto op u0 insns vm fr =
     (let pc = fr_pc fr in
      if op = 0x28 then
        (if AA u0 = 0 then Some (Raise (Some ''java/lang/VerifyError'') vm fr)
         else do { t \<leftarrow> branch_to pc (scast (AA u0)); Some (jump t vm fr) })
      else if op = 0x29 then do { t \<leftarrow> branch_to pc (scast (IU insns pc 1)); Some (jump t vm fr) }
      else do { t \<leftarrow> branch_to pc (IU32 insns pc); Some (jump t vm fr) })"

text \<open>The scan of a sparse-switch payload: \<open>k\<close> counts up to \<open>size\<close>.\<close>

fun sparse_scan :: "nat \<Rightarrow> u16 list \<Rightarrow> u32 \<Rightarrow> u32 \<Rightarrow> u16 \<Rightarrow> u32 \<Rightarrow> u16 \<Rightarrow> u32 option option" where
  "sparse_scan 0 insns pc poff size' val k = Some None"
| "sparse_scan (Suc n) insns pc poff size' val k = do {
     key \<leftarrow> insn_u32 insns (poff + 2 + ucast k * 2);
     if key \<noteq> val then sparse_scan n insns pc poff size' val (k + 1)
     else do {
       off \<leftarrow> insn_u32 insns (poff + 2 + ucast size' * 2 + ucast k * 2);
       t \<leftarrow> branch_to pc off;
       Some (Some t) } }"

definition switch_target :: "u8 \<Rightarrow> u16 list \<Rightarrow> u32 \<Rightarrow> u32 \<Rightarrow> u32 option" where
  "switch_target op insns pc val =
     (let poff = pc + IU32 insns pc; dflt = pc + 3 in
      if unat (poff + 2) \<le> length insns then do {
        ident \<leftarrow> c_at insns (unat poff);
        size' \<leftarrow> c_at insns (unat (poff + 1));
        if ident = 0x0100 \<and> op = 0x2b \<and> unat poff + 4 + unat size' * 2 \<le> length insns then do {
          first \<leftarrow> insn_u32 insns (poff + 2);
          let k = sint val - sint first;
          if 0 \<le> k \<and> k < int (unat size') then do {
            off \<leftarrow> insn_u32 insns (poff + 4 + of_int k * 2);
            branch_to pc off }
          else Some dflt }
        else if ident = 0x0200 \<and> op = 0x2c \<and> unat poff + 2 + unat size' * 4 \<le> length insns then do {
          t \<leftarrow> sparse_scan (unat size') insns pc poff size' val 0;
          Some (case t of None \<Rightarrow> dflt | Some t \<Rightarrow> t) }
        else Some dflt }
      else Some dflt)"

definition exec_switch :: "u8 \<Rightarrow> u16 \<Rightarrow> u16 list \<Rightarrow> dvm \<Rightarrow> frame \<Rightarrow> outcome option" where
  "exec_switch op u0 insns vm fr =
     REQ [unat (AA u0)] vm fr (do {
       val \<leftarrow> c_at (fr_regs fr) (unat (AA u0));
       t \<leftarrow> switch_target op insns (fr_pc fr) val;
       Some (jump t vm fr) })"

section \<open>Comparisons\<close>

definition cmp_long :: "u64 \<Rightarrow> u64 \<Rightarrow> u32" where
  "cmp_long a b = (if sint b < sint a then 1 else if sint a = sint b then 0 else - 1)"

definition exec_cmp_long :: "u16 \<Rightarrow> u16 list \<Rightarrow> dvm \<Rightarrow> frame \<Rightarrow> outcome option" where
  "exec_cmp_long u0 insns vm fr =
     (let a = unat (AA u0); b = src_b insns (fr_pc fr); c = src_c insns (fr_pc fr) in
      REQ [a, b + 1, c + 1] vm fr (do {
        x \<leftarrow> rw (fr_regs fr) b;
        y \<leftarrow> rw (fr_regs fr) c;
        put_reg a (cmp_long x y) 2 vm fr }))"

definition if_test :: "u8 \<Rightarrow> int \<Rightarrow> int \<Rightarrow> bool" where
  "if_test k a b = (if k = 0 then a = b else if k = 1 then a \<noteq> b else if k = 2 then a < b
     else if k = 3 then b \<le> a else if k = 4 then b < a else a \<le> b)"

definition if_jump :: "bool \<Rightarrow> u16 list \<Rightarrow> dvm \<Rightarrow> frame \<Rightarrow> outcome option" where
  "if_jump t insns vm fr =
     (if t then do { t \<leftarrow> branch_to (fr_pc fr) (scast (IU insns (fr_pc fr) 1)); Some (jump t vm fr) }
      else Some (jump (fr_pc fr + 2) vm fr))"

definition exec_if :: "u8 \<Rightarrow> u16 \<Rightarrow> u16 list \<Rightarrow> dvm \<Rightarrow> frame \<Rightarrow> outcome option" where
  "exec_if op u0 insns vm fr =
     REQ [unat (A4 u0), unat (B4 u0)] vm fr (do {
       a \<leftarrow> c_at (fr_regs fr) (unat (A4 u0));
       b \<leftarrow> c_at (fr_regs fr) (unat (B4 u0));
       if_jump (if_test (op - 0x32) (sint a) (sint b)) insns vm fr })"

definition exec_ifz :: "u8 \<Rightarrow> u16 \<Rightarrow> u16 list \<Rightarrow> dvm \<Rightarrow> frame \<Rightarrow> outcome option" where
  "exec_ifz op u0 insns vm fr =
     REQ [unat (AA u0)] vm fr (do {
       a \<leftarrow> c_at (fr_regs fr) (unat (AA u0));
       if_jump (if_test (op - 0x38) (sint a) 0) insns vm fr })"

section \<open>Arrays\<close>

text \<open>The payload of an array is bytes in the order of the host, which is little-endian.\<close>

fun le_val :: "u8 list \<Rightarrow> u64" where
  "le_val [] = 0"
| "le_val (b # bs) = ucast b OR push_bit 8 (le_val bs)"

fun le_bytes_of :: "nat \<Rightarrow> u64 \<Rightarrow> u8 list" where
  "le_bytes_of 0 v = []"
| "le_bytes_of (Suc n) v = ucast v # le_bytes_of n (drop_bit 8 v)"

definition data_get :: "u8 list option \<Rightarrow> nat \<Rightarrow> nat \<Rightarrow> u64 option" where
  "data_get data w i = (case data of None \<Rightarrow> None
     | Some bs \<Rightarrow> if (i + 1) * w \<le> length bs then Some (le_val (take w (drop (i * w) bs))) else None)"

definition data_put :: "u8 list option \<Rightarrow> nat \<Rightarrow> nat \<Rightarrow> u64 \<Rightarrow> u8 list option" where
  "data_put data w i v = (case data of None \<Rightarrow> None
     | Some bs \<Rightarrow> if (i + 1) * w \<le> length bs
         then Some (take (i * w) bs @ le_bytes_of w v @ drop ((i + 1) * w) bs) else None)"

text \<open>\<open>array_check\<close>: the exception it raises, or none.\<close>

definition array_check :: "dvm_object option \<Rightarrow> u32 \<Rightarrow> string option" where
  "array_check a idx = (case a of None \<Rightarrow> Some ''java/lang/NullPointerException''
     | Some x \<Rightarrow> if o_kind x \<noteq> DVM_OBJ_ARRAY then Some ''java/lang/NullPointerException''
         else if o_length x \<le> idx then Some ''java/lang/ArrayIndexOutOfBoundsException'' else None)"

text \<open>The width with which the opcode \<open>0x44 + k\<close> (or \<open>0x4b + k\<close>) indexes the payload.\<close>

definition access_width :: "u8 \<Rightarrow> nat" where
  "access_width k = (if k = 0 \<or> k = 2 then 4 else if k = 1 then 8 else if k = 3 \<or> k = 4 then 1 else 2)"

definition aget_value :: "u8 \<Rightarrow> u64 \<Rightarrow> u32" where
  "aget_value k v = (if k = 3 then (if v \<noteq> 0 then 1 else 0)
     else if k = 4 then scast (ucast v :: u8)
     else if k = 6 then scast (ucast v :: u16)
     else ucast v)"

definition exec_aget :: "u8 \<Rightarrow> u16 \<Rightarrow> u16 list \<Rightarrow> dvm \<Rightarrow> frame \<Rightarrow> outcome option" where
  "exec_aget op u0 insns vm fr =
     (let d = unat (AA u0); b = src_b insns (fr_pc fr); c = src_c insns (fr_pc fr); k = op - 0x44 in
      REQ [d, b, c] vm fr (do {
        ref \<leftarrow> c_at (fr_regs fr) b;
        a \<leftarrow> dvm__obj (vm_heap vm) ref;
        idx \<leftarrow> c_at (fr_regs fr) c;
        case array_check a idx of Some e \<Rightarrow> Some (Raise (Some e) vm fr)
        | None \<Rightarrow> do {
            x \<leftarrow> a;
            if k = 1 then REQ [d + 1] vm fr (do {
              v \<leftarrow> data_get (o_data x) 8 (unat idx);
              put_wide d v 2 vm fr })
            else do {
              v \<leftarrow> data_get (o_data x) (access_width k) (unat idx);
              put_reg d (aget_value k v) 2 vm fr } } }))"

definition aput_value :: "u8 \<Rightarrow> u32 \<Rightarrow> u64" where
  "aput_value k v = (if k = 3 then (if v \<noteq> 0 then 1 else 0)
     else if k = 4 then ucast (ucast v :: u8)
     else if k = 5 \<or> k = 6 then ucast (ucast v :: u16)
     else ucast v)"

definition exec_aput :: "u8 \<Rightarrow> u16 \<Rightarrow> u16 list \<Rightarrow> dvm \<Rightarrow> frame \<Rightarrow> outcome option" where
  "exec_aput op u0 insns vm fr =
     (let s = unat (AA u0); b = src_b insns (fr_pc fr); c = src_c insns (fr_pc fr); k = op - 0x4b in
      REQ [s, b, c] vm fr (do {
        ref \<leftarrow> c_at (fr_regs fr) b;
        a \<leftarrow> dvm__obj (vm_heap vm) ref;
        idx \<leftarrow> c_at (fr_regs fr) c;
        case array_check a idx of Some e \<Rightarrow> Some (Raise (Some e) vm fr)
        | None \<Rightarrow> do {
            x \<leftarrow> a;
            let store = (\<lambda>w v. do {
              bs \<leftarrow> data_put (o_data x) w (unat idx) v;
              h \<leftarrow> heap_put (vm_heap vm) ref (x\<lparr>o_data := Some bs\<rparr>);
              Some (next_at 2 (vm\<lparr>vm_heap := h\<rparr>) fr (fr_regs fr)) });
            if k = 1 then REQ [s + 1] vm fr (do { v \<leftarrow> rw (fr_regs fr) s; store 8 v })
            else do { v \<leftarrow> c_at (fr_regs fr) s; store (access_width k) (aput_value k v) } } }))"

definition exec_array_length :: "u16 \<Rightarrow> dvm \<Rightarrow> frame \<Rightarrow> outcome option" where
  "exec_array_length u0 vm fr =
     REQ [unat (A4 u0), unat (B4 u0)] vm fr (do {
       ref \<leftarrow> c_at (fr_regs fr) (unat (B4 u0));
       ob \<leftarrow> dvm__obj (vm_heap vm) ref;
       case ob of None \<Rightarrow> Some (Raise (Some ''java/lang/NullPointerException'') vm fr)
       | Some x \<Rightarrow> if o_kind x \<noteq> DVM_OBJ_ARRAY then Some (Raise (Some ''java/lang/NullPointerException'') vm fr)
           else put_reg (unat (A4 u0)) (o_length x) 1 vm fr })"

text \<open>The bytes of a run of code units, as \<open>memcpy\<close> sees them.\<close>

definition unit_bytes :: "u16 list \<Rightarrow> u8 list" where
  "unit_bytes us = concat (map (\<lambda>u. [ucast u, ucast (drop_bit 8 u)]) us)"

definition fill_bytes :: "u16 list \<Rightarrow> u32 \<Rightarrow> dvm_object \<Rightarrow> dvm_object option" where
  "fill_bytes insns poff x =
     (if unat (poff + 4) \<le> length insns then do {
        ident \<leftarrow> c_at insns (unat poff);
        if ident = 0x0300 then do {
          width \<leftarrow> c_at insns (unat (poff + 1));
          count' \<leftarrow> insn_u32 insns (poff + 2);
          let n = (if count' < o_length x then count' else o_length x);
          let units = (unat count' * unat width + 1) div 2;
          if unat (poff + 4) + units \<le> length insns \<and> unat width = dvm__elem_width (o_elem_kind x) then do {
            let len' = unat n * unat width;
            bs \<leftarrow> o_data x;
            if len' \<le> length bs then
              Some (x\<lparr>o_data := Some (take len' (unit_bytes (drop (unat (poff + 4)) insns)) @ drop len' bs)\<rparr>)
            else None }
          else Some x }
        else Some x }
      else Some x)"

definition exec_fill_array_data :: "u16 \<Rightarrow> u16 list \<Rightarrow> dvm \<Rightarrow> frame \<Rightarrow> outcome option" where
  "exec_fill_array_data u0 insns vm fr =
     REQ [unat (AA u0)] vm fr (do {
       let poff = fr_pc fr + IU32 insns (fr_pc fr);
       ref \<leftarrow> c_at (fr_regs fr) (unat (AA u0));
       ao \<leftarrow> dvm__obj (vm_heap vm) ref;
       case ao of None \<Rightarrow> Some (Raise (Some ''java/lang/NullPointerException'') vm fr)
       | Some x \<Rightarrow> if o_kind x \<noteq> DVM_OBJ_ARRAY then Some (Raise (Some ''java/lang/NullPointerException'') vm fr)
           else do {
             x \<leftarrow> fill_bytes insns poff x;
             h \<leftarrow> heap_put (vm_heap vm) ref x;
             Some (next_at 3 (vm\<lparr>vm_heap := h\<rparr>) fr (fr_regs fr)) } })"

section \<open>Arithmetic\<close>

text \<open>
  The integer operations in the order of the opcodes: add, sub, mul, div, rem, and, or, xor,
  shl, shr, ushr.  \<open>Some None\<close> is the division by zero that raises \<open>ArithmeticException\<close>.  The
  division and the remainder of C itself are undefined for a zero divisor and for the least
  value divided by \<open>-1\<close>; a run that reaches them with such operands faults.
\<close>

definition c_div :: "'a::len word \<Rightarrow> 'a word \<Rightarrow> 'a word option" where
  "c_div a b = (if b = 0 \<or> sint a = - (2 ^ (LENGTH('a) - 1)) \<and> b = - 1 then None
     else Some (word_of_int (sint a sdiv sint b)))"

definition c_rem :: "'a::len word \<Rightarrow> 'a word \<Rightarrow> 'a word option" where
  "c_rem a b = (if b = 0 \<or> sint a = - (2 ^ (LENGTH('a) - 1)) \<and> b = - 1 then None
     else Some (word_of_int (sint a smod sint b)))"

definition int_min :: u32 where "int_min = 0x80000000"

definition long_min :: u64 where "long_min = 0x8000000000000000"

definition int_op :: "u8 \<Rightarrow> u32 \<Rightarrow> u32 \<Rightarrow> u32 option option" where
  "int_op k a b =
     (if k = 0 then Some (Some (a + b))
      else if k = 1 then Some (Some (a - b))
      else if k = 2 then Some (Some (a * b))
      else if k = 3 then
        (if b = 0 then Some None
         else do { v \<leftarrow> (if a = int_min \<and> b = - 1 then Some int_min else c_div a b); Some (Some v) })
      else if k = 4 then
        (if b = 0 then Some None
         else do { v \<leftarrow> (if a = int_min \<and> b = - 1 then Some 0 else c_rem a b); Some (Some v) })
      else if k = 5 then Some (Some (a AND b))
      else if k = 6 then Some (Some (a OR b))
      else if k = 7 then Some (Some (a XOR b))
      else if k = 8 then Some (Some (push_bit (unat (b AND 31)) a))
      else if k = 9 then Some (Some (signed_drop_bit (unat (b AND 31)) a))
      else Some (Some (drop_bit (unat (b AND 31)) a)))"

definition long_op :: "u8 \<Rightarrow> u64 \<Rightarrow> u64 \<Rightarrow> u64 option option" where
  "long_op k a b =
     (if k = 0 then Some (Some (a + b))
      else if k = 1 then Some (Some (a - b))
      else if k = 2 then Some (Some (a * b))
      else if k = 3 then
        (if b = 0 then Some None
         else do { v \<leftarrow> (if a = long_min \<and> b = - 1 then Some long_min else c_div a b); Some (Some v) })
      else if k = 4 then
        (if b = 0 then Some None
         else do { v \<leftarrow> (if a = long_min \<and> b = - 1 then Some 0 else c_rem a b); Some (Some v) })
      else if k = 5 then Some (Some (a AND b))
      else if k = 6 then Some (Some (a OR b))
      else if k = 7 then Some (Some (a XOR b))
      else if k = 8 then Some (Some (push_bit (unat (b AND 63)) a))
      else if k = 9 then Some (Some (signed_drop_bit (unat (b AND 63)) a))
      else Some (Some (drop_bit (unat (b AND 63)) a)))"

definition put_int :: "nat \<Rightarrow> u32 option \<Rightarrow> u32 \<Rightarrow> dvm \<Rightarrow> frame \<Rightarrow> outcome option" where
  "put_int d v n vm fr = (case v of None \<Rightarrow> Some (Raise (Some ''java/lang/ArithmeticException'') vm fr)
     | Some v \<Rightarrow> put_reg d v n vm fr)"

definition put_long :: "nat \<Rightarrow> u64 option \<Rightarrow> u32 \<Rightarrow> dvm \<Rightarrow> frame \<Rightarrow> outcome option" where
  "put_long d v n vm fr = (case v of None \<Rightarrow> Some (Raise (Some ''java/lang/ArithmeticException'') vm fr)
     | Some v \<Rightarrow> put_wide d v n vm fr)"

definition exec_binop_int :: "u8 \<Rightarrow> u16 \<Rightarrow> u16 list \<Rightarrow> dvm \<Rightarrow> frame \<Rightarrow> outcome option" where
  "exec_binop_int op u0 insns vm fr =
     (let d = unat (AA u0); i = src_b insns (fr_pc fr); j = src_c insns (fr_pc fr) in
      REQ [d, i, j] vm fr (do {
        a \<leftarrow> c_at (fr_regs fr) i;
        b \<leftarrow> c_at (fr_regs fr) j;
        v \<leftarrow> int_op (op - 0x90) a b;
        put_int d v 2 vm fr }))"

text \<open>The second operand of the long operations: the shifts take an int register.\<close>

definition long_operand :: "bool \<Rightarrow> u32 list \<Rightarrow> nat \<Rightarrow> u64 option" where
  "long_operand shift r j = (if shift then do { b \<leftarrow> c_at r j; Some (scast b) } else rw r j)"

definition exec_binop_long :: "u8 \<Rightarrow> u16 \<Rightarrow> u16 list \<Rightarrow> dvm \<Rightarrow> frame \<Rightarrow> outcome option" where
  "exec_binop_long op u0 insns vm fr =
     (let d = unat (AA u0); i = src_b insns (fr_pc fr); j = src_c insns (fr_pc fr); shift = (0xa3 \<le> op) in
      REQ [d + 1, i + 1, if shift then j else j + 1] vm fr (do {
        a \<leftarrow> rw (fr_regs fr) i;
        b \<leftarrow> long_operand shift (fr_regs fr) j;
        v \<leftarrow> long_op (op - 0x9b) a b;
        put_long d v 2 vm fr }))"

definition exec_binop_int_2addr :: "u8 \<Rightarrow> u16 \<Rightarrow> dvm \<Rightarrow> frame \<Rightarrow> outcome option" where
  "exec_binop_int_2addr op u0 vm fr =
     REQ [unat (A4 u0), unat (B4 u0)] vm fr (do {
       a \<leftarrow> c_at (fr_regs fr) (unat (A4 u0));
       b \<leftarrow> c_at (fr_regs fr) (unat (B4 u0));
       v \<leftarrow> int_op (op - 0xb0) a b;
       put_int (unat (A4 u0)) v 1 vm fr })"

definition exec_binop_long_2addr :: "u8 \<Rightarrow> u16 \<Rightarrow> dvm \<Rightarrow> frame \<Rightarrow> outcome option" where
  "exec_binop_long_2addr op u0 vm fr =
     (let d = unat (A4 u0); j = unat (B4 u0); shift = (0xc3 \<le> op) in
      REQ [d + 1, if shift then j else j + 1] vm fr (do {
        a \<leftarrow> rw (fr_regs fr) d;
        b \<leftarrow> long_operand shift (fr_regs fr) j;
        v \<leftarrow> long_op (op - 0xbb) a b;
        put_long d v 1 vm fr }))"

text \<open>The literal forms have a reversed subtraction in second place.\<close>

definition lit_op :: "u8 \<Rightarrow> u32 \<Rightarrow> u32 \<Rightarrow> u32 option option" where
  "lit_op k a b = (if k = 1 then Some (Some (b - a)) else int_op k a b)"

definition exec_lit16 :: "u8 \<Rightarrow> u16 \<Rightarrow> u16 list \<Rightarrow> dvm \<Rightarrow> frame \<Rightarrow> outcome option" where
  "exec_lit16 op u0 insns vm fr =
     REQ [unat (A4 u0), unat (B4 u0)] vm fr (do {
       a \<leftarrow> c_at (fr_regs fr) (unat (B4 u0));
       v \<leftarrow> lit_op (op - 0xd0) a (scast (IU insns (fr_pc fr) 1));
       put_int (unat (A4 u0)) v 2 vm fr })"

definition exec_lit8 :: "u8 \<Rightarrow> u16 \<Rightarrow> u16 list \<Rightarrow> dvm \<Rightarrow> frame \<Rightarrow> outcome option" where
  "exec_lit8 op u0 insns vm fr =
     (let d = unat (AA u0); i = src_b insns (fr_pc fr);
          b = scast (ucast (drop_bit 8 (IU insns (fr_pc fr) 1)) :: u8) in
      REQ [d, i] vm fr (do {
        a \<leftarrow> c_at (fr_regs fr) i;
        v \<leftarrow> lit_op (op - 0xd8) a b;
        put_int d v 2 vm fr }))"

text \<open>Negation of the least value does not fit its type.\<close>

definition exec_unary :: "u8 \<Rightarrow> u16 \<Rightarrow> dvm \<Rightarrow> frame \<Rightarrow> outcome option" where
  "exec_unary op u0 vm fr =
     (let d = unat (A4 u0); s = unat (B4 u0);
          int1 = (\<lambda>f. REQ [d, s] vm fr (do { v \<leftarrow> c_at (fr_regs fr) s; put_reg d (f v) 1 vm fr }));
          long1 = (\<lambda>f. REQ [d + 1, s + 1] vm fr (do { v \<leftarrow> rw (fr_regs fr) s; put_wide d (f v) 1 vm fr })) in
      if op = 0x7b then REQ [d, s] vm fr (do {
        v \<leftarrow> c_at (fr_regs fr) s;
        if v = int_min then None else put_reg d (- v) 1 vm fr })
      else if op = 0x7c then int1 (\<lambda>v. NOT v)
      else if op = 0x7d then REQ [d + 1, s + 1] vm fr (do {
        v \<leftarrow> rw (fr_regs fr) s;
        if v = long_min then None else put_wide d (- v) 1 vm fr })
      else if op = 0x7e then long1 (\<lambda>v. NOT v)
      else if op = 0x81 then REQ [d + 1, s] vm fr (do {
        v \<leftarrow> c_at (fr_regs fr) s; put_wide d (scast v) 1 vm fr })
      else if op = 0x84 then REQ [d, s + 1] vm fr (do {
        v \<leftarrow> rw (fr_regs fr) s; put_reg d (ucast v) 1 vm fr })
      else if op = 0x8d then int1 (\<lambda>v. scast (ucast v :: u8))
      else if op = 0x8e then int1 (\<lambda>v. ucast (ucast v :: u16))
      else int1 (\<lambda>v. scast (ucast v :: u16)))"

section \<open>Throw, and the instructions that are skipped\<close>

definition exec_throw :: "u16 \<Rightarrow> dvm \<Rightarrow> frame \<Rightarrow> outcome option" where
  "exec_throw u0 vm fr =
     REQ [unat (AA u0)] vm fr (do {
       e \<leftarrow> c_at (fr_regs fr) (unat (AA u0));
       if e = 0 then Some (Raise (Some ''java/lang/NullPointerException'') vm fr)
       else Some (Raise None (vm\<lparr>vm_exception := e, vm_exc_ref := e\<rparr>) fr) })"

definition exec_handles :: "u8 \<Rightarrow> u16 \<Rightarrow> dvm \<Rightarrow> frame \<Rightarrow> outcome option" where
  "exec_handles op u0 vm fr =
     (if op = 0xfa \<or> op = 0xfb then Some (next_at 4 vm (fr\<lparr>fr_result := 0\<rparr>) (fr_regs fr))
      else if op = 0xfc \<or> op = 0xfd then Some (next_at 3 vm (fr\<lparr>fr_result := 0\<rparr>) (fr_regs fr))
      else REQ [unat (AA u0)] vm fr (put_reg (unat (AA u0)) 0 2 vm fr))"

end
