(* ===== verification/Dvm_Float.thy ===== *)
theory Dvm_Float
  imports Dvm_Interp
begin

text \<open>
  The floating-point instructions of \<open>execute\<close>.  A register pattern is decoded to a sign, an
  integer mantissa and an exponent; arithmetic is exact and rounded once, to nearest with ties
  to even, as the hosts do (IEEE 754 binary32 and binary64).  The bit pattern of a NaN that an
  operation produces depends on the host and is a parameter.
\<close>

section \<open>Patterns\<close>

datatype fp = NaN | Inf bool | Fin bool int int

definition bits_to_f :: "u32 \<Rightarrow> fp" where
  "bits_to_f u = (let s = bit u 31; e = uint (drop_bit 23 u AND 0xff); m = uint (u AND 0x7fffff) in
     if e = 255 then (if m = 0 then Inf s else NaN)
     else if e = 0 then Fin s m (- 149) else Fin s (m + 2 ^ 23) (e - 150))"

definition bits_to_d :: "u64 \<Rightarrow> fp" where
  "bits_to_d u = (let s = bit u 63; e = uint (drop_bit 52 u AND 0x7ff); m = uint (u AND 0xfffffffffffff) in
     if e = 2047 then (if m = 0 then Inf s else NaN)
     else if e = 0 then Fin s m (- 1074) else Fin s (m + 2 ^ 52) (e - 1075))"

function bitlen :: "int \<Rightarrow> int" where
  "bitlen n = (if n \<le> 0 then 0 else 1 + bitlen (n div 2))"
  by pat_completeness auto
termination
  by (relation "measure nat") (auto simp: nat_less_eq_zless)

declare bitlen.simps [simp del]

definition round_even :: "int \<Rightarrow> nat \<Rightarrow> int" where
  "round_even m k = (let q = m div 2 ^ k; r = m mod 2 ^ k in
     if k = 0 then m else if 2 ^ (k - 1) < r \<or> r = 2 ^ (k - 1) \<and> odd q then q + 1 else q)"

text \<open>
  The pattern without its sign for \<open>m * 2 ^ e\<close>: \<open>p\<close> bits of precision, least exponent
  \<open>emin\<close>, and \<open>emax\<close> the exponent field of infinity.
\<close>

definition fp_pack :: "nat \<Rightarrow> int \<Rightarrow> int \<Rightarrow> int \<Rightarrow> int \<Rightarrow> int" where
  "fp_pack p emin emax m e =
     (if m = 0 then 0
      else let k = max (bitlen m - int p) (emin - e);
               q = (if 0 \<le> k then round_even m (nat k) else m * 2 ^ nat (- k)) in
           min ((e + k - emin) * 2 ^ (p - 1) + q) (emax * 2 ^ (p - 1)))"

definition f_to_bits :: "u32 \<Rightarrow> fp \<Rightarrow> u32" where
  "f_to_bits nan v = (case v of NaN \<Rightarrow> nan
     | Inf s \<Rightarrow> (if s then 0xff800000 else 0x7f800000)
     | Fin s m e \<Rightarrow> of_int (fp_pack 24 (- 149) 255 m e) OR (if s then 0x80000000 else 0))"

definition d_to_bits :: "u64 \<Rightarrow> fp \<Rightarrow> u64" where
  "d_to_bits nan v = (case v of NaN \<Rightarrow> nan
     | Inf s \<Rightarrow> (if s then 0xfff0000000000000 else 0x7ff0000000000000)
     | Fin s m e \<Rightarrow> of_int (fp_pack 53 (- 1074) 2047 m e) OR (if s then 0x8000000000000000 else 0))"

section \<open>Comparison\<close>

definition scaled :: "bool \<Rightarrow> int \<Rightarrow> int \<Rightarrow> int \<Rightarrow> int" where
  "scaled s m e base = (if s then - 1 else 1) * m * 2 ^ nat (e - base)"

fun fp_less :: "fp \<Rightarrow> fp \<Rightarrow> bool" where
  "fp_less NaN b = False"
| "fp_less a NaN = False"
| "fp_less (Inf s) (Inf t) = (s \<and> \<not> t)"
| "fp_less (Inf s) (Fin t n f) = s"
| "fp_less (Fin s m e) (Inf t) = (\<not> t)"
| "fp_less (Fin s m e) (Fin t n f) = (scaled s m e (min e f) < scaled t n f (min e f))"

definition isunordered :: "fp \<Rightarrow> fp \<Rightarrow> bool" where
  "isunordered a b \<longleftrightarrow> a = NaN \<or> b = NaN"

text \<open>\<open>a >= b\<close> on ordered operands.\<close>

definition fp_ge :: "fp \<Rightarrow> fp \<Rightarrow> bool" where
  "fp_ge a b \<longleftrightarrow> \<not> isunordered a b \<and> \<not> fp_less a b"

definition cmp_fp :: "bool \<Rightarrow> fp \<Rightarrow> fp \<Rightarrow> u32" where
  "cmp_fp lower a b = (if isunordered a b then (if lower then - 1 else 1)
     else if fp_less b a then 1 else if fp_less a b then - 1 else 0)"

definition exec_cmp_float :: "u8 \<Rightarrow> u16 \<Rightarrow> u16 list \<Rightarrow> dvm \<Rightarrow> frame \<Rightarrow> outcome option" where
  "exec_cmp_float op u0 insns vm fr =
     (let a = unat (AA u0); b = src_b insns (fr_pc fr); c = src_c insns (fr_pc fr) in
      REQ [a, b, c] vm fr (do {
        x \<leftarrow> c_at (fr_regs fr) b;
        y \<leftarrow> c_at (fr_regs fr) c;
        put_reg a (cmp_fp (op = 0x2d) (bits_to_f x) (bits_to_f y)) 2 vm fr }))"

definition exec_cmp_double :: "u8 \<Rightarrow> u16 \<Rightarrow> u16 list \<Rightarrow> dvm \<Rightarrow> frame \<Rightarrow> outcome option" where
  "exec_cmp_double op u0 insns vm fr =
     (let a = unat (AA u0); b = src_b insns (fr_pc fr); c = src_c insns (fr_pc fr) in
      REQ [a, b + 1, c + 1] vm fr (do {
        x \<leftarrow> rw (fr_regs fr) b;
        y \<leftarrow> rw (fr_regs fr) c;
        put_reg a (cmp_fp (op = 0x2f) (bits_to_d x) (bits_to_d y)) 2 vm fr }))"

section \<open>Arithmetic\<close>

fun fp_add :: "fp \<Rightarrow> fp \<Rightarrow> fp" where
  "fp_add NaN b = NaN"
| "fp_add a NaN = NaN"
| "fp_add (Inf s) (Inf t) = (if s = t then Inf s else NaN)"
| "fp_add (Inf s) (Fin t n f) = Inf s"
| "fp_add (Fin s m e) (Inf t) = Inf t"
| "fp_add (Fin s m e) (Fin t n f) =
     (let b = min e f; z = scaled s m e b + scaled t n f b in
      if z = 0 then Fin (s \<and> t \<and> m = 0 \<and> n = 0) 0 b else Fin (z < 0) \<bar>z\<bar> b)"

fun fp_neg :: "fp \<Rightarrow> fp" where
  "fp_neg NaN = NaN"
| "fp_neg (Inf s) = Inf (\<not> s)"
| "fp_neg (Fin s m e) = Fin (\<not> s) m e"

fun fp_mul :: "fp \<Rightarrow> fp \<Rightarrow> fp" where
  "fp_mul NaN b = NaN"
| "fp_mul a NaN = NaN"
| "fp_mul (Inf s) (Inf t) = Inf (s \<noteq> t)"
| "fp_mul (Inf s) (Fin t n f) = (if n = 0 then NaN else Inf (s \<noteq> t))"
| "fp_mul (Fin s m e) (Inf t) = (if m = 0 then NaN else Inf (s \<noteq> t))"
| "fp_mul (Fin s m e) (Fin t n f) = Fin (s \<noteq> t) (m * n) (e + f)"

text \<open>
  The quotient is cut off far enough behind the precision \<open>p\<close> of the result; a last bit
  records whether anything was cut off.
\<close>

fun fp_div :: "nat \<Rightarrow> fp \<Rightarrow> fp \<Rightarrow> fp" where
  "fp_div p NaN b = NaN"
| "fp_div p a NaN = NaN"
| "fp_div p (Inf s) (Inf t) = NaN"
| "fp_div p (Inf s) (Fin t n f) = Inf (s \<noteq> t)"
| "fp_div p (Fin s m e) (Inf t) = Fin (s \<noteq> t) 0 0"
| "fp_div p (Fin s m e) (Fin t n f) =
     (if n = 0 then (if m = 0 then NaN else Inf (s \<noteq> t))
      else let k = int p + 2 + bitlen n; q = m * 2 ^ nat k div n; r = m * 2 ^ nat k mod n in
           Fin (s \<noteq> t) (2 * q + (if r = 0 then 0 else 1)) (e - f - k - 1))"

fun fp_mod :: "fp \<Rightarrow> fp \<Rightarrow> fp" where
  "fp_mod NaN b = NaN"
| "fp_mod a NaN = NaN"
| "fp_mod (Inf s) b = NaN"
| "fp_mod (Fin s m e) (Inf t) = Fin s m e"
| "fp_mod (Fin s m e) (Fin t n f) =
     (if n = 0 then NaN
      else let b = min e f in Fin s (m * 2 ^ nat (e - b) mod (n * 2 ^ nat (f - b))) b)"

text \<open>add, sub, mul, div, rem in the order of the opcodes.\<close>

definition fp_op :: "nat \<Rightarrow> u8 \<Rightarrow> fp \<Rightarrow> fp \<Rightarrow> fp" where
  "fp_op p k a b = (if k = 0 then fp_add a b else if k = 1 then fp_add a (fp_neg b)
     else if k = 2 then fp_mul a b else if k = 3 then fp_div p a b else fp_mod a b)"

text \<open>What the host's NaN patterns are, by operands.\<close>

record nan_host =
  nan_f :: "u32 \<Rightarrow> u32 \<Rightarrow> u32"
  nan_d :: "u64 \<Rightarrow> u64 \<Rightarrow> u64"
  nan_fd :: "u32 \<Rightarrow> u64"
  nan_df :: "u64 \<Rightarrow> u32"

definition float_op :: "nan_host \<Rightarrow> u8 \<Rightarrow> u32 \<Rightarrow> u32 \<Rightarrow> u32" where
  "float_op H k a b = f_to_bits (nan_f H a b) (fp_op 24 k (bits_to_f a) (bits_to_f b))"

definition double_op :: "nan_host \<Rightarrow> u8 \<Rightarrow> u64 \<Rightarrow> u64 \<Rightarrow> u64" where
  "double_op H k a b = d_to_bits (nan_d H a b) (fp_op 53 k (bits_to_d a) (bits_to_d b))"

definition exec_binop_float :: "nan_host \<Rightarrow> u8 \<Rightarrow> u16 \<Rightarrow> u16 list \<Rightarrow> dvm \<Rightarrow> frame \<Rightarrow> outcome option" where
  "exec_binop_float H op u0 insns vm fr =
     (let d = unat (AA u0); i = src_b insns (fr_pc fr); j = src_c insns (fr_pc fr) in
      REQ [d, i, j] vm fr (do {
        a \<leftarrow> c_at (fr_regs fr) i;
        b \<leftarrow> c_at (fr_regs fr) j;
        put_reg d (float_op H (op - 0xa6) a b) 2 vm fr }))"

definition exec_binop_double :: "nan_host \<Rightarrow> u8 \<Rightarrow> u16 \<Rightarrow> u16 list \<Rightarrow> dvm \<Rightarrow> frame \<Rightarrow> outcome option" where
  "exec_binop_double H op u0 insns vm fr =
     (let d = unat (AA u0); i = src_b insns (fr_pc fr); j = src_c insns (fr_pc fr) in
      REQ [d + 1, i + 1, j + 1] vm fr (do {
        a \<leftarrow> rw (fr_regs fr) i;
        b \<leftarrow> rw (fr_regs fr) j;
        put_wide d (double_op H (op - 0xab) a b) 2 vm fr }))"

definition exec_binop_float_2addr :: "nan_host \<Rightarrow> u8 \<Rightarrow> u16 \<Rightarrow> dvm \<Rightarrow> frame \<Rightarrow> outcome option" where
  "exec_binop_float_2addr H op u0 vm fr =
     REQ [unat (A4 u0), unat (B4 u0)] vm fr (do {
       a \<leftarrow> c_at (fr_regs fr) (unat (A4 u0));
       b \<leftarrow> c_at (fr_regs fr) (unat (B4 u0));
       put_reg (unat (A4 u0)) (float_op H (op - 0xc6) a b) 1 vm fr })"

definition exec_binop_double_2addr :: "nan_host \<Rightarrow> u8 \<Rightarrow> u16 \<Rightarrow> dvm \<Rightarrow> frame \<Rightarrow> outcome option" where
  "exec_binop_double_2addr H op u0 vm fr =
     REQ [unat (A4 u0) + 1, unat (B4 u0) + 1] vm fr (do {
       a \<leftarrow> rw (fr_regs fr) (unat (A4 u0));
       b \<leftarrow> rw (fr_regs fr) (unat (B4 u0));
       put_wide (unat (A4 u0)) (double_op H (op - 0xcb) a b) 1 vm fr })"

section \<open>Conversions\<close>

definition fp_of_int :: "int \<Rightarrow> fp" where "fp_of_int v = Fin (v < 0) \<bar>v\<bar> 0"

fun fp_trunc :: "fp \<Rightarrow> int" where
  "fp_trunc (Fin s m e) = (if s then - 1 else 1) *
     (if 0 \<le> e then m * 2 ^ nat e else m div 2 ^ nat (- e))"
| "fp_trunc _ = 0"

text \<open>
  \<open>if (isnan(f)) 0; else if (f >= MAX) MAX; else if (f <= MIN) MIN; else (intN_t) f\<close>: the bounds
  are written as floating-point constants, so the upper one is the power of two above \<open>MAX\<close>.
\<close>

definition float_to_int :: "fp \<Rightarrow> u32" where
  "float_to_int f = (if f = NaN then 0
     else if fp_ge f (Fin False 1 31) then 0x7fffffff
     else if fp_ge (Fin True 1 31) f then int_min
     else word_of_int (fp_trunc f))"

definition float_to_long :: "fp \<Rightarrow> u64" where
  "float_to_long f = (if f = NaN then 0
     else if fp_ge f (Fin False 1 63) then 0x7fffffffffffffff
     else if fp_ge (Fin True 1 63) f then long_min
     else word_of_int (fp_trunc f))"

text \<open>
  The double-to-int case compares with \<open>2147483647.0\<close>, which a double can hold: there the
  upper bound is exact.
\<close>

definition double_to_int :: "fp \<Rightarrow> u32" where
  "double_to_int f = (if f = NaN then 0
     else if fp_ge f (Fin False 2147483647 0) then 0x7fffffff
     else if fp_ge (Fin True 1 31) f then int_min
     else word_of_int (fp_trunc f))"

definition exec_unary_float :: "nan_host \<Rightarrow> u8 \<Rightarrow> u16 \<Rightarrow> dvm \<Rightarrow> frame \<Rightarrow> outcome option" where
  "exec_unary_float H op u0 vm fr =
     (let d = unat (A4 u0); s = unat (B4 u0);
          from_int = (\<lambda>k. do { v \<leftarrow> c_at (fr_regs fr) s; k v });
          from_wide = (\<lambda>k. do { v \<leftarrow> rw (fr_regs fr) s; k v }) in
      if op = 0x7f then REQ [d, s] vm fr (from_int (\<lambda>v. put_reg d (v XOR 0x80000000) 1 vm fr))
      else if op = 0x80 then REQ [d + 1, s + 1] vm fr (from_wide (\<lambda>v. put_wide d (v XOR 0x8000000000000000) 1 vm fr))
      else if op = 0x82 then REQ [d, s] vm fr (from_int (\<lambda>v. put_reg d (f_to_bits 0 (fp_of_int (sint v))) 1 vm fr))
      else if op = 0x83 then REQ [d + 1, s] vm fr (from_int (\<lambda>v. put_wide d (d_to_bits 0 (fp_of_int (sint v))) 1 vm fr))
      else if op = 0x85 then REQ [d, s + 1] vm fr (from_wide (\<lambda>v. put_reg d (f_to_bits 0 (fp_of_int (sint v))) 1 vm fr))
      else if op = 0x86 then REQ [d + 1, s + 1] vm fr (from_wide (\<lambda>v. put_wide d (d_to_bits 0 (fp_of_int (sint v))) 1 vm fr))
      else if op = 0x87 then REQ [d, s] vm fr (from_int (\<lambda>v. put_reg d (float_to_int (bits_to_f v)) 1 vm fr))
      else if op = 0x88 then REQ [d + 1, s] vm fr (from_int (\<lambda>v. put_wide d (float_to_long (bits_to_f v)) 1 vm fr))
      else if op = 0x89 then REQ [d + 1, s] vm fr (from_int (\<lambda>v. put_wide d (d_to_bits (nan_fd H v) (bits_to_f v)) 1 vm fr))
      else if op = 0x8a then REQ [d, s + 1] vm fr (from_wide (\<lambda>v. put_reg d (double_to_int (bits_to_d v)) 1 vm fr))
      else if op = 0x8b then REQ [d + 1, s + 1] vm fr (from_wide (\<lambda>v. put_wide d (float_to_long (bits_to_d v)) 1 vm fr))
      else REQ [d, s + 1] vm fr (from_wide (\<lambda>v. put_reg d (f_to_bits (nan_df H v) (bits_to_d v)) 1 vm fr)))"

section \<open>Saturation\<close>

definition fp_mag :: "int \<Rightarrow> int \<Rightarrow> int" where
  "fp_mag m e = (if 0 \<le> e then m * 2 ^ nat e else m div 2 ^ nat (- e))"

lemma pow_split: "0 \<le> b \<Longrightarrow> b \<le> e \<Longrightarrow> (2::int) ^ nat e = 2 ^ nat (e - b) * 2 ^ nat b"
  by (simp add: power_add [symmetric] nat_add_distrib [symmetric])

lemma mult_le_div: "0 < d \<Longrightarrow> a * d \<le> m \<longleftrightarrow> a \<le> m div d" for a d m :: int
proof
  assume d: "0 < d" and "a * d \<le> m"
  then have "a * d div d \<le> m div d" by (intro zdiv_mono1)
  with d show "a \<le> m div d" by simp
next
  assume d: "0 < d" and "a \<le> m div d"
  then have "a * d \<le> m div d * d" by (intro mult_right_mono) auto
  also have "\<dots> \<le> m" using div_mult_mod_eq [of m d] pos_mod_sign [OF d, of m] by linarith
  finally show "a * d \<le> m" .
qed

lemma mag_ge:
  assumes "0 \<le> k"
  shows "c * 2 ^ nat (k - min e k) \<le> m * 2 ^ nat (e - min e k) \<longleftrightarrow> c * 2 ^ nat k \<le> fp_mag m e"
proof (cases "0 \<le> e")
  case True
  let ?b = "min e k"
  have b: "0 \<le> ?b" "?b \<le> e" "?b \<le> k" using True assms by auto
  have "c * 2 ^ nat (k - ?b) \<le> m * 2 ^ nat (e - ?b) \<longleftrightarrow>
      c * 2 ^ nat (k - ?b) * 2 ^ nat ?b \<le> m * 2 ^ nat (e - ?b) * 2 ^ nat ?b" by simp
  also have "\<dots> \<longleftrightarrow> c * 2 ^ nat k \<le> m * 2 ^ nat e"
    using pow_split [OF b(1,2)] pow_split [OF b(1,3)] by (simp only: mult.assoc)
  finally show ?thesis using True by (simp add: fp_mag_def)
next
  case False
  then have "(2::int) ^ nat (k - e) = 2 ^ nat k * 2 ^ nat (- e)"
    using assms by (simp add: power_add [symmetric] nat_add_distrib [symmetric])
  moreover have "c * 2 ^ nat k * 2 ^ nat (- e) \<le> m \<longleftrightarrow> c * 2 ^ nat k \<le> m div 2 ^ nat (- e)"
    by (rule mult_le_div) simp
  ultimately show ?thesis using False assms by (simp add: fp_mag_def mult.assoc)
qed

lemma fp_trunc_mag: "fp_trunc (Fin s m e) = (if s then - fp_mag m e else fp_mag m e)"
  by (simp add: fp_mag_def)

lemma mag_nonneg: "0 \<le> m \<Longrightarrow> 0 \<le> fp_mag m e"
  by (simp add: fp_mag_def pos_imp_zdiv_nonneg_iff)

lemma ge_upper:
  assumes "0 \<le> m" and "0 \<le> k" and "0 < c"
  shows "fp_ge (Fin s m e) (Fin False c k) \<longleftrightarrow> \<not> s \<and> c * 2 ^ nat k \<le> fp_mag m e"
proof -
  have pos: "0 < c * 2 ^ nat (k - min e k)" using assms by simp
  have "0 \<le> m * 2 ^ nat (e - min e k)" using assms by simp
  with pos have "s \<Longrightarrow> - (m * 2 ^ nat (e - min e k)) < c * 2 ^ nat (k - min e k)" by linarith
  then show ?thesis using mag_ge [OF assms(2), of c e m]
    by (cases s) (simp_all add: fp_ge_def isunordered_def scaled_def not_less)
qed

lemma ge_lower:
  assumes "0 \<le> m" and "0 \<le> k" and "0 < c"
  shows "fp_ge (Fin True c k) (Fin s m e) \<longleftrightarrow> s \<and> c * 2 ^ nat k \<le> fp_mag m e"
proof -
  have pos: "0 < c * 2 ^ nat (k - min k e)" using assms by simp
  have "0 \<le> m * 2 ^ nat (e - min k e)" using assms by simp
  with pos have "\<not> s \<Longrightarrow> - (c * 2 ^ nat (k - min k e)) < m * 2 ^ nat (e - min k e)" by linarith
  then show ?thesis using mag_ge [OF assms(2), of c e m]
    by (cases s) (simp_all add: fp_ge_def isunordered_def scaled_def not_less min.commute)
qed

text \<open>Java's narrowing of a floating-point value to a type with the given bounds.\<close>

fun clamp_trunc :: "int \<Rightarrow> int \<Rightarrow> fp \<Rightarrow> int" where
  "clamp_trunc lo hi NaN = 0"
| "clamp_trunc lo hi (Inf s) = (if s then lo else hi)"
| "clamp_trunc lo hi (Fin s m e) = max lo (min hi (fp_trunc (Fin s m e)))"

lemma sint_of_int32: "- (2 ^ 31) \<le> v \<Longrightarrow> v < 2 ^ 31 \<Longrightarrow> sint (word_of_int v :: u32) = v"
  by (simp add: sint_sbintrunc' signed_take_bit_int_eq_self)

lemma sint_of_int64: "- (2 ^ 63) \<le> v \<Longrightarrow> v < 2 ^ 63 \<Longrightarrow> sint (word_of_int v :: u64) = v"
  by (simp add: sint_sbintrunc' signed_take_bit_int_eq_self)

lemma sint_neg32: "v \<le> 2 ^ 31 \<Longrightarrow> - (2 ^ 31) < v \<Longrightarrow> sint (- word_of_int v :: u32) = - v"
  using sint_of_int32 [of "- v"] by simp

lemma sint_neg64: "v \<le> 2 ^ 63 \<Longrightarrow> - (2 ^ 63) < v \<Longrightarrow> sint (- word_of_int v :: u64) = - v"
  using sint_of_int64 [of "- v"] by simp

fun fp_wf :: "fp \<Rightarrow> bool" where
  "fp_wf (Fin s m e) = (0 \<le> m)"
| "fp_wf _ = True"

lemma decoded_wf: "fp_wf (bits_to_f u)" "fp_wf (bits_to_d w)"
  by (simp_all add: bits_to_f_def bits_to_d_def Let_def)

lemma float_to_int_clamp: "fp_wf f \<Longrightarrow> sint (float_to_int f) = clamp_trunc (- (2 ^ 31)) (2 ^ 31 - 1) f"
proof (cases f)
  case (Fin s m e)
  assume "fp_wf f"
  with Fin have m: "0 \<le> m" by simp
  note up = ge_upper [OF m, of 31 1 s e] and lo = ge_lower [OF m, of 31 1 s e] and nn = mag_nonneg [OF m, of e]
  show ?thesis
  proof (cases "2 ^ 31 \<le> fp_mag m e")
    case True
    then show ?thesis using Fin up lo
      by (cases s) (simp_all add: float_to_int_def fp_trunc_mag int_min_def del: fp_trunc.simps)
  next
    case False
    then show ?thesis using Fin up lo nn
      by (cases s) (simp_all add: float_to_int_def fp_trunc_mag sint_of_int32 sint_neg32 del: fp_trunc.simps)
  qed
qed (auto simp: float_to_int_def fp_ge_def isunordered_def int_min_def)

lemma float_to_long_clamp: "fp_wf f \<Longrightarrow> sint (float_to_long f) = clamp_trunc (- (2 ^ 63)) (2 ^ 63 - 1) f"
proof (cases f)
  case (Fin s m e)
  assume "fp_wf f"
  with Fin have m: "0 \<le> m" by simp
  note up = ge_upper [OF m, of 63 1 s e] and lo = ge_lower [OF m, of 63 1 s e] and nn = mag_nonneg [OF m, of e]
  show ?thesis
  proof (cases "2 ^ 63 \<le> fp_mag m e")
    case True
    then show ?thesis using Fin up lo
      by (cases s) (simp_all add: float_to_long_def fp_trunc_mag long_min_def del: fp_trunc.simps)
  next
    case False
    then show ?thesis using Fin up lo nn
      by (cases s) (simp_all add: float_to_long_def fp_trunc_mag sint_of_int64 sint_neg64 del: fp_trunc.simps)
  qed
qed (auto simp: float_to_long_def fp_ge_def isunordered_def long_min_def)

lemma double_to_int_clamp: "fp_wf f \<Longrightarrow> sint (double_to_int f) = clamp_trunc (- (2 ^ 31)) (2 ^ 31 - 1) f"
proof (cases f)
  case (Fin s m e)
  assume "fp_wf f"
  with Fin have m: "0 \<le> m" by simp
  note up = ge_upper [OF m, of 0 2147483647 s e] and lo = ge_lower [OF m, of 31 1 s e] and nn = mag_nonneg [OF m, of e]
  show ?thesis
  proof (cases "2147483647 \<le> fp_mag m e")
    case True
    then show ?thesis using Fin up lo
      by (cases s; cases "2 ^ 31 \<le> fp_mag m e")
        (simp_all add: double_to_int_def fp_trunc_mag int_min_def sint_of_int32 sint_neg32 del: fp_trunc.simps)
  next
    case False
    then show ?thesis using Fin up lo nn
      by (cases s) (simp_all add: double_to_int_def fp_trunc_mag sint_of_int32 sint_neg32 del: fp_trunc.simps)
  qed
qed (auto simp: double_to_int_def fp_ge_def isunordered_def int_min_def)

section \<open>Properties\<close>

text \<open>
  The conversions of floating-point registers to integers have Java's saturating semantics
  for every bit pattern: NaN gives zero, infinities and values out of range the nearest bound,
  and every other value is truncated towards zero; the casts in the C code are never reached
  with a value that does not fit.
\<close>

theorem fp_conversions_saturate:
  "sint (float_to_int (bits_to_f u)) = clamp_trunc (- (2 ^ 31)) (2 ^ 31 - 1) (bits_to_f u) \<and>
   sint (float_to_long (bits_to_f u)) = clamp_trunc (- (2 ^ 63)) (2 ^ 63 - 1) (bits_to_f u) \<and>
   sint (double_to_int (bits_to_d w)) = clamp_trunc (- (2 ^ 31)) (2 ^ 31 - 1) (bits_to_d w) \<and>
   sint (float_to_long (bits_to_d w)) = clamp_trunc (- (2 ^ 63)) (2 ^ 63 - 1) (bits_to_d w)"
  by (intro conjI float_to_int_clamp float_to_long_clamp double_to_int_clamp decoded_wf)

end
