(* ===== verification/Dvm_Handler.thy ===== *)
theory Dvm_Handler
  imports Dvm_Interp Dvm_Class
begin

text \<open>
  The search for an exception handler (\<open>find_handler\<close> and \<open>find_catchall_handler\<close> in
  \<open>src/src/dvm/dvm.c\<close>) over the try items and the encoded handler list of a code item, and the
  fetch of call arguments (\<open>gather_args\<close>).  Whether a catch clause with a given type descriptor
  takes the pending exception (the class exists and the exception's class is assignable to it)
  is the argument \<open>catches\<close>.
\<close>

section \<open>Handlers\<close>

text \<open>\<open>memcpy\<close> of a try item out of the mapping: nothing checks the length here.\<close>

definition raw_u16 :: "dex_file \<Rightarrow> nat \<Rightarrow> u16 option" where
  "raw_u16 d p = do { b0 \<leftarrow> dex_byte d p; b1 \<leftarrow> dex_byte d (p + 1); Some (le16 b0 b1) }"

definition raw_u32 :: "dex_file \<Rightarrow> nat \<Rightarrow> u32 option" where
  "raw_u32 d p = do { b0 \<leftarrow> dex_byte d p; b1 \<leftarrow> dex_byte d (p + 1);
     b2 \<leftarrow> dex_byte d (p + 2); b3 \<leftarrow> dex_byte d (p + 3); Some (le32 b0 b1 b2 b3) }"

text \<open>
  The typed clauses of one handler: \<open>Inl addr\<close> for the first that catches, \<open>Inr p\<close> for the
  position behind them all.
\<close>

primrec handler_pairs :: "nat \<Rightarrow> alloc \<Rightarrow> (string \<Rightarrow> bool) \<Rightarrow> dex_file \<Rightarrow> nat \<Rightarrow> ((u32 + nat) \<times> dex_file) option" where
  "handler_pairs 0 al catches d p = Some (Inr p, d)"
| "handler_pairs (Suc n) al catches d p = do {
     (p, type_idx) \<leftarrow> dex_uleb d p;
     (p, addr) \<leftarrow> dex_uleb d p;
     (td, d) \<leftarrow> dex_type al d type_idx;
     case td of None \<Rightarrow> handler_pairs n al catches d p
     | Some t \<Rightarrow> if catches t then Some (Inl addr, d) else handler_pairs n al catches d p }"

text \<open>\<open>size < 0 ? -size : size\<close>: the least value has no negation.\<close>

definition pair_count :: "u32 \<Rightarrow> nat option" where
  "pair_count size' = (if size' = int_min then None else Some (nat \<bar>sint size'\<bar>))"

definition try_covers :: "u32 \<Rightarrow> u16 \<Rightarrow> u32 \<Rightarrow> bool" where
  "try_covers start cnt pc \<longleftrightarrow> start \<le> pc \<and> pc < start + ucast cnt"

primrec handler_loop :: "nat \<Rightarrow> alloc \<Rightarrow> (string \<Rightarrow> bool) \<Rightarrow> dex_file \<Rightarrow> nat \<Rightarrow> nat \<Rightarrow> u32 \<Rightarrow> nat \<Rightarrow>
    (u32 option \<times> dex_file) option" where
  "handler_loop 0 al catches d tries handlers pc i = Some (None, d)"
| "handler_loop (Suc n) al catches d tries handlers pc i = do {
     start \<leftarrow> raw_u32 d (tries + i * 8);
     cnt \<leftarrow> raw_u16 d (tries + i * 8 + 4);
     hoff \<leftarrow> raw_u16 d (tries + i * 8 + 6);
     if \<not> try_covers start cnt pc then handler_loop n al catches d tries handlers pc (i + 1)
     else do {
       (p, size') \<leftarrow> dex_sleb d (handlers + unat hoff);
       npairs \<leftarrow> pair_count size';
       (r, d) \<leftarrow> handler_pairs npairs al catches d p;
       case r of Inl addr \<Rightarrow> Some (Some addr, d)
       | Inr p \<Rightarrow>
           if sint size' \<le> 0 then do { (p, all') \<leftarrow> dex_uleb d p; Some (Some all', d) }
           else handler_loop n al catches d tries handlers pc (i + 1) } }"

definition find_handler :: "alloc \<Rightarrow> (string \<Rightarrow> bool) \<Rightarrow> dex_file \<Rightarrow> dex_code \<Rightarrow> u32 \<Rightarrow> (u32 option \<times> dex_file) option" where
  "find_handler al catches d code pc = (case code_tries code of
     Some tries \<Rightarrow>
       if tries_size code = 0 then Some (None, d)
       else do {
         handlers \<leftarrow> code_handlers code;
         handler_loop (unat (tries_size code)) al catches d tries handlers pc 0 }
   | None \<Rightarrow> Some (None, d))"

primrec skip_pairs :: "nat \<Rightarrow> dex_file \<Rightarrow> nat \<Rightarrow> nat option" where
  "skip_pairs 0 d p = Some p"
| "skip_pairs (Suc n) d p = do {
     (p, ignored) \<leftarrow> dex_uleb d p;
     (p, ignored) \<leftarrow> dex_uleb d p;
     skip_pairs n d p }"

primrec catchall_loop :: "nat \<Rightarrow> dex_file \<Rightarrow> nat \<Rightarrow> nat \<Rightarrow> u32 \<Rightarrow> nat \<Rightarrow> u32 option option" where
  "catchall_loop 0 d tries handlers pc i = Some None"
| "catchall_loop (Suc n) d tries handlers pc i = do {
     start \<leftarrow> raw_u32 d (tries + i * 8);
     cnt \<leftarrow> raw_u16 d (tries + i * 8 + 4);
     hoff \<leftarrow> raw_u16 d (tries + i * 8 + 6);
     if \<not> try_covers start cnt pc then catchall_loop n d tries handlers pc (i + 1)
     else do {
       (p, size') \<leftarrow> dex_sleb d (handlers + unat hoff);
       npairs \<leftarrow> pair_count size';
       p \<leftarrow> skip_pairs npairs d p;
       if sint size' \<le> 0 then do { (p, all') \<leftarrow> dex_uleb d p; Some (Some all') }
       else catchall_loop n d tries handlers pc (i + 1) } }"

definition find_catchall_handler :: "dex_file \<Rightarrow> dex_code \<Rightarrow> u32 \<Rightarrow> u32 option option" where
  "find_catchall_handler d code pc = (case code_tries code of
     Some tries \<Rightarrow>
       if tries_size code = 0 then Some None
       else do {
         handlers \<leftarrow> code_handlers code;
         catchall_loop (unat (tries_size code)) d tries handlers pc 0 }
   | None \<Rightarrow> Some None)"

section \<open>Call arguments\<close>

definition reg_or_zero :: "u32 list \<Rightarrow> nat \<Rightarrow> u32" where
  "reg_or_zero regs i = (if i < length regs then regs ! i else 0)"

definition gather_args :: "u16 list \<Rightarrow> u32 \<Rightarrow> bool \<Rightarrow> u32 list \<Rightarrow> u32 list option" where
  "gather_args insns pc is_range regs = do {
     u0 \<leftarrow> c_at insns (unat pc);
     let cccc = IU insns pc 2;
     if is_range then Some (map (\<lambda>i. reg_or_zero regs (unat cccc + i)) [0..<unat (AA u0)])
     else do {
       let idx = [unat (cccc AND 0xf), unat (drop_bit 4 cccc AND 0xf), unat (drop_bit 8 cccc AND 0xf),
                  unat (drop_bit 12 cccc AND 0xf), unat (A4 u0)];
       Some (map (reg_or_zero regs) (take (min 5 (unat (B4 u0))) idx)) } }"

section \<open>Reading an encoded handler list\<close>

text \<open>
  The encoding of one handler: the number of typed clauses, negated when a catch-all follows,
  then the clauses and the catch-all address.
\<close>

definition handler_size :: "(u32 \<times> u32) list \<Rightarrow> u32 option \<Rightarrow> int" where
  "handler_size cl all' = (if all' = None then int (length cl) else - int (length cl))"

fun clause_bytes :: "(u32 \<times> u32) list \<Rightarrow> u8 list" where
  "clause_bytes [] = []"
| "clause_bytes ((ty, addr) # cl) = uleb_bytes ty @ uleb_bytes addr @ clause_bytes cl"

definition handler_bytes :: "(u32 \<times> u32) list \<Rightarrow> u32 option \<Rightarrow> u8 list" where
  "handler_bytes cl all' = sleb_bytes (handler_size cl all') @ clause_bytes cl @
     (case all' of None \<Rightarrow> [] | Some a \<Rightarrow> uleb_bytes a)"

section \<open>Which handler is found\<close>

record try_item =
  t_start :: u32
  t_count :: u16
  t_clauses :: "(u32 \<times> u32) list"
  t_all :: "u32 option"

text \<open>The specification: the first covering try item that catches decides.\<close>

definition clause_catches :: "alloc \<Rightarrow> (string \<Rightarrow> bool) \<Rightarrow> dex_file \<Rightarrow> u32 \<times> u32 \<Rightarrow> bool" where
  "clause_catches al catches d c = (case type_res al d (fst c) of None \<Rightarrow> False | Some t \<Rightarrow> catches t)"

fun select_handler :: "alloc \<Rightarrow> (string \<Rightarrow> bool) \<Rightarrow> dex_file \<Rightarrow> u32 \<Rightarrow> try_item list \<Rightarrow> u32 option" where
  "select_handler al catches d pc [] = None"
| "select_handler al catches d pc (t # ts) =
     (if try_covers (t_start t) (t_count t) pc then
        (case find (clause_catches al catches d) (t_clauses t) of
           Some c \<Rightarrow> Some (snd c)
         | None \<Rightarrow> (case t_all t of Some a \<Rightarrow> Some a | None \<Rightarrow> select_handler al catches d pc ts))
      else select_handler al catches d pc ts)"

text \<open>
  The bytes of the mapping hold these try items from index \<open>i\<close> on, each with its handler; the
  format has no handler without a clause and without a catch-all.  The clause count is read as a
  signed LEB128 number, whose negative values are defined down to \<open>- 2 ^ 27\<close> only
  (\<open>dex_sleb_bytes\<close>).
\<close>

definition holds_try :: "dex_file \<Rightarrow> nat \<Rightarrow> nat \<Rightarrow> nat \<Rightarrow> try_item \<Rightarrow> bool" where
  "holds_try d tries handlers i t \<longleftrightarrow> (\<exists>hoff.
     raw_u32 d (tries + i * 8) = Some (t_start t) \<and> raw_u16 d (tries + i * 8 + 4) = Some (t_count t) \<and>
     raw_u16 d (tries + i * 8 + 6) = Some hoff \<and>
     has_bytes d (handlers + unat hoff) (handler_bytes (t_clauses t) (t_all t)) \<and>
     length (t_clauses t) < 2 ^ 31 \<and> (t_all t \<noteq> None \<longrightarrow> length (t_clauses t) \<le> 2 ^ 27) \<and>
     (t_all t = None \<longrightarrow> t_clauses t \<noteq> []))"

definition holds_tries :: "dex_file \<Rightarrow> nat \<Rightarrow> nat \<Rightarrow> nat \<Rightarrow> try_item list \<Rightarrow> bool" where
  "holds_tries d tries handlers i ts \<longleftrightarrow> (\<forall>k < length ts. holds_try d tries handlers (i + k) (ts ! k))"

lemma same_has_bytes: "same_image d d' \<Longrightarrow> has_bytes d' p bs = has_bytes d p bs"
  by (simp add: has_bytes_def same_image_fields)

lemma same_catches: "same_image d d' \<Longrightarrow> clause_catches al catches d' = clause_catches al catches d"
  by (simp add: clause_catches_def type_res_same fun_eq_iff)

lemma handler_pairs_select:
  assumes "dex_inv al d" and "has_bytes d p (clause_bytes cl)"
  shows "dok al d (handler_pairs (length cl) al catches d p) (\<lambda>r. r =
    (case find (clause_catches al catches d) cl of Some c \<Rightarrow> Inl (snd c) | None \<Rightarrow> Inr (p + length (clause_bytes cl))))"
  using assms
proof (induction cl arbitrary: d p)
  case Nil
  then show ?case by (simp add: dok_ret)
next
  case (Cons c cl)
  obtain ty addr where c: "c = (ty, addr)" by (cases c)
  let ?q = "p + length (uleb_bytes ty)" let ?r = "?q + length (uleb_bytes addr)"
  have b: "has_bytes d p (uleb_bytes ty)" "has_bytes d ?q (uleb_bytes addr)" "has_bytes d ?r (clause_bytes cl)"
    using Cons.prems(2) by (simp_all add: c has_bytes_append)
  note m = dex_inv_mapped [OF Cons.prems(1)]
  note dec = dex_uleb_bytes [OF m b(1)] dex_uleb_bytes [OF m b(2)]
  obtain d1 where ty: "dex_type al d ty = Some (type_res al d ty, d1)" "dex_inv al d1" "same_image d d1"
    using dex_type_dok [OF Cons.prems(1), of ty] by (elim dokE) simp
  have b1: "has_bytes d1 ?r (clause_bytes cl)" using b(3) same_has_bytes [OF ty(3)] by simp
  obtain r d2 where rest: "handler_pairs (length cl) al catches d1 ?r = Some (r, d2)" "dex_inv al d2" "same_image d1 d2"
      "r = (case find (clause_catches al catches d) cl of Some c \<Rightarrow> Inl (snd c) | None \<Rightarrow> Inr (?r + length (clause_bytes cl)))"
    using Cons.IH [OF ty(2) b1] same_catches [OF ty(3)] by (elim dokE) simp
  have same: "same_image d d2" by (rule same_image_trans [OF ty(3) rest(3)])
  show ?case
  proof (cases "clause_catches al catches d c")
    case True
    then obtain t where "type_res al d ty = Some t" "catches t" by (auto simp: clause_catches_def c split: option.splits)
    with ty dec True show ?thesis by (simp add: dok_def c)
  next
    case False
    then have "handler_pairs (length (c # cl)) al catches d p = Some (r, d2)"
      using ty dec rest(1) by (auto simp: clause_catches_def c split: option.splits)
    moreover have "p + length (clause_bytes (c # cl)) = ?r + length (clause_bytes cl)" by (simp add: c)
    ultimately show ?thesis using False rest same
      by (cases "find (clause_catches al catches d) cl") (simp_all add: dok_def del: handler_pairs.simps)
  qed
qed

lemma holds_try_same: "same_image d d' \<Longrightarrow> holds_try d' tries handlers i t = holds_try d tries handlers i t"
  by (simp add: holds_try_def same_has_bytes raw_u32_def raw_u16_def dex_byte_def same_image_fields [of d d'])

lemma select_same: "same_image d d' \<Longrightarrow> select_handler al catches d' pc ts = select_handler al catches d pc ts"
  by (induction ts) (simp_all add: same_catches cong: option.case_cong if_cong)

lemma sint_int_min: "sint int_min = - (2 ^ 31)"
  by (simp add: int_min_def)

lemma handler_header:
  assumes m: "dex_mapped d" and t: "holds_try d tries handlers i t"
  obtains hoff p where "raw_u32 d (tries + i * 8) = Some (t_start t)" "raw_u16 d (tries + i * 8 + 4) = Some (t_count t)"
    "raw_u16 d (tries + i * 8 + 6) = Some hoff"
    "dex_sleb d (handlers + unat hoff) = Some (p, word_of_int (handler_size (t_clauses t) (t_all t)))"
    "pair_count (word_of_int (handler_size (t_clauses t) (t_all t))) = Some (length (t_clauses t))"
    "sint (word_of_int (handler_size (t_clauses t) (t_all t)) :: u32) \<le> 0 \<longleftrightarrow> t_all t \<noteq> None"
    "has_bytes d p (clause_bytes (t_clauses t))"
    "\<And>a. t_all t = Some a \<Longrightarrow> has_bytes d (p + length (clause_bytes (t_clauses t))) (uleb_bytes a)"
proof -
  from t obtain hoff where raw: "raw_u32 d (tries + i * 8) = Some (t_start t)" "raw_u16 d (tries + i * 8 + 4) = Some (t_count t)"
      "raw_u16 d (tries + i * 8 + 6) = Some hoff"
    and hb: "has_bytes d (handlers + unat hoff) (handler_bytes (t_clauses t) (t_all t))"
    and len: "length (t_clauses t) < 2 ^ 31" "t_all t \<noteq> None \<longrightarrow> length (t_clauses t) \<le> 2 ^ 27" and ne: "t_all t = None \<longrightarrow> t_clauses t \<noteq> []"
    by (auto simp: holds_try_def)
  let ?v = "handler_size (t_clauses t) (t_all t)" and ?p = "handlers + unat hoff"
  have hb3: "has_bytes d ?p (sleb_bytes ?v)" "has_bytes d (?p + length (sleb_bytes ?v)) (clause_bytes (t_clauses t))"
    "has_bytes d (?p + length (sleb_bytes ?v) + length (clause_bytes (t_clauses t)))
       (case t_all t of None \<Rightarrow> [] | Some a \<Rightarrow> uleb_bytes a)"
    using hb by (simp_all add: handler_bytes_def has_bytes_append)
  have v: "- (2 ^ 27) \<le> ?v" "?v < 2 ^ 31" "nat \<bar>?v\<bar> = length (t_clauses t)" "?v \<le> 0 \<longleftrightarrow> t_all t \<noteq> None"
    using len ne by (auto simp: handler_size_def)
  have sl: "dex_sleb d ?p = Some (?p + length (sleb_bytes ?v), word_of_int ?v)" "sint (word_of_int ?v :: u32) = ?v"
    using dex_sleb_bytes [OF m hb3(1)] v by simp_all
  have "pair_count (word_of_int ?v) = Some (length (t_clauses t))"
    using v sl(2) sint_int_min by (auto simp: pair_count_def)
  with that [OF raw sl(1)] hb3 v(4) sl(2) show ?thesis by (auto split: option.splits)
qed

lemma handler_loop_select:
  assumes "dex_inv al d" and "holds_tries d tries handlers i ts"
  shows "dok al d (handler_loop (length ts) al catches d tries handlers pc i) (\<lambda>r. r = select_handler al catches d pc ts)"
  using assms
proof (induction ts arbitrary: d i)
  case Nil
  then show ?case by (simp add: dok_ret)
next
  case (Cons t ts)
  note m = dex_inv_mapped [OF Cons.prems(1)]
  have "holds_try d tries handlers i t" using Cons.prems(2) by (force simp: holds_tries_def)
  from handler_header [OF m this] obtain hoff p where
    h: "raw_u32 d (tries + i * 8) = Some (t_start t)" "raw_u16 d (tries + i * 8 + 4) = Some (t_count t)"
      "raw_u16 d (tries + i * 8 + 6) = Some hoff"
      "dex_sleb d (handlers + unat hoff) = Some (p, word_of_int (handler_size (t_clauses t) (t_all t)))"
      "pair_count (word_of_int (handler_size (t_clauses t) (t_all t))) = Some (length (t_clauses t))"
      "sint (word_of_int (handler_size (t_clauses t) (t_all t)) :: u32) \<le> 0 \<longleftrightarrow> t_all t \<noteq> None"
      "has_bytes d p (clause_bytes (t_clauses t))"
      "\<And>a. t_all t = Some a \<Longrightarrow> has_bytes d (p + length (clause_bytes (t_clauses t))) (uleb_bytes a)"
    by blast
  have rest: "dok al d' (handler_loop (length ts) al catches d' tries handlers pc (i + 1)) (\<lambda>r. r = select_handler al catches d pc ts)"
    if "dex_inv al d'" "same_image d d'" for d'
  proof -
    have "holds_tries d' tries handlers (i + 1) ts"
      using Cons.prems(2) holds_try_same [OF that(2)] by (force simp: holds_tries_def)
    from Cons.IH [OF that(1) this] show ?thesis by (simp add: select_same [OF that(2)])
  qed
  show ?case
  proof (cases "try_covers (t_start t) (t_count t) pc")
    case False
    with h rest [OF Cons.prems(1) same_image_refl] show ?thesis by simp
  next
    case True
    obtain r d1 where pairs: "handler_pairs (length (t_clauses t)) al catches d p = Some (r, d1)"
      "dex_inv al d1" "same_image d d1"
      "r = (case find (clause_catches al catches d) (t_clauses t) of Some c \<Rightarrow> Inl (snd c)
         | None \<Rightarrow> Inr (p + length (clause_bytes (t_clauses t))))"
      using handler_pairs_select [OF Cons.prems(1) h(7), where catches = catches] by (elim dokE)
    show ?thesis
    proof (cases "find (clause_catches al catches d) (t_clauses t)")
      case (Some c)
      with True h pairs show ?thesis by (simp add: dok_def)
    next
      case None
      show ?thesis
      proof (cases "t_all t")
        case (Some a)
        with h(8) have "has_bytes d1 (p + length (clause_bytes (t_clauses t))) (uleb_bytes a)"
          by (simp add: same_has_bytes [OF pairs(3)])
        from dex_uleb_bytes [OF dex_inv_mapped [OF pairs(2)] this] Some None True h(1-6) pairs
        show ?thesis by (simp add: dok_def)
      next
        case none: None
        from rest [OF pairs(2,3)] obtain d2 where
          "handler_loop (length ts) al catches d1 tries handlers pc (i + 1) = Some (select_handler al catches d pc ts, d2)"
          "dex_inv al d2" "same_image d1 d2" by (elim dokE) simp
        with none None True h(1-6) pairs same_image_trans [OF pairs(3)] show ?thesis by (simp add: dok_def)
      qed
    qed
  qed
qed

text \<open>The walk for a parked thread skips the typed clauses.\<close>

fun select_catchall :: "u32 \<Rightarrow> try_item list \<Rightarrow> u32 option" where
  "select_catchall pc [] = None"
| "select_catchall pc (t # ts) =
     (if try_covers (t_start t) (t_count t) pc \<and> t_all t \<noteq> None then t_all t else select_catchall pc ts)"

lemma skip_pairs_bytes:
  "dex_mapped d \<Longrightarrow> has_bytes d p (clause_bytes cl) \<Longrightarrow> skip_pairs (length cl) d p = Some (p + length (clause_bytes cl))"
proof (induction cl arbitrary: p)
  case (Cons c cl)
  obtain ty addr where c: "c = (ty, addr)" by (cases c)
  let ?q = "p + length (uleb_bytes ty)" let ?r = "?q + length (uleb_bytes addr)"
  have b: "has_bytes d p (uleb_bytes ty)" "has_bytes d ?q (uleb_bytes addr)" "has_bytes d ?r (clause_bytes cl)"
    using Cons.prems(2) by (simp_all add: c has_bytes_append)
  have "skip_pairs (length cl) d ?r = Some (?r + length (clause_bytes cl))"
    by (rule Cons.IH [OF Cons.prems(1) b(3)])
  with dex_uleb_bytes [OF Cons.prems(1) b(1)] dex_uleb_bytes [OF Cons.prems(1) b(2)] show ?case
    by (simp add: c add.assoc)
qed simp

lemma catchall_loop_select:
  assumes m: "dex_mapped d"
  shows "holds_tries d tries handlers i ts \<Longrightarrow>
    catchall_loop (length ts) d tries handlers pc i = Some (select_catchall pc ts)"
proof (induction ts arbitrary: i)
  case (Cons t ts)
  have t: "holds_try d tries handlers i t" and ts: "holds_tries d tries handlers (i + 1) ts"
    using Cons.prems by (force simp: holds_tries_def)+
  note IH = Cons.IH [OF ts]
  obtain hoff p where h: "raw_u32 d (tries + i * 8) = Some (t_start t)" "raw_u16 d (tries + i * 8 + 4) = Some (t_count t)"
    "raw_u16 d (tries + i * 8 + 6) = Some hoff"
    "dex_sleb d (handlers + unat hoff) = Some (p, word_of_int (handler_size (t_clauses t) (t_all t)))"
    "pair_count (word_of_int (handler_size (t_clauses t) (t_all t))) = Some (length (t_clauses t))"
    "sint (word_of_int (handler_size (t_clauses t) (t_all t)) :: u32) \<le> 0 \<longleftrightarrow> t_all t \<noteq> None"
    "has_bytes d p (clause_bytes (t_clauses t))"
    "\<And>a. t_all t = Some a \<Longrightarrow> has_bytes d (p + length (clause_bytes (t_clauses t))) (uleb_bytes a)"
    by (rule handler_header [OF m t]) blast
  note sk = skip_pairs_bytes [OF m h(7)]
  show ?case
  proof (cases "try_covers (t_start t) (t_count t) pc")
    case True
    show ?thesis
    proof (cases "t_all t")
      case None
      with True h sk IH show ?thesis by simp
    next
      case (Some a)
      from dex_uleb_bytes [OF m h(8) [OF Some]] Some True h sk show ?thesis by simp
    qed
  next
    case False
    with h IH show ?thesis by simp
  qed
qed simp

section \<open>Properties\<close>

text \<open>
  C18. On a code item whose try items and handlers are encoded as the format says,
  \<open>find_handler\<close> returns exactly what the format means: the first try item (in table order) that
  covers the pc and has a clause catching the exception, or a catch-all, decides, and its first
  catching clause wins; the string cache stays correct.
\<close>

theorem find_handler_first:
  assumes "dex_inv al d" and "code_tries code = Some tries" and "code_handlers code = Some handlers"
    and "holds_tries d tries handlers 0 ts" and "length ts = unat (tries_size code)"
  shows "\<exists>d'. find_handler al catches d code pc = Some (select_handler al catches d pc ts, d') \<and> dex_inv al d' \<and> same_image d d'"
proof (cases "tries_size code = 0")
  case True
  then have "ts = []" using assms(5) by simp
  with True assms(1,2) show ?thesis by (auto simp: find_handler_def)
next
  case False
  from handler_loop_select [OF assms(1,4), of catches pc] obtain d' where
    "handler_loop (length ts) al catches d tries handlers pc 0 = Some (select_handler al catches d pc ts, d')"
    "dex_inv al d'" "same_image d d'" by (elim dokE) simp
  with False assms show ?thesis by (simp add: find_handler_def)
qed

definition handler_sample :: dex_file where
  "handler_sample = dex_zero\<lparr>dex_p := [0,0,0,0, 4,0, 1,0, 1, 0, 9], dex_len := 11, dex_strings := Some [], dex_fixups := Some []\<rparr>"

definition handler_code :: dex_code where
  "handler_code = code_zero\<lparr>tries_size := 1, code_tries := Some 0, code_handlers := Some 8\<rparr>"

theorem find_handler_first_witness:
  "\<exists>d'. find_handler (\<lambda>_. True) (\<lambda>_. True) handler_sample handler_code 3 =
     Some (select_handler (\<lambda>_. True) (\<lambda>_. True) handler_sample 3 [\<lparr>t_start = 0, t_count = 4, t_clauses = [], t_all = Some 9\<rparr>], d') \<and>
   dex_inv (\<lambda>_. True) d' \<and> same_image handler_sample d'"
proof (rule find_handler_first)
  show "dex_inv (\<lambda>_. True) handler_sample"
    by (simp add: dex_inv_def dex_mapped_def handler_sample_def strings_ok_def dex_zero_def)
  show "holds_tries handler_sample 0 8 0 [\<lparr>t_start = 0, t_count = 4, t_clauses = [], t_all = Some 9\<rparr>]"
  proof -
    have "holds_try handler_sample 0 8 0 \<lparr>t_start = 0, t_count = 4, t_clauses = [], t_all = Some 9\<rparr>"
      unfolding holds_try_def
      by (rule exI [of _ 1], intro conjI) (code_simp, code_simp, code_simp, code_simp, simp, simp, simp)
    then show ?thesis by (simp add: holds_tries_def)
  qed
qed (simp_all add: handler_code_def)

end
