(* ===== verification/Dvm_Exec.thy ===== *)
theory Dvm_Exec
  imports Dvm_Float Dvm_Handler
begin

text \<open>
  The dispatch and the loop of \<open>execute\<close> (\<open>src/src/dvm/dvm.c\<close>).  The instructions that resolve
  classes, fields and methods or call out of the interpreter, and \<open>dvm__throw\<close>, are arguments;
  the loop around them, with its step limit, the exception dispatch and the return, is
  the code's.  Giving up the interpreter lock between instructions does not change the state
  of this thread and is left out, except for the test whether the VM is stopping.
\<close>

record interp_env =
  env_throw :: "string \<Rightarrow> dvm \<Rightarrow> dvm option"
  env_other :: "u8 \<Rightarrow> u16 \<Rightarrow> u16 list \<Rightarrow> dvm \<Rightarrow> frame \<Rightarrow> outcome option"
  env_catches :: "dvm \<Rightarrow> string \<Rightarrow> bool"
  env_stopping :: "dvm \<Rightarrow> bool"
  env_nan :: nan_host
  env_alloc :: alloc

section \<open>One instruction\<close>

definition resolves_classes :: "u8 \<Rightarrow> bool" where
  "resolves_classes op \<longleftrightarrow> 0x1a \<le> op \<and> op \<le> 0x20 \<or> 0x22 \<le> op \<and> op \<le> 0x25 \<or>
     0x52 \<le> op \<and> op \<le> 0x72 \<or> 0x74 \<le> op \<and> op \<le> 0x78"

definition exec_insn :: "interp_env \<Rightarrow> u16 \<Rightarrow> u16 list \<Rightarrow> dvm \<Rightarrow> frame \<Rightarrow> outcome option" where
  "exec_insn E u0 insns vm fr = (let op = OPCODE u0 in
     if op = 0x00 then Some (next_at 1 vm fr (fr_regs fr))
     else if op \<le> 0x09 then exec_move op u0 insns vm fr
     else if op \<le> 0x0d then exec_move_result op u0 vm fr
     else if op \<le> 0x11 then exec_return op u0 vm fr
     else if op \<le> 0x19 then exec_const op u0 insns vm fr
     else if resolves_classes op then env_other E op u0 insns vm fr
     else if op = 0x21 then exec_array_length u0 vm fr
     else if op = 0x26 then exec_fill_array_data u0 insns vm fr
     else if op = 0x27 then exec_throw u0 vm fr
     else if op \<le> 0x2a then exec_goto op u0 insns vm fr
     else if op \<le> 0x2c then exec_switch op u0 insns vm fr
     else if op \<le> 0x2e then exec_cmp_float op u0 insns vm fr
     else if op \<le> 0x30 then exec_cmp_double op u0 insns vm fr
     else if op = 0x31 then exec_cmp_long u0 insns vm fr
     else if op \<le> 0x37 then exec_if op u0 insns vm fr
     else if op \<le> 0x3d then exec_ifz op u0 insns vm fr
     else if op < 0x44 then Some (Raise (Some ''java/lang/VerifyError'') vm fr)
     else if op \<le> 0x4a then exec_aget op u0 insns vm fr
     else if op \<le> 0x51 then exec_aput op u0 insns vm fr
     else if op < 0x7b then Some (Raise (Some ''java/lang/VerifyError'') vm fr)
     else if op \<le> 0x7e \<or> op = 0x81 \<or> op = 0x84 \<or> 0x8d \<le> op \<and> op \<le> 0x8f then exec_unary op u0 vm fr
     else if op \<le> 0x8c then exec_unary_float (env_nan E) op u0 vm fr
     else if op \<le> 0x9a then exec_binop_int op u0 insns vm fr
     else if op \<le> 0xa5 then exec_binop_long op u0 insns vm fr
     else if op \<le> 0xaa then exec_binop_float (env_nan E) op u0 insns vm fr
     else if op \<le> 0xaf then exec_binop_double (env_nan E) op u0 insns vm fr
     else if op \<le> 0xba then exec_binop_int_2addr op u0 vm fr
     else if op \<le> 0xc5 then exec_binop_long_2addr op u0 vm fr
     else if op \<le> 0xca then exec_binop_float_2addr (env_nan E) op u0 vm fr
     else if op \<le> 0xcf then exec_binop_double_2addr (env_nan E) op u0 vm fr
     else if op \<le> 0xd7 then exec_lit16 op u0 insns vm fr
     else if op \<le> 0xe2 then exec_lit8 op u0 insns vm fr
     else if op < 0xfa then Some (Raise (Some ''java/lang/VerifyError'') vm fr)
     else exec_handles op u0 vm fr)"

section \<open>Exceptions\<close>

text \<open>\<open>dvm__throw\<close> when the outcome names a class; an exception is already pending otherwise.\<close>

definition raise :: "interp_env \<Rightarrow> string option \<Rightarrow> dvm \<Rightarrow> dvm option" where
  "raise E exc vm = (case exc of None \<Rightarrow> Some vm | Some c \<Rightarrow> env_throw E c vm)"

text \<open>The label \<open>exception:\<close> gives the frame to go on with, or none when the method is left.\<close>

definition exception_dispatch ::
    "interp_env \<Rightarrow> dex_code \<Rightarrow> dex_file \<Rightarrow> dvm \<Rightarrow> frame \<Rightarrow> (frame option \<times> dvm \<times> dex_file) option" where
  "exception_dispatch E code d vm fr =
     (if env_stopping E vm then Some (None, vm, d)
      else do {
        vm \<leftarrow> (if vm_exception vm = 0 then env_throw E ''java/lang/Error'' vm else Some vm);
        (h, d) \<leftarrow> (if vm_parked vm then do { h \<leftarrow> find_catchall_handler d code (fr_pc fr); Some (h, d) }
                    else find_handler (env_alloc E) (env_catches E vm) d code (fr_pc fr));
        case h of None \<Rightarrow> Some (None, vm, d)
        | Some handler \<Rightarrow> Some (Some (fr\<lparr>fr_pc := handler\<rparr>),
            vm\<lparr>vm_exc_ref := vm_exception vm, vm_exception := 0\<rparr>, d) })"

section \<open>The loop\<close>

definition DVM_GIL_YIELD_STEPS :: u64 where "DVM_GIL_YIELD_STEPS = 32768"

datatype exec_result = Returned u64 dvm | Unwound dvm

text \<open>What one turn of the loop decides: go on, or leave \<open>execute\<close>.\<close>

datatype turn = Go dvm frame dex_file | Leave exec_result dex_file

definition after_raise :: "interp_env \<Rightarrow> dex_code \<Rightarrow> dex_file \<Rightarrow> string option \<Rightarrow> dvm \<Rightarrow> frame \<Rightarrow> turn option" where
  "after_raise E code d exc vm fr = do {
     vm \<leftarrow> raise E exc vm;
     (fr', vm, d) \<leftarrow> exception_dispatch E code d vm fr;
     case fr' of None \<Rightarrow> Some (Leave (Unwound vm) d) | Some fr \<Rightarrow> Some (Go vm fr d) }"

definition execute_turn :: "interp_env \<Rightarrow> dex_code \<Rightarrow> u16 list \<Rightarrow> dex_file \<Rightarrow> dvm \<Rightarrow> frame \<Rightarrow> turn option" where
  "execute_turn E code insns d vm fr =
     (if length insns \<le> unat (fr_pc fr) then after_raise E code d (Some ''java/lang/VerifyError'') vm fr
      else do {
        let vm = vm\<lparr>vm_steps := vm_steps vm + 1\<rparr>;
        if vm_steps vm AND (DVM_GIL_YIELD_STEPS - 1) = 0 \<and> env_stopping E vm then Some (Leave (Unwound vm) d)
        else do {
          let vm = (if vm_step_limit vm \<noteq> 0 then vm\<lparr>vm_call_steps := vm_call_steps vm + 1\<rparr> else vm);
          if vm_step_limit vm \<noteq> 0 \<and> vm_step_limit vm < vm_call_steps vm then
            after_raise E code d (Some ''java/lang/Error'') vm fr
          else do {
            u0 \<leftarrow> c_at insns (unat (fr_pc fr));
            out \<leftarrow> exec_insn E u0 insns vm fr;
            case out of
              Next vm fr \<Rightarrow> Some (Go vm fr d)
            | Raise exc vm fr \<Rightarrow> after_raise E code d exc vm fr
            | Return v vm \<Rightarrow> Some (Leave (Returned v vm) d) } } })"

primrec execute :: "nat \<Rightarrow> interp_env \<Rightarrow> dex_code \<Rightarrow> u16 list \<Rightarrow> dex_file \<Rightarrow> dvm \<Rightarrow> frame \<Rightarrow>
    (exec_result \<times> dex_file) option" where
  "execute 0 E code insns d vm fr = None"
| "execute (Suc n) E code insns d vm fr = do {
     t \<leftarrow> execute_turn E code insns d vm fr;
     case t of Go vm fr d \<Rightarrow> execute n E code insns d vm fr
     | Leave r d \<Rightarrow> Some (r, d) }"

end
