(* ===== verification/Dvm_Arith.thy ===== *)
theory Dvm_Arith
  imports Dvm_Interp
begin

text \<open>
  What the arithmetic instructions compute.  The reference is the arithmetic of the Java
  language on mathematical integers, with one wrap into the range of the type at the end; the
  interpreter's special cases (the quotient that does not fit, the masks on shift distances)
  do not occur in it.
\<close>

section \<open>Java arithmetic\<close>

definition java_wrap :: "nat \<Rightarrow> int \<Rightarrow> int" where
  "java_wrap w z = (z + 2 ^ (w - 1)) mod 2 ^ w - 2 ^ (w - 1)"

text \<open>Division rounds towards zero.\<close>

definition java_div :: "int \<Rightarrow> int \<Rightarrow> int" where
  "java_div a b = sgn a * sgn b * (\<bar>a\<bar> div \<bar>b\<bar>)"

definition java_op :: "nat \<Rightarrow> u8 \<Rightarrow> int \<Rightarrow> int \<Rightarrow> int option" where
  "java_op w k a b = (
     let s = nat (b mod int w) in
     if k = 0 then Some (java_wrap w (a + b))
     else if k = 1 then Some (java_wrap w (a - b))
     else if k = 2 then Some (java_wrap w (a * b))
     else if k = 3 then (if b = 0 then None else Some (java_wrap w (java_div a b)))
     else if k = 4 then (if b = 0 then None else Some (a - java_div a b * b))
     else if k = 5 then Some (a AND b)
     else if k = 6 then Some (a OR b)
     else if k = 7 then Some (a XOR b)
     else if k = 8 then Some (java_wrap w (a * 2 ^ s))
     else if k = 9 then Some (a div 2 ^ s)
     else Some (java_wrap w ((a mod 2 ^ w) div 2 ^ s)))"

section \<open>Words as Java integers\<close>

lemma java_wrap_signed: "java_wrap (LENGTH('a::len)) z = signed_take_bit (LENGTH('a) - Suc 0) z"
  by (simp add: java_wrap_def signed_take_bit_eq_take_bit_shift take_bit_eq_mod)

lemma sint_wrap: "sint (word_of_int z :: 'a::len word) = java_wrap (LENGTH('a)) z"
  using sint_sbintrunc' [where 'a = 'a, of z] by (simp add: java_wrap_signed)

lemma java_wrap_sint: "java_wrap (LENGTH('a)) (sint (a :: 'a::len word)) = sint a"
  by (simp add: sint_wrap [symmetric])

lemma sint_ops:
  fixes a b :: "'a::len word"
  shows "sint (a + b) = java_wrap (LENGTH('a)) (sint a + sint b)"
    "sint (a - b) = java_wrap (LENGTH('a)) (sint a - sint b)"
    "sint (a * b) = java_wrap (LENGTH('a)) (sint a * sint b)"
    "sint (push_bit n a) = java_wrap (LENGTH('a)) (sint a * 2 ^ n)"
    "sint (signed_drop_bit n a) = sint a div 2 ^ n"
    "sint (drop_bit n a) = java_wrap (LENGTH('a)) ((sint a mod 2 ^ LENGTH('a)) div 2 ^ n)"
proof -
  show "sint (a + b) = java_wrap (LENGTH('a)) (sint a + sint b)" using sint_word_add [of a b] by (simp add: java_wrap_signed)
  show "sint (a - b) = java_wrap (LENGTH('a)) (sint a - sint b)" using sint_word_diff [of a b] by (simp add: java_wrap_signed)
  show "sint (a * b) = java_wrap (LENGTH('a)) (sint a * sint b)" using sint_word_mult [of a b] by (simp add: java_wrap_signed)
  show "sint (signed_drop_bit n a) = sint a div 2 ^ n" by (simp add: sint_signed_drop_bit_eq drop_bit_eq_div)
  have "push_bit n a = word_of_int (sint a * 2 ^ n)" by (simp add: push_bit_eq_mult)
  then show "sint (push_bit n a) = java_wrap (LENGTH('a)) (sint a * 2 ^ n)" by (simp only: sint_wrap)
  have "uint (drop_bit n a) = drop_bit n (uint a)"
    by (rule bit_eqI) (simp add: bit_simps)
  then have "uint (drop_bit n a) = (sint a mod 2 ^ LENGTH('a)) div 2 ^ n"
    using uint_sint [of a] by (simp add: take_bit_eq_mod drop_bit_eq_div [where 'a = int])
  then have "drop_bit n a = word_of_int ((sint a mod 2 ^ LENGTH('a)) div 2 ^ n)" by (metis word_of_int_uint)
  then show "sint (drop_bit n a) = java_wrap (LENGTH('a)) ((sint a mod 2 ^ LENGTH('a)) div 2 ^ n)"
    by (simp only: sint_wrap)
qed

lemma sint_bitwise:
  fixes a b :: "'a::len word"
  shows "sint (a AND b) = sint a AND sint b" "sint (a OR b) = sint a OR sint b" "sint (a XOR b) = sint a XOR sint b"
  by (simp_all add: signed_and_eq signed_or_eq signed_xor_eq)

lemma java_div_sdiv: "java_div a b = a sdiv b"
  by (simp add: java_div_def signed_divide_int_def)

lemma sint_rem:
  fixes a b :: "'a::len word"
  assumes "b \<noteq> 0"
  shows "sint (word_of_int (sint a smod sint b) :: 'a word) = sint a - java_div (sint a) (sint b) * sint b"
proof -
  let ?M = "2 ^ (LENGTH('a) - Suc 0) :: int"
  have "sint b \<noteq> 0" using assms using signed_word_eqI [of b 0] by auto
  then have "\<bar>sint a smod sint b\<bar> < \<bar>sint b\<bar>" using smod_int_range [of "sint b" "sint a"] by auto
  moreover have "- ?M \<le> sint b" "sint b < ?M" using sint_greater_eq [of b] sint_less [of b] by auto
  ultimately have "- ?M \<le> sint a smod sint b" "sint a smod sint b < ?M" by auto
  then have "signed_take_bit (LENGTH('a) - Suc 0) (sint a smod sint b) = sint a smod sint b"
    by (intro signed_take_bit_int_eq_self) auto
  then show ?thesis by (simp add: sint_wrap java_wrap_signed java_div_sdiv minus_sdiv_mult_eq_smod)
qed


lemma uint_mod:
  fixes b :: "'a::len word"
  assumes "n \<le> LENGTH('a)"
  shows "uint (take_bit n b) = sint b mod 2 ^ n"
proof -
  have "uint (take_bit n b) = uint b mod 2 ^ n"
    using assms by (simp add: unsigned_take_bit_eq take_bit_eq_mod [where 'a = int])
  also have "\<dots> = (sint b mod 2 ^ LENGTH('a)) mod 2 ^ n" using uint_sint [of b] by (simp add: take_bit_eq_mod)
  also have "\<dots> = sint b mod 2 ^ n" using assms by (intro mod_mod_cancel le_imp_power_dvd)
  finally show ?thesis .
qed

lemma shift_distance:
  "unat ((b :: u32) AND 31) = nat (sint b mod 32)" "unat ((c :: u64) AND 63) = nat (sint c mod 64)"
proof -
  have "uint (b AND 31) = sint b mod 32" using uint_mod [of 5 b] by (simp add: take_bit_eq_mask mask_eq_exp_minus_1)
  then show "unat (b AND 31) = nat (sint b mod 32)" by (metis nat_uint_eq)
  have "uint (c AND 63) = sint c mod 64" using uint_mod [of 6 c] by (simp add: take_bit_eq_mask mask_eq_exp_minus_1)
  then show "unat (c AND 63) = nat (sint c mod 64)" by (metis nat_uint_eq)
qed

lemma sint_zero_iff: "sint (b :: 'a::len word) = 0 \<longleftrightarrow> b = 0"
  using signed_word_eqI [of b 0] by auto

lemma sint_quot:
  fixes a b :: "'a::len word"
  assumes "b \<noteq> 0"
  shows "sint (word_of_int (sint a sdiv sint b) :: 'a word) = java_wrap (LENGTH('a)) (java_div (sint a) (sint b))"
  by (simp only: sint_wrap java_div_sdiv)

lemma min_values:
  "sint int_min = - (2 ^ 31)" "sint long_min = - (2 ^ 63)"
  by (simp_all add: int_min_def long_min_def)

text \<open>The two special cases agree with the general rule.\<close>

lemma min_by_minus_one:
  "java_wrap 32 (java_div (sint int_min) (- 1)) = sint int_min"
  "java_wrap 64 (java_div (sint long_min) (- 1)) = sint long_min"
  "sint int_min - java_div (sint int_min) (- 1) * (- 1) = 0"
  "sint long_min - java_div (sint long_min) (- 1) * (- 1) = 0"
  unfolding min_values by (simp_all add: java_div_def java_wrap_def)

lemma sint_least: "sint a = - 2147483648 \<longleftrightarrow> a = int_min" "sint b = - 9223372036854775808 \<longleftrightarrow> b = long_min"
proof -
  have eq: "v = w" if "sint v = sint w" for v w :: "'a::len word" using that by (rule signed_word_eqI)
  show "sint a = - 2147483648 \<longleftrightarrow> a = int_min" "sint b = - 9223372036854775808 \<longleftrightarrow> b = long_min"
    using eq [of a int_min] eq [of b long_min] min_values by auto
qed

text \<open>The guards keep the operands inside the domain of the division of C.\<close>

lemma int_op_java: "\<exists>v. int_op k a b = Some v \<and> map_option sint v = java_op 32 k (sint a) (sint b)"
proof -
  note [simp] = sint_ops [where 'a = 32] sint_bitwise shift_distance sint_zero_iff
  consider "k = 3" | "k = 4" | "k \<noteq> 3" "k \<noteq> 4" by blast
  then show ?thesis
  proof cases
    case 1
    then show ?thesis using sint_quot [where 'a = 32] min_by_minus_one(1)
      by (simp add: int_op_def c_div_def sint_least java_op_def Let_def)
  next
    case 2
    then show ?thesis using sint_rem [where 'a = 32] min_by_minus_one(3)
      by (simp add: int_op_def c_rem_def sint_least java_op_def Let_def)
  qed (simp add: int_op_def java_op_def Let_def)
qed

lemma long_op_java: "\<exists>v. long_op k a b = Some v \<and> map_option sint v = java_op 64 k (sint a) (sint b)"
proof -
  note [simp] = sint_ops [where 'a = 64] sint_bitwise shift_distance sint_zero_iff
  consider "k = 3" | "k = 4" | "k \<noteq> 3" "k \<noteq> 4" by blast
  then show ?thesis
  proof cases
    case 1
    then show ?thesis using sint_quot [where 'a = 64] min_by_minus_one(2)
      by (simp add: long_op_def c_div_def sint_least java_op_def Let_def)
  next
    case 2
    then show ?thesis using sint_rem [where 'a = 64] min_by_minus_one(4)
      by (simp add: long_op_def c_rem_def sint_least java_op_def Let_def)
  qed (simp add: long_op_def java_op_def Let_def)
qed

lemma op_returns:
  "\<exists>v. int_op k a b = Some v" "\<exists>v. long_op k a' b' = Some v" "\<exists>v. lit_op k a b = Some v"
  using int_op_java [of k a b] long_op_java [of k a' b'] by (auto simp: lit_op_def)

section \<open>The instructions\<close>

text \<open>The value of a register pair.\<close>

definition wide_reg :: "u32 list \<Rightarrow> nat \<Rightarrow> u64" where
  "wide_reg r i = ucast (r ! i) OR push_bit 32 (ucast (r ! (i + 1)))"

definition set_wide :: "u32 list \<Rightarrow> nat \<Rightarrow> u64 \<Rightarrow> u32 list" where
  "set_wide r i v = r[i := ucast v, i + 1 := ucast (drop_bit 32 v)]"

lemma rw_in [simp]: "i + 1 < length r \<Longrightarrow> rw r i = Some (wide_reg r i)"
  by (simp add: rw_def wide_reg_def)

lemma sw_in [simp]: "i + 1 < length r \<Longrightarrow> sw r i v = Some (set_wide r i v)"
  by (simp add: sw_def set_wide_def)

lemma put_reg_in [simp]:
  "i < length (fr_regs fr) \<Longrightarrow> put_reg i v n vm fr = Some (next_at n vm fr ((fr_regs fr)[i := v]))"
  by (simp add: put_reg_def)

lemma put_wide_in [simp]:
  "i + 1 < length (fr_regs fr) \<Longrightarrow> put_wide i v n vm fr = Some (next_at n vm fr (set_wide (fr_regs fr) i v))"
  by (simp add: put_wide_def)

lemma wide_reg_set [simp]: "i + 1 < length r \<Longrightarrow> wide_reg (set_wide r i v) i = v"
  by (rule bit_eqI) (auto simp: wide_reg_def set_wide_def bit_simps)

text \<open>What an integer instruction makes of the reference's answer.\<close>

definition arith_outcome :: "('b \<Rightarrow> u32 list) \<Rightarrow> 'b option \<Rightarrow> u32 \<Rightarrow> dvm \<Rightarrow> frame \<Rightarrow> outcome" where
  "arith_outcome store v n vm fr = (case v of
     None \<Rightarrow> Raise (Some ''java/lang/ArithmeticException'') vm fr
   | Some z \<Rightarrow> Next vm (fr\<lparr>fr_regs := store z, fr_pc := fr_pc fr + n\<rparr>))"

lemma put_int_outcome:
  assumes "d < length (fr_regs fr)" "map_option sint v = r"
  shows "put_int d v n vm fr = Some (arith_outcome (\<lambda>z. (fr_regs fr)[d := word_of_int z]) r n vm fr)"
  using assms by (cases v) (auto simp: put_int_def arith_outcome_def next_at_def)

lemma put_long_outcome:
  assumes "d + 1 < length (fr_regs fr)" "map_option sint v = r"
  shows "put_long d v n vm fr = Some (arith_outcome (\<lambda>z. set_wide (fr_regs fr) d (word_of_int z)) r n vm fr)"
  using assms by (cases v) (auto simp: put_long_def arith_outcome_def next_at_def)

lemma REQ_in [simp]: "list_all (\<lambda>i. i < length (fr_regs fr)) rs \<Longrightarrow> REQ rs vm fr k = k"
  by (simp add: REQ_def)

text \<open>
  C23.  Integer arithmetic is Java's.  An \<open>int\<close> or \<open>long\<close> instruction whose registers lie in the
  frame stores what Java arithmetic yields for the operands (sums, differences and products
  modulo \<open>2^32\<close> or \<open>2^64\<close>, quotients rounded towards zero with the one that overflows
  wrapping, remainders with the sign of the dividend, shifts by the distance modulo the
  width) and goes on after the instruction; division by zero raises \<open>ArithmeticException\<close>
  and changes no register.
\<close>

theorem integer_instructions_java:
  fixes fr :: frame and insns :: "u16 list" and u0 :: u16
  defines "r \<equiv> fr_regs fr" and "d \<equiv> unat (AA u0)"
    and "i \<equiv> src_b insns (fr_pc fr)" and "j \<equiv> src_c insns (fr_pc fr)"
  assumes "d + 1 < length r" "i + 1 < length r" "j + 1 < length r"
  shows "exec_binop_int op u0 insns vm fr = Some (arith_outcome (\<lambda>z. r[d := word_of_int z])
      (java_op 32 (op - 0x90) (sint (r ! i)) (sint (r ! j))) 2 vm fr) \<and>
    exec_binop_long op' u0 insns vm fr = Some (arith_outcome (\<lambda>z. set_wide r d (word_of_int z))
      (java_op 64 (op' - 0x9b) (sint (wide_reg r i)) (if 0xa3 \<le> op' then sint (r ! j) else sint (wide_reg r j))) 2 vm fr)"
proof
  obtain v where v: "int_op (op - 0x90) (r ! i) (r ! j) = Some v"
    "map_option sint v = java_op 32 (op - 0x90) (sint (r ! i)) (sint (r ! j))"
    using int_op_java by blast
  then show "exec_binop_int op u0 insns vm fr = Some (arith_outcome (\<lambda>z. r[d := word_of_int z])
      (java_op 32 (op - 0x90) (sint (r ! i)) (sint (r ! j))) 2 vm fr)"
    using assms(5-7) put_int_outcome [OF _ v(2), of d fr] unfolding r_def d_def i_def j_def
    by (simp add: exec_binop_int_def Let_def)
  have "sint (scast w :: u64) = sint (w :: u32)" for w by (simp add: sint_up_scast is_up)
  then have "long_operand (0xa3 \<le> op') r j = Some y \<Longrightarrow>
      sint y = (if 0xa3 \<le> op' then sint (r ! j) else sint (wide_reg r j))" for y
    using assms(7) by (auto simp: long_operand_def split: if_splits)
  moreover obtain y where y: "long_operand (0xa3 \<le> op') r j = Some y"
    using assms(7) by (cases "0xa3 \<le> op'") (auto simp: long_operand_def)
  moreover obtain w where w: "long_op (op' - 0x9b) (wide_reg r i) y = Some w"
    "map_option sint w = java_op 64 (op' - 0x9b) (sint (wide_reg r i)) (sint y)"
    using long_op_java by blast
  ultimately have "map_option sint w = java_op 64 (op' - 0x9b) (sint (wide_reg r i)) (if 0xa3 \<le> op' then sint (r ! j) else sint (wide_reg r j))"
    by simp
  then show "exec_binop_long op' u0 insns vm fr = Some (arith_outcome (\<lambda>z. set_wide r d (word_of_int z))
      (java_op 64 (op' - 0x9b) (sint (wide_reg r i)) (if 0xa3 \<le> op' then sint (r ! j) else sint (wide_reg r j))) 2 vm fr)"
    using assms(5-7) y w(1) put_long_outcome [OF _ refl, of d fr] unfolding r_def d_def i_def j_def
    by (simp add: exec_binop_long_def Let_def)
qed

theorem integer_instructions_java_witness:
  "\<forall>vm. exec_binop_int 0x93 0x0093 [0x0093, 0x0201] vm \<lparr>fr_regs = [0, 0x80000000, 0xffffffff, 0], fr_pc = 0, fr_result = 0\<rparr>
   = Some (Next vm \<lparr>fr_regs = [0x80000000, 0x80000000, 0xffffffff, 0], fr_pc = 2, fr_result = 0\<rparr>)"
proof
  fix vm
  show "exec_binop_int 0x93 0x0093 [0x0093, 0x0201] vm \<lparr>fr_regs = [0, 0x80000000, 0xffffffff, 0], fr_pc = 0, fr_result = 0\<rparr>
   = Some (Next vm \<lparr>fr_regs = [0x80000000, 0x80000000, 0xffffffff, 0], fr_pc = 2, fr_result = 0\<rparr>)"
    using integer_instructions_java [where ?u0.0 = "0x0093" and insns = "[0x0093, 0x0201]" and op = "0x93" and vm = vm
        and fr = "\<lparr>fr_regs = [0, 0x80000000, 0xffffffff, 0], fr_pc = 0, fr_result = 0\<rparr>"]
    by (simp add: AA_def src_b_def src_c_def IU_def java_op_def java_div_def java_wrap_def arith_outcome_def Let_def)
qed

end
