(* ===== verification/Dvm_Run.thy ===== *)
theory Dvm_Run
  imports Dvm_Exec Dvm_Arith
begin

text \<open>
  Properties of the interpreter loop: the instructions that work on registers never leave the
  register file, whatever the code says, and what the step limit of a call guarantees.
\<close>

section \<open>Registers\<close>

text \<open>What an instruction may do that works on registers only.\<close>

definition tame :: "dvm \<Rightarrow> frame \<Rightarrow> outcome \<Rightarrow> bool" where
  "tame vm fr out = (case out of
     Next vm' fr' \<Rightarrow> length (fr_regs fr') = length (fr_regs fr) \<and> vm_heap vm' = vm_heap vm
   | Raise e vm' fr' \<Rightarrow> fr' = fr \<and> vm_heap vm' = vm_heap vm
   | Return v vm' \<Rightarrow> vm_heap vm' = vm_heap vm)"

lemma tame_simps [simp]:
  "tame vm fr (Next vm' fr') \<longleftrightarrow> length (fr_regs fr') = length (fr_regs fr) \<and> vm_heap vm' = vm_heap vm"
  "tame vm fr (Raise e vm' fr') \<longleftrightarrow> fr' = fr \<and> vm_heap vm' = vm_heap vm"
  "tame vm fr (Return v vm') \<longleftrightarrow> vm_heap vm' = vm_heap vm"
  "tame vm fr (next_at n vm' fr rs) \<longleftrightarrow> length rs = length (fr_regs fr) \<and> vm_heap vm' = vm_heap vm"
  "tame vm fr (jump t vm' fr) \<longleftrightarrow> vm_heap vm' = vm_heap vm"
  by (auto simp: tame_def next_at_def jump_def)

lemma length_set_wide [simp]: "length (set_wide r i v) = length r"
  by (simp add: set_wide_def)

lemma REQ_tame:
  assumes "list_all (\<lambda>i. i < length (fr_regs fr)) rs \<Longrightarrow> ok k (tame vm fr)"
  shows "ok (REQ rs vm fr k) (tame vm fr)"
  using assms by (simp add: REQ_def)

lemma put_int_tame [simp]: "d < length (fr_regs fr) \<Longrightarrow> ok (put_int d v n vm fr) (tame vm fr)"
  by (auto simp: put_int_def split: option.splits)

lemma put_long_tame [simp]: "d + 1 < length (fr_regs fr) \<Longrightarrow> ok (put_long d v n vm fr) (tame vm fr)"
  by (auto simp: put_long_def split: option.splits)

lemma exec_move_tame: "ok (exec_move op u0 insns vm fr) (tame vm fr)"
  by (auto simp: exec_move_def Let_def intro!: REQ_tame)

lemma exec_move_result_tame: "ok (exec_move_result op u0 vm fr) (tame vm fr)"
  by (auto simp: exec_move_result_def Let_def intro!: REQ_tame)

lemma exec_return_tame: "ok (exec_return op u0 vm fr) (tame vm fr)"
  by (auto simp: exec_return_def Let_def intro!: REQ_tame)

lemma exec_const_tame: "ok (exec_const op u0 insns vm fr) (tame vm fr)"
  by (auto simp: exec_const_def Let_def intro!: REQ_tame)

lemma exec_throw_tame: "ok (exec_throw u0 vm fr) (tame vm fr)"
  by (auto simp: exec_throw_def intro!: REQ_tame)

lemma exec_handles_tame: "ok (exec_handles op u0 vm fr) (tame vm fr)"
  by (auto simp: exec_handles_def next_at_def intro!: REQ_tame)

lemma exec_cmp_tame:
  "ok (exec_cmp_long u0 insns vm fr) (tame vm fr)" "ok (exec_cmp_float op u0 insns vm fr) (tame vm fr)"
  "ok (exec_cmp_double op u0 insns vm fr) (tame vm fr)"
  by (auto simp: exec_cmp_long_def exec_cmp_float_def exec_cmp_double_def Let_def intro!: REQ_tame)

lemma op_ok:
  "ok (int_op k a b) (\<lambda>_. True)" "ok (long_op k a' b') (\<lambda>_. True)" "ok (lit_op k a b) (\<lambda>_. True)"
  using op_returns by (auto simp: ok_def)

lemma exec_binop_tame:
  "ok (exec_binop_int op u0 insns vm fr) (tame vm fr)" "ok (exec_binop_int_2addr op u0 vm fr) (tame vm fr)"
  "ok (exec_lit16 op u0 insns vm fr) (tame vm fr)" "ok (exec_lit8 op u0 insns vm fr) (tame vm fr)"
  by (auto simp: exec_binop_int_def exec_binop_int_2addr_def exec_lit16_def exec_lit8_def Let_def
      intro!: REQ_tame ok_bind [OF op_ok(1)] ok_bind [OF op_ok(3)])

lemma exec_binop_long_tame:
  "ok (exec_binop_long op u0 insns vm fr) (tame vm fr)" "ok (exec_binop_long_2addr op u0 vm fr) (tame vm fr)"
  by (auto simp: exec_binop_long_def exec_binop_long_2addr_def long_operand_def Let_def
      intro!: REQ_tame ok_bind [OF op_ok(2)])

lemma exec_binop_fp_tame:
  "ok (exec_binop_float H op u0 insns vm fr) (tame vm fr)" "ok (exec_binop_double H op u0 insns vm fr) (tame vm fr)"
  "ok (exec_binop_float_2addr H op u0 vm fr) (tame vm fr)" "ok (exec_binop_double_2addr H op u0 vm fr) (tame vm fr)"
  by (auto simp: exec_binop_float_def exec_binop_double_def exec_binop_float_2addr_def exec_binop_double_2addr_def Let_def
      intro!: REQ_tame)

lemma exec_unary_float_tame: "ok (exec_unary_float H op u0 vm fr) (tame vm fr)"
  by (auto simp: exec_unary_float_def Let_def intro!: REQ_tame)

text \<open>The operand of a negation that C cannot negate.\<close>

definition negates_min :: "u16 \<Rightarrow> frame \<Rightarrow> bool" where
  "negates_min u0 fr \<longleftrightarrow> (let s = unat (B4 u0); r = fr_regs fr in
     OPCODE u0 = 0x7b \<and> s < length r \<and> r ! s = int_min \<or>
     OPCODE u0 = 0x7d \<and> s + 1 < length r \<and> wide_reg r s = long_min)"

lemma exec_unary_tame:
  "\<not> negates_min u0 fr \<Longrightarrow> ok (exec_unary (OPCODE u0) u0 vm fr) (tame vm fr)"
  by (auto simp: exec_unary_def negates_min_def Let_def intro!: REQ_tame)


text \<open>A branch by a 16-bit offset stays in the range of the signed sum.\<close>

lemma fits32_near: "0 \<le> p \<Longrightarrow> p < 2 ^ 30 \<Longrightarrow> z < 2 ^ 15 \<Longrightarrow> - (2 ^ 15) \<le> z \<Longrightarrow> fits32 (p + z)"
  by (simp add: fits32_def)

lemma branch_near:
  assumes "unat pc < 2 ^ 30" "sint off < 2 ^ 15" "- (2 ^ 15) \<le> sint off"
  shows "branch_to pc off = Some (pc + off)"
proof -
  have s: "sint pc = int (unat pc)" using assms(1) by (intro sint_small) simp
  have "int (unat pc) < int (2 ^ 30)" using assms(1) by (simp only: of_nat_less_iff)
  then have "fits32 (sint pc + sint off)" using assms(2,3) unfolding s by (intro fits32_near) auto
  then show ?thesis by (simp add: branch_to_def)
qed

lemma near_offsets:
  "sint (scast (x :: u16) :: u32) < 2 ^ 15" "- (2 ^ 15) \<le> sint (scast (x :: u16) :: u32)"
  "sint (scast (y :: u8) :: u32) < 2 ^ 15" "- (2 ^ 15) \<le> sint (scast (y :: u8) :: u32)"
proof -
  have x: "sint (scast x :: u32) = sint x" and y: "sint (scast y :: u32) = sint y"
    by (simp_all add: sint_up_scast is_up)
  show "sint (scast x :: u32) < 2 ^ 15" "- (2 ^ 15) \<le> sint (scast x :: u32)"
    using sint_greater_eq [of x] sint_less [of x] by (simp_all add: x)
  have "- (2 ^ 7) \<le> sint y" "sint y < 2 ^ 7" using sint_greater_eq [of y] sint_less [of y] by simp_all
  then show "sint (scast y :: u32) < 2 ^ 15" "- (2 ^ 15) \<le> sint (scast y :: u32)" by (simp_all add: y)
qed

lemma exec_goto_tame:
  "unat (fr_pc fr) < 2 ^ 30 \<Longrightarrow> op = 0x28 \<or> op = 0x29 \<Longrightarrow> ok (exec_goto op u0 insns vm fr) (tame vm fr)"
  using branch_near [OF _ near_offsets(1,2)] branch_near [OF _ near_offsets(3,4)] by (auto simp: exec_goto_def Let_def)

lemma exec_if_tame:
  "unat (fr_pc fr) < 2 ^ 30 \<Longrightarrow> ok (exec_if op u0 insns vm fr) (tame vm fr)"
  "unat (fr_pc fr) < 2 ^ 30 \<Longrightarrow> ok (exec_ifz op u0 insns vm fr) (tame vm fr)"
  using branch_near [OF _ near_offsets(1,2)] by (auto simp: exec_if_def exec_ifz_def if_jump_def intro!: REQ_tame)

text \<open>
  The instructions that need nothing but registers: all except those that resolve classes or
  members, read array or switch payloads, or branch by a 32-bit offset.
\<close>

definition register_op :: "u8 \<Rightarrow> bool" where
  "register_op op \<longleftrightarrow> \<not> resolves_classes op \<and> op \<noteq> 0x21 \<and> op \<noteq> 0x26 \<and> op \<noteq> 0x2a \<and> op \<noteq> 0x2b \<and> op \<noteq> 0x2c \<and>
     \<not> (0x44 \<le> op \<and> op \<le> 0x51)"

lemma ok_if: "(c \<Longrightarrow> ok a Q) \<Longrightarrow> (\<not> c \<Longrightarrow> ok b Q) \<Longrightarrow> ok (if c then a else b) Q"
  by simp

lemma register_op_not:
  "register_op 0x21 = False" "register_op 0x26 = False" "resolves_classes op \<Longrightarrow> \<not> register_op op"
  "\<not> op \<le> 0x2a \<Longrightarrow> op \<le> 0x2c \<Longrightarrow> \<not> register_op op"
  "\<not> op < 0x44 \<Longrightarrow> op \<le> 0x4a \<Longrightarrow> \<not> register_op op" "\<not> op \<le> 0x4a \<Longrightarrow> op \<le> 0x51 \<Longrightarrow> \<not> register_op op"
  by (auto simp: register_op_def word_le_nat_alt word_less_nat_alt word_unat_eq_iff)

lemma register_op_goto:
  assumes "register_op op" "op \<le> 0x2a" "\<not> op \<le> 0x19" "op \<noteq> 0x27"
  shows "op = 0x28 \<or> op = 0x29"
  using assms by (auto simp: register_op_def resolves_classes_def word_le_nat_alt word_unat_eq_iff)

lemmas insn_tame = exec_move_tame exec_move_result_tame exec_return_tame exec_const_tame exec_throw_tame exec_handles_tame
  exec_cmp_tame exec_binop_tame exec_binop_long_tame exec_binop_fp_tame exec_unary_float_tame exec_unary_tame exec_if_tame

lemma exec_insn_tame:
  assumes "register_op (OPCODE u0)" "unat (fr_pc fr) < 2 ^ 30" "\<not> negates_min u0 fr"
  shows "ok (exec_insn E u0 insns vm fr) (tame vm fr)"
  unfolding exec_insn_def Let_def
  using assms register_op_not(3-6) [of "OPCODE u0"] register_op_goto [OF assms(1)]
  by (intro ok_if) (simp_all add: insn_tame exec_goto_tame register_op_not(1,2))


section \<open>The step limit\<close>

text \<open>
  A method without try items: the first exception leaves \<open>execute\<close>.  After the step limit is
  exceeded every turn raises, so the call ends within the limit.
\<close>

lemma no_tries_leaves:
  assumes "code_tries code = None" "after_raise E code d exc vm fr = Some t"
  shows "\<exists>r d'. t = Leave r d'"
  using assms
  by (auto simp: after_raise_def exception_dispatch_def find_handler_def find_catchall_handler_def
      split: bind_splits if_splits option.splits)

text \<open>Whether the first \<open>n\<close> turns of the loop all go on.\<close>

primrec goes_on :: "nat \<Rightarrow> interp_env \<Rightarrow> dex_code \<Rightarrow> u16 list \<Rightarrow> dex_file \<Rightarrow> dvm \<Rightarrow> frame \<Rightarrow> bool" where
  "goes_on 0 E code insns d vm fr \<longleftrightarrow> True"
| "goes_on (Suc n) E code insns d vm fr \<longleftrightarrow>
     (\<exists>vm' fr' d'. execute_turn E code insns d vm fr = Some (Go vm' fr' d') \<and> goes_on n E code insns d' vm' fr')"

lemma goes_on_execute: "goes_on n E code insns d vm fr \<Longrightarrow> execute n E code insns d vm fr = None"
  by (induction n arbitrary: d vm fr) auto

text \<open>What an instruction of the loop does to the budget: it keeps the limit and never lowers the count.\<close>

definition same_budget :: "dvm \<Rightarrow> dvm \<Rightarrow> bool" where
  "same_budget vm vm' \<longleftrightarrow> vm_step_limit vm' = vm_step_limit vm \<and> vm_call_steps vm \<le> vm_call_steps vm' \<and>
     (vm_call_steps vm \<noteq> - 1 \<longrightarrow> vm_call_steps vm' \<noteq> - 1)"

lemma same_budget_refl [simp]:
  "same_budget vm vm" "same_budget vm (vm\<lparr>vm_exception := e\<rparr>)" "same_budget vm (vm\<lparr>vm_heap := h\<rparr>)"
  by (simp_all add: same_budget_def)

definition charges :: "dvm \<Rightarrow> outcome \<Rightarrow> bool" where
  "charges vm out = (case out of
     Next vm' fr' \<Rightarrow> same_budget vm vm' | _ \<Rightarrow> True)"

lemma charges_simps [simp]:
  "charges vm (Next vm' fr') \<longleftrightarrow> same_budget vm vm'"
  "charges vm (Raise e vm' fr')" "charges vm (Return v vm')"
  "charges vm (next_at n vm' fr rs) \<longleftrightarrow> same_budget vm vm'"
  "charges vm (jump t vm' fr) \<longleftrightarrow> same_budget vm vm'"
  by (auto simp: charges_def next_at_def jump_def)

text \<open>Partial: if there is an outcome, it satisfies \<open>Q\<close>.\<close>

definition if_ok :: "'a option \<Rightarrow> ('a \<Rightarrow> bool) \<Rightarrow> bool" where
  "if_ok m Q \<longleftrightarrow> (\<forall>x. m = Some x \<longrightarrow> Q x)"

lemma if_ok_simps [simp]: "if_ok None Q" "if_ok (Some x) Q = Q x"
  by (auto simp: if_ok_def)

lemma if_ok_bind: "(\<And>x. m = Some x \<Longrightarrow> if_ok (f x) Q) \<Longrightarrow> if_ok (m \<bind> f) Q"
  by (cases m) (auto simp: if_ok_def)

lemma if_ok_if: "(c \<Longrightarrow> if_ok a Q) \<Longrightarrow> (\<not> c \<Longrightarrow> if_ok b Q) \<Longrightarrow> if_ok (if c then a else b) Q"
  by simp

lemma REQ_charges: "if_ok k (charges vm) \<Longrightarrow> if_ok (REQ rs vm fr k) (charges vm)"
  by (simp add: REQ_def)

lemma put_charges:
  "if_ok (put_reg i v n vm fr) (charges vm)" "if_ok (put_wide i w n vm fr) (charges vm)"
  "if_ok (put_reg i v n (vm\<lparr>vm_exception := e\<rparr>) fr) (charges vm)"
  "if_ok (put_int i x n vm fr) (charges vm)" "if_ok (put_long i y n vm fr) (charges vm)"
  by (auto simp: put_reg_def put_wide_def put_int_def put_long_def split: option.splits intro!: if_ok_bind)

lemmas charge_rules = REQ_charges put_charges if_ok_bind if_ok_if

lemma insn_charges:
  "if_ok (exec_move op u0 insns vm fr) (charges vm)" "if_ok (exec_move_result op u0 vm fr) (charges vm)"
  "if_ok (exec_return op u0 vm fr) (charges vm)" "if_ok (exec_const op u0 insns vm fr) (charges vm)"
  "if_ok (exec_throw u0 vm fr) (charges vm)" "if_ok (exec_handles op u0 vm fr) (charges vm)"
  "if_ok (exec_goto op u0 insns vm fr) (charges vm)" "if_ok (exec_switch op u0 insns vm fr) (charges vm)"
  by (auto simp: exec_move_def exec_move_result_def exec_return_def exec_const_def exec_throw_def exec_handles_def
      exec_goto_def exec_switch_def Let_def intro!: charge_rules)

lemma cmp_charges:
  "if_ok (exec_cmp_long u0 insns vm fr) (charges vm)" "if_ok (exec_cmp_float op u0 insns vm fr) (charges vm)"
  "if_ok (exec_cmp_double op u0 insns vm fr) (charges vm)" "if_ok (exec_if op u0 insns vm fr) (charges vm)"
  "if_ok (exec_ifz op u0 insns vm fr) (charges vm)"
  by (auto simp: exec_cmp_long_def exec_cmp_float_def exec_cmp_double_def exec_if_def exec_ifz_def if_jump_def Let_def
      intro!: charge_rules)

lemma arith_charges:
  "if_ok (exec_binop_int op u0 insns vm fr) (charges vm)" "if_ok (exec_binop_int_2addr op u0 vm fr) (charges vm)"
  "if_ok (exec_lit16 op u0 insns vm fr) (charges vm)" "if_ok (exec_lit8 op u0 insns vm fr) (charges vm)"
  "if_ok (exec_binop_long op u0 insns vm fr) (charges vm)" "if_ok (exec_binop_long_2addr op u0 vm fr) (charges vm)"
  "if_ok (exec_binop_float H op u0 insns vm fr) (charges vm)" "if_ok (exec_binop_double H op u0 insns vm fr) (charges vm)"
  "if_ok (exec_binop_float_2addr H op u0 vm fr) (charges vm)" "if_ok (exec_binop_double_2addr H op u0 vm fr) (charges vm)"
  by (auto simp: exec_binop_int_def exec_binop_int_2addr_def exec_lit16_def exec_lit8_def exec_binop_long_def
      exec_binop_long_2addr_def exec_binop_float_def exec_binop_double_def exec_binop_float_2addr_def
      exec_binop_double_2addr_def Let_def intro!: charge_rules)

lemma unary_charges:
  "if_ok (exec_unary op u0 vm fr) (charges vm)" "if_ok (exec_unary_float H op u0 vm fr) (charges vm)"
  by (auto simp: exec_unary_def exec_unary_float_def Let_def intro!: charge_rules)

lemma array_charges:
  "if_ok (exec_aget op u0 insns vm fr) (charges vm)" "if_ok (exec_aput op u0 insns vm fr) (charges vm)"
  "if_ok (exec_array_length u0 vm fr) (charges vm)" "if_ok (exec_fill_array_data u0 insns vm fr) (charges vm)"
  by (auto simp: exec_aget_def exec_aput_def exec_array_length_def exec_fill_array_data_def Let_def
      split: option.splits intro!: charge_rules)

text \<open>Only an instruction that runs code outside the loop can do anything else to the budget.\<close>

lemma exec_insn_charges:
  assumes "\<not> resolves_classes (OPCODE u0)"
  shows "if_ok (exec_insn E u0 insns vm fr) (charges vm)"
  unfolding exec_insn_def Let_def
  by (intro if_ok_if insn_charges cmp_charges arith_charges unary_charges array_charges) (simp_all add: assms)

text \<open>The state after \<open>n\<close> turns, while the loop goes on.\<close>

primrec turns :: "nat \<Rightarrow> interp_env \<Rightarrow> dex_code \<Rightarrow> u16 list \<Rightarrow> dex_file \<times> dvm \<times> frame \<Rightarrow>
    (dex_file \<times> dvm \<times> frame) option" where
  "turns 0 E code insns st = Some st"
| "turns (Suc n) E code insns st = (case st of (d, vm, fr) \<Rightarrow> (case execute_turn E code insns d vm fr of
     Some (Go vm' fr' d') \<Rightarrow> turns n E code insns (d', vm', fr') | _ \<Rightarrow> None))"

text \<open>
  A turn renews the budget: the counter comes back lower than the turn itself made it, or at
  the end of its range, or with another limit.
\<close>

definition renews :: "interp_env \<Rightarrow> dex_code \<Rightarrow> u16 list \<Rightarrow> dex_file \<times> dvm \<times> frame \<Rightarrow> bool" where
  "renews E code insns st = (case st of (d, vm, fr) \<Rightarrow> (case execute_turn E code insns d vm fr of
     Some (Go vm' fr' d') \<Rightarrow> vm_call_steps vm' < vm_call_steps vm + 1 \<or> vm_call_steps vm' = - 1 \<or>
       vm_step_limit vm' \<noteq> vm_step_limit vm
   | _ \<Rightarrow> False))"

lemma turn_insn:
  assumes "code_tries code = None" "vm_step_limit vm \<noteq> 0"
    and "execute_turn E code insns d vm fr = Some (Go vm' fr' d')"
  shows "unat (fr_pc fr) < length insns" "\<not> vm_step_limit vm < vm_call_steps vm + 1"
    "exec_insn E (insns ! unat (fr_pc fr)) insns
       (vm\<lparr>vm_steps := vm_steps vm + 1, vm_call_steps := vm_call_steps vm + 1\<rparr>) fr = Some (Next vm' fr')"
proof -
  have no: "\<not> (\<exists>exc vm fr. after_raise E code d exc vm fr = Some (Go vm' fr' d'))"
    using no_tries_leaves [OF assms(1)] by fastforce
  then show pc: "unat (fr_pc fr) < length insns" and "\<not> vm_step_limit vm < vm_call_steps vm + 1"
    and "exec_insn E (insns ! unat (fr_pc fr)) insns
       (vm\<lparr>vm_steps := vm_steps vm + 1, vm_call_steps := vm_call_steps vm + 1\<rparr>) fr = Some (Next vm' fr')"
    using assms(2,3) by (auto simp: execute_turn_def Let_def split: if_splits bind_splits outcome.splits)
qed

lemma renews_calls_out:
  assumes "code_tries code = None" "vm_step_limit vm \<noteq> 0" "vm_step_limit vm \<noteq> - 1" "renews E code insns (d, vm, fr)"
  shows "unat (fr_pc fr) < length insns \<and> resolves_classes (OPCODE (insns ! unat (fr_pc fr)))"
proof -
  obtain vm' fr' d' where t: "execute_turn E code insns d vm fr = Some (Go vm' fr' d')"
    and r: "vm_call_steps vm' < vm_call_steps vm + 1 \<or> vm_call_steps vm' = - 1 \<or> vm_step_limit vm' \<noteq> vm_step_limit vm"
    using assms(4) by (auto simp: renews_def split: option.splits turn.splits)
  note i = turn_insn [OF assms(1,2) t]
  have "vm_call_steps vm + 1 \<noteq> - 1" using i(2) assms(3) by (metis not_less word_order.extremum_unique)
  then have "resolves_classes (OPCODE (insns ! unat (fr_pc fr)))"
    using i(3) r exec_insn_charges [of "insns ! unat (fr_pc fr)" E insns
        "vm\<lparr>vm_steps := vm_steps vm + 1, vm_call_steps := vm_call_steps vm + 1\<rparr>" fr]
    by (cases "resolves_classes (OPCODE (insns ! unat (fr_pc fr)))") (auto simp: same_budget_def not_le)
  with i(1) show ?thesis by blast
qed

lemma unat_step: "(c :: u64) \<noteq> - 1 \<Longrightarrow> unat (c + 1) = unat c + 1"
proof -
  assume "c \<noteq> - 1"
  then have "1 + c \<noteq> 0" by (metis add.commute eq_neg_iff_add_eq_0)
  then show ?thesis using unatSuc [of c] by (simp add: add.commute)
qed

lemma goes_on_bound:
  assumes "code_tries code = None"
  shows "vm_step_limit vm \<noteq> 0 \<Longrightarrow> vm_step_limit vm \<noteq> - 1 \<Longrightarrow> vm_call_steps vm \<noteq> - 1 \<Longrightarrow> goes_on n E code insns d vm fr \<Longrightarrow>
    n \<le> unat (vm_step_limit vm) - unat (vm_call_steps vm) \<or>
    (\<exists>k d1 vm1 fr1. k < n \<and> turns k E code insns (d, vm, fr) = Some (d1, vm1, fr1) \<and>
       unat (fr_pc fr1) < length insns \<and> resolves_classes (OPCODE (insns ! unat (fr_pc fr1))) \<and>
       renews E code insns (d1, vm1, fr1))"
proof (induction n arbitrary: d vm fr)
  case (Suc n)
  obtain vm' fr' d' where t: "execute_turn E code insns d vm fr = Some (Go vm' fr' d')" "goes_on n E code insns d' vm' fr'"
    using Suc.prems(4) by auto
  show ?case
  proof (cases "renews E code insns (d, vm, fr)")
    case True
    with renews_calls_out [OF assms Suc.prems(1,2) True] show ?thesis
      by (intro disjI2 exI [of _ 0] exI [of _ d] exI [of _ vm] exI [of _ fr]) simp
  next
    case False
    then have c: "vm_step_limit vm' = vm_step_limit vm" "vm_call_steps vm' \<noteq> - 1" "vm_call_steps vm + 1 \<le> vm_call_steps vm'"
      using t(1) by (auto simp: renews_def not_less)
    have s: "unat (vm_call_steps vm + 1) = unat (vm_call_steps vm) + 1"
      using Suc.prems(3) by (rule unat_step)
    have lim: "vm_call_steps vm + 1 \<le> vm_step_limit vm" using turn_insn(2) [OF assms Suc.prems(1) t(1)] by simp
    from Suc.IH [of vm' d' fr'] c Suc.prems(1,2) t(2)
    consider "n \<le> unat (vm_step_limit vm') - unat (vm_call_steps vm')"
      | k d1 vm1 fr1 where "k < n" "turns k E code insns (d', vm', fr') = Some (d1, vm1, fr1)"
        "unat (fr_pc fr1) < length insns" "resolves_classes (OPCODE (insns ! unat (fr_pc fr1)))"
        "renews E code insns (d1, vm1, fr1)" by auto
    then show ?thesis
    proof cases
      case 1
      with lim c(1,3) s show ?thesis by (intro disjI1) (simp add: word_le_nat_alt)
    next
      case 2
      then have "turns (Suc k) E code insns (d, vm, fr) = Some (d1, vm1, fr1)" using t(1) by simp
      with 2 show ?thesis by (meson Suc_mono)
    qed
  qed
qed simp


text \<open>
  A handler that covers its own first instruction: once the limit is exceeded, each turn raises
  the error, finds the same handler and goes on there.
\<close>

definition throw_works :: "interp_env \<Rightarrow> bool" where
  "throw_works E \<longleftrightarrow> (\<forall>c vm. \<exists>vm'. env_throw E c vm = Some vm' \<and> vm_exception vm' \<noteq> 0 \<and>
     vm_step_limit vm' = vm_step_limit vm \<and> vm_call_steps vm' = vm_call_steps vm \<and> vm_parked vm' = vm_parked vm)"

lemma caught_again:
  assumes "throw_works E" "\<And>vm. \<not> env_stopping E vm" "unat h < length insns"
    and "\<And>vm. find_handler (env_alloc E) (env_catches E vm) d code h = Some (Some h, d)"
    and "vm_step_limit vm \<noteq> 0" "\<not> vm_parked vm" "vm_step_limit vm < vm_call_steps vm + 1" "fr_pc fr = h"
  shows "\<exists>vm'. execute_turn E code insns d vm fr = Some (Go vm' fr d) \<and> vm_step_limit vm' = vm_step_limit vm \<and>
     vm_call_steps vm' = vm_call_steps vm + 1 \<and> \<not> vm_parked vm'"
proof -
  let ?v = "vm\<lparr>vm_steps := vm_steps vm + 1, vm_call_steps := vm_call_steps vm + 1\<rparr>"
  obtain v where v: "env_throw E ''java/lang/Error'' ?v = Some v" "vm_exception v \<noteq> 0"
      "vm_step_limit v = vm_step_limit vm" "vm_call_steps v = vm_call_steps vm + 1" "\<not> vm_parked v"
    using assms(1) [unfolded throw_works_def, rule_format, of "''java/lang/Error''" ?v] assms(6) by auto
  have "after_raise E code d (Some ''java/lang/Error'') ?v fr =
      Some (Go (v\<lparr>vm_exc_ref := vm_exception v, vm_exception := 0\<rparr>) (fr\<lparr>fr_pc := h\<rparr>) d)"
    using v assms(2,4,8) by (simp add: after_raise_def raise_def exception_dispatch_def)
  moreover have "fr\<lparr>fr_pc := h\<rparr> = fr" using assms(8) by (cases fr) simp
  ultimately show ?thesis using assms(2,3,5,7,8) v by (simp add: execute_turn_def Let_def)
qed

lemma caught_forever:
  assumes "throw_works E" "\<And>vm. \<not> env_stopping E vm" "unat h < length insns"
    and "\<And>vm. find_handler (env_alloc E) (env_catches E vm) d code h = Some (Some h, d)"
    and "vm_step_limit vm \<noteq> 0" "\<not> vm_parked vm" "vm_step_limit vm \<le> vm_call_steps vm" "fr_pc fr = h"
    and "unat (vm_call_steps vm) + n < 2 ^ 64"
  shows "goes_on n E code insns d vm fr"
  using assms(5-9)
proof (induction n arbitrary: vm)
  case (Suc n)
  have "vm_call_steps vm \<noteq> - 1" using Suc.prems(5) by (auto simp: unsigned_minus_1_eq_mask mask_eq_exp_minus_1)
  then have s: "unat (vm_call_steps vm + 1) = unat (vm_call_steps vm) + 1" by (rule unat_step)
  then have "vm_step_limit vm < vm_call_steps vm + 1" using Suc.prems(3) by (simp add: word_less_nat_alt word_le_nat_alt)
  then obtain vm' where vm': "execute_turn E code insns d vm fr = Some (Go vm' fr d)" "vm_step_limit vm' = vm_step_limit vm"
      "vm_call_steps vm' = vm_call_steps vm + 1" "\<not> vm_parked vm'"
    using caught_again [where d = d and E = E, OF assms(1-4) Suc.prems(1,2) _ Suc.prems(4)] by blast
  have "goes_on n E code insns d vm' fr"
    using vm' Suc.prems s by (intro Suc.IH) (auto simp: word_le_nat_alt)
  then show ?case using vm'(1) by auto
qed simp


section \<open>The properties\<close>

definition idle_vm :: "u64 \<Rightarrow> dvm" where
  "idle_vm limit = \<lparr>vm_heap = heap_empty, vm_exception = 0, vm_exc_ref = 0, vm_steps = 0, vm_step_limit = limit,
     vm_call_steps = 0, vm_parked = False\<rparr>"

definition plain_env :: interp_env where
  "plain_env = \<lparr>env_throw = (\<lambda>c vm. Some (vm\<lparr>vm_exception := 1, vm_exc_ref := 1\<rparr>)),
     env_other = (\<lambda>op u0 insns vm fr. Some (Raise None vm fr)), env_catches = (\<lambda>vm t. False),
     env_stopping = (\<lambda>vm. False),
     env_nan = \<lparr>nan_f = (\<lambda>a b. 0x7fc00000), nan_d = (\<lambda>a b. 0), nan_fd = (\<lambda>a. 0), nan_df = (\<lambda>a. 0)\<rparr>,
     env_alloc = (\<lambda>n. True)\<rparr>"

text \<open>
  C24.  Registers are safe from the bytecode.  Whatever the operands of an instruction say, and
  however the method is truncated, an instruction that works on registers ends without
  touching anything outside the frame's registers: it goes on with as many registers as
  before, raises, or returns, and the heap is unchanged.  The one exception is the negation of
  the least \<open>int\<close> or \<open>long\<close>, which C leaves undefined.
\<close>

theorem register_instructions_safe:
  assumes "register_op (OPCODE u0)" "unat (fr_pc fr) < 2 ^ 30" "\<not> negates_min u0 fr"
  shows "\<exists>out. exec_insn E u0 insns vm fr = Some out \<and> (case out of
      Next vm' fr' \<Rightarrow> length (fr_regs fr') = length (fr_regs fr) \<and> vm_heap vm' = vm_heap vm
    | Raise e vm' fr' \<Rightarrow> fr' = fr \<and> vm_heap vm' = vm_heap vm
    | Return v vm' \<Rightarrow> vm_heap vm' = vm_heap vm)"
  using exec_insn_tame [OF assms] by (auto simp: ok_def tame_def)

theorem register_instructions_safe_witness:
  "\<exists>out. exec_insn plain_env 0xff90 [0xff90] (idle_vm 0) \<lparr>fr_regs = [1, 2], fr_pc = 0, fr_result = 0\<rparr> = Some out"
  using register_instructions_safe [where ?u0.0 = "0xff90" and fr = "\<lparr>fr_regs = [1, 2], fr_pc = 0, fr_result = 0\<rparr>"
      and E = plain_env and insns = "[0xff90]" and vm = "idle_vm 0"]
  by (auto simp: OPCODE_def register_op_def resolves_classes_def negates_min_def Let_def)



text \<open>
  C26.  The step limit can be caught.  If a handler covers its own first instruction (the shape
  compilers emit for a synchronized block), the error that reports the exceeded limit is
  caught there again and again: the loop makes every number of turns that the 64-bit step
  counter can count, although the limit has long been exceeded, and no result is produced.
\<close>

theorem step_limit_caught:
  assumes "throw_works E" "\<And>vm. \<not> env_stopping E vm" "unat h < length insns"
    and "\<And>vm. find_handler (env_alloc E) (env_catches E vm) d code h = Some (Some h, d)"
    and "vm_step_limit vm \<noteq> 0" "\<not> vm_parked vm" "vm_step_limit vm \<le> vm_call_steps vm" "fr_pc fr = h"
    and "unat (vm_call_steps vm) + n < 2 ^ 64"
  shows "goes_on n E code insns d vm fr \<and> execute n E code insns d vm fr = None"
  using caught_forever [where d = d and E = E, OF assms] goes_on_execute by blast

text \<open>One try item over the first unit, whose only clause catches everything at address 0.\<close>

definition self_covering :: dex_file where
  "self_covering = dex_zero\<lparr>dex_p := [0,0,0,0, 1,0, 1,0, 1, 0, 0], dex_len := 11, dex_strings := Some [], dex_fixups := Some []\<rparr>"

lemma self_covering_handler:
  "find_handler (\<lambda>n. True) (\<lambda>t. False) self_covering handler_code 0 = Some (Some 0, self_covering)"
  by code_simp

theorem step_limit_caught_witness:
  "goes_on (2 ^ 63) plain_env handler_code [0x0000] self_covering ((idle_vm 3)\<lparr>vm_call_steps := 3\<rparr>)
     \<lparr>fr_regs = [], fr_pc = 0, fr_result = 0\<rparr>"
  using step_limit_caught [of plain_env 0 "[0x0000]" self_covering handler_code "(idle_vm 3)\<lparr>vm_call_steps := 3\<rparr>"
      "\<lparr>fr_regs = [], fr_pc = 0, fr_result = 0\<rparr>" "2 ^ 63"] self_covering_handler
  by (simp add: throw_works_def plain_env_def idle_vm_def)

end
