(* ===== verification/Dvm_Array.thy ===== *)
theory Dvm_Array
  imports Dvm_Arith
begin

text \<open>
  Array elements through the interpreter: what \<open>aput\<close> stores is what \<open>aget\<close> reads, at every
  element width, and nothing else changes.
\<close>

section \<open>Elements as bytes\<close>

lemma length_le_bytes_of [simp]: "length (le_bytes_of w v) = w"
  by (induction w arbitrary: v) auto

lemma le_val_bytes: "w \<le> 8 \<Longrightarrow> le_val (le_bytes_of w v) = take_bit (8 * w) v"
proof (induction w arbitrary: v)
  case (Suc w)
  have "le_val (le_bytes_of (Suc w) v) = ucast (ucast v :: u8) OR push_bit 8 (take_bit (8 * w) (drop_bit 8 v))"
    using Suc by simp
  also have "\<dots> = take_bit (8 * Suc w) v"
    by (rule bit_eqI) (auto simp: bit_simps)
  finally show ?case .
qed simp

lemma data_put_ok:
  assumes "(i + 1) * w \<le> length bs" "w \<le> 8"
  obtains bs' where "data_put (Some bs) w i v = Some bs'" "length bs' = length bs"
    "data_get (Some bs') w i = Some (take_bit (8 * w) v)"
    "\<And>j. j \<noteq> i \<Longrightarrow> data_get (Some bs') w j = data_get (Some bs) w j"
proof -
  define bs' where "bs' = take (i * w) bs @ le_bytes_of w v @ drop ((i + 1) * w) bs"
  have iw: "i * w \<le> length bs" "i * w + w \<le> length bs" using assms(1) by (simp_all add: algebra_simps)
  then have len: "length bs' = length bs" by (simp add: bs'_def)
  have same: "take w (drop (j * w) bs') = take w (drop (j * w) bs)" if "j \<noteq> i" for j
  proof (cases "j < i")
    case True
    then have "(j + 1) * w \<le> i * w" by (intro mult_le_mono1) simp
    then have "j * w + w \<le> i * w" by (simp add: algebra_simps)
    then show ?thesis using iw by (simp add: bs'_def take_drop min_def)
  next
    case False
    then have "(i + 1) * w \<le> j * w" using that by (intro mult_le_mono1) simp
    then have le: "i * w + w \<le> j * w" by (simp add: algebra_simps)
    have "drop (j * w) bs' = drop (j * w - (i * w + w)) (drop (i * w + w) bs')" using le by (simp only: drop_drop) simp
    also have "drop (i * w + w) bs' = drop (i * w + w) bs" using iw by (simp add: bs'_def add.commute)
    also have "drop (j * w - (i * w + w)) \<dots> = drop (j * w) bs" using le by (simp only: drop_drop) simp
    finally show ?thesis by simp
  qed
  have "take w (drop (i * w) bs') = le_bytes_of w v" using iw by (simp add: bs'_def)
  then have "data_get (Some bs') w i = Some (take_bit (8 * w) v)"
    using assms len by (simp add: data_get_def le_val_bytes)
  moreover have "data_put (Some bs) w i v = Some bs'" using assms(1) by (simp add: data_put_def bs'_def)
  moreover have "\<And>j. j \<noteq> i \<Longrightarrow> data_get (Some bs') w j = data_get (Some bs) w j"
    using same len by (simp add: data_get_def)
  ultimately show thesis using that len by blast
qed


section \<open>Arrays in the heap\<close>

text \<open>An array object with room for its elements, as \<open>dvm_new_array\<close> makes them.\<close>

definition arr_ok :: "dvm_object \<Rightarrow> nat \<Rightarrow> bool" where
  "arr_ok x w \<longleftrightarrow> o_live x \<and> o_kind x = DVM_OBJ_ARRAY \<and> (\<exists>bs. o_data x = Some bs \<and> unat (o_length x) * w \<le> length bs)"

lemma new_array_arr_ok: "arr_ok (array_object cls elem n) (dvm__elem_width elem)"
  by (auto simp: arr_ok_def array_object_def Let_def)

definition narrow :: "u8 \<Rightarrow> u32 \<Rightarrow> u32" where
  "narrow k v = (if k = 3 then (if v \<noteq> 0 then 1 else 0) else if k = 4 then scast (ucast v :: u8)
     else if k = 5 then ucast (ucast v :: u16) else if k = 6 then scast (ucast v :: u16) else v)"

lemma access_width_le: "access_width k \<le> 8" "0 < access_width k"
  by (simp_all add: access_width_def)

lemma aget_aput_value:
  assumes "k \<le> 6" "k \<noteq> 1"
  shows "aget_value k (take_bit (8 * access_width k) (aput_value k v)) = narrow k v"
proof -
  have "unat k \<le> 6" using assms(1) by (simp add: word_le_nat_alt)
  then have "unat k \<in> {0, 1, 2, 3, 4, 5, 6}" by auto
  then have "k \<in> {0, 1, 2, 3, 4, 5, 6}" by (auto simp: word_unat_eq_iff)
  moreover have "bit v n \<Longrightarrow> n < 32" for n using bit_imp_le_length [of v n] by simp
  then have "take_bit 32 (ucast v :: u64) = ucast v" by (auto intro!: bit_eqI simp: bit_simps)
  moreover have "take_bit 8 (ucast (ucast v :: u8) :: u64) = ucast (ucast v :: u8)"
      "take_bit 16 (ucast (ucast v :: u16) :: u64) = ucast (ucast v :: u16)"
      "ucast (ucast v :: u64) = v" "ucast (ucast (ucast v :: u8) :: u64) = (ucast v :: u8)"
      "ucast (ucast (ucast v :: u16) :: u64) = (ucast v :: u16)"
      "ucast (ucast (ucast v :: u16) :: u64) = (ucast (ucast v :: u16) :: u32)"
      "take_bit 8 (1 :: u64) = 1"
    by (auto intro!: bit_eqI simp: bit_simps)
  ultimately show ?thesis using assms(2) by (auto simp: aget_value_def aput_value_def access_width_def narrow_def)
qed

lemma elem_room: "arr_ok x w \<Longrightarrow> idx < o_length x \<Longrightarrow> \<exists>bs. o_data x = Some bs \<and> (unat idx + 1) * w \<le> length bs"
proof -
  assume "arr_ok x w" "idx < o_length x"
  then obtain bs where "o_data x = Some bs" "unat (o_length x) * w \<le> length bs" "unat idx + 1 \<le> unat (o_length x)"
    by (auto simp: arr_ok_def word_less_nat_alt)
  then show ?thesis by (meson le_trans mult_le_mono1)
qed

lemma array_check_ok: "arr_ok x w \<Longrightarrow> idx < o_length x \<Longrightarrow> array_check (Some x) idx = None"
  by (simp add: array_check_def arr_ok_def)

text \<open>The registers of an array instruction: the array, the index, and the value.\<close>

definition array_operands :: "u16 \<Rightarrow> u16 list \<Rightarrow> frame \<Rightarrow> u32 \<Rightarrow> u32 \<Rightarrow> bool" where
  "array_operands u0 insns fr ref idx \<longleftrightarrow> (let r = fr_regs fr; b = src_b insns (fr_pc fr); c = src_c insns (fr_pc fr) in
     unat (AA u0) + 1 < length r \<and> b < length r \<and> c < length r \<and> r ! b = ref \<and> r ! c = idx)"

lemma exec_aget_value:
  assumes "heap_ok (vm_heap vm)" "heap_abs (vm_heap vm) ref = Some x" "arr_ok x (access_width (op - 0x44))" "idx < o_length x"
    and "array_operands u0 insns fr ref idx" "data_get (o_data x) (access_width (op - 0x44)) (unat idx) = Some v"
  shows "exec_aget op u0 insns vm fr = Some (next_at 2 vm fr (if op - 0x44 = 1 then set_wide (fr_regs fr) (unat (AA u0)) v
     else (fr_regs fr)[unat (AA u0) := aget_value (op - 0x44) v]))"
  using assms array_check_ok [OF assms(3,4)] dvm__obj_abs [OF assms(1), of ref]
  by (auto simp: exec_aget_def array_operands_def Let_def access_width_def)

lemma exec_aput_stores:
  assumes "heap_ok (vm_heap vm)" "heap_abs (vm_heap vm) ref = Some x" "arr_ok x (access_width (op - 0x4b))" "idx < o_length x"
    and "array_operands u0 insns fr ref idx"
  shows "\<exists>h' bs. exec_aput op u0 insns vm fr = Some (next_at 2 (vm\<lparr>vm_heap := h'\<rparr>) fr (fr_regs fr)) \<and> heap_ok h' \<and>
     heap_abs h' = (heap_abs (vm_heap vm))(ref \<mapsto> x\<lparr>o_data := Some bs\<rparr>) \<and> arr_ok (x\<lparr>o_data := Some bs\<rparr>) (access_width (op - 0x4b)) \<and>
     data_get (Some bs) (access_width (op - 0x4b)) (unat idx) = Some (take_bit (8 * access_width (op - 0x4b))
        (if op - 0x4b = 1 then wide_reg (fr_regs fr) (unat (AA u0)) else aput_value (op - 0x4b) (fr_regs fr ! unat (AA u0)))) \<and>
     (\<forall>j. j \<noteq> unat idx \<longrightarrow> data_get (Some bs) (access_width (op - 0x4b)) j = data_get (o_data x) (access_width (op - 0x4b)) j)"
proof -
  let ?w = "access_width (op - 0x4b)"
  let ?v = "if op - 0x4b = 1 then wide_reg (fr_regs fr) (unat (AA u0)) else aput_value (op - 0x4b) (fr_regs fr ! unat (AA u0))"
  obtain b0 where b0: "o_data x = Some b0" "(unat idx + 1) * ?w \<le> length b0" using elem_room [OF assms(3,4)] by blast
  obtain bs where bs: "data_put (Some b0) ?w (unat idx) ?v = Some bs" "length bs = length b0"
      "data_get (Some bs) ?w (unat idx) = Some (take_bit (8 * ?w) ?v)"
      "\<And>j. j \<noteq> unat idx \<Longrightarrow> data_get (Some bs) ?w j = data_get (Some b0) ?w j"
    by (rule data_put_ok [OF b0(2) access_width_le(1), where v = ?v]) blast
  have live: "o_live (x\<lparr>o_data := Some bs\<rparr>)" using assms(3) by (simp add: arr_ok_def)
  obtain h' where h': "heap_put (vm_heap vm) ref (x\<lparr>o_data := Some bs\<rparr>) = Some h'" "heap_ok h'"
      "heap_abs h' = (heap_abs (vm_heap vm))(ref \<mapsto> x\<lparr>o_data := Some bs\<rparr>)"
    using heap_put_live [OF assms(1,2) live] by blast
  have "exec_aput op u0 insns vm fr = Some (next_at 2 (vm\<lparr>vm_heap := h'\<rparr>) fr (fr_regs fr))"
    using assms(5) array_check_ok [OF assms(3,4)] dvm__obj_abs [OF assms(1), of ref] assms(2) b0(1) bs(1) h'(1)
    by (cases "op - 0x4b = 1") (simp_all add: exec_aput_def array_operands_def Let_def access_width_def)
  moreover have "arr_ok (x\<lparr>o_data := Some bs\<rparr>) ?w" using assms(3) bs(2) b0(1) by (auto simp: arr_ok_def)
  ultimately show ?thesis unfolding b0(1) using h'(2,3) bs(3)
    by (intro exI [of _ h'] exI [of _ bs] conjI allI impI) (assumption | erule bs(4))+
qed


section \<open>What is stored is what is read\<close>

text \<open>
  C27.  Array elements round-trip.  For an array that \<open>dvm_new_array\<close> could have made for the
  width of the instruction and an index inside it, \<open>aput\<close> ends normally with the registers
  unchanged, replaces the bytes of that one element and of no other object, and an \<open>aget\<close> of
  the same kind at that array and index then ends normally with the stored value in the target
  register: the register narrowed to the element type (0 or 1 for \<open>boolean\<close>, sign-extended for
  \<open>byte\<close> and \<open>short\<close>, zero-extended for \<open>char\<close>), or the register pair for \<open>wide\<close>.
\<close>

theorem array_roundtrip:
  assumes "heap_ok (vm_heap vm)" "heap_abs (vm_heap vm) ref = Some x" "arr_ok x (access_width k)" "idx < o_length x"
    and "k \<le> 6" "array_operands u0 insns fr ref idx" "array_operands u0' insns fr' ref idx"
  shows "\<exists>h' bs. exec_aput (0x4b + k) u0 insns vm fr = Some (next_at 2 (vm\<lparr>vm_heap := h'\<rparr>) fr (fr_regs fr)) \<and>
     heap_ok h' \<and> heap_abs h' = (heap_abs (vm_heap vm))(ref \<mapsto> x\<lparr>o_data := Some bs\<rparr>) \<and>
     (\<forall>j. j \<noteq> unat idx \<longrightarrow> data_get (Some bs) (access_width k) j = data_get (o_data x) (access_width k) j) \<and>
     exec_aget (0x44 + k) u0' insns (vm\<lparr>vm_heap := h'\<rparr>) fr' = Some (next_at 2 (vm\<lparr>vm_heap := h'\<rparr>) fr'
       (if k = 1 then set_wide (fr_regs fr') (unat (AA u0')) (wide_reg (fr_regs fr) (unat (AA u0)))
        else (fr_regs fr')[unat (AA u0') := narrow k (fr_regs fr ! unat (AA u0))]))"
proof -
  let ?v = "if k = 1 then wide_reg (fr_regs fr) (unat (AA u0)) else aput_value k (fr_regs fr ! unat (AA u0))"
  have k: "0x4b + k - 0x4b = k" "0x44 + k - 0x44 = k" by simp_all
  obtain h' bs where s: "exec_aput (0x4b + k) u0 insns vm fr = Some (next_at 2 (vm\<lparr>vm_heap := h'\<rparr>) fr (fr_regs fr))"
      "heap_ok h'" "heap_abs h' = (heap_abs (vm_heap vm))(ref \<mapsto> x\<lparr>o_data := Some bs\<rparr>)" "arr_ok (x\<lparr>o_data := Some bs\<rparr>) (access_width k)"
      "data_get (Some bs) (access_width k) (unat idx) = Some (take_bit (8 * access_width k) ?v)"
      "\<forall>j. j \<noteq> unat idx \<longrightarrow> data_get (Some bs) (access_width k) j = data_get (o_data x) (access_width k) j"
    using exec_aput_stores [of vm ref x "0x4b + k" idx u0 insns fr] assms(1-4,6) unfolding k by blast
  have wide: "take_bit (8 * access_width 1) (z :: u64) = z" for z
    by (rule bit_eqI) (simp add: bit_simps access_width_def)
  have "exec_aget (0x44 + k) u0' insns (vm\<lparr>vm_heap := h'\<rparr>) fr' = Some (next_at 2 (vm\<lparr>vm_heap := h'\<rparr>) fr'
       (if k = 1 then set_wide (fr_regs fr') (unat (AA u0')) (take_bit (8 * access_width k) ?v)
        else (fr_regs fr')[unat (AA u0') := aget_value k (take_bit (8 * access_width k) ?v)]))"
    using exec_aget_value [of "vm\<lparr>vm_heap := h'\<rparr>" ref "x\<lparr>o_data := Some bs\<rparr>" "0x44 + k" idx u0' insns fr'
        "take_bit (8 * access_width k) ?v"] s(2-5) assms(4,7) unfolding k by simp
  then have "exec_aget (0x44 + k) u0' insns (vm\<lparr>vm_heap := h'\<rparr>) fr' = Some (next_at 2 (vm\<lparr>vm_heap := h'\<rparr>) fr'
       (if k = 1 then set_wide (fr_regs fr') (unat (AA u0')) (wide_reg (fr_regs fr) (unat (AA u0)))
        else (fr_regs fr')[unat (AA u0') := narrow k (fr_regs fr ! unat (AA u0))]))"
    using wide aget_aput_value [OF assms(5)] by (cases "k = 1") simp_all
  then show ?thesis using s(1-3,6) by blast
qed

text \<open>A heap whose only object is a given one, with reference 1.\<close>

definition heap_of :: "dvm_object \<Rightarrow> dvm_heap" where
  "heap_of x = \<lparr>heap_blocks = [x # replicate 4095 obj_zero], heap_nblocks = 1, heap_size = 1, heap_cap = 4096, free_head = 0\<rparr>"

lemma heap_of_ok: "o_live x \<Longrightarrow> heap_ok (heap_of x)" "o_live x \<Longrightarrow> heap_abs (heap_of x) 1 = Some x"
proof -
  assume x: "o_live x"
  have one: "unat r = 1" if "r \<noteq> 0" "r \<le> 1" for r :: u32
    using that unat_pos [of r] by (simp add: word_le_nat_alt)
  have "heap_dead (heap_of x) = {}" using one x by (force simp: heap_dead_def heap_of_def heap_cells_def)
  then show "heap_ok (heap_of x)"
    unfolding heap_ok_def
    by (intro conjI exI [of _ "[]"])
      (auto simp: heap_of_def heap_shape_def DVM_HEAP_BLOCK_def heap_cells_def nth_Cons split: nat.splits)
  show "heap_abs (heap_of x) 1 = Some x" using x by (simp add: heap_abs_def heap_of_def heap_cells_def)
qed

theorem array_roundtrip_witness:
  "\<forall>vm. \<exists>h'. exec_aput 0x4f 0x004f [0x004f, 0x0201] (vm\<lparr>vm_heap := heap_of (array_object None CHR ''B'' 3)\<rparr>)
       \<lparr>fr_regs = [0x1fe, 1, 2], fr_pc = 0, fr_result = 0\<rparr>
     = Some (Next (vm\<lparr>vm_heap := h'\<rparr>) \<lparr>fr_regs = [0x1fe, 1, 2], fr_pc = 2, fr_result = 0\<rparr>) \<and>
     exec_aget 0x48 0x0048 [0x004f, 0x0201] (vm\<lparr>vm_heap := h'\<rparr>) \<lparr>fr_regs = [7, 1, 2], fr_pc = 0, fr_result = 0\<rparr>
     = Some (Next (vm\<lparr>vm_heap := h'\<rparr>) \<lparr>fr_regs = [0xfffffffe, 1, 2], fr_pc = 2, fr_result = 0\<rparr>)"
proof
  fix vm :: dvm
  let ?x = "array_object None CHR ''B'' 3" and ?fr = "\<lparr>fr_regs = [0x1fe, 1, 2], fr_pc = 0, fr_result = 0\<rparr>"
  have live: "o_live ?x" by (simp add: array_object_def Let_def)
  have w: "arr_ok ?x (access_width 4)" using new_array_arr_ok [of None "CHR ''B''" 3]
    by (simp add: access_width_def dvm__elem_width_def)
  have len: "(2 :: u32) < o_length ?x" by (simp add: array_object_def Let_def)
  have ops: "array_operands 0x004f [0x004f, 0x0201] ?fr 1 2"
      "array_operands 0x0048 [0x004f, 0x0201] (?fr\<lparr>fr_regs := [7, 1, 2]\<rparr>) 1 2"
    by (simp_all add: array_operands_def AA_def src_b_def src_c_def IU_def Let_def)
  show "\<exists>h'. exec_aput 0x4f 0x004f [0x004f, 0x0201] (vm\<lparr>vm_heap := heap_of ?x\<rparr>) ?fr
     = Some (Next (vm\<lparr>vm_heap := h'\<rparr>) \<lparr>fr_regs = [0x1fe, 1, 2], fr_pc = 2, fr_result = 0\<rparr>) \<and>
     exec_aget 0x48 0x0048 [0x004f, 0x0201] (vm\<lparr>vm_heap := h'\<rparr>) \<lparr>fr_regs = [7, 1, 2], fr_pc = 0, fr_result = 0\<rparr>
     = Some (Next (vm\<lparr>vm_heap := h'\<rparr>) \<lparr>fr_regs = [0xfffffffe, 1, 2], fr_pc = 2, fr_result = 0\<rparr>)"
    using array_roundtrip [of "vm\<lparr>vm_heap := heap_of ?x\<rparr>" 1 ?x 4 2, OF _ _ w len _ ops] heap_of_ok [OF live]
    by (auto simp: next_at_def AA_def narrow_def)
qed

end
