(* ===== verification/Dvm_Gil.thy ===== *)
theory Dvm_Gil
  imports Lunaria_Prelude
begin

text \<open>
  The interpreter lock (\<open>dvm_gil_*\<close> in \<open>src/src/dvm/dvm.c\<close>): a recursive lock that is handed to
  its waiters in the order they asked, the per-thread interpreter state it hands over, and
  the channels on which threads sleep without it.

  Each definition is one stretch of code that no other thread can observe half done: the code
  between two points where \<open>g_gil.m\<close> is given up or the thread sleeps.  Where a thread stands
  between two such stretches is its \<open>gpc\<close>.  Recursion depths are natural numbers: each level
  has a C frame of its own.  The ARM execution lock, the timing counters and the reports are
  not part of this state.
\<close>

type_synonym tid = nat
type_synonym channel = nat

section \<open>The state a thread takes along\<close>

record dvm_tstate =
  ts_exception :: u32
  ts_exc_trace :: "nat list"
  ts_nexc_trace :: int
  ts_exc_ref :: u32
  ts_exc_pc :: u32
  ts_cur_thread :: u32
  ts_drain_depth :: int
  ts_quiet_uncaught :: bool
  ts_parked :: bool
  ts_cur_method :: nat
  ts_cur_pc :: u32
  ts_callstack :: "nat list"
  ts_ncallstack :: int
  ts_invoke_frame :: nat
  ts_depth :: int
  ts_call_steps :: u64
  ts_step_limit :: u64

definition CALLSTACK :: nat where "CALLSTACK = 128"

definition tstate_zero :: dvm_tstate where
  "tstate_zero = \<lparr>ts_exception = 0, ts_exc_trace = replicate 16 0, ts_nexc_trace = 0, ts_exc_ref = 0,
     ts_exc_pc = 0, ts_cur_thread = 0, ts_drain_depth = 0, ts_quiet_uncaught = False, ts_parked = False,
     ts_cur_method = 0, ts_cur_pc = 0, ts_callstack = replicate CALLSTACK 0, ts_ncallstack = 0,
     ts_invoke_frame = 0, ts_depth = 0, ts_call_steps = 0, ts_step_limit = 0\<rparr>"

text \<open>The part of the call stack that is copied: \<open>ncallstack\<close> clamped to the array.\<close>

definition live_frames :: "dvm_tstate \<Rightarrow> nat" where
  "live_frames t = (if ts_ncallstack t < 0 then 0
     else if int CALLSTACK < ts_ncallstack t then CALLSTACK else nat (ts_ncallstack t))"

text \<open>
  \<open>TS_COPY\<close> of every field and the live part of the stack; the fields of the VM and the saved
  copy have the same names, so saving and loading are the same copy in two directions.
\<close>

definition ts_copy :: "dvm_tstate \<Rightarrow> dvm_tstate \<Rightarrow> dvm_tstate" where
  "ts_copy dst src = src\<lparr>ts_callstack :=
     take (live_frames src) (ts_callstack src) @ drop (live_frames src) (ts_callstack dst)\<rparr>"

definition dvm__tstate_save :: "dvm_tstate \<Rightarrow> dvm_tstate \<Rightarrow> dvm_tstate" where
  "dvm__tstate_save vm t = ts_copy t vm"

definition dvm__tstate_load :: "dvm_tstate \<Rightarrow> dvm_tstate \<Rightarrow> dvm_tstate" where
  "dvm__tstate_load vm t = ts_copy vm t"

section \<open>The lock\<close>

datatype gpc =
    Running
  | Relock nat
  | Trying nat
  | Waiting nat
  | Granted nat
  | Sleeping nat
  | Pausing nat u64

record event_waiter =
  w_thread :: tid
  w_channel :: channel
  w_ready :: bool

record gil =
  g_depth :: nat
  g_owner :: tid
  g_queue :: "tid list"
  g_waiters :: nat
  t_gil_depth :: "tid \<Rightarrow> nat"
  g_pc :: "tid \<Rightarrow> gpc"
  g_vm :: dvm_tstate
  g_tstate :: "tid \<Rightarrow> dvm_tstate"
  g_tstate_valid :: "tid \<Rightarrow> bool"
  g_event_waiters :: "event_waiter list"
  g_waits :: "tid \<Rightarrow> channel list"
  g_change_seq :: u64
  g_stopping :: bool

definition gil_init :: gil where
  "gil_init = \<lparr>g_depth = 0, g_owner = 0, g_queue = [], g_waiters = 0, t_gil_depth = (\<lambda>t. 0),
     g_pc = (\<lambda>t. Running), g_vm = tstate_zero, g_tstate = (\<lambda>t. tstate_zero),
     g_tstate_valid = (\<lambda>t. False), g_event_waiters = [], g_waits = (\<lambda>t. []), g_change_seq = 0, g_stopping = False\<rparr>"

definition dvm__tstate_reset :: "tid \<Rightarrow> gil \<Rightarrow> gil" where
  "dvm__tstate_reset t g = g\<lparr>g_tstate := (g_tstate g)(t := tstate_zero),
     g_tstate_valid := (g_tstate_valid g)(t := True),
     g_vm := dvm__tstate_load (g_vm g) tstate_zero\<rparr>"

text \<open>What every successful acquire does last: install the state of the thread.\<close>

definition install :: "tid \<Rightarrow> gil \<Rightarrow> gil" where
  "install t g = (if g_tstate_valid g t then g\<lparr>g_vm := dvm__tstate_load (g_vm g) (g_tstate g t)\<rparr>
     else dvm__tstate_reset t g)"

definition take_lock :: "tid \<Rightarrow> nat \<Rightarrow> gil \<Rightarrow> gil" where
  "take_lock t d g = install t (g\<lparr>g_depth := 1, g_owner := t,
     t_gil_depth := (t_gil_depth g)(t := d), g_pc := (g_pc g)(t := Running)\<rparr>)"

definition gil_free :: "gil \<Rightarrow> bool" where "gil_free g \<longleftrightarrow> g_depth g = 0 \<and> g_queue g = []"

text \<open>\<open>gil_tryacquire\<close>; \<open>d\<close> is the depth the caller will hold the lock at (\<open>dvm_gil_relock\<close>).\<close>

definition gil_tryacquire :: "tid \<Rightarrow> nat \<Rightarrow> gil \<Rightarrow> bool \<times> gil" where
  "gil_tryacquire t d g =
     (if 0 < t_gil_depth g t then (True, g\<lparr>t_gil_depth := (t_gil_depth g)(t := t_gil_depth g t + 1)\<rparr>)
      else if gil_free g then (True, take_lock t d g)
      else (False, g))"

text \<open>\<open>dvm_gil_acquire\<close>, in three stretches: the attempt, joining the queue, and waking up.\<close>

definition dvm_gil_acquire :: "tid \<Rightarrow> nat \<Rightarrow> gil \<Rightarrow> gil" where
  "dvm_gil_acquire t d g = (case gil_tryacquire t d g of (got, g') \<Rightarrow>
     if got then g' else g'\<lparr>g_pc := (g_pc g')(t := Trying d)\<rparr>)"

definition gil_enqueue :: "tid \<Rightarrow> nat \<Rightarrow> gil \<Rightarrow> gil" where
  "gil_enqueue t d g = (if gil_free g then take_lock t d g
     else g\<lparr>g_queue := g_queue g @ [t], g_waiters := g_waiters g + 1, g_pc := (g_pc g)(t := Waiting d)\<rparr>)"

definition gil_wake :: "tid \<Rightarrow> nat \<Rightarrow> gil \<Rightarrow> gil" where
  "gil_wake t d g = take_lock t d (g\<lparr>g_waiters := g_waiters g - 1\<rparr>)"

text \<open>The end of \<open>dvm_gil_release\<close>: the lock goes to the first waiter, or becomes free.\<close>

definition grant :: "gpc \<Rightarrow> gpc" where
  "grant p = (case p of Waiting d \<Rightarrow> Granted d | _ \<Rightarrow> p)"

definition hand_over :: "gil \<Rightarrow> gil" where
  "hand_over g = (case g_queue g of [] \<Rightarrow> g\<lparr>g_depth := 0\<rparr>
     | w # ws \<Rightarrow> g\<lparr>g_queue := ws, g_pc := (g_pc g)(w := grant (g_pc g w))\<rparr>)"

definition dvm_gil_release :: "tid \<Rightarrow> gil \<Rightarrow> gil" where
  "dvm_gil_release t g =
     (if t_gil_depth g t = 0 then g
      else let g = g\<lparr>t_gil_depth := (t_gil_depth g)(t := t_gil_depth g t - 1)\<rparr> in
        if 0 < t_gil_depth g t then g
        else hand_over (g\<lparr>g_tstate := (g_tstate g)(t := dvm__tstate_save (g_vm g) (g_tstate g t)),
               g_tstate_valid := (g_tstate_valid g)(t := True)\<rparr>))"

definition dvm_gil_unlock_all :: "tid \<Rightarrow> gil \<Rightarrow> nat \<times> gil" where
  "dvm_gil_unlock_all t g = (let d = t_gil_depth g t in
     (d, if 0 < d then dvm_gil_release t (g\<lparr>t_gil_depth := (t_gil_depth g)(t := 1)\<rparr>) else g))"

definition dvm_gil_relock :: "tid \<Rightarrow> nat \<Rightarrow> gil \<Rightarrow> gil" where
  "dvm_gil_relock t d g = (if d = 0 then g\<lparr>g_pc := (g_pc g)(t := Running)\<rparr> else dvm_gil_acquire t d g)"

text \<open>\<open>dvm_gil_yield\<close> up to the point where it asks for the lock again.\<close>

definition dvm_gil_yield :: "tid \<Rightarrow> gil \<Rightarrow> gil" where
  "dvm_gil_yield t g = (if g_waiters g = 0 then g
     else case dvm_gil_unlock_all t g of (d, g') \<Rightarrow>
       if d = 0 then g' else g'\<lparr>g_pc := (g_pc g')(t := Relock d)\<rparr>)"

text \<open>Entering from guest code: the cookie says whether leaving has to release.\<close>

definition dvm_gil_enter_from_guest :: "tid \<Rightarrow> gil \<Rightarrow> nat \<times> gil" where
  "dvm_gil_enter_from_guest t g =
     (if 0 < t_gil_depth g t then (0, g)
      else case gil_tryacquire t 1 g of (got, g') \<Rightarrow>
        (1, if got then g' else g'\<lparr>g_pc := (g_pc g')(t := Relock 1)\<rparr>))"

definition dvm_gil_leave_to_guest :: "tid \<Rightarrow> nat \<Rightarrow> gil \<Rightarrow> gil" where
  "dvm_gil_leave_to_guest t cookie g = (if cookie = 0 then g else dvm_gil_release t g)"

section \<open>Sleeping on a channel\<close>

text \<open>
  \<open>dvm_gil_wait\<close> and \<open>dvm_gil_wait_for_ns\<close> in three stretches: up to \<open>ui_before_platform_wait\<close>,
  from its return to the sleep, and from the wake-up (a notification, the timeout or a stop) to
  asking for the lock.  \<open>ui_before_platform_wait\<close> may run the main thread's Java code, and it may
  do nothing: between the first two stretches the thread is still running, with the lock, and
  whatever it does there is events of its own (interpretation with another thread state and
  back, notifications, even another wait).  \<open>g_waits\<close> is what its C stack holds meanwhile: the
  channels of the waits it has begun and not yet gone to sleep in.  Channel 0 is the sequence
  number that every \<open>dvm_gil_notify\<close> advances.
\<close>

definition begin_wait :: "tid \<Rightarrow> channel \<Rightarrow> gil \<Rightarrow> gil" where
  "begin_wait t ch g = g\<lparr>g_waits := (g_waits g)(t := ch # g_waits g t)\<rparr>"

definition dvm_gil_wait :: "tid \<Rightarrow> gil \<Rightarrow> gil" where
  "dvm_gil_wait t g = (if g_stopping g then g else begin_wait t 0 g)"

definition dvm_gil_wait_for_ns :: "tid \<Rightarrow> channel \<Rightarrow> gil \<Rightarrow> gil" where
  "dvm_gil_wait_for_ns t ch g =
     (if g_stopping g then g
      else begin_wait t ch
        (g\<lparr>g_event_waiters := \<lparr>w_thread = t, w_channel = ch, w_ready = False\<rparr> # g_event_waiters g\<rparr>))"

definition gil_sleep :: "tid \<Rightarrow> gil \<Rightarrow> gil option" where
  "gil_sleep t g = (case g_waits g t of [] \<Rightarrow> None
     | ch # chs \<Rightarrow>
         (case dvm_gil_unlock_all t (g\<lparr>g_waits := (g_waits g)(t := chs)\<rparr>) of (d, g') \<Rightarrow>
            Some (g'\<lparr>g_pc := (g_pc g')(t := if ch = 0 then Pausing d (g_change_seq g) else Sleeping d)\<rparr>)))"

definition dvm_gil_wait_for :: "tid \<Rightarrow> channel \<Rightarrow> gil \<Rightarrow> gil" where
  "dvm_gil_wait_for t ch g = (if ch = 0 then dvm_gil_wait t g else dvm_gil_wait_for_ns t ch g)"

primrec remove_waiter :: "tid \<Rightarrow> event_waiter list \<Rightarrow> event_waiter list" where
  "remove_waiter t [] = []"
| "remove_waiter t (w # ws) = (if w_thread w = t then ws else w # remove_waiter t ws)"

definition gil_awake :: "tid \<Rightarrow> nat \<Rightarrow> gil \<Rightarrow> gil" where
  "gil_awake t d g = g\<lparr>g_event_waiters := remove_waiter t (g_event_waiters g), g_pc := (g_pc g)(t := Relock d)\<rparr>"

text \<open>The flag of the waiter a thread registered last.\<close>

primrec waiter_ready :: "tid \<Rightarrow> event_waiter list \<Rightarrow> bool" where
  "waiter_ready t [] = False"
| "waiter_ready t (w # ws) = (if w_thread w = t then w_ready w else waiter_ready t ws)"

primrec mark_all :: "channel \<Rightarrow> event_waiter list \<Rightarrow> event_waiter list" where
  "mark_all ch [] = []"
| "mark_all ch (w # ws) = (if w_channel w \<noteq> ch then w else w\<lparr>w_ready := True\<rparr>) # mark_all ch ws"

primrec mark_one :: "channel \<Rightarrow> event_waiter list \<Rightarrow> event_waiter list" where
  "mark_one ch [] = []"
| "mark_one ch (w # ws) = (if w_channel w \<noteq> ch then w # mark_one ch ws else w\<lparr>w_ready := True\<rparr> # ws)"

definition dvm_gil_notify :: "gil \<Rightarrow> gil" where
  "dvm_gil_notify g = g\<lparr>g_change_seq := g_change_seq g + 1\<rparr>"

definition dvm_gil_notify_for :: "channel \<Rightarrow> gil \<Rightarrow> gil" where
  "dvm_gil_notify_for ch g = (if ch = 0 then dvm_gil_notify g
     else g\<lparr>g_event_waiters := mark_all ch (g_event_waiters g)\<rparr>)"

definition dvm_gil_notify_one_for :: "channel \<Rightarrow> gil \<Rightarrow> gil" where
  "dvm_gil_notify_one_for ch g = (if ch = 0 then dvm_gil_notify g
     else g\<lparr>g_event_waiters := mark_one ch (g_event_waiters g)\<rparr>)"

definition dvm_request_stop :: "gil \<Rightarrow> gil" where
  "dvm_request_stop g = g\<lparr>g_stopping := True, g_change_seq := g_change_seq g + 1,
     g_event_waiters := map (\<lambda>w. w\<lparr>w_ready := True\<rparr>) (g_event_waiters g)\<rparr>"

section \<open>Interleavings\<close>

text \<open>
  What a thread may do next.  \<open>Work\<close> is a stretch of interpretation, which changes the
  thread fields of the VM in any way; it needs the lock, as does everything that reads them.
\<close>

datatype gil_event =
    Acquire
  | EnterGuest
  | Again
  | Release
  | Yield
  | Work dvm_tstate
  | WaitOn channel
  | GoToSleep
  | TimeOut
  | Notify channel
  | NotifyOne channel
  | Stop

definition gil_exec :: "tid \<Rightarrow> gil_event \<Rightarrow> gil \<Rightarrow> gil option" where
  "gil_exec t e g = (case g_pc g t of
     Running \<Rightarrow> (case e of
         Acquire \<Rightarrow> Some (dvm_gil_acquire t 1 g)
       | EnterGuest \<Rightarrow> Some (snd (dvm_gil_enter_from_guest t g))
       | Release \<Rightarrow> Some (dvm_gil_release t g)
       | Yield \<Rightarrow> Some (dvm_gil_yield t g)
       | Work v \<Rightarrow> if 0 < t_gil_depth g t \<and> length (ts_callstack v) = CALLSTACK then Some (g\<lparr>g_vm := v\<rparr>) else None
       | WaitOn ch \<Rightarrow> if 0 < t_gil_depth g t then Some (dvm_gil_wait_for t ch g) else None
       | GoToSleep \<Rightarrow> if 0 < t_gil_depth g t then gil_sleep t g else None
       | Notify ch \<Rightarrow> Some (dvm_gil_notify_for ch g)
       | NotifyOne ch \<Rightarrow> Some (dvm_gil_notify_one_for ch g)
       | Stop \<Rightarrow> Some (dvm_request_stop g)
       | _ \<Rightarrow> None)
   | Relock d \<Rightarrow> if e = Again then Some (dvm_gil_relock t d g) else None
   | Trying d \<Rightarrow> if e = Again then Some (gil_enqueue t d g) else None
   | Granted d \<Rightarrow> if e = Again then Some (gil_wake t d g) else None
   | Sleeping d \<Rightarrow>
       if e = TimeOut \<or> e = Again \<and> (g_stopping g \<or> waiter_ready t (g_event_waiters g))
       then Some (gil_awake t d g) else None
   | Pausing d seen \<Rightarrow>
       if e = TimeOut \<or> e = Again \<and> (g_stopping g \<or> g_change_seq g \<noteq> seen)
       then Some (g\<lparr>g_pc := (g_pc g)(t := Relock d)\<rparr>) else None
   | Waiting d \<Rightarrow> None)"

fun gil_run :: "(tid \<times> gil_event) list \<Rightarrow> gil \<Rightarrow> gil option" where
  "gil_run [] g = Some g"
| "gil_run ((t, e) # es) g = do { g \<leftarrow> gil_exec t e g; gil_run es g }"

inductive gil_reachable :: "gil \<Rightarrow> bool" where
  gil_start: "gil_reachable gil_init"
| gil_step: "gil_reachable g \<Longrightarrow> gil_exec t e g = Some g' \<Longrightarrow> gil_reachable g'"

section \<open>Mutual exclusion\<close>

fun granted :: "gpc \<Rightarrow> bool" where
  "granted (Granted d) = True"
| "granted p = False"

fun waits :: "gpc \<Rightarrow> bool" where
  "waits (Waiting d) = True"
| "waits p = False"

fun pending_depth :: "gpc \<Rightarrow> nat" where
  "pending_depth Running = 1"
| "pending_depth (Relock d) = d"
| "pending_depth (Trying d) = d"
| "pending_depth (Waiting d) = d"
| "pending_depth (Granted d) = d"
| "pending_depth (Sleeping d) = d"
| "pending_depth (Pausing d s) = d"

definition entitled :: "gil \<Rightarrow> tid \<Rightarrow> bool" where
  "entitled g t \<longleftrightarrow> 0 < t_gil_depth g t \<or> granted (g_pc g t)"

text \<open>The lock belongs to \<open>h\<close>: it holds it, or it has been handed it and not woken up yet.\<close>

definition gil_inv :: "gil \<Rightarrow> tid option \<Rightarrow> bool" where
  "gil_inv g h \<longleftrightarrow> (\<forall>t. entitled g t \<longleftrightarrow> h = Some t) \<and> (\<forall>t. 0 < t_gil_depth g t \<longrightarrow> g_pc g t = Running) \<and>
     g_depth g = (if h = None then 0 else 1) \<and> (h = None \<longrightarrow> g_queue g = []) \<and>
     distinct (g_queue g) \<and> (\<forall>t. t \<in> set (g_queue g) \<longleftrightarrow> waits (g_pc g t)) \<and>
     (\<forall>t. 0 < pending_depth (g_pc g t))"

definition gil_ok :: "gil \<Rightarrow> bool" where "gil_ok g \<longleftrightarrow> (\<exists>h. gil_inv g h)"

lemma gil_invD:
  assumes "gil_inv g h"
  shows "entitled g t \<longleftrightarrow> h = Some t" "0 < t_gil_depth g t \<Longrightarrow> g_pc g t = Running"
    "g_depth g = (if h = None then 0 else 1)" "h = None \<Longrightarrow> g_queue g = []" "distinct (g_queue g)"
    "t \<in> set (g_queue g) \<longleftrightarrow> waits (g_pc g t)" "0 < pending_depth (g_pc g t)"
  using assms by (auto simp: gil_inv_def)

lemma install_sel [simp]:
  "g_depth (install t g) = g_depth g" "g_owner (install t g) = g_owner g" "g_queue (install t g) = g_queue g"
  "g_waiters (install t g) = g_waiters g" "t_gil_depth (install t g) = t_gil_depth g" "g_pc (install t g) = g_pc g"
  by (auto simp: install_def dvm__tstate_reset_def)

lemma take_lock_inv:
  assumes "gil_inv g h" "h = None \<or> h = Some t" "t_gil_depth g t = 0" "\<not> waits (g_pc g t)" "0 < d"
  shows "gil_inv (take_lock t d (g\<lparr>g_waiters := n\<rparr>)) (Some t)"
proof -
  have *: "\<And>u. u \<noteq> t \<Longrightarrow> \<not> entitled g u" using gil_invD(1) [OF assms(1)] assms(2) by auto
  show ?thesis
    using assms * gil_invD [OF assms(1)]
    by (auto simp: gil_inv_def take_lock_def entitled_def)
qed


lemma take_lock_inv0:
  assumes "gil_inv g h" "h = None \<or> h = Some t" "t_gil_depth g t = 0" "\<not> waits (g_pc g t)" "0 < d"
  shows "gil_inv (take_lock t d g) (Some t)"
  using take_lock_inv [OF assms, of "g_waiters g"] by simp

lemma gil_free_None: "gil_inv g h \<Longrightarrow> gil_free g \<Longrightarrow> h = None"
  by (auto simp: gil_free_def gil_inv_def split: if_splits)

lemma free_take_inv:
  assumes "gil_inv g h" "gil_free g" "\<not> waits (g_pc g t)" "0 < d"
  shows "gil_inv (take_lock t d g) (Some t)"
proof -
  have "h = None" by (rule gil_free_None [OF assms(1,2)])
  moreover have "t_gil_depth g t = 0" using gil_invD(1) [OF assms(1), of t] \<open>h = None\<close> by (auto simp: entitled_def)
  ultimately show ?thesis using take_lock_inv0 [OF assms(1) _ _ assms(3,4)] by simp
qed

text \<open>Only the position of a thread that is not entitled and not queued changes.\<close>

lemma set_pc_inv:
  assumes "gil_inv g h" "t_gil_depth g t = 0" "\<not> granted (g_pc g t)" "\<not> waits (g_pc g t)"
    and "\<not> granted p" "\<not> waits p" "0 < pending_depth p"
  shows "gil_inv (g\<lparr>g_pc := (g_pc g)(t := p)\<rparr>) h"
  using assms by (auto simp: gil_inv_def entitled_def)

lemma enqueue_inv:
  assumes "gil_inv g h" "h \<noteq> None" "t_gil_depth g t = 0" "\<not> granted (g_pc g t)" "\<not> waits (g_pc g t)" "0 < d"
  shows "gil_inv (g\<lparr>g_queue := g_queue g @ [t], g_waiters := n, g_pc := (g_pc g)(t := Waiting d)\<rparr>) h"
proof -
  have "h \<noteq> Some t" using gil_invD(1) [OF assms(1), of t] assms(3,4) by (simp add: entitled_def)
  then show ?thesis using assms by (auto simp: gil_inv_def entitled_def)
qed

lemma nest_inv:
  assumes "gil_inv g h" "0 < t_gil_depth g t" "0 < n"
  shows "gil_inv (g\<lparr>t_gil_depth := (t_gil_depth g)(t := n)\<rparr>) h"
  using assms by (auto simp: gil_inv_def entitled_def)

definition holder_leaves :: "tid \<Rightarrow> gil \<Rightarrow> gil" where
  "holder_leaves t g = hand_over (g\<lparr>t_gil_depth := (t_gil_depth g)(t := 0),
     g_tstate := (g_tstate g)(t := dvm__tstate_save (g_vm g) (g_tstate g t)),
     g_tstate_valid := (g_tstate_valid g)(t := True)\<rparr>)"

lemma release_cases:
  "t_gil_depth g t = 0 \<Longrightarrow> dvm_gil_release t g = g"
  "t_gil_depth g t = 1 \<Longrightarrow> dvm_gil_release t g = holder_leaves t g"
  "1 < t_gil_depth g t \<Longrightarrow> dvm_gil_release t g = g\<lparr>t_gil_depth := (t_gil_depth g)(t := t_gil_depth g t - 1)\<rparr>"
  by (auto simp: dvm_gil_release_def holder_leaves_def Let_def)

lemma unlock_all_cases:
  "t_gil_depth g t = 0 \<Longrightarrow> dvm_gil_unlock_all t g = (0, g)"
  "0 < t_gil_depth g t \<Longrightarrow> dvm_gil_unlock_all t g = (t_gil_depth g t, holder_leaves t g)"
  by (auto simp: dvm_gil_unlock_all_def release_cases(2) holder_leaves_def fun_upd_idem)

lemma holder_leaves_inv:
  assumes "gil_inv g (Some t)" "0 < t_gil_depth g t"
  shows "gil_ok (holder_leaves t g)" "t_gil_depth (holder_leaves t g) t = 0"
    "g_pc (holder_leaves t g) t = Running"
proof -
  have run: "g_pc g t = Running" using gil_invD(2) [OF assms] .
  have others: "\<And>u. u \<noteq> t \<Longrightarrow> \<not> entitled g u" using gil_invD(1) [OF assms(1)] by auto
  have nq: "t \<notin> set (g_queue g)" using gil_invD(6) [OF assms(1), of t] run by simp
  show "t_gil_depth (holder_leaves t g) t = 0" "g_pc (holder_leaves t g) t = Running"
    using run nq by (auto simp: holder_leaves_def hand_over_def split: list.splits)
  show "gil_ok (holder_leaves t g)"
  proof (cases "g_queue g")
    case Nil
    have "gil_inv (holder_leaves t g) None"
      using assms others run Nil by (auto simp: gil_inv_def entitled_def holder_leaves_def hand_over_def)
    then show ?thesis by (auto simp: gil_ok_def)
  next
    case (Cons w ws)
    have pcw: "waits (g_pc g w)" using gil_invD(6) [OF assms(1), of w] Cons by simp
    then obtain d where d: "g_pc g w = Waiting d" by (cases "g_pc g w") auto
    have "0 < d" using gil_invD(7) [OF assms(1), of w] d by simp
    then have "gil_inv (holder_leaves t g) (Some w)"
      using assms others run d Cons nq
      by (auto simp: gil_inv_def entitled_def holder_leaves_def hand_over_def grant_def)
    then show ?thesis by (auto simp: gil_ok_def)
  qed
qed


lemma gil_inv_irrelevant [simp]:
  "gil_inv (g\<lparr>g_vm := v\<rparr>) h = gil_inv g h" "gil_inv (g\<lparr>g_event_waiters := ws\<rparr>) h = gil_inv g h"
  "gil_inv (g\<lparr>g_change_seq := s\<rparr>) h = gil_inv g h" "gil_inv (g\<lparr>g_waits := fs\<rparr>) h = gil_inv g h"
  "gil_inv (g\<lparr>g_stopping := b\<rparr>) h = gil_inv g h"
  by (simp_all add: gil_inv_def entitled_def)

lemma tryacquire_inv:
  assumes "gil_inv g h" "\<not> granted (g_pc g t)" "\<not> waits (g_pc g t)" "0 < d"
  shows "case gil_tryacquire t d g of (got, g') \<Rightarrow> if got then gil_ok g' else g' = g \<and> t_gil_depth g t = 0"
proof (cases "0 < t_gil_depth g t")
  case True
  then show ?thesis using nest_inv [OF assms(1) True, of "t_gil_depth g t + 1"]
    by (auto simp: gil_tryacquire_def gil_ok_def)
next
  case False
  then show ?thesis using free_take_inv [OF assms(1) _ assms(3,4)] by (auto simp: gil_tryacquire_def gil_ok_def)
qed

lemma acquire_ok:
  assumes "gil_inv g h" "\<not> granted (g_pc g t)" "\<not> waits (g_pc g t)" "0 < d"
  shows "gil_ok (dvm_gil_acquire t d g)"
proof (cases "gil_tryacquire t d g")
  case (Pair got g')
  then show ?thesis
    using tryacquire_inv [OF assms] set_pc_inv [OF assms(1) _ assms(2,3), of "Trying d"] assms(4)
    by (cases got) (auto simp: dvm_gil_acquire_def gil_ok_def)
qed

lemma enter_from_guest_ok:
  assumes "gil_inv g h" "\<not> granted (g_pc g t)" "\<not> waits (g_pc g t)"
  shows "gil_ok (snd (dvm_gil_enter_from_guest t g))"
proof (cases "gil_tryacquire t 1 g")
  case (Pair got g')
  then show ?thesis
    using tryacquire_inv [OF assms, of 1] set_pc_inv [OF assms(1) _ assms(2,3), of "Relock 1"] assms(1)
    by (cases got) (auto simp: dvm_gil_enter_from_guest_def gil_ok_def)
qed

lemma release_ok:
  assumes "gil_inv g h"
  shows "gil_ok (dvm_gil_release t g)"
proof -
  consider "t_gil_depth g t = 0" | "t_gil_depth g t = 1" | "1 < t_gil_depth g t" by linarith
  then show ?thesis
  proof cases
    case 1
    then show ?thesis using assms by (auto simp: release_cases gil_ok_def)
  next
    case 2
    moreover have "h = Some t" using gil_invD(1) [OF assms, of t] 2 by (simp add: entitled_def)
    ultimately show ?thesis using holder_leaves_inv(1) [of g t] assms by (simp add: release_cases)
  next
    case 3
    then show ?thesis using nest_inv [OF assms, of t "t_gil_depth g t - 1"] by (auto simp: release_cases gil_ok_def)
  qed
qed

text \<open>Giving the lock up completely and standing somewhere outside it.\<close>

lemma leave_to_ok:
  assumes "gil_inv g h" "0 < t_gil_depth g t" "\<not> granted p" "\<not> waits p" "0 < pending_depth p"
  shows "gil_ok ((holder_leaves t g)\<lparr>g_pc := (g_pc (holder_leaves t g))(t := p)\<rparr>)"
proof -
  have "h = Some t" using gil_invD(1) [OF assms(1), of t] assms(2) by (simp add: entitled_def)
  then obtain h' where "gil_inv (holder_leaves t g) h'"
    using holder_leaves_inv(1) [of g t] assms(1,2) by (auto simp: gil_ok_def)
  then have "gil_inv ((holder_leaves t g)\<lparr>g_pc := (g_pc (holder_leaves t g))(t := p)\<rparr>) h'"
    using holder_leaves_inv(2,3) [of g t] \<open>h = Some t\<close> assms by (intro set_pc_inv) auto
  then show ?thesis by (auto simp: gil_ok_def)
qed

lemma wait_for_inv: "gil_inv (dvm_gil_wait_for t ch g) h = gil_inv g h"
  by (simp add: dvm_gil_wait_for_def dvm_gil_wait_def dvm_gil_wait_for_ns_def begin_wait_def)

lemma sleep_ok:
  assumes "gil_inv g h" "0 < t_gil_depth g t" "gil_sleep t g = Some g'"
  shows "gil_ok g'"
proof -
  obtain ch chs where w: "g_waits g t = ch # chs" using assms(3) by (auto simp: gil_sleep_def split: list.splits)
  define g1 where "g1 = g\<lparr>g_waits := (g_waits g)(t := chs)\<rparr>"
  have g1: "gil_inv g1 h" "0 < t_gil_depth g1 t" "t_gil_depth g1 = t_gil_depth g" using assms by (simp_all add: g1_def)
  show ?thesis
    using assms(3) w leave_to_ok [OF g1(1,2), of "Sleeping (t_gil_depth g1 t)"]
      leave_to_ok [OF g1(1,2), of "Pausing (t_gil_depth g1 t) (g_change_seq g)"] g1(2,3)
    by (auto simp: gil_sleep_def unlock_all_cases g1_def [symmetric] split: if_splits)
qed

lemma yield_ok:
  assumes "gil_inv g h"
  shows "gil_ok (dvm_gil_yield t g)"
  using assms leave_to_ok [OF assms, of t "Relock (t_gil_depth g t)"]
  by (cases "0 < t_gil_depth g t") (auto simp: dvm_gil_yield_def unlock_all_cases gil_ok_def)


lemma gil_exec_ok:
  assumes "gil_ok g" "gil_exec t e g = Some g'"
  shows "gil_ok g'"
proof -
  obtain h where inv: "gil_inv g h" using assms(1) by (auto simp: gil_ok_def)
  note gil_invD(7) [OF inv, of t] gil_invD(2) [OF inv, of t]
  note pos = this
  show ?thesis
  proof (cases "g_pc g t")
    case Running
    then have "g' = dvm_gil_acquire t 1 g \<or> g' = snd (dvm_gil_enter_from_guest t g) \<or> g' = dvm_gil_release t g \<or>
        g' = dvm_gil_yield t g \<or> (\<exists>v. g' = g\<lparr>g_vm := v\<rparr>) \<or> (\<exists>ch. g' = dvm_gil_wait_for t ch g) \<or> (0 < t_gil_depth g t \<and> gil_sleep t g = Some g') \<or>
        (\<exists>ch. g' = dvm_gil_notify_for ch g) \<or> (\<exists>ch. g' = dvm_gil_notify_one_for ch g) \<or> g' = dvm_request_stop g"
      using assms(2) by (auto simp: gil_exec_def split: gil_event.splits if_splits)
    moreover have "gil_inv (dvm_gil_notify_for ch g) h" "gil_inv (dvm_gil_notify_one_for ch g) h"
        "gil_inv (dvm_request_stop g) h" for ch
      using inv by (auto simp: dvm_gil_notify_for_def dvm_gil_notify_one_for_def dvm_gil_notify_def dvm_request_stop_def)
    ultimately show ?thesis
      using acquire_ok [OF inv, of t 1] enter_from_guest_ok [OF inv, of t] release_ok [OF inv, of t]
        yield_ok [OF inv, of t] wait_for_inv [of t] sleep_ok [OF inv, of t g'] inv Running
      by (auto simp: gil_ok_def)
  next
    case (Relock d)
    then show ?thesis using assms(2) pos acquire_ok [OF inv, of t d]
      by (auto simp: gil_exec_def dvm_gil_relock_def split: if_splits)
  next
    case (Trying d)
    have "t_gil_depth g t = 0" using pos(2) Trying by fastforce
    then show ?thesis
      using assms(2) pos Trying free_take_inv [OF inv, of t d] enqueue_inv [OF inv, of t d "g_waiters g + 1"]
        gil_invD(3,4) [OF inv]
      by (fastforce simp: gil_exec_def gil_enqueue_def gil_ok_def gil_free_def split: if_splits)
  next
    case (Granted d)
    have "h = Some t" using gil_invD(1) [OF inv, of t] Granted by (simp add: entitled_def)
    moreover have "t_gil_depth g t = 0" using pos(2) Granted by fastforce
    ultimately show ?thesis
      using assms(2) pos Granted take_lock_inv [OF inv, of t d "g_waiters g - 1"]
      by (auto simp: gil_exec_def gil_wake_def gil_ok_def split: if_splits)
  next
    case (Sleeping d)
    have "t_gil_depth g t = 0" using pos(2) Sleeping by fastforce
    moreover have "gil_inv (g\<lparr>g_event_waiters := remove_waiter t (g_event_waiters g)\<rparr>) h" using inv by simp
    ultimately have "gil_inv (gil_awake t d g) h"
      using pos Sleeping set_pc_inv [where g = "g\<lparr>g_event_waiters := remove_waiter t (g_event_waiters g)\<rparr>" and p = "Relock d"]
      by (simp add: gil_awake_def)
    then show ?thesis using assms(2) Sleeping by (auto simp: gil_exec_def gil_ok_def split: if_splits)
  next
    case (Pausing d s)
    have "t_gil_depth g t = 0" using pos(2) Pausing by fastforce
    then have "gil_inv (g\<lparr>g_pc := (g_pc g)(t := Relock d)\<rparr>) h"
      using pos Pausing set_pc_inv [OF inv, of t "Relock d"] by simp
    then show ?thesis using assms(2) Pausing by (auto simp: gil_exec_def gil_ok_def split: if_splits)
  next
    case (Waiting d)
    then show ?thesis using assms(2) by (simp add: gil_exec_def)
  qed
qed

lemma gil_init_ok: "gil_ok gil_init"
proof -
  have "gil_inv gil_init None" by (simp add: gil_inv_def gil_init_def entitled_def)
  then show ?thesis by (auto simp: gil_ok_def)
qed

lemma gil_reachable_ok: "gil_reachable g \<Longrightarrow> gil_ok g"
  by (induction rule: gil_reachable.induct) (auto intro: gil_init_ok gil_exec_ok)

lemma gil_run_reachable: "gil_run es g = Some g' \<Longrightarrow> gil_reachable g \<Longrightarrow> gil_reachable g'"
  by (induction es g rule: gil_run.induct) (auto split: bind_splits intro: gil_step)


section \<open>The order in which the lock is handed out\<close>

text \<open>The threads that join the queue, and those that are handed the lock, along a run.\<close>

definition joins :: "tid \<Rightarrow> gil \<Rightarrow> gil \<Rightarrow> tid list" where
  "joins t g g' = (if waits (g_pc g' t) \<and> \<not> waits (g_pc g t) then [t] else [])"

definition handed :: "gil \<Rightarrow> gil \<Rightarrow> tid list" where
  "handed g g' = filter (\<lambda>w. granted (g_pc g' w)) (g_queue g)"

fun joined_in :: "(tid \<times> gil_event) list \<Rightarrow> gil \<Rightarrow> tid list" where
  "joined_in [] g = []"
| "joined_in ((t, e) # es) g = (case gil_exec t e g of None \<Rightarrow> [] | Some g' \<Rightarrow> joins t g g' @ joined_in es g')"

fun handed_in :: "(tid \<times> gil_event) list \<Rightarrow> gil \<Rightarrow> tid list" where
  "handed_in [] g = []"
| "handed_in ((t, e) # es) g = (case gil_exec t e g of None \<Rightarrow> [] | Some g' \<Rightarrow> handed g g' @ handed_in es g')"

definition fifo_step :: "tid \<Rightarrow> gil \<Rightarrow> gil \<Rightarrow> bool" where
  "fifo_step t g g' \<longleftrightarrow> g_queue g @ joins t g g' = handed g g' @ g_queue g'"

lemma queue_not_granted: "gil_inv g h \<Longrightarrow> filter (\<lambda>w. granted (g_pc g w)) (g_queue g) = []"
  using gil_invD(6) [of g h] by (auto simp: filter_empty_conv) (metis granted.simps waits.elims(2))

lemma fifo_same:
  assumes "gil_inv g h" "g_queue g' = g_queue g" "\<And>u. u \<noteq> t \<Longrightarrow> g_pc g' u = g_pc g u"
    and "\<not> waits (g_pc g t)" "\<not> waits (g_pc g' t)"
  shows "fifo_step t g g'"
proof -
  have "t \<notin> set (g_queue g)" using gil_invD(6) [OF assms(1)] assms(4) by simp
  then have "g_pc g' w = g_pc g w" if "w \<in> set (g_queue g)" for w using assms(3) that by metis
  then have "filter (\<lambda>w. granted (g_pc g' w)) (g_queue g) = filter (\<lambda>w. granted (g_pc g w)) (g_queue g)"
    by (intro filter_cong) auto
  then show ?thesis using queue_not_granted [OF assms(1)] assms(2,5) by (simp add: fifo_step_def joins_def handed_def)
qed

lemma fifo_take:
  assumes "gil_inv g h" "\<not> waits (g_pc g t)"
  shows "fifo_step t g (take_lock t d (g\<lparr>g_waiters := n\<rparr>))"
  using assms by (intro fifo_same [OF assms(1)]) (auto simp: take_lock_def)

lemma fifo_take0: "gil_inv g h \<Longrightarrow> \<not> waits (g_pc g t) \<Longrightarrow> fifo_step t g (take_lock t d g)"
  using fifo_take [of g h t d "g_waiters g"] by simp

text \<open>The holder leaves: the head of the queue is handed the lock.\<close>

lemma fifo_leave:
  assumes "gil_inv g (Some t)" "0 < t_gil_depth g t" "\<not> waits p"
    and "g_queue g' = g_queue (holder_leaves t g)" "g_pc g' = (g_pc (holder_leaves t g))(t := p)"
  shows "fifo_step t g g'"
proof -
  have run: "g_pc g t = Running" using gil_invD(2) [OF assms(1,2)] .
  have nq: "t \<notin> set (g_queue g)" using gil_invD(6) [OF assms(1), of t] run by simp
  show ?thesis
  proof (cases "g_queue g")
    case Nil
    then show ?thesis
      using run assms by (auto simp: fifo_step_def joins_def handed_def holder_leaves_def hand_over_def)
  next
    case (Cons w ws)
    have "w \<noteq> t" "t \<notin> set ws" using nq Cons by auto
    obtain d where d: "g_pc g w = Waiting d"
      using gil_invD(6) [OF assms(1), of w] Cons by (cases "g_pc g w") auto
    have "w \<notin> set ws" using gil_invD(5) [OF assms(1)] Cons by simp
    then have "filter (\<lambda>u. granted (g_pc g' u)) ws = filter (\<lambda>u. granted (g_pc g u)) ws"
      using assms(5) \<open>t \<notin> set ws\<close> Cons by (intro filter_cong) (auto simp: holder_leaves_def hand_over_def)
    moreover have "filter (\<lambda>u. granted (g_pc g u)) ws = []" using queue_not_granted [OF assms(1)] Cons by (simp split: if_splits)
    ultimately show ?thesis
      using run assms Cons d \<open>w \<noteq> t\<close> by (simp add: fifo_step_def joins_def handed_def holder_leaves_def hand_over_def grant_def)
  qed
qed


text \<open>
  Every step is of one of five kinds: it leaves the lock alone, interprets, takes the lock,
  gives it up, or joins the queue.
\<close>

definition keeps_lock :: "tid \<Rightarrow> gil \<Rightarrow> gil \<Rightarrow> bool" where
  "keeps_lock t g g' \<longleftrightarrow> g_queue g' = g_queue g \<and> (\<forall>u. u \<noteq> t \<longrightarrow> g_pc g' u = g_pc g u \<and> t_gil_depth g' u = t_gil_depth g u) \<and>
     \<not> waits (g_pc g t) \<and> \<not> waits (g_pc g' t) \<and> (0 < t_gil_depth g' t \<longleftrightarrow> 0 < t_gil_depth g t) \<and>
     g_vm g' = g_vm g \<and> g_tstate g' = g_tstate g \<and> g_tstate_valid g' = g_tstate_valid g"

definition takes_lock :: "tid \<Rightarrow> gil \<Rightarrow> gil \<Rightarrow> bool" where
  "takes_lock t g g' \<longleftrightarrow> t_gil_depth g t = 0 \<and> \<not> waits (g_pc g t) \<and> (gil_free g \<or> granted (g_pc g t)) \<and>
     (\<exists>d n. g' = take_lock t d (g\<lparr>g_waiters := n\<rparr>) \<and> 0 < d)"

definition leaves_lock :: "tid \<Rightarrow> gil \<Rightarrow> gil \<Rightarrow> bool" where
  "leaves_lock t g g' \<longleftrightarrow> 0 < t_gil_depth g t \<and> (\<exists>p ws. \<not> waits p \<and>
     g' = (holder_leaves t (g\<lparr>g_waits := ws\<rparr>))\<lparr>g_pc := (g_pc (holder_leaves t g))(t := p)\<rparr>)"

definition joins_queue :: "tid \<Rightarrow> gil \<Rightarrow> gil \<Rightarrow> bool" where
  "joins_queue t g g' \<longleftrightarrow> t_gil_depth g t = 0 \<and> \<not> waits (g_pc g t) \<and>
     (\<exists>d. g' = g\<lparr>g_queue := g_queue g @ [t], g_waiters := g_waiters g + 1, g_pc := (g_pc g)(t := Waiting d)\<rparr>)"

lemma holder_leaves_waiters:
  "holder_leaves t (g\<lparr>g_waits := ws\<rparr>) = (holder_leaves t g)\<lparr>g_waits := ws\<rparr>"
  by (simp add: holder_leaves_def hand_over_def split: list.split)

lemma pc_idem: "g_pc g t = p \<Longrightarrow> g\<lparr>g_pc := (g_pc g)(t := p)\<rparr> = g"
  by (cases g) (simp add: fun_upd_idem)

lemma acquire_kind:
  assumes "\<not> granted (g_pc g t)" "\<not> waits (g_pc g t)" "0 < d"
  shows "case gil_tryacquire t d g of (got, g') \<Rightarrow> if got then keeps_lock t g g' \<or> takes_lock t g g' else g' = g"
proof (cases "0 < t_gil_depth g t \<or> \<not> gil_free g")
  case True
  then show ?thesis using assms by (auto simp: gil_tryacquire_def keeps_lock_def)
next
  case False
  then have "takes_lock t g (take_lock t d (g\<lparr>g_waiters := g_waiters g\<rparr>))"
    unfolding takes_lock_def using assms by (intro conjI exI [of _ d] exI [of _ "g_waiters g"]) auto
  then show ?thesis using False by (simp add: gil_tryacquire_def)
qed

lemma leave_kind:
  assumes "0 < t_gil_depth g t" "\<not> waits p"
  shows "leaves_lock t g ((holder_leaves t (g\<lparr>g_waits := ws\<rparr>))\<lparr>g_pc := (g_pc (holder_leaves t g))(t := p)\<rparr>)"
  using assms by (auto simp: leaves_lock_def)

lemma leave_kind0:
  assumes "0 < t_gil_depth g t" "\<not> waits p"
  shows "leaves_lock t g ((holder_leaves t g)\<lparr>g_pc := (g_pc (holder_leaves t g))(t := p)\<rparr>)"
  using leave_kind [OF assms, of "g_waits g"] by simp


definition works :: "tid \<Rightarrow> gil_event \<Rightarrow> gil \<Rightarrow> gil \<Rightarrow> bool" where
  "works t e g g' \<longleftrightarrow> (\<exists>v. e = Work v \<and> length (ts_callstack v) = CALLSTACK \<and> 0 < t_gil_depth g t \<and> \<not> waits (g_pc g t) \<and>
     g' = g\<lparr>g_vm := v\<rparr>)"

lemma running_kind:
  assumes "gil_inv g h" "g_pc g t = Running" "gil_exec t e g = Some g'"
  shows "keeps_lock t g g' \<or> works t e g g' \<or> takes_lock t g g' \<or> leaves_lock t g g'"
proof -
  let ?d = "t_gil_depth g t"
  have kg: "keeps_lock t g g" using assms(2) by (simp add: keeps_lock_def)
  have kp: "keeps_lock t g (g\<lparr>g_pc := (g_pc g)(t := p)\<rparr>)" if "\<not> waits p" for p
    using assms(2) that by (simp add: keeps_lock_def)
  have acq: "case gil_tryacquire t 1 g of (got, g') \<Rightarrow> if got then keeps_lock t g g' \<or> takes_lock t g g' else g' = g"
    using acquire_kind [of g t 1] assms(2) by simp
  show ?thesis
  proof (cases e)
    case Acquire
    then show ?thesis using acq kp [of "Trying 1"] assms(2,3)
      by (cases "gil_tryacquire t 1 g") (auto simp: gil_exec_def dvm_gil_acquire_def split: if_splits)
  next
    case EnterGuest
    then show ?thesis using acq kg kp [of "Relock 1"] assms(2,3)
      by (cases "gil_tryacquire t 1 g") (auto simp: gil_exec_def dvm_gil_enter_from_guest_def split: if_splits)
  next
    case Release
    consider "?d = 0" | "?d = 1" | "1 < ?d" by linarith
    then show ?thesis
    proof cases
      case 2
      have "h = Some t" using gil_invD(1) [OF assms(1), of t] 2 by (simp add: entitled_def)
      then have "g_pc (holder_leaves t g) t = Running" using holder_leaves_inv(3) [of g t] assms(1) 2 by simp
      then have "leaves_lock t g (holder_leaves t g)" using leave_kind0 [of g t Running] 2 by (simp add: pc_idem)
      then show ?thesis using Release assms(2,3) 2 by (simp add: gil_exec_def release_cases)
    qed (use Release assms(2,3) kg in \<open>auto simp: gil_exec_def release_cases keeps_lock_def\<close>)
  next
    case Yield
    then show ?thesis using kg leave_kind0 [of g t "Relock ?d"] assms(2,3)
      by (cases "0 < ?d") (auto simp: gil_exec_def dvm_gil_yield_def unlock_all_cases)
  next
    case (WaitOn ch)
    then show ?thesis using kg assms(2,3)
      by (auto simp: gil_exec_def dvm_gil_wait_for_def dvm_gil_wait_def dvm_gil_wait_for_ns_def begin_wait_def
          keeps_lock_def split: if_splits)
  next
    case GoToSleep
    then obtain ch chs where w: "0 < ?d" "gil_sleep t g = Some g'" "g_waits g t = ch # chs"
      using assms(2,3) by (auto simp: gil_exec_def gil_sleep_def split: list.splits if_splits)
    then show ?thesis
      using leave_kind [of g t "Sleeping ?d" "(g_waits g)(t := chs)"]
        leave_kind [of g t "Pausing ?d (g_change_seq g)" "(g_waits g)(t := chs)"]
      by (auto simp: gil_sleep_def unlock_all_cases holder_leaves_waiters split: if_splits)
  next
    case (Work v)
    then show ?thesis using assms(2,3) by (auto simp: gil_exec_def works_def split: if_splits)
  qed (use assms(2,3) in \<open>auto simp: gil_exec_def keeps_lock_def dvm_gil_notify_for_def dvm_gil_notify_one_for_def
      dvm_gil_notify_def dvm_request_stop_def split: if_splits\<close>)
qed

lemma gil_exec_kind:
  assumes "gil_inv g h" "gil_exec t e g = Some g'"
  shows "keeps_lock t g g' \<or> works t e g g' \<or> takes_lock t g g' \<or> leaves_lock t g g' \<or> joins_queue t g g'"
proof -
  have idle: "g_pc g t \<noteq> Running \<Longrightarrow> t_gil_depth g t = 0" using gil_invD(2) [OF assms(1), of t] by auto
  note pos = gil_invD(7) [OF assms(1), of t]
  show ?thesis
  proof (cases "g_pc g t")
    case Running
    then show ?thesis using running_kind [OF assms(1) _ assms(2)] by blast
  next
    case (Relock d)
    then show ?thesis
      using acquire_kind [of g t d] idle pos assms(2)
      by (cases "gil_tryacquire t d g")
        (auto simp: gil_exec_def dvm_gil_relock_def dvm_gil_acquire_def keeps_lock_def split: if_splits)
  next
    case (Trying d)
    have "takes_lock t g (take_lock t d (g\<lparr>g_waiters := g_waiters g\<rparr>))" if "gil_free g"
      unfolding takes_lock_def using that idle pos Trying by (intro conjI exI [of _ d] exI [of _ "g_waiters g"]) auto
    then show ?thesis using idle assms(2) Trying
      by (auto simp: gil_exec_def gil_enqueue_def joins_queue_def split: if_splits)
  next
    case (Granted d)
    have "takes_lock t g (gil_wake t d g)"
      unfolding takes_lock_def gil_wake_def using idle pos Granted
      by (intro conjI exI [of _ d] exI [of _ "g_waiters g - 1"]) auto
    then show ?thesis using assms(2) Granted by (auto simp: gil_exec_def split: if_splits)
  qed (use idle assms(2) in \<open>auto simp: gil_exec_def gil_awake_def keeps_lock_def split: if_splits\<close>)
qed

lemma gil_exec_fifo:
  assumes "gil_inv g h" "gil_exec t e g = Some g'"
  shows "fifo_step t g g'"
  using gil_exec_kind [OF assms]
proof (elim disjE)
  assume "keeps_lock t g g'"
  then show ?thesis using fifo_same [OF assms(1), of g' t] by (simp add: keeps_lock_def)
next
  assume "works t e g g'"
  then show ?thesis by (intro fifo_same [OF assms(1)]) (auto simp: works_def)
next
  assume "takes_lock t g g'"
  then show ?thesis using fifo_take [OF assms(1), of t] by (auto simp: takes_lock_def)
next
  assume l: "leaves_lock t g g'"
  then have "h = Some t" using gil_invD(1) [OF assms(1), of t] by (simp add: entitled_def leaves_lock_def)
  then show ?thesis using l fifo_leave [of g t _ g'] assms(1)
    by (auto simp: leaves_lock_def holder_leaves_waiters)
next
  assume "joins_queue t g g'"
  then obtain d where "\<not> waits (g_pc g t)"
    "g' = g\<lparr>g_queue := g_queue g @ [t], g_waiters := g_waiters g + 1, g_pc := (g_pc g)(t := Waiting d)\<rparr>"
    by (auto simp: joins_queue_def)
  moreover have "filter (\<lambda>w. granted (((g_pc g)(t := Waiting d)) w)) (g_queue g) = []"
    using queue_not_granted [OF assms(1)] by (auto simp: filter_empty_conv)
  ultimately show ?thesis by (simp add: fifo_step_def joins_def handed_def)
qed


lemma gil_run_fifo:
  assumes "gil_run es g = Some g'" "gil_ok g"
  shows "g_queue g @ joined_in es g = handed_in es g @ g_queue g'"
  using assms
proof (induction es g rule: gil_run.induct)
  case (2 t e es g)
  then obtain g1 where g1: "gil_exec t e g = Some g1" "gil_run es g1 = Some g'" by (auto split: bind_splits)
  obtain h where "gil_inv g h" using "2.prems"(2) by (auto simp: gil_ok_def)
  then have "g_queue g @ joins t g g1 = handed g g1 @ g_queue g1" using gil_exec_fifo g1(1) by (simp add: fifo_step_def)
  moreover have "g_queue g1 @ joined_in es g1 = handed_in es g1 @ g_queue g'"
    using "2.IH" [OF g1] gil_exec_ok [OF "2.prems"(2) g1(1)] .
  ultimately show ?case using g1(1) by (simp, metis append.assoc)
qed simp

section \<open>Each thread sees its own state\<close>

text \<open>Two copies of the thread state that differ at most in dead call stack entries.\<close>

definition ts_same :: "dvm_tstate \<Rightarrow> dvm_tstate \<Rightarrow> bool" where
  "ts_same a b \<longleftrightarrow> ts_copy tstate_zero a = ts_copy tstate_zero b"

lemma live_frames_le: "live_frames t \<le> CALLSTACK"
  by (auto simp: live_frames_def)

lemma live_frames_stack [simp]: "live_frames (s\<lparr>ts_callstack := cs\<rparr>) = live_frames s"
  by (simp add: live_frames_def)

lemma ts_same_copy:
  assumes "length (ts_callstack s) = CALLSTACK"
  shows "ts_same (ts_copy d s) s"
proof -
  have "live_frames s \<le> length (ts_callstack s)" using live_frames_le assms by simp
  then show ?thesis by (simp add: ts_same_def ts_copy_def)
qed

lemma ts_same_trans: "ts_same a b \<Longrightarrow> ts_same b c \<Longrightarrow> ts_same a c"
  by (simp add: ts_same_def)

lemma ts_copy_length [simp]:
  "length (ts_callstack s) = CALLSTACK \<Longrightarrow> length (ts_callstack d) = CALLSTACK \<Longrightarrow> length (ts_callstack (ts_copy d s)) = CALLSTACK"
  using live_frames_le [of s] by (simp add: ts_copy_def)

definition gil_sized :: "gil \<Rightarrow> bool" where
  "gil_sized g \<longleftrightarrow> length (ts_callstack (g_vm g)) = CALLSTACK \<and> (\<forall>t. length (ts_callstack (g_tstate g t)) = CALLSTACK)"

lemma holder_leaves_sel [simp]:
  "g_vm (holder_leaves t g) = g_vm g"
  "g_tstate (holder_leaves t g) = (g_tstate g)(t := ts_copy (g_tstate g t) (g_vm g))"
  "g_tstate_valid (holder_leaves t g) = (g_tstate_valid g)(t := True)"
  "t_gil_depth (holder_leaves t g) = (t_gil_depth g)(t := 0)"
  by (auto simp: holder_leaves_def hand_over_def dvm__tstate_save_def split: list.split)

lemma take_lock_sel [simp]:
  "t_gil_depth (take_lock t d g) = (t_gil_depth g)(t := d)"
  "g_vm (take_lock t d g) = ts_copy (g_vm g) (if g_tstate_valid g t then g_tstate g t else tstate_zero)"
  "g_tstate (take_lock t d g) = (if g_tstate_valid g t then g_tstate g else (g_tstate g)(t := tstate_zero))"
  "g_tstate_valid (take_lock t d g) = (if g_tstate_valid g t then g_tstate_valid g else (g_tstate_valid g)(t := True))"
  by (simp_all add: take_lock_def install_def dvm__tstate_reset_def dvm__tstate_load_def)

lemma gil_exec_sized:
  assumes "gil_inv g h" "gil_sized g" "gil_exec t e g = Some g'"
  shows "gil_sized g'"
proof -
  have z: "length (ts_callstack tstate_zero) = CALLSTACK" by (simp add: tstate_zero_def)
  show ?thesis
    using gil_exec_kind [OF assms(1,3)]
  proof (elim disjE)
    assume "keeps_lock t g g'"
    then show ?thesis using assms(2) by (simp add: keeps_lock_def gil_sized_def)
  next
    assume "works t e g g'"
    then show ?thesis using assms(2) by (auto simp: works_def gil_sized_def)
  next
    assume "takes_lock t g g'"
    then show ?thesis using assms(2) z by (auto simp: takes_lock_def gil_sized_def)
  next
    assume "leaves_lock t g g'"
    then show ?thesis using assms(2) by (auto simp: leaves_lock_def gil_sized_def)
  next
    assume "joins_queue t g g'"
    then show ?thesis using assms(2) by (auto simp: joins_queue_def gil_sized_def)
  qed
qed

lemma gil_reachable_sized: "gil_reachable g \<Longrightarrow> gil_sized g"
proof (induction rule: gil_reachable.induct)
  case gil_start
  then show ?case by (simp add: gil_sized_def gil_init_def tstate_zero_def)
next
  case (gil_step g t e g')
  then show ?case using gil_reachable_ok gil_exec_sized by (fastforce simp: gil_ok_def)
qed

text \<open>\<open>x\<close> is the state of thread \<open>t\<close>: in the VM while it holds the lock, saved otherwise.\<close>

definition state_of :: "tid \<Rightarrow> dvm_tstate \<Rightarrow> gil \<Rightarrow> bool" where
  "state_of t x g \<longleftrightarrow> (if 0 < t_gil_depth g t then ts_same (g_vm g) x
     else g_tstate_valid g t \<and> ts_same (g_tstate g t) x)"

definition is_work :: "gil_event \<Rightarrow> bool" where
  "is_work e \<longleftrightarrow> (\<exists>v. e = Work v)"

lemma gil_exec_state_of:
  assumes "gil_inv g h" "gil_sized g" "gil_exec u e g = Some g'" "state_of t x g" "u = t \<longrightarrow> \<not> is_work e"
  shows "state_of t x g'"
proof -
  have one: "0 < t_gil_depth g t \<Longrightarrow> 0 < t_gil_depth g u \<Longrightarrow> u = t"
    using gil_invD(1) [OF assms(1)] by (metis entitled_def option.inject)
  have free: "u \<noteq> t \<Longrightarrow> gil_free g \<or> granted (g_pc g u) \<Longrightarrow> t_gil_depth g t = 0"
    using gil_invD(1) [OF assms(1)] gil_free_None [OF assms(1)]
    by (metis entitled_def neq0_conv option.distinct(1) option.inject)
  have sz: "length (ts_callstack (g_vm g)) = CALLSTACK" "length (ts_callstack (g_tstate g t)) = CALLSTACK"
    using assms(2) by (auto simp: gil_sized_def)
  note same = ts_same_trans [OF ts_same_copy [OF sz(1)]] ts_same_trans [OF ts_same_copy [OF sz(2)]]
  show ?thesis
    using gil_exec_kind [OF assms(1,3)]
  proof (elim disjE)
    assume "keeps_lock u g g'"
    then show ?thesis using assms(4) by (cases "u = t") (auto simp: state_of_def keeps_lock_def)
  next
    assume "works u e g g'"
    then show ?thesis using assms(4,5) one by (auto simp: state_of_def works_def is_work_def)
  next
    assume "takes_lock u g g'"
    then show ?thesis using assms(4) free same(2) by (cases "u = t") (auto simp: state_of_def takes_lock_def)
  next
    assume "leaves_lock u g g'"
    then show ?thesis using assms(4) one same(1) by (cases "u = t") (auto simp: state_of_def leaves_lock_def)
  next
    assume "joins_queue u g g'"
    then show ?thesis using assms(4) by (auto simp: state_of_def joins_queue_def)
  qed
qed

lemma gil_run_state_of:
  "gil_run es g = Some g' \<Longrightarrow> gil_reachable g \<Longrightarrow> state_of t x g \<Longrightarrow> (\<And>v. (t, Work v) \<notin> set es) \<Longrightarrow> state_of t x g'"
proof (induction es g rule: gil_run.induct)
  case (2 u e es g)
  then obtain g1 where g1: "gil_exec u e g = Some g1" "gil_run es g1 = Some g'" by (auto split: bind_splits)
  obtain h where "gil_inv g h" using gil_reachable_ok "2.prems"(2) by (auto simp: gil_ok_def)
  moreover have "u = t \<longrightarrow> \<not> is_work e" using "2.prems"(4) by (auto simp: is_work_def)
  ultimately have "state_of t x g1"
    using gil_exec_state_of g1(1) gil_reachable_sized "2.prems" by blast
  then show ?case using "2.IH" [OF g1] "2.prems" g1(1) gil_step by auto
qed simp


lemma entitled_steps:
  assumes "gil_inv g h" "h = Some t"
  shows "\<exists>e g'. gil_exec t e g = Some g'"
proof (cases "0 < t_gil_depth g t")
  case True
  then show ?thesis using gil_invD(2) [OF assms(1), of t] by (intro exI [of _ Release]) (simp add: gil_exec_def)
next
  case False
  then obtain d where "g_pc g t = Granted d" using gil_invD(1) [OF assms(1), of t] assms(2)
    by (metis entitled_def granted.elims(2))
  then show ?thesis by (intro exI [of _ Again]) (simp add: gil_exec_def)
qed

section \<open>The properties\<close>

text \<open>Two threads: the first works and yields to the second, which works and releases.\<close>

definition busy :: "u32 \<Rightarrow> dvm_tstate" where
  "busy n = tstate_zero\<lparr>ts_exception := n\<rparr>"

definition first_half :: "(tid \<times> gil_event) list" where
  "first_half = [(1, Acquire), (1, Work (busy 7)), (2, Acquire), (2, Again)]"

definition second_half :: "(tid \<times> gil_event) list" where
  "second_half = [(1, Yield), (2, Again), (1, Again), (2, Work (busy 9)), (1, Again), (2, Release), (1, Again)]"

lemmas gil_eval = gil_exec_def dvm_gil_acquire_def gil_tryacquire_def gil_free_def take_lock_def install_def
  dvm__tstate_reset_def gil_enqueue_def gil_wake_def dvm_gil_release_def dvm_gil_unlock_all_def dvm_gil_yield_def
  dvm_gil_relock_def hand_over_def grant_def Let_def gil_init_def busy_def first_half_def second_half_def

lemma both_halves_run:
  "\<exists>g g'. gil_run first_half gil_init = Some g \<and> g_queue g = [2] \<and> 0 < t_gil_depth g 1 \<and> gil_run second_half g = Some g' \<and> 0 < t_gil_depth g' 1"
  by (simp add: gil_eval tstate_zero_def)


text \<open>
  C19.  Mutual exclusion without loss.  In every reachable state of every interleaving at most
  one thread holds the interpreter lock.  If the lock is not free there is exactly one thread
  it belongs to, and that thread can always take a step; so no waiter is left behind a lock
  that nobody will release.
\<close>

theorem gil_exclusive:
  assumes "gil_reachable g"
  shows "(\<forall>t u. 0 < t_gil_depth g t \<and> 0 < t_gil_depth g u \<longrightarrow> t = u) \<and>
     (g_depth g \<noteq> 0 \<longrightarrow> (\<exists>!t. 0 < t_gil_depth g t \<or> granted (g_pc g t))) \<and>
     (g_queue g \<noteq> [] \<longrightarrow>
        (\<exists>t e g'. (0 < t_gil_depth g t \<or> granted (g_pc g t)) \<and> gil_exec t e g = Some g'))"
proof -
  obtain h where inv: "gil_inv g h" using gil_reachable_ok [OF assms] by (auto simp: gil_ok_def)
  note ent = gil_invD(1) [OF inv, unfolded entitled_def]
  have "\<forall>t u. 0 < t_gil_depth g t \<and> 0 < t_gil_depth g u \<longrightarrow> t = u" using ent by (metis option.inject)
  moreover have "g_depth g \<noteq> 0 \<longrightarrow> (\<exists>!t. 0 < t_gil_depth g t \<or> granted (g_pc g t))"
    using ent gil_invD(3) [OF inv] by (cases h) auto
  moreover have "g_queue g \<noteq> [] \<longrightarrow> (\<exists>t e g'. (0 < t_gil_depth g t \<or> granted (g_pc g t)) \<and> gil_exec t e g = Some g')"
  proof
    assume "g_queue g \<noteq> []"
    then obtain t where t: "h = Some t" using gil_invD(4) [OF inv] by (cases h) auto
    show "\<exists>t e g'. (0 < t_gil_depth g t \<or> granted (g_pc g t)) \<and> gil_exec t e g = Some g'"
      using entitled_steps [OF inv, of t] ent t by blast
  qed
  ultimately show ?thesis by blast
qed

theorem gil_exclusive_witness:
  "\<exists>g. gil_run first_half gil_init = Some g \<and> g_queue g = [2] \<and>
     (\<exists>t e g'. (0 < t_gil_depth g t \<or> granted (g_pc g t)) \<and> gil_exec t e g = Some g')"
proof -
  obtain g where g: "gil_run first_half gil_init = Some g" "g_queue g = [2]" using both_halves_run by blast
  have "gil_reachable g" using gil_run_reachable [OF g(1) gil_start] .
  then show ?thesis using g gil_exclusive [of g] by auto
qed

text \<open>
  C20.  First come, first served.  Along every run from a reachable state, the threads that
  were queued followed by those that join are exactly the threads that are handed the lock
  followed by those still queued, in this order: nobody is overtaken, dropped or served twice.
\<close>

theorem gil_fifo:
  assumes "gil_reachable g" "gil_run es g = Some g'"
  shows "g_queue g @ joined_in es g = handed_in es g @ g_queue g'"
  using gil_run_fifo [OF assms(2) gil_reachable_ok [OF assms(1)]] .

theorem gil_fifo_witness:
  "\<exists>g g'. gil_run first_half gil_init = Some g \<and> gil_run second_half g = Some g' \<and>
     g_queue g = [2] \<and> g_queue g @ joined_in second_half g = handed_in second_half g @ g_queue g'"
proof -
  obtain g g' where g: "gil_run first_half gil_init = Some g" "g_queue g = [2]" "gil_run second_half g = Some g'"
    using both_halves_run by blast
  have "gil_reachable g" using gil_run_reachable [OF g(1) gil_start] .
  then show ?thesis using g gil_fifo [of g second_half g'] by blast
qed

text \<open>
  C21.  Isolation.  Whatever the other threads do in between (take the lock, interpret, sleep,
  be notified), a thread that holds the lock again finds the pending exception, the call stack,
  the step budget and the rest of its own state as it left them.
\<close>

theorem gil_isolation:
  assumes "gil_reachable g" "gil_run es g = Some g'" "0 < t_gil_depth g t" "0 < t_gil_depth g' t"
    and "\<And>v. (t, Work v) \<notin> set es"
  shows "ts_same (g_vm g') (g_vm g)"
proof -
  have "state_of t (g_vm g) g" using assms(3) by (simp add: state_of_def ts_same_def)
  then have "state_of t (g_vm g) g'" using gil_run_state_of [OF assms(2,1)] assms(5) by blast
  then show ?thesis using assms(4) by (simp add: state_of_def)
qed

theorem gil_isolation_witness:
  "\<exists>g g'. gil_run first_half gil_init = Some g \<and> gil_run second_half g = Some g' \<and> ts_same (g_vm g') (g_vm g)"
proof -
  obtain g g' where g: "gil_run first_half gil_init = Some g" "0 < t_gil_depth g 1" "gil_run second_half g = Some g'"
      "0 < t_gil_depth g' 1"
    using both_halves_run by blast
  have "gil_reachable g" using gil_run_reachable [OF g(1) gil_start] .
  moreover have "\<And>v. (1, Work v) \<notin> set second_half" by (simp add: second_half_def)
  ultimately show ?thesis using g gil_isolation [of g second_half g' 1] by blast
qed

end
