(* ===== verification/Dvm_Monitor.thy ===== *)
theory Dvm_Monitor
  imports Dvm_Gil
begin

text \<open>
  Object monitors (\<open>dvm__monitor_*\<close> in \<open>src/src/dvm/dvm.c\<close>): re-entrant ownership, \<open>wait\<close> and
  \<open>notify\<close>.  The code runs under the interpreter lock, so one operation is atomic up to the
  points where it sleeps in \<open>dvm_gil_wait_for\<close>; the operations that sleep in a loop are split
  there, and where a thread sleeps is its \<open>mpc\<close>.  A thread is its Java identity, the token that
  \<open>dvm__current_thread_id\<close> yields; 0 means that no identity could be had.
\<close>

type_synonym token = u64

record monitor =
  monitor_owner :: token
  monitor_depth :: u32
  monitor_seq :: u64

record mon_state =
  ms_obj :: "u32 \<Rightarrow> monitor option"
  ms_waiters :: "event_waiter list"
  ms_stopping :: bool

datatype mresult =
    Done
  | Refused
  | Throws string
  | Sleeps channel

definition monitor_channel :: "u32 \<Rightarrow> nat \<Rightarrow> channel" where
  "monitor_channel ref kind = unat ref * 4 + kind"

definition put_monitor :: "u32 \<Rightarrow> monitor \<Rightarrow> mon_state \<Rightarrow> mon_state" where
  "put_monitor ref m s = s\<lparr>ms_obj := (ms_obj s)(ref \<mapsto> m)\<rparr>"

section \<open>Enter and exit\<close>

definition dvm__monitor_try_enter :: "token \<Rightarrow> u32 \<Rightarrow> mon_state \<Rightarrow> mresult \<times> mon_state" where
  "dvm__monitor_try_enter me ref s = (case ms_obj s ref of
     None \<Rightarrow> (Throws ''java/lang/NullPointerException'', s)
   | Some m \<Rightarrow>
       if me = 0 then (Throws ''java/lang/OutOfMemoryError'', s)
       else if monitor_owner m \<noteq> 0 \<and> monitor_owner m \<noteq> me then (Refused, s)
       else (Done, put_monitor ref (m\<lparr>monitor_owner := me, monitor_depth := monitor_depth m + 1\<rparr>) s))"

text \<open>One turn of the loop of \<open>dvm__monitor_enter\<close>; \<open>pending\<close> is \<open>vm->exception\<close> of the thread.\<close>

definition dvm__monitor_enter :: "bool \<Rightarrow> token \<Rightarrow> u32 \<Rightarrow> mon_state \<Rightarrow> mresult \<times> mon_state" where
  "dvm__monitor_enter pending me ref s =
     (if ms_stopping s then (Refused, s)
      else case dvm__monitor_try_enter me ref s of
        (Refused, s) \<Rightarrow> (if pending then Refused else Sleeps (monitor_channel ref 1), s)
      | r \<Rightarrow> r)"

definition notify_one :: "channel \<Rightarrow> mon_state \<Rightarrow> mon_state" where
  "notify_one ch s = s\<lparr>ms_waiters := mark_one ch (ms_waiters s)\<rparr>"

definition notify_all :: "channel \<Rightarrow> mon_state \<Rightarrow> mon_state" where
  "notify_all ch s = s\<lparr>ms_waiters := mark_all ch (ms_waiters s)\<rparr>"

text \<open>The test that \<open>exit\<close>, \<open>wait\<close> and \<open>notify\<close> share.\<close>

definition owned :: "token \<Rightarrow> monitor option \<Rightarrow> monitor option" where
  "owned me m = (case m of None \<Rightarrow> None
     | Some m \<Rightarrow> if monitor_owner m \<noteq> me \<or> monitor_depth m = 0 then None else Some m)"

definition dvm__monitor_exit :: "token \<Rightarrow> u32 \<Rightarrow> mon_state \<Rightarrow> mresult \<times> mon_state" where
  "dvm__monitor_exit me ref s = (case owned me (ms_obj s ref) of
     None \<Rightarrow> (Throws ''java/lang/IllegalMonitorStateException'', s)
   | Some m \<Rightarrow>
       let m = m\<lparr>monitor_depth := monitor_depth m - 1\<rparr> in
       if monitor_depth m \<noteq> 0 then (Done, put_monitor ref m s)
       else (Done, notify_one (monitor_channel ref 1) (put_monitor ref (m\<lparr>monitor_owner := 0\<rparr>) s)))"

section \<open>Wait and notify\<close>

text \<open>\<open>dvm__monitor_wait\<close> up to its loop: the saved depth and the sequence number seen.\<close>

definition monitor_wait_begin :: "bool \<Rightarrow> token \<Rightarrow> u32 \<Rightarrow> mon_state \<Rightarrow> (string + (u32 \<times> u64)) \<times> mon_state" where
  "monitor_wait_begin interrupted me ref s = (case owned me (ms_obj s ref) of
     None \<Rightarrow> (Inl ''java/lang/IllegalMonitorStateException'', s)
   | Some m \<Rightarrow>
       if interrupted then (Inl ''java/lang/InterruptedException'', s)
       else (Inr (monitor_depth m, monitor_seq m),
         notify_one (monitor_channel ref 1) (put_monitor ref (m\<lparr>monitor_owner := 0, monitor_depth := 0\<rparr>) s)))"

text \<open>
  The head of the loop, which sleeps or leaves it, and what follows a wake-up.  \<open>deadline\<close> is 0
  for a wait without a timeout.
\<close>

definition wait_deadline :: "u64 \<Rightarrow> u64 \<Rightarrow> u64" where
  "wait_deadline timeout now = (if timeout \<noteq> 0 then now + timeout else 0)"

datatype wait_turn = Sleep | Give_up | Reacquire bool bool | Freed

definition monitor_wait_head :: "u64 \<Rightarrow> u64 \<Rightarrow> mon_state \<Rightarrow> wait_turn" where
  "monitor_wait_head deadline now s = (if ms_stopping s then Give_up
     else if deadline \<noteq> 0 \<and> deadline \<le> now then Reacquire False False else Sleep)"

definition monitor_wait_woken :: "bool \<Rightarrow> u64 \<Rightarrow> u32 \<Rightarrow> mon_state \<Rightarrow> wait_turn" where
  "monitor_wait_woken interrupted seen ref s = (case ms_obj s ref of
     None \<Rightarrow> Freed
   | Some m \<Rightarrow> if monitor_seq m \<noteq> seen then Reacquire True False
       else if interrupted then Reacquire False True else Sleep)"

text \<open>The end of \<open>dvm__monitor_wait\<close> once \<open>dvm__monitor_enter\<close> has succeeded.\<close>

definition monitor_wait_end :: "bool \<Rightarrow> u32 \<Rightarrow> u32 \<Rightarrow> mon_state \<Rightarrow> (mresult \<times> mon_state) option" where
  "monitor_wait_end interrupted saved ref s = do {
     m \<leftarrow> ms_obj s ref;
     let s = put_monitor ref (m\<lparr>monitor_depth := saved\<rparr>) s;
     Some (if interrupted then (Throws ''java/lang/InterruptedException'', s) else (Done, s)) }"

definition dvm__monitor_notify :: "token \<Rightarrow> u32 \<Rightarrow> bool \<Rightarrow> mon_state \<Rightarrow> mresult \<times> mon_state" where
  "dvm__monitor_notify me ref all s = (case owned me (ms_obj s ref) of
     None \<Rightarrow> (Throws ''java/lang/IllegalMonitorStateException'', s)
   | Some m \<Rightarrow>
       let s = put_monitor ref (m\<lparr>monitor_seq := monitor_seq m + 1\<rparr>) s in
       (Done, if all then notify_all (monitor_channel ref 2) s else notify_one (monitor_channel ref 2) s))"

definition dvm__monitor_state :: "token \<Rightarrow> u32 \<Rightarrow> bool \<Rightarrow> mon_state \<Rightarrow> bool \<times> u32" where
  "dvm__monitor_state me ref current s = (case ms_obj s ref of
     None \<Rightarrow> (False, 0)
   | Some m \<Rightarrow> (monitor_owner m \<noteq> 0 \<and> (\<not> current \<or> monitor_owner m = me), monitor_depth m))"

section \<open>Threads and interleavings\<close>

text \<open>
  Where a thread stands: outside, asleep in \<open>enter\<close>, asleep in \<open>wait\<close> with what the C locals
  hold, or asleep in the \<open>enter\<close> at the end of \<open>wait\<close>.
\<close>

datatype mpc =
    Outside
  | Entering u32
  | Waiting_on u32 u32 u64 u64
  | Reentering u32 u32 bool

record mon_sys =
  sys_mon :: mon_state
  sys_pc :: "token \<Rightarrow> mpc"
  sys_hold :: "token \<Rightarrow> u32 \<Rightarrow> nat"
  sys_kept :: "token \<Rightarrow> nat"

text \<open>
  \<open>sys_hold\<close> and \<open>sys_kept\<close> are not part of the program, and nothing the program stores flows
  into them: \<open>sys_hold\<close> counts, for each thread, the entries it has made and not yet undone, and a
  \<open>wait\<close> moves the count aside into \<open>sys_kept\<close> until the thread has entered again.
\<close>

datatype mon_event =
    Enter u32
  | Exit u32
  | Wait u32 u64 u64 u64 bool
  | Notify_mon u32 bool
  | Resume u64 bool
  | Halt

definition asleep :: "token \<Rightarrow> channel \<Rightarrow> mon_state \<Rightarrow> mon_state" where
  "asleep t ch s = s\<lparr>ms_waiters := \<lparr>w_thread = unat t, w_channel = ch, w_ready = False\<rparr> # ms_waiters s\<rparr>"

definition awake :: "token \<Rightarrow> mon_state \<Rightarrow> mon_state" where
  "awake t s = s\<lparr>ms_waiters := remove_waiter (unat t) (ms_waiters s)\<rparr>"

definition set_hold :: "token \<Rightarrow> u32 \<Rightarrow> nat \<Rightarrow> mon_sys \<Rightarrow> mon_sys" where
  "set_hold t ref n y = y\<lparr>sys_hold := (sys_hold y)(t := (sys_hold y t)(ref := n))\<rparr>"

definition set_kept :: "token \<Rightarrow> nat \<Rightarrow> mon_sys \<Rightarrow> mon_sys" where
  "set_kept t n y = y\<lparr>sys_kept := (sys_kept y)(t := n)\<rparr>"

definition at_pc :: "token \<Rightarrow> mpc \<Rightarrow> mon_state \<Rightarrow> mon_sys \<Rightarrow> mon_sys" where
  "at_pc t p s y = y\<lparr>sys_mon := s, sys_pc := (sys_pc y)(t := p)\<rparr>"

definition enter_turn :: "token \<Rightarrow> u32 \<Rightarrow> mon_sys \<Rightarrow> mon_sys" where
  "enter_turn t ref y = (case dvm__monitor_enter False t ref (sys_mon y) of
     (Done, s) \<Rightarrow> set_hold t ref (sys_hold y t ref + 1) (at_pc t Outside s y)
   | (Sleeps ch, s) \<Rightarrow> at_pc t (Entering ref) (asleep t ch s) y
   | (_, s) \<Rightarrow> at_pc t Outside s y)"

definition reenter_turn :: "token \<Rightarrow> u32 \<Rightarrow> u32 \<Rightarrow> bool \<Rightarrow> mon_sys \<Rightarrow> mon_sys option" where
  "reenter_turn t ref saved interrupted y = (case dvm__monitor_enter False t ref (sys_mon y) of
     (Done, s) \<Rightarrow> do {
       (r, s) \<leftarrow> monitor_wait_end interrupted saved ref s;
       Some (set_hold t ref (sys_kept y t) (at_pc t Outside s y)) }
   | (Sleeps ch, s) \<Rightarrow> Some (at_pc t (Reentering ref saved interrupted) (asleep t ch s) y)
   | (_, s) \<Rightarrow> Some (at_pc t Outside s y))"

text \<open>After a turn of the wait loop.\<close>

definition after_wait_turn :: "token \<Rightarrow> u32 \<Rightarrow> u32 \<Rightarrow> u64 \<Rightarrow> u64 \<Rightarrow> wait_turn \<Rightarrow> mon_sys \<Rightarrow> mon_sys option" where
  "after_wait_turn t ref saved seen deadline w y = (case w of
     Sleep \<Rightarrow> Some (at_pc t (Waiting_on ref saved seen deadline) (asleep t (monitor_channel ref 2) (sys_mon y)) y)
   | Reacquire signalled interrupted \<Rightarrow> reenter_turn t ref saved interrupted y
   | _ \<Rightarrow> Some (at_pc t Outside (sys_mon y) y))"

definition mon_exec :: "token \<Rightarrow> mon_event \<Rightarrow> mon_sys \<Rightarrow> mon_sys option" where
  "mon_exec t e y = (case sys_pc y t of
     Outside \<Rightarrow> (case e of
         Enter ref \<Rightarrow> Some (enter_turn t ref y)
       | Exit ref \<Rightarrow> (case dvm__monitor_exit t ref (sys_mon y) of
             (Done, s) \<Rightarrow> Some (set_hold t ref (sys_hold y t ref - 1) (at_pc t Outside s y))
           | (_, s) \<Rightarrow> Some (at_pc t Outside s y))
       | Wait ref timeout now later interrupted \<Rightarrow>
           let deadline = wait_deadline timeout now in
           (case monitor_wait_begin interrupted t ref (sys_mon y) of
             (Inl exc, s) \<Rightarrow> Some (at_pc t Outside s y)
           | (Inr (saved, seen), s) \<Rightarrow>
               after_wait_turn t ref saved seen deadline (monitor_wait_head deadline later s)
                 (set_kept t (sys_hold y t ref) (set_hold t ref 0 (at_pc t Outside s y))))
       | Notify_mon ref all \<Rightarrow> (case dvm__monitor_notify t ref all (sys_mon y) of (r, s) \<Rightarrow> Some (at_pc t Outside s y))
       | Halt \<Rightarrow> Some (y\<lparr>sys_mon := (sys_mon y)\<lparr>ms_stopping := True\<rparr>\<rparr>)
       | _ \<Rightarrow> None)
   | Entering ref \<Rightarrow> (case e of Resume now i \<Rightarrow> Some (enter_turn t ref (y\<lparr>sys_mon := awake t (sys_mon y)\<rparr>)) | _ \<Rightarrow> None)
   | Waiting_on ref saved seen deadline \<Rightarrow> (case e of
         Resume now interrupted \<Rightarrow>
           let y = y\<lparr>sys_mon := awake t (sys_mon y)\<rparr>;
               w = monitor_wait_woken interrupted seen ref (sys_mon y) in
           after_wait_turn t ref saved seen deadline (if w = Sleep then monitor_wait_head deadline now (sys_mon y) else w) y
       | _ \<Rightarrow> None)
   | Reentering ref saved interrupted \<Rightarrow> (case e of
         Resume now i \<Rightarrow> reenter_turn t ref saved interrupted (y\<lparr>sys_mon := awake t (sys_mon y)\<rparr>)
       | _ \<Rightarrow> None))"

inductive mon_reach :: "(u32 \<Rightarrow> bool) \<Rightarrow> nat \<Rightarrow> mon_sys \<Rightarrow> bool" for objs where
  mon_start: "(\<And>r. ms_obj (sys_mon y) r = (if objs r then Some \<lparr>monitor_owner = 0, monitor_depth = 0, monitor_seq = 0\<rparr> else None)) \<Longrightarrow>
     sys_pc y = (\<lambda>t. Outside) \<Longrightarrow> sys_hold y = (\<lambda>t r. 0) \<Longrightarrow> mon_reach objs 0 y"
| mon_step: "mon_reach objs n y \<Longrightarrow> mon_exec t e y = Some y' \<Longrightarrow> mon_reach objs (Suc n) y'"


section \<open>Mutual exclusion\<close>

text \<open>A monitor agrees with the entries the threads have open on it.\<close>

definition lock_ok :: "monitor \<Rightarrow> (token \<Rightarrow> nat) \<Rightarrow> bool" where
  "lock_ok m h \<longleftrightarrow> (\<forall>t. 0 < h t \<longleftrightarrow> t \<noteq> 0 \<and> monitor_owner m = t) \<and> unat (monitor_depth m) = h (monitor_owner m)"

definition mon_ok :: "mon_state \<Rightarrow> (token \<Rightarrow> u32 \<Rightarrow> nat) \<Rightarrow> bool" where
  "mon_ok s hold \<longleftrightarrow> (\<forall>r. case ms_obj s r of None \<Rightarrow> \<forall>t. hold t r = 0 | Some m \<Rightarrow> lock_ok m (\<lambda>t. hold t r))"

definition pc_ok :: "nat \<Rightarrow> (u32 \<Rightarrow> nat) \<Rightarrow> nat \<Rightarrow> mpc \<Rightarrow> bool" where
  "pc_ok n hold k p = (case p of Waiting_on r s seen d \<Rightarrow> hold r = 0 \<and> 0 < unat s \<and> unat s \<le> n \<and> unat s = k
     | Reentering r s i \<Rightarrow> hold r = 0 \<and> 0 < unat s \<and> unat s \<le> n \<and> unat s = k | _ \<Rightarrow> True)"

definition sys_inv :: "nat \<Rightarrow> mon_sys \<Rightarrow> bool" where
  "sys_inv n y \<longleftrightarrow> mon_ok (sys_mon y) (sys_hold y) \<and> (\<forall>t r. sys_hold y t r \<le> n) \<and>
     (\<forall>t. pc_ok n (sys_hold y t) (sys_kept y t) (sys_pc y t))"

lemma pc_ok_mono: "pc_ok n h c p \<Longrightarrow> n \<le> k \<Longrightarrow> pc_ok k h c p"
  by (auto simp: pc_ok_def split: mpc.splits)

lemma mon_ok_waiters [simp]:
  "mon_ok (asleep t ch s) h = mon_ok s h" "mon_ok (awake t s) h = mon_ok s h" "mon_ok (notify_one ch s) h = mon_ok s h"
  "mon_ok (notify_all ch s) h = mon_ok s h" "mon_ok (s\<lparr>ms_stopping := b\<rparr>) h = mon_ok s h"
  by (simp_all add: mon_ok_def asleep_def awake_def notify_one_def notify_all_def)

text \<open>One monitor and one thread's count change together.\<close>

lemma mon_ok_put:
  assumes "mon_ok s hold" "lock_ok m (\<lambda>u. (hold(t := (hold t)(r := k))) u r)"
  shows "mon_ok (put_monitor r m s) (hold(t := (hold t)(r := k)))"
  unfolding mon_ok_def
proof
  fix q
  show "case ms_obj (put_monitor r m s) q of None \<Rightarrow> \<forall>u. (hold(t := (hold t)(r := k))) u q = 0
    | Some m \<Rightarrow> lock_ok m (\<lambda>u. (hold(t := (hold t)(r := k))) u q)"
  proof (cases "q = r")
    case True
    then show ?thesis using assms(2) by (simp add: put_monitor_def)
  next
    case False
    then have "(\<lambda>u. (hold(t := (hold t)(r := k))) u q) = (\<lambda>u. hold u q)" by auto
    then show ?thesis using assms(1)[unfolded mon_ok_def, THEN spec, of q] False
      by (cases "ms_obj s q") (simp_all add: put_monitor_def)
  qed
qed

lemma mon_ok_get: "mon_ok s hold \<Longrightarrow> ms_obj s r = Some m \<Longrightarrow> lock_ok m (\<lambda>t. hold t r)"
  unfolding mon_ok_def by (drule spec [of _ r]) simp

lemma lock_okD:
  assumes "lock_ok m h"
  shows "0 < h t \<longleftrightarrow> t \<noteq> 0 \<and> monitor_owner m = t" "unat (monitor_depth m) = h (monitor_owner m)"
  using assms unfolding lock_ok_def by blast+

lemma owned_Some:
  "owned me x = Some m \<longleftrightarrow> x = Some m \<and> monitor_owner m = me \<and> monitor_depth m \<noteq> 0"
  by (auto simp: owned_def split: option.splits)

lemma lock_ok_enter:
  assumes "lock_ok m h" "t \<noteq> 0" "monitor_owner m = 0 \<or> monitor_owner m = t" "h t + 1 < 2 ^ 32"
  shows "lock_ok (m\<lparr>monitor_owner := t, monitor_depth := monitor_depth m + 1\<rparr>) (h(t := h t + 1))"
proof -
  have others: "h u = 0" if "u \<noteq> t" for u using lock_okD(1) [OF assms(1), of u] assms(3) that by fastforce
  have "unat (monitor_depth m) = h t"
  proof (cases "monitor_owner m = t")
    case True
    then show ?thesis using lock_okD(2) [OF assms(1)] by simp
  next
    case False
    then show ?thesis using lock_okD [OF assms(1)] assms(2,3) by (metis neq0_conv)
  qed
  moreover have "unat (monitor_depth m + 1) = unat (monitor_depth m) + 1" if "unat (monitor_depth m) + 1 < 2 ^ 32"
    using that by (simp add: unat_word_ariths)
  ultimately have "unat (monitor_depth m + 1) = h t + 1" using assms(4) by simp
  then show ?thesis using assms(2) others unfolding lock_ok_def by simp
qed

lemma lock_ok_owner:
  assumes "lock_ok m h" "monitor_owner m = t" "monitor_depth m \<noteq> 0"
  shows "t \<noteq> 0" "0 < h t" "unat (monitor_depth m) = h t" "u \<noteq> t \<Longrightarrow> h u = 0"
proof -
  show "unat (monitor_depth m) = h t" using lock_okD(2) [OF assms(1)] assms(2) by simp
  moreover have "0 < unat (monitor_depth m)" using assms(3) by (simp add: unat_gt_0)
  ultimately show "0 < h t" by simp
  then show "t \<noteq> 0" using lock_okD(1) [OF assms(1), of t] by simp
  show "u \<noteq> t \<Longrightarrow> h u = 0" using lock_okD(1) [OF assms(1), of u] assms(2) by fastforce
qed

lemma lock_ok_leave:
  assumes "lock_ok m h" "monitor_owner m = t" "monitor_depth m \<noteq> 0"
  shows "lock_ok (m\<lparr>monitor_owner := 0, monitor_depth := 0\<rparr>) (h(t := 0))"
  using lock_ok_owner [OF assms] unfolding lock_ok_def by simp

lemma lock_ok_exit:
  assumes "lock_ok m h" "monitor_owner m = t" "monitor_depth m \<noteq> 0"
  shows "monitor_depth m - 1 = 0 \<Longrightarrow> lock_ok (m\<lparr>monitor_depth := 0, monitor_owner := 0\<rparr>) (h(t := h t - 1))"
    and "monitor_depth m - 1 \<noteq> 0 \<Longrightarrow> lock_ok (m\<lparr>monitor_depth := monitor_depth m - 1\<rparr>) (h(t := h t - 1))"
proof -
  note o = lock_ok_owner [OF assms]
  have e: "unat (monitor_depth m - 1) = h t - 1"
    using o(3) assms(3) by (simp add: unat_minus_one)
  show "lock_ok (m\<lparr>monitor_depth := 0, monitor_owner := 0\<rparr>) (h(t := h t - 1))" if "monitor_depth m - 1 = 0"
    using o(1,4) e that unfolding lock_ok_def by simp
  show "lock_ok (m\<lparr>monitor_depth := monitor_depth m - 1\<rparr>) (h(t := h t - 1))" if "monitor_depth m - 1 \<noteq> 0"
  proof -
    have "0 < h t - 1" using e that by (metis unat_gt_0)
    then show ?thesis using o e assms(2) unfolding lock_ok_def by simp
  qed
qed

text \<open>Re-entering at the end of a wait restores the saved depth.\<close>

lemma lock_ok_restore:
  assumes "lock_ok m h" "h t = 0" "t \<noteq> 0" "monitor_owner m = 0 \<or> monitor_owner m = t" "0 < unat saved"
  shows "lock_ok (m\<lparr>monitor_owner := t, monitor_depth := saved\<rparr>) (h(t := unat saved))"
proof -
  have "h u = 0" if "u \<noteq> t" for u using lock_okD(1) [OF assms(1), of u] assms(4) that by fastforce
  then show ?thesis using assms(3,5) unfolding lock_ok_def by simp
qed


lemma sys_inv_pc:
  assumes "sys_inv n y" "mon_ok s (sys_hold y)" "pc_ok (Suc n) (sys_hold y t) (sys_kept y t) p"
  shows "sys_inv (Suc n) (at_pc t p s y)"
  using assms pc_ok_mono [of n _ _ _ "Suc n"] by (auto simp: sys_inv_def at_pc_def le_SucI)

lemma sys_inv_hold:
  assumes "sys_inv n y" "mon_ok s ((sys_hold y)(t := (sys_hold y t)(r := k)))" "k \<le> Suc n"
    and "pc_ok (Suc n) ((sys_hold y t)(r := k)) (sys_kept y t) p"
  shows "sys_inv (Suc n) (set_hold t r k (at_pc t p s y))"
  using assms pc_ok_mono [of n _ _ _ "Suc n"] by (auto simp: sys_inv_def at_pc_def set_hold_def le_SucI)

lemma sys_invD:
  assumes "sys_inv n y"
  shows "mon_ok (sys_mon y) (sys_hold y)" "sys_hold y t r \<le> n" "pc_ok n (sys_hold y t) (sys_kept y t) (sys_pc y t)"
  using assms by (auto simp: sys_inv_def)

lemma sys_inv_awake [simp]: "sys_inv n (y\<lparr>sys_mon := awake t (sys_mon y)\<rparr>) = sys_inv n y"
  by (simp add: sys_inv_def)

lemma hold_fun: "(\<lambda>u. (hold(t := (hold t)(r := k))) u r) = (\<lambda>u. hold u r)(t := k)"
  by auto

text \<open>What an attempt to enter does.\<close>

lemma monitor_enter_cases:
  obtains (entered) m where "ms_obj s ref = Some m" "t \<noteq> 0" "monitor_owner m = 0 \<or> monitor_owner m = t"
      "dvm__monitor_enter False t ref s =
         (Done, put_monitor ref (m\<lparr>monitor_owner := t, monitor_depth := monitor_depth m + 1\<rparr>) s)"
    | (blocked) "dvm__monitor_enter False t ref s = (Sleeps (monitor_channel ref 1), s)"
    | (failed) x where "dvm__monitor_enter False t ref s = (x, s)" "x \<noteq> Done" "\<And>ch. x \<noteq> Sleeps ch"
proof (cases "ms_stopping s \<or> ms_obj s ref = None \<or> t = 0")
  case True
  then show thesis using that(3)
    by (cases "ms_stopping s"; cases "ms_obj s ref") (auto simp: dvm__monitor_enter_def dvm__monitor_try_enter_def)
next
  case False
  then obtain m where m: "ms_obj s ref = Some m" "t \<noteq> 0" "\<not> ms_stopping s" by auto
  show thesis
  proof (cases "monitor_owner m \<noteq> 0 \<and> monitor_owner m \<noteq> t")
    case True
    then show thesis using that(2) m by (simp add: dvm__monitor_enter_def dvm__monitor_try_enter_def)
  next
    case False
    then show thesis using that(1) m by (auto simp: dvm__monitor_enter_def dvm__monitor_try_enter_def)
  qed
qed

lemma enter_turn_inv:
  assumes "sys_inv n y" "Suc n < 2 ^ 32"
  shows "sys_inv (Suc n) (enter_turn t ref y)"
proof (cases rule: monitor_enter_cases [of "sys_mon y" ref t])
  case (entered m)
  have "sys_hold y t ref + 1 < 2 ^ 32" using sys_invD(2) [OF assms(1), of t ref] assms(2) by simp
  then have "lock_ok (m\<lparr>monitor_owner := t, monitor_depth := monitor_depth m + 1\<rparr>)
      ((\<lambda>u. sys_hold y u ref)(t := sys_hold y t ref + 1))"
    using lock_ok_enter [OF mon_ok_get [OF sys_invD(1) [OF assms(1)] entered(1)] entered(2,3)] by simp
  then have "mon_ok (put_monitor ref (m\<lparr>monitor_owner := t, monitor_depth := monitor_depth m + 1\<rparr>) (sys_mon y))
      ((sys_hold y)(t := (sys_hold y t)(ref := sys_hold y t ref + 1)))"
    by (intro mon_ok_put sys_invD(1) [OF assms(1)]) (simp only: hold_fun)
  then show ?thesis using entered(4) sys_invD(2) [OF assms(1), of t ref]
    by (simp add: enter_turn_def) (intro sys_inv_hold assms(1), auto simp: pc_ok_def)
next
  case blocked
  then show ?thesis using sys_invD(1) [OF assms(1)]
    by (simp add: enter_turn_def) (intro sys_inv_pc assms(1), auto simp: pc_ok_def)
next
  case (failed x)
  have "sys_inv (Suc n) (at_pc t Outside (sys_mon y) y)"
    by (intro sys_inv_pc assms(1) sys_invD(1) [OF assms(1)]) (simp add: pc_ok_def)
  then show ?thesis using failed by (cases x) (auto simp: enter_turn_def)
qed

lemma reenter_turn_inv:
  assumes "sys_inv n y" "sys_hold y t ref = 0" "0 < unat saved" "unat saved \<le> n" "reenter_turn t ref saved i y = Some y'"
    and kept: "unat saved = sys_kept y t"
  shows "sys_inv (Suc n) y'"
proof (cases rule: monitor_enter_cases [of "sys_mon y" ref t])
  case (entered m)
  have "lock_ok (m\<lparr>monitor_owner := t, monitor_depth := saved\<rparr>) ((\<lambda>u. sys_hold y u ref)(t := unat saved))"
    using lock_ok_restore [OF mon_ok_get [OF sys_invD(1) [OF assms(1)] entered(1)]] assms(2,3) entered(2,3) by simp
  then have "mon_ok (put_monitor ref (m\<lparr>monitor_owner := t, monitor_depth := saved\<rparr>) (sys_mon y))
      ((sys_hold y)(t := (sys_hold y t)(ref := unat saved)))"
    by (intro mon_ok_put sys_invD(1) [OF assms(1)]) (simp only: hold_fun)
  moreover have "y' = set_hold t ref (unat saved)
      (at_pc t Outside (put_monitor ref (m\<lparr>monitor_owner := t, monitor_depth := saved\<rparr>) (sys_mon y)) y)"
    using assms(5) entered(4) kept
    by (simp add: reenter_turn_def monitor_wait_end_def put_monitor_def Let_def split: if_splits)
  ultimately show ?thesis using assms(4) sys_inv_hold [OF assms(1)] by (simp add: pc_ok_def)
next
  case blocked
  then have "y' = at_pc t (Reentering ref saved i) (asleep t (monitor_channel ref 1) (sys_mon y)) y"
    using assms(5) by (simp add: reenter_turn_def)
  then show ?thesis using sys_invD(1) [OF assms(1)] assms(2-4) kept sys_inv_pc [OF assms(1)] by (simp add: pc_ok_def)
next
  case (failed x)
  have "sys_inv (Suc n) (at_pc t Outside (sys_mon y) y)"
    by (intro sys_inv_pc assms(1) sys_invD(1) [OF assms(1)]) (simp add: pc_ok_def)
  then show ?thesis using failed assms(5) by (cases x) (auto simp: reenter_turn_def)
qed

lemma after_wait_turn_inv:
  assumes "sys_inv n y" "sys_hold y t ref = 0" "0 < unat saved" "unat saved \<le> n"
    and "after_wait_turn t ref saved seen deadline w y = Some y'" and kept: "unat saved = sys_kept y t"
  shows "sys_inv (Suc n) y'"
proof (cases w)
  case Sleep
  then have "y' = at_pc t (Waiting_on ref saved seen deadline) (asleep t (monitor_channel ref 2) (sys_mon y)) y"
    using assms(5) by (simp add: after_wait_turn_def)
  then show ?thesis using sys_invD(1) [OF assms(1)] assms(2-4) kept sys_inv_pc [OF assms(1)] by (simp add: pc_ok_def)
next
  case (Reacquire b i)
  then show ?thesis using assms reenter_turn_inv [of n y t ref saved i] by (simp add: after_wait_turn_def)
qed (use assms sys_inv_pc [OF assms(1), of "sys_mon y" t Outside] sys_invD(1) [OF assms(1)]
    in \<open>auto simp: after_wait_turn_def pc_ok_def\<close>)


lemma monitor_exit_inv:
  assumes "sys_inv n y" "dvm__monitor_exit t ref (sys_mon y) = (Done, s)"
  shows "sys_inv (Suc n) (set_hold t ref (sys_hold y t ref - 1) (at_pc t Outside s y))"
proof -
  obtain m where m: "ms_obj (sys_mon y) ref = Some m" "monitor_owner m = t" "monitor_depth m \<noteq> 0"
    using assms(2) by (auto simp: dvm__monitor_exit_def owned_Some split: option.splits)
  note ok = lock_ok_exit [OF mon_ok_get [OF sys_invD(1) [OF assms(1)] m(1)] m(2,3)]
  have put: "mon_ok (put_monitor ref m' (sys_mon y)) ((sys_hold y)(t := (sys_hold y t)(ref := sys_hold y t ref - 1)))"
    if "lock_ok m' ((\<lambda>u. sys_hold y u ref)(t := sys_hold y t ref - 1))" for m'
    using that by (intro mon_ok_put sys_invD(1) [OF assms(1)]) (simp only: hold_fun)
  have o: "owned t (ms_obj (sys_mon y) ref) = Some m" using m by (simp add: owned_Some)
  have "mon_ok s ((sys_hold y)(t := (sys_hold y t)(ref := sys_hold y t ref - 1)))"
  proof (cases "monitor_depth m - 1 = 0")
    case True
    then have "s = notify_one (monitor_channel ref 1) (put_monitor ref (m\<lparr>monitor_depth := 0, monitor_owner := 0\<rparr>) (sys_mon y))"
      using assms(2) o by (simp add: dvm__monitor_exit_def Let_def)
    then show ?thesis using put [OF ok(1) [OF True]] by simp
  next
    case False
    then have "s = put_monitor ref (m\<lparr>monitor_depth := monitor_depth m - 1\<rparr>) (sys_mon y)"
      using assms(2) o by (simp add: dvm__monitor_exit_def Let_def)
    then show ?thesis using put [OF ok(2) [OF False]] by simp
  qed
  then show ?thesis using sys_invD(2) [OF assms(1), of t ref]
    by (intro sys_inv_hold assms(1)) (auto simp: pc_ok_def)
qed

lemma monitor_wait_begin_inv:
  assumes "sys_inv n y" "monitor_wait_begin i t ref (sys_mon y) = (Inr (saved, seen), s)"
  shows "sys_inv n (set_kept t k (set_hold t ref 0 (at_pc t Outside s y)))" "0 < unat saved" "unat saved = sys_hold y t ref"
proof -
  obtain m where m: "ms_obj (sys_mon y) ref = Some m" "monitor_owner m = t" "monitor_depth m \<noteq> 0"
      "saved = monitor_depth m"
      "s = notify_one (monitor_channel ref 1) (put_monitor ref (m\<lparr>monitor_owner := 0, monitor_depth := 0\<rparr>) (sys_mon y))"
    using assms(2) by (auto simp: monitor_wait_begin_def owned_Some split: option.splits if_splits)
  note ok = mon_ok_get [OF sys_invD(1) [OF assms(1)] m(1)]
  show "0 < unat saved" "unat saved = sys_hold y t ref" using lock_ok_owner [OF ok m(2,3)] m(4) by simp_all
  have "mon_ok s ((sys_hold y)(t := (sys_hold y t)(ref := 0)))"
    using mon_ok_put [OF sys_invD(1) [OF assms(1)], of "m\<lparr>monitor_owner := 0, monitor_depth := 0\<rparr>" t ref 0,
        unfolded hold_fun, OF lock_ok_leave [OF ok m(2,3)]] m(5) by simp
  then show "sys_inv n (set_kept t k (set_hold t ref 0 (at_pc t Outside s y)))"
    using assms(1) by (auto simp: sys_inv_def set_kept_def set_hold_def at_pc_def pc_ok_def)
qed

lemma monitor_notify_ok:
  assumes "mon_ok s hold" "dvm__monitor_notify t ref all s = (r, s')"
  shows "mon_ok s' hold"
proof (cases "owned t (ms_obj s ref)")
  case None
  then show ?thesis using assms by (simp add: dvm__monitor_notify_def)
next
  case (Some m)
  then have m: "ms_obj s ref = Some m" by (simp add: owned_Some)
  have "lock_ok (m\<lparr>monitor_seq := monitor_seq m + 1\<rparr>) (\<lambda>u. hold u ref)"
    using mon_ok_get [OF assms(1) m] by (simp add: lock_ok_def)
  then have "mon_ok (put_monitor ref (m\<lparr>monitor_seq := monitor_seq m + 1\<rparr>) s) hold"
    using mon_ok_put [OF assms(1), of _ t ref "hold t ref"] by simp
  then show ?thesis using assms(2) Some by (auto simp: dvm__monitor_notify_def Let_def split: if_splits)
qed

lemma outside_inv:
  assumes "sys_inv n y" "Suc n < 2 ^ 32" "sys_pc y t = Outside" "mon_exec t e y = Some y'"
  shows "sys_inv (Suc n) y'"
proof -
  have quit: "sys_inv (Suc n) (at_pc t Outside (sys_mon y) y)"
    using sys_inv_pc [OF assms(1) sys_invD(1) [OF assms(1)], of t Outside] by (simp add: pc_ok_def)
  show ?thesis
  proof (cases e)
    case (Enter ref)
    then show ?thesis using assms(3,4) enter_turn_inv [OF assms(1,2)] by (auto simp: mon_exec_def)
  next
    case (Exit ref)
    obtain r s where rs: "dvm__monitor_exit t ref (sys_mon y) = (r, s)" by (rule prod.exhaust)
    show ?thesis
    proof (cases "r = Done")
      case True
      then show ?thesis using assms(3,4) Exit rs monitor_exit_inv [OF assms(1), of t ref s] by (simp add: mon_exec_def)
    next
      case False
      then have "s = sys_mon y" using rs by (auto simp: dvm__monitor_exit_def Let_def split: option.splits if_splits)
      then show ?thesis using assms(3,4) Exit rs False quit by (cases r) (auto simp: mon_exec_def)
    qed
  next
    case (Wait ref timeout now later i)
    obtain w s where ws: "monitor_wait_begin i t ref (sys_mon y) = (w, s)" by (rule prod.exhaust)
    show ?thesis
    proof (cases w)
      case (Inl exc)
      then have "s = sys_mon y" using ws by (auto simp: monitor_wait_begin_def split: option.splits if_splits)
      then show ?thesis using assms(3,4) Wait ws Inl quit by (simp add: mon_exec_def)
    next
      case (Inr p)
      obtain saved seen where p: "w = Inr (saved, seen)" using Inr by (cases p) auto
      note b = monitor_wait_begin_inv [OF assms(1) ws [unfolded p]]
      let ?z = "set_kept t (sys_hold y t ref) (set_hold t ref 0 (at_pc t Outside s y))"
      have "sys_hold ?z t ref = 0" "unat saved = sys_kept ?z t" by (simp_all add: set_kept_def set_hold_def b(3))
      moreover have "unat saved \<le> n" using b(3) sys_invD(2) [OF assms(1), of t ref] by simp
      moreover have "after_wait_turn t ref saved seen (wait_deadline timeout now)
          (monitor_wait_head (wait_deadline timeout now) later s) ?z = Some y'"
        using assms(3,4) Wait ws p by (simp add: mon_exec_def Let_def)
      ultimately show ?thesis using after_wait_turn_inv [OF b(1) _ b(2)] by blast
    qed
  next
    case (Notify_mon ref all)
    obtain r s where rs: "dvm__monitor_notify t ref all (sys_mon y) = (r, s)" by (rule prod.exhaust)
    then show ?thesis
      using assms(3,4) Notify_mon sys_inv_pc [OF assms(1) monitor_notify_ok [OF sys_invD(1) [OF assms(1)] rs], of t Outside]
      by (simp add: mon_exec_def pc_ok_def)
  next
    case (Resume now i)
    then show ?thesis using assms(3,4) by (simp add: mon_exec_def)
  next
    case Halt
    then show ?thesis using assms(1,3,4) pc_ok_mono [of n _ _ _ "Suc n"] by (auto simp: mon_exec_def sys_inv_def le_SucI)
  qed
qed

lemma mon_exec_inv:
  assumes "sys_inv n y" "Suc n < 2 ^ 32" "mon_exec t e y = Some y'"
  shows "sys_inv (Suc n) y'"
proof -
  have aw: "sys_inv n (y\<lparr>sys_mon := awake t (sys_mon y)\<rparr>)" using assms(1) by simp
  note pc = sys_invD(3) [OF assms(1), of t]
  show ?thesis
  proof (cases "sys_pc y t")
    case Outside
    then show ?thesis using outside_inv [OF assms(1,2) _ assms(3)] by blast
  next
    case (Entering ref)
    then show ?thesis using assms(3) enter_turn_inv [OF aw assms(2), of t ref]
      by (auto simp: mon_exec_def split: mon_event.splits)
  next
    case (Waiting_on ref saved seen deadline)
    then have *: "sys_hold y t ref = 0" "0 < unat saved" "unat saved \<le> n" "unat saved = sys_kept y t" using pc by (simp_all add: pc_ok_def)
    obtain w where "after_wait_turn t ref saved seen deadline w (y\<lparr>sys_mon := awake t (sys_mon y)\<rparr>) = Some y'"
      using assms(3) Waiting_on by (auto simp: mon_exec_def Let_def split: mon_event.splits if_splits)
    then show ?thesis using after_wait_turn_inv [OF aw] * by simp
  next
    case (Reentering ref saved i)
    then have "sys_hold y t ref = 0" "0 < unat saved" "unat saved \<le> n" "unat saved = sys_kept y t" using pc by (simp_all add: pc_ok_def)
    then show ?thesis using assms(3) Reentering reenter_turn_inv [OF aw, of t ref saved i y']
      by (auto simp: mon_exec_def split: mon_event.splits)
  qed
qed

lemma mon_reach_inv: "mon_reach objs n y \<Longrightarrow> n < 2 ^ 32 \<Longrightarrow> sys_inv n y"
proof (induction rule: mon_reach.induct)
  case (mon_start y)
  then show ?case by (simp add: sys_inv_def mon_ok_def lock_ok_def pc_ok_def)
next
  case (mon_step n y t e y')
  then show ?case using mon_exec_inv by auto
qed


text \<open>The objects do not change.\<close>

definition known :: "mon_state \<Rightarrow> u32 \<Rightarrow> bool" where
  "known s r \<longleftrightarrow> ms_obj s r \<noteq> None"

lemma known_simps [simp]:
  "known (asleep t ch s) = known s" "known (awake t s) = known s" "known (notify_one ch s) = known s"
  "known (notify_all ch s) = known s" "known (s\<lparr>ms_stopping := b\<rparr>) = known s" "sys_mon (set_hold t ref n y) = sys_mon y" "sys_mon (at_pc t p s y) = s"
  "sys_mon (set_kept t n y) = sys_mon y"
  by (auto simp: known_def fun_eq_iff asleep_def awake_def notify_one_def notify_all_def set_hold_def set_kept_def at_pc_def)

lemma known_put [simp]: "ms_obj s ref = Some m \<Longrightarrow> known (put_monitor ref m' s) = known s"
  by (auto simp: known_def fun_eq_iff put_monitor_def)

lemma enter_turn_dom: "known (sys_mon (enter_turn t ref y)) = known (sys_mon y)"
  by (rule monitor_enter_cases [of "sys_mon y" ref t]) (auto simp: enter_turn_def split: mresult.split)

lemma reenter_turn_dom:
  assumes "reenter_turn t ref saved i y = Some y'"
  shows "known (sys_mon y') = known (sys_mon y)"
proof (cases rule: monitor_enter_cases [of "sys_mon y" ref t])
  case (entered m)
  then show ?thesis using assms
    by (auto simp: reenter_turn_def monitor_wait_end_def Let_def known_def fun_eq_iff put_monitor_def split: if_splits)
next
  case blocked
  then show ?thesis using assms by (auto simp: reenter_turn_def)
next
  case (failed x)
  then show ?thesis using assms by (cases x) (auto simp: reenter_turn_def)
qed

lemma after_wait_turn_dom:
  "after_wait_turn t ref saved seen d w y = Some y' \<Longrightarrow> known (sys_mon y') = known (sys_mon y)"
  using reenter_turn_dom by (cases w) (auto simp: after_wait_turn_def)

lemma exit_dom: "known (snd (dvm__monitor_exit t ref s)) = known s"
  by (auto simp: dvm__monitor_exit_def owned_Some Let_def split: option.splits)

lemma wait_begin_dom: "known (snd (monitor_wait_begin i t ref s)) = known s"
  by (auto simp: monitor_wait_begin_def owned_Some split: option.splits)

lemma notify_dom: "known (snd (dvm__monitor_notify t ref a s)) = known s"
  by (auto simp: dvm__monitor_notify_def owned_Some Let_def split: option.splits)

lemma outside_dom:
  assumes "mon_exec t e y = Some y'" "sys_pc y t = Outside"
  shows "known (sys_mon y') = known (sys_mon y)"
proof (cases e)
  case (Enter ref)
  then show ?thesis using assms by (auto simp: mon_exec_def enter_turn_dom)
next
  case (Exit ref)
  obtain r s where rs: "dvm__monitor_exit t ref (sys_mon y) = (r, s)" by (rule prod.exhaust)
  then have "sys_mon y' = s" using assms Exit by (cases r) (auto simp: mon_exec_def)
  then show ?thesis using exit_dom [of t ref "sys_mon y"] rs by simp
next
  case (Wait ref timeout now later i)
  obtain w s where ws: "monitor_wait_begin i t ref (sys_mon y) = (w, s)" by (rule prod.exhaust)
  have d: "known s = known (sys_mon y)" using wait_begin_dom [of i t ref "sys_mon y"] ws by simp
  show ?thesis
  proof (cases w)
    case (Inl a)
    then show ?thesis using assms Wait ws d by (auto simp: mon_exec_def)
  next
    case (Inr p)
    then show ?thesis using assms Wait ws d
      by (cases p) (auto simp: mon_exec_def Let_def dest!: after_wait_turn_dom)
  qed
next
  case (Notify_mon ref a)
  obtain r s where rs: "dvm__monitor_notify t ref a (sys_mon y) = (r, s)" by (rule prod.exhaust)
  then show ?thesis using assms Notify_mon notify_dom [of t ref a "sys_mon y"] by (auto simp: mon_exec_def)
qed (use assms in \<open>auto simp: mon_exec_def\<close>)

lemma mon_exec_dom:
  assumes "mon_exec t e y = Some y'"
  shows "known (sys_mon y') = known (sys_mon y)"
proof (cases "sys_pc y t")
  case Outside
  then show ?thesis using outside_dom assms by blast
next
  case (Entering ref)
  then show ?thesis using assms by (auto simp: mon_exec_def enter_turn_dom split: mon_event.splits)
next
  case (Waiting_on ref saved seen d)
  then show ?thesis using assms
    by (auto simp: mon_exec_def Let_def split: mon_event.splits if_splits dest!: after_wait_turn_dom)
next
  case (Reentering ref saved i)
  then show ?thesis using assms by (auto simp: mon_exec_def split: mon_event.splits dest!: reenter_turn_dom)
qed

lemma mon_reach_object: "mon_reach objs n y \<Longrightarrow> objs r \<Longrightarrow> \<exists>m. ms_obj (sys_mon y) r = Some m"
proof (induction rule: mon_reach.induct)
  case (mon_step n y t e y')
  then show ?case using mon_exec_dom by (metis known_def not_None_eq)
qed simp

section \<open>Notifications\<close>

lemma mark_one_idem [simp]: "mark_one ch (mark_one ch ws) = mark_one ch ws"
  by (induction ws) auto

definition ready_on :: "channel \<Rightarrow> event_waiter list \<Rightarrow> nat" where
  "ready_on ch ws = length (filter (\<lambda>w. w_channel w = ch \<and> w_ready w) ws)"

definition sleepers_on :: "channel \<Rightarrow> event_waiter list \<Rightarrow> nat" where
  "sleepers_on ch ws = length (filter (\<lambda>w. w_channel w = ch) ws)"

lemma mark_one_ready: "ready_on ch ws = 0 \<Longrightarrow> ready_on ch (mark_one ch ws) = min 1 (sleepers_on ch ws)"
  by (induction ws) (auto simp: ready_on_def sleepers_on_def split: if_splits)

lemma mark_all_ready: "ready_on ch (mark_all ch ws) = sleepers_on ch ws"
  by (induction ws) (auto simp: ready_on_def sleepers_on_def)

definition notify_step :: "token \<Rightarrow> u32 \<Rightarrow> mon_state \<Rightarrow> mon_state" where
  "notify_step me ref s = snd (dvm__monitor_notify me ref False s)"

lemma notify_steps:
  assumes "owned me (ms_obj s ref) = Some m"
  shows "ms_waiters ((notify_step me ref ^^ Suc k) s) = mark_one (monitor_channel ref 2) (ms_waiters s) \<and>
     ms_obj ((notify_step me ref ^^ Suc k) s) ref = Some (m\<lparr>monitor_seq := monitor_seq m + of_nat (Suc k)\<rparr>)"
proof (induction k)
  case 0
  then show ?case using assms
    by (simp add: notify_step_def dvm__monitor_notify_def notify_one_def put_monitor_def Let_def)
next
  case (Suc k)
  let ?s = "(notify_step me ref ^^ Suc k) s"
  have own: "owned me (ms_obj ?s ref) = Some (m\<lparr>monitor_seq := monitor_seq m + of_nat (Suc k)\<rparr>)"
    using Suc.IH assms by (simp add: owned_Some)
  have "notify_step me ref ?s = notify_one (monitor_channel ref 2)
      (put_monitor ref (m\<lparr>monitor_seq := monitor_seq m + of_nat (Suc k) + 1\<rparr>) ?s)"
    using own by (simp only: notify_step_def dvm__monitor_notify_def) (simp add: Let_def)
  moreover have "(notify_step me ref ^^ Suc (Suc k)) s = notify_step me ref ?s" by simp
  ultimately show ?case using Suc.IH by (simp add: notify_one_def put_monitor_def add.assoc add.commute)
qed

section \<open>The properties\<close>

text \<open>
  C22.  Monitors exclude.  In every interleaving of fewer than \<open>2^32\<close> operations (so that no
  nesting depth wraps), two threads never have entries open on the same object.  What the
  monitor records is what the threads have done: it reports itself held by exactly the thread
  with open entries, with their number as its depth (a thread that has waited has as many open
  as before the \<open>wait\<close>), and \<open>monitor-exit\<close> succeeds for exactly that thread; for any other it
  raises and changes nothing.
\<close>

theorem monitor_exclusive:
  assumes "mon_reach objs n y" "n < 2 ^ 32" "objs r"
  shows "(0 < sys_hold y t r \<and> 0 < sys_hold y u r \<longrightarrow> t = u) \<and>
     dvm__monitor_state t r True (sys_mon y) = (0 < sys_hold y t r, snd (dvm__monitor_state t r True (sys_mon y))) \<and>
     (0 < sys_hold y t r \<longrightarrow> unat (snd (dvm__monitor_state t r True (sys_mon y))) = sys_hold y t r) \<and>
     (if 0 < sys_hold y t r then fst (dvm__monitor_exit t r (sys_mon y)) = Done
      else dvm__monitor_exit t r (sys_mon y) = (Throws ''java/lang/IllegalMonitorStateException'', sys_mon y))"
proof -
  obtain m where m: "ms_obj (sys_mon y) r = Some m" using mon_reach_object [OF assms(1,3)] by blast
  note ok = mon_ok_get [OF sys_invD(1) [OF mon_reach_inv [OF assms(1,2)]] m]
  note own = lock_okD [OF ok]
  have free: "monitor_owner m = 0 \<Longrightarrow> monitor_depth m = 0"
    using own(2) own(1) [of 0] by (simp add: unat_eq_0)
  have held: "0 < sys_hold y t r \<longleftrightarrow> monitor_owner m = t \<and> monitor_depth m \<noteq> 0"
    using own(1) [of t] own(2) free by (metis neq0_conv unat_eq_0)
  have "0 < sys_hold y t r \<and> 0 < sys_hold y u r \<longrightarrow> t = u" using own(1) [of t] own(1) [of u] by auto
  moreover have "dvm__monitor_state t r True (sys_mon y) = (0 < sys_hold y t r, monitor_depth m)"
    using m own(1) [of t] by (auto simp: dvm__monitor_state_def)
  moreover have "0 < sys_hold y t r \<longrightarrow> unat (monitor_depth m) = sys_hold y t r" using own(2) held by simp
  moreover have "0 < sys_hold y t r \<Longrightarrow> fst (dvm__monitor_exit t r (sys_mon y)) = Done"
    using m held by (simp add: dvm__monitor_exit_def owned_def Let_def)
  moreover have "\<not> 0 < sys_hold y t r \<Longrightarrow>
      dvm__monitor_exit t r (sys_mon y) = (Throws ''java/lang/IllegalMonitorStateException'', sys_mon y)"
    using m held by (auto simp: dvm__monitor_exit_def owned_def)
  ultimately show ?thesis by simp
qed

definition mon_first :: mon_sys where
  "mon_first = \<lparr>sys_mon = \<lparr>ms_obj = (\<lambda>r. if r = 5 then Some \<lparr>monitor_owner = 0, monitor_depth = 0, monitor_seq = 0\<rparr> else None),
     ms_waiters = [], ms_stopping = False\<rparr>, sys_pc = (\<lambda>t. Outside), sys_hold = (\<lambda>t r. 0), sys_kept = (\<lambda>t. 0)\<rparr>"

text \<open>A thread enters twice and waits until its timeout.\<close>

lemma mon_sample: "\<exists>y. mon_reach (\<lambda>r. r = 5) 3 y \<and> sys_hold y 1 5 = 2"
proof -
  note run = mon_exec_def mon_first_def enter_turn_def dvm__monitor_enter_def dvm__monitor_try_enter_def set_hold_def
    set_kept_def at_pc_def put_monitor_def
  let ?y2 = "enter_turn 1 5 (enter_turn 1 5 mon_first)"
  have "mon_reach (\<lambda>r. r = 5) 0 mon_first" by (rule mon_start) (simp_all add: mon_first_def)
  then have "mon_reach (\<lambda>r. r = 5) (Suc 0) (enter_turn 1 5 mon_first)"
    by (rule mon_step [of _ _ _ 1 "Enter 5"]) (simp add: mon_exec_def mon_first_def)
  then have y2: "mon_reach (\<lambda>r. r = 5) (Suc (Suc 0)) ?y2"
    by (rule mon_step [of _ _ _ 1 "Enter 5"]) (simp add: run)
  obtain y where y: "mon_exec 1 (Wait 5 1 0 5 False) ?y2 = Some y" "sys_hold y 1 5 = 2"
    by (simp add: run monitor_wait_begin_def owned_def wait_deadline_def monitor_wait_head_def after_wait_turn_def
        reenter_turn_def monitor_wait_end_def notify_one_def Let_def)
  from mon_step [OF y2 y(1)] y(2) show ?thesis by (auto simp: numeral_3_eq_3)
qed

theorem monitor_exclusive_witness:
  "\<exists>y. mon_reach (\<lambda>r. r = 5) 3 y \<and> sys_hold y 1 5 = 2 \<and> sys_hold y 2 5 = 0 \<and>
     unat (snd (dvm__monitor_state 1 5 True (sys_mon y))) = 2 \<and> fst (dvm__monitor_exit 1 5 (sys_mon y)) = Done"
proof -
  obtain y where y: "mon_reach (\<lambda>r. r = 5) 3 y" "sys_hold y 1 5 = 2" using mon_sample by blast
  show ?thesis
    using monitor_exclusive [OF y(1), of 5 1 2] monitor_exclusive [OF y(1), of 5 2 1] y by (auto split: if_splits)
qed

text \<open>
   A waiter can miss its notification.  When several threads wait on an object and none has
  been notified yet, any number of calls of \<open>notify\<close> in a row readies only one of them, because
  the channel is searched for the first waiter and not for the first that is not ready; the
  other waiters stay asleep until their timeout, although \<open>notifyAll\<close> readies all of them.
\<close>

theorem monitor_notify_lost:
  assumes "ms_obj s ref = Some m" "monitor_owner m = me" "monitor_depth m \<noteq> 0"
    and "ready_on (monitor_channel ref 2) (ms_waiters s) = 0"
  shows "ready_on (monitor_channel ref 2) (ms_waiters ((notify_step me ref ^^ Suc k) s)) =
      min 1 (sleepers_on (monitor_channel ref 2) (ms_waiters s)) \<and>
    ready_on (monitor_channel ref 2) (ms_waiters (snd (dvm__monitor_notify me ref True s))) =
      sleepers_on (monitor_channel ref 2) (ms_waiters s)"
proof -
  have "owned me (ms_obj s ref) = Some m" using assms(1-3) by (simp add: owned_Some)
  then show ?thesis
    using notify_steps [of me s ref m k] mark_one_ready [OF assms(4)] mark_all_ready
    by (simp add: dvm__monitor_notify_def notify_all_def put_monitor_def Let_def)
qed

theorem monitor_notify_lost_witness:
  "let s = \<lparr>ms_obj = [5 \<mapsto> \<lparr>monitor_owner = 1, monitor_depth = 1, monitor_seq = 0\<rparr>],
         ms_waiters = [\<lparr>w_thread = 2, w_channel = 22, w_ready = False\<rparr>, \<lparr>w_thread = 3, w_channel = 22, w_ready = False\<rparr>],
         ms_stopping = False\<rparr> in
   sleepers_on 22 (ms_waiters s) = 2 \<and> ready_on 22 (ms_waiters (notify_step 1 5 (notify_step 1 5 s))) = 1"
proof -
  let ?s = "\<lparr>ms_obj = [5 \<mapsto> \<lparr>monitor_owner = 1, monitor_depth = 1, monitor_seq = 0\<rparr>],
         ms_waiters = [\<lparr>w_thread = 2, w_channel = 22, w_ready = False\<rparr>, \<lparr>w_thread = 3, w_channel = 22, w_ready = False\<rparr>],
         ms_stopping = False\<rparr>"
  have "ready_on (monitor_channel 5 2) (ms_waiters ((notify_step 1 5 ^^ Suc 1) ?s)) =
      min 1 (sleepers_on (monitor_channel 5 2) (ms_waiters ?s))"
    using monitor_notify_lost [of ?s 5 "\<lparr>monitor_owner = 1, monitor_depth = 1, monitor_seq = 0\<rparr>" 1 1]
    by (simp add: ready_on_def monitor_channel_def)
  then show ?thesis by (simp add: sleepers_on_def monitor_channel_def)
qed

end
