(* ===== verification/Dvm_Field.thy ===== *)
theory Dvm_Field
  imports Dvm_Registry Dvm_Store
begin

text \<open>
  Fields (\<open>src/src/dvm/dvm.c\<close>, \<open>class_find_field\<close> and the section "Fields"): the cache of
  successful lookups that each thread keeps, and the reading and writing of instance and static
  fields by name.  The cache is keyed by addresses, so a name or type is the address of a C
  string; \<open>mem\<close> is what the memory holds there at the time of the call, and \<open>place\<close> the address
  of a class.
\<close>

type_synonym addr = u64

record field_hit =
  fh_cls :: "cref option"
  fh_owner :: "cref option"
  fh_name :: addr
  fh_type :: "addr option"
  fh_index :: nat
  fh_statics :: bool

definition hit_zero :: field_hit where
  "hit_zero = \<lparr>fh_cls = None, fh_owner = None, fh_name = 0, fh_type = None, fh_index = 0, fh_statics = False\<rparr>"

record field_cache =
  fc_hits :: "field_hit list"
  fc_generation :: u64

definition field_key :: "addr \<Rightarrow> addr \<Rightarrow> addr option \<Rightarrow> bool \<Rightarrow> u64" where
  "field_key cls name ty statics =
     drop_bit 7 (((((drop_bit 4 cls * 2654435761) XOR drop_bit 3 name) XOR
       (drop_bit 2 (case ty of None \<Rightarrow> 0 | Some a \<Rightarrow> a) * 40503)) XOR (if statics then 1 else 0)) * 2246822519)"

definition fields_of :: "bool \<Rightarrow> dvm_class \<Rightarrow> dvm_field list" where
  "fields_of statics k = (if statics then c_sfields k else c_ifields k)"

definition hit_field ::
    "(addr \<Rightarrow> string) \<Rightarrow> dvm_class list \<Rightarrow> field_hit \<Rightarrow> cref \<Rightarrow> addr \<Rightarrow> addr option \<Rightarrow> bool \<Rightarrow> (cref \<times> nat) option option" where
  "hit_field mem cs hit cls name ty statics =
     (if fh_cls hit = Some cls \<and> fh_name hit = name \<and> fh_statics hit = statics then
        (case fh_owner hit of None \<Rightarrow> Some None
         | Some ow \<Rightarrow> do {
             k \<leftarrow> c_at cs ow;
             if fh_index hit < length (fields_of statics k) \<and>
                field_matches (mem name) (map_option mem ty) (fields_of statics k ! fh_index hit)
             then Some (Some (ow, fh_index hit)) else Some None })
      else Some None)"

definition class_find_field ::
    "nat \<Rightarrow> (cref \<Rightarrow> addr) \<Rightarrow> u64 \<Rightarrow> (addr \<Rightarrow> string) \<Rightarrow> dvm_class list \<Rightarrow> field_cache \<Rightarrow> cref \<Rightarrow> addr \<Rightarrow> addr option \<Rightarrow> bool \<Rightarrow>
     ((cref \<times> nat) option \<times> field_cache) option" where
  "class_find_field n place gen mem cs fc cls name ty statics = do {
     let fc = (if fc_generation fc \<noteq> gen then \<lparr>fc_hits = replicate 2048 hit_zero, fc_generation = gen\<rparr> else fc);
     let i = unat (field_key (place cls) name ty statics AND 2047);
     hit \<leftarrow> c_at (fc_hits fc) i;
     r \<leftarrow> hit_field mem cs hit cls name ty statics;
     case r of Some f \<Rightarrow> Some (Some f, fc)
     | None \<Rightarrow> do {
         r \<leftarrow> class_find_field_slow n cs (mem name) (map_option mem ty) statics cls;
         Some (r, fc\<lparr>fc_hits := (fc_hits fc)[i := (case r of None \<Rightarrow> hit_zero
           | Some (ow, k) \<Rightarrow> \<lparr>fh_cls = Some cls, fh_owner = Some ow, fh_name = name, fh_type = ty, fh_index = k,
               fh_statics = statics\<rparr>)]\<rparr>) } }"

section \<open>Instance fields\<close>

text \<open>The lookup is an argument: the cached one above, or any function that answers like it.\<close>

type_synonym field_search = "cref \<Rightarrow> (cref \<times> nat) option option"

definition slot_of :: "field_search \<Rightarrow> dvm_class list \<Rightarrow> dvm_object \<Rightarrow> cref option \<Rightarrow> nat option option" where
  "slot_of search cs ob owner = (case o_cls ob of None \<Rightarrow> Some None
     | Some c \<Rightarrow> do {
         f \<leftarrow> search (case owner of None \<Rightarrow> c | Some w \<Rightarrow> w);
         if o_slots ob = None then Some None
         else case f of None \<Rightarrow> Some None
           | Some (ow, i) \<Rightarrow> do {
               k \<leftarrow> c_at cs ow;
               fld \<leftarrow> c_at (c_ifields k) i;
               kc \<leftarrow> c_at cs c;
               Some (if c_islots kc \<le> unat (f_slot fld) then None else Some (unat (f_slot fld))) } })"

definition dvm__get_field_from ::
    "field_search \<Rightarrow> dvm_class list \<Rightarrow> dvm_heap \<Rightarrow> u32 \<Rightarrow> cref option \<Rightarrow> u64 option option" where
  "dvm__get_field_from search cs h obj owner = do {
     ob \<leftarrow> dvm__obj h obj;
     case ob of None \<Rightarrow> Some None
     | Some x \<Rightarrow> do {
         s \<leftarrow> slot_of search cs x owner;
         case (s, o_slots x) of
           (Some i, Some ss) \<Rightarrow> do { v \<leftarrow> c_at ss i; Some (Some v) }
         | _ \<Rightarrow> Some None } }"

definition dvm__set_field_from ::
    "field_search \<Rightarrow> dvm_class list \<Rightarrow> dvm_heap \<Rightarrow> u32 \<Rightarrow> cref option \<Rightarrow> u64 \<Rightarrow> (bool \<times> dvm_heap) option" where
  "dvm__set_field_from search cs h obj owner v = do {
     ob \<leftarrow> dvm__obj h obj;
     case ob of None \<Rightarrow> Some (False, h)
     | Some x \<Rightarrow> do {
         s \<leftarrow> slot_of search cs x owner;
         case (s, o_slots x) of
           (Some i, Some ss) \<Rightarrow> do {
             ss \<leftarrow> c_set ss i v;
             h \<leftarrow> heap_put h obj (x\<lparr>o_slots := Some ss\<rparr>);
             Some (True, h) }
         | _ \<Rightarrow> Some (False, h) } }"

definition dvm_get_field :: "field_search \<Rightarrow> dvm_class list \<Rightarrow> dvm_heap \<Rightarrow> u32 \<Rightarrow> u64 option option" where
  "dvm_get_field search cs h obj = dvm__get_field_from search cs h obj None"

definition dvm_set_field :: "field_search \<Rightarrow> dvm_class list \<Rightarrow> dvm_heap \<Rightarrow> u32 \<Rightarrow> u64 \<Rightarrow> (bool \<times> dvm_heap) option" where
  "dvm_set_field search cs h obj v = dvm__set_field_from search cs h obj None v"

section \<open>Static fields\<close>

text \<open>\<open>init\<close> is \<open>dvm_init_class\<close>, which may run code and change the classes.\<close>

definition static_slot :: "field_search \<Rightarrow> dvm_class list \<Rightarrow> cref \<Rightarrow> (cref \<times> nat) option option" where
  "static_slot search cs cls = do {
     f \<leftarrow> search cls;
     case f of None \<Rightarrow> Some None
     | Some (ow, i) \<Rightarrow> do {
         k \<leftarrow> c_at cs ow;
         fld \<leftarrow> c_at (c_sfields k) i;
         kf \<leftarrow> c_at cs (f_cls fld);
         case c_sslots kf of None \<Rightarrow> Some None
         | Some ss \<Rightarrow> Some (if length ss \<le> unat (f_slot fld) then None else Some (f_cls fld, unat (f_slot fld))) } }"

definition dvm_get_static ::
    "(cref \<Rightarrow> dvm_class list \<Rightarrow> (bool \<times> dvm_class list) option) \<Rightarrow> field_search \<Rightarrow> dvm_class list \<Rightarrow> cref \<Rightarrow>
     (u64 option \<times> dvm_class list) option" where
  "dvm_get_static init search cs cls = do {
     s \<leftarrow> static_slot search cs cls;
     case s of None \<Rightarrow> Some (None, cs)
     | Some (w, i) \<Rightarrow> do {
         (good, cs) \<leftarrow> init w cs;
         if \<not> good then Some (None, cs)
         else do {
           k \<leftarrow> c_at cs w;
           ss \<leftarrow> c_sslots k;
           v \<leftarrow> c_at ss i;
           Some (Some v, cs) } } }"

definition dvm_set_static :: "field_search \<Rightarrow> dvm_class list \<Rightarrow> cref \<Rightarrow> u64 \<Rightarrow> (bool \<times> dvm_class list) option" where
  "dvm_set_static search cs cls v = do {
     s \<leftarrow> static_slot search cs cls;
     case s of None \<Rightarrow> Some (False, cs)
     | Some (w, i) \<Rightarrow> do {
         k \<leftarrow> c_at cs w;
         ss \<leftarrow> c_sslots k;
         ss \<leftarrow> c_set ss i v;
         cs \<leftarrow> c_set cs w (k\<lparr>c_sslots := Some ss\<rparr>);
         Some (True, cs) } }"

section \<open>The cache is transparent\<close>

text \<open>
  The lookups for one name under two types, the second of which admits fewer fields: if the
  first finds nothing, so does the second, and if the field that the first finds is admitted
  by the second, the second finds it too.
\<close>

definition admits :: "string \<Rightarrow> string option \<Rightarrow> bool \<Rightarrow> dvm_class list \<Rightarrow> cref \<times> nat \<Rightarrow> bool" where
  "admits nm ty statics cs r = field_matches nm ty (fields_of statics (cs ! fst r) ! snd r)"

definition narrows ::
    "(cref \<times> nat \<Rightarrow> bool) \<Rightarrow> (cref \<times> nat) option option \<Rightarrow> (cref \<times> nat) option option \<Rightarrow> bool" where
  "narrows good a b \<longleftrightarrow> (a = Some None \<longrightarrow> b = Some None) \<and> (\<forall>r. a = Some (Some r) \<longrightarrow> good r \<longrightarrow> b = Some (Some r))"

lemma field_index_narrow:
  assumes "\<And>f. field_matches nm t1 f \<Longrightarrow> field_matches nm t0 f"
  shows "field_index i fs nm t0 = None \<Longrightarrow> field_index i fs nm t1 = None"
    and "field_index i fs nm t0 = Some j \<Longrightarrow> field_matches nm t1 (fs ! (j - i)) \<Longrightarrow> field_index i fs nm t1 = Some j"
proof -
  show "field_index i fs nm t0 = None \<Longrightarrow> field_index i fs nm t1 = None"
    using assms by (induction fs arbitrary: i) (auto split: if_splits)
  have le: "field_index i fs nm ty = Some j \<Longrightarrow> i \<le> j" for i fs ty
    by (induction fs arbitrary: i) (fastforce split: if_splits)+
  show "field_index i fs nm t0 = Some j \<Longrightarrow> field_matches nm t1 (fs ! (j - i)) \<Longrightarrow> field_index i fs nm t1 = Some j"
  proof (induction fs arbitrary: i)
    case (Cons f fs)
    show ?case
    proof (cases "field_matches nm t0 f")
      case True
      then show ?thesis using Cons.prems by simp
    next
      case False
      then have "field_index (Suc i) fs nm t0 = Some j" "\<not> field_matches nm t1 f" using Cons.prems assms by auto
      moreover from this have "Suc i \<le> j" using le by blast
      then have "(f # fs) ! (j - i) = fs ! (j - Suc i)" by (simp add: nth_Cons' Suc_diff_le)
      ultimately show ?thesis using Cons.IH [of "Suc i"] Cons.prems(2) by simp
    qed
  qed simp
qed

lemma narrows_orelse:
  assumes "narrows good a0 a1" "narrows good b0 b1"
  shows "narrows good (a0 \<bind> (\<lambda>f. case f of None \<Rightarrow> b0 | Some r \<Rightarrow> Some (Some r)))
    (a1 \<bind> (\<lambda>f. case f of None \<Rightarrow> b1 | Some r \<Rightarrow> Some (Some r)))"
proof (cases a0)
  case None
  then show ?thesis by (simp add: narrows_def)
next
  case (Some x)
  show ?thesis
  proof (cases x)
    case None
    then show ?thesis using Some assms by (simp add: narrows_def)
  next
    case (Some r)
    then have "good r \<Longrightarrow> a1 = Some (Some r)" using \<open>a0 = Some x\<close> assms(1) by (simp add: narrows_def)
    then show ?thesis using Some \<open>a0 = Some x\<close> by (cases "good r") (auto simp: narrows_def)
  qed
qed

lemma iface_fields_narrow:
  assumes "\<And>i. narrows good (S0 i) (S1 i)"
  shows "narrows good (iface_fields S0 js) (iface_fields S1 js)"
proof (induction js)
  case (Cons j js)
  show ?case
  proof (cases j)
    case None
    then show ?thesis using Cons by simp
  next
    case (Some i)
    then show ?thesis using narrows_orelse [OF assms [of i] Cons] by simp
  qed
qed (simp add: narrows_def)

lemma field_walk_narrow:
  assumes sub: "\<And>f. field_matches nm t1 f \<Longrightarrow> field_matches nm t0 f"
    and "\<And>i. narrows (admits nm t1 statics cs) (S0 i) (S1 i)"
  shows "narrows (admits nm t1 statics cs) (field_walk n S0 cs c nm t0 statics) (field_walk n S1 cs c nm t1 statics)"
proof (induction n arbitrary: c)
  case (Suc n)
  show ?case
  proof (cases c)
    case None
    then show ?thesis by (simp add: narrows_def)
  next
    case (Some i)
    show ?thesis
    proof (cases "i < length cs")
      case False
      then show ?thesis using Some by (simp add: narrows_def c_at_def)
    next
      case True
      define k where "k = cs ! i"
      define fs where "fs = (if statics then c_sfields k else c_ifields k)"
      have fs: "fields_of statics (cs ! i) = fs" by (simp add: fields_of_def k_def fs_def)
      have at: "c_at cs i = Some k" using True by (simp add: k_def)
      note inner = iface_fields_narrow [where good = "admits nm t1 statics cs" and ?S0.0 = S0 and ?S1.0 = S1 and js = "c_ifaces k",
          OF assms(2)]
      have null: "class_fields statics k = (if (if statics then c_sfields_null k else c_ifields_null k) then None else Some fs)"
        by (simp add: class_fields_def fs_def)
      show ?thesis
      proof (cases "field_index 0 fs nm t0")
        case (Some j)
        have "admits nm t1 statics cs (i, j) \<Longrightarrow> field_index 0 fs nm t1 = Some j"
          using field_index_narrow(2) [OF sub Some] by (simp add: admits_def fs)
        then show ?thesis using Some \<open>c = Some i\<close> at by (auto simp: narrows_def null)
      next
        case None
        then have "field_index 0 fs nm t1 = None" using field_index_narrow(1) [OF sub] by blast
        moreover have "narrows (admits nm t1 statics cs) (if statics then iface_fields S0 (c_ifaces k) else Some None)
            (if statics then iface_fields S1 (c_ifaces k) else Some None)"
          using inner by (simp add: narrows_def)
        ultimately show ?thesis using None \<open>c = Some i\<close> at narrows_orelse [OF _ Suc.IH [of "c_super k"]]
          by (simp add: null narrows_def)
      qed
    qed
  qed
qed (simp add: narrows_def)

lemma walk_instance: "field_walk m S cs c nm t False = field_walk m S' cs c nm t False"
proof (induction m arbitrary: c)
  case (Suc m)
  then show ?case by (cases c) (simp_all only: field_walk.simps if_False option.case)
qed simp

lemma field_slow_narrow:
  assumes "\<And>f. field_matches nm t1 f \<Longrightarrow> field_matches nm t0 f"
  shows "narrows (admits nm t1 statics cs) (class_find_field_slow n cs nm t0 statics c) (class_find_field_slow n cs nm t1 statics c)"
proof (induction n arbitrary: statics c)
  case (Suc n)
  show ?case
  proof (cases statics)
    case True
    then show ?thesis using field_walk_narrow [OF assms Suc.IH [of True], where n = "Suc n"]
      by (simp del: field_walk.simps)
  next
    case False
    then have st: "statics = False" by simp
    show ?thesis unfolding st class_find_field_slow.simps
        walk_instance [where S = "class_find_field_slow n cs nm t0 True" and S' = "\<lambda>_. Some None"]
        walk_instance [where S = "class_find_field_slow n cs nm t1 True" and S' = "\<lambda>_. Some None"]
      by (rule field_walk_narrow [OF assms]) (simp_all add: narrows_def)
  qed
qed (simp add: narrows_def)


text \<open>Every filled slot of the cache was once the answer of the walk to a query for the name of the field.\<close>

definition hit_ok :: "nat \<Rightarrow> dvm_class list \<Rightarrow> field_hit \<Rightarrow> bool" where
  "hit_ok n cs hit \<longleftrightarrow> (\<forall>c ow. fh_cls hit = Some c \<longrightarrow> fh_owner hit = Some ow \<longrightarrow>
     (\<exists>nm t0. class_find_field_slow n cs nm t0 (fh_statics hit) c = Some (Some (ow, fh_index hit)) \<and>
       admits nm t0 (fh_statics hit) cs (ow, fh_index hit)))"

definition field_cache_ok :: "nat \<Rightarrow> u64 \<Rightarrow> dvm_class list \<Rightarrow> field_cache \<Rightarrow> bool" where
  "field_cache_ok n gen cs fc \<longleftrightarrow> length (fc_hits fc) = 2048 \<and>
     (fc_generation fc = gen \<longrightarrow> (\<forall>hit \<in> set (fc_hits fc). hit_ok n cs hit))"

definition types_known :: "dvm_class list \<Rightarrow> bool" where
  "types_known cs \<longleftrightarrow> (\<forall>k \<in> set cs. \<forall>f \<in> set (c_ifields k) \<union> set (c_sfields k). f_type f \<noteq> None)"

text \<open>What the walk finds lies in a class and matches.\<close>

definition found :: "string \<Rightarrow> string option \<Rightarrow> bool \<Rightarrow> dvm_class list \<Rightarrow> (cref \<times> nat) option option \<Rightarrow> bool" where
  "found nm ty statics cs a \<longleftrightarrow> (\<forall>r. a = Some (Some r) \<longrightarrow> fst r < length cs \<and>
     snd r < length (fields_of statics (cs ! fst r)) \<and> admits nm ty statics cs r)"

lemma found_orelse:
  assumes "found nm ty st cs a" "found nm ty st cs b"
  shows "found nm ty st cs (a \<bind> (\<lambda>f. case f of None \<Rightarrow> b | Some r \<Rightarrow> Some (Some r)))"
  using assms by (cases a) (auto simp: found_def split: option.splits)

lemma field_index_found: "field_index i fs nm ty = Some j \<Longrightarrow> i \<le> j \<and> j < i + length fs \<and> field_matches nm ty (fs ! (j - i))"
proof (induction fs arbitrary: i)
  case (Cons f fs)
  show ?case
  proof (cases "field_matches nm ty f")
    case True
    then show ?thesis using Cons.prems by simp
  next
    case False
    then have "Suc i \<le> j \<and> j < Suc i + length fs \<and> field_matches nm ty (fs ! (j - Suc i))"
      using Cons.IH [of "Suc i"] Cons.prems by simp
    then show ?thesis by (auto simp: nth_Cons' Suc_diff_le)
  qed
qed simp

lemma iface_fields_found:
  assumes "\<And>i. found nm ty st cs (S i)"
  shows "found nm ty st cs (iface_fields S js)"
proof (induction js)
  case (Cons j js)
  then show ?case using found_orelse [OF assms Cons] by (cases j) simp_all
qed (simp add: found_def)

lemma field_walk_found:
  assumes "\<And>i. found nm ty statics cs (S i)"
  shows "found nm ty statics cs (field_walk n S cs c nm ty statics)"
proof (induction n arbitrary: c)
  case (Suc n)
  show ?case
  proof (cases "\<exists>i. c = Some i \<and> i < length cs")
    case True
    then obtain i where c: "c = Some i" "i < length cs" by blast
    have null: "class_fields statics (cs ! i) = None \<or> class_fields statics (cs ! i) = Some (fields_of statics (cs ! i))"
      by (simp add: class_fields_def fields_of_def)
    show ?thesis
    proof (cases "field_index 0 (fields_of statics (cs ! i)) nm ty")
      case (Some j)
      have "field_walk (Suc n) S cs c nm ty statics \<in> {None, Some (Some (i, j))}" using Some c null by auto
      moreover have "found nm ty statics cs (Some (Some (i, j)))"
        using c field_index_found [OF Some] by (simp add: found_def admits_def)
      moreover have "found nm ty statics cs None" by (simp add: found_def)
      ultimately show ?thesis by (metis insertE singletonD)
    next
      case None
      have "found nm ty statics cs (iface_fields S (c_ifaces (cs ! i)))" by (rule iface_fields_found [OF assms])
      then have "found nm ty statics cs (if statics then iface_fields S (c_ifaces (cs ! i)) else Some None)"
        by (cases statics) (simp_all add: found_def)
      note next' = found_orelse [OF this Suc.IH [of "c_super (cs ! i)"]]
      from null show ?thesis
      proof
        assume "class_fields statics (cs ! i) = None"
        then show ?thesis using c by (simp add: found_def)
      next
        assume "class_fields statics (cs ! i) = Some (fields_of statics (cs ! i))"
        then show ?thesis using c None next' by simp
      qed
    qed
  next
    case False
    then show ?thesis by (cases c) (simp_all add: found_def c_at_def)
  qed
qed (simp add: found_def)

lemma field_slow_found: "found nm ty statics cs (class_find_field_slow n cs nm ty statics c)"
proof (induction n arbitrary: statics c)
  case (Suc n)
  show ?case
  proof (cases statics)
    case True
    then show ?thesis using field_walk_found [OF Suc.IH [of True], where n = "Suc n"] by (simp del: field_walk.simps)
  next
    case False
    then have st: "statics = False" by simp
    show ?thesis unfolding st class_find_field_slow.simps
        walk_instance [where S = "class_find_field_slow n cs nm ty True" and S' = "\<lambda>_. Some None"]
      by (rule field_walk_found) (simp add: found_def)
  qed
qed (simp add: found_def)

lemma matches_name: "field_matches nm ty f \<Longrightarrow> f_name f = Some nm"
  by (simp add: field_matches_def)

lemma hit_answers:
  assumes "hit_ok n cs hit" "types_known cs" "hit_field mem cs hit cls name (Some a) statics = Some (Some r)"
  shows "class_find_field_slow n cs (mem name) (Some (mem a)) statics cls = Some (Some r)"
proof -
  obtain ow where h: "fh_cls hit = Some cls" "fh_owner hit = Some ow" "fh_statics hit = statics" "r = (ow, fh_index hit)"
      "ow < length cs" "fh_index hit < length (fields_of statics (cs ! ow))"
      "admits (mem name) (Some (mem a)) statics cs r"
    using assms(3) by (auto simp: hit_field_def admits_def c_at_def split: if_splits option.splits)
  obtain nm t0 where q: "class_find_field_slow n cs nm t0 statics cls = Some (Some r)" "admits nm t0 statics cs r"
    using assms(1) h by (auto simp: hit_ok_def)
  define f where "f = fields_of statics (cs ! ow) ! fh_index hit"
  have f: "field_matches (mem name) (Some (mem a)) f" "field_matches nm t0 f" using h(4,7) q(2) by (simp_all add: admits_def f_def)
  have "f \<in> set (c_ifields (cs ! ow)) \<union> set (c_sfields (cs ! ow))" using h(6) by (auto simp: f_def fields_of_def split: if_splits)
  then obtain ft where ft: "f_type f = Some ft" using assms(2) nth_mem [OF h(5)] unfolding types_known_def by blast
  have nm: "nm = mem name" using matches_name [OF f(1)] matches_name [OF f(2)] by simp
  have "field_matches nm t0 g" if "field_matches nm (Some (mem a)) g" for g
    using that f ft by (auto simp: field_matches_def split: option.splits)
  then have "narrows (admits nm (Some (mem a)) statics cs) (class_find_field_slow n cs nm t0 statics cls)
      (class_find_field_slow n cs nm (Some (mem a)) statics cls)"
    by (rule field_slow_narrow)
  then show ?thesis using q(1) h(7) unfolding narrows_def nm by blast
qed


lemma hit_total:
  assumes "hit_ok n cs hit"
  shows "\<exists>r. hit_field mem cs hit cls name ty statics = Some r"
proof (cases "fh_cls hit = Some cls \<and> fh_name hit = name \<and> fh_statics hit = statics \<and> fh_owner hit \<noteq> None")
  case True
  then obtain ow where ow: "fh_owner hit = Some ow" by blast
  obtain nm t0 where "class_find_field_slow n cs nm t0 statics cls = Some (Some (ow, fh_index hit))"
    using assms True ow by (auto simp: hit_ok_def)
  then have "ow < length cs" using field_slow_found [of nm t0 statics cs n cls] by (auto simp: found_def)
  then show ?thesis using True ow by (simp add: hit_field_def)
next
  case False
  then show ?thesis by (auto simp: hit_field_def split: option.splits)
qed

lemma slot_index: "unat (k AND 2047 :: u64) < 2048"
proof -
  have "k AND 2047 = take_bit 11 k" by (simp add: take_bit_eq_mask mask_eq_exp_minus_1)
  moreover have "unat (take_bit 11 k) < 2 ^ 11" by (simp only: unsigned_take_bit_eq take_bit_nat_less_exp)
  ultimately show ?thesis by simp
qed

lemma slot_of_bound:
  assumes "slot_of s cs x w = Some (Some j)" "o_cls x = Some c" "c < length cs"
  shows "j < c_islots (cs ! c)"
proof -
  obtain f where f: "s (case w of None \<Rightarrow> c | Some w \<Rightarrow> w) = Some f"
    using assms(1,2) by (cases "s (case w of None \<Rightarrow> c | Some w \<Rightarrow> w)") (simp_all add: slot_of_def)
  moreover obtain ow i where "f = Some (ow, i)" "o_slots x \<noteq> None"
    using f assms(1,2) by (cases f; cases "o_slots x") (auto simp: slot_of_def)
  ultimately show ?thesis
    using assms by (auto simp: slot_of_def bind_eq_Some_conv split: if_splits)
qed

section \<open>Properties\<close>

text \<open>
  C33. The field cache is transparent for lookups with a type.  Whatever the cache has collected,
  whatever strings the callers keep at their addresses, and however the keys collide, a lookup
  that names the type of the field ends with the field that the walk over the classes and
  interfaces finds, and leaves the cache usable.
\<close>

theorem field_cache_transparent:
  assumes "field_cache_ok n gen cs fc" "types_known cs"
    and "class_find_field_slow n cs (mem name) (Some (mem ty)) statics cls = Some r"
  shows "\<exists>fc'. class_find_field n place gen mem cs fc cls name (Some ty) statics = Some (r, fc') \<and>
    field_cache_ok n gen cs fc' \<and> fc_generation fc' = gen"
proof -
  define fc1 where "fc1 = (if fc_generation fc \<noteq> gen then \<lparr>fc_hits = replicate 2048 hit_zero, fc_generation = gen\<rparr> else fc)"
  define i where "i = unat (field_key (place cls) name (Some ty) statics AND 2047)"
  have zero: "hit_ok n cs hit_zero" by (simp add: hit_ok_def hit_zero_def)
  have ok1: "field_cache_ok n gen cs fc1" "fc_generation fc1 = gen"
    using assms(1) zero by (auto simp: fc1_def field_cache_ok_def)
  have i: "i < length (fc_hits fc1)" using ok1(1) slot_index by (simp add: i_def field_cache_ok_def)
  define hit where "hit = fc_hits fc1 ! i"
  have hit: "hit_ok n cs hit" using ok1 i by (simp add: hit_def field_cache_ok_def)
  obtain a where a: "hit_field mem cs hit cls name (Some ty) statics = Some a" using hit_total [OF hit] by blast
  have run: "class_find_field n place gen mem cs fc cls name (Some ty) statics = (case a of Some f \<Rightarrow> Some (Some f, fc1)
     | None \<Rightarrow> Some (r, fc1\<lparr>fc_hits := (fc_hits fc1)[i := (case r of None \<Rightarrow> hit_zero
         | Some (ow, k) \<Rightarrow> \<lparr>fh_cls = Some cls, fh_owner = Some ow, fh_name = name, fh_type = Some ty, fh_index = k,
             fh_statics = statics\<rparr>)]\<rparr>))"
    using i a assms(3) unfolding class_find_field_def Let_def fc1_def [symmetric] i_def [symmetric]
    by (simp add: hit_def [symmetric] split: option.split)
  show ?thesis
  proof (cases a)
    case (Some f)
    then have "r = Some f" using hit_answers [OF hit assms(2)] a assms(3) by simp
    then show ?thesis using run Some ok1 by simp
  next
    case None
    define e where "e = (case r of None \<Rightarrow> hit_zero
         | Some (ow, k) \<Rightarrow> \<lparr>fh_cls = Some cls, fh_owner = Some ow, fh_name = name, fh_type = Some ty, fh_index = k,
             fh_statics = statics\<rparr>)"
    have "hit_ok n cs e"
      using zero assms(3) field_slow_found [of "mem name" "Some (mem ty)" statics cs n cls]
      by (cases r) (simp_all add: e_def hit_ok_def found_def split_beta, blast)
    then have "field_cache_ok n gen cs (fc1\<lparr>fc_hits := (fc_hits fc1)[i := e]\<rparr>)"
      using ok1 set_update_subset_insert [of "fc_hits fc1" i e] by (auto simp: field_cache_ok_def)
    then show ?thesis using run None ok1(2) by (simp add: e_def)
  qed
qed

text \<open>A class with two fields of one name, as obfuscators produce them, and strings at two addresses.\<close>

definition twin_class :: dvm_class where
  "twin_class = class_zero\<lparr>c_desc := ''LT;'', c_ifields := [
     \<lparr>f_name = Some ''a'', f_type = Some ''I'', f_access = 0, f_cls = 0, f_slot = 0, f_kind = CHR ''I''\<rparr>,
     \<lparr>f_name = Some ''a'', f_type = Some ''J'', f_access = 0, f_cls = 0, f_slot = 1, f_kind = CHR ''J''\<rparr>]\<rparr>"

definition twin_mem :: "addr \<Rightarrow> string" where
  "twin_mem p = (if p = 0x1000 then ''a'' else if p = 0x100000 then ''J'' else [])"

definition cache_empty :: field_cache where
  "cache_empty = \<lparr>fc_hits = replicate 2048 hit_zero, fc_generation = 1\<rparr>"

theorem field_cache_transparent_witness:
  "\<exists>fc'. class_find_field 2 (\<lambda>_. 0x2000) 1 twin_mem [twin_class] cache_empty 0 0x1000 (Some 0x100000) False = Some (Some (0, 1), fc')"
proof -
  have "class_find_field_slow 2 [twin_class] (twin_mem 0x1000) (Some (twin_mem 0x100000)) False 0 = Some (Some (0, 1))"
    by code_simp
  moreover have "field_cache_ok 2 1 [twin_class] cache_empty"
    by (simp add: field_cache_ok_def cache_empty_def hit_ok_def hit_zero_def)
  moreover have "types_known [twin_class]" by (simp add: types_known_def twin_class_def class_zero_def)
  ultimately show ?thesis using field_cache_transparent by blast
qed

text \<open>
  Without a type the cache can answer for another type.  The entry does not compare the type
  it was made for: after a lookup of \<open>a\<close> with type \<open>J\<close>, a lookup of \<open>a\<close> without a type whose key
  selects the same entry returns the field of type \<open>J\<close>, although the walk, and an empty cache,
  give the first field \<open>a\<close>.
\<close>

theorem field_cache_type_ignored:
  "do {
     (r1, fc) \<leftarrow> class_find_field 2 (\<lambda>_. 0x2000) 1 twin_mem [twin_class] cache_empty 0 0x1000 (Some 0x100000) False;
     (r2, fc) \<leftarrow> class_find_field 2 (\<lambda>_. 0x2000) 1 twin_mem [twin_class] fc 0 0x1000 None False;
     r3 \<leftarrow> class_find_field_slow 2 [twin_class] ''a'' None False 0;
     Some (r1, r2, r3) } = Some (Some (0, 1), Some (0, 1), Some (0, 0))"
  by code_simp

text \<open>
  Fields round-trip.  On an object whose storage holds the slots of its class, a successful
  lookup makes \<open>dvm_set_field\<close> store the value in that one slot of that one object, reading the
  field then gives the value, and every field with another slot, of this object or looked up in
  any other way, reads as before.
\<close>

theorem field_roundtrip:
  assumes "heap_ok h" "heap_abs h obj = Some x" "o_slots x = Some ss" "o_cls x = Some c" "c < length cs"
    and "c_islots (cs ! c) \<le> length ss" "slot_of search cs x owner = Some (Some i)"
  shows "\<exists>h'. dvm__set_field_from search cs h obj owner v = Some (True, h') \<and> heap_ok h' \<and>
    heap_abs h' = (heap_abs h)(obj \<mapsto> x\<lparr>o_slots := Some (ss[i := v])\<rparr>) \<and>
    dvm__get_field_from search cs h' obj owner = Some (Some v) \<and>
    (\<forall>search' owner' j. slot_of search' cs x owner' = Some (Some j) \<and> j \<noteq> i \<longrightarrow>
      dvm__get_field_from search' cs h' obj owner' = dvm__get_field_from search' cs h obj owner')"
proof -
  let ?x = "x\<lparr>o_slots := Some (ss[i := v])\<rparr>"
  have bound: "j < length ss" if "slot_of s cs x w = Some (Some j)" for s w j
    using slot_of_bound [OF that assms(4,5)] assms(6) by simp
  have same: "slot_of s cs ?x w = slot_of s cs x w" for s w
    using assms(3,4) by (simp add: slot_of_def)
  have live: "o_live ?x" using assms(2) by (simp add: heap_abs_def split: if_splits)
  obtain h' where h': "heap_put h obj ?x = Some h'" "heap_ok h'" "heap_abs h' = (heap_abs h)(obj \<mapsto> ?x)"
    using heap_put_live [OF assms(1,2) live] by blast
  have get': "dvm__get_field_from s cs h' obj w = Some (Some (ss[i := v] ! j))"
    and get: "dvm__get_field_from s cs h obj w = Some (Some (ss ! j))" if "slot_of s cs x w = Some (Some j)" for s w j
    using that bound [OF that] same [of s w] assms(2,3) h'(3)
    by (simp_all add: dvm__get_field_from_def dvm__obj_abs [OF h'(2)] dvm__obj_abs [OF assms(1)])
  have "dvm__set_field_from search cs h obj owner v = Some (True, h')"
    using assms(2,3,7) bound [OF assms(7)] h'(1) by (simp add: dvm__set_field_from_def dvm__obj_abs [OF assms(1)])
  moreover have "dvm__get_field_from search cs h' obj owner = Some (Some v)"
    using get' [OF assms(7)] bound [OF assms(7)] by simp
  moreover have "\<forall>search' owner' j. slot_of search' cs x owner' = Some (Some j) \<and> j \<noteq> i \<longrightarrow>
      dvm__get_field_from search' cs h' obj owner' = dvm__get_field_from search' cs h obj owner'"
    using get get' by auto
  ultimately show ?thesis using h'(2,3) by blast
qed

definition twin_heap :: dvm_heap where
  "twin_heap = pinned_heap\<lparr>heap_blocks := [(plain_object 0 2) # replicate 4095 obj_zero]\<rparr>"

lemma twin_heap_ok: "heap_ok twin_heap" "heap_abs twin_heap 1 = Some (plain_object 0 2)"
proof -
  have one: "unat r = 1" if "r \<noteq> 0" "r \<le> 1" for r :: u32
    using that unat_pos [of r] by (simp add: word_le_nat_alt)
  have live: "o_live (plain_object 0 2)" by (simp add: plain_object_def)
  then have "heap_dead twin_heap = {}"
    using one by (force simp: heap_dead_def twin_heap_def pinned_heap_def heap_cells_def)
  then show "heap_ok twin_heap"
    unfolding heap_ok_def
    by (intro conjI exI [of _ "[]"])
      (auto simp: twin_heap_def pinned_heap_def heap_shape_def DVM_HEAP_BLOCK_def heap_cells_def nth_Cons split: nat.splits)
  show "heap_abs twin_heap 1 = Some (plain_object 0 2)"
    using live by (simp add: heap_abs_def twin_heap_def pinned_heap_def heap_cells_def)
qed

theorem field_roundtrip_witness:
  "\<exists>h'. dvm_set_field (class_find_field_slow 2 [twin_class\<lparr>c_islots := 2\<rparr>] ''a'' (Some ''J'') False) [twin_class\<lparr>c_islots := 2\<rparr>]
       twin_heap 1 7 = Some (True, h') \<and>
     dvm_get_field (class_find_field_slow 2 [twin_class\<lparr>c_islots := 2\<rparr>] ''a'' (Some ''J'') False) [twin_class\<lparr>c_islots := 2\<rparr>]
       h' 1 = Some (Some 7)"
proof -
  let ?cs = "[twin_class\<lparr>c_islots := 2\<rparr>]"
  let ?s = "class_find_field_slow 2 ?cs ''a'' (Some ''J'') False"
  have "?s 0 = Some (Some (0, 1))" by code_simp
  then have "slot_of ?s ?cs (plain_object 0 2) None = Some (Some 1)"
    by (simp add: slot_of_def plain_object_def twin_class_def class_zero_def)
  then show ?thesis
    using field_roundtrip [OF twin_heap_ok, of "[0, 0]" 0 ?cs ?s None 1 7]
    by (auto simp: dvm_set_field_def dvm_get_field_def plain_object_def numeral_2_eq_2)
qed

end
