(* ===== verification/Dvm_Loader.thy ===== *)
theory Dvm_Loader
  imports Dvm_Registry
begin

text \<open>
  Class loading (\<open>src/src/dvm/dvm.c\<close>, \<open>dvm__class_by_desc\<close> and \<open>class_load_from_dex\<close>, with the
  part of \<open>dvm_runtime_define\<close> in \<open>src/src/dvm/dvm_runtime.c\<close> that builds a built-in class from
  its table).  Resolving a descriptor may load a class, which resolves its superclass and
  interfaces in turn; the classes and the views of the dex files are the state, and \<open>by_desc\<close> is
  the recursive call.  The recursion takes a bound on its depth.
\<close>

record loader =
  ld_reg :: registry
  ld_dexes :: "dex_file list"

type_synonym 'a load = "loader \<Rightarrow> ('a \<times> loader) option"
type_synonym resolve = "string \<Rightarrow> cref option load"
type_synonym throw = "string \<Rightarrow> string \<Rightarrow> loader \<Rightarrow> loader option"

definition on_dex :: "nat \<Rightarrow> (dex_file \<Rightarrow> ('a \<times> dex_file) option) \<Rightarrow> 'a load" where
  "on_dex i op ld = do {
     d \<leftarrow> c_at (ld_dexes ld) i;
     (r, d) \<leftarrow> op d;
     Some (r, ld\<lparr>ld_dexes := (ld_dexes ld)[i := d]\<rparr>) }"

definition peek_dex :: "nat \<Rightarrow> (dex_file \<Rightarrow> 'a option) \<Rightarrow> loader \<Rightarrow> 'a option" where
  "peek_dex i op ld = do { d \<leftarrow> c_at (ld_dexes ld) i; op d }"

definition upd_class :: "cref \<Rightarrow> (dvm_class \<Rightarrow> dvm_class) \<Rightarrow> loader \<Rightarrow> loader option" where
  "upd_class c f ld = do { g \<leftarrow> set_class (ld_reg ld) c f; Some (ld\<lparr>ld_reg := g\<rparr>) }"

definition class_at :: "loader \<Rightarrow> cref \<Rightarrow> dvm_class option" where
  "class_at ld c = c_at (reg_all (ld_reg ld)) c"

definition register :: "alloc \<Rightarrow> string \<Rightarrow> cref option load" where
  "register al desc ld = do {
     (c, g) \<leftarrow> class_register al (ld_reg ld) desc;
     Some (c, ld\<lparr>ld_reg := g\<rparr>) }"

text \<open>The slots of the superclass, or none.\<close>

definition super_slots :: "loader \<Rightarrow> cref \<Rightarrow> nat option" where
  "super_slots ld c = do {
     k \<leftarrow> class_at ld c;
     case c_super k of None \<Rightarrow> Some 0
     | Some s \<Rightarrow> do { ks \<leftarrow> class_at ld s; Some (c_islots ks) } }"

section \<open>Loading from a dex file\<close>

definition DEX_NO_INDEX :: u32 where "DEX_NO_INDEX = 0xffffffff"
definition DEX_ACC_INTERFACE :: u32 where "DEX_ACC_INTERFACE = 0x200"
definition DEX_ACC_ABSTRACT :: u32 where "DEX_ACC_ABSTRACT = 0x400"
definition DEX_ACC_ANNOTATION :: u32 where "DEX_ACC_ANNOTATION = 0x2000"
definition DEX_ACC_PUBLIC :: u32 where "DEX_ACC_PUBLIC = 1"
definition DEX_ACC_STATIC :: u32 where "DEX_ACC_STATIC = 8"

definition method_finish :: "dvm_method \<Rightarrow> dvm_method" where
  "method_finish m =
     (let slots = dvm_sig_arg_slots (m_sig m); count = dvm_sig_arg_count (m_sig m) in
      m\<lparr>m_arg_slots := (if slots < 0 then 0 else slots), m_arg_count := (if count < 0 then 0 else count),
        m_ret_kind := dvm_sig_return_kind (m_sig m)\<rparr>)"

definition field_zero :: dvm_field where
  "field_zero = \<lparr>f_name = None, f_type = None, f_access = 0, f_cls = 0, f_slot = 0, f_kind = CHR 0x00\<rparr>"

definition method_zero :: dvm_method where
  "method_zero = \<lparr>m_cls = 0, m_name = None, m_sig = None, m_shorty = None, m_access = 0, m_dex = None,
     m_code = code_zero, m_has_code = False, m_builtin = False, m_arg_slots = 0, m_arg_count = 0, m_ret_kind = CHR 0x00\<rparr>"

text \<open>
  The field loops.  An id outside the pool leaves its entry cleared; \<open>slot\<close> counts the entries
  filled in so far for instance fields and all entries for static ones.
\<close>

primrec load_fields :: "alloc \<Rightarrow> nat \<Rightarrow> cref \<Rightarrow> bool \<Rightarrow> dex_encoded_field list \<Rightarrow> nat \<Rightarrow> (dvm_field list \<times> nat) load" where
  "load_fields al di c statics [] slot ld = Some (([], slot), ld)"
| "load_fields al di c statics (e # es) slot ld = do {
     fid \<leftarrow> peek_dex di (\<lambda>d. dex_field_id d (ef_field_idx e)) ld;
     case fid of None \<Rightarrow> do {
         ((fs, n), ld) \<leftarrow> load_fields al di c statics es (if statics then slot + 1 else slot) ld;
         Some ((field_zero # fs, n), ld) }
     | Some f \<Rightarrow> do {
         (name, ld) \<leftarrow> on_dex di (\<lambda>d. dex_string al d (fid_name_idx f)) ld;
         (ty, ld) \<leftarrow> on_dex di (\<lambda>d. dex_type al d (ucast (fid_type_idx f))) ld;
         ((fs, n), ld) \<leftarrow> load_fields al di c statics es (slot + 1) ld;
         Some ((\<lparr>f_name = name, f_type = ty, f_access = ef_access_flags e, f_cls = c, f_slot = of_nat slot,
             f_kind = dvm__kind_of ty\<rparr> # fs, n), ld) } }"

text \<open>An element of an annotation type is bound to the built-in that answers it; its name is compared first.\<close>

definition annotation_element :: "dvm_class \<Rightarrow> dvm_method \<Rightarrow> bool option" where
  "annotation_element k m =
     (if c_access k AND DEX_ACC_ANNOTATION \<noteq> 0 \<and> m_arg_count m = 0 then do {
        name \<leftarrow> m_name m;
        Some (name \<noteq> ''<clinit>'' \<and> name \<noteq> ''<init>'') }
      else Some False)"

definition load_method :: "alloc \<Rightarrow> nat \<Rightarrow> cref \<Rightarrow> dex_encoded_method \<Rightarrow> dvm_method option load" where
  "load_method al di c e ld = do {
     mid \<leftarrow> peek_dex di (\<lambda>d. dex_method_id d (em_method_idx e)) ld;
     case mid of None \<Rightarrow> Some (None, ld)
     | Some i \<Rightarrow> do {
         (name, ld) \<leftarrow> on_dex di (\<lambda>d. dex_string al d (mid_name_idx i)) ld;
         (shorty, ld) \<leftarrow> on_dex di (\<lambda>d. dex_proto_shorty al d (ucast (mid_proto_idx i))) ld;
         (sg, ld) \<leftarrow> on_dex di (\<lambda>d. dex_proto_signature_alloc al d (ucast (mid_proto_idx i))) ld;
         if sg = None then Some (None, ld)
         else do {
           (good, code) \<leftarrow> (if em_code_off e \<noteq> 0 then peek_dex di (\<lambda>d. dex_code d (em_code_off e)) ld else Some (False, code_zero));
           let m = method_finish (method_zero\<lparr>m_cls := c, m_name := name, m_shorty := shorty, m_access := em_access_flags e,
             m_dex := Some di, m_sig := sg, m_code := code, m_has_code := good\<rparr>);
           k \<leftarrow> class_at ld c;
           b \<leftarrow> annotation_element k m;
           Some (Some (m\<lparr>m_builtin := b\<rparr>), ld) } } }"

primrec load_methods :: "alloc \<Rightarrow> nat \<Rightarrow> cref \<Rightarrow> dex_encoded_method list \<Rightarrow> dvm_method list load" where
  "load_methods al di c [] ld = Some ([], ld)"
| "load_methods al di c (e # es) ld = do {
     (m, ld) \<leftarrow> load_method al di c e ld;
     (ms, ld) \<leftarrow> load_methods al di c es ld;
     Some (case m of None \<Rightarrow> ms | Some m \<Rightarrow> m # ms, ld) }"

definition load_super :: "alloc \<Rightarrow> resolve \<Rightarrow> nat \<Rightarrow> cref \<Rightarrow> u32 \<Rightarrow> loader \<Rightarrow> loader option" where
  "load_super al by_desc di c idx ld =
     (if idx = DEX_NO_INDEX then Some ld
      else do {
        (sd, ld) \<leftarrow> on_dex di (\<lambda>d. dex_type al d idx) ld;
        k \<leftarrow> class_at ld c;
        case sd of None \<Rightarrow> Some ld
        | Some s \<Rightarrow>
            if s = c_desc k then Some ld
            else do {
              (sup, ld) \<leftarrow> by_desc s ld;
              upd_class c (\<lambda>k. k\<lparr>c_super := sup\<rparr>) ld } })"

primrec load_iface_list :: "alloc \<Rightarrow> resolve \<Rightarrow> nat \<Rightarrow> cref \<Rightarrow> u16 list \<Rightarrow> loader \<Rightarrow> loader option" where
  "load_iface_list al by_desc di c [] ld = Some ld"
| "load_iface_list al by_desc di c (t # ts) ld = do {
     (sd, ld) \<leftarrow> on_dex di (\<lambda>d. dex_type al d (ucast t)) ld;
     ld \<leftarrow> (case sd of None \<Rightarrow> Some ld
       | Some s \<Rightarrow> do {
           (i, ld) \<leftarrow> by_desc s ld;
           upd_class c (\<lambda>k. k\<lparr>c_ifaces := c_ifaces k @ [i]\<rparr>) ld });
     load_iface_list al by_desc di c ts ld }"

text \<open>\<open>throw\<close> is what \<open>dvm__throw\<close> does to the classes: it resolves the class of the exception.\<close>

definition load_ifaces :: "alloc \<Rightarrow> throw \<Rightarrow> resolve \<Rightarrow> nat \<Rightarrow> cref \<Rightarrow> u32 \<Rightarrow> bool load" where
  "load_ifaces al throw by_desc di c off ld = do {
     (ni, _) \<leftarrow> peek_dex di (\<lambda>d. dex_interfaces d off [] 0) ld;
     if ni \<le> 0 then Some (True, ld)
     else if \<not> al (nat ni * 2) \<or> \<not> al (nat ni * 8) then do {
       ld \<leftarrow> throw ''java/lang/OutOfMemoryError'' ''class interfaces'' ld;
       Some (False, ld) }
     else do {
       (_, ts) \<leftarrow> peek_dex di (\<lambda>d. dex_interfaces d off (replicate (nat ni) 0) ni) ld;
       ld \<leftarrow> load_iface_list al by_desc di c ts ld;
       Some (True, ld) } }"

text \<open>
  The arrays of fields are not checked after their allocation: without memory the loop stores
  through a null pointer, or a later lookup reads through it.
\<close>

definition load_members :: "alloc \<Rightarrow> nat \<Rightarrow> cref \<Rightarrow> dex_class_data \<Rightarrow> loader \<Rightarrow> loader option" where
  "load_members al di c data ld = do {
     base \<leftarrow> super_slots ld c;
     if instance_fields data \<noteq> [] \<and> \<not> al (length (instance_fields data) * 40) then None
     else do {
       ((ifs, slots), ld) \<leftarrow> load_fields al di c False (instance_fields data) base ld;
       ld \<leftarrow> upd_class c (\<lambda>k. k\<lparr>c_ifields := ifs, c_islots := slots\<rparr>) ld;
       if static_fields data \<noteq> [] \<and> \<not> al (length (static_fields data) * 40) then None
       else do {
         ((sfs, _), ld) \<leftarrow> load_fields al di c True (static_fields data) 0 ld;
         let n = length (static_fields data);
         ld \<leftarrow> upd_class c (\<lambda>k. k\<lparr>c_sfields := sfs, c_sslots := (if n \<noteq> 0 \<and> al (n * 8) then Some (replicate n 0) else None)\<rparr>) ld;
         let es = direct_methods data @ virtual_methods data;
         if es = [] \<or> \<not> al (length es * 144) then upd_class c (\<lambda>k. k\<lparr>c_methods := []\<rparr>) ld
         else do {
           (ms, ld) \<leftarrow> load_methods al di c es ld;
           upd_class c (\<lambda>k. k\<lparr>c_methods := ms\<rparr>) ld } } } }"

definition class_load_from_dex :: "alloc \<Rightarrow> throw \<Rightarrow> resolve \<Rightarrow> nat \<Rightarrow> u32 \<Rightarrow> cref \<Rightarrow> bool load" where
  "class_load_from_dex al throw by_desc di idx c ld = do {
     cd \<leftarrow> peek_dex di (\<lambda>d. dex_class_def d idx) ld;
     case cd of None \<Rightarrow> Some (False, ld)
     | Some cd \<Rightarrow> do {
         ld \<leftarrow> upd_class c (\<lambda>k. k\<lparr>c_dex := Some di, c_class_def_idx := idx, c_access := cd_access_flags cd,
           c_is_interface := (cd_access_flags cd AND DEX_ACC_INTERFACE \<noteq> 0), c_static_values_off := cd_static_values_off cd\<rparr>) ld;
         ld \<leftarrow> load_super al by_desc di c (cd_superclass_idx cd) ld;
         (good, ld) \<leftarrow> load_ifaces al throw by_desc di c (cd_interfaces_off cd) ld;
         if \<not> good then Some (False, ld)
         else do {
           (has, data) \<leftarrow> peek_dex di (\<lambda>d. dex_class_data al d (cd_class_data_off cd)) ld;
           if \<not> has then do {
             base \<leftarrow> super_slots ld c;
             ld \<leftarrow> upd_class c (\<lambda>k. k\<lparr>c_islots := base\<rparr>) ld;
             Some (True, ld) }
           else do {
             ld \<leftarrow> load_members al di c data ld;
             Some (True, ld) } } } }"

section \<open>Built-in classes\<close>

text \<open>
  The table of built-in classes is an argument, as is what \<open>dvm_runtime_define\<close> does after laying
  out the fields: the method table of C functions and the objects of the class's constants.  It
  may resolve further classes and may give up.  \<open>rt_throw\<close> is \<open>dvm__throw\<close>, with the class and the
  message of the exception: it resolves that class, and its object is not part of this state.
\<close>

record rt_class =
  rt_desc :: string
  rt_super :: "string option"
  rt_ifaces :: "string list option"
  rt_sfields :: "(string \<times> string) list"
  rt_fields :: "(string \<times> string) list"
  rt_is_interface :: bool

record runtime =
  rt_classes :: "rt_class list"
  rt_legacy_http :: bool
  rt_rest :: "resolve \<Rightarrow> string \<Rightarrow> cref \<Rightarrow> bool load"
  rt_throw :: "resolve \<Rightarrow> throw"

definition http_core_classes :: "string list" where
  "http_core_classes = [''Lorg/apache/http/params/HttpParams;'', ''Lorg/apache/http/params/HttpConnectionParams;'',
     ''Lorg/apache/http/params/CoreConnectionPNames;'', ''Lorg/apache/http/conn/ConnectTimeoutException;'',
     ''Lorg/apache/http/conn/scheme/HostNameResolver;'', ''Lorg/apache/http/conn/scheme/SocketFactory;'',
     ''Lorg/apache/http/conn/scheme/LayeredSocketFactory;'', ''Lorg/apache/http/conn/ssl/AbstractVerifier;'',
     ''Lorg/apache/http/conn/ssl/AllowAllHostnameVerifier;'', ''Lorg/apache/http/conn/ssl/AndroidDistinguishedNameParser;'',
     ''Lorg/apache/http/conn/ssl/BrowserCompatHostnameVerifier;'', ''Lorg/apache/http/conn/ssl/SSLSocketFactory;'',
     ''Lorg/apache/http/conn/ssl/StrictHostnameVerifier;'', ''Lorg/apache/http/conn/ssl/X509HostnameVerifier;'']"

definition dvm_runtime_http_core_class :: "string \<Rightarrow> bool" where
  "dvm_runtime_http_core_class desc \<longleftrightarrow>
     list_ex (\<lambda>k. desc = k \<or> has_prefix (butlast k @ ''$'') desc) http_core_classes"

text \<open>The instance and static fields of a table entry.\<close>

definition rt_field_list :: "cref \<Rightarrow> bool \<Rightarrow> nat \<Rightarrow> (string \<times> string) list \<Rightarrow> dvm_field list" where
  "rt_field_list c statics base fs =
     map2 (\<lambda>i (name, ty). \<lparr>f_name = Some name, f_type = Some ty, f_access = (if statics then DEX_ACC_STATIC else 0),
       f_cls = c, f_slot = of_nat (base + i), f_kind = dvm__kind_of (Some ty)\<rparr>) [0..<length fs] fs"

primrec rt_iface_list :: "resolve \<Rightarrow> cref \<Rightarrow> nat \<Rightarrow> string list \<Rightarrow> loader \<Rightarrow> loader option" where
  "rt_iface_list by_desc c j [] ld = Some ld"
| "rt_iface_list by_desc c j (s # ss) ld = do {
     (i, ld) \<leftarrow> by_desc s ld;
     ld \<leftarrow> upd_class c (\<lambda>k. k\<lparr>c_ifaces := (c_ifaces k)[j := i]\<rparr>) ld;
     rt_iface_list by_desc c (j + 1) ss ld }"

definition rt_interfaces :: "alloc \<Rightarrow> resolve \<Rightarrow> rt_class \<Rightarrow> cref \<Rightarrow> loader \<Rightarrow> loader option" where
  "rt_interfaces al by_desc rc c ld = (case rt_ifaces rc of None \<Rightarrow> Some ld
     | Some ss \<Rightarrow>
         if al (length ss * 8) then do {
           ld \<leftarrow> upd_class c (\<lambda>k. k\<lparr>c_ifaces := replicate (length ss) None\<rparr>) ld;
           rt_iface_list by_desc c 0 ss ld }
         else Some ld)"

text \<open>
  The counts are stored before the arrays are allocated and the loops skip a null array, so that
  without memory the class counts fields it has no array for; the static fields stay cleared
  when only their slots are missing.
\<close>

definition rt_layout :: "alloc \<Rightarrow> rt_class \<Rightarrow> cref \<Rightarrow> loader \<Rightarrow> loader option" where
  "rt_layout al rc c ld = (let nsf = length (rt_sfields rc); nf = length (rt_fields rc);
       snull = (nsf \<noteq> 0 \<and> \<not> al (nsf * 40)); inull = (nf \<noteq> 0 \<and> \<not> al (nf * 40));
       sslots = (if nsf \<noteq> 0 \<and> al (nsf * 8) then Some (replicate nsf 0) else None) in do {
     base \<leftarrow> super_slots ld c;
     upd_class c (\<lambda>k. k\<lparr>c_sfields := (if snull \<or> sslots = None then replicate nsf field_zero
           else rt_field_list c True 0 (rt_sfields rc)),
       c_sfields_null := snull, c_sslots := sslots,
       c_ifields := (if inull then replicate nf field_zero else rt_field_list c False base (rt_fields rc)),
       c_ifields_null := inull, c_islots := base + nf\<rparr>) ld })"

definition dvm_runtime_define :: "alloc \<Rightarrow> runtime \<Rightarrow> resolve \<Rightarrow> resolve" where
  "dvm_runtime_define al rt by_desc desc ld =
     (if has_prefix ''Lorg/apache/http/'' desc \<and> \<not> dvm_runtime_http_core_class desc \<and> \<not> rt_legacy_http rt then Some (None, ld)
      else case find (\<lambda>rc. rt_desc rc = desc) (rt_classes rt) of
        None \<Rightarrow> Some (None, ld)
      | Some rc \<Rightarrow> do {
          (r, ld) \<leftarrow> register al desc ld;
          case r of None \<Rightarrow> Some (None, ld)
          | Some c \<Rightarrow> do {
              ld \<leftarrow> upd_class c (\<lambda>k. k\<lparr>c_init_state := 2, c_is_interface := rt_is_interface rc,
                c_access := (if rt_is_interface rc then c_access k OR DEX_ACC_PUBLIC OR DEX_ACC_INTERFACE OR DEX_ACC_ABSTRACT
                  else c_access k)\<rparr>) ld;
              ld \<leftarrow> (case rt_super rc of None \<Rightarrow> Some ld
                | Some s \<Rightarrow> do { (sup, ld) \<leftarrow> by_desc s ld; upd_class c (\<lambda>k. k\<lparr>c_super := sup\<rparr>) ld });
              ld \<leftarrow> rt_interfaces al by_desc rc c ld;
              ld \<leftarrow> rt_layout al rc c ld;
              (good, ld) \<leftarrow> rt_rest rt by_desc desc c ld;
              Some (if good then Some c else None, ld) } })"

definition dvm_runtime_shared_define :: "alloc \<Rightarrow> runtime \<Rightarrow> resolve \<Rightarrow> resolve" where
  "dvm_runtime_shared_define al rt by_desc desc ld =
     (if \<not> has_prefix ''Lorg/apache/http/'' desc \<or> dvm_runtime_http_core_class desc \<or> \<not> rt_legacy_http rt then Some (None, ld)
      else dvm_runtime_define al rt by_desc desc ld)"

section \<open>Resolving a descriptor\<close>

definition define_primitive :: "alloc \<Rightarrow> resolve" where
  "define_primitive al desc ld = do {
     (c, g) \<leftarrow> dvm__define_primitive al (ld_reg ld) desc;
     Some (c, ld\<lparr>ld_reg := g\<rparr>) }"

definition array_class :: "alloc \<Rightarrow> resolve \<Rightarrow> resolve" where
  "array_class al by_desc desc ld = do {
     (r, ld) \<leftarrow> register al desc ld;
     case r of None \<Rightarrow> Some (None, ld)
     | Some c \<Rightarrow> do {
         ld \<leftarrow> upd_class c (\<lambda>k. k\<lparr>c_is_array := True, c_init_state := 2, c_elem_kind := dvm__kind_of (Some (tl desc))\<rparr>) ld;
         (e, ld) \<leftarrow> by_desc (tl desc) ld;
         ld \<leftarrow> upd_class c (\<lambda>k. k\<lparr>c_elem := e\<rparr>) ld;
         (s, ld) \<leftarrow> by_desc OBJECT_DESC ld;
         ld \<leftarrow> upd_class c (\<lambda>k. k\<lparr>c_super := s\<rparr>) ld;
         Some (Some c, ld) } }"

text \<open>The first dex file that defines the class; the outer option says whether there is one.\<close>

primrec dex_class :: "alloc \<Rightarrow> throw \<Rightarrow> resolve \<Rightarrow> string \<Rightarrow> nat list \<Rightarrow> cref option option load" where
  "dex_class al throw by_desc desc [] ld = Some (None, ld)"
| "dex_class al throw by_desc desc (i # is) ld = do {
     (idx, ld) \<leftarrow> on_dex i (\<lambda>d. dex_find_class al d (Some desc)) ld;
     if idx < 0 then dex_class al throw by_desc desc is ld
     else do {
       (r, ld) \<leftarrow> register al desc ld;
       case r of None \<Rightarrow> Some (Some None, ld)
       | Some c \<Rightarrow> do {
           (good, ld) \<leftarrow> class_load_from_dex al throw by_desc i (of_int idx) c ld;
           ld \<leftarrow> (if good then Some ld else upd_class c (\<lambda>k. k\<lparr>c_external := True, c_init_state := 2\<rparr>) ld);
           Some (Some (Some c), ld) } } }"

definition stub_class :: "alloc \<Rightarrow> resolve \<Rightarrow> resolve" where
  "stub_class al by_desc desc ld = do {
     (r, ld) \<leftarrow> register al desc ld;
     case r of None \<Rightarrow> Some (None, ld)
     | Some c \<Rightarrow> do {
         ld \<leftarrow> upd_class c (\<lambda>k. k\<lparr>c_external := True, c_synthesized := True, c_init_state := 2\<rparr>) ld;
         if desc = OBJECT_DESC then Some (Some c, ld)
         else do {
           (s, ld) \<leftarrow> by_desc OBJECT_DESC ld;
           ld \<leftarrow> upd_class c (\<lambda>k. k\<lparr>c_super := s\<rparr>) ld;
           Some (Some c, ld) } } }"

text \<open>The sources of a class after the boot classes, in the order of delegation.\<close>

definition app_class :: "alloc \<Rightarrow> runtime \<Rightarrow> resolve \<Rightarrow> resolve" where
  "app_class al rt by_desc desc ld = do {
     (r, ld) \<leftarrow> dvm_runtime_shared_define al rt by_desc desc ld;
     case r of Some c \<Rightarrow> Some (Some c, ld)
     | None \<Rightarrow> do {
         (r, ld) \<leftarrow> dex_class al (rt_throw rt by_desc) by_desc desc [0..<length (ld_dexes ld)] ld;
         case r of Some c \<Rightarrow> Some (c, ld)
         | None \<Rightarrow> do {
             (r, ld) \<leftarrow> dvm_runtime_define al rt by_desc desc ld;
             case r of Some c \<Rightarrow> Some (Some c, ld) | None \<Rightarrow> stub_class al by_desc desc ld } } }"

primrec dvm__class_by_desc :: "nat \<Rightarrow> alloc \<Rightarrow> runtime \<Rightarrow> resolve" where
  "dvm__class_by_desc 0 al rt desc ld = None"
| "dvm__class_by_desc (Suc n) al rt desc ld = (let by_desc = dvm__class_by_desc n al rt in
     if desc = [] then Some (None, ld)
     else do {
       r \<leftarrow> class_lookup (ld_reg ld) desc;
       case r of Some c \<Rightarrow> Some (Some c, ld)
       | None \<Rightarrow>
           if hd desc = CHR ''['' then array_class al by_desc desc ld
           else if tl desc = [] \<and> hd desc \<in> set ''ZBCSIJFDV'' then define_primitive al desc ld
           else do {
             (r, ld) \<leftarrow> (if desc_is_boot_class dvm_runtime_http_core_class desc then dvm_runtime_define al rt by_desc desc ld else Some (None, ld));
             case r of Some c \<Rightarrow> Some (Some c, ld) | None \<Rightarrow> app_class al rt by_desc desc ld } })"

section \<open>Queries by name\<close>

definition class_named :: "nat \<Rightarrow> alloc \<Rightarrow> runtime \<Rightarrow> string option \<Rightarrow> cref option load" where
  "class_named n al rt name ld = do {
     desc \<leftarrow> name_to_desc name 512;
     dvm__class_by_desc n al rt desc ld }"

definition dvm_find_class :: "nat \<Rightarrow> alloc \<Rightarrow> runtime \<Rightarrow> string option \<Rightarrow> cref option load" where
  "dvm_find_class n al rt name ld = do {
     (r, ld) \<leftarrow> class_named n al rt name ld;
     case r of None \<Rightarrow> Some (None, ld)
     | Some c \<Rightarrow> do { k \<leftarrow> class_at ld c; Some (if c_external k then None else Some c, ld) } }"

definition dvm_find_class_or_external :: "nat \<Rightarrow> alloc \<Rightarrow> runtime \<Rightarrow> string option \<Rightarrow> cref option load" where
  "dvm_find_class_or_external n al rt name ld = class_named n al rt name ld"

primrec known_in_dex :: "alloc \<Rightarrow> string \<Rightarrow> nat list \<Rightarrow> bool load" where
  "known_in_dex al desc [] ld = Some (False, ld)"
| "known_in_dex al desc (i # is) ld = do {
     (idx, ld) \<leftarrow> on_dex i (\<lambda>d. dex_find_class al d (Some desc)) ld;
     if 0 \<le> idx then Some (True, ld) else known_in_dex al desc is ld }"

definition dvm_class_is_known :: "alloc \<Rightarrow> string option \<Rightarrow> bool load" where
  "dvm_class_is_known al name ld = do {
     desc \<leftarrow> name_to_desc name 512;
     (dexed, ld) \<leftarrow> known_in_dex al desc [0..<length (ld_dexes ld)] ld;
     if dexed then Some (True, ld)
     else do {
       r \<leftarrow> class_lookup (ld_reg ld) desc;
       case r of None \<Rightarrow> Some (False, ld)
       | Some c \<Rightarrow> do { k \<leftarrow> class_at ld c; Some (\<not> c_external k, ld) } } }"

definition dvm_runtime_shared_class_exists :: "runtime \<Rightarrow> string \<Rightarrow> bool" where
  "dvm_runtime_shared_class_exists rt desc \<longleftrightarrow> has_prefix ''Lorg/apache/http/'' desc \<and> rt_legacy_http rt \<and>
     list_ex (\<lambda>rc. rt_desc rc = desc) (rt_classes rt)"

text \<open>The inventory of platform classes is a sorted table; the search compares like \<open>strcmp\<close>.\<close>

fun strcmp :: "string \<Rightarrow> string \<Rightarrow> int" where
  "strcmp [] [] = 0"
| "strcmp [] (b # bs) = - 1"
| "strcmp (a # as) [] = 1"
| "strcmp (a # as) (b # bs) = (if a = b then strcmp as bs else if (of_char a :: nat) < of_char b then - 1 else 1)"

function platform_search :: "string list \<Rightarrow> string \<Rightarrow> nat \<Rightarrow> nat \<Rightarrow> bool option" where
  "platform_search tab desc lo hi =
     (if lo < hi then (let mid = lo + (hi - lo) div 2 in do {
        name \<leftarrow> c_at tab mid;
        let cmp = strcmp desc name;
        if cmp = 0 then Some True
        else if cmp < 0 then platform_search tab desc lo mid
        else platform_search tab desc (mid + 1) hi })
      else Some False)"
  by pat_completeness auto
termination by (relation "measure (\<lambda>(tab, desc, lo, hi). hi - lo)") auto

declare platform_search.simps [simp del]

definition dvm_platform_class_exists :: "string list \<Rightarrow> string \<Rightarrow> bool option" where
  "dvm_platform_class_exists tab desc = platform_search tab desc 0 (length tab)"

definition plain_class_exists :: "alloc \<Rightarrow> runtime \<Rightarrow> string list \<Rightarrow> string \<Rightarrow> bool load" where
  "plain_class_exists al rt platform desc ld =
     (if length desc < 3 \<or> hd desc \<noteq> CHR ''L'' \<or> last desc \<noteq> CHR '';'' then Some (False, ld)
      else do {
        (known, ld) \<leftarrow> dvm_class_is_known al (Some desc) ld;
        if known \<or> dvm_runtime_shared_class_exists rt desc then Some (True, ld)
        else do { b \<leftarrow> dvm_platform_class_exists platform desc; Some (b, ld) } })"

text \<open>The component of an array type is looked up by name again; it is not an array type itself.\<close>

definition dvm_class_exists :: "alloc \<Rightarrow> runtime \<Rightarrow> string list \<Rightarrow> string option \<Rightarrow> bool load" where
  "dvm_class_exists al rt platform name ld =
     (if name = None \<or> name = Some [] then Some (False, ld)
      else do {
        desc \<leftarrow> name_to_desc name 512;
        if take 1 desc = ''['' then
          (let component = dropWhile (\<lambda>c. c = CHR ''['') desc in
           if 255 < length desc - length component then Some (False, ld)
           else if take 1 component = ''L'' then do {
             inner \<leftarrow> name_to_desc (Some component) 512;
             plain_class_exists al rt platform inner ld }
           else Some (length component = 1 \<and> hd component \<in> set ''ZBCSIJFD'', ld))
        else plain_class_exists al rt platform desc ld })"

definition dvm_lookup :: "nat \<Rightarrow> alloc \<Rightarrow> runtime \<Rightarrow> string option \<Rightarrow> string \<Rightarrow> string option \<Rightarrow> mref option load" where
  "dvm_lookup n al rt class_name name sg ld = do {
     (r, ld) \<leftarrow> class_named n al rt class_name ld;
     case r of None \<Rightarrow> Some (None, ld)
     | Some c \<Rightarrow> do {
         k \<leftarrow> class_at ld c;
         if c_external k then Some (None, ld)
         else do {
           (m, cs) \<leftarrow> dvm_find_method n al name sg (reg_all (ld_reg ld)) c;
           Some (m, ld\<lparr>ld_reg := (ld_reg ld)\<lparr>reg_all := cs\<rparr>\<rparr>) } } }"

end
