(* ===== verification/Dvm_Loading.thy ===== *)
theory Dvm_Loading
  imports Dvm_Loader Dex_Sample "HOL-Library.Sublist"
begin

text \<open>
  Resolving a descriptor ends, whatever the dex files say of each other's superclasses: every
  recursive call comes after a descriptor of a finite universe has been registered.  The dex
  files are required to have readable method names, and memory not to run out.
\<close>

section \<open>Dex files during loading\<close>

definition dex_image :: "dex_file \<Rightarrow> dex_file \<Rightarrow> bool" where
  "dex_image d d' \<longleftrightarrow> same_image (no_index d) (no_index d')"

text \<open>
  What loading needs of a dex file: its view is consistent, its size is within the reach of the
  32-bit offsets, and the names of its methods can be read.
\<close>

definition dex_good :: "alloc \<Rightarrow> dex_file \<Rightarrow> bool" where
  "dex_good al d \<longleftrightarrow> dex_inv al d \<and> cls_ok al d \<and> unat (class_defs_size d) \<le> 2 ^ 30 \<and> dex_len d < 2 ^ 32 \<and>
     (\<forall>i. i < method_ids_size d \<longrightarrow> string_res al d (rd32 d (unat (method_ids_off d) + unat i * 8 + 4)) \<noteq> None)"

lemma dex_image_refl [simp, intro]: "dex_image d d"
  by (simp add: dex_image_def same_image_refl)

lemma dex_image_trans: "dex_image a b \<Longrightarrow> dex_image b c \<Longrightarrow> dex_image a c"
  unfolding dex_image_def by (rule same_image_trans)

lemma same_dex_image: "same_image d d' \<Longrightarrow> dex_image d d'"
  unfolding dex_image_def by (rule no_index_same)

lemma no_index_res:
  "string_res al (no_index d) = string_res al d" "type_res al (no_index d) = type_res al d"
  "rd32 (no_index d) = rd32 d"
proof -
  show rd: "rd32 (no_index d) = rd32 d" by (simp add: fun_eq_iff rd32_def no_index_def)
  show str: "string_res al (no_index d) = string_res al d" by (simp add: no_index_def cls_update_image)
  show "type_res al (no_index d) = type_res al d"
    by (rule ext) (simp add: type_res_def rd str, simp add: no_index_def)
qed

lemma dex_image_fields:
  assumes "dex_image d d'"
  shows "dex_len d' = dex_len d" "class_defs_size d' = class_defs_size d"
    "method_ids_size d' = method_ids_size d" "method_ids_off d' = method_ids_off d"
    "string_res al d' = string_res al d" "type_res al d' = type_res al d" "rd32 d' = rd32 d"
proof -
  note s = assms [unfolded dex_image_def]
  show "dex_len d' = dex_len d" "class_defs_size d' = class_defs_size d"
    "method_ids_size d' = method_ids_size d" "method_ids_off d' = method_ids_off d"
    using same_image_fields [OF s] by (simp_all add: no_index_def)
  show "string_res al d' = string_res al d" "type_res al d' = type_res al d" "rd32 d' = rd32 d"
    using string_res_same [OF s, of al] type_res_same [OF s, of al] same_image_rd [OF s] by (simp_all add: no_index_res)
qed

lemma dex_good_same: "dex_good al d \<Longrightarrow> dex_inv al d' \<Longrightarrow> same_image d d' \<Longrightarrow> dex_good al d'"
  using dex_image_fields [OF same_dex_image, of d d']
  by (simp add: dex_good_def cls_ok_def index_ok_same [of d d'] same_image_fields [of d d'])

lemma dex_good_dok:
  "dex_good al d \<Longrightarrow> dok al d m Q \<Longrightarrow> ok m (\<lambda>(r, d'). dex_good al d' \<and> dex_image d d' \<and> Q r)"
  unfolding dok_def by (erule ok_mono) (auto intro: dex_good_same same_dex_image)

lemma dex_good_find_class:
  assumes "dex_good al d"
  shows "ok (dex_find_class al d (Some desc)) (\<lambda>(r, d'). dex_good al d' \<and> dex_image d d' \<and> r = find_class_res al d desc)"
proof -
  have "ok (dex_find_class al d (Some desc)) (\<lambda>(r, d'). r = find_class_res al d desc \<and>
    dex_inv al d' \<and> cls_ok al d' \<and> same_image (no_index d) (no_index d'))"
    using assms by (intro dex_find_class_ok) (simp_all add: dex_good_def)
  then show ?thesis
  proof (rule ok_mono, clarify)
    fix r d'
    assume d': "dex_inv al d'" "cls_ok al d'" "same_image (no_index d) (no_index d')"
    then have i: "dex_image d d'" by (simp add: dex_image_def)
    show "dex_good al d' \<and> dex_image d d' \<and> find_class_res al d desc = find_class_res al d desc"
      using assms d'(1,2) i unfolding dex_good_def by (simp add: dex_image_fields [OF i])
  qed
qed

section \<open>The loading invariant\<close>

definition loader_ok :: "alloc \<Rightarrow> loader \<Rightarrow> bool" where
  "loader_ok al ld \<longleftrightarrow> reg_ok (ld_reg ld) \<and>
     (\<forall>k \<in> set (reg_all (ld_reg ld)). \<forall>s. c_super k = Some s \<longrightarrow> s < length (reg_all (ld_reg ld))) \<and>
     (\<forall>d \<in> set (ld_dexes ld). dex_good al d)"

text \<open>A class without what running it changes: its state, its static slots and its method cache.\<close>

definition class_shape :: "dvm_class \<Rightarrow> dvm_class" where
  "class_shape k = k\<lparr>c_init_state := 0, c_sslots := None, c_mcache := [], c_mcache_len := 0\<rparr>"

text \<open>
  What a step of loading keeps: the descriptors registered before with their classes, the
  shape of every class allocated before, and the images of the dex files.
\<close>

definition loads :: "loader \<Rightarrow> loader \<Rightarrow> bool" where
  "loads ld ld' \<longleftrightarrow> reg_abs (ld_reg ld) \<subseteq>\<^sub>m reg_abs (ld_reg ld') \<and>
     prefix (map class_shape (reg_all (ld_reg ld))) (map class_shape (reg_all (ld_reg ld'))) \<and>
     list_all2 dex_image (ld_dexes ld) (ld_dexes ld')"

lemma loads_refl [simp, intro]: "loads ld ld"
  by (simp add: loads_def list_all2_same)

lemma loads_trans: "loads a b \<Longrightarrow> loads b c \<Longrightarrow> loads a c"
  unfolding loads_def by (auto intro: map_le_trans prefix_order.trans list_all2_trans [OF dex_image_trans])

lemma loads_length: "loads ld ld' \<Longrightarrow> length (reg_all (ld_reg ld)) \<le> length (reg_all (ld_reg ld'))"
  by (auto simp: loads_def dest: prefix_length_le)

lemma prefix_update: "prefix xs ys \<Longrightarrow> length xs \<le> c \<Longrightarrow> prefix xs (ys[c := y])"
  by (auto simp: prefix_def list_update_append)

definition registered :: "loader \<Rightarrow> string set" where
  "registered ld = dom (reg_abs (ld_reg ld))"

text \<open>
  A loader that can resolve the names of \<open>U\<close> with recursion of depth \<open>n\<close>: the type names of its
  dex files are in \<open>U\<close> and fewer than \<open>n\<close> of \<open>U\<close> are not registered.
\<close>

definition ready :: "alloc \<Rightarrow> string set \<Rightarrow> nat \<Rightarrow> loader \<Rightarrow> bool" where
  "ready al U n ld \<longleftrightarrow> loader_ok al ld \<and> (\<forall>d \<in> set (ld_dexes ld). \<forall>i s. type_res al d i = Some s \<longrightarrow> s \<in> U) \<and>
     card (U - registered ld) < n"

text \<open>A loader in the course of loading \<open>desc\<close> as class \<open>c\<close>, having started from \<open>ld0\<close>.\<close>

definition held :: "alloc \<Rightarrow> string set \<Rightarrow> nat \<Rightarrow> loader \<Rightarrow> string \<Rightarrow> cref \<Rightarrow> loader \<Rightarrow> bool" where
  "held al U n ld0 desc c ld \<longleftrightarrow> ready al U n ld \<and> loads ld0 ld \<and>
     reg_abs (ld_reg ld) desc = Some c \<and> length (reg_all (ld_reg ld0)) \<le> c"

lemma reg_abs_less: "reg_abs g desc = Some c \<Longrightarrow> c < length (reg_all g) \<and> c_desc (reg_all g ! c) = desc"
  unfolding reg_abs_def by (rule latest_less)

lemma held_less: "held al U n ld0 desc c ld \<Longrightarrow> c < length (reg_all (ld_reg ld))"
  by (auto simp: held_def dest: reg_abs_less)

lemma loads_abs: "loads ld ld' \<Longrightarrow> reg_abs (ld_reg ld) s = Some c \<Longrightarrow> reg_abs (ld_reg ld') s = Some c"
  by (auto simp: loads_def map_le_def dom_def)

text \<open>The contract of the recursive call.\<close>

definition resolves :: "alloc \<Rightarrow> string set \<Rightarrow> nat \<Rightarrow> resolve \<Rightarrow> bool" where
  "resolves al U n by_desc \<longleftrightarrow> (\<forall>s \<in> U. \<forall>ld. ready al U n ld \<longrightarrow>
     ok (by_desc s ld) (\<lambda>(r, ld'). ready al U n ld' \<and> loads ld ld' \<and>
       (if s = [] then r = None else \<exists>c. r = Some c \<and> reg_abs (ld_reg ld') s = Some c)))"

definition lok :: "(loader \<Rightarrow> bool) \<Rightarrow> ('a \<times> loader) option \<Rightarrow> ('a \<Rightarrow> loader \<Rightarrow> bool) \<Rightarrow> bool" where
  "lok I m Q \<longleftrightarrow> ok m (\<lambda>(r, ld). I ld \<and> Q r ld)"

lemma lok_bind:
  assumes "lok I m P" and "\<And>r ld. I ld \<Longrightarrow> P r ld \<Longrightarrow> ok (f (r, ld)) Q"
  shows "ok (m \<bind> f) Q"
  using assms(1) unfolding lok_def by (rule ok_bind) (use assms(2) in auto)

lemma held_resolve:
  assumes "held al U n ld0 desc c ld" and "resolves al U n by_desc" and "s \<in> U"
  shows "lok (held al U n ld0 desc c) (by_desc s ld) (\<lambda>r ld'. \<forall>i. r = Some i \<longrightarrow> i < length (reg_all (ld_reg ld')))"
proof -
  from assms have "ok (by_desc s ld) (\<lambda>(r, ld'). ready al U n ld' \<and> loads ld ld' \<and>
       (if s = [] then r = None else \<exists>c. r = Some c \<and> reg_abs (ld_reg ld') s = Some c))"
    by (simp add: resolves_def held_def)
  then show ?thesis
    unfolding lok_def
  proof (rule ok_mono)
    fix x :: "cref option \<times> loader"
    obtain r ld' where [simp]: "x = (r, ld')" by (cases x)
    assume "case x of (r, ld') \<Rightarrow> ready al U n ld' \<and> loads ld ld' \<and>
       (if s = [] then r = None else \<exists>c. r = Some c \<and> reg_abs (ld_reg ld') s = Some c)"
    then have h: "ready al U n ld'" "loads ld ld'"
      "if s = [] then r = None else \<exists>c. r = Some c \<and> reg_abs (ld_reg ld') s = Some c" by auto
    have "held al U n ld0 desc c ld'"
      using h(1,2) assms(1) loads_trans [of ld0 ld ld'] loads_abs [OF h(2)] by (simp add: held_def)
    moreover have "\<forall>i. r = Some i \<longrightarrow> i < length (reg_all (ld_reg ld'))"
      using h(3) by (auto split: if_splits dest: reg_abs_less)
    ultimately show "case x of (r, ld') \<Rightarrow> held al U n ld0 desc c ld' \<and> (\<forall>i. r = Some i \<longrightarrow> i < length (reg_all (ld_reg ld')))"
      by simp
  qed
qed

lemma held_upd_class:
  assumes h: "held al U n ld0 desc c ld" and k: "keeps_identity f"
    and s: "\<And>s k. c_super (f k) = Some s \<Longrightarrow> c_super k = Some s \<or> s < length (reg_all (ld_reg ld))"
  shows "ok (upd_class c f ld) (\<lambda>ld'. held al U n ld0 desc c ld' \<and> ld_dexes ld' = ld_dexes ld \<and>
    reg_all (ld_reg ld') = (reg_all (ld_reg ld))[c := f (reg_all (ld_reg ld) ! c)])"
proof -
  let ?g = "ld_reg ld"
  have c: "c < length (reg_all ?g)" by (rule held_less [OF h])
  have "reg_ok ?g" using h by (simp add: held_def ready_def loader_ok_def)
  from set_class_ok [OF this c k] obtain g' where g': "set_class ?g c f = Some g'" "reg_ok g'"
    "reg_abs g' = reg_abs ?g" "reg_all g' = (reg_all ?g)[c := f (reg_all ?g ! c)]" by blast
  have sup: "\<forall>k \<in> set (reg_all g'). \<forall>t. c_super k = Some t \<longrightarrow> t < length (reg_all g')"
  proof (intro ballI allI impI)
    fix k t assume "k \<in> set (reg_all g')" "c_super k = Some t"
    then consider "k \<in> set (reg_all ?g)" | "c_super (f (reg_all ?g ! c)) = Some t"
      using set_update_subset_insert [of "reg_all ?g" c] by (auto simp: g'(4))
    then show "t < length (reg_all g')"
      using h s [of "reg_all ?g ! c" t] c \<open>c_super k = Some t\<close> nth_mem [OF c]
      by cases (auto simp: held_def ready_def loader_ok_def g'(4))
  qed
  have "held al U n ld0 desc c (ld\<lparr>ld_reg := g'\<rparr>)"
    using h g' sup by (simp add: held_def ready_def loader_ok_def registered_def loads_def map_update prefix_update)
  then show ?thesis by (simp add: upd_class_def g')
qed

lemma ready_on_dex:
  assumes r: "ready al U n ld" and i: "i < length (ld_dexes ld)"
    and op: "\<And>d. dex_good al d \<Longrightarrow> ok (op d) (\<lambda>(r, d'). dex_good al d' \<and> dex_image d d' \<and> Q d r)"
  shows "ok (on_dex i op ld) (\<lambda>(r, ld'). ready al U n ld' \<and> loads ld ld' \<and> ld_reg ld' = ld_reg ld \<and> Q (ld_dexes ld ! i) r)"
proof -
  let ?d = "ld_dexes ld ! i"
  have "dex_good al ?d" using r i by (simp add: ready_def loader_ok_def)
  from op [OF this] obtain v d' where d': "op ?d = Some (v, d')" "dex_good al d'" "dex_image ?d d'" "Q ?d v"
    by (auto elim!: okE)
  let ?ld = "ld\<lparr>ld_dexes := (ld_dexes ld)[i := d']\<rparr>"
  have mem: "e = d' \<or> e \<in> set (ld_dexes ld)" if "e \<in> set ((ld_dexes ld)[i := d'])" for e
    using that set_update_subset_insert [of "ld_dexes ld" i d'] by auto
  have "type_res al d' = type_res al ?d" by (rule dex_image_fields [OF d'(3)])
  moreover have "?d \<in> set (ld_dexes ld)" using i by simp
  ultimately have "ready al U n ?ld"
    using r d'(2) unfolding ready_def loader_ok_def by (auto simp: registered_def dest!: mem)
  moreover have "loads ld ?ld"
    using i d'(3) by (auto simp: loads_def list_all2_conv_all_nth nth_list_update)
  ultimately show ?thesis using i d' by (simp add: on_dex_def)
qed

lemma ready_peek:
  assumes "ready al U n ld" and "i < length (ld_dexes ld)" and "\<And>d. dex_good al d \<Longrightarrow> ok (op d) (Q d)"
  shows "ok (peek_dex i op ld) (Q (ld_dexes ld ! i))"
  using assms by (simp add: peek_dex_def ready_def loader_ok_def)

lemma loads_dexes: "loads ld ld' \<Longrightarrow> length (ld_dexes ld') = length (ld_dexes ld)"
  by (auto simp: loads_def dest: list_all2_lengthD)

lemma held_ready: "held al U n ld0 desc c ld \<Longrightarrow> ready al U n ld"
  by (simp add: held_def)

lemma held_dexes: "held al U n ld0 desc c ld \<Longrightarrow> length (ld_dexes ld) = length (ld_dexes ld0)"
  by (simp add: held_def loads_dexes)

lemma held_on_dex:
  assumes h: "held al U n ld0 desc c ld" and i: "i < length (ld_dexes ld0)"
    and op: "\<And>d. dex_good al d \<Longrightarrow> ok (op d) (\<lambda>(r, d'). dex_good al d' \<and> dex_image d d' \<and> Q d r)"
  shows "ok (on_dex i op ld) (\<lambda>(r, ld'). held al U n ld0 desc c ld' \<and> ld_reg ld' = ld_reg ld \<and> Q (ld_dexes ld ! i) r)"
proof -
  have "i < length (ld_dexes ld)" using h i by (simp add: held_dexes)
  from ready_on_dex [OF held_ready [OF h] this op] show ?thesis
    by (rule ok_mono) (use h in \<open>auto simp: held_def intro: loads_trans\<close>)
qed

text \<open>Reading a dex file while a class is loaded.\<close>

lemma held_type:
  assumes h: "held al U n ld0 desc c ld" and i: "i < length (ld_dexes ld0)"
  shows "ok (on_dex i (\<lambda>d. dex_type al d idx) ld) (\<lambda>(r, ld'). held al U n ld0 desc c ld' \<and> (\<forall>s. r = Some s \<longrightarrow> s \<in> U))"
proof -
  have "i < length (ld_dexes ld)" using h i by (simp add: held_dexes)
  then have "\<forall>s. type_res al (ld_dexes ld ! i) idx = Some s \<longrightarrow> s \<in> U" using h unfolding held_def ready_def by (meson nth_mem)
  moreover have "ok (on_dex i (\<lambda>d. dex_type al d idx) ld)
      (\<lambda>(r, ld'). held al U n ld0 desc c ld' \<and> ld_reg ld' = ld_reg ld \<and> r = type_res al (ld_dexes ld ! i) idx)"
    by (rule held_on_dex [OF h i dex_good_dok]) (auto simp: dex_good_def intro: dex_type_dok)
  ultimately show ?thesis by (auto elim!: ok_mono)
qed

lemma held_dok:
  assumes "held al U n ld0 desc c ld" and "i < length (ld_dexes ld0)"
    and "\<And>d. dex_good al d \<Longrightarrow> dok al d (op d) (Q d)"
  shows "ok (on_dex i op ld) (\<lambda>(r, ld'). held al U n ld0 desc c ld' \<and> Q (ld_dexes ld ! i) r)"
  by (rule ok_mono [OF held_on_dex [OF assms(1,2) dex_good_dok [OF _ assms(3)]]]) auto

lemma held_peek:
  assumes "held al U n ld0 desc c ld" and "i < length (ld_dexes ld0)" and "\<And>d. dex_good al d \<Longrightarrow> ok (op d) (Q d)"
  shows "ok (peek_dex i op ld) (Q (ld_dexes ld ! i))"
  by (rule ready_peek [OF held_ready [OF assms(1)]]) (use assms held_dexes in auto)

section \<open>Loading from a dex file ends\<close>

lemma id_pools_ok:
  assumes "dex_good al d"
  shows "ok (dex_field_id d i) (\<lambda>_. True)" and "ok (dex_class_def d i) (\<lambda>_. True)"
    and "ok (dex_method_id d i) (\<lambda>r. \<forall>m. r = Some m \<longrightarrow> string_res al d (mid_name_idx m) \<noteq> None)"
  using assms
  by (auto simp: dex_field_id_def dex_class_def_def dex_method_id_def dex_good_def Let_def dest!: dex_inv_mapped)

lemma load_fields_ok:
  assumes di: "di < length (ld_dexes ld0)"
  shows "held al U n ld0 desc c ld \<Longrightarrow>
    ok (load_fields al di c statics es slot ld) (\<lambda>(r, ld'). held al U n ld0 desc c ld')"
proof (induction es arbitrary: slot ld)
  case (Cons e es)
  have str: "ok (on_dex di (\<lambda>d. dex_string al d i) ld) (\<lambda>(r, ld'). held al U n ld0 desc c ld')"
    if "held al U n ld0 desc c ld" for ld i
    by (rule ok_mono [OF held_dok [OF that di dex_string_dok]]) (auto simp: dex_good_def)
  have ty: "ok (on_dex di (\<lambda>d. dex_type al d i) ld) (\<lambda>(r, ld'). held al U n ld0 desc c ld')"
    if "held al U n ld0 desc c ld" for ld i
    by (rule ok_mono [OF held_type [OF that di]]) auto
  have fid: "ok (peek_dex di (\<lambda>d. dex_field_id d i) ld) (\<lambda>_. True)" for i
    by (rule held_peek [OF Cons.prems di id_pools_ok(1)])
  show ?case
    using Cons.prems
    by (auto simp: split_def intro!: ok_bind [OF fid] ok_bind [OF str] ok_bind [OF ty] ok_bind [OF Cons.IH] split: option.splits split del: if_split)
qed simp

text \<open>An update that does not touch the links of the class.\<close>

lemma held_upd_plain:
  assumes "held al U n ld0 desc c ld" and "keeps_identity f" and "\<And>k. c_super (f k) = c_super k"
  shows "ok (upd_class c f ld) (held al U n ld0 desc c)"
  by (rule ok_mono [OF held_upd_class [OF assms(1,2)]]) (auto simp: assms(3))

lemma held_upd_super:
  assumes "held al U n ld0 desc c ld" and "\<forall>i. s = Some i \<longrightarrow> i < length (reg_all (ld_reg ld))"
  shows "ok (upd_class c (\<lambda>k. k\<lparr>c_super := s\<rparr>) ld) (held al U n ld0 desc c)"
  by (rule ok_mono [OF held_upd_class [OF assms(1)]]) (use assms(2) in \<open>auto simp: keeps_identity_def\<close>)

lemma held_class_at: "held al U n ld0 desc c ld \<Longrightarrow> class_at ld c = Some (reg_all (ld_reg ld) ! c)"
  by (simp add: class_at_def held_less)

lemma held_super_slots:
  assumes h: "held al U n ld0 desc c ld"
  shows "ok (super_slots ld c) (\<lambda>_. True)"
proof -
  have "s < length (reg_all (ld_reg ld))" if "c_super (reg_all (ld_reg ld) ! c) = Some s" for s
    using h that nth_mem [OF held_less [OF h]] by (auto simp: held_def ready_def loader_ok_def)
  with held_less [OF h] show ?thesis by (auto simp: super_slots_def class_at_def split: option.split)
qed

lemma load_method_ok:
  assumes h: "held al U n ld0 desc c ld" and di: "di < length (ld_dexes ld0)" and al: "\<forall>k. al k"
  shows "ok (load_method al di c e ld) (\<lambda>(r, ld'). held al U n ld0 desc c ld')"
proof -
  have mid: "ok (peek_dex di (\<lambda>d. dex_method_id d i) ld)
      (\<lambda>r. \<forall>m. r = Some m \<longrightarrow> string_res al (ld_dexes ld ! di) (mid_name_idx m) \<noteq> None)" for i
    by (rule held_peek [OF h di id_pools_ok(3)])
  have str: "ok (on_dex di (\<lambda>d. dex_string al d i) ld)
      (\<lambda>(r, ld'). held al U n ld0 desc c ld' \<and> r = string_res al (ld_dexes ld ! di) i)" for i
    by (rule held_dok [OF h di dex_string_dok]) (simp add: dex_good_def)
  have sh: "ok (on_dex di (\<lambda>d. dex_proto_shorty al d i) ld) (\<lambda>(r, ld'). held al U n ld0 desc c ld')"
    if "held al U n ld0 desc c ld" for ld i
    by (rule ok_mono [OF held_dok [OF that di dex_proto_shorty_dok]]) (auto simp: dex_good_def)
  have sg: "ok (on_dex di (\<lambda>d. dex_proto_signature_alloc al d i) ld) (\<lambda>(r, ld'). held al U n ld0 desc c ld')"
    if "held al U n ld0 desc c ld" for ld i
    by (rule ok_mono [OF held_dok [OF that di dex_proto_signature_alloc_dok]]) (use al in \<open>auto simp: dex_good_def\<close>)
  have code: "ok (peek_dex di (\<lambda>d. dex_code d off) ld) (\<lambda>_. True)" if "held al U n ld0 desc c ld" for ld off
    by (rule held_peek [OF that di]) (auto simp: dex_good_def dest!: dex_inv_mapped intro: ok_mono [OF dex_code_ok])
  show ?thesis
    unfolding load_method_def
  proof (rule ok_bind [OF mid])
    fix r
    assume r: "\<forall>m. r = Some m \<longrightarrow> string_res al (ld_dexes ld ! di) (mid_name_idx m) \<noteq> None"
    show "ok (case r of None \<Rightarrow> Some (None, ld)
      | Some i \<Rightarrow> do {
         (name, ld) \<leftarrow> on_dex di (\<lambda>d. dex_string al d (mid_name_idx i)) ld;
         (shorty, ld) \<leftarrow> on_dex di (\<lambda>d. dex_proto_shorty al d (ucast (mid_proto_idx i))) ld;
         (sg, ld) \<leftarrow> on_dex di (\<lambda>d. dex_proto_signature_alloc al d (ucast (mid_proto_idx i))) ld;
         if sg = None then Some (None, ld)
         else do {
           (good, code) \<leftarrow> (if em_code_off e \<noteq> 0 then peek_dex di (\<lambda>d. dex_code d (em_code_off e)) ld else Some (False, code_zero));
           let m = method_finish (method_zero\<lparr>m_cls := c, m_name := name, m_shorty := shorty, m_access := em_access_flags e,
             m_dex := Some di, m_sig := sg, m_code := code, m_has_code := good\<rparr>);
           k \<leftarrow> class_at ld c;
           b \<leftarrow> annotation_element k m;
           Some (Some (m\<lparr>m_builtin := b\<rparr>), ld) } }) (\<lambda>(r, ld'). held al U n ld0 desc c ld')"
      using h r
      by (auto simp: held_class_at Let_def annotation_element_def method_finish_def method_zero_def split_def
          intro!: ok_bind [OF str] ok_bind [OF sh] ok_bind [OF sg] ok_bind [OF code] split: option.split)
  qed
qed

lemma load_methods_ok:
  assumes "di < length (ld_dexes ld0)" and "\<forall>k. al k"
  shows "held al U n ld0 desc c ld \<Longrightarrow> ok (load_methods al di c es ld) (\<lambda>(r, ld'). held al U n ld0 desc c ld')"
proof (induction es arbitrary: ld)
  case (Cons e es)
  then show ?case
    by (auto intro!: ok_bind [OF load_method_ok [OF _ assms]] ok_bind [OF Cons.IH])
qed simp

lemma load_super_ok:
  assumes h: "held al U n ld0 desc c ld" and di: "di < length (ld_dexes ld0)" and res: "resolves al U n by_desc"
  shows "ok (load_super al by_desc di c idx ld) (held al U n ld0 desc c)"
proof -
  note step = lok_bind [OF held_resolve [OF _ res]]
  show ?thesis
    using h
    by (auto simp: load_super_def held_class_at split: option.split
        intro!: ok_bind [OF held_type [OF h di]] step held_upd_super)
qed

lemma load_iface_list_ok:
  assumes di: "di < length (ld_dexes ld0)" and res: "resolves al U n by_desc"
  shows "held al U n ld0 desc c ld \<Longrightarrow> ok (load_iface_list al by_desc di c ts ld) (held al U n ld0 desc c)"
proof (induction ts arbitrary: ld)
  case (Cons t ts)
  note step = lok_bind [OF held_resolve [OF _ res]]
  have upd: "ok (upd_class c (\<lambda>k. k\<lparr>c_ifaces := c_ifaces k @ [i]\<rparr>) ld) (held al U n ld0 desc c)"
    if "held al U n ld0 desc c ld" for ld i
    by (rule held_upd_plain [OF that]) (simp_all add: keeps_identity_def)
  have one: "ok (case sd of None \<Rightarrow> Some ld
       | Some s \<Rightarrow> do { (i, ld) \<leftarrow> by_desc s ld; upd_class c (\<lambda>k. k\<lparr>c_ifaces := c_ifaces k @ [i]\<rparr>) ld })
      (held al U n ld0 desc c)" if "held al U n ld0 desc c ld" and "\<forall>s. sd = Some s \<longrightarrow> s \<in> U" for ld sd
    using that by (auto intro!: step upd split: option.split)
  show ?case
    using Cons.prems by (auto intro!: ok_bind [OF held_type [OF _ di]] ok_bind [OF one] Cons.IH)
qed simp

lemma interfaces_count:
  assumes "dex_good al d"
  shows "ok (dex_interfaces d off [] 0) (\<lambda>(ni, _). ni \<le> 0 \<or>
    ok (dex_interfaces d off (replicate (nat ni) 0) ni) (\<lambda>_. True))"
proof (cases "off = 0 \<or> dex_len d < unat off + 4 \<or> dex_len d < unat off + 4 + unat (rd32 d (unat off)) * 2")
  case True
  with assms show ?thesis by (auto simp: dex_interfaces_def dex_good_def dest!: dex_inv_mapped)
next
  case False
  let ?n = "rd32 d (unat off)"
  have m: "dex_mapped d" and len: "dex_len d < 2 ^ 32" using assms by (auto simp: dex_good_def dest: dex_inv_mapped)
  from False len have n: "unat ?n < 2 ^ 31" by simp
  then have s: "sint ?n = int (unat ?n)" by (rule sint_small)
  show ?thesis
    using False m n s interfaces_loop_ok [OF m, of 0 "[]" "unat ?n" off]
      interfaces_loop_ok [OF m, of 0 "replicate (unat ?n) 0" "unat ?n" off]
    by (simp add: dex_interfaces_def)
qed

lemma load_ifaces_ok:
  assumes h: "held al U n ld0 desc c ld" and di: "di < length (ld_dexes ld0)" and res: "resolves al U n by_desc"
    and al: "\<forall>k. al k"
  shows "ok (load_ifaces al throw by_desc di c off ld) (\<lambda>(r, ld'). held al U n ld0 desc c ld')"
proof -
  have "ok (peek_dex di (\<lambda>d. dex_interfaces d off [] 0) ld) (\<lambda>(ni, _). ni \<le> 0 \<or>
      ok (dex_interfaces (ld_dexes ld ! di) off (replicate (nat ni) 0) ni) (\<lambda>_. True))"
    by (rule held_peek [OF h di interfaces_count])
  moreover have "di < length (ld_dexes ld)" using h di by (simp add: held_dexes)
  ultimately show ?thesis
    using h al
    by (auto simp: load_ifaces_def peek_dex_def elim!: okE
        intro!: ok_bind [OF load_iface_list_ok [OF di res]])
qed

lemma load_members_ok:
  assumes h: "held al U n ld0 desc c ld" and di: "di < length (ld_dexes ld0)" and al: "\<forall>k. al k"
  shows "ok (load_members al di c data ld) (held al U n ld0 desc c)"
proof -
  note upd = held_upd_plain [where al = al and U = U and n = n and ?ld0.0 = ld0 and desc = desc and c = c]
  show ?thesis
    using h al
    by (auto simp: load_members_def Let_def keeps_identity_def
        intro!: ok_bind [OF held_super_slots] ok_bind [OF load_fields_ok [OF di]] ok_bind [OF upd] upd
          ok_bind [OF load_methods_ok [OF di al]])
qed

lemma class_load_from_dex_ok:
  assumes h: "held al U n ld0 desc c ld" and di: "di < length (ld_dexes ld0)" and res: "resolves al U n by_desc"
    and al: "\<forall>k. al k"
  shows "ok (class_load_from_dex al throw by_desc di idx c ld) (\<lambda>(r, ld'). held al U n ld0 desc c ld')"
proof -
  note upd = held_upd_plain [where al = al and U = U and n = n and ?ld0.0 = ld0 and desc = desc and c = c]
  have cd: "ok (peek_dex di (\<lambda>d. dex_class_def d idx) ld) (\<lambda>_. True)"
    by (rule held_peek [OF h di id_pools_ok(2)])
  have data: "ok (peek_dex di (\<lambda>d. dex_class_data al d off) ld) (\<lambda>_. True)" if "held al U n ld0 desc c ld" for ld off
    by (rule held_peek [OF that di]) (auto simp: dex_good_def dest!: dex_inv_mapped intro: ok_mono [OF dex_class_data_ok])
  show ?thesis
    using h
    by (auto simp: class_load_from_dex_def keeps_identity_def split: option.split
        intro!: ok_bind [OF cd] ok_bind [OF upd] ok_bind [OF load_super_ok [OF _ di res]]
          ok_bind [OF load_ifaces_ok [OF _ di res al]] ok_bind [OF data] ok_bind [OF held_super_slots]
          ok_bind [OF load_members_ok [OF _ di al]])
qed

section \<open>Registering\<close>

text \<open>
  A loader between two attempts to load \<open>desc\<close>: a built-in class that gave up may have left its
  registration behind.
\<close>

definition pending :: "alloc \<Rightarrow> string set \<Rightarrow> nat \<Rightarrow> loader \<Rightarrow> string \<Rightarrow> loader \<Rightarrow> bool" where
  "pending al U n ld0 desc ld \<longleftrightarrow> ready al U (Suc n) ld \<and> loads ld0 ld \<and> (desc \<in> registered ld \<longrightarrow> ready al U n ld)"

lemma ready_Suc: "ready al U n ld \<Longrightarrow> ready al U (Suc n) ld"
  by (simp add: ready_def)

lemma held_pending: "held al U n ld0 desc c ld \<Longrightarrow> pending al U n ld0 desc ld"
  by (simp add: pending_def held_def ready_Suc)

lemma class_register_super:
  "class_register al g desc = Some (Some i, g') \<Longrightarrow> \<exists>k. i = length (reg_all g) \<and> reg_all g' = reg_all g @ [k] \<and> c_super k = None"
  by (auto simp: class_register_def class_zero_def Let_def bind_eq_Some_conv split: if_splits)

lemma register_ok:
  assumes p: "pending al U n ld0 desc ld" and new: "reg_abs (ld_reg ld0) desc = None"
    and U: "finite U" "desc \<in> U" and al: "\<forall>k. al k"
  shows "ok (register al desc ld) (\<lambda>(r, ld'). \<exists>c. r = Some c \<and> held al U n ld0 desc c ld')"
proof -
  let ?g = "ld_reg ld"
  have lok: "loader_ok al ld" using p by (simp add: pending_def ready_def)
  then have "reg_ok ?g" by (simp add: loader_ok_def)
  from class_register_ok [OF this, of al desc] al obtain i g' where
    g': "class_register al ?g desc = Some (Some i, g')" "reg_ok g'" "reg_abs g' = (reg_abs ?g)(desc \<mapsto> i)"
    by (auto split: option.splits)
  from class_register_super [OF g'(1)] obtain k where k: "i = length (reg_all ?g)" "reg_all g' = reg_all ?g @ [k]" "c_super k = None" by blast
  let ?ld = "ld\<lparr>ld_reg := g'\<rparr>"
  have "loader_ok al ?ld" using lok g'(2) k by (auto simp: loader_ok_def intro: less_SucI)
  moreover have "card (U - registered ?ld) < n"
  proof (cases "desc \<in> registered ld")
    case True
    then have "registered ?ld = registered ld" by (auto simp: registered_def g'(3))
    with p True show ?thesis by (simp add: pending_def ready_def)
  next
    case False
    then have "U - registered ?ld = (U - registered ld) - {desc}" by (auto simp: registered_def g'(3))
    moreover have "desc \<in> U - registered ld" using False U(2) by simp
    ultimately have "Suc (card (U - registered ?ld)) = card (U - registered ld)"
      using U(1) by (metis card_Suc_Diff1 finite_Diff)
    with p show ?thesis by (simp add: pending_def ready_def)
  qed
  moreover have "loads ld0 ?ld"
    using p new by (auto simp: pending_def loads_def map_le_def g'(3) k(2))
  ultimately have "held al U n ld0 desc i ?ld"
    using p by (simp add: held_def ready_def pending_def g'(3) k(1) loads_length)
  then show ?thesis by (simp add: register_def g'(1))
qed

section \<open>Built-in classes\<close>

definition rt_names :: "runtime \<Rightarrow> string set" where
  "rt_names rt = (\<Union>rc \<in> set (rt_classes rt). set_option (rt_super rc) \<union> \<Union> (set ` set_option (rt_ifaces rc)))"

text \<open>
  What the rest of a built-in definition is relied on for: it resolves names of \<open>X\<close> only and keeps
  the loader consistent and the class registered.
\<close>

definition rest_ok :: "alloc \<Rightarrow> string set \<Rightarrow> (resolve \<Rightarrow> string \<Rightarrow> cref \<Rightarrow> bool load) \<Rightarrow> bool" where
  "rest_ok al X rest \<longleftrightarrow> (\<forall>U n by_desc ld0 desc c ld. X \<subseteq> U \<longrightarrow> resolves al U n by_desc \<longrightarrow> held al U n ld0 desc c ld \<longrightarrow>
     ok (rest by_desc desc c ld) (\<lambda>(r, ld'). held al U n ld0 desc c ld'))"

lemma rt_iface_list_ok:
  assumes res: "resolves al U n by_desc"
  shows "held al U n ld0 desc c ld \<Longrightarrow> set ss \<subseteq> U \<Longrightarrow> ok (rt_iface_list by_desc c j ss ld) (held al U n ld0 desc c)"
proof (induction ss arbitrary: j ld)
  case (Cons s ss)
  have upd: "ok (upd_class c (\<lambda>k. k\<lparr>c_ifaces := (c_ifaces k)[j := i]\<rparr>) ld) (held al U n ld0 desc c)"
    if "held al U n ld0 desc c ld" for ld i j
    by (rule held_upd_plain [OF that]) (simp_all add: keeps_identity_def)
  show ?case
    using Cons.prems by (auto intro!: lok_bind [OF held_resolve [OF _ res]] ok_bind [OF upd] Cons.IH)
qed simp

lemma rt_interfaces_ok:
  assumes res: "resolves al U n by_desc" and h: "held al U n ld0 desc c ld"
    and U: "\<And>ss. rt_ifaces rc = Some ss \<Longrightarrow> set ss \<subseteq> U"
  shows "ok (rt_interfaces al by_desc rc c ld) (held al U n ld0 desc c)"
  using h U rt_iface_list_ok [OF res]
  by (auto simp: rt_interfaces_def keeps_identity_def split: option.split intro!: ok_bind [OF held_upd_plain [OF h]])

lemma rt_layout_ok:
  assumes h: "held al U n ld0 desc c ld" and al: "\<forall>k. al k"
  shows "ok (rt_layout al rc c ld) (held al U n ld0 desc c)"
  using al by (auto simp: rt_layout_def Let_def keeps_identity_def intro!: ok_bind [OF held_super_slots [OF h]] held_upd_plain [OF h])

definition loaded_or :: "(loader \<Rightarrow> bool) \<Rightarrow> (cref \<Rightarrow> loader \<Rightarrow> bool) \<Rightarrow> cref option \<times> loader \<Rightarrow> bool" where
  "loaded_or P Q x = (case x of (None, ld) \<Rightarrow> P ld | (Some c, ld) \<Rightarrow> Q c ld)"

lemma loaded_or_simps [simp]:
  "loaded_or P Q (None, ld) = P ld" "loaded_or P Q (Some c, ld) = Q c ld"
  by (simp_all add: loaded_or_def)

lemma dvm_runtime_define_ok:
  assumes p: "pending al U n ld0 desc ld" and new: "reg_abs (ld_reg ld0) desc = None"
    and U: "finite U" "desc \<in> U" "rt_names rt \<subseteq> U" "X \<subseteq> U" and al: "\<forall>k. al k"
    and res: "resolves al U n by_desc" and rest: "rest_ok al X (rt_rest rt)"
  shows "ok (dvm_runtime_define al rt by_desc desc ld) (loaded_or (pending al U n ld0 desc) (held al U n ld0 desc))"
proof (cases "find (\<lambda>rc. rt_desc rc = desc) (rt_classes rt)")
  case None
  then show ?thesis using p by (simp add: dvm_runtime_define_def)
next
  case (Some rc)
  then have "rc \<in> set (rt_classes rt)" by (auto simp: find_Some_iff)
  then have sup: "\<And>s. rt_super rc = Some s \<Longrightarrow> s \<in> U" and ifs: "\<And>ss. rt_ifaces rc = Some ss \<Longrightarrow> set ss \<subseteq> U"
    using U(3) by (force simp: rt_names_def)+
  note upd = held_upd_plain [where al = al and U = U and n = n and ?ld0.0 = ld0 and desc = desc]
  have super: "ok (case rt_super rc of None \<Rightarrow> Some ld
      | Some s \<Rightarrow> do { (sup, ld) \<leftarrow> by_desc s ld; upd_class c (\<lambda>k. k\<lparr>c_super := sup\<rparr>) ld }) (held al U n ld0 desc c)"
    if "held al U n ld0 desc c ld" for ld c
    using that sup by (auto split: option.split intro!: lok_bind [OF held_resolve [OF _ res]] held_upd_super)
  note ifaces = rt_interfaces_ok [OF res _ ifs]
  have rest': "ok (rt_rest rt by_desc desc c ld) (\<lambda>(r, ld'). held al U n ld0 desc c ld')"
    if "held al U n ld0 desc c ld" for ld c
    using rest U(4) res that by (auto simp: rest_ok_def)
  show ?thesis
    using p Some
    by (auto simp: dvm_runtime_define_def keeps_identity_def held_pending
        intro!: ok_bind [OF register_ok [OF p new U(1,2) al]] ok_bind [OF upd] ok_bind [OF super] ok_bind [OF ifaces]
          ok_bind [OF rt_layout_ok [OF _ al]] ok_bind [OF rest'])
qed

section \<open>Resolving ends\<close>

text \<open>The definitions by dex file and by stub always deliver the class.\<close>

definition delivers :: "(cref \<Rightarrow> loader \<Rightarrow> bool) \<Rightarrow> cref option \<times> loader \<Rightarrow> bool" where
  "delivers Q x = (case x of (r, ld) \<Rightarrow> \<exists>c. r = Some c \<and> Q c ld)"

lemma delivers_simps [simp]: "delivers Q (Some c, ld) = Q c ld" "\<not> delivers Q (None, ld)"
  by (simp_all add: delivers_def)

lemma pending_same:
  assumes "pending al U n ld0 desc ld" and "ready al U (Suc n) ld'" and "loads ld ld'" and "ld_reg ld' = ld_reg ld"
  shows "pending al U n ld0 desc ld'"
  using assms loads_trans [of ld0 ld ld'] by (auto simp: pending_def ready_def registered_def)

lemma dex_class_ok:
  assumes new: "reg_abs (ld_reg ld0) desc = None" and U: "finite U" "desc \<in> U" and al: "\<forall>k. al k"
    and res: "resolves al U n by_desc"
  shows "pending al U n ld0 desc ld \<Longrightarrow> set is \<subseteq> {..<length (ld_dexes ld0)} \<Longrightarrow>
    ok (dex_class al throw by_desc desc is ld) (\<lambda>(r, ld').
      (r = None \<and> pending al U n ld0 desc ld') \<or> (\<exists>c. r = Some (Some c) \<and> held al U n ld0 desc c ld'))"
proof (induction "is" arbitrary: ld)
  case (Cons i js)
  note upd = held_upd_plain [where al = al and U = U and n = n and ?ld0.0 = ld0 and desc = desc]
  have i: "i < length (ld_dexes ld0)" and r: "ready al U (Suc n) ld" and "loads ld0 ld"
    using Cons.prems by (auto simp: pending_def)
  then have i': "i < length (ld_dexes ld)" by (simp add: loads_dexes)
  have look: "ok (on_dex i (\<lambda>d. dex_find_class al d (Some desc)) ld) (\<lambda>(x, ld'). pending al U n ld0 desc ld')"
    by (rule ok_mono [OF ready_on_dex [OF r i' dex_good_find_class [of al _ desc]]])
      (auto intro: pending_same [OF Cons.prems(1)])
  have load: "ok (do { (good, ld) \<leftarrow> class_load_from_dex al throw by_desc i idx c ld;
           ld \<leftarrow> (if good then Some ld else upd_class c (\<lambda>k. k\<lparr>c_external := True, c_init_state := 2\<rparr>) ld);
           Some (Some (Some c), ld) }) (\<lambda>(r, ld').
      (r = None \<and> pending al U n ld0 desc ld') \<or> (\<exists>c. r = Some (Some c) \<and> held al U n ld0 desc c ld'))"
    if "held al U n ld0 desc c ld" for idx c ld
    using that by (auto simp: keeps_identity_def intro!: ok_bind [OF class_load_from_dex_ok [OF _ i res al]] ok_bind [OF upd])
  show ?case
    using Cons.prems(2)
    by (auto intro!: ok_bind [OF look] ok_bind [OF register_ok [OF _ new U al]] Cons.IH load)
qed simp

lemma stub_class_ok:
  assumes p: "pending al U n ld0 desc ld" and new: "reg_abs (ld_reg ld0) desc = None"
    and U: "finite U" "desc \<in> U" "OBJECT_DESC \<in> U" and al: "\<forall>k. al k" and res: "resolves al U n by_desc"
  shows "ok (stub_class al by_desc desc ld) (delivers (held al U n ld0 desc))"
proof -
  note upd = held_upd_plain [where al = al and U = U and n = n and ?ld0.0 = ld0 and desc = desc]
  show ?thesis
    using U(3)
    by (auto simp: stub_class_def keeps_identity_def intro!: ok_bind [OF register_ok [OF p new U(1,2) al]]
        ok_bind [OF upd] lok_bind [OF held_resolve [OF _ res]] ok_bind [OF held_upd_super])
qed

lemma array_class_ok:
  assumes p: "pending al U n ld0 desc ld" and new: "reg_abs (ld_reg ld0) desc = None"
    and U: "finite U" "desc \<in> U" "OBJECT_DESC \<in> U" "tl desc \<in> U" and al: "\<forall>k. al k" and res: "resolves al U n by_desc"
  shows "ok (array_class al by_desc desc ld) (delivers (held al U n ld0 desc))"
proof -
  note upd = held_upd_plain [where al = al and U = U and n = n and ?ld0.0 = ld0 and desc = desc]
  show ?thesis
    using U(3,4)
    by (auto simp: array_class_def keeps_identity_def intro!: ok_bind [OF register_ok [OF p new U(1,2) al]]
        ok_bind [OF upd] lok_bind [OF held_resolve [OF _ res]] ok_bind [OF held_upd_super])
qed

lemma define_primitive_ok:
  assumes p: "pending al U n ld0 desc ld" and new: "reg_abs (ld_reg ld0) desc = None" "reg_abs (ld_reg ld) desc = None"
    and U: "finite U" "desc \<in> U" and al: "\<forall>k. al k"
  shows "ok (define_primitive al desc ld) (delivers (held al U n ld0 desc))"
proof -
  let ?f = "\<lambda>c. c\<lparr>c_is_primitive := True, c_init_state := 2\<rparr>"
  have "reg_ok (ld_reg ld)" using p by (simp add: pending_def ready_def loader_ok_def)
  then have look: "class_lookup (ld_reg ld) desc = Some None" by (simp add: class_lookup_abs new)
  from register_ok [OF p new(1) U al] obtain c g where c: "class_register al (ld_reg ld) desc = Some (Some c, g)"
    "held al U n ld0 desc c (ld\<lparr>ld_reg := g\<rparr>)"
    by (auto simp: register_def bind_eq_Some_conv elim!: okE)
  from held_upd_plain [OF c(2), of ?f] obtain g' where "set_class g c ?f = Some g'"
    "held al U n ld0 desc c (ld\<lparr>ld_reg := g'\<rparr>)"
    by (auto simp: upd_class_def keeps_identity_def bind_eq_Some_conv elim!: okE)
  with c(1) look show ?thesis by (simp add: define_primitive_def dvm__define_primitive_def)
qed

lemma loaded_or_case:
  assumes "ok m (loaded_or P Q)" and "\<And>ld. P ld \<Longrightarrow> ok (f ld) (delivers Q)"
  shows "ok (m \<bind> (\<lambda>(r, ld). case r of Some c \<Rightarrow> Some (Some c, ld) | None \<Rightarrow> f ld)) (delivers Q)"
  using assms(1) by (rule ok_bind) (use assms(2) in \<open>auto simp: loaded_or_def split: prod.splits option.splits\<close>)

lemma app_class_ok:
  assumes p: "pending al U n ld0 desc ld" and new: "reg_abs (ld_reg ld0) desc = None"
    and U: "finite U" "desc \<in> U" "OBJECT_DESC \<in> U" "rt_names rt \<subseteq> U" "X \<subseteq> U" and al: "\<forall>k. al k"
    and res: "resolves al U n by_desc" and rest: "rest_ok al X (rt_rest rt)"
  shows "ok (app_class al rt by_desc desc ld) (delivers (held al U n ld0 desc))"
proof -
  note def' = dvm_runtime_define_ok [OF _ new U(1,2,4,5) al res rest]
  have shared: "ok (dvm_runtime_shared_define al rt by_desc desc ld) (loaded_or (pending al U n ld0 desc) (held al U n ld0 desc))"
    using def' [OF p] p by (simp add: dvm_runtime_shared_define_def)
  show ?thesis
    unfolding app_class_def
  proof (rule loaded_or_case [OF shared])
    fix ld1
    assume p1: "pending al U n ld0 desc ld1"
    then have "set [0..<length (ld_dexes ld1)] \<subseteq> {..<length (ld_dexes ld0)}"
      by (auto simp: pending_def loads_dexes)
    note dex = dex_class_ok [OF new U(1,2) al res p1 this]
    have builtin: "ok (do { (r, ld) \<leftarrow> dvm_runtime_define al rt by_desc desc ld2;
        case r of Some c \<Rightarrow> Some (Some c, ld) | None \<Rightarrow> stub_class al by_desc desc ld }) (delivers (held al U n ld0 desc))"
      if "pending al U n ld0 desc ld2" for ld2
      by (rule loaded_or_case [OF def' [OF that] stub_class_ok [OF _ new U(1,2,3) al res]])
    show "ok (do { (r, ld) \<leftarrow> dex_class al (rt_throw rt by_desc) by_desc desc [0..<length (ld_dexes ld1)] ld1;
         case r of Some c \<Rightarrow> Some (c, ld)
         | None \<Rightarrow> do { (r, ld) \<leftarrow> dvm_runtime_define al rt by_desc desc ld;
             case r of Some c \<Rightarrow> Some (Some c, ld) | None \<Rightarrow> stub_class al by_desc desc ld } })
        (delivers (held al U n ld0 desc))"
      by (rule ok_bind [OF dex]) (auto intro: builtin)
  qed
qed

lemma held_delivers:
  assumes "ok m (delivers (held al U n ld desc))" and "desc \<noteq> []"
  shows "ok m (\<lambda>(r, ld'). ready al U (Suc n) ld' \<and> loads ld ld' \<and>
    (if desc = [] then r = None else \<exists>c. r = Some c \<and> reg_abs (ld_reg ld') desc = Some c))"
  using assms by (auto simp: delivers_def held_def ready_Suc elim!: ok_mono)

text \<open>A set of names from which resolving does not lead out.\<close>

definition names_closed :: "runtime \<Rightarrow> string set \<Rightarrow> string set \<Rightarrow> bool" where
  "names_closed rt X U \<longleftrightarrow> finite U \<and> OBJECT_DESC \<in> U \<and> rt_names rt \<subseteq> U \<and> X \<subseteq> U \<and> (\<forall>s \<in> U. tl s \<in> U)"

lemma class_by_desc_resolves:
  assumes U: "names_closed rt X U" and al: "\<forall>k. al k" and rest: "rest_ok al X (rt_rest rt)"
  shows "resolves al U n (dvm__class_by_desc n al rt)"
proof (induction n)
  case 0
  show ?case by (simp add: resolves_def ready_def)
next
  case (Suc n)
  let ?by = "dvm__class_by_desc n al rt"
  have cl: "finite U" "OBJECT_DESC \<in> U" "rt_names rt \<subseteq> U" "X \<subseteq> U" using U by (simp_all add: names_closed_def)
  show ?case
    unfolding resolves_def
  proof (intro ballI allI impI)
    fix desc ld
    assume d: "desc \<in> U" and r: "ready al U (Suc n) ld"
    have tl: "tl desc \<in> U" using U d by (simp add: names_closed_def)
    have reg: "reg_ok (ld_reg ld)" using r by (simp add: ready_def loader_ok_def)
    let ?Q = "\<lambda>(r, ld'). ready al U (Suc n) ld' \<and> loads ld ld' \<and>
      (if desc = [] then r = None else \<exists>c. r = Some c \<and> reg_abs (ld_reg ld') desc = Some c)"
    show "ok (dvm__class_by_desc (Suc n) al rt desc ld) ?Q"
    proof (cases "desc = [] \<or> reg_abs (ld_reg ld) desc \<noteq> None")
      case True
      then show ?thesis using r by (auto simp: class_lookup_abs [OF reg] Let_def)
    next
      case False
      then have new: "reg_abs (ld_reg ld) desc = None" and ne: "desc \<noteq> []" by auto
      then have p: "pending al U n ld desc ld" using r by (auto simp: pending_def registered_def)
      note app = app_class_ok [OF _ new cl(1) d cl(2-4) al Suc.IH rest]
      have boot: "ok (if desc_is_boot_class dvm_runtime_http_core_class desc then dvm_runtime_define al rt ?by desc ld else Some (None, ld))
          (loaded_or (pending al U n ld desc) (held al U n ld desc))"
        using dvm_runtime_define_ok [OF p new cl(1) d cl(3,4) al Suc.IH rest] p by simp
      have "ok (if hd desc = CHR ''['' then array_class al ?by desc ld
          else if tl desc = [] \<and> hd desc \<in> set ''ZBCSIJFDV'' then define_primitive al desc ld
          else do {
            (r, ld) \<leftarrow> (if desc_is_boot_class dvm_runtime_http_core_class desc then dvm_runtime_define al rt ?by desc ld else Some (None, ld));
            case r of Some c \<Rightarrow> Some (Some c, ld) | None \<Rightarrow> app_class al rt ?by desc ld })
          (delivers (held al U n ld desc))"
        using array_class_ok [OF p new cl(1) d cl(2) tl al Suc.IH] define_primitive_ok [OF p new new cl(1) d al]
          loaded_or_case [OF boot app]
        by presburger
      from held_delivers [OF this ne] show ?thesis
        using ne new by (simp add: class_lookup_abs [OF reg] Let_def)
    qed
  qed
qed

text \<open>The names that resolving a descriptor can reach: suffixes account for the components of arrays.\<close>

definition universe :: "alloc \<Rightarrow> string set \<Rightarrow> runtime \<Rightarrow> dex_file list \<Rightarrow> string \<Rightarrow> string set" where
  "universe al X rt ds desc =
     (\<Union>b \<in> {desc, OBJECT_DESC} \<union> rt_names rt \<union> X \<union> (\<Union>d \<in> set ds. \<Union> (set_option ` range (type_res al d))).
        (\<lambda>k. drop k b) ` {..length b})"

lemma universe_base: "b \<in> {desc, OBJECT_DESC} \<union> rt_names rt \<union> X \<union> (\<Union>d \<in> set ds. \<Union> (set_option ` range (type_res al d))) \<Longrightarrow>
    b \<in> universe al X rt ds desc"
  unfolding universe_def by (intro UN_I [of b] image_eqI [of _ _ 0]) simp_all

lemma finite_rt_names: "finite (rt_names rt)"
  by (auto simp: rt_names_def)

lemma universe_closed:
  assumes "finite X"
  shows "names_closed rt X (universe al X rt ds desc)"
proof -
  have "finite (set_option x)" for x :: "string option" by simp
  then have "finite (universe al X rt ds desc)"
    using assms finite_rt_names by (auto simp: universe_def)
  moreover have "tl s \<in> universe al X rt ds desc" if "s \<in> universe al X rt ds desc" for s
  proof -
    from that obtain b k where b: "b \<in> {desc, OBJECT_DESC} \<union> rt_names rt \<union> X \<union> (\<Union>d \<in> set ds. \<Union> (set_option ` range (type_res al d)))"
      "s = drop k b" "k \<le> length b" unfolding universe_def by auto
    have "tl s = drop (min (Suc k) (length b)) b" using b(2,3) by (auto simp: drop_Suc [symmetric] tl_drop min_def)
    then have "tl s \<in> (\<lambda>k. drop k b) ` {..length b}" by simp
    with b(1) show ?thesis unfolding universe_def by blast
  qed
  ultimately show ?thesis
    using universe_base [where desc = desc and rt = rt and X = X and ds = ds and al = al] by (auto simp: names_closed_def)
qed


definition no_runtime :: runtime where
  "no_runtime = \<lparr>rt_classes = [], rt_legacy_http = False, rt_rest = (\<lambda>by_desc desc c ld. Some (True, ld)),
     rt_throw = (\<lambda>by_desc cls msg ld. do { (_, ld) \<leftarrow> by_desc (''L'' @ cls @ '';'') ld; Some ld })\<rparr>"

definition sample_loader :: loader where
  "sample_loader = \<lparr>ld_reg = registry_empty, ld_dexes = [sample_dex]\<rparr>"

lemma no_runtime_rest: "rest_ok al X (rt_rest no_runtime)"
  by (simp add: rest_ok_def no_runtime_def)

lemma sample_loader_ok: "loader_ok all_mem sample_loader"
proof -
  have "method_ids_size sample_dex = 1" "unat (class_defs_size sample_dex) = 2"
    "string_res all_mem sample_dex (rd32 sample_dex (unat (method_ids_off sample_dex) + 4)) \<noteq> None"
    by code_simp+
  moreover from this(1) have "i < method_ids_size sample_dex \<Longrightarrow> i = 0" for i by (simp add: word_less_1)
  ultimately have "dex_good all_mem sample_dex"
    using sample_inv(1) sample_cls_ok sample_len by (auto simp: dex_good_def)
  then show ?thesis by (simp add: loader_ok_def sample_loader_def registry_empty_ok) (simp add: registry_empty_def)
qed


section \<open>Field layout\<close>

text \<open>
  Consecutive slots from \<open>base\<close> to \<open>n\<close> for the entries that were filled in.
\<close>

fun laid_out :: "nat \<Rightarrow> dvm_field list \<Rightarrow> nat \<Rightarrow> bool" where
  "laid_out base [] n \<longleftrightarrow> n = base"
| "laid_out base (f # fs) n \<longleftrightarrow> (f = field_zero \<and> laid_out base fs n) \<or> (f_slot f = of_nat base \<and> laid_out (Suc base) fs n)"

lemma on_dex_reg: "on_dex i op ld = Some (r, ld') \<Longrightarrow> ld_reg ld' = ld_reg ld"
  by (auto simp: on_dex_def bind_eq_Some_conv)

lemma load_fields_layout:
  "load_fields al di c False es base ld = Some ((fs, n), ld') \<Longrightarrow>
    laid_out base fs n \<and> length fs = length es \<and> ld_reg ld' = ld_reg ld"
proof (induction es arbitrary: base ld fs n ld')
  case (Cons e es)
  then show ?case
    by (auto simp: bind_eq_Some_conv split: option.splits dest!: on_dex_reg)
qed simp

lemma load_statics_layout:
  "load_fields al di c True es base ld = Some ((fs, n), ld') \<Longrightarrow>
    length fs = length es \<and> ld_reg ld' = ld_reg ld \<and> (\<forall>i < length fs. fs ! i = field_zero \<or> f_slot (fs ! i) = of_nat (base + i))"
proof (induction es arbitrary: base ld fs n ld')
  case (Cons e es)
  from Cons.prems obtain f fs' ld1 ld2 where fs: "fs = f # fs'" "f = field_zero \<or> f_slot f = of_nat base"
    "load_fields al di c True es (Suc base) ld1 = Some ((fs', n), ld2)" "ld_reg ld1 = ld_reg ld" "ld' = ld2"
    by (auto simp: bind_eq_Some_conv split: option.splits dest!: on_dex_reg)
  with Cons.IH [OF fs(3)] show ?case by (auto simp: nth_Cons' less_Suc_eq_0_disj)
qed simp

lemma load_method_reg: "load_method al di c e ld = Some (m, ld') \<Longrightarrow> ld_reg ld' = ld_reg ld"
  by (auto simp: load_method_def bind_eq_Some_conv Let_def split: option.splits if_splits dest!: on_dex_reg)

lemma load_methods_reg: "load_methods al di c es ld = Some (ms, ld') \<Longrightarrow> ld_reg ld' = ld_reg ld"
  by (induction es arbitrary: ld ms) (auto simp: bind_eq_Some_conv dest!: load_method_reg)

lemma laid_out_bounds: "laid_out base fs n \<Longrightarrow> base \<le> n \<and> n \<le> base + length fs"
  by (induction base fs n rule: laid_out.induct) auto

lemma laid_out_slot:
  "laid_out base fs n \<Longrightarrow> n \<le> 2 ^ 16 \<Longrightarrow> f \<in> set fs \<Longrightarrow> f \<noteq> field_zero \<Longrightarrow> base \<le> unat (f_slot f) \<and> unat (f_slot f) < n"
proof (induction base fs n rule: laid_out.induct)
  case (2 base g fs n)
  show ?case
  proof (cases "f_slot g = of_nat base \<and> laid_out (Suc base) fs n")
    case True
    then have "base < n" using laid_out_bounds [of "Suc base" fs n] by simp
    with 2(4) have "unat (f_slot g) = base" using True by (simp add: unat_of_nat take_bit_nat_eq_self)
    with True 2 \<open>base < n\<close> show ?thesis by (auto dest: Suc_leD)
  next
    case False
    with 2 show ?thesis by auto
  qed
qed simp

lemma laid_out_distinct:
  "laid_out base fs n \<Longrightarrow> n \<le> 2 ^ 16 \<Longrightarrow> distinct (map f_slot (filter (\<lambda>f. f \<noteq> field_zero) fs))"
proof (induction base fs n rule: laid_out.induct)
  case (2 base g fs n)
  show ?case
  proof (cases "f_slot g = of_nat base \<and> laid_out (Suc base) fs n")
    case True
    then have "base < n" using laid_out_bounds [of "Suc base" fs n] by simp
    with 2(4) True have "unat (f_slot g) = base" by (simp add: unat_of_nat take_bit_nat_eq_self)
    then have "f_slot f \<noteq> f_slot g" if "f \<in> set fs" "f \<noteq> field_zero" for f
      using laid_out_slot [of "Suc base" fs n f] True 2(4) that by auto
    then show ?thesis using 2 True by fastforce
  next
    case False
    with 2 show ?thesis by auto
  qed
qed simp

text \<open>
  C32. The instance fields that a class declares get slots of their own, after those of its
  superclass and below the number of slots that its objects have, as long as there are at most
  65536 of them (the slot numbers have 16 bits); the static fields get one slot each.
\<close>

theorem class_layout:
  assumes "load_members al di c data ld = Some ld'" and "c < length (reg_all (ld_reg ld))"
    and "super_slots ld c = Some base"
  shows "\<exists>k. class_at ld' c = Some k \<and> length (c_ifields k) = length (instance_fields data) \<and>
    base \<le> c_islots k \<and> c_islots k \<le> base + length (instance_fields data) \<and>
    (c_islots k \<le> 2 ^ 16 \<longrightarrow>
       (\<forall>f \<in> set (c_ifields k). f \<noteq> field_zero \<longrightarrow> base \<le> unat (f_slot f) \<and> unat (f_slot f) < c_islots k) \<and>
       distinct (map f_slot (filter (\<lambda>f. f \<noteq> field_zero) (c_ifields k)))) \<and>
    length (c_sfields k) = length (static_fields data) \<and>
    (\<forall>i < length (c_sfields k). c_sfields k ! i = field_zero \<or> f_slot (c_sfields k ! i) = of_nat i)"
proof -
  from assms(1,3) obtain ifs slots ld1 ld2 sfs x ld3 ld4 where
    i: "load_fields al di c False (instance_fields data) base ld = Some ((ifs, slots), ld1)"
    and u1: "upd_class c (\<lambda>k. k\<lparr>c_ifields := ifs, c_islots := slots\<rparr>) ld1 = Some ld2"
    and s: "load_fields al di c True (static_fields data) 0 ld2 = Some ((sfs, x), ld3)"
    and u2: "upd_class c (\<lambda>k. k\<lparr>c_sfields := sfs, c_sslots := (if length (static_fields data) \<noteq> 0 \<and>
      al (length (static_fields data) * 8) then Some (replicate (length (static_fields data)) 0) else None)\<rparr>) ld3 = Some ld4"
    and m: "\<exists>ms ld5. ld_reg ld5 = ld_reg ld4 \<and> upd_class c (\<lambda>k. k\<lparr>c_methods := ms\<rparr>) ld5 = Some ld'"
    by (auto simp: load_members_def bind_eq_Some_conv Let_def split: if_splits dest!: load_methods_reg; blast)
  note li = load_fields_layout [OF i] and ls = load_statics_layout [OF s]
  from u1 u2 m li ls assms(2) obtain k where k: "class_at ld' c = Some k" "c_ifields k = ifs" "c_islots k = slots" "c_sfields k = sfs"
    by (auto simp: upd_class_def set_class_def bind_eq_Some_conv class_at_def c_set_def)
  with li ls laid_out_bounds [of base ifs slots] laid_out_slot [of base ifs slots] laid_out_distinct [of base ifs slots]
  show ?thesis by auto
qed

text \<open>A class with one instance field and one static field, both field 0 of the sample image.\<close>

definition sample_members :: dex_class_data where
  "sample_members = \<lparr>static_fields = [\<lparr>ef_field_idx = 0, ef_access_flags = 9\<rparr>],
     instance_fields = [\<lparr>ef_field_idx = 0, ef_access_flags = 1\<rparr>], direct_methods = [], virtual_methods = []\<rparr>"

definition sample_registered :: loader where
  "sample_registered = snd (the (register all_mem ''LA;'' sample_loader))"

definition sample_loaded :: loader where
  "sample_loaded = the (load_members all_mem 0 0 sample_members sample_registered)"

theorem class_layout_witness:
  "\<exists>k. class_at sample_loaded 0 = Some k \<and> length (c_ifields k) = 1 \<and> c_islots k \<le> 1 \<and> length (c_sfields k) = 1"
proof -
  have "load_members all_mem 0 0 sample_members sample_registered = Some sample_loaded"
  proof -
    have "load_members all_mem 0 0 sample_members sample_registered \<noteq> None" by code_simp
    then show ?thesis by (auto simp: sample_loaded_def)
  qed
  moreover have "0 < length (reg_all (ld_reg sample_registered))" "super_slots sample_registered 0 = Some 0"
    by code_simp+
  ultimately show ?thesis
    using class_layout [of all_mem 0 0 sample_members sample_registered sample_loaded 0]
    by (auto simp: sample_members_def)
qed

section \<open>The platform inventory\<close>

lemma strcmp_zero: "strcmp a b = 0 \<longleftrightarrow> a = b"
  by (induction a b rule: strcmp.induct) auto

lemma strcmp_self: "strcmp a a = 0"
  by (simp add: strcmp_zero)

lemma strcmp_flip: "strcmp b a = - strcmp a b"
  by (induction a b rule: strcmp.induct) (auto simp: of_char_eq_iff not_less order.order_iff_strict)

definition strcmp_sorted :: "string list \<Rightarrow> bool" where
  "strcmp_sorted tab = sorted_wrt (\<lambda>a b. strcmp a b < 0) tab"

lemma platform_search_spec:
  "strcmp_sorted tab \<Longrightarrow> hi \<le> length tab \<Longrightarrow>
    platform_search tab desc lo hi = Some (\<exists>i. lo \<le> i \<and> i < hi \<and> tab ! i = desc)"
proof (induction tab desc lo hi rule: platform_search.induct)
  case (1 tab desc lo hi)
  show ?case
  proof (cases "lo < hi")
    case False
    then show ?thesis by (subst platform_search.simps) auto
  next
    case True
    define mid where "mid = lo + (hi - lo) div 2"
    have mid: "lo \<le> mid" "mid < hi" using True by (auto simp: mid_def)
    have less: "strcmp (tab ! i) (tab ! j) < 0" if "i < j" "j < length tab" for i j
      using 1(3) that by (simp add: strcmp_sorted_def sorted_wrt_iff_nth_less)
    have step: "platform_search tab desc lo hi = (if strcmp desc (tab ! mid) = 0 then Some True
        else if strcmp desc (tab ! mid) < 0 then platform_search tab desc lo mid else platform_search tab desc (mid + 1) hi)"
      using True mid 1(4) by (subst platform_search.simps) (simp add: mid_def [symmetric] Let_def)
    note IH = 1(1,2) [OF True mid_def, of "tab ! mid" "strcmp desc (tab ! mid)"]
    consider "strcmp desc (tab ! mid) = 0" | "strcmp desc (tab ! mid) < 0" | "0 < strcmp desc (tab ! mid)" by linarith
    then show ?thesis
    proof cases
      case 1
      then have "tab ! mid = desc" by (simp add: strcmp_zero)
      then show ?thesis using mid 1 unfolding step by auto
    next
      case 2
      have "i < mid" if "i < hi" "tab ! i = desc" for i
      proof (rule ccontr)
        assume "\<not> i < mid"
        then show False using that 2 less [of mid i] \<open>hi \<le> length tab\<close> strcmp_flip [of "tab ! mid" desc] by (cases "i = mid") (auto simp: strcmp_self)
      qed
      then have "(\<exists>i. lo \<le> i \<and> i < hi \<and> tab ! i = desc) \<longleftrightarrow> (\<exists>i. lo \<le> i \<and> i < mid \<and> tab ! i = desc)"
        using mid(2) by (auto intro: less_trans)
      then show ?thesis
        using IH(1) 1(3,4) mid 2 by (simp add: step)
    next
      case 3
      have "mid + 1 \<le> i" if "tab ! i = desc" for i
      proof (rule ccontr)
        assume "\<not> mid + 1 \<le> i"
        then show False using that 3 less [of i mid] mid \<open>hi \<le> length tab\<close> by (cases "i = mid") (auto simp: strcmp_self)
      qed
      then have "(\<exists>i. lo \<le> i \<and> i < hi \<and> tab ! i = desc) \<longleftrightarrow> (\<exists>i. mid + 1 \<le> i \<and> i < hi \<and> tab ! i = desc)"
        using mid(1) by (metis add_leD1 le_trans)
      then show ?thesis
        using IH(2) 1(3,4) mid 3 by (simp add: step)
    qed
  qed
qed

lemma platform_class_exists_spec:
  "strcmp_sorted tab \<Longrightarrow> dvm_platform_class_exists tab desc = Some (desc \<in> set tab)"
  by (simp add: dvm_platform_class_exists_def platform_search_spec in_set_conv_nth)

end
