(* ===== verification/Dvm_Object.thy ===== *)
theory Dvm_Object
  imports Dvm_Exec Dvm_Field Dvm_Method Dvm_Loader
begin

text \<open>
  The instructions of \<open>execute\<close> that resolve classes, fields and methods (\<open>src/src/dvm/dvm.c\<close>), the
  resolution of dex indices through the caches of a dex file, class objects and the
  initialisation of classes.  They work on the whole state of the VM: heap, intern pool, classes
  and dex files, resolution caches, inline caches of the methods.  Running a method, calling
  out of the interpreter, monitors, waiting for another thread, raising an exception and the
  hooks of the host are functions of the environment.
\<close>

section \<open>State\<close>

text \<open>A resolved field: its class, whether it is one of the static ones, and its index there.\<close>

type_synonym fref = "cref \<times> bool \<times> nat"

record dvm_dex =
  type_cache :: "cref option list option"
  method_cache :: "mref option list option"
  proto_cache :: "string option list option"
  dd_field_cache :: "fref option list option"
  string_cache :: "u32 list option"

text \<open>\<open>mx_vt\<close> are the two inline cache entries of a method, most recent first.\<close>

record machine =
  mx_vm :: dvm
  mx_ld :: loader
  mx_pool :: intern_pool
  mx_dexes :: "dvm_dex list"
  mx_class_object :: "cref \<Rightarrow> u32"
  mx_init_owner :: "cref \<Rightarrow> u64"
  mx_vt :: "mref \<Rightarrow> (cref \<times> mref) list"

type_synonym 'a run = "machine \<Rightarrow> ('a \<times> machine) option"

record xenv =
  x_fuel :: nat
  x_alloc :: alloc
  x_runtime :: runtime
  x_me :: "machine \<Rightarrow> u64"
  x_stopping :: "machine \<Rightarrow> bool"
  x_wait :: "cref \<Rightarrow> machine \<Rightarrow> machine option"
  x_throw :: "string \<Rightarrow> machine \<Rightarrow> machine option"
  x_invoke :: "mref \<Rightarrow> u32 \<Rightarrow> u32 list \<Rightarrow> (bool \<times> u64) run"
  x_call_out :: "cref \<Rightarrow> string \<Rightarrow> string \<Rightarrow> bool \<Rightarrow> u32 \<Rightarrow> u32 list \<Rightarrow> (bool \<times> u64) run"
  x_monitor :: "bool \<Rightarrow> u32 \<Rightarrow> bool run"
  x_new_external :: "(string \<Rightarrow> u32 run) option"
  x_external_static :: "(string \<Rightarrow> string \<Rightarrow> string option \<Rightarrow> (bool \<times> u64) run) option"

datatype xoutcome =
    XNext machine frame
  | XRaise "string option" machine frame
  | XReturn u64 machine

definition mx_classes :: "machine \<Rightarrow> dvm_class list" where
  "mx_classes mx = reg_all (ld_reg (mx_ld mx))"

definition mx_heap :: "machine \<Rightarrow> dvm_heap" where
  "mx_heap mx = vm_heap (mx_vm mx)"

definition set_heap :: "dvm_heap \<Rightarrow> machine \<Rightarrow> machine" where
  "set_heap h mx = mx\<lparr>mx_vm := (mx_vm mx)\<lparr>vm_heap := h\<rparr>\<rparr>"

definition set_classes :: "dvm_class list \<Rightarrow> machine \<Rightarrow> machine" where
  "set_classes cs mx = mx\<lparr>mx_ld := (mx_ld mx)\<lparr>ld_reg := (ld_reg (mx_ld mx))\<lparr>reg_all := cs\<rparr>\<rparr>\<rparr>"

definition upd_mx_class :: "cref \<Rightarrow> (dvm_class \<Rightarrow> dvm_class) \<Rightarrow> machine \<Rightarrow> machine option" where
  "upd_mx_class c f mx = do {
     k \<leftarrow> c_at (mx_classes mx) c;
     cs \<leftarrow> c_set (mx_classes mx) c (f k);
     Some (set_classes cs mx) }"

definition mx_dex :: "nat \<Rightarrow> (dex_file \<Rightarrow> ('a \<times> dex_file) option) \<Rightarrow> 'a run" where
  "mx_dex di op mx = do { (r, ld) \<leftarrow> on_dex di op (mx_ld mx); Some (r, mx\<lparr>mx_ld := ld\<rparr>) }"

definition by_desc :: "xenv \<Rightarrow> string \<Rightarrow> cref option run" where
  "by_desc E desc mx = do {
     (c, ld) \<leftarrow> dvm__class_by_desc (x_fuel E) (x_alloc E) (x_runtime E) desc (mx_ld mx);
     Some (c, mx\<lparr>mx_ld := ld\<rparr>) }"

definition new_object :: "xenv \<Rightarrow> cref option \<Rightarrow> u32 run" where
  "new_object E c mx = do {
     k \<leftarrow> (case c of None \<Rightarrow> Some None | Some i \<Rightarrow> do { k \<leftarrow> c_at (mx_classes mx) i; Some (Some (i, c_islots k)) });
     (r, h) \<leftarrow> dvm_new_object (x_alloc E) (mx_heap mx) k;
     Some (r, set_heap h mx) }"

text \<open>The class of a string object is only resolved when the text is not interned yet.\<close>

definition intern :: "xenv \<Rightarrow> string \<Rightarrow> u32 run" where
  "intern E s mx = do {
     hit \<leftarrow> intern_find (mx_pool mx) s;
     (sc, mx) \<leftarrow> (if hit = None then by_desc E ''Ljava/lang/String;'' mx else Some (None, mx));
     (r, h, p) \<leftarrow> dvm__intern (x_alloc E) sc (mx_heap mx) (mx_pool mx) s;
     Some (r, (set_heap h mx)\<lparr>mx_pool := p\<rparr>) }"

section \<open>Dex indices\<close>

definition cache_at :: "'a list option \<Rightarrow> u32 \<Rightarrow> u32 \<Rightarrow> 'a option option" where
  "cache_at l size' idx = (case l of None \<Rightarrow> Some None
     | Some xs \<Rightarrow> if idx < size' then do { x \<leftarrow> c_at xs (unat idx); Some (Some x) } else Some None)"

definition cache_put :: "'a list option \<Rightarrow> u32 \<Rightarrow> u32 \<Rightarrow> 'a \<Rightarrow> 'a list option option" where
  "cache_put l size' idx v = (case l of None \<Rightarrow> Some None
     | Some xs \<Rightarrow> if idx < size' then do { xs \<leftarrow> c_set xs (unat idx) v; Some (Some xs) } else Some (Some xs))"

definition dex_size :: "nat \<Rightarrow> (dex_file \<Rightarrow> u32) \<Rightarrow> machine \<Rightarrow> u32 option" where
  "dex_size di f mx = do { d \<leftarrow> c_at (ld_dexes (mx_ld mx)) di; Some (f d) }"

definition upd_dex :: "nat \<Rightarrow> (dvm_dex \<Rightarrow> dvm_dex option) \<Rightarrow> machine \<Rightarrow> machine option" where
  "upd_dex di f mx = do {
     dd \<leftarrow> c_at (mx_dexes mx) di;
     dd \<leftarrow> f dd;
     dds \<leftarrow> c_set (mx_dexes mx) di dd;
     Some (mx\<lparr>mx_dexes := dds\<rparr>) }"

definition resolve_type :: "xenv \<Rightarrow> nat \<Rightarrow> u32 \<Rightarrow> cref option run" where
  "resolve_type E di idx mx = do {
     size' \<leftarrow> dex_size di type_ids_size mx;
     dd \<leftarrow> c_at (mx_dexes mx) di;
     hit \<leftarrow> cache_at (type_cache dd) size' idx;
     case hit of Some (Some c) \<Rightarrow> Some (Some c, mx)
     | _ \<Rightarrow> do {
         (t, mx) \<leftarrow> mx_dex di (\<lambda>d. dex_type (x_alloc E) d idx) mx;
         case t of None \<Rightarrow> Some (None, mx)
         | Some desc \<Rightarrow> do {
             (c, mx) \<leftarrow> by_desc E desc mx;
             mx \<leftarrow> upd_dex di (\<lambda>dd. do { tc \<leftarrow> cache_put (type_cache dd) size' idx c; Some (dd\<lparr>type_cache := tc\<rparr>) }) mx;
             Some (c, mx) } } }"

definition const_string :: "xenv \<Rightarrow> nat \<Rightarrow> u32 \<Rightarrow> u32 run" where
  "const_string E di idx mx = do {
     size' \<leftarrow> dex_size di string_ids_size mx;
     dd \<leftarrow> c_at (mx_dexes mx) di;
     hit \<leftarrow> cache_at (string_cache dd) size' idx;
     if (case hit of None \<Rightarrow> False | Some r \<Rightarrow> r \<noteq> 0) then do { r \<leftarrow> hit; Some (r, mx) }
     else do {
       (s, mx) \<leftarrow> mx_dex di (\<lambda>d. dex_string (x_alloc E) d idx) mx;
       (r, mx) \<leftarrow> intern E (case s of None \<Rightarrow> [] | Some t \<Rightarrow> t) mx;
       mx \<leftarrow> upd_dex di (\<lambda>dd. do { sc \<leftarrow> cache_put (string_cache dd) size' idx r; Some (dd\<lparr>string_cache := sc\<rparr>) }) mx;
       Some (r, mx) } }"

definition field_at :: "dvm_class list \<Rightarrow> fref \<Rightarrow> dvm_field option" where
  "field_at cs f = (case f of (ow, statics, i) \<Rightarrow> do { k \<leftarrow> c_at cs ow; c_at (fields_of statics k) i })"

text \<open>
  The field, and what is stored through \<open>out_cls\<close>, \<open>out_name\<close> and \<open>out_type\<close>.  The cache is not
  asked whether the field is static.  The per-thread cache of \<open>class_find_field\<close> answers like
  the search used here.
\<close>

definition resolve_field :: "xenv \<Rightarrow> nat \<Rightarrow> u32 \<Rightarrow> bool \<Rightarrow> (fref option \<times> cref option \<times> string option \<times> string option) run" where
  "resolve_field E di idx statics mx = do {
     size' \<leftarrow> dex_size di field_ids_size mx;
     dd \<leftarrow> c_at (mx_dexes mx) di;
     hit \<leftarrow> cache_at (dd_field_cache dd) size' idx;
     case hit of Some (Some f) \<Rightarrow> do {
         fld \<leftarrow> field_at (mx_classes mx) f;
         Some ((Some f, Some (f_cls fld), f_name fld, f_type fld), mx) }
     | _ \<Rightarrow> do {
         fid \<leftarrow> peek_dex di (\<lambda>d. dex_field_id d idx) (mx_ld mx);
         case fid of None \<Rightarrow> Some ((None, None, None, None), mx)
         | Some fid \<Rightarrow> do {
             (cd, mx) \<leftarrow> mx_dex di (\<lambda>d. dex_type (x_alloc E) d (ucast (fid_class_idx fid))) mx;
             (name, mx) \<leftarrow> mx_dex di (\<lambda>d. dex_string (x_alloc E) d (fid_name_idx fid)) mx;
             (ty, mx) \<leftarrow> mx_dex di (\<lambda>d. dex_type (x_alloc E) d (ucast (fid_type_idx fid))) mx;
             case (cd, name) of
               (Some desc, Some nm) \<Rightarrow> do {
                 (c, mx) \<leftarrow> by_desc E desc mx;
                 case c of None \<Rightarrow> Some ((None, None, name, ty), mx)
                 | Some cls \<Rightarrow> do {
                     f \<leftarrow> class_find_field_slow (x_fuel E) (mx_classes mx) nm ty statics cls;
                     case f of None \<Rightarrow> Some ((None, c, name, ty), mx)
                     | Some (ow, i) \<Rightarrow> do {
                         mx \<leftarrow> upd_dex di (\<lambda>dd. do { fc \<leftarrow> cache_put (dd_field_cache dd) size' idx (Some (ow, statics, i));
                           Some (dd\<lparr>dd_field_cache := fc\<rparr>) }) mx;
                         Some ((Some (ow, statics, i), c, name, ty), mx) } } }
             | _ \<Rightarrow> Some ((None, None, name, ty), mx) } } }"

text \<open>
  \<open>throw\<close> is \<open>dvm__throw\<close>; the outputs are the class, the name and the signature.
\<close>

definition resolve_method_id :: "xenv \<Rightarrow> nat \<Rightarrow> u32 \<Rightarrow> (mref option \<times> cref option \<times> string option \<times> string) run" where
  "resolve_method_id E di idx mx = do {
     size' \<leftarrow> dex_size di method_ids_size mx;
     dd \<leftarrow> c_at (mx_dexes mx) di;
     hit \<leftarrow> cache_at (method_cache dd) size' idx;
     case hit of Some (Some r) \<Rightarrow> do {
         m \<leftarrow> method_at (mx_classes mx) r;
         Some ((Some r, Some (m_cls m), m_name m, case m_sig m of None \<Rightarrow> [] | Some sg \<Rightarrow> sg), mx) }
     | _ \<Rightarrow> do {
         mid \<leftarrow> peek_dex di (\<lambda>d. dex_method_id d idx) (mx_ld mx);
         case mid of None \<Rightarrow> Some ((None, None, None, []), mx)
         | Some mid \<Rightarrow> do {
             (cd, mx) \<leftarrow> mx_dex di (\<lambda>d. dex_type (x_alloc E) d (ucast (mid_class_idx mid))) mx;
             (name, mx) \<leftarrow> mx_dex di (\<lambda>d. dex_string (x_alloc E) d (mid_name_idx mid)) mx;
             case (cd, name) of
               (Some desc, Some nm) \<Rightarrow> do {
                 psize \<leftarrow> dex_size di proto_ids_size mx;
                 let pi = ucast (mid_proto_idx mid);
                 dd \<leftarrow> c_at (mx_dexes mx) di;
                 if proto_cache dd = None \<or> psize \<le> pi then do {
                   mx \<leftarrow> x_throw E ''java/lang/VerifyError'' mx;
                   Some ((None, None, None, []), mx) }
                 else do {
                   ps \<leftarrow> proto_cache dd;
                   known \<leftarrow> c_at ps (unat pi);
                   (sg, mx) \<leftarrow> (if known \<noteq> None then Some (known, mx)
                     else mx_dex di (\<lambda>d. dex_proto_signature_alloc (x_alloc E) d pi) mx);
                   mx \<leftarrow> upd_dex di (\<lambda>dd. do { ps \<leftarrow> proto_cache dd; ps \<leftarrow> c_set ps (unat pi) sg; Some (dd\<lparr>proto_cache := Some ps\<rparr>) }) mx;
                   case sg of None \<Rightarrow> do {
                       mx \<leftarrow> x_throw E ''java/lang/VerifyError'' mx;
                       Some ((None, None, None, []), mx) }
                   | Some sg \<Rightarrow> do {
                       (c, mx) \<leftarrow> by_desc E desc mx;
                       case c of None \<Rightarrow> Some ((None, None, name, sg), mx)
                       | Some cls \<Rightarrow> do {
                           (m, cs) \<leftarrow> dvm_find_method (x_fuel E) (x_alloc E) nm (Some sg) (mx_classes mx) cls;
                           let mx = set_classes cs mx;
                           mx \<leftarrow> (if m = None then Some mx
                             else upd_dex di (\<lambda>dd. do { mc \<leftarrow> cache_put (method_cache dd) size' idx m; Some (dd\<lparr>method_cache := mc\<rparr>) }) mx);
                           Some ((m, c, name, sg), mx) } } } }
             | _ \<Rightarrow> Some ((None, None, None, []), mx) } } }"

section \<open>Class objects and initialisation\<close>

definition class_object :: "xenv \<Rightarrow> cref option \<Rightarrow> u32 run" where
  "class_object E c mx = (case c of None \<Rightarrow> Some (0, mx)
     | Some i \<Rightarrow>
         if mx_class_object mx i \<noteq> 0 then Some (mx_class_object mx i, mx)
         else do {
           (cc, mx) \<leftarrow> by_desc E ''Ljava/lang/Class;'' mx;
           (r, mx) \<leftarrow> new_object E cc mx;
           ob \<leftarrow> dvm__obj (mx_heap mx) r;
           h \<leftarrow> (case ob of None \<Rightarrow> Some (mx_heap mx)
             | Some x \<Rightarrow> heap_put (mx_heap mx) r (x\<lparr>o_kind := DVM_OBJ_CLASS, o_klass := Some i, o_pins := o_pins x + 1\<rparr>));
           Some (r, (set_heap h mx)\<lparr>mx_class_object := (mx_class_object mx)(i := r)\<rparr>) })"

text \<open>One value of the encoded array of static fields.\<close>

definition static_value :: "xenv \<Rightarrow> nat \<Rightarrow> dex_value \<Rightarrow> u64 run" where
  "static_value E di v mx =
     (if val_type v = DEX_VALUE_STRING then do {
        (s, mx) \<leftarrow> mx_dex di (\<lambda>d. dex_string (x_alloc E) d (ucast (val_bits v))) mx;
        case s of None \<Rightarrow> Some (0, mx) | Some t \<Rightarrow> do { (r, mx) \<leftarrow> intern E t mx; Some (ucast r, mx) } }
      else if val_type v = DEX_VALUE_TYPE then do {
        (t, mx) \<leftarrow> mx_dex di (\<lambda>d. dex_type (x_alloc E) d (ucast (val_bits v))) mx;
        (tc, mx) \<leftarrow> (case t of None \<Rightarrow> Some (None, mx) | Some desc \<Rightarrow> by_desc E desc mx);
        if tc = None then Some (0, mx)
        else do {
          (cc, mx) \<leftarrow> by_desc E ''Ljava/lang/Class;'' mx;
          (r, mx) \<leftarrow> new_object E cc mx;
          if r = 0 then Some (0, mx)
          else do {
            ob \<leftarrow> dvm__obj (mx_heap mx) r;
            x \<leftarrow> ob;
            h \<leftarrow> heap_put (mx_heap mx) r (x\<lparr>o_kind := DVM_OBJ_CLASS, o_klass := tc\<rparr>);
            Some (ucast r, set_heap h mx) } } }
      else if val_type v = DEX_VALUE_NULL then Some (0, mx)
      else Some (val_bits v, mx))"

primrec static_fill :: "xenv \<Rightarrow> nat \<Rightarrow> cref \<Rightarrow> nat \<Rightarrow> dex_value list \<Rightarrow> machine \<Rightarrow> machine option" where
  "static_fill E di c i [] mx = Some mx"
| "static_fill E di c i (v # vs) mx = do {
     (x, mx) \<leftarrow> static_value E di v mx;
     k \<leftarrow> c_at (mx_classes mx) c;
     ss \<leftarrow> c_sslots k;
     ss \<leftarrow> c_set ss i x;
     mx \<leftarrow> upd_mx_class c (\<lambda>k. k\<lparr>c_sslots := Some ss\<rparr>) mx;
     static_fill E di c (i + 1) vs mx }"

definition dex_value_zero :: dex_value where
  "dex_value_zero = \<lparr>val_type = 0, val_bits = 0\<rparr>"

definition init_statics :: "xenv \<Rightarrow> cref \<Rightarrow> machine \<Rightarrow> machine option" where
  "init_statics E c mx = do {
     k \<leftarrow> c_at (mx_classes mx) c;
     let n = length (c_sfields k);
     case c_dex k of None \<Rightarrow> Some mx
     | Some di \<Rightarrow>
         if c_static_values_off k = 0 \<or> n = 0 \<or> \<not> x_alloc E (n * 16) then Some mx
         else do {
           (m, vals) \<leftarrow> peek_dex di (\<lambda>d. dex_static_values d (c_static_values_off k) (replicate n dex_value_zero) (int n)) (mx_ld mx);
           static_fill E di c 0 (take (nat m) vals) mx } }"

text \<open>Waiting while another thread initialises the class; the bound counts the turns.\<close>

primrec init_wait :: "nat \<Rightarrow> xenv \<Rightarrow> u64 \<Rightarrow> cref \<Rightarrow> bool run" where
  "init_wait 0 E me c mx = None"
| "init_wait (Suc n) E me c mx = do {
     k \<leftarrow> c_at (mx_classes mx) c;
     if c_init_state k = 1 \<and> mx_init_owner mx c \<noteq> me then
       (if x_stopping E mx then Some (False, mx) else do { mx \<leftarrow> x_wait E c mx; init_wait n E me c mx })
     else Some (True, mx) }"

definition run_clinit :: "xenv \<Rightarrow> cref \<Rightarrow> bool run" where
  "run_clinit E c mx = do {
     m \<leftarrow> class_own_method (mx_classes mx) c ''<clinit>'' (Some ''()V'');
     case m of None \<Rightarrow> Some (True, mx)
     | Some r \<Rightarrow> do {
         b \<leftarrow> concrete (mx_classes mx) r;
         if b then do { ((good, _), mx) \<leftarrow> x_invoke E r 0 [] mx; Some (good, mx) } else Some (True, mx) } }"

definition init_done :: "cref \<Rightarrow> bool \<Rightarrow> bool run" where
  "init_done c good mx = do {
     mx \<leftarrow> upd_mx_class c (\<lambda>k. k\<lparr>c_init_state := (if good then 2 else 3)\<rparr>) mx;
     Some (good, mx\<lparr>mx_init_owner := (mx_init_owner mx)(c := 0)\<rparr>) }"

primrec dvm_init_class :: "nat \<Rightarrow> xenv \<Rightarrow> cref option \<Rightarrow> bool run" where
  "dvm_init_class 0 E cls mx = None"
| "dvm_init_class (Suc n) E cls mx = (case cls of None \<Rightarrow> Some (True, mx)
     | Some c \<Rightarrow> do {
         k \<leftarrow> c_at (mx_classes mx) c;
         if c_init_state k = 2 then Some (True, mx)
         else do {
           let me = x_me E mx;
           (go, mx) \<leftarrow> (if c_init_state k = 3 then Some (True, mx)
             else if me = 0 then Some (False, mx) else init_wait (Suc n) E me c mx);
           if \<not> go then Some (False, mx)
           else do {
             k \<leftarrow> c_at (mx_classes mx) c;
             if c_init_state k = 3 then do { mx \<leftarrow> x_throw E ''java/lang/NoClassDefFoundError'' mx; Some (False, mx) }
             else if c_init_state k \<noteq> 0 then Some (True, mx)
             else do {
               mx \<leftarrow> upd_mx_class c (\<lambda>k. k\<lparr>c_init_state := 1\<rparr>) mx;
               let mx = mx\<lparr>mx_init_owner := (mx_init_owner mx)(c := me)\<rparr>;
               (good, mx) \<leftarrow> (if c_super k = None then Some (True, mx) else dvm_init_class n E (c_super k) mx);
               if \<not> good then init_done c False mx
               else do {
                 mx \<leftarrow> init_statics E c mx;
                 (good, mx) \<leftarrow> run_clinit E c mx;
                 init_done c good mx } } } } })"

section \<open>Instructions\<close>

text \<open>\<open>di\<close> is the dex file of the method, when it is registered; \<open>cls\<close> the class of the method.\<close>

definition XREQ :: "nat list \<Rightarrow> machine \<Rightarrow> frame \<Rightarrow> xoutcome option \<Rightarrow> xoutcome option" where
  "XREQ rs mx fr k = (if list_all (\<lambda>i. i < length (fr_regs fr)) rs then k
     else Some (XRaise (Some ''java/lang/VerifyError'') mx fr))"

definition xput :: "nat \<Rightarrow> u32 \<Rightarrow> u32 \<Rightarrow> machine \<Rightarrow> frame \<Rightarrow> xoutcome option" where
  "xput i v n mx fr = do {
     rs \<leftarrow> c_set (fr_regs fr) i v;
     Some (XNext mx (fr\<lparr>fr_regs := rs, fr_pc := fr_pc fr + n\<rparr>)) }"

definition xput_wide :: "nat \<Rightarrow> u64 \<Rightarrow> u32 \<Rightarrow> machine \<Rightarrow> frame \<Rightarrow> xoutcome option" where
  "xput_wide i v n mx fr = do {
     rs \<leftarrow> sw (fr_regs fr) i v;
     Some (XNext mx (fr\<lparr>fr_regs := rs, fr_pc := fr_pc fr + n\<rparr>)) }"

definition xskip :: "u32 \<Rightarrow> machine \<Rightarrow> frame \<Rightarrow> xoutcome option" where
  "xskip n mx fr = Some (XNext mx (fr\<lparr>fr_pc := fr_pc fr + n\<rparr>))"

definition type_operand :: "xenv \<Rightarrow> nat option \<Rightarrow> u16 list \<Rightarrow> frame \<Rightarrow> cref option run" where
  "type_operand E di insns fr mx = (case di of None \<Rightarrow> Some (None, mx)
     | Some i \<Rightarrow> resolve_type E i (ucast (IU insns (fr_pc fr) 1)) mx)"

definition exec_const_string :: "xenv \<Rightarrow> nat option \<Rightarrow> u8 \<Rightarrow> u16 \<Rightarrow> u16 list \<Rightarrow> machine \<Rightarrow> frame \<Rightarrow> xoutcome option" where
  "exec_const_string E di op u0 insns mx fr =
     (let a = unat (AA u0); idx = (if op = 0x1a then ucast (IU insns (fr_pc fr) 1) else IU32 insns (fr_pc fr)) in
      XREQ [a] mx fr (do {
        (r, mx) \<leftarrow> (case di of None \<Rightarrow> Some (0, mx) | Some i \<Rightarrow> const_string E i idx mx);
        xput a r (if op = 0x1a then 2 else 3) mx fr }))"

definition absent :: "xenv \<Rightarrow> machine \<Rightarrow> cref \<Rightarrow> bool option" where
  "absent E mx c = do {
     k \<leftarrow> c_at (mx_classes mx) c;
     Some (class_absent dvm_runtime_http_core_class (rt_legacy_http (x_runtime E)) (Some k)) }"

definition exec_const_class :: "xenv \<Rightarrow> nat option \<Rightarrow> u16 \<Rightarrow> u16 list \<Rightarrow> machine \<Rightarrow> frame \<Rightarrow> xoutcome option" where
  "exec_const_class E di u0 insns mx fr = XREQ [unat (AA u0)] mx fr (do {
     (t, mx) \<leftarrow> type_operand E di insns fr mx;
     gone \<leftarrow> (case t of None \<Rightarrow> Some True | Some c \<Rightarrow> absent E mx c);
     if gone then Some (XRaise (Some ''java/lang/NoClassDefFoundError'') mx fr)
     else do { (r, mx) \<leftarrow> class_object E t mx; xput (unat (AA u0)) r 2 mx fr } })"

definition exec_monitor :: "xenv \<Rightarrow> u8 \<Rightarrow> u16 \<Rightarrow> machine \<Rightarrow> frame \<Rightarrow> xoutcome option" where
  "exec_monitor E op u0 mx fr = XREQ [unat (AA u0)] mx fr (do {
     r \<leftarrow> c_at (fr_regs fr) (unat (AA u0));
     (good, mx) \<leftarrow> x_monitor E (op = 0x1d) r mx;
     if good then xskip 1 mx fr else Some (XRaise None mx fr) })"

definition exec_check_cast :: "xenv \<Rightarrow> nat option \<Rightarrow> u16 \<Rightarrow> u16 list \<Rightarrow> machine \<Rightarrow> frame \<Rightarrow> xoutcome option" where
  "exec_check_cast E di u0 insns mx fr = XREQ [unat (AA u0)] mx fr (do {
     (t, mx) \<leftarrow> type_operand E di insns fr mx;
     r \<leftarrow> c_at (fr_regs fr) (unat (AA u0));
     ob \<leftarrow> dvm__obj (mx_heap mx) r;
     good \<leftarrow> (case (ob, t) of (Some x, Some c) \<Rightarrow> class_assignable (x_fuel E) (mx_classes mx) (o_cls x) (Some c) | _ \<Rightarrow> Some True);
     if good then xskip 2 mx fr else Some (XRaise (Some ''java/lang/ClassCastException'') mx fr) })"

definition exec_instance_of :: "xenv \<Rightarrow> nat option \<Rightarrow> u16 \<Rightarrow> u16 list \<Rightarrow> machine \<Rightarrow> frame \<Rightarrow> xoutcome option" where
  "exec_instance_of E di u0 insns mx fr = XREQ [unat (A4 u0), unat (B4 u0)] mx fr (do {
     (t, mx) \<leftarrow> type_operand E di insns fr mx;
     r \<leftarrow> c_at (fr_regs fr) (unat (B4 u0));
     ob \<leftarrow> dvm__obj (mx_heap mx) r;
     good \<leftarrow> (case (ob, t) of (Some x, Some c) \<Rightarrow> class_assignable (x_fuel E) (mx_classes mx) (o_cls x) (Some c) | _ \<Rightarrow> Some False);
     xput (unat (A4 u0)) (if good then 1 else 0) 2 mx fr })"

definition exec_new_instance :: "xenv \<Rightarrow> nat option \<Rightarrow> u16 \<Rightarrow> u16 list \<Rightarrow> machine \<Rightarrow> frame \<Rightarrow> xoutcome option" where
  "exec_new_instance E di u0 insns mx fr = XREQ [unat (AA u0)] mx fr (do {
     (t, mx) \<leftarrow> type_operand E di insns fr mx;
     gone \<leftarrow> (case t of None \<Rightarrow> Some True | Some c \<Rightarrow> absent E mx c);
     if gone then Some (XRaise (Some ''java/lang/NoClassDefFoundError'') mx fr)
     else do {
       (good, mx) \<leftarrow> dvm_init_class (x_fuel E) E t mx;
       if \<not> good then Some (XRaise None mx fr)
       else do {
         c \<leftarrow> t;
         k \<leftarrow> c_at (mx_classes mx) c;
         (h, mx) \<leftarrow> (case x_new_external E of None \<Rightarrow> Some (0, mx)
           | Some hook \<Rightarrow> if c_external k then hook (c_name k) mx else Some (0, mx));
         (r, mx) \<leftarrow> (if h \<noteq> 0 then Some (h, mx) else new_object E t mx);
         xput (unat (AA u0)) r 2 mx fr } } })"

text \<open>
  \<open>dvm_new_array\<close> resolves the array class between its checks and the allocation; an exception
  it raises is left pending.
\<close>

definition new_array :: "xenv \<Rightarrow> char \<Rightarrow> string \<Rightarrow> u32 \<Rightarrow> u32 run" where
  "new_array E kind ed len' mx = (
     let bad = (255 \<le> length (takeWhile (\<lambda>c. c = CHR ''['') ed) \<or> ed = [] \<or> ed = ''V'' \<or>
       256 < length ed + 2 \<and> \<not> x_alloc E (length ed + 2)) in do {
     (c, mx) \<leftarrow> (if bad then Some (None, mx) else by_desc E (''['' @ ed) mx);
     ((r, exc), h) \<leftarrow> dvm_new_array (x_alloc E) (mx_heap mx) (\<lambda>_. c) kind (Some ed) len';
     let mx = set_heap h mx;
     mx \<leftarrow> (case exc of None \<Rightarrow> Some mx | Some e \<Rightarrow> x_throw E e mx);
     Some (r, mx) })"

definition elem_desc :: "machine \<Rightarrow> cref option \<Rightarrow> string option" where
  "elem_desc mx t = (case t of None \<Rightarrow> Some ''I''
     | Some c \<Rightarrow> do { k \<leftarrow> c_at (mx_classes mx) c; Some (if take 1 (c_desc k) = ''['' then tl (c_desc k) else ''I'') })"

definition exec_new_array :: "xenv \<Rightarrow> nat option \<Rightarrow> u16 \<Rightarrow> u16 list \<Rightarrow> machine \<Rightarrow> frame \<Rightarrow> xoutcome option" where
  "exec_new_array E di u0 insns mx fr = XREQ [unat (A4 u0), unat (B4 u0)] mx fr (do {
     (t, mx) \<leftarrow> type_operand E di insns fr mx;
     n \<leftarrow> c_at (fr_regs fr) (unat (B4 u0));
     if sint n < 0 then Some (XRaise (Some ''java/lang/NegativeArraySizeException'') mx fr)
     else do {
       ed \<leftarrow> elem_desc mx t;
       (r, mx) \<leftarrow> new_array E (dvm__kind_of (Some ed)) ed n mx;
       xput (unat (A4 u0)) r 2 mx fr } })"

primrec fill_elems :: "nat \<Rightarrow> nat \<Rightarrow> u32 list \<Rightarrow> u8 list option \<Rightarrow> u8 list option" where
  "fill_elems w i [] data = data"
| "fill_elems w i (v # vs) data = do {
     bs \<leftarrow> data_put data w i (if w = 1 then ucast (ucast v :: u8) else if w = 2 then ucast (ucast v :: u16) else ucast v);
     fill_elems w (i + 1) vs (Some bs) }"

definition exec_filled_new_array :: "xenv \<Rightarrow> nat option \<Rightarrow> u8 \<Rightarrow> u16 list \<Rightarrow> machine \<Rightarrow> frame \<Rightarrow> xoutcome option" where
  "exec_filled_new_array E di op insns mx fr = do {
     (t, mx) \<leftarrow> type_operand E di insns fr mx;
     slots \<leftarrow> gather_args insns (fr_pc fr) (op = 0x25) (fr_regs fr);
     ed \<leftarrow> elem_desc mx t;
     let kind = dvm__kind_of (Some ed);
     (r, mx) \<leftarrow> new_array E kind ed (of_nat (length slots)) mx;
     ob \<leftarrow> dvm__obj (mx_heap mx) r;
     h \<leftarrow> (case ob of None \<Rightarrow> Some (mx_heap mx)
       | Some x \<Rightarrow> do {
           let w = (if dvm__elem_width kind = 1 \<or> dvm__elem_width kind = 2 then dvm__elem_width kind else 4);
           bs \<leftarrow> (if slots = [] then Some (o_data x) else map_option Some (fill_elems w 0 slots (o_data x)));
           heap_put (mx_heap mx) r (x\<lparr>o_data := bs\<rparr>) });
     Some (XNext (set_heap h mx) (fr\<lparr>fr_result := ucast r, fr_pc := fr_pc fr + 3\<rparr>)) }"

section \<open>Field instructions\<close>

definition field_operand :: "xenv \<Rightarrow> nat option \<Rightarrow> bool \<Rightarrow> u16 list \<Rightarrow> frame \<Rightarrow>
    (fref option \<times> cref option \<times> string option \<times> string option) run" where
  "field_operand E di statics insns fr mx = (case di of None \<Rightarrow> Some ((None, None, None, None), mx)
     | Some i \<Rightarrow> resolve_field E i (ucast (IU insns (fr_pc fr) 1)) statics mx)"

text \<open>The slot of an instance field in an object, when the object has it.\<close>

definition iget_slot :: "machine \<Rightarrow> fref option \<Rightarrow> dvm_object \<Rightarrow> nat option option" where
  "iget_slot mx f x = (case f of None \<Rightarrow> Some None
     | Some r \<Rightarrow>
         if o_slots x = None then Some None
         else do {
           fld \<leftarrow> field_at (mx_classes mx) r;
           n \<leftarrow> (case o_cls x of None \<Rightarrow> Some 0 | Some c \<Rightarrow> do { k \<leftarrow> c_at (mx_classes mx) c; Some (c_islots k) });
           Some (if unat (f_slot fld) < n then Some (unat (f_slot fld)) else None) })"

definition exec_iget :: "xenv \<Rightarrow> nat option \<Rightarrow> u8 \<Rightarrow> u16 \<Rightarrow> u16 list \<Rightarrow> machine \<Rightarrow> frame \<Rightarrow> xoutcome option" where
  "exec_iget E di op u0 insns mx fr = XREQ [unat (A4 u0), unat (B4 u0)] mx fr (do {
     ((f, _), mx) \<leftarrow> field_operand E di False insns fr mx;
     r \<leftarrow> c_at (fr_regs fr) (unat (B4 u0));
     ob \<leftarrow> dvm__obj (mx_heap mx) r;
     case ob of None \<Rightarrow> Some (XRaise (Some ''java/lang/NullPointerException'') mx fr)
     | Some x \<Rightarrow> do {
         s \<leftarrow> iget_slot mx f x;
         v \<leftarrow> (case s of None \<Rightarrow> Some 0 | Some i \<Rightarrow> do { ss \<leftarrow> o_slots x; c_at ss i });
         if op = 0x53 then XREQ [unat (A4 u0) + 1] mx fr (xput_wide (unat (A4 u0)) v 2 mx fr)
         else xput (unat (A4 u0)) (ucast v) 2 mx fr } })"

definition exec_iput :: "xenv \<Rightarrow> nat option \<Rightarrow> u8 \<Rightarrow> u16 \<Rightarrow> u16 list \<Rightarrow> machine \<Rightarrow> frame \<Rightarrow> xoutcome option" where
  "exec_iput E di op u0 insns mx fr = XREQ [unat (A4 u0), unat (B4 u0)] mx fr (do {
     ((f, _), mx) \<leftarrow> field_operand E di False insns fr mx;
     r \<leftarrow> c_at (fr_regs fr) (unat (B4 u0));
     ob \<leftarrow> dvm__obj (mx_heap mx) r;
     case ob of None \<Rightarrow> Some (XRaise (Some ''java/lang/NullPointerException'') mx fr)
     | Some x \<Rightarrow>
         XREQ (if op = 0x5a then [unat (A4 u0) + 1] else []) mx fr (do {
           v \<leftarrow> (if op = 0x5a then rw (fr_regs fr) (unat (A4 u0)) else do { w \<leftarrow> c_at (fr_regs fr) (unat (A4 u0)); Some (ucast w) });
           s \<leftarrow> iget_slot mx f x;
           h \<leftarrow> (case s of None \<Rightarrow> Some (mx_heap mx)
             | Some i \<Rightarrow> do { ss \<leftarrow> o_slots x; ss \<leftarrow> c_set ss i v; heap_put (mx_heap mx) r (x\<lparr>o_slots := Some ss\<rparr>) });
           xskip 2 (set_heap h mx) fr }) })"

text \<open>The place of a static field, when its class has storage for it.\<close>

definition sget_slot :: "machine \<Rightarrow> fref \<Rightarrow> (cref \<times> nat) option option" where
  "sget_slot mx f = do {
     fld \<leftarrow> field_at (mx_classes mx) f;
     k \<leftarrow> c_at (mx_classes mx) (f_cls fld);
     Some (case c_sslots k of None \<Rightarrow> None
       | Some ss \<Rightarrow> if unat (f_slot fld) < length ss then Some (f_cls fld, unat (f_slot fld)) else None) }"

definition sslot_get :: "machine \<Rightarrow> cref \<times> nat \<Rightarrow> u64 option" where
  "sslot_get mx p = do { k \<leftarrow> c_at (mx_classes mx) (fst p); ss \<leftarrow> c_sslots k; c_at ss (snd p) }"

definition sslot_set :: "machine \<Rightarrow> cref \<times> nat \<Rightarrow> u64 \<Rightarrow> machine option" where
  "sslot_set mx p v = do {
     k \<leftarrow> c_at (mx_classes mx) (fst p);
     ss \<leftarrow> c_sslots k;
     ss \<leftarrow> c_set ss (snd p) v;
     upd_mx_class (fst p) (\<lambda>k. k\<lparr>c_sslots := Some ss\<rparr>) mx }"

definition class_name_of :: "machine \<Rightarrow> cref \<Rightarrow> string option" where
  "class_name_of mx c = do { k \<leftarrow> c_at (mx_classes mx) c; Some (c_name k) }"

text \<open>
  A null \<open>currentActivity\<close> is asked of the host, which publishes it after the class is loaded.
\<close>

definition host_activity :: "xenv \<Rightarrow> u8 \<Rightarrow> fref \<Rightarrow> cref option \<Rightarrow> string option \<Rightarrow> string option \<Rightarrow> u64 \<Rightarrow> u64 run" where
  "host_activity E op f fc fn ft v mx = (case (x_external_static E, fc, fn, ft) of
     (Some hook, Some c, Some nm, Some ty) \<Rightarrow>
       if op = 0x62 \<and> (ucast v :: u32) = 0 \<and> nm = ''currentActivity'' then do {
         cn \<leftarrow> class_name_of mx c;
         ((good, w), mx) \<leftarrow> hook cn nm (Some ty) mx;
         if good \<and> (ucast w :: u32) \<noteq> 0 then do {
           p \<leftarrow> sget_slot mx f;
           mx \<leftarrow> (case p of None \<Rightarrow> Some mx | Some p \<Rightarrow> sslot_set mx p w);
           Some (w, mx) }
         else Some (v, mx) }
       else Some (v, mx)
   | _ \<Rightarrow> Some (v, mx))"

definition exec_sget :: "xenv \<Rightarrow> nat option \<Rightarrow> u8 \<Rightarrow> u16 \<Rightarrow> u16 list \<Rightarrow> machine \<Rightarrow> frame \<Rightarrow> xoutcome option" where
  "exec_sget E di op u0 insns mx fr = XREQ [unat (AA u0)] mx fr (do {
     ((f, fc, fn, ft), mx) \<leftarrow> field_operand E di True insns fr mx;
     (rv, mx) \<leftarrow> (case f of
         Some r \<Rightarrow> do {
           fld \<leftarrow> field_at (mx_classes mx) r;
           (good, mx) \<leftarrow> dvm_init_class (x_fuel E) E (Some (f_cls fld)) mx;
           if \<not> good then Some (Inl None, mx)
           else do {
             p \<leftarrow> sget_slot mx r;
             v \<leftarrow> (case p of None \<Rightarrow> Some 0 | Some p \<Rightarrow> sslot_get mx p);
             (v, mx) \<leftarrow> host_activity E op r fc fn ft v mx;
             Some (Inr v, mx) } }
       | None \<Rightarrow> (case (x_external_static E, fc, fn) of
           (Some hook, Some c, Some nm) \<Rightarrow> do {
             cn \<leftarrow> class_name_of mx c;
             ((good, v), mx) \<leftarrow> hook cn nm ft mx;
             Some (if good then Inr v else Inl (Some ''java/lang/NoClassDefFoundError''), mx) }
         | _ \<Rightarrow> Some (Inr 0, mx)));
     case rv of Inl e \<Rightarrow> Some (XRaise e mx fr)
     | Inr v \<Rightarrow>
         if op = 0x61 then XREQ [unat (AA u0) + 1] mx fr (xput_wide (unat (AA u0)) v 2 mx fr)
         else xput (unat (AA u0)) (ucast v) 2 mx fr })"

definition exec_sput :: "xenv \<Rightarrow> nat option \<Rightarrow> u8 \<Rightarrow> u16 \<Rightarrow> u16 list \<Rightarrow> machine \<Rightarrow> frame \<Rightarrow> xoutcome option" where
  "exec_sput E di op u0 insns mx fr = XREQ [unat (AA u0)] mx fr (do {
     ((f, _), mx) \<leftarrow> field_operand E di True insns fr mx;
     XREQ (if op = 0x68 then [unat (AA u0) + 1] else []) mx fr (do {
       v \<leftarrow> (if op = 0x68 then rw (fr_regs fr) (unat (AA u0)) else do { w \<leftarrow> c_at (fr_regs fr) (unat (AA u0)); Some (ucast w) });
       case f of None \<Rightarrow> xskip 2 mx fr
       | Some r \<Rightarrow> do {
           fld \<leftarrow> field_at (mx_classes mx) r;
           (good, mx) \<leftarrow> dvm_init_class (x_fuel E) E (Some (f_cls fld)) mx;
           if \<not> good then Some (XRaise None mx fr)
           else do {
             p \<leftarrow> sget_slot mx r;
             mx \<leftarrow> (case p of None \<Rightarrow> Some mx | Some p \<Rightarrow> sslot_set mx p v);
             xskip 2 mx fr } } }) })"

section \<open>Calls\<close>

definition virtual_target :: "xenv \<Rightarrow> u32 \<Rightarrow> mref \<Rightarrow> mref run" where
  "virtual_target E self decl mx = do {
     ob \<leftarrow> dvm__obj (mx_heap mx) self;
     dm \<leftarrow> method_at (mx_classes mx) decl;
     case ob of None \<Rightarrow> Some (decl, mx)
     | Some x \<Rightarrow> (case o_cls x of None \<Rightarrow> Some (decl, mx)
         | Some rc \<Rightarrow>
             if rc = m_cls dm then Some (decl, mx)
             else case map_of (mx_vt mx decl) rc of Some m \<Rightarrow> Some (m, mx)
             | None \<Rightarrow> do {
                 name \<leftarrow> m_name dm;
                 (m, cs) \<leftarrow> dvm_find_method (x_fuel E) (x_alloc E) name (m_sig dm) (mx_classes mx) rc;
                 let r = (case m of None \<Rightarrow> decl | Some m \<Rightarrow> m);
                 let mx = set_classes cs mx;
                 Some (r, mx\<lparr>mx_vt := (mx_vt mx)(decl := take 2 ((rc, r) # mx_vt mx decl))\<rparr>) }) }"

definition find_target :: "xenv \<Rightarrow> cref \<Rightarrow> string \<Rightarrow> string \<Rightarrow> mref option run" where
  "find_target E c name sg mx = do {
     (m, cs) \<leftarrow> dvm_find_method (x_fuel E) (x_alloc E) name (Some sg) (mx_classes mx) c;
     Some (m, set_classes cs mx) }"

text \<open>The method that an invocation of kind \<open>kind\<close> runs, given the resolved one.\<close>

definition select_target :: "xenv \<Rightarrow> u8 \<Rightarrow> cref \<Rightarrow> u32 \<Rightarrow> mref option \<Rightarrow> cref option \<Rightarrow> string option \<Rightarrow> string \<Rightarrow> mref option run" where
  "select_target E kind caller self target cls name sg mx = do {
     kc \<leftarrow> c_at (mx_classes mx) caller;
     (target, mx) \<leftarrow> (case (cls, name, c_super kc) of
         (Some c, Some nm, Some s) \<Rightarrow>
           if kind = 0x6f then do {
             k \<leftarrow> c_at (mx_classes mx) c;
             if c_access k AND DEX_ACC_INTERFACE = 0 then find_target E s nm sg mx else Some (target, mx) }
           else Some (target, mx)
       | _ \<Rightarrow> Some (target, mx));
     if kind = 0x6e \<or> kind = 0x72 then
       (case target of Some t \<Rightarrow> do { (m, mx) \<leftarrow> virtual_target E self t mx; Some (Some m, mx) }
        | None \<Rightarrow> if self = 0 then Some (None, mx) else do {
            ob \<leftarrow> dvm__obj (mx_heap mx) self;
            case ob of None \<Rightarrow> Some (None, mx)
            | Some x \<Rightarrow> (case (o_cls x, name) of
                (Some rc, Some nm) \<Rightarrow> find_target E rc nm sg mx
              | (Some rc, None) \<Rightarrow> None
              | _ \<Rightarrow> Some (None, mx)) })
     else Some (target, mx) }"

definition exec_invoke :: "xenv \<Rightarrow> nat option \<Rightarrow> cref \<Rightarrow> u8 \<Rightarrow> u16 list \<Rightarrow> machine \<Rightarrow> frame \<Rightarrow> xoutcome option" where
  "exec_invoke E di caller op insns mx fr = (
     let kind = (if 0x74 \<le> op then op - 0x74 + 0x6e else op) in do {
     ((target, cls, name, sg), mx) \<leftarrow> (case di of None \<Rightarrow> Some ((None, None, None, []), mx)
       | Some i \<Rightarrow> resolve_method_id E i (ucast (IU insns (fr_pc fr) 1)) mx);
     slots \<leftarrow> gather_args insns (fr_pc fr) (0x74 \<le> op) (fr_regs fr);
     if kind \<noteq> 0x71 \<and> slots = [] then Some (XRaise (Some ''java/lang/VerifyError'') mx fr)
     else do {
       let self = (if kind = 0x71 then 0 else hd slots);
       let args = (if kind = 0x71 then slots else tl slots);
       if kind \<noteq> 0x71 \<and> self = 0 then Some (XRaise (Some ''java/lang/NullPointerException'') mx fr)
       else do {
         (target, mx) \<leftarrow> select_target E kind caller self target cls name sg mx;
         gone \<leftarrow> (case (target, cls) of (None, Some c) \<Rightarrow> absent E mx c | _ \<Rightarrow> Some False);
         if gone then Some (XRaise (Some ''java/lang/NoClassDefFoundError'') mx fr)
         else do {
           ((good, ret), mx) \<leftarrow> (case target of Some m \<Rightarrow> x_invoke E m self args mx
             | None \<Rightarrow> (case (cls, name) of
                 (Some c, Some nm) \<Rightarrow> x_call_out E c nm sg (kind = 0x71) self args mx
               | _ \<Rightarrow> Some ((True, 0), mx)));
           if \<not> good \<or> vm_exception (mx_vm mx) \<noteq> 0 then Some (XRaise None mx fr)
           else Some (XNext mx (fr\<lparr>fr_result := ret, fr_pc := fr_pc fr + 3\<rparr>)) } } } })"

section \<open>One instruction of the VM\<close>

definition exec_object :: "xenv \<Rightarrow> nat option \<Rightarrow> cref \<Rightarrow> u8 \<Rightarrow> u16 \<Rightarrow> u16 list \<Rightarrow> machine \<Rightarrow> frame \<Rightarrow> xoutcome option" where
  "exec_object E di caller op u0 insns mx fr =
     (if op \<le> 0x1b then exec_const_string E di op u0 insns mx fr
      else if op = 0x1c then exec_const_class E di u0 insns mx fr
      else if op \<le> 0x1e then exec_monitor E op u0 mx fr
      else if op = 0x1f then exec_check_cast E di u0 insns mx fr
      else if op = 0x20 then exec_instance_of E di u0 insns mx fr
      else if op = 0x22 then exec_new_instance E di u0 insns mx fr
      else if op = 0x23 then exec_new_array E di u0 insns mx fr
      else if op \<le> 0x25 then exec_filled_new_array E di op insns mx fr
      else if op \<le> 0x58 then exec_iget E di op u0 insns mx fr
      else if op \<le> 0x5f then exec_iput E di op u0 insns mx fr
      else if op \<le> 0x66 then exec_sget E di op u0 insns mx fr
      else if op \<le> 0x6d then exec_sput E di op u0 insns mx fr
      else exec_invoke E di caller op insns mx fr)"

text \<open>The instructions on registers and arrays leave everything but heap and exception alone.\<close>

definition lift_outcome :: "machine \<Rightarrow> outcome \<Rightarrow> xoutcome" where
  "lift_outcome mx oc = (case oc of
     Next vm fr \<Rightarrow> XNext (mx\<lparr>mx_vm := vm\<rparr>) fr
   | Raise e vm fr \<Rightarrow> XRaise e (mx\<lparr>mx_vm := vm\<rparr>) fr
   | Return v vm \<Rightarrow> XReturn v (mx\<lparr>mx_vm := vm\<rparr>))"

definition exec_any :: "interp_env \<Rightarrow> xenv \<Rightarrow> nat option \<Rightarrow> cref \<Rightarrow> u16 \<Rightarrow> u16 list \<Rightarrow> machine \<Rightarrow> frame \<Rightarrow> xoutcome option" where
  "exec_any I E di caller u0 insns mx fr =
     (if resolves_classes (OPCODE u0) then exec_object E di caller (OPCODE u0) u0 insns mx fr
      else map_option (lift_outcome mx) (exec_insn I u0 insns (mx_vm mx) fr))"

end
