(* ===== verification/Dvm_Dispatch.thy ===== *)
theory Dvm_Dispatch
  imports Dvm_Object Dvm_Loading
begin

text \<open>
  What the object instructions guarantee: casts decide the subtype relation, a field written by
  one instruction is read by the next, the inline caches of virtual calls are transparent, and
  a call whose method cannot be named reaches a null pointer.
\<close>

section \<open>A sample machine\<close>

text \<open>One live object, one dex file whose caches know a type and a field.\<close>

definition one_heap :: "dvm_object \<Rightarrow> dvm_heap" where
  "one_heap x = pinned_heap\<lparr>heap_blocks := [x # replicate 4095 obj_zero]\<rparr>"

lemma one_heap_ok:
  assumes "o_live x"
  shows "heap_ok (one_heap x)" "heap_abs (one_heap x) 1 = Some x"
proof -
  have one: "unat r = 1" if "r \<noteq> 0" "r \<le> 1" for r :: u32
    using that unat_pos [of r] by (simp add: word_le_nat_alt)
  with assms have "heap_dead (one_heap x) = {}"
    by (force simp: heap_dead_def one_heap_def pinned_heap_def heap_cells_def)
  then show "heap_ok (one_heap x)"
    unfolding heap_ok_def
    by (intro conjI exI [of _ "[]"])
      (auto simp: one_heap_def pinned_heap_def heap_shape_def DVM_HEAP_BLOCK_def heap_cells_def nth_Cons assms split: nat.splits)
  show "heap_abs (one_heap x) 1 = Some x"
    using assms by (simp add: heap_abs_def one_heap_def pinned_heap_def heap_cells_def)
qed

definition sample_machine :: "dvm_class list \<Rightarrow> dvm_object \<Rightarrow> machine" where
  "sample_machine cs x = \<lparr>mx_vm = \<lparr>vm_heap = one_heap x, vm_exception = 0, vm_exc_ref = 0, vm_steps = 0,
       vm_step_limit = 0, vm_call_steps = 0, vm_parked = False\<rparr>,
     mx_ld = sample_loader\<lparr>ld_reg := registry_empty\<lparr>reg_all := cs\<rparr>\<rparr>, mx_pool = \<lparr>interns = [], ninterns = 0\<rparr>,
     mx_dexes = [\<lparr>type_cache = Some [Some 1, None, None, None, None, None], method_cache = None, proto_cache = None,
       dd_field_cache = Some [Some (0, False, 0)], string_cache = None\<rparr>],
     mx_class_object = \<lambda>_. 0, mx_init_owner = \<lambda>_. 0, mx_vt = \<lambda>_. []\<rparr>"

definition sample_xenv :: xenv where
  "sample_xenv = \<lparr>x_fuel = 8, x_alloc = \<lambda>n. n < 4096, x_runtime = no_runtime, x_me = \<lambda>_. 1, x_stopping = \<lambda>_. False,
     x_wait = \<lambda>_. Some, x_throw = \<lambda>_. Some, x_invoke = \<lambda>_ _ _ mx. Some ((True, 0), mx),
     x_call_out = \<lambda>_ _ _ _ _ _ mx. Some ((True, 0), mx), x_monitor = \<lambda>_ _ mx. Some (True, mx),
     x_new_external = None, x_external_static = None\<rparr>"

lemma sample_sizes: "type_ids_size sample_dex = 6 \<and> field_ids_size sample_dex = 1"
  by code_simp

lemma sample_machine_simps [simp]:
  "mx_classes (sample_machine cs x) = cs" "mx_heap (sample_machine cs x) = one_heap x" "mx_vt (sample_machine cs x) d = []"
  by (simp_all add: mx_classes_def mx_heap_def sample_machine_def sample_loader_def registry_empty_def)

lemma plain_live: "o_live (plain_object c n)"
  by (simp add: plain_object_def)

section \<open>Casts\<close>

definition is_instance :: "machine \<Rightarrow> u32 \<Rightarrow> cref \<Rightarrow> bool" where
  "is_instance mx r c \<longleftrightarrow> (\<exists>x f. heap_abs (mx_heap mx) r = Some x \<and> o_cls x = Some f \<and> subtype (mx_classes mx) f c)"

text \<open>Every object has a class of the hierarchy that the recursion bound covers.\<close>

definition classed :: "nat \<Rightarrow> (cref \<Rightarrow> nat) \<Rightarrow> machine \<Rightarrow> u32 \<Rightarrow> bool" where
  "classed n rank mx r \<longleftrightarrow> (case heap_abs (mx_heap mx) r of None \<Rightarrow> True
     | Some x \<Rightarrow> (case o_cls x of None \<Rightarrow> False | Some f \<Rightarrow> f < length (mx_classes mx) \<and> rank f + 2 \<le> n))"

lemma assignable_instance:
  assumes "hierarchy (mx_classes mx) rank" and "classed n rank mx r" and "c < length (mx_classes mx)"
    and "heap_abs (mx_heap mx) r = Some x"
  shows "class_assignable n (mx_classes mx) (o_cls x) (Some c) = Some (is_instance mx r c)"
proof -
  from assms(2,4) obtain f where f: "o_cls x = Some f" "f < length (mx_classes mx)" "rank f + 2 \<le> n"
    by (auto simp: classed_def split: option.splits)
  with class_assignable_spec [OF assms(1) f(2) assms(3) f(3)] assms(4) show ?thesis
    by (simp add: is_instance_def)
qed

text \<open>
  C34. \<open>check-cast\<close> and \<open>instance-of\<close> decide the subtype relation of the loaded classes: the cast
  goes on for a null reference and for an object whose class is a subtype of the operand's class
  and raises \<open>ClassCastException\<close> otherwise; the test stores one exactly for such an object.
\<close>

theorem cast_decides:
  assumes "type_operand E di insns fr mx = Some (Some c, mx')" and "heap_ok (mx_heap mx')"
    and "hierarchy (mx_classes mx') rank" and "c < length (mx_classes mx')" and "classed (x_fuel E) rank mx' r"
    and "unat (AA u0) < length (fr_regs fr)" and "fr_regs fr ! unat (AA u0) = r"
    and "unat (A4 u1) < length (fr_regs fr)" and "unat (B4 u1) < length (fr_regs fr)" and "fr_regs fr ! unat (B4 u1) = r"
  shows "exec_check_cast E di u0 insns mx fr =
      (if heap_abs (mx_heap mx') r = None \<or> is_instance mx' r c then xskip 2 mx' fr
       else Some (XRaise (Some ''java/lang/ClassCastException'') mx' fr)) \<and>
    exec_instance_of E di u1 insns mx fr = xput (unat (A4 u1)) (if is_instance mx' r c then 1 else 0) 2 mx' fr"
proof (cases "heap_abs (mx_heap mx') r")
  case None
  then have "\<not> is_instance mx' r c" by (simp add: is_instance_def)
  with None assms show ?thesis
    by (simp add: exec_check_cast_def exec_instance_of_def XREQ_def dvm__obj_abs)
next
  case (Some x)
  with assms assignable_instance [OF assms(3,5,4) Some] show ?thesis
    by (simp add: exec_check_cast_def exec_instance_of_def XREQ_def dvm__obj_abs)
qed

theorem cast_decides_witness:
  "exec_check_cast sample_xenv (Some 0) 0 [0, 0] (sample_machine sample_classes (plain_object 2 0)) \<lparr>fr_regs = [1], fr_pc = 0, fr_result = 0\<rparr> =
     xskip 2 (sample_machine sample_classes (plain_object 2 0)) \<lparr>fr_regs = [1], fr_pc = 0, fr_result = 0\<rparr>"
proof -
  let ?mx = "sample_machine sample_classes (plain_object 2 0)"
  have t: "type_operand sample_xenv (Some 0) [0, 0] \<lparr>fr_regs = [1], fr_pc = 0, fr_result = 0\<rparr> ?mx = Some (Some 1, ?mx)"
    using sample_sizes
    by (simp add: type_operand_def resolve_type_def dex_size_def cache_at_def IU_def sample_machine_def sample_loader_def)
  have "subtype sample_classes 2 1"
    by (rule subtype.iface [of _ _ _ 1]) (simp_all add: sample_classes_def class_zero_def subtype.same)
  then have "is_instance ?mx 1 1"
    using one_heap_ok(2) [OF plain_live, of 2 0] by (simp add: is_instance_def plain_object_def)
  then show ?thesis
    using cast_decides [OF t, of id 1 0 0] one_heap_ok [OF plain_live, of 2 0] sample_classes_ok(1)
    by (simp add: classed_def plain_object_def sample_xenv_def sample_classes_def AA_def A4_def B4_def)
qed

section \<open>Fields\<close>

text \<open>The field operand is in the cache of the dex file, and the object has the slot.\<close>

definition field_ready :: "nat \<Rightarrow> u32 \<Rightarrow> machine \<Rightarrow> fref \<Rightarrow> bool" where
  "field_ready di idx mx f \<longleftrightarrow> di < length (mx_dexes mx) \<and> di < length (ld_dexes (mx_ld mx)) \<and>
     (\<exists>l. dd_field_cache (mx_dexes mx ! di) = Some l \<and> idx < field_ids_size (ld_dexes (mx_ld mx) ! di) \<and>
       unat idx < length l \<and> l ! unat idx = Some f) \<and> field_at (mx_classes mx) f \<noteq> None"

definition has_slot :: "machine \<Rightarrow> fref \<Rightarrow> dvm_object \<Rightarrow> nat \<Rightarrow> bool" where
  "has_slot mx f x i \<longleftrightarrow> (\<exists>fld c ss. field_at (mx_classes mx) f = Some fld \<and> o_cls x = Some c \<and> c < length (mx_classes mx) \<and>
     o_slots x = Some ss \<and> i = unat (f_slot fld) \<and> i < c_islots (mx_classes mx ! c) \<and> c_islots (mx_classes mx ! c) \<le> length ss)"

lemma field_operand_hit:
  assumes "field_ready di (ucast (IU insns (fr_pc fr) 1)) mx f"
  shows "\<exists>fc fn ft. field_operand E (Some di) statics insns fr mx = Some ((Some f, fc, fn, ft), mx)"
  using assms by (auto simp: field_ready_def field_operand_def resolve_field_def dex_size_def cache_at_def)

lemma iget_slot_has: "has_slot mx f x i \<Longrightarrow> iget_slot mx (Some f) x = Some (Some i)"
  by (auto simp: has_slot_def iget_slot_def)

lemma set_heap_simps [simp]:
  "mx_heap (set_heap h mx) = h" "mx_classes (set_heap h mx) = mx_classes mx" "mx_dexes (set_heap h mx) = mx_dexes mx"
  "mx_ld (set_heap h mx) = mx_ld mx"
  by (simp_all add: set_heap_def mx_heap_def mx_classes_def)

lemma field_ready_heap [simp]: "field_ready di idx (set_heap h mx) f = field_ready di idx mx f"
  by (simp add: field_ready_def)

text \<open>The value in the source register or register pair of a store.\<close>

definition put_value :: "u8 \<Rightarrow> u32 list \<Rightarrow> nat \<Rightarrow> u64" where
  "put_value op rs a = (if op = 0x5a then the (rw rs a) else ucast (rs ! a))"

text \<open>
  C35. \<open>iput\<close> followed by \<open>iget\<close> of the same field of the same object returns what was stored, a
  word or a register pair, and the store changes that one slot of that one object and nothing
  else of the VM.
\<close>

theorem field_instructions_roundtrip:
  assumes "field_ready di (ucast (IU insns (fr_pc fr) 1)) mx f" and "heap_ok (mx_heap mx)"
    and "heap_abs (mx_heap mx) r = Some x" and "has_slot mx f x i" and "o_slots x = Some ss"
    and "0x59 \<le> op" and "op \<le> 0x5f" and "unat (A4 u0) + (if op = 0x5a then 1 else 0) < length (fr_regs fr)"
    and "unat (B4 u0) < length (fr_regs fr)" and "fr_regs fr ! unat (B4 u0) = r"
    and "field_ready di (ucast (IU insns' (fr_pc fr') 1)) mx f" and "length (fr_regs fr') = length (fr_regs fr)"
    and "fr_regs fr' ! unat (B4 u0) = r"
  shows "\<exists>h'. exec_iput E (Some di) op u0 insns mx fr = xskip 2 (set_heap h' mx) fr \<and> heap_ok h' \<and>
    heap_abs h' = (heap_abs (mx_heap mx))(r \<mapsto> x\<lparr>o_slots := Some (ss[i := put_value op (fr_regs fr) (unat (A4 u0))])\<rparr>) \<and>
    exec_iget E (Some di) (op - 7) u0 insns' (set_heap h' mx) fr' =
      (if op = 0x5a then xput_wide (unat (A4 u0)) (put_value op (fr_regs fr) (unat (A4 u0))) 2 (set_heap h' mx) fr'
       else xput (unat (A4 u0)) (fr_regs fr ! unat (A4 u0)) 2 (set_heap h' mx) fr')"
proof -
  let ?v = "put_value op (fr_regs fr) (unat (A4 u0))"
  let ?y = "x\<lparr>o_slots := Some (ss[i := ?v])\<rparr>"
  have i: "i < length ss" using assms(4,5) by (auto simp: has_slot_def)
  have live: "o_live ?y" using assms(3) by (simp add: heap_abs_def split: if_splits)
  obtain h' where h': "heap_put (mx_heap mx) r ?y = Some h'" "heap_ok h'" "heap_abs h' = (heap_abs (mx_heap mx))(r \<mapsto> ?y)"
    using heap_put_live [OF assms(2,3) live] by blast
  have v: "(if op = 0x5a then rw (fr_regs fr) (unat (A4 u0)) else do { w \<leftarrow> c_at (fr_regs fr) (unat (A4 u0)); Some (ucast w) }) = Some ?v"
    using assms(8) by (simp add: put_value_def rw_def split: if_splits)
  obtain fc fn ft where op1: "field_operand E (Some di) False insns fr mx = Some ((Some f, fc, fn, ft), mx)"
    using field_operand_hit [OF assms(1)] by blast
  have put: "exec_iput E (Some di) op u0 insns mx fr = xskip 2 (set_heap h' mx) fr"
    using assms(3,5,8,9,10) op1 v i h'(1) iget_slot_has [OF assms(4)]
    by (auto simp: exec_iput_def XREQ_def dvm__obj_abs [OF assms(2)] simp del: ucast_id)
  have slot: "has_slot (set_heap h' mx) f ?y i" using assms(4,5) by (auto simp: has_slot_def)
  have "field_ready di (ucast (IU insns' (fr_pc fr') 1)) (set_heap h' mx) f" using assms(11) by simp
  then obtain fc fn ft where op2: "field_operand E (Some di) False insns' fr' (set_heap h' mx) = Some ((Some f, fc, fn, ft), set_heap h' mx)"
    using field_operand_hit by blast
  have wide: "(op - 7 = 0x53) = (op = 0x5a)" by (simp add: diff_eq_eq)
  have get: "exec_iget E (Some di) (op - 7) u0 insns' (set_heap h' mx) fr' =
      (if op = 0x5a then xput_wide (unat (A4 u0)) ?v 2 (set_heap h' mx) fr'
       else xput (unat (A4 u0)) (ucast ?v) 2 (set_heap h' mx) fr')"
    using assms(8,9,12,13) op2 i h'(3) iget_slot_has [OF slot] wide
    by (auto simp: exec_iget_def XREQ_def dvm__obj_abs [OF h'(2)])
  have "op \<noteq> 0x5a \<Longrightarrow> (ucast ?v :: u32) = fr_regs fr ! unat (A4 u0)"
    by (auto simp: put_value_def bit_simps intro!: bit_word_eqI)
  with put get h'(2,3) show ?thesis by auto
qed

theorem field_instructions_roundtrip_witness:
  "\<exists>h'. exec_iput sample_xenv (Some 0) 0x5a 0x2000 [0, 0] (sample_machine [twin_class\<lparr>c_islots := 2\<rparr>] (plain_object 0 2))
       \<lparr>fr_regs = [7, 8, 1], fr_pc = 0, fr_result = 0\<rparr> =
     xskip 2 (set_heap h' (sample_machine [twin_class\<lparr>c_islots := 2\<rparr>] (plain_object 0 2)))
       \<lparr>fr_regs = [7, 8, 1], fr_pc = 0, fr_result = 0\<rparr> \<and>
     heap_abs h' = (heap_abs (one_heap (plain_object 0 2)))(1 \<mapsto> (plain_object 0 2)\<lparr>o_slots := Some [0x800000007, 0]\<rparr>) \<and>
     exec_iget sample_xenv (Some 0) 0x53 0x2000 [0, 0] (set_heap h' (sample_machine [twin_class\<lparr>c_islots := 2\<rparr>] (plain_object 0 2)))
       \<lparr>fr_regs = [0, 0, 1], fr_pc = 0, fr_result = 0\<rparr> =
     xput_wide 0 0x800000007 2 (set_heap h' (sample_machine [twin_class\<lparr>c_islots := 2\<rparr>] (plain_object 0 2)))
       \<lparr>fr_regs = [0, 0, 1], fr_pc = 0, fr_result = 0\<rparr>"
proof -
  let ?mx = "sample_machine [twin_class\<lparr>c_islots := 2\<rparr>] (plain_object 0 2)"
  have ready: "field_ready 0 0 ?mx (0, False, 0)"
    using sample_sizes
    by (simp add: field_ready_def field_at_def fields_of_def twin_class_def) (simp add: sample_machine_def sample_loader_def)
  have slot: "has_slot ?mx (0, False, 0) (plain_object 0 2) 0"
    by (simp add: has_slot_def field_at_def fields_of_def twin_class_def plain_object_def)
  have regs: "A4 0x2000 = 0" "B4 0x2000 = 2" by (simp_all add: A4_def B4_def)
  have slots: "o_slots (plain_object 0 2) = Some [0, 0]" by (simp add: plain_object_def numeral_2_eq_2)
  have wide: "put_value 0x5a [7, 8, 1] 0 = 0x800000007" by (simp add: put_value_def rw_def)
  show ?thesis
    using field_instructions_roundtrip [where di = 0 and insns = "[0, 0]" and fr = "\<lparr>fr_regs = [7, 8, 1], fr_pc = 0, fr_result = 0\<rparr>"
        and mx = ?mx and f = "(0, False, 0)" and r = 1 and x = "plain_object 0 2" and i = 0 and ss = "[0, 0]" and op = "0x5a"
        and ?u0.0 = "0x2000" and insns' = "[0, 0]" and fr' = "\<lparr>fr_regs = [0, 0, 1], fr_pc = 0, fr_result = 0\<rparr>" and E = sample_xenv]
      ready slot slots one_heap_ok [OF plain_live, of 0 2]
    by (auto simp: regs wide IU_def)
qed

section \<open>Virtual calls\<close>

text \<open>The method that runs for a receiver of class \<open>rc\<close>: the one found from its class, or the declared one.\<close>

definition dispatch :: "nat \<Rightarrow> dvm_class list \<Rightarrow> mref \<Rightarrow> dvm_method \<Rightarrow> cref \<Rightarrow> mref option" where
  "dispatch n cs decl dm rc = (case m_name dm of None \<Rightarrow> None
     | Some name \<Rightarrow> map_option (\<lambda>r. case r of None \<Rightarrow> decl | Some m \<Rightarrow> m) (resolve_method n name (m_sig dm) cs rc))"

definition inline_ok :: "nat \<Rightarrow> machine \<Rightarrow> bool" where
  "inline_ok n mx \<longleftrightarrow> (\<forall>decl rc m. map_of (mx_vt mx decl) rc = Some m \<longrightarrow>
     (\<exists>dm. method_at (mx_classes mx) decl = Some dm \<and> dispatch n (mx_classes mx) decl dm rc = Some m))"

lemma inline_okD:
  "\<lbrakk>inline_ok n mx; map_of (mx_vt mx decl) rc = Some m\<rbrakk> \<Longrightarrow>
    \<exists>dm. method_at (mx_classes mx) decl = Some dm \<and> dispatch n (mx_classes mx) decl dm rc = Some m"
  unfolding inline_ok_def by blast

lemma set_classes_simps [simp]: "mx_classes (set_classes cs mx) = cs" "mx_vt (set_classes cs mx) = mx_vt mx"
  by (simp_all add: set_classes_def mx_classes_def)

lemma mx_classes_vt [simp]: "mx_classes (mx\<lparr>mx_vt := f\<rparr>) = mx_classes mx"
  by (simp add: mx_classes_def)

lemma map_of_take: "map_of (take n xs) k = Some v \<Longrightarrow> map_of xs k = Some v"
proof (induction xs arbitrary: n)
  case (Cons x xs)
  then show ?case by (cases n) (auto split: if_splits)
qed simp

text \<open>
  C36. The inline caches of virtual calls are transparent: for a receiver of any class,
  \<open>virtual_target\<close> picks the method that the search from that class finds without any cache, or the
  declared method when it finds none, on a hit of either entry as on a miss; it ends, keeps the
  caches correct and changes nothing of the classes but their method caches.
\<close>

theorem virtual_target_transparent:
  assumes "hierarchy (mx_classes mx) rank" and "bounded_alloc (x_alloc E)" and "caches_ok (mx_classes mx)"
    and "inline_ok (x_fuel E) mx" and "heap_ok (mx_heap mx)" and "heap_abs (mx_heap mx) self = Some x" and "o_cls x = Some rc"
    and "rc < length (mx_classes mx)" and "rank rc + 2 \<le> x_fuel E"
    and "method_at (mx_classes mx) decl = Some dm" and "m_name dm = Some name" and "rc \<noteq> m_cls dm"
  shows "\<exists>m mx'. virtual_target E self decl mx = Some (m, mx') \<and> dispatch (x_fuel E) (mx_classes mx) decl dm rc = Some m \<and>
    inline_ok (x_fuel E) mx' \<and> same_but_caches (mx_classes mx) (mx_classes mx') \<and> caches_ok (mx_classes mx')"
proof (cases "map_of (mx_vt mx decl) rc")
  case (Some m)
  then have "dispatch (x_fuel E) (mx_classes mx) decl dm rc = Some m"
    using assms(10) inline_okD [OF assms(4)] by fastforce
  with Some assms show ?thesis by (simp add: virtual_target_def dvm__obj_abs)
next
  case None
  let ?cs = "mx_classes mx"
  obtain q cs' where q: "dvm_find_method (x_fuel E) (x_alloc E) name (m_sig dm) ?cs rc = Some (q, cs')"
    "resolve_method (x_fuel E) name (m_sig dm) ?cs rc = Some q" "same_but_caches ?cs cs'" "caches_ok cs'"
    using find_method_cached [OF assms(1,2,8,9) same_refl assms(3)] by blast
  define m where "m = (case q of None \<Rightarrow> decl | Some m \<Rightarrow> m)"
  let ?vt = "(mx_vt mx)(decl := take 2 ((rc, m) # mx_vt mx decl))"
  let ?mx = "(set_classes cs' mx)\<lparr>mx_vt := ?vt\<rparr>"
  have run: "virtual_target E self decl mx = Some (m, ?mx)"
    using assms None q(1) by (simp add: virtual_target_def dvm__obj_abs m_def Let_def)
  have dis: "dispatch n cs' d k c = dispatch n ?cs d k c" for n d k c
    by (simp add: dispatch_def same_resolve [OF q(3)] split: option.split)
  have new: "dispatch (x_fuel E) ?cs decl dm rc = Some m" using assms(11) q(2) by (simp add: dispatch_def m_def)
  have "inline_ok (x_fuel E) ?mx"
    unfolding inline_ok_def
  proof (intro allI impI)
    fix d c v
    assume v: "map_of (mx_vt ?mx d) c = Some v"
    have "\<exists>k. method_at ?cs d = Some k \<and> dispatch (x_fuel E) ?cs d k c = Some v"
    proof (cases "d = decl")
      case True
      then have "map_of ((rc, m) # mx_vt mx decl) c = Some v" using v by (auto dest: map_of_take split: if_splits)
      with True new assms(10) show ?thesis by (auto split: if_splits dest: inline_okD [OF assms(4)])
    next
      case False
      with v show ?thesis by (auto dest: inline_okD [OF assms(4)])
    qed
    then show "\<exists>k. method_at (mx_classes ?mx) d = Some k \<and> dispatch (x_fuel E) (mx_classes ?mx) d k c = Some v"
      by (simp add: dis same_method_at [OF q(3)])
  qed
  with run new q(3,4) show ?thesis by auto
qed

theorem virtual_target_transparent_witness:
  "\<exists>mx'. virtual_target sample_xenv 1 (1, 0) (sample_machine sample_classes (plain_object 2 0)) = Some ((1, 0), mx') \<and>
     inline_ok 8 mx'"
proof -
  let ?mx = "sample_machine sample_classes (plain_object 2 0)"
  have "inline_ok 8 ?mx" by (simp add: inline_ok_def)
  moreover have "method_at sample_classes (1, 0) = Some sample_method" by code_simp
  ultimately obtain m mx' where m: "virtual_target sample_xenv 1 (1, 0) ?mx = Some (m, mx')"
    "dispatch 8 sample_classes (1, 0) sample_method 2 = Some m" "inline_ok 8 mx'"
    using virtual_target_transparent [of ?mx id sample_xenv 1 "plain_object 2 0" 2 "(1, 0)" sample_method "''run''"]
      one_heap_ok [OF plain_live, of 2 0] sample_classes_ok sample_alloc
    by (auto simp: sample_xenv_def plain_object_def sample_method_def sample_classes_def)
  have "dispatch 8 sample_classes (1, 0) sample_method 2 = Some (1, 0)" by code_simp
  with m show ?thesis by auto
qed

text \<open>
  An invocation of a method that the constant pool cannot name (its index is out of range, or its
  class or name cannot be read) on a live receiver looks the null name up in the receiver's
  class.
\<close>

lemma unnamed_method_faults:
  assumes "kind = 0x6e \<or> kind = 0x72" and "heap_ok (mx_heap mx)" and "heap_abs (mx_heap mx) self = Some x"
    and "o_cls x = Some rc" and "caller < length (mx_classes mx)" and "self \<noteq> 0"
  shows "select_target E kind caller self None None None sg mx = None"
  using assms by (auto simp: select_target_def dvm__obj_abs)

end
