(* ===== verification/Dvm_Init.thy ===== *)
theory Dvm_Init
  imports Dvm_Dispatch
begin

text \<open>
  Class initialisation (\<open>dvm_init_class\<close> in \<open>src/src/dvm/dvm.c\<close>): superclasses come first, a class is
  initialised at most once, failure is permanent and the thread that initialises a class may use
  it meanwhile.  The initialiser of a class runs Java code, which initialises further classes; what
  it may do to the states of the classes is the same contract that \<open>dvm_init_class\<close> is proved to
  keep.
\<close>

section \<open>States\<close>

definition init_state :: "machine \<Rightarrow> cref \<Rightarrow> nat" where
  "init_state mx c = c_init_state (mx_classes mx ! c)"

text \<open>An initialisation is started and finished, or was under way and still is.\<close>

definition evolves :: "dvm_class \<Rightarrow> dvm_class \<Rightarrow> bool" where
  "evolves k k' \<longleftrightarrow> c_super k' = c_super k \<and> c_dex k' = c_dex k \<and> c_static_values_off k' = c_static_values_off k \<and>
     c_sfields k' = c_sfields k \<and> c_methods k' = c_methods k \<and>
     (c_init_state k' = c_init_state k \<or> c_init_state k = 0 \<and> c_init_state k' \<in> {2, 3})"

definition keeps :: "machine \<Rightarrow> machine \<Rightarrow> bool" where
  "keeps mx mx' \<longleftrightarrow> length (mx_classes mx) \<le> length (mx_classes mx') \<and>
     (\<forall>c < length (mx_classes mx). evolves (mx_classes mx ! c) (mx_classes mx' ! c))"

text \<open>
  Only this thread is initialising classes, and no class is initialised before its superclass
  was tried.
\<close>

definition init_ok :: "u64 \<Rightarrow> machine \<Rightarrow> bool" where
  "init_ok me mx \<longleftrightarrow> (\<forall>c < length (mx_classes mx). init_state mx c \<le> 3 \<and> (init_state mx c = 1 \<longrightarrow> mx_init_owner mx c = me) \<and>
     (\<forall>s. c_super (mx_classes mx ! c) = Some s \<longrightarrow> s < length (mx_classes mx) \<and> s \<noteq> c \<and>
       (init_state mx c = 2 \<longrightarrow> init_state mx s \<noteq> 0)))"

text \<open>What Java code and the throwing of an exception promise.\<close>

definition init_env :: "u64 \<Rightarrow> xenv \<Rightarrow> bool" where
  "init_env me E \<longleftrightarrow> me \<noteq> 0 \<and> (\<forall>mx. x_me E mx = me) \<and>
     (\<forall>m self args mx. init_ok me mx \<longrightarrow> (\<exists>r mx'. x_invoke E m self args mx = Some (r, mx') \<and> init_ok me mx' \<and> keeps mx mx')) \<and>
     (\<forall>e mx. init_ok me mx \<longrightarrow> (\<exists>mx'. x_throw E e mx = Some mx' \<and> init_ok me mx' \<and> keeps mx mx'))"

text \<open>A chain of at most \<open>n\<close> superclasses without encoded static values.\<close>

primrec chained :: "nat \<Rightarrow> dvm_class list \<Rightarrow> cref \<Rightarrow> bool" where
  "chained 0 cs c \<longleftrightarrow> False"
| "chained (Suc n) cs c \<longleftrightarrow> c < length cs \<and>
     (c_dex (cs ! c) = None \<or> c_static_values_off (cs ! c) = 0 \<or> c_sfields (cs ! c) = []) \<and>
     (case c_super (cs ! c) of None \<Rightarrow> True | Some s \<Rightarrow> chained n cs s)"

lemma evolves_trans: "\<lbrakk>evolves a b; evolves b c\<rbrakk> \<Longrightarrow> evolves a c"
  by (auto simp: evolves_def)

lemma keeps_refl [simp]: "keeps mx mx"
  by (simp add: keeps_def evolves_def)

lemma keeps_trans: "\<lbrakk>keeps a b; keeps b c\<rbrakk> \<Longrightarrow> keeps a c"
  by (auto simp: keeps_def intro: evolves_trans)

lemma keeps_evolves: "\<lbrakk>keeps mx mx'; c < length (mx_classes mx)\<rbrakk> \<Longrightarrow>
    c < length (mx_classes mx') \<and> evolves (mx_classes mx ! c) (mx_classes mx' ! c)"
  by (auto simp: keeps_def)

lemma chained_keeps: "\<lbrakk>chained n (mx_classes mx) c; keeps mx mx'\<rbrakk> \<Longrightarrow> chained n (mx_classes mx') c"
  by (induction n arbitrary: c) (auto simp: evolves_def dest: keeps_evolves split: option.splits)

lemma chained_less: "chained n cs c \<Longrightarrow> c < length cs"
  by (cases n) auto

section \<open>The steps of an initialisation\<close>

definition put_state :: "cref \<Rightarrow> nat \<Rightarrow> u64 \<Rightarrow> machine \<Rightarrow> machine" where
  "put_state c st ow mx = (set_classes ((mx_classes mx)[c := (mx_classes mx ! c)\<lparr>c_init_state := st\<rparr>]) mx)
     \<lparr>mx_init_owner := (mx_init_owner mx)(c := ow)\<rparr>"

lemma put_state_simps [simp]:
  "mx_classes (put_state c st ow mx) = (mx_classes mx)[c := (mx_classes mx ! c)\<lparr>c_init_state := st\<rparr>]"
  "mx_init_owner (put_state c st ow mx) = (mx_init_owner mx)(c := ow)"
  by (simp_all add: put_state_def set_classes_def mx_classes_def)

lemma init_state_put: "c < length (mx_classes mx) \<Longrightarrow> init_state (put_state c st ow mx) d = (if d = c then st else init_state mx d)"
  by (simp add: init_state_def nth_list_update)

lemma upd_state:
  assumes "c < length (mx_classes mx)"
  shows "\<exists>mx'. upd_mx_class c (\<lambda>k. k\<lparr>c_init_state := st\<rparr>) mx = Some mx' \<and>
    mx'\<lparr>mx_init_owner := (mx_init_owner mx')(c := ow)\<rparr> = put_state c st ow mx"
  using assms by (simp add: upd_mx_class_def put_state_def) (simp add: set_classes_def)

lemma init_done_eq: "c < length (mx_classes mx) \<Longrightarrow> init_done c good mx = Some (good, put_state c (if good then 2 else 3) 0 mx)"
  using upd_state [of c mx "if good then 2 else 3" 0] by (auto simp: init_done_def)

lemma init_ok_super: "\<lbrakk>init_ok me mx; c < length (mx_classes mx); c_super (mx_classes mx ! c) = Some s\<rbrakk> \<Longrightarrow>
    s < length (mx_classes mx) \<and> s \<noteq> c"
  unfolding init_ok_def by blast

lemma init_ok_owner: "\<lbrakk>init_ok me mx; c < length (mx_classes mx); init_state mx c = 1\<rbrakk> \<Longrightarrow> mx_init_owner mx c = me"
  unfolding init_ok_def by blast

lemma init_ok_range: "\<lbrakk>init_ok me mx; c < length (mx_classes mx)\<rbrakk> \<Longrightarrow> init_state mx c \<le> 3"
  unfolding init_ok_def by blast

lemma init_ok_tried: "\<lbrakk>init_ok me mx; c < length (mx_classes mx); c_super (mx_classes mx ! c) = Some s; init_state mx c = 2\<rbrakk> \<Longrightarrow>
    init_state mx s \<noteq> 0"
  unfolding init_ok_def by blast

lemma init_ok_put:
  assumes ok: "init_ok me mx" and c: "c < length (mx_classes mx)" and st: "st \<noteq> 0" "st \<le> 3" "st = 1 \<Longrightarrow> ow = me"
    and up: "\<And>s. \<lbrakk>st = 2; c_super (mx_classes mx ! c) = Some s\<rbrakk> \<Longrightarrow> init_state mx s \<noteq> 0"
  shows "init_ok me (put_state c st ow mx)"
proof -
  let ?mx = "put_state c st ow mx"
  have "init_state ?mx d \<le> 3 \<and> (init_state ?mx d = 1 \<longrightarrow> mx_init_owner ?mx d = me)" if "d < length (mx_classes mx)" for d
    using init_ok_owner [OF ok that] init_ok_range [OF ok that] st by (simp add: init_state_put [OF c])
  moreover have "s < length (mx_classes mx) \<and> s \<noteq> d \<and> (init_state ?mx d = 2 \<longrightarrow> init_state ?mx s \<noteq> 0)"
    if d: "d < length (mx_classes mx)" "c_super (mx_classes ?mx ! d) = Some s" for d s
  proof -
    have s: "c_super (mx_classes mx ! d) = Some s" using d c by (simp add: nth_list_update split: if_splits)
    have "init_state ?mx s \<noteq> 0" if "init_state ?mx d = 2"
    proof (cases "d = c")
      case True
      then have "init_state mx s \<noteq> 0" using that s up by (simp add: init_state_put [OF c])
      then show ?thesis using st(1) by (simp add: init_state_put [OF c])
    next
      case False
      then have "init_state mx s \<noteq> 0" using that init_ok_tried [OF ok d(1) s] by (simp add: init_state_put [OF c])
      then show ?thesis using st(1) by (simp add: init_state_put [OF c])
    qed
    then show ?thesis using init_ok_super [OF ok d(1) s] by blast
  qed
  moreover have "length (mx_classes ?mx) = length (mx_classes mx)" by simp
  ultimately show ?thesis unfolding init_ok_def by (metis (no_types))
qed

lemma chained_put [simp]: "chained n (cs[c := (cs ! c)\<lparr>c_init_state := st\<rparr>]) s = chained n cs s"
proof (induction n arbitrary: s)
  case (Suc n)
  have "cs[c := (cs ! c)\<lparr>c_init_state := st\<rparr>] ! s = (if c = s \<and> c < length cs then (cs ! c)\<lparr>c_init_state := st\<rparr> else cs ! s)"
    by (cases "c < length cs") (auto simp: nth_list_update list_update_beyond)
  with Suc show ?case by (auto split: option.split)
qed simp

lemma keeps_put:
  assumes "keeps (put_state c 1 me mx) mx'" and "c < length (mx_classes mx)" and "init_state mx c = 0" and "st \<in> {2, 3}"
  shows "keeps mx (put_state c st ow mx')" and "init_state mx' c = 1"
proof -
  have e: "d < length (mx_classes mx') \<and> evolves (mx_classes (put_state c 1 me mx) ! d) (mx_classes mx' ! d)"
    if "d < length (mx_classes mx)" for d
    using keeps_evolves [OF assms(1)] that by simp
  show "keeps mx (put_state c st ow mx')"
  proof -
    have len: "length (mx_classes mx) \<le> length (mx_classes mx')" using assms(1) by (simp add: keeps_def)
    have "evolves (mx_classes mx ! d) (mx_classes (put_state c st ow mx') ! d)" if "d < length (mx_classes mx)" for d
    proof (cases "d = c")
      case True
      then show ?thesis using e [OF that] len assms(2,3,4) by (auto simp: nth_list_update evolves_def init_state_def)
    next
      case False
      then show ?thesis using e [OF that] by simp
    qed
    with len show ?thesis by (simp add: keeps_def)
  qed
  show "init_state mx' c = 1"
    using e [OF assms(2)] assms(2) by (auto simp: init_state_def evolves_def)
qed

lemma run_clinit_total:
  assumes "init_env me E" and "init_ok me mx" and "c < length (mx_classes mx)"
  shows "\<exists>good mx'. run_clinit E c mx = Some (good, mx') \<and> init_ok me mx' \<and> keeps mx mx'"
proof -
  obtain m where m: "class_own_method (mx_classes mx) c ''<clinit>'' (Some ''()V'') = Some m"
    using own_total [OF assms(3)] by blast
  show ?thesis
  proof (cases m)
    case None
    with m assms(2) show ?thesis by (auto simp: run_clinit_def)
  next
    case (Some r)
    then obtain b where "concrete (mx_classes mx) r = Some b"
      using m own_finds [of "mx_classes mx" c "''<clinit>''" "Some ''()V''" r] by (auto simp: concrete_def finds_def)
    moreover obtain good v mx' where "x_invoke E r 0 [] mx = Some ((good, v), mx')" "init_ok me mx'" "keeps mx mx'"
      using assms(1,2) unfolding init_env_def by (metis surj_pair)
    ultimately show ?thesis using m Some assms(2) by (cases b) (auto simp: run_clinit_def)
  qed
qed

lemma init_statics_none:
  assumes "c < length (mx_classes mx)"
    and "c_dex (mx_classes mx ! c) = None \<or> c_static_values_off (mx_classes mx ! c) = 0 \<or> c_sfields (mx_classes mx ! c) = []"
  shows "init_statics E c mx = Some mx"
  using assms by (auto simp: init_statics_def Let_def split: option.split)

section \<open>Initialisation\<close>

text \<open>What an initialisation of the class \<open>c\<close> from the machine \<open>mx\<close> has to end with.\<close>

definition initialised :: "u64 \<Rightarrow> cref \<Rightarrow> machine \<Rightarrow> bool \<Rightarrow> machine \<Rightarrow> bool" where
  "initialised me c mx good mx' \<longleftrightarrow> init_ok me mx' \<and> keeps mx mx' \<and>
     init_state mx' c = (if init_state mx c = 0 then if good then 2 else 3 else init_state mx c) \<and>
     (init_state mx c \<noteq> 0 \<longrightarrow> good = (init_state mx c \<noteq> 3))"

lemma init_enter:
  assumes "init_env me E" and "init_ok me mx" and "c < length (mx_classes mx)" and "init_state mx c = 0"
  shows "dvm_init_class (Suc n) E (Some c) mx = do {
     (good, mx) \<leftarrow> (if c_super (mx_classes mx ! c) = None then Some (True, put_state c 1 me mx)
       else dvm_init_class n E (c_super (mx_classes mx ! c)) (put_state c 1 me mx));
     if \<not> good then init_done c False mx
     else do { mx \<leftarrow> init_statics E c mx; (good, mx) \<leftarrow> run_clinit E c mx; init_done c good mx } }"
proof -
  obtain mx' where "upd_mx_class c (\<lambda>k. k\<lparr>c_init_state := 1\<rparr>) mx = Some mx'"
      "mx'\<lparr>mx_init_owner := (mx_init_owner mx')(c := me)\<rparr> = put_state c 1 me mx"
    using upd_state [OF assms(3), of 1 me] by blast
  then show ?thesis using assms by (simp add: init_state_def init_env_def Let_def)
qed

lemma init_super:
  assumes ok: "init_ok me mx" and c: "chained (Suc n) (mx_classes mx) c"
    and up: "\<And>s mx. \<lbrakk>init_ok me mx; chained n (mx_classes mx) s\<rbrakk> \<Longrightarrow>
      \<exists>good mx'. dvm_init_class n E (Some s) mx = Some (good, mx') \<and> initialised me s mx good mx'"
    and ok1: "init_ok me (put_state c 1 me mx)"
  shows "\<exists>good mx2. (if c_super (mx_classes mx ! c) = None then Some (True, put_state c 1 me mx)
      else dvm_init_class n E (c_super (mx_classes mx ! c)) (put_state c 1 me mx)) = Some (good, mx2) \<and>
    init_ok me mx2 \<and> keeps (put_state c 1 me mx) mx2 \<and>
    (good \<longrightarrow> (\<forall>s. c_super (mx_classes mx ! c) = Some s \<longrightarrow> init_state mx2 s \<noteq> 0))"
proof (cases "c_super (mx_classes mx ! c)")
  case None
  with ok1 show ?thesis by auto
next
  case (Some s)
  with c have "chained n (mx_classes (put_state c 1 me mx)) s" by simp
  then obtain good mx' where r: "dvm_init_class n E (Some s) (put_state c 1 me mx) = Some (good, mx')"
      "initialised me s (put_state c 1 me mx) good mx'"
    using up [OF ok1] by blast
  then have "good \<longrightarrow> init_state mx' s \<noteq> 0" by (auto simp: initialised_def split: if_splits)
  with r Some show ?thesis by (auto simp: initialised_def)
qed

lemma init_body:
  assumes E: "init_env me E" and ok: "init_ok me mx" and c: "chained (Suc n) (mx_classes mx) c" and z: "init_state mx c = 0"
    and up: "\<And>s mx. \<lbrakk>init_ok me mx; chained n (mx_classes mx) s\<rbrakk> \<Longrightarrow>
      \<exists>good mx'. dvm_init_class n E (Some s) mx = Some (good, mx') \<and> initialised me s mx good mx'"
  shows "\<exists>good mx'. dvm_init_class (Suc n) E (Some c) mx = Some (good, mx') \<and> initialised me c mx good mx'"
proof -
  have cl: "c < length (mx_classes mx)" using chained_less [OF c] .
  let ?k = "mx_classes mx ! c" and ?mx = "put_state c 1 me mx"
  have ok1: "init_ok me ?mx" using init_ok_put [OF ok cl] by simp
  obtain good mx2 where m2: "(if c_super ?k = None then Some (True, ?mx) else dvm_init_class n E (c_super ?k) ?mx) = Some (good, mx2)"
      "init_ok me mx2" "keeps ?mx mx2" and sup: "\<And>s. \<lbrakk>good; c_super ?k = Some s\<rbrakk> \<Longrightarrow> init_state mx2 s \<noteq> 0"
    using init_super [OF ok c up ok1] by metis
  have run: "dvm_init_class (Suc n) E (Some c) mx =
      (if good then do { mx \<leftarrow> init_statics E c mx2; (good, mx) \<leftarrow> run_clinit E c mx; init_done c good mx } else init_done c False mx2)"
    using init_enter [OF E ok cl z, of n] m2(1) by simp
  have c2: "c < length (mx_classes mx2)" "evolves (mx_classes ?mx ! c) (mx_classes mx2 ! c)" "init_state mx2 c = 1"
    using keeps_evolves [OF m2(3), of c] keeps_put(2) [OF m2(3) cl z, of 2] cl by auto
  show ?thesis
  proof (cases good)
    case False
    have "init_ok me (put_state c 3 0 mx2)" using init_ok_put [OF m2(2) c2(1)] by simp
    with keeps_put(1) [OF m2(3) cl z, of 3 0] have "initialised me c mx False (put_state c 3 0 mx2)"
      by (simp add: initialised_def init_state_put [OF c2(1)] z)
    with False run show ?thesis using init_done_eq [OF c2(1), of False] by auto
  next
    case True
    have "init_statics E c mx2 = Some mx2"
      using c c2(1,2) cl by (intro init_statics_none) (auto simp: evolves_def)
    moreover obtain g mx3 where m3: "run_clinit E c mx2 = Some (g, mx3)" "init_ok me mx3" "keeps mx2 mx3"
      using run_clinit_total [OF E m2(2) c2(1)] by blast
    ultimately have "dvm_init_class (Suc n) E (Some c) mx = init_done c g mx3" using True run by simp
    moreover have k3: "keeps ?mx mx3" using keeps_trans [OF m2(3) m3(3)] .
    moreover have c3: "c < length (mx_classes mx3)" using keeps_evolves [OF m3(3) c2(1)] by simp
    moreover have "init_ok me (put_state c (if g then 2 else 3) 0 mx3)"
    proof (rule init_ok_put [OF m3(2) c3])
      fix s
      assume "c_super (mx_classes mx3 ! c) = Some s"
      then have s: "c_super ?k = Some s" using keeps_evolves [OF k3, of c] cl by (auto simp: evolves_def)
      then have "s < length (mx_classes mx2)" using init_ok_super [OF ok cl] m2(3) by (auto simp: keeps_def)
      then show "init_state mx3 s \<noteq> 0"
        using keeps_evolves [OF m3(3), of s] sup [OF True s] by (auto simp: evolves_def init_state_def)
    qed (auto split: if_splits)
    moreover from this have "initialised me c mx g (put_state c (if g then 2 else 3) 0 mx3)"
      using keeps_put(1) [OF k3 cl z, of "if g then 2 else 3" 0] by (simp add: initialised_def init_state_put [OF c3] z)
    ultimately show ?thesis using init_done_eq [OF c3, of g] by auto
  qed
qed

lemma init_known:
  assumes "init_env me E" and "init_ok me mx" and "c < length (mx_classes mx)" and "init_state mx c \<noteq> 0"
  shows "\<exists>good mx'. dvm_init_class (Suc n) E (Some c) mx = Some (good, mx') \<and> initialised me c mx good mx'"
proof -
  obtain e where e: "x_throw E ''java/lang/NoClassDefFoundError'' mx = Some e" "init_ok me e" "keeps mx e"
    using assms(1,2) unfolding init_env_def by blast
  have me: "x_me E mx = me" "me \<noteq> 0" using assms(1) by (auto simp: init_env_def)
  have k: "c_at (mx_classes mx) c = Some (mx_classes mx ! c)" using assms(3) by simp
  have same: "init_state e c = init_state mx c" using keeps_evolves [OF e(3) assms(3)] assms(4) by (auto simp: evolves_def init_state_def)
  have w: "init_wait (Suc n) E me c mx = Some (True, mx)"
    using k init_ok_owner [OF assms(2,3)] by (auto simp: init_state_def)
  consider "init_state mx c = 1" | "init_state mx c = 2" | "init_state mx c = 3"
    using init_ok_range [OF assms(2,3)] assms(4) by linarith
  then show ?thesis
  proof cases
    case 1
    then have "dvm_init_class (Suc n) E (Some c) mx = Some (True, mx)"
      using k w me by (simp add: init_state_def Let_def del: init_wait.simps)
    moreover have "initialised me c mx True mx" using 1 assms(2) by (simp add: initialised_def)
    ultimately show ?thesis by blast
  next
    case 2
    then have "dvm_init_class (Suc n) E (Some c) mx = Some (True, mx)" using k by (simp add: init_state_def)
    moreover have "initialised me c mx True mx" using 2 assms(2) by (simp add: initialised_def)
    ultimately show ?thesis by blast
  next
    case 3
    then have "dvm_init_class (Suc n) E (Some c) mx = Some (False, e)" using k e(1) by (simp add: init_state_def Let_def)
    moreover have "initialised me c mx False e" using 3 e(2,3) same by (simp add: initialised_def)
    ultimately show ?thesis by blast
  qed
qed

lemma init_total:
  assumes "init_env me E"
  shows "\<lbrakk>init_ok me mx; chained n (mx_classes mx) c\<rbrakk> \<Longrightarrow>
    \<exists>good mx'. dvm_init_class n E (Some c) mx = Some (good, mx') \<and> initialised me c mx good mx'"
proof (induction n arbitrary: mx c)
  case (Suc n)
  show ?case
  proof (cases "init_state mx c = 0")
    case True
    show ?thesis by (rule init_body [OF assms Suc.prems True Suc.IH])
  next
    case False
    show ?thesis by (rule init_known [OF assms Suc.prems(1) chained_less [OF Suc.prems(2)] False])
  qed
qed simp



end
