(* ===== verification/Calendar.thy ===== *)
theory Calendar
  imports Lunaria_Prelude "HOL-Library.Signed_Division"
begin

text \<open>
  Calendar arithmetic (\<open>src/src/dvm/calendar.c\<close>): day numbers of the Julian and the Gregorian
  calendar, the fields of an instant, and the instant of a set of fields, of which the most
  recently set ones decide.  \<open>int64_t\<close> values are integers; an expression lists its
  intermediate values, and \<open>None\<close> is one that leaves the range.  The arrays of a calendar are
  functions of the field number, which is a constant of the source or has passed \<open>field_ok\<close>.
  The adapters of the host (zone offsets and the resolution of wall times) are arguments.
\<close>

definition i64 :: "int \<Rightarrow> bool" where "i64 x \<longleftrightarrow> - (2 ^ 63) \<le> x \<and> x < 2 ^ 63"

definition i32 :: "int \<Rightarrow> bool" where "i32 x \<longleftrightarrow> - (2 ^ 31) \<le> x \<and> x < 2 ^ 31"

definition checked :: "int list \<Rightarrow> 'a \<Rightarrow> 'a option" where
  "checked xs r = (if list_all i64 xs then Some r else None)"

definition to_i32 :: "int \<Rightarrow> int" where "to_i32 x = (x + 2 ^ 31) mod 2 ^ 32 - 2 ^ 31"

definition to_unsigned :: "int \<Rightarrow> int" where "to_unsigned x = x mod 2 ^ 32"

abbreviation LC_ERA :: nat where "LC_ERA \<equiv> 0"
abbreviation LC_YEAR :: nat where "LC_YEAR \<equiv> 1"
abbreviation LC_MONTH :: nat where "LC_MONTH \<equiv> 2"
abbreviation LC_WEEK_OF_YEAR :: nat where "LC_WEEK_OF_YEAR \<equiv> 3"
abbreviation LC_WEEK_OF_MONTH :: nat where "LC_WEEK_OF_MONTH \<equiv> 4"
abbreviation LC_DATE :: nat where "LC_DATE \<equiv> 5"
abbreviation LC_DAY_OF_YEAR :: nat where "LC_DAY_OF_YEAR \<equiv> 6"
abbreviation LC_DAY_OF_WEEK :: nat where "LC_DAY_OF_WEEK \<equiv> 7"
abbreviation LC_DAY_OF_WEEK_IN_MONTH :: nat where "LC_DAY_OF_WEEK_IN_MONTH \<equiv> 8"
abbreviation LC_AM_PM :: nat where "LC_AM_PM \<equiv> 9"
abbreviation LC_HOUR :: nat where "LC_HOUR \<equiv> 10"
abbreviation LC_HOUR_OF_DAY :: nat where "LC_HOUR_OF_DAY \<equiv> 11"
abbreviation LC_MINUTE :: nat where "LC_MINUTE \<equiv> 12"
abbreviation LC_SECOND :: nat where "LC_SECOND \<equiv> 13"
abbreviation LC_MILLISECOND :: nat where "LC_MILLISECOND \<equiv> 14"
abbreviation LC_ZONE_OFFSET :: nat where "LC_ZONE_OFFSET \<equiv> 15"
abbreviation LC_DST_OFFSET :: nat where "LC_DST_OFFSET \<equiv> 16"
abbreviation LC_YEAR_WOY :: nat where "LC_YEAR_WOY \<equiv> 17"
abbreviation LC_DOW_LOCAL :: nat where "LC_DOW_LOCAL \<equiv> 18"
abbreviation LC_EXTENDED_YEAR :: nat where "LC_EXTENDED_YEAR \<equiv> 19"
abbreviation LC_JULIAN_DAY :: nat where "LC_JULIAN_DAY \<equiv> 20"
abbreviation LC_MILLISECONDS_IN_DAY :: nat where "LC_MILLISECONDS_IN_DAY \<equiv> 21"
abbreviation LC_IS_LEAP_MONTH :: nat where "LC_IS_LEAP_MONTH \<equiv> 22"
abbreviation LC_COUNT :: nat where "LC_COUNT \<equiv> 23"

datatype lc_status = LC_OK | LC_FIELD_ERROR | LC_RANGE_ERROR | LC_ZONE_ERROR | LC_UNSUPPORTED

abbreviation LC_DAY :: int where "LC_DAY \<equiv> 86400000"
abbreviation LC_EPOCH_JD :: int where "LC_EPOCH_JD \<equiv> 2440588"
abbreviation LC_MIN_MS :: int where "LC_MIN_MS \<equiv> - 184303902528000000"
abbreviation LC_MAX_MS :: int where "LC_MAX_MS \<equiv> (0x7f000000 - LC_EPOCH_JD) * LC_DAY"

text \<open>\<open>z_offset\<close> gives the raw and the daylight offset of an instant; \<open>z_resolve\<close> the instant of a wall time.\<close>

record lc_zone =
  z_offset :: "(int \<Rightarrow> (int \<times> int) option) option"
  z_resolve :: "(int \<Rightarrow> int \<Rightarrow> int \<Rightarrow> bool \<Rightarrow> int option) option"

record lc_calendar =
  cal_fields :: "nat \<Rightarrow> int"
  cal_stamps :: "nat \<Rightarrow> u32"
  next_stamp :: u32
  millis :: int
  cutover :: int
  first_day :: int
  min_days :: int
  repeated :: int
  skipped :: int
  icu :: bool
  buddhist :: bool
  lenient :: bool
  time_valid :: bool
  fields_valid :: bool
  virtual_fields :: bool

section \<open>Days\<close>

definition lc_floor :: "int \<Rightarrow> int \<Rightarrow> int" where
  "lc_floor n d = n sdiv d - (if n smod d < 0 then 1 else 0)"

definition lc_mod :: "int \<Rightarrow> int \<Rightarrow> int option" where
  "lc_mod n d = (if d = 0 \<or> n = - (2 ^ 63) \<and> d = - 1 then None
     else checked [lc_floor n d * d, n - lc_floor n d * d] (n - lc_floor n d * d))"

definition lc_civil_day :: "int \<Rightarrow> int \<Rightarrow> int \<Rightarrow> bool \<Rightarrow> int option" where
  "lc_civil_day year month day gregorian = (
     let a = (14 - month) sdiv 12; y = year + 4800 - a; m = month + 12 * a - 3;
         jd = day + (153 * m + 2) sdiv 5 + 365 * y + lc_floor y 4;
         g = jd - lc_floor y 100 + lc_floor y 400 in
     checked [year + 4800, y, 365 * y, day + (153 * m + 2) sdiv 5 + 365 * y, jd]
       (if gregorian then g - 32045 else jd - 32083)
     \<bind> (\<lambda>r. checked (if gregorian then [jd - lc_floor y 100, g, r] else [r]) r))"

definition lc_day_civil :: "int \<Rightarrow> bool \<Rightarrow> (int \<times> int \<times> int) option" where
  "lc_day_civil jd gregorian = (
     let a = jd + 32044; b = (if gregorian then lc_floor (4 * a + 3) 146097 else 0);
         c = (if gregorian then a - lc_floor (146097 * b) 4 else jd + 32082);
         d = lc_floor (4 * c + 3) 1461; e = c - lc_floor (1461 * d) 4; m = (5 * e + 2) sdiv 153 in
     checked [jd + 32082, if gregorian then 4 * a else 0, if gregorian then 4 * a + 3 else 0, 146097 * b, c,
         4 * c, 4 * c + 3, 1461 * d, e, 5 * e + 2, 100 * b, 100 * b + d, 100 * b + d - 4800 + m sdiv 10]
       (100 * b + d - 4800 + m sdiv 10, to_unsigned (m + 3 - 12 * (m sdiv 10)),
        to_unsigned (e - (153 * m + 2) sdiv 5 + 1)))"

definition field_ok :: "lc_calendar \<Rightarrow> int \<Rightarrow> bool" where
  "field_ok c field \<longleftrightarrow> 0 \<le> field \<and> field < (if icu c then int LC_COUNT else 17)"

definition civil :: "lc_calendar \<Rightarrow> int \<Rightarrow> int \<Rightarrow> int \<Rightarrow> int option" where
  "civil c year month day = do {
     let year = year + lc_floor month 12;
     month \<leftarrow> lc_mod month 12;
     g \<leftarrow> lc_civil_day year (to_unsigned month + 1) 1 True;
     g \<leftarrow> checked [year, g + day, g + day - 1] (g + day - 1);
     if cutover c \<le> g then Some g
     else do {
       j \<leftarrow> lc_civil_day year (to_unsigned month + 1) 1 False;
       checked [j + day, j + day - 1] (j + day - 1) } }"

definition month_days :: "int list" where
  "month_days = [31, 28, 31, 30, 31, 30, 31, 31, 30, 31, 30, 31]"

definition month_length :: "lc_calendar \<Rightarrow> int \<Rightarrow> int \<Rightarrow> int option" where
  "month_length c year month = do {
     let year = year + lc_floor month 12;
     month \<leftarrow> lc_mod month 12;
     g \<leftarrow> lc_civil_day year (to_unsigned month + 1) 1 True;
     let gregorian = (cutover c \<le> g);
     r4 \<leftarrow> lc_mod year 4;
     r100 \<leftarrow> lc_mod year 100;
     r400 \<leftarrow> lc_mod year 400;
     let leap = (r4 = 0 \<and> (\<not> gregorian \<or> r100 \<noteq> 0 \<or> r400 = 0));
     d \<leftarrow> c_at month_days (nat month);
     checked [year] (d + (if month = 1 \<and> leap then 1 else 0)) }"

definition dow :: "int \<Rightarrow> int option" where
  "dow day = do { r \<leftarrow> lc_mod (day + 1) 7; checked [day + 1] (to_unsigned r + 1) }"

definition week_start :: "lc_calendar \<Rightarrow> int \<Rightarrow> int option" where
  "week_start c start = do {
     w \<leftarrow> dow start;
     bef \<leftarrow> lc_mod (w - first_day c) 7;
     let bef = to_unsigned bef;
     checked [start - bef, start - bef + (if to_unsigned (7 - bef) < min_days c then 7 else 0)]
       (start - bef + (if to_unsigned (7 - bef) < min_days c then 7 else 0)) }"

definition lc_init :: "bool \<Rightarrow> bool \<Rightarrow> int \<Rightarrow> int \<Rightarrow> lc_calendar" where
  "lc_init icu' buddhist' first minimal = \<lparr>cal_fields = (\<lambda>_. 0), cal_stamps = (\<lambda>_. 0), next_stamp = 2, millis = 0,
     cutover = 2299161, first_day = first, min_days = minimal, repeated = 0, skipped = 0, icu = icu',
     buddhist = buddhist', lenient = True, time_valid = False, fields_valid = False, virtual_fields = False\<rparr>"

definition lc_set_millis :: "lc_calendar \<Rightarrow> int \<Rightarrow> lc_status \<times> lc_calendar" where
  "lc_set_millis c ms =
     (let out = (icu c \<and> (ms < LC_MIN_MS \<or> LC_MAX_MS < ms)) in
      if out \<and> \<not> lenient c then (LC_RANGE_ERROR, c)
      else let ms = (if out then if ms < LC_MIN_MS then LC_MIN_MS else LC_MAX_MS else ms) in
        (LC_OK, c\<lparr>millis := ms, time_valid := True, fields_valid := False, virtual_fields := True,
           next_stamp := 2, cal_fields := (\<lambda>_. 0), cal_stamps := (\<lambda>_. 0)\<rparr>))"


section \<open>Fields of an instant\<close>

definition offsets :: "lc_zone option \<Rightarrow> int \<Rightarrow> (int \<times> int) option" where
  "offsets zone ms = (case zone of None \<Rightarrow> Some (0, 0)
     | Some z \<Rightarrow> (case z_offset z of None \<Rightarrow> Some (0, 0) | Some f \<Rightarrow> f ms))"

text \<open>The values that \<open>compute_fields\<close> stores, from the intermediate results it has computed.\<close>

definition field_values :: "lc_calendar \<Rightarrow> int \<Rightarrow> int \<Rightarrow> int \<Rightarrow> int \<Rightarrow> int \<times> int \<times> int \<Rightarrow> int \<Rightarrow> int \<times> int \<Rightarrow> int \<Rightarrow> int \<Rightarrow>
    int \<Rightarrow> nat \<Rightarrow> int" where
  "field_values c day wall raw dst = (\<lambda>(year, month, date) jan (week_year, start) month_start w local.
     let hour = to_i32 (wall sdiv 3600000) in
     (\<lambda>_. 0)(
       LC_ERA := (if buddhist c then 0 else if 1 \<le> year then 1 else 0),
       LC_YEAR := to_i32 (if buddhist c then year + 543 else if 1 \<le> year then year else 1 - year),
       LC_MONTH := to_i32 month - 1,
       LC_DATE := to_i32 date,
       LC_EXTENDED_YEAR := to_i32 year,
       LC_DAY_OF_YEAR := to_i32 (day - jan + 1),
       LC_DAY_OF_WEEK := to_i32 w,
       LC_WEEK_OF_YEAR := to_i32 ((day - start) sdiv 7 + 1),
       LC_YEAR_WOY := to_i32 week_year,
       LC_WEEK_OF_MONTH := to_i32 (lc_floor (day - month_start) 7 + 1),
       LC_DAY_OF_WEEK_IN_MONTH := (to_i32 date - 1) sdiv 7 + 1,
       LC_DOW_LOCAL := to_i32 local + 1,
       LC_MILLISECONDS_IN_DAY := to_i32 wall,
       LC_HOUR_OF_DAY := hour,
       LC_HOUR := hour smod 12,
       LC_AM_PM := hour sdiv 12,
       LC_MINUTE := to_i32 (wall sdiv 60000 smod 60),
       LC_SECOND := to_i32 (wall sdiv 1000 smod 60),
       LC_MILLISECOND := to_i32 (wall smod 1000),
       LC_ZONE_OFFSET := raw,
       LC_DST_OFFSET := dst,
       LC_JULIAN_DAY := to_i32 day,
       LC_IS_LEAP_MONTH := 0))"

definition compute_fields :: "lc_zone option \<Rightarrow> lc_calendar \<Rightarrow> (lc_status \<times> lc_calendar) option" where
  "compute_fields zone c = (case offsets zone (millis c) of None \<Rightarrow> Some (LC_ZONE_ERROR, c)
     | Some (raw, dst) \<Rightarrow> do {
         tod \<leftarrow> lc_mod (millis c) LC_DAY;
         let wall = tod + raw + dst;
         let day = lc_floor (millis c) LC_DAY + lc_floor wall LC_DAY + LC_EPOCH_JD;
         wall \<leftarrow> lc_mod wall LC_DAY;
         (year, month, date) \<leftarrow> lc_day_civil day (cutover c \<le> day);
         jan \<leftarrow> civil c year 0 1;
         next' \<leftarrow> civil c (year + 1) 0 1;
         start \<leftarrow> week_start c jan;
         (week_year, start) \<leftarrow>
           (if day < start then do {
              j \<leftarrow> civil c (year - 1) 0 1;
              s \<leftarrow> week_start c j;
              Some (year - 1, s) }
            else do {
              s \<leftarrow> week_start c next';
              Some (if s \<le> day then (year + 1, s) else (year, start)) });
         w \<leftarrow> dow day;
         first \<leftarrow> civil c year (to_unsigned (month - 1)) 1;
         month_start \<leftarrow> week_start c first;
         local \<leftarrow> lc_mod (w - first_day c) 7;
         checked [tod + raw, tod + raw + dst, day - LC_EPOCH_JD, day, year + 1, year - 1, year + 543, 1 - year,
             day - jan + 1, day - start, day - month_start]
           (LC_OK, c\<lparr>cal_fields := field_values c day wall raw dst (year, month, date) jan (week_year, start) month_start w local,
              cal_stamps := (\<lambda>_. 1), fields_valid := True, virtual_fields := False\<rparr>) })"

section \<open>The instant of a set of fields\<close>

definition lc_value :: "lc_calendar \<Rightarrow> nat \<Rightarrow> int \<Rightarrow> int" where
  "lc_value c field fallback = (if cal_stamps c field \<noteq> 0 then cal_fields c field else fallback)"

definition newer :: "u32 \<Rightarrow> u32 \<Rightarrow> u32" where "newer a b = (if b < a then a else b)"

text \<open>The rows of \<open>resolve_date\<close>: the field that is chosen, the field whose stamp ranks the row, and the one that goes with it.\<close>

definition date_rows :: "(nat \<times> nat \<times> nat option) list" where
  "date_rows = [(LC_DATE, LC_DATE, None), (LC_WEEK_OF_YEAR, LC_WEEK_OF_YEAR, Some LC_DAY_OF_WEEK),
     (LC_WEEK_OF_MONTH, LC_WEEK_OF_MONTH, Some LC_DAY_OF_WEEK),
     (LC_DAY_OF_WEEK_IN_MONTH, LC_DAY_OF_WEEK_IN_MONTH, Some LC_DAY_OF_WEEK),
     (LC_WEEK_OF_YEAR, LC_WEEK_OF_YEAR, Some LC_DOW_LOCAL), (LC_WEEK_OF_MONTH, LC_WEEK_OF_MONTH, Some LC_DOW_LOCAL),
     (LC_DAY_OF_WEEK_IN_MONTH, LC_DAY_OF_WEEK_IN_MONTH, Some LC_DOW_LOCAL), (LC_DAY_OF_YEAR, LC_DAY_OF_YEAR, None),
     (LC_DATE, LC_YEAR, Some LC_YEAR), (LC_WEEK_OF_YEAR, LC_YEAR_WOY, Some LC_YEAR_WOY)]"

fun best_row :: "(nat \<Rightarrow> u32) \<Rightarrow> (nat \<times> nat \<times> nat option) list \<Rightarrow> u32 \<times> nat \<Rightarrow> u32 \<times> nat" where
  "best_row s [] (best, result) = (best, result)"
| "best_row s ((a, k, b) # rows) (best, result) =
     (let rank = s k in
      if rank = 0 \<or> (\<exists>j \<in> set_option b. s j = 0) then best_row s rows (best, result)
      else let rank = (case b of None \<Rightarrow> rank | Some j \<Rightarrow> newer rank (s j)) in
        best_row s rows (if best < rank then (rank, a) else (best, result)))"

definition fallback_rows :: "(nat \<times> nat) list" where
  "fallback_rows = [(LC_WEEK_OF_YEAR, LC_WEEK_OF_YEAR), (LC_WEEK_OF_MONTH, LC_WEEK_OF_MONTH),
     (LC_DAY_OF_WEEK_IN_MONTH, LC_DAY_OF_WEEK_IN_MONTH), (LC_DAY_OF_WEEK_IN_MONTH, LC_DAY_OF_WEEK),
     (LC_DAY_OF_WEEK_IN_MONTH, LC_DOW_LOCAL)]"

fun best_fallback :: "(nat \<Rightarrow> u32) \<Rightarrow> (nat \<times> nat) list \<Rightarrow> u32 \<times> nat \<Rightarrow> u32 \<times> nat" where
  "best_fallback s [] br = br"
| "best_fallback s ((a, k) # rows) br = best_fallback s rows (if fst br < s k then (s k, a) else br)"

definition resolve_date :: "lc_calendar \<Rightarrow> nat" where
  "resolve_date c = (case best_row (cal_stamps c) date_rows (0, LC_DATE) of (best, result) \<Rightarrow>
     if best \<noteq> 0 then result else snd (best_fallback (cal_stamps c) fallback_rows (best, result)))"

definition limit_low :: "int list" where
  "limit_low = [0, 1, 0, 1, 0, 1, 1, 1, -1, 0, 0, 0, 0, 0, 0, -57600000, -3600000, -5838269, 1, -5838269,
     -2130706432, 0, 0]"

definition limit_high :: "int list" where
  "limit_high = [1, 5838270, 11, 53, 6, 31, 366, 7, 5, 1, 11, 23, 59, 59, 999, 108000000, 7200000, 5828963, 7,
     5828963, 2130706432, 86399999, 0]"

text \<open>\<open>limit_value\<close> for the kinds that do not look at the current time (minimum, maximum, greatest minimum, least maximum).\<close>

definition limit_fixed :: "lc_calendar \<Rightarrow> nat \<Rightarrow> nat \<Rightarrow> int" where
  "limit_fixed c field kind =
     (if kind = 0 \<or> kind = 2 then (if buddhist c \<and> field = LC_ERA then 0 else limit_low ! field)
      else let out = (if buddhist c \<and> field = LC_ERA then 0 else limit_high ! field) in
        if kind = 3 then
          (if field = LC_WEEK_OF_YEAR then 52 else if field = LC_WEEK_OF_MONTH then 4
           else if field = LC_DATE then 28 else if field = LC_DAY_OF_YEAR then 365 else out)
        else out)"

definition out_of_limits :: "lc_calendar \<Rightarrow> bool" where
  "out_of_limits c \<longleftrightarrow> (\<exists>i \<in> set [0 ..< (if icu c then LC_COUNT else 17)]. 2 \<le> cal_stamps c i \<and>
     (cal_fields c i < limit_fixed c i 0 \<or> limit_fixed c i 1 < cal_fields c i))"

definition resolved_year :: "lc_calendar \<Rightarrow> nat \<Rightarrow> int" where
  "resolved_year c best =
     (let y = (if cal_stamps c LC_YEAR < cal_stamps c LC_EXTENDED_YEAR then lc_value c LC_EXTENDED_YEAR 1970
        else let y = lc_value c LC_YEAR (if buddhist c then 2513 else 1970) in
          if buddhist c then y - 543 else if lc_value c LC_ERA 1 = 0 then 1 - y else y) in
      if best = LC_WEEK_OF_YEAR \<and> cal_stamps c LC_YEAR < cal_stamps c LC_YEAR_WOY then lc_value c LC_YEAR_WOY 1970 else y)"

definition newest :: "lc_calendar \<Rightarrow> nat list \<Rightarrow> u32" where
  "newest c fs = foldl (\<lambda>s f. newer s (cal_stamps c f)) 0 fs"

text \<open>The day of a week-based date: the last branch of the choice in \<open>compute_time\<close>.\<close>

definition week_day :: "lc_calendar \<Rightarrow> nat \<Rightarrow> int \<Rightarrow> int \<Rightarrow> int option" where
  "week_day c best year month = do {
     local_dow \<leftarrow>
       (if cal_stamps c LC_DAY_OF_WEEK < cal_stamps c LC_DOW_LOCAL
        then if i32 (lc_value c LC_DOW_LOCAL 1 - 1) then Some (lc_value c LC_DOW_LOCAL 1 - 1) else None
        else lc_mod (lc_value c LC_DAY_OF_WEEK (first_day c) - first_day c) 7);
     start \<leftarrow> civil c year (if best = LC_WEEK_OF_YEAR then 0 else month) 1;
     if best = LC_DAY_OF_WEEK_IN_MONTH then do {
       let ordinal = lc_value c LC_DAY_OF_WEEK_IN_MONTH 1;
       if 0 \<le> ordinal then do {
         w \<leftarrow> dow start;
         r \<leftarrow> lc_mod (w - first_day c) 7;
         s \<leftarrow> lc_mod (local_dow - r) 7;
         checked [start + s, start + s + 7 * (ordinal - 1)] (start + s + 7 * (ordinal - 1)) }
       else do {
         len \<leftarrow> month_length c year month;
         let end' = start + len - 1;
         w \<leftarrow> dow end';
         r \<leftarrow> lc_mod (w - first_day c) 7;
         s \<leftarrow> lc_mod (r - local_dow) 7;
         checked [start + len, end', end' - s, end' - s + 7 * (ordinal + 1)] (end' - s + 7 * (ordinal + 1)) } }
     else do {
       s \<leftarrow> week_start c start;
       let v = 7 * (lc_value c best 1 - 1);
       checked [v, s + v, s + v + local_dow] (s + v + local_dow) } }"

text \<open>The day that the fields determine; an inner \<open>None\<close> is \<open>LC_RANGE_ERROR\<close>.\<close>

definition resolved_day :: "lc_calendar \<Rightarrow> int option option" where
  "resolved_day c = do {
     let best = resolve_date c;
     let year = resolved_year c best;
     let month = lc_value c LC_MONTH 0;
     let date_stamp = newest c ([LC_ERA ..< LC_DAY_OF_WEEK_IN_MONTH + 1] @ [LC_YEAR_WOY ..< LC_EXTENDED_YEAR + 1]);
     if 2 \<le> cal_stamps c LC_JULIAN_DAY \<and> date_stamp \<le> cal_stamps c LC_JULIAN_DAY then Some (Some (cal_fields c LC_JULIAN_DAY))
     else if best = LC_DAY_OF_YEAR then do {
       jan \<leftarrow> civil c year 0 1;
       checked [jan + lc_value c LC_DAY_OF_YEAR 1, jan + lc_value c LC_DAY_OF_YEAR 1 - 1]
         (Some (jan + lc_value c LC_DAY_OF_YEAR 1 - 1)) }
     else if best = LC_DATE then do {
       let date = lc_value c LC_DATE 1;
       day \<leftarrow> civil c year month date;
       if lenient c then Some (Some day)
       else do {
         len \<leftarrow> month_length c year month;
         if len < date then Some None
         else do {
           (y, m, d) \<leftarrow> lc_day_civil day (cutover c \<le> day);
           Some (if y \<noteq> year \<or> m \<noteq> month + 1 \<or> d \<noteq> to_unsigned date then None else Some day) } } }
     else map_option Some (week_day c best year month) }"

definition time_of_day :: "lc_calendar \<Rightarrow> int" where
  "time_of_day c =
     (let hour_stamp = newer (cal_stamps c LC_HOUR) (cal_stamps c LC_AM_PM);
          hour = (if hour_stamp \<le> cal_stamps c LC_HOUR_OF_DAY then lc_value c LC_HOUR_OF_DAY 0
            else lc_value c LC_HOUR 0 + 12 * lc_value c LC_AM_PM 0);
          time_stamp = newer (newer hour_stamp (cal_stamps c LC_HOUR_OF_DAY)) (newer (cal_stamps c LC_MINUTE)
            (newer (cal_stamps c LC_SECOND) (cal_stamps c LC_MILLISECOND))) in
      if 2 \<le> cal_stamps c LC_MILLISECONDS_IN_DAY \<and> time_stamp \<le> cal_stamps c LC_MILLISECONDS_IN_DAY
      then cal_fields c LC_MILLISECONDS_IN_DAY
      else ((hour * 60 + lc_value c LC_MINUTE 0) * 60 + lc_value c LC_SECOND 0) * 1000 + lc_value c LC_MILLISECOND 0)"

abbreviation I64_MAX :: int where "I64_MAX \<equiv> 2 ^ 63 - 1"
abbreviation I64_MIN :: int where "I64_MIN \<equiv> - (2 ^ 63)"

text \<open>The instant of a wall time; the error is the one \<open>compute_time\<close> returns.\<close>

definition wall_instant :: "lc_zone option \<Rightarrow> lc_calendar \<Rightarrow> int \<Rightarrow> lc_status + int" where
  "wall_instant zone c wall = (case zone of None \<Rightarrow> Inr wall
     | Some z \<Rightarrow> (case z_resolve z of None \<Rightarrow> Inr wall
         | Some f \<Rightarrow> (case f wall (repeated c) (skipped c) (lenient c) of None \<Rightarrow> Inl LC_ZONE_ERROR | Some ms \<Rightarrow> Inr ms)))"

definition offset_instant :: "lc_calendar \<Rightarrow> int \<Rightarrow> lc_status + int" where
  "offset_instant c wall =
     (let off = lc_value c LC_ZONE_OFFSET 0 + lc_value c LC_DST_OFFSET 0 in
      if 0 < off \<and> wall < I64_MIN + off \<or> off < 0 \<and> I64_MAX + off < wall then Inl LC_RANGE_ERROR else Inr (wall - off))"

definition compute_time :: "lc_zone option \<Rightarrow> lc_calendar \<Rightarrow> (lc_status \<times> lc_calendar) option" where
  "compute_time zone c =
     (if \<not> lenient c \<and> out_of_limits c then Some (LC_RANGE_ERROR, c)
      else do {
        day \<leftarrow> resolved_day c;
        case day of None \<Rightarrow> Some (LC_RANGE_ERROR, c)
        | Some day \<Rightarrow> do {
            let tod = time_of_day c;
            let day = day + lc_floor tod LC_DAY;
            tod \<leftarrow> lc_mod tod LC_DAY;
            let days = day - LC_EPOCH_JD;
            days \<leftarrow> checked [day, days] days;
            if days < I64_MIN sdiv LC_DAY \<or> I64_MAX sdiv LC_DAY < days \<or> days = I64_MAX sdiv LC_DAY \<and> I64_MAX smod LC_DAY < tod
            then Some (LC_RANGE_ERROR, c)
            else do {
              wall \<leftarrow> checked [days * LC_DAY, days * LC_DAY + tod] (days * LC_DAY + tod);
              case (if 2 \<le> cal_stamps c LC_ZONE_OFFSET \<or> 2 \<le> cal_stamps c LC_DST_OFFSET then offset_instant c wall
                    else wall_instant zone c wall) of
                Inl e \<Rightarrow> Some (e, c)
              | Inr ms \<Rightarrow>
                  if icu c \<and> (ms < LC_MIN_MS \<or> LC_MAX_MS < ms) \<and> \<not> lenient c then Some (LC_RANGE_ERROR, c)
                  else Some (LC_OK, c\<lparr>millis := (if icu c \<and> (ms < LC_MIN_MS \<or> LC_MAX_MS < ms)
                      then if ms < LC_MIN_MS then LC_MIN_MS else LC_MAX_MS else ms),
                    time_valid := True, virtual_fields := False\<rparr>) } } })"

definition lc_get_millis :: "lc_zone option \<Rightarrow> lc_calendar \<Rightarrow> (lc_status \<times> lc_calendar) option" where
  "lc_get_millis zone c = (if time_valid c then Some (LC_OK, c) else compute_time zone c)"

definition complete :: "lc_zone option \<Rightarrow> lc_calendar \<Rightarrow> (lc_status \<times> lc_calendar) option" where
  "complete zone c = do {
     (err, c) \<leftarrow> lc_get_millis zone c;
     if err \<noteq> LC_OK then Some (err, c)
     else if fields_valid c then Some (LC_OK, c)
     else compute_fields zone c }"

section \<open>Operations\<close>

definition lc_get :: "lc_zone option \<Rightarrow> lc_calendar \<Rightarrow> int \<Rightarrow> ((lc_status \<times> int option) \<times> lc_calendar) option" where
  "lc_get zone c field =
     (if \<not> field_ok c field then Some ((LC_FIELD_ERROR, None), c)
      else do {
        (err, c) \<leftarrow> complete zone c;
        Some ((err, if err = LC_OK then Some (cal_fields c (nat field)) else None), c) })"

text \<open>The stamps after the counter has run out: the set ones are replaced by their rank.\<close>

definition restamp :: "(nat \<Rightarrow> u32) \<Rightarrow> nat \<Rightarrow> u32" where
  "restamp s i = (if i < LC_COUNT \<and> 2 \<le> s i
     then 2 + of_nat (length (filter (\<lambda>j. 2 \<le> s j \<and> s j < s i) [0 ..< LC_COUNT])) else s i)"

definition lc_set :: "lc_zone option \<Rightarrow> lc_calendar \<Rightarrow> int \<Rightarrow> int \<Rightarrow> (lc_status \<times> lc_calendar) option" where
  "lc_set zone c field val =
     (if \<not> field_ok c field then Some (LC_FIELD_ERROR, c)
      else do {
        (err, c) \<leftarrow> (if virtual_fields c then compute_fields zone c else Some (LC_OK, c));
        if err \<noteq> LC_OK then Some (err, c)
        else do {
          let c = (if next_stamp c = 0xffffffff
            then c\<lparr>cal_stamps := restamp (cal_stamps c), next_stamp := of_nat LC_COUNT + 2\<rparr> else c);
          Some (LC_OK, c\<lparr>cal_fields := (cal_fields c)(nat field := val),
            cal_stamps := (cal_stamps c)(nat field := next_stamp c), next_stamp := next_stamp c + 1,
            time_valid := False, fields_valid := False, virtual_fields := False\<rparr>) } })"

definition lc_clear :: "lc_zone option \<Rightarrow> lc_calendar \<Rightarrow> int \<Rightarrow> (lc_status \<times> lc_calendar) option" where
  "lc_clear zone c field =
     (if field \<noteq> - 1 \<and> \<not> field_ok c field then Some (LC_FIELD_ERROR, c)
      else do {
        (err, c) \<leftarrow> (if field = - 1 then Some (LC_OK, c\<lparr>cal_fields := (\<lambda>_. 0), cal_stamps := (\<lambda>_. 0), next_stamp := 2\<rparr>)
          else do {
            (err, c) \<leftarrow> (if virtual_fields c then compute_fields zone c else Some (LC_OK, c));
            Some (err, if err = LC_OK then c\<lparr>cal_fields := (cal_fields c)(nat field := 0),
              cal_stamps := (cal_stamps c)(nat field := 0)\<rparr> else c) });
        if err \<noteq> LC_OK then Some (err, c)
        else Some (LC_OK, c\<lparr>time_valid := False, fields_valid := False, virtual_fields := False\<rparr>) })"

definition lc_is_set :: "lc_calendar \<Rightarrow> int \<Rightarrow> bool" where
  "lc_is_set c field \<longleftrightarrow> field_ok c field \<and> (virtual_fields c \<or> cal_stamps c (nat field) \<noteq> 0)"

definition set_wall_day :: "lc_zone option \<Rightarrow> lc_calendar \<Rightarrow> int \<Rightarrow> int \<Rightarrow> (lc_status \<times> lc_calendar) option" where
  "set_wall_day zone c day tod = do {
     days \<leftarrow> checked [day - LC_EPOCH_JD] (day - LC_EPOCH_JD);
     if days < I64_MIN sdiv LC_DAY \<or> I64_MAX sdiv LC_DAY < days then Some (LC_RANGE_ERROR, c)
     else do {
       wall \<leftarrow> checked [days * LC_DAY, days * LC_DAY + tod] (days * LC_DAY + tod);
       case wall_instant zone c wall of Inl e \<Rightarrow> Some (e, c) | Inr ms \<Rightarrow> Some (lc_set_millis c ms) } }"

definition set_and_compute :: "lc_zone option \<Rightarrow> lc_calendar \<Rightarrow> nat \<Rightarrow> int \<Rightarrow> (lc_status \<times> lc_calendar) option" where
  "set_and_compute zone c field val = do {
     (err, c) \<leftarrow> lc_set zone c (int field) val;
     if err \<noteq> LC_OK then Some (err, c) else lc_get_millis zone c }"

definition add_scale :: "nat \<Rightarrow> int" where
  "add_scale field = (if field = LC_AM_PM then 43200000 else if field = LC_HOUR \<or> field = LC_HOUR_OF_DAY then 3600000
     else if field = LC_MINUTE then 60000 else if field = LC_SECOND then 1000 else 1)"

definition lc_add :: "lc_zone option \<Rightarrow> lc_calendar \<Rightarrow> int \<Rightarrow> int \<Rightarrow> (lc_status \<times> lc_calendar) option" where
  "lc_add zone c field amount =
     (if \<not> field_ok c field \<or> int LC_ZONE_OFFSET \<le> field then Some (LC_FIELD_ERROR, c)
      else if amount = 0 then Some (LC_OK, c)
      else do {
        (err, c) \<leftarrow> complete zone c;
        if err \<noteq> LC_OK then Some (err, c)
        else do {
          let field = nat field;
          let year = cal_fields c LC_EXTENDED_YEAR;
          let month = cal_fields c LC_MONTH;
          let date = cal_fields c LC_DATE;
          let tod = cal_fields c LC_MILLISECONDS_IN_DAY;
          if field = LC_YEAR \<or> field = LC_MONTH then do {
            let year = (if field = LC_YEAR then year + (if \<not> buddhist c \<and> cal_fields c LC_ERA = 0 then - amount else amount) else year);
            let month = (if field = LC_MONTH then month + amount else month);
            mx \<leftarrow> month_length c year month;
            day \<leftarrow> civil c year month (if mx < date then mx else date);
            set_wall_day zone c day tod }
          else if field \<in> {LC_DATE, LC_DAY_OF_YEAR, LC_DAY_OF_WEEK, LC_WEEK_OF_YEAR, LC_WEEK_OF_MONTH, LC_DAY_OF_WEEK_IN_MONTH}
          then do {
            let delta = amount * (if field \<in> {LC_WEEK_OF_YEAR, LC_WEEK_OF_MONTH, LC_DAY_OF_WEEK_IN_MONTH} then 7 else 1);
            day \<leftarrow> civil c year month date;
            day \<leftarrow> checked [day + delta] (day + delta);
            set_wall_day zone c day tod }
          else if field = LC_ERA then do {
            let era = cal_fields c LC_ERA + amount;
            set_and_compute zone c LC_ERA (if era < 0 then 0 else if 1 < era then 1 else era) }
          else do {
            let delta = amount * add_scale field;
            if 0 < delta \<and> I64_MAX - delta < millis c \<or> delta < 0 \<and> millis c < I64_MIN - delta then Some (LC_RANGE_ERROR, c)
            else Some (lc_set_millis c (millis c + delta)) } } })"

definition roll_max :: "nat \<Rightarrow> int" where
  "roll_max field = (if field = LC_HOUR then 12 else if field = LC_HOUR_OF_DAY then 24 else if field = LC_AM_PM then 2
     else if field = LC_MILLISECOND then 1000 else 60)"

definition lc_roll :: "lc_zone option \<Rightarrow> lc_calendar \<Rightarrow> int \<Rightarrow> int \<Rightarrow> (lc_status \<times> lc_calendar) option" where
  "lc_roll zone c field amount =
     (if \<not> field_ok c field then Some (LC_FIELD_ERROR, c)
      else if amount = 0 then Some (LC_OK, c)
      else do {
        (err, c) \<leftarrow> complete zone c;
        if err \<noteq> LC_OK then Some (err, c)
        else do {
          let field = nat field;
          let year = cal_fields c LC_EXTENDED_YEAR;
          let month = cal_fields c LC_MONTH;
          let date = cal_fields c LC_DATE;
          let tod = cal_fields c LC_MILLISECONDS_IN_DAY;
          if field = LC_DATE \<or> field = LC_DAY_OF_YEAR then do {
            first \<leftarrow> civil c year (if field = LC_DATE then month else 0) 1;
            last' \<leftarrow> civil c (year + (if field = LC_DAY_OF_YEAR then 1 else 0)) (if field = LC_DATE then month + 1 else 0) 1;
            day \<leftarrow> civil c year month date;
            r \<leftarrow> lc_mod (day - first + amount) (last' - first);
            r \<leftarrow> checked [day - first, day - first + amount, last' - first, first + r] r;
            set_wall_day zone c (first + r) tod }
          else if field = LC_MONTH then do {
            month \<leftarrow> lc_mod (month + amount) 12;
            mx \<leftarrow> month_length c year month;
            day \<leftarrow> civil c year month (if mx < date then mx else date);
            set_wall_day zone c day tod }
          else if field \<in> {LC_HOUR, LC_HOUR_OF_DAY, LC_AM_PM, LC_MINUTE, LC_SECOND, LC_MILLISECOND} then do {
            r \<leftarrow> lc_mod (cal_fields c field + amount) (roll_max field);
            set_and_compute zone c field (to_i32 r) }
          else Some (LC_UNSUPPORTED, c) } })"

text \<open>The kinds from 4 on are the minimum and maximum at the current time.\<close>

definition limit_value :: "lc_zone option \<Rightarrow> lc_calendar \<Rightarrow> nat \<Rightarrow> nat \<Rightarrow> ((lc_status \<times> int) \<times> lc_calendar) option" where
  "limit_value zone c field kind =
     (if kind < 4 then Some ((LC_OK, limit_fixed c field kind), c)
      else do {
        let out = limit_fixed c field kind;
        (err, c) \<leftarrow> complete zone c;
        if err \<noteq> LC_OK then Some ((err, out), c)
        else if kind = 4 then Some ((LC_OK, if field = LC_WEEK_OF_MONTH then 0 else limit_low ! field), c)
        else do {
          let y = cal_fields c LC_EXTENDED_YEAR;
          out \<leftarrow>
            (if field = LC_DATE then map_option to_i32 (month_length c y (cal_fields c LC_MONTH))
             else if field = LC_DAY_OF_YEAR then do {
               n \<leftarrow> civil c (y + 1) 0 1;
               j \<leftarrow> civil c y 0 1;
               checked [n - j] (to_i32 (n - j)) }
             else if field = LC_WEEK_OF_YEAR then do {
               let wy = cal_fields c LC_YEAR_WOY;
               if \<not> i32 (wy + 1) then None
               else do {
                 n \<leftarrow> civil c (wy + 1) 0 1;
                 s \<leftarrow> week_start c n;
                 j \<leftarrow> civil c wy 0 1;
                 t \<leftarrow> week_start c j;
                 checked [s - t] (to_i32 ((s - t) sdiv 7)) } }
             else Some out);
          Some ((LC_OK, out), c) } })"

definition lc_limit :: "lc_zone option \<Rightarrow> lc_calendar \<Rightarrow> int \<Rightarrow> nat \<Rightarrow> ((lc_status \<times> int option) \<times> lc_calendar) option" where
  "lc_limit zone c field kind =
     (if \<not> field_ok c field then Some ((LC_FIELD_ERROR, None), c)
      else map_option (\<lambda>((err, out), c). ((err, Some out), c)) (limit_value zone c (nat field) kind))"

end
