(* ===== verification/Calendar_Days.thy ===== *)
theory Calendar_Days
  imports Calendar
begin

text \<open>
  The day arithmetic of the calendar: \<open>lc_civil_day\<close> and \<open>lc_day_civil\<close> are inverse to each other
  on all days and all valid dates, in both calendars, and stay within 64 bits.
\<close>

section \<open>Floor division\<close>

lemma lc_floor_div: "0 < d \<Longrightarrow> lc_floor n d = n div d"
proof (cases "0 \<le> n")
  case True
  moreover assume "0 < d"
  ultimately show ?thesis
    by (simp add: lc_floor_def signed_divide_int_def signed_modulo_int_def not_less sgn_if)
next
  case False
  assume d: "0 < d"
  define k where "k = - n"
  have k: "0 < k" "n = - k" using False by (simp_all add: k_def)
  have "n sdiv d = - (k div d)" "n smod d = - (k mod d)"
    using k d by (simp_all add: signed_divide_int_def signed_modulo_int_def sgn_if)
  moreover have "k mod d \<noteq> 0 \<longleftrightarrow> 0 < k mod d" using d by (simp add: order_less_le)
  ultimately show ?thesis using k d by (simp add: lc_floor_def zdiv_zminus1_eq_if)
qed

lemma sdiv_nonneg: "0 \<le> n \<Longrightarrow> 0 < d \<Longrightarrow> n sdiv d = n div d" for n d :: int
  by (simp add: signed_divide_int_def sgn_if)

lemma smod_nonneg: "0 \<le> n \<Longrightarrow> 0 < d \<Longrightarrow> n smod d = n mod d" for n d :: int
  by (simp add: signed_modulo_int_def sgn_if)

lemma div_bounds: "0 < k \<Longrightarrow> k * (x div k) \<le> x \<and> x < k * (x div k) + k" for x k :: int
proof -
  assume "0 < k"
  then have "0 \<le> x mod k" "x mod k < k" by simp_all
  moreover have "x = k * (x div k) + x mod k" by simp
  ultimately show ?thesis by linarith
qed

lemma lc_mod_eq:
  assumes "0 < d" "d \<le> 2 ^ 40" "- (2 ^ 62) \<le> n" "n \<le> 2 ^ 62"
  shows "lc_mod n d = Some (n mod d)"
proof -
  define r where "r = n mod d"
  have m: "0 \<le> r" "r < d" using assms(1) by (simp_all add: r_def)
  have e: "n div d * d = n - r" by (simp add: r_def minus_mod_eq_div_mult)
  have "i64 (n div d * d)" "i64 (n - n div d * d)" using m assms unfolding e i64_def by simp_all
  then show ?thesis
    using assms(1) e by (simp add: lc_mod_def checked_def lc_floor_div r_def)
qed

lemma to_unsigned_id: "0 \<le> x \<Longrightarrow> x < 2 ^ 32 \<Longrightarrow> to_unsigned x = x"
  by (simp add: to_unsigned_def)

lemma to_i32_id: "- (2 ^ 31) \<le> x \<Longrightarrow> x < 2 ^ 31 \<Longrightarrow> to_i32 x = x"
  by (simp add: to_i32_def)

lemma checked_ok: "list_all i64 xs \<Longrightarrow> checked xs r = Some r"
  by (simp add: checked_def)

lemma div_near: "1 \<le> k \<Longrightarrow> - B \<le> x \<Longrightarrow> x \<le> B \<Longrightarrow> - B \<le> x div k \<and> x div k \<le> B" for x k B :: int
proof -
  assume k: "1 \<le> k" and x: "- B \<le> x" "x \<le> B"
  have B: "0 \<le> B" using x by simp
  have "x div k \<le> B"
  proof (cases "0 \<le> x")
    case True
    then show ?thesis using k x(2) zdiv_mono2 [of x 1 k] by simp
  next
    case False
    then have "x div k < 0" using k by (simp add: pos_imp_zdiv_neg_iff)
    then show ?thesis using B by linarith
  qed
  moreover have "- B \<le> x div k"
  proof -
    have "- B * k \<le> - B * 1" using B k by (intro mult_left_mono_neg) simp_all
    then have "- B * k \<le> x" using x(1) by simp
    then have "- B * k div k \<le> x div k" using k by (intro zdiv_mono1) simp_all
    then show ?thesis using k nonzero_mult_div_cancel_right [of k "- B"] by simp
  qed
  ultimately show ?thesis by simp
qed

section \<open>The two calendars\<close>

text \<open>A year that begins in March, so that the leap day is its last: its number, its months and their first days.\<close>

definition march_year :: "int \<Rightarrow> int \<Rightarrow> int" where
  "march_year y m = y + 4800 - (if m \<le> 2 then 1 else 0)"

definition march_month :: "int \<Rightarrow> int" where
  "march_month m = (if m \<le> 2 then m + 9 else m - 3)"

definition jday :: "bool \<Rightarrow> int \<Rightarrow> int \<Rightarrow> int \<Rightarrow> int" where
  "jday g y m d = (let Y = march_year y m in
     d + (153 * march_month m + 2) div 5 + 365 * Y + Y div 4 + (if g then Y div 400 - Y div 100 - 32045 else - 32083))"

definition leap :: "bool \<Rightarrow> int \<Rightarrow> bool" where
  "leap g y \<longleftrightarrow> y mod 4 = 0 \<and> (\<not> g \<or> y mod 100 \<noteq> 0 \<or> y mod 400 = 0)"

definition days_in :: "bool \<Rightarrow> int \<Rightarrow> int \<Rightarrow> int" where
  "days_in g y m = month_days ! nat (m - 1) + (if m = 2 \<and> leap g y then 1 else 0)"

definition valid_date :: "bool \<Rightarrow> int \<Rightarrow> int \<Rightarrow> int \<Rightarrow> bool" where
  "valid_date g y m d \<longleftrightarrow> 1 \<le> m \<and> m \<le> 12 \<and> 1 \<le> d \<and> d \<le> days_in g y m"

definition civil_of :: "bool \<Rightarrow> int \<Rightarrow> int \<times> int \<times> int" where
  "civil_of g jd = (
     let a = jd + 32044; b = (if g then (4 * a + 3) div 146097 else 0);
         c = (if g then a - 146097 * b div 4 else jd + 32082);
         d = (4 * c + 3) div 1461; e = c - 1461 * d div 4; m = (5 * e + 2) div 153 in
     (100 * b + d - 4800 + m div 10, m + 3 - 12 * (m div 10), e - (153 * m + 2) div 5 + 1))"

lemma lc_civil_day_eq:
  assumes "1 \<le> m" "m \<le> 12" "- (2 ^ 50) \<le> y" "y \<le> 2 ^ 50" "- (2 ^ 50) \<le> d" "d \<le> 2 ^ 50"
  shows "lc_civil_day y m d g = Some (jday g y m d)"
proof -
  have "(14 - m) div 12 = (if m \<le> 2 then 1 else 0)"
    using assms(1,2) by (auto intro: int_div_pos_eq [where r = "2 - m"] int_div_pos_eq [where r = "14 - m"])
  then have a: "(14 - m) sdiv 12 = (if m \<le> 2 then 1 else 0)" using assms(2) by (simp add: sdiv_nonneg)
  then have mm: "m + 12 * ((14 - m) sdiv 12) - 3 = march_month m"
      and yy: "y + 4800 - (14 - m) sdiv 12 = march_year y m"
    by (simp_all add: march_month_def march_year_def)
  have m5: "(153 * march_month m + 2) sdiv 5 = (153 * march_month m + 2) div 5"
    using assms(1,2) by (intro sdiv_nonneg) (auto simp: march_month_def)
  have b: "0 \<le> (153 * march_month m + 2) div 5" "(153 * march_month m + 2) div 5 \<le> 400"
      "- (2 ^ 51) \<le> march_year y m" "march_year y m \<le> 2 ^ 51"
    using assms by (auto simp: march_month_def march_year_def)
  show ?thesis
    using b div_near [OF _ b(3,4), of 4] div_near [OF _ b(3,4), of 100] div_near [OF _ b(3,4), of 400] assms(3-6)
    unfolding lc_civil_day_def Let_def mm yy m5
    by (simp add: lc_floor_div jday_def checked_def i64_def Let_def)
qed

section \<open>Centuries, years and months\<close>

lemma div4_split: "(4 * k + 1) * b div 4 = k * b + b div 4" for b k :: int
proof -
  have "(4 * k + 1) * b = b + 4 * (k * b)" by (simp add: algebra_simps)
  then show ?thesis by simp
qed

text \<open>
  A cycle of four periods, of which the last is one day longer: both directions of the
  division that finds the period and the day in it.
\<close>

lemma cycle_split:
  fixes a b c k n :: int
  assumes "b = (4 * a + 3) div n" "c = a - n * b div 4" "n = 4 * k + 1" "0 < k"
  shows "a = k * b + b div 4 + c" "0 \<le> c" "c \<le> k - 1 + (if b mod 4 = 3 then 1 else 0)"
proof -
  define r where "r = (4 * a + 3) mod n"
  have r: "0 \<le> r" "r \<le> 4 * k" using assms(3,4) pos_mod_bound [of n "4 * a + 3"] by (simp_all add: r_def)
  have "4 * a + 3 = n * b + r" by (simp add: assms(1) r_def)
  then have e: "4 * a + 3 = 4 * (k * b) + b + r" by (simp add: assms(3) algebra_simps)
  show a: "a = k * b + b div 4 + c" by (simp add: assms(2,3) div4_split)
  have b4: "b = 4 * (b div 4) + b mod 4" by simp
  then have c4: "4 * c + 3 = r + b mod 4" using e a by linarith
  have "0 \<le> b mod 4" "b mod 4 \<le> 3" using pos_mod_bound [of 4 b] by simp_all
  then show "0 \<le> c" "c \<le> k - 1 + (if b mod 4 = 3 then 1 else 0)" using c4 r by presburger+
qed

lemma cycle_join:
  fixes a b c k n :: int
  assumes "0 \<le> c" "c \<le> k - 1 + (if b mod 4 = 3 then 1 else 0)" "a = k * b + b div 4 + c" "n = 4 * k + 1"
  shows "(4 * a + 3) div n = b" "a - n * b div 4 = c"
proof -
  have r: "0 \<le> b mod 4" "b mod 4 \<le> 3" using pos_mod_bound [of 4 b] by simp_all
  have "4 * a + 3 = 4 * (k * b) + b + (4 * c + 3 - b mod 4)" unfolding assms(3) by presburger
  also have "\<dots> = n * b + (4 * c + 3 - b mod 4)" by (simp add: assms(4) algebra_simps)
  finally have "4 * a + 3 = n * b + (4 * c + 3 - b mod 4)" .
  moreover have "0 \<le> 4 * c + 3 - b mod 4" "4 * c + 3 - b mod 4 < n"
    using assms(1,2,4) r by (auto split: if_splits)
  ultimately show "(4 * a + 3) div n = b" by (rule int_div_pos_eq)
  show "a - n * b div 4 = c" by (simp add: assms(3,4) div4_split)
qed

lemma cycle_lengths:
  "(146097 :: int) = 4 * 36524 + 1" "0 < (36524 :: int)" "(1461 :: int) = 4 * 365 + 1" "0 < (365 :: int)"
  by simp_all

definition march_days :: "int \<Rightarrow> int" where
  "march_days M = [31, 30, 31, 30, 31, 31, 30, 31, 30, 31, 31, 29] ! nat M"

lemma twelve: "0 \<le> M \<Longrightarrow> M \<le> 11 \<Longrightarrow> M \<in> {0, 1, 2, 3, 4, 5, 6, 7, 8, 9, 10, 11}" for M :: int
  by simp presburger

lemma month_split:
  fixes e :: int
  assumes "0 \<le> e" "e \<le> 365"
  defines "M \<equiv> (5 * e + 2) div 153"
  shows "0 \<le> M \<and> M \<le> 11 \<and> 0 \<le> e - (153 * M + 2) div 5 \<and> e - (153 * M + 2) div 5 < march_days M"
proof -
  have M: "153 * M \<le> 5 * e + 2" "5 * e + 2 < 153 * M + 153" unfolding M_def by presburger+
  then have "M \<in> {0, 1, 2, 3, 4, 5, 6, 7, 8, 9, 10, 11}" using assms(1,2) by (intro twelve) linarith+
  then show ?thesis using M assms(1,2) by (elim insertE) (simp_all add: march_days_def)
qed

lemma month_join:
  assumes "0 \<le> M" "M \<le> 11" "0 \<le> d" "d < march_days M"
  shows "(5 * ((153 * M + 2) div 5 + d) + 2) div 153 = M \<and> (153 * M + 2) div 5 + d \<le> 365"
proof -
  have q: "(5 * (s + d) + 2) div 153 = M" if "153 * M \<le> 5 * (s + d) + 2" "5 * (s + d) + 2 < 153 * M + 153" for s
    using that by (intro int_div_pos_eq [where r = "5 * (s + d) + 2 - 153 * M"]) simp_all
  have "153 * M \<le> 5 * ((153 * M + 2) div 5 + d) + 2 \<and> 5 * ((153 * M + 2) div 5 + d) + 2 < 153 * M + 153 \<and>
      (153 * M + 2) div 5 + d \<le> 365"
    using twelve [OF assms(1,2)] assms(3,4) by (elim insertE) (simp_all add: march_days_def)
  then show ?thesis using q by blast
qed


section \<open>Both directions\<close>

lemma century_arith:
  fixes b d :: int
  assumes "0 \<le> d" "d \<le> 99"
  shows "(100 * b + d) div 4 = 25 * b + d div 4" "(100 * b + d) mod 4 = d mod 4" "(100 * b + d) div 100 = b"
    "(100 * b + d) mod 100 = d" "(100 * b + d) div 400 = b div 4"
proof -
  have "100 * b + d = d + 25 * b * 4" by simp
  then show "(100 * b + d) div 4 = 25 * b + d div 4" "(100 * b + d) mod 4 = d mod 4"
    by (simp_all only: div_mult_self1 mod_mult_self1)
  show c: "(100 * b + d) div 100 = b" using assms by simp
  show "(100 * b + d) mod 100 = d" using assms by simp
  have "(100 * b + d) div 400 = (100 * b + d) div 100 div 4" using zdiv_zmult2_eq [of 4 "100 * b + d" 100] by simp
  then show "(100 * b + d) div 400 = b div 4" by (simp only: c)
qed

lemma leap_feb:
  fixes b d :: int
  assumes "0 \<le> d" "d \<le> 99"
  shows "leap True (100 * b + d - 4799) \<longleftrightarrow> d mod 4 = 3 \<and> (d = 99 \<longrightarrow> b mod 4 = 3)"
proof -
  have "100 * b + d - 4799 = d + 1 + (25 * b - 1200) * 4" by simp
  then have m4: "(100 * b + d - 4799) mod 4 = (d + 1) mod 4" by (simp only: mod_mult_self1)
  have "100 * b + d - 4799 = d + 1 + (b - 48) * 100" by simp
  then have m100: "(100 * b + d - 4799) mod 100 = (d + 1) mod 100" by (simp only: mod_mult_self1)
  have m400: "(100 * b + 99 - 4799) mod 400 = 100 * ((b - 47) mod 4)"
    using mod_mult_mult1 [of 100 "b - 47" 4] by (simp add: algebra_simps)
  show ?thesis
  proof (cases "d = 99")
    case True
    have "(b - 47) mod 4 = 0 \<longleftrightarrow> b mod 4 = 3" by presburger
    then show ?thesis using m4 m100 m400 True by (simp add: leap_def)
  next
    case False
    then have "(d + 1) mod 100 \<noteq> 0" using assms by simp
    moreover have "(d + 1) mod 4 = 0 \<longleftrightarrow> d mod 4 = 3" by presburger
    ultimately show ?thesis using m4 m100 False by (simp add: leap_def)
  qed
qed

lemma leap_feb_julian: "leap False (Y - 4799) \<longleftrightarrow> Y mod 4 = 3"
  unfolding leap_def by presburger

lemma days_in_march:
  assumes "0 \<le> M" "M \<le> 11"
  shows "days_in g (Y - 4800 + M div 10) (M + 3 - 12 * (M div 10)) = march_days M - (if M = 11 \<and> \<not> leap g (Y - 4799) then 1 else 0)"
proof -
  have "Y - 4800 + 1 = Y - 4799" by simp
  then show ?thesis using twelve [OF assms] by (elim insertE) (simp_all add: days_in_def march_days_def month_days_def)
qed

lemma march_back:
  assumes "0 \<le> M" "M \<le> 11"
  shows "1 \<le> M + 3 - 12 * (M div 10)" "M + 3 - 12 * (M div 10) \<le> 12"
    "march_month (M + 3 - 12 * (M div 10)) = M" "march_year (Y - 4800 + M div 10) (M + 3 - 12 * (M div 10)) = Y"
  using twelve [OF assms] by (elim insertE; simp add: march_month_def march_year_def)+

lemma march_forth:
  assumes "1 \<le> m" "m \<le> 12"
  shows "0 \<le> march_month m" "march_month m \<le> 11" "march_month m + 3 - 12 * (march_month m div 10) = m"
    "march_year y m - 4800 + march_month m div 10 = y"
proof -
  have "march_month m div 10 = (if m \<le> 2 then 1 else 0)"
    using assms by (auto simp: march_month_def intro!: int_div_pos_eq [where r = "m - 1"])
  then show "0 \<le> march_month m" "march_month m \<le> 11" "march_month m + 3 - 12 * (march_month m div 10) = m"
      "march_year y m - 4800 + march_month m div 10 = y"
    using assms by (auto simp: march_month_def march_year_def)
qed

text \<open>A day as a year, and a day within it; a year has a 366th day exactly when its last month ends with a leap day.\<close>

definition year_base :: "bool \<Rightarrow> int \<Rightarrow> int" where
  "year_base g Y = 365 * Y + Y div 4 + (if g then Y div 400 - Y div 100 - 32044 else - 32082)"

definition year_parts :: "bool \<Rightarrow> int \<Rightarrow> int \<times> int" where
  "year_parts g jd = (
     let a = jd + 32044; b = (if g then (4 * a + 3) div 146097 else 0);
         c = (if g then a - 146097 * b div 4 else jd + 32082);
         d = (4 * c + 3) div 1461 in (100 * b + d, c - 1461 * d div 4))"

lemma year_base_century:
  assumes "0 \<le> d" "d \<le> 99"
  shows "year_base True (100 * b + d) = 36524 * b + b div 4 + 365 * d + d div 4 - 32044"
  unfolding year_base_def century_arith [OF assms] by simp

lemma year_parts_split:
  assumes "year_parts g jd = (Y, e)"
  shows "jd = year_base g Y + e \<and> 0 \<le> e \<and> e \<le> 364 + (if leap g (Y - 4799) then 1 else 0)"
proof (cases g)
  case False
  have Y: "Y = (4 * (jd + 32082) + 3) div 1461" "e = jd + 32082 - 1461 * Y div 4"
    using assms False by (auto simp: year_parts_def Let_def)
  note s = cycle_split [OF Y cycle_lengths(3,4)]
  show ?thesis using s False by (simp add: year_base_def leap_feb_julian)
next
  case True
  define b where "b = (4 * (jd + 32044) + 3) div 146097"
  define c where "c = jd + 32044 - 146097 * b div 4"
  define d where "d = (4 * c + 3) div 1461"
  have Y: "Y = 100 * b + d" "e = c - 1461 * d div 4"
    using assms True by (simp_all add: year_parts_def Let_def b_def c_def d_def)
  note b = cycle_split [OF b_def c_def cycle_lengths(1,2)]
  note d = cycle_split [OF d_def Y(2) cycle_lengths(3,4)]
  have "c \<le> 36524" using b(3) by (simp split: if_splits)
  then have d99: "0 \<le> d" "d \<le> 99"
    using b(2) div_bounds [of 1461 "4 * c + 3"] unfolding d_def [symmetric] by linarith+
  have "e \<le> 364 + (if d mod 4 = 3 \<and> (d = 99 \<longrightarrow> b mod 4 = 3) then 1 else 0)"
    using b(3) d(1,3) by (cases "d = 99") (auto split: if_splits)
  then show ?thesis using b(1) d(1,2) True
    unfolding Y(1) by (simp add: leap_feb [OF d99] year_base_century [OF d99])
qed

lemma year_parts_join:
  assumes "0 \<le> e" "e \<le> 364 + (if leap g (Y - 4799) then 1 else 0)"
  shows "year_parts g (year_base g Y + e) = (Y, e)"
proof (cases g)
  case False
  have "e \<le> 365 - 1 + (if Y mod 4 = 3 then 1 else 0)" using assms(2) False by (simp add: leap_feb_julian)
  moreover have "year_base g Y + e + 32082 = 365 * Y + Y div 4 + e" using False by (simp add: year_base_def)
  ultimately have "(4 * (year_base g Y + e + 32082) + 3) div 1461 = Y" "year_base g Y + e + 32082 - 1461 * Y div 4 = e"
    by (rule cycle_join [OF assms(1) _ _ cycle_lengths(3)])+
  then show ?thesis using False unfolding year_parts_def Let_def by (simp only: if_False) simp
next
  case True
  define b where "b = Y div 100"
  define d where "d = Y mod 100"
  define c where "c = 365 * d + d div 4 + e"
  have Y: "Y = 100 * b + d" "0 \<le> d" "d \<le> 99" using pos_mod_bound [of 100 Y] by (simp_all add: b_def d_def)
  have e: "e \<le> 364 + (if d mod 4 = 3 \<and> (d = 99 \<longrightarrow> b mod 4 = 3) then 1 else 0)"
    using assms(2) True unfolding Y(1) by (simp add: leap_feb [OF Y(2,3)])
  have q: "0 \<le> d div 4" "d div 4 \<le> 24" using Y(2,3) by simp_all
  have c: "0 \<le> c" "c \<le> 36524 - 1 + (if b mod 4 = 3 then 1 else 0)"
    using q e Y(2,3) assms(1) by (simp add: c_def, cases "d = 99") (auto simp: c_def split: if_splits)
  have a: "year_base True Y + e + 32044 = 36524 * b + b div 4 + c"
    using year_base_century [OF Y(2,3), of b] by (simp add: Y(1) c_def)
  have e': "e \<le> 365 - 1 + (if d mod 4 = 3 then 1 else 0)" using e by (simp split: if_splits)
  note b = cycle_join [OF c a cycle_lengths(1)] and d = cycle_join [OF assms(1) e' c_def cycle_lengths(3)]
  show ?thesis using True unfolding year_parts_def Let_def by (simp only: if_True b d Y(1) [symmetric])
qed

lemma civil_of_year_parts:
  "civil_of g jd = (case year_parts g jd of (Y, e) \<Rightarrow> let M = (5 * e + 2) div 153 in
     (Y - 4800 + M div 10, M + 3 - 12 * (M div 10), e - (153 * M + 2) div 5 + 1))"
  unfolding civil_of_def year_parts_def Let_def by (simp only: prod.case)

lemma jday_year_base: "jday g y m d = year_base g (march_year y m) + ((153 * march_month m + 2) div 5 + d - 1)"
  by (simp add: jday_def year_base_def Let_def)

lemma civil_of_jday:
  assumes "civil_of g jd = (y, m, d)"
  shows "valid_date g y m d" "jday g y m d = jd"
proof -
  obtain Y e where p: "year_parts g jd = (Y, e)" by fastforce
  define M where "M = (5 * e + 2) div 153"
  have e: "jd = year_base g Y + e" "0 \<le> e" "e \<le> 364 + (if leap g (Y - 4799) then 1 else 0)"
    using year_parts_split [OF p] by blast+
  have "e \<le> 365" using e(3) by (simp split: if_splits)
  note M = month_split [OF e(2) this, folded M_def]
  have eqs: "y = Y - 4800 + M div 10" "m = M + 3 - 12 * (M div 10)" "d = e - (153 * M + 2) div 5 + 1"
    using assms by (auto simp: civil_of_year_parts p M_def Let_def)
  have M': "0 \<le> M" "M \<le> 11" using M by simp_all
  note bk = march_back [OF M', folded eqs(2)]
  show "jday g y m d = jd" using M bk(3) bk(4) [of Y] e(1) eqs(1,3) by (simp add: jday_year_base)
  have "M = 11 \<Longrightarrow> \<not> leap g (Y - 4799) \<Longrightarrow> d \<le> 28" using e(3) eqs(3) by simp
  then show "valid_date g y m d"
    using M bk(1,2) days_in_march [of M g Y] eqs by (auto simp: valid_date_def march_days_def)
qed

lemma valid_year_day:
  assumes "valid_date g y m d"
  defines "M \<equiv> march_month m" and "Y \<equiv> march_year y m"
  defines "e \<equiv> (153 * M + 2) div 5 + (d - 1)"
  shows "0 \<le> e" "e \<le> 364 + (if leap g (Y - 4799) then 1 else 0)" "(5 * e + 2) div 153 = M"
proof -
  have m: "1 \<le> m" "m \<le> 12" "1 \<le> d" "d \<le> days_in g y m" using assms(1) by (simp_all add: valid_date_def)
  note forth = march_forth(1-3) [OF m(1,2), folded M_def] march_forth(4) [OF m(1,2), of y, folded M_def Y_def]
  have len: "d \<le> march_days M - (if M = 11 \<and> \<not> leap g (Y - 4799) then 1 else 0)"
    using m(4) days_in_march [OF forth(1,2), of g Y] forth(3,4) by simp
  then show "(5 * e + 2) div 153 = M"
    using month_join [OF forth(1,2), of "d - 1"] m(3) unfolding e_def by (simp_all split: if_splits)
  show "0 \<le> e" using forth(1) m(3) by (simp add: e_def)
  show "e \<le> 364 + (if leap g (Y - 4799) then 1 else 0)"
  proof (cases "M = 11")
    case True
    then show ?thesis using len by (simp add: e_def march_days_def split: if_splits)
  next
    case False
    then have "M \<in> {0, 1, 2, 3, 4, 5, 6, 7, 8, 9, 10}" using twelve [OF forth(1,2)] by simp
    then have "e \<le> 364" using len unfolding e_def by (elim insertE) (simp_all add: march_days_def)
    then show ?thesis by simp
  qed
qed

lemma jday_civil_of:
  assumes "valid_date g y m d"
  shows "civil_of g (jday g y m d) = (y, m, d)"
proof -
  define M where "M = march_month m"
  define Y where "Y = march_year y m"
  define e where "e = (153 * M + 2) div 5 + (d - 1)"
  note e = valid_year_day [OF assms, folded M_def Y_def, folded e_def]
  have m: "1 \<le> m" "m \<le> 12" using assms by (simp_all add: valid_date_def)
  note forth = march_forth(3) [OF m, folded M_def] march_forth(4) [OF m, of y, folded M_def Y_def]
  have "year_parts g (year_base g Y + e) = (Y, e)" using e(1,2) by (rule year_parts_join)
  moreover have "jday g y m d = year_base g Y + e" by (simp add: jday_year_base Y_def M_def e_def)
  ultimately have "civil_of g (jday g y m d) = (Y - 4800 + M div 10, M + 3 - 12 * (M div 10), e - (153 * M + 2) div 5 + 1)"
    using e(3) by (simp add: civil_of_year_parts Let_def)
  then show ?thesis using forth by (simp add: e_def)
qed

lemma lc_day_civil_eq:
  assumes "- (2 ^ 50) \<le> jd" "jd \<le> 2 ^ 50"
  shows "lc_day_civil jd g = Some (civil_of g jd)"
proof -
  define a where "a = jd + 32044"
  define b where "b = (if g then (4 * a + 3) div 146097 else 0)"
  define c where "c = (if g then a - 146097 * b div 4 else jd + 32082)"
  define d where "d = (4 * c + 3) div 1461"
  define e where "e = c - 1461 * d div 4"
  define M where "M = (5 * e + 2) div 153"
  have e: "0 \<le> e" "e \<le> 365"
    using cycle_split(2,3) [OF d_def e_def cycle_lengths(3,4)] by (simp_all split: if_splits)
  note M = month_split [OF this, folded M_def]
  have M1: "M \<in> {0, 1, 2, 3, 4, 5, 6, 7, 8, 9, 10, 11}" using M by (intro twelve) simp_all
  have sM: "(5 * e + 2) sdiv 153 = M" "M sdiv 10 = M div 10" "(153 * M + 2) sdiv 5 = (153 * M + 2) div 5"
    using e M by (simp_all add: sdiv_nonneg M_def)
  have u: "to_unsigned (M + 3 - 12 * (M div 10)) = M + 3 - 12 * (M div 10)"
      "to_unsigned (e - (153 * M + 2) div 5 + 1) = e - (153 * M + 2) div 5 + 1"
    using M march_back(1,2) [of M] e M1 by (auto intro!: to_unsigned_id simp: march_days_def)
  have ba: "- (2 ^ 51) \<le> a" "a \<le> 2 ^ 51" using assms by (simp_all add: a_def)
  have "- (2 ^ 54) \<le> (4 * a + 3) div 146097 \<and> (4 * a + 3) div 146097 \<le> 2 ^ 54"
    using ba by (intro div_near) simp_all
  have bb: "146097 * b \<le> 2 ^ 54" "- (2 ^ 54) \<le> 146097 * b"
    using div_bounds [of 146097 "4 * a + 3"] ba by (auto simp: b_def)
  have bc: "- (2 ^ 55) \<le> c" "c \<le> 2 ^ 55"
    using div_near [of 4, OF _ bb(2,1)] ba assms by (auto simp: c_def)
  have bd: "1461 * d \<le> 2 ^ 58" "- (2 ^ 58) \<le> 1461 * d"
    using div_bounds [of 1461 "4 * c + 3"] bc by (auto simp: d_def)
  have M10: "0 \<le> M div 10" "M div 10 \<le> 1" using M by auto
  have "lc_day_civil jd g = checked [jd + 32082, if g then 4 * a else 0, if g then 4 * a + 3 else 0, 146097 * b, c,
         4 * c, 4 * c + 3, 1461 * d, e, 5 * e + 2, 100 * b, 100 * b + d, 100 * b + d - 4800 + M div 10] (civil_of g jd)"
    unfolding lc_day_civil_def civil_of_def Let_def
    by (simp only: lc_floor_div sM u zero_less_numeral flip: a_def b_def c_def d_def e_def M_def)
  also have "\<dots> = Some (civil_of g jd)"
    using assms ba bb bc bd e M10 by (intro checked_ok) (simp add: i64_def)
  finally show ?thesis .
qed

end
