(* ===== verification/Calendar_Time.thy ===== *)
theory Calendar_Time
  imports Calendar_Days
begin

text \<open>
  From instants to fields and back: what \<open>compute_fields\<close> leaves, that \<open>compute_time\<close> inverts it,
  and the order of the stamps that decides which fields count.
\<close>

section \<open>Dates with the change of calendar\<close>

definition CUTOVER :: int where "CUTOVER = 2299161"

text \<open>The calendars the adapters create: the change of calendar is fixed, the week settings are validated.\<close>

definition cal_ok :: "lc_calendar \<Rightarrow> bool" where
  "cal_ok c \<longleftrightarrow> cutover c = CUTOVER \<and> 1 \<le> first_day c \<and> first_day c \<le> 7 \<and> 1 \<le> min_days c \<and> min_days c \<le> 7"

definition cday :: "int \<Rightarrow> int \<Rightarrow> int \<Rightarrow> int" where
  "cday y m d = (if CUTOVER \<le> jday True y m d then jday True y m d else jday False y m d)"

lemma jday_shift: "jday g y m 1 + d - 1 = jday g y m d"
  by (simp add: jday_def Let_def)

lemma jday_near:
  assumes "1 \<le> m" "m \<le> 12" "- (2 ^ 41) \<le> y" "y \<le> 2 ^ 41" "- (2 ^ 41) \<le> d" "d \<le> 2 ^ 41"
  shows "- (2 ^ 52) \<le> jday g y m d" "jday g y m d \<le> 2 ^ 52"
proof -
  have b: "0 \<le> (153 * march_month m + 2) div 5" "(153 * march_month m + 2) div 5 \<le> 400"
      "- (2 ^ 42) \<le> march_year y m" "march_year y m \<le> 2 ^ 42"
    using assms(1-4) by (auto simp: march_month_def march_year_def)
  note n = div_near [OF _ b(3,4), of 4] div_near [OF _ b(3,4), of 100] div_near [OF _ b(3,4), of 400]
  show "- (2 ^ 52) \<le> jday g y m d" "jday g y m d \<le> 2 ^ 52"
    using b n assms(5,6) unfolding jday_def Let_def by simp_all
qed

lemma civil_eq:
  assumes "cal_ok c" "- (2 ^ 40) \<le> y" "y \<le> 2 ^ 40" "- (2 ^ 40) \<le> m" "m \<le> 2 ^ 40" "- (2 ^ 40) \<le> d" "d \<le> 2 ^ 40"
  shows "civil c y m d = Some (cday (y + m div 12) (m mod 12 + 1) d)"
proof -
  define Y where "Y = y + m div 12"
  define M where "M = m mod 12"
  have M: "0 \<le> M" "M \<le> 11" using pos_mod_bound [of 12 m] by (simp_all add: M_def)
  have "- (2 ^ 40) \<le> m div 12 \<and> m div 12 \<le> 2 ^ 40" using assms(4,5) by (intro div_near) simp_all
  then have Y: "- (2 ^ 41) \<le> Y" "Y \<le> 2 ^ 41" using assms(2,3) by (simp_all add: Y_def)
  have mod: "lc_mod m 12 = Some M" using assms(4,5) by (simp add: lc_mod_eq M_def)
  have u: "to_unsigned M + 1 = M + 1" using M by (simp add: to_unsigned_id)
  have cd: "lc_civil_day Y (M + 1) 1 g = Some (jday g Y (M + 1) 1)" for g
    using M Y by (intro lc_civil_day_eq) simp_all
  have n: "- (2 ^ 52) \<le> jday g Y (M + 1) 1" "jday g Y (M + 1) 1 \<le> 2 ^ 52" for g
    using M Y by (intro jday_near; simp)+
  have ck: "checked [Y, jday g Y (M + 1) 1 + d, jday g Y (M + 1) d] r = Some r"
      "checked [jday g Y (M + 1) 1 + d, jday g Y (M + 1) d] r = Some r" for g and r :: int
    using n [of g] Y assms(6,7) jday_near [of "M + 1" Y d g] M by (simp_all add: checked_def i64_def)
  show ?thesis
    using assms(1) unfolding civil_def Let_def lc_floor_div [of 12, simplified] mod Y_def [symmetric] M_def [symmetric]
    by (simp add: cd u jday_shift ck cday_def cal_ok_def)
qed

text \<open>A Julian date before the change is before it in the Gregorian count as well.\<close>

lemma julian_before:
  assumes "valid_date False y m d" "jday False y m d < CUTOVER"
  shows "jday True y m d < CUTOVER"
proof -
  define Y where "Y = march_year y m"
  define e where "e = (153 * march_month m + 2) div 5 + (d - 1)"
  have e: "0 \<le> e" "e \<le> 365"
    using valid_year_day(1,2) [OF assms(1), folded e_def] by (simp_all split: if_splits)
  define a where "a = Y div 4"
  define b where "b = Y div 100"
  define f where "f = b div 4"
  have a: "4 * a \<le> Y" "Y < 4 * a + 4" using div_bounds [of 4 Y] by (simp_all add: a_def)
  have b: "100 * b \<le> Y" "Y < 100 * b + 100" using div_bounds [of 100 Y] by (simp_all add: b_def)
  have f: "4 * f \<le> b" "b < 4 * f + 4" using div_bounds [of 4 b] by (simp_all add: f_def)
  have "Y div 400 = f" using zdiv_zmult2_eq [of 4 Y 100] by (simp add: b_def f_def)
  then have J: "jday False y m d = 365 * Y + a - 32082 + e" "jday True y m d = 365 * Y + a + f - b - 32044 + e"
    by (simp_all add: jday_year_base year_base_def e_def Y_def a_def b_def)
  show ?thesis
  proof (cases "50 \<le> b")
    case True
    then have "f - b + 38 \<le> 0" using f by linarith
    then show ?thesis using assms(2) unfolding J by linarith
  next
    case False
    then show ?thesis using a b f e unfolding J CUTOVER_def by linarith
  qed
qed

definition date_of :: "int \<Rightarrow> int \<times> int \<times> int" where
  "date_of jd = civil_of (CUTOVER \<le> jd) jd"

lemma cday_date_of:
  assumes "date_of jd = (y, m, d)"
  shows "cday y m d = jd"
proof (cases "CUTOVER \<le> jd")
  case True
  then show ?thesis using civil_of_jday(2) [of True jd y m d] assms by (simp add: date_of_def cday_def)
next
  case False
  have "civil_of False jd = (y, m, d)" using assms False by (simp add: date_of_def)
  note j = civil_of_jday [OF this]
  then have "jday True y m d < CUTOVER" using False by (intro julian_before) simp_all
  then show ?thesis using j(2) by (simp add: cday_def)
qed

lemma days_in_le:
  assumes "1 \<le> m" "m \<le> 12"
  shows "days_in g y m \<le> 31"
proof -
  have "m - 1 \<in> {0, 1, 2, 3, 4, 5, 6, 7, 8, 9, 10, 11}" using assms by (intro twelve) simp_all
  then show ?thesis by (elim insertE) (simp_all add: days_in_def month_days_def)
qed

lemma jday_small:
  assumes "1 \<le> m" "m \<le> 12" "1 \<le> d" "d \<le> 31" "- (2 ^ 35) \<le> y" "y \<le> 2 ^ 35"
  shows "- (2 ^ 45) \<le> jday g y m d" "jday g y m d \<le> 2 ^ 45"
proof -
  have b: "0 \<le> (153 * march_month m + 2) div 5" "(153 * march_month m + 2) div 5 \<le> 400"
      "- (2 ^ 36) \<le> march_year y m" "march_year y m \<le> 2 ^ 36"
    using assms by (auto simp: march_month_def march_year_def)
  note n = div_near [OF _ b(3,4), of 4] div_near [OF _ b(3,4), of 100] div_near [OF _ b(3,4), of 400]
  show "- (2 ^ 45) \<le> jday g y m d" "jday g y m d \<le> 2 ^ 45"
    using b n assms(3,4) unfolding jday_def Let_def by simp_all
qed

lemma civil_of_near:
  assumes "civil_of g jd = (y, m, d)" "- (2 ^ 37) \<le> jd" "jd \<le> 2 ^ 37"
  shows "- (2 ^ 30) \<le> y" "y \<le> 2 ^ 30" "1 \<le> m" "m \<le> 12" "1 \<le> d" "d \<le> 31"
proof -
  note j = civil_of_jday [OF assms(1)]
  then show m: "1 \<le> m" "m \<le> 12" "1 \<le> d" by (simp_all add: valid_date_def)
  show "d \<le> 31" using j(1) days_in_le [OF m(1,2), of g y] by (simp add: valid_date_def)
  define Y where "Y = march_year y m"
  define e where "e = (153 * march_month m + 2) div 5 + (d - 1)"
  have e: "0 \<le> e" "e \<le> 365" using valid_year_day(1,2) [OF j(1), folded e_def] by (simp_all split: if_splits)
  define a where "a = Y div 4"
  define b where "b = Y div 100"
  define f where "f = Y div 400"
  have ab: "4 * a \<le> Y" "Y < 4 * a + 4" "100 * b \<le> Y" "Y < 100 * b + 100" "400 * f \<le> Y" "Y < 400 * f + 400"
    using div_bounds [of 4 Y] div_bounds [of 100 Y] div_bounds [of 400 Y] by (simp_all add: a_def b_def f_def)
  have "jd = 365 * Y + a + (if g then f - b - 32044 else - 32082) + e"
    using j(2) by (cases g) (simp_all add: jday_year_base year_base_def e_def Y_def a_def b_def f_def)
  then have "- 380000000 \<le> Y" "Y \<le> 380000000" using ab e assms(2,3) by (simp_all split: if_splits)
  moreover have "march_year y m = y + 4800 \<or> march_year y m = y + 4799" by (simp add: march_year_def)
  ultimately show "- (2 ^ 30) \<le> y" "y \<le> 2 ^ 30" unfolding Y_def by auto
qed

lemmas date_of_near = civil_of_near [where g = "CUTOVER \<le> jd" and jd = jd for jd, folded date_of_def]

lemma lc_day_civil_date:
  "cal_ok c \<Longrightarrow> - (2 ^ 50) \<le> jd \<Longrightarrow> jd \<le> 2 ^ 50 \<Longrightarrow> lc_day_civil jd (cutover c \<le> jd) = Some (date_of jd)"
  by (simp add: lc_day_civil_eq cal_ok_def date_of_def)

section \<open>Years and months\<close>

lemma year_base_step: "365 \<le> year_base g (Y + 1) - year_base g Y \<and> year_base g (Y + 1) - year_base g Y \<le> 366"
proof -
  define b where "b = Y div 100"
  define b' where "b' = (Y + 1) div 100"
  have b: "100 * b \<le> Y" "Y < 100 * b + 100" "100 * b' \<le> Y + 1" "Y + 1 < 100 * b' + 100"
    using div_bounds [of 100 Y] div_bounds [of 100 "Y + 1"] by (simp_all add: b_def b'_def)
  have f: "Y div 400 = b div 4" "(Y + 1) div 400 = b' div 4"
    using zdiv_zmult2_eq [of 4 Y 100] zdiv_zmult2_eq [of 4 "Y + 1" 100] by (simp_all add: b_def b'_def)
  have a: "4 * (Y div 4) \<le> Y" "Y < 4 * (Y div 4) + 4" "4 * ((Y + 1) div 4) \<le> Y + 1" "Y + 1 < 4 * ((Y + 1) div 4) + 4"
    using div_bounds [of 4 Y] div_bounds [of 4 "Y + 1"] by simp_all
  have f4: "4 * (b div 4) \<le> b" "b < 4 * (b div 4) + 4" "4 * (b' div 4) \<le> b'" "b' < 4 * (b' div 4) + 4"
    using div_bounds [of 4 b] div_bounds [of 4 b'] by simp_all
  consider "b' = b" | "b' = b + 1" "Y + 1 = 100 * b'" using b by linarith
  then show ?thesis
  proof cases
    case 1
    then show ?thesis using a f by (simp add: year_base_def b_def [symmetric] b'_def [symmetric])
  next
    case 2
    have "(Y + 1) div 4 = Y div 4 + 1" unfolding 2(2) using a 2(2) by simp
    moreover have "b' div 4 = b div 4 \<or> b' div 4 = b div 4 + 1" using f4 2(1) by linarith
    ultimately show ?thesis using 2 f by (auto simp: year_base_def b_def [symmetric] b'_def [symmetric])
  qed
qed

lemma jday_new_year: "jday g y 1 1 = year_base g (y + 4799) + 306"
  by (simp add: jday_year_base march_year_def march_month_def add.commute)

lemma jday_next_year: "365 \<le> jday g (y + 1) 1 1 - jday g y 1 1" "jday g (y + 1) 1 1 - jday g y 1 1 \<le> 366"
  using year_base_step [of g "y + 4799"] by (simp_all add: jday_new_year add.commute add.left_commute)

lemma jday_in_year:
  assumes "valid_date g y m d"
  shows "jday g y 1 1 \<le> jday g y m d" "jday g y m d \<le> jday g y 1 1 + 365" "jday g y m d < jday g (y + 1) 1 1"
proof -
  define e where "e = (153 * march_month m + 2) div 5 + (d - 1)"
  have e: "0 \<le> e" "e \<le> 365" "(5 * e + 2) div 153 = march_month m"
    using valid_year_day [OF assms, folded e_def] by (simp_all split: if_splits)
  have j: "jday g y m d = year_base g (march_year y m) + e" by (simp add: jday_year_base e_def)
  have q: "153 * march_month m \<le> 5 * e + 2" "5 * e + 2 < 153 * march_month m + 153"
    using div_bounds [of 153 "5 * e + 2"] e(3) by simp_all
  define B where "B = year_base g (y + 4799)"
  define B' where "B' = year_base g (y + 4800)"
  have n: "jday g (y + 1) 1 1 = B' + 306" "jday g y 1 1 = B + 306" "year_base g (march_year y m) = (if m \<le> 2 then B else B')"
    by (simp_all add: jday_new_year B_def B'_def march_year_def add.commute)
  have s: "365 \<le> B' - B" "B' - B \<le> 366"
    using year_base_step [of g "y + 4799"] by (simp_all add: B_def B'_def add.commute)
  have m: "1 \<le> m" "m \<le> 12" using assms by (simp_all add: valid_date_def)
  show "jday g y 1 1 \<le> jday g y m d" "jday g y m d \<le> jday g y 1 1 + 365" "jday g y m d < jday g (y + 1) 1 1"
    unfolding j n using e(1,2) q s m by (auto simp: march_month_def split: if_splits)
qed

text \<open>Around the change the Julian count is ten days ahead.\<close>

lemma calendar_gap:
  assumes "1 \<le> m" "m \<le> 12" "1 \<le> d" "d \<le> 31" "CUTOVER - 400 < jday True y m d" "jday True y m d < CUTOVER + 400"
  shows "jday False y m d = jday True y m d + 10"
proof -
  define Y where "Y = march_year y m"
  define e where "e = (153 * march_month m + 2) div 5 + (d - 1)"
  have e: "0 \<le> e" "e \<le> 500" using assms(1-4) by (auto simp: e_def march_month_def)
  define a where "a = Y div 4"
  define b where "b = Y div 100"
  define f where "f = Y div 400"
  have ab: "4 * a \<le> Y" "Y < 4 * a + 4" "100 * b \<le> Y" "Y < 100 * b + 100" "400 * f \<le> Y" "Y < 400 * f + 400"
    using div_bounds [of 4 Y] div_bounds [of 100 Y] div_bounds [of 400 Y] by (simp_all add: a_def b_def f_def)
  have J: "jday True y m d = 365 * Y + a + f - b - 32044 + e" "jday False y m d = 365 * Y + a - 32082 + e"
    by (simp_all add: jday_year_base year_base_def e_def Y_def a_def b_def f_def)
  have "6370 \<le> Y" "Y \<le> 6390" using ab e assms(5,6) unfolding J CUTOVER_def by linarith+
  then have "b = 63" "f = 15" using ab by linarith+
  then show ?thesis unfolding J by simp
qed

lemma first_valid: "1 \<le> m \<Longrightarrow> m \<le> 12 \<Longrightarrow> valid_date g y m 1"
proof -
  assume m: "1 \<le> m" "m \<le> 12"
  then have "m - 1 \<in> {0, 1, 2, 3, 4, 5, 6, 7, 8, 9, 10, 11}" by (intro twelve) simp_all
  then show ?thesis using m by (elim insertE) (simp_all add: valid_date_def days_in_def month_days_def)
qed

lemma new_year_1582:
  assumes "CUTOVER - 366 < jday True y 1 1" "jday True y 1 1 < CUTOVER"
  shows "jday True y 1 1 = CUTOVER - 287"
proof -
  define Y where "Y = y + 4799"
  define a where "a = Y div 4"
  define b where "b = Y div 100"
  define f where "f = Y div 400"
  have ab: "4 * a \<le> Y" "Y < 4 * a + 4" "100 * b \<le> Y" "Y < 100 * b + 100" "400 * f \<le> Y" "Y < 400 * f + 400"
    using div_bounds [of 4 Y] div_bounds [of 100 Y] div_bounds [of 400 Y] by (simp_all add: a_def b_def f_def)
  have J: "jday True y 1 1 = 365 * Y + a + f - b - 32044 + 306"
    by (simp add: jday_new_year year_base_def Y_def [symmetric] a_def b_def f_def)
  have "6370 \<le> Y" "Y \<le> 6390" using ab assms unfolding J CUTOVER_def by linarith+
  then have bf: "b = 63" "f = 15" using ab by linarith+
  have "Y = 6381" using ab assms unfolding J CUTOVER_def bf by linarith
  then show ?thesis unfolding J bf a_def CUTOVER_def by simp
qed

lemma month_1582:
  assumes "1 \<le> m" "m \<le> 12" "CUTOVER - 31 < jday True y m 1" "jday True y m 1 < CUTOVER"
  shows "jday True y m 1 = CUTOVER - 14"
proof -
  define Y where "Y = march_year y m"
  define s where "s = (153 * march_month m + 2) div 5"
  define a where "a = Y div 4"
  define b where "b = Y div 100"
  define f where "f = Y div 400"
  have ab: "4 * a \<le> Y" "Y < 4 * a + 4" "100 * b \<le> Y" "Y < 100 * b + 100" "400 * f \<le> Y" "Y < 400 * f + 400"
    using div_bounds [of 4 Y] div_bounds [of 100 Y] div_bounds [of 400 Y] by (simp_all add: a_def b_def f_def)
  have J: "jday True y m 1 = 365 * Y + a + f - b - 32044 + s"
    by (simp add: jday_year_base year_base_def s_def Y_def a_def b_def f_def)
  have s: "0 \<le> s" "s \<le> 340" using assms(1,2) by (auto simp: s_def march_month_def)
  have "6370 \<le> Y" "Y \<le> 6390" using ab s assms(3,4) unfolding J CUTOVER_def by linarith+
  then have bf: "b = 63" "f = 15" using ab by linarith+
  have "march_month m \<in> {0, 1, 2, 3, 4, 5, 6, 7, 8, 9, 10, 11}" using march_forth [OF assms(1,2)] by (intro twelve) simp_all
  then have "s = 0 \<or> s = 31 \<or> s = 61 \<or> s = 92 \<or> s = 122 \<or> s = 153 \<or> s = 184 \<or> s = 214 \<or> s = 245 \<or> s = 275 \<or> s = 306 \<or> s = 337"
    unfolding s_def by (elim insertE) simp_all
  moreover have "6381 \<le> Y" "Y \<le> 6382" using ab(1,2) s assms(3,4) unfolding J CUTOVER_def bf by linarith+
  then have "Y = 6381 \<and> a = 1595 \<or> Y = 6382 \<and> a = 1595" unfolding a_def by auto
  ultimately show ?thesis using assms(3,4) unfolding J CUTOVER_def bf by auto
qed

lemma cday_in_year:
  assumes "date_of jd = (y, m, d)"
  shows "cday y 1 1 \<le> jd \<and> jd \<le> cday y 1 1 + 365 \<and> jd < cday (y + 1) 1 1"
proof (cases "CUTOVER \<le> jd")
  case True
  then have "civil_of True jd = (y, m, d)" using assms by (simp add: date_of_def)
  note j = civil_of_jday [OF this]
  note n = jday_in_year [OF j(1), unfolded j(2)]
  have next': "cday (y + 1) 1 1 = jday True (y + 1) 1 1" using n(3) True by (simp add: cday_def)
  show ?thesis
  proof (cases "CUTOVER \<le> jday True y 1 1")
    case False
    have b: "CUTOVER - 366 < jday True y 1 1" using n True by simp
    have p: "jday True y 1 1 = CUTOVER - 287" using b False by (intro new_year_1582) simp_all
    have "jday False y 1 1 = jday True y 1 1 + 10" using p by (intro calendar_gap) simp_all
    then show ?thesis using n p True False next' by (simp add: cday_def)
  qed (use n next' in \<open>simp add: cday_def\<close>)
next
  case False
  then have "civil_of False jd = (y, m, d)" using assms by (simp add: date_of_def)
  note j = civil_of_jday [OF this]
  note n = jday_in_year [OF j(1), unfolded j(2)]
  have "jday True y 1 1 < CUTOVER" using n(1) False by (intro julian_before first_valid) simp_all
  then show ?thesis using n False by (simp add: cday_def)
qed

lemma cday_year_length: "355 \<le> cday (y + 1) 1 1 - cday y 1 1 \<and> cday (y + 1) 1 1 - cday y 1 1 \<le> 366"
proof -
  note T = jday_next_year [of True y] and F = jday_next_year [of False y]
  show ?thesis
  proof (cases "jday True y 1 1 < CUTOVER \<and> CUTOVER \<le> jday True (y + 1) 1 1")
    case True
    then have "jday False y 1 1 = jday True y 1 1 + 10" using T by (intro calendar_gap) simp_all
    then show ?thesis using T True by (simp add: cday_def)
  next
    case False
    then show ?thesis using T F by (auto simp: cday_def)
  qed
qed

lemma cday_in_month:
  assumes "date_of jd = (y, m, d)" "d \<le> 31"
  shows "cday y m 1 \<le> jd \<and> jd \<le> cday y m 1 + 30"
proof -
  have one: "jday g y m 1 = jday g y m d - (d - 1)" for g by (simp add: jday_def Let_def)
  show ?thesis
  proof (cases "CUTOVER \<le> jd")
    case True
    then have "civil_of True jd = (y, m, d)" using assms by (simp add: date_of_def)
    note j = civil_of_jday [OF this]
    have m: "1 \<le> m" "m \<le> 12" "1 \<le> d" using j(1) by (simp_all add: valid_date_def)
    show ?thesis
    proof (cases "CUTOVER \<le> jday True y m 1")
      case False
      have p: "jday True y m 1 = CUTOVER - 14"
        using m False True assms(2) one [of True] j(2) by (intro month_1582) simp_all
      have "jday False y m 1 = jday True y m 1 + 10" using p m by (intro calendar_gap) simp_all
      then show ?thesis using p one [of True] j(2) assms(2) True by (simp add: cday_def)
    qed (use one [of True] j(2) m assms(2) in \<open>simp add: cday_def\<close>)
  next
    case False
    then have "civil_of False jd = (y, m, d)" using assms by (simp add: date_of_def)
    note j = civil_of_jday [OF this]
    have m: "1 \<le> m" "m \<le> 12" "1 \<le> d" using j(1) by (simp_all add: valid_date_def)
    have "jday True y m 1 < CUTOVER" using one [of False] j(2) m False by (intro julian_before first_valid) simp_all
    then show ?thesis using one [of False] j(2) m assms(2) by (simp add: cday_def)
  qed
qed

text \<open>The week that an instant is counted in starts at most 52 weeks and six days before it.\<close>

lemma week_in_year:
  assumes d: "date_of jd = (y, m, d)" and k: "1 \<le> k" "k \<le> 7"
    and ws: "cday y 1 1 - 7 + k \<le> ws" "ws \<le> cday y 1 1 + k - 1" "7 dvd ws + r"
    and wn: "cday (y + 1) 1 1 - 7 + k \<le> wn" "wn \<le> cday (y + 1) 1 1 + k - 1" "7 dvd wn + r"
    and wp: "cday (y - 1) 1 1 - 7 + k \<le> wp" "wp \<le> cday (y - 1) 1 1 + k - 1" "7 dvd wp + r"
  defines "st \<equiv> if jd < ws then wp else if wn \<le> jd then wn else ws"
  shows "0 \<le> jd - st \<and> jd - st \<le> 370"
proof -
  note y = cday_in_year [OF d] cday_year_length [of y] cday_year_length [of "y - 1"]
  have "7 dvd (ws + r) - (wp + r)" "7 dvd (wn + r) - (ws + r)"
    by (rule dvd_diff [OF ws(3) wp(3)], rule dvd_diff [OF wn(3) ws(3)])
  then obtain i j where i: "ws - wp = 7 * i" "wn - ws = 7 * j" by (auto simp: dvd_def)
  have "i \<le> 53" "j \<le> 53" using i ws(1,2) wn(1,2) wp(1,2) y by simp_all
  then have "ws - wp \<le> 371" "wn - ws \<le> 371" by (simp_all add: i)
  note l = this
  consider "jd < ws" "st = wp" | "ws \<le> jd" "wn \<le> jd" "st = wn" | "ws \<le> jd" "jd < wn" "st = ws"
    by (force simp: st_def)
  then show ?thesis using l ws(1,2) wn(1,2) wp(1,2) y k by cases auto
qed

section \<open>The fields of an instant\<close>

lemma dow_eq: "- (2 ^ 55) \<le> day \<Longrightarrow> day \<le> 2 ^ 55 \<Longrightarrow> dow day = Some ((day + 1) mod 7 + 1)"
  by (simp add: dow_def lc_mod_eq checked_def i64_def to_unsigned_id)

lemma week_start_near:
  assumes "cal_ok c" "- (2 ^ 55) \<le> s" "s \<le> 2 ^ 55"
  obtains w where "week_start c s = Some w" "s - 6 \<le> w" "w \<le> s + 6" "s - 7 + min_days c \<le> w" "w \<le> s + min_days c - 1"
    "7 dvd w + (2 - first_day c)"
proof -
  define r where "r = ((s + 1) mod 7 + 1 - first_day c) mod 7"
  have r: "0 \<le> r" "r \<le> 6" using pos_mod_bound [of 7 "(s + 1) mod 7 + 1 - first_day c"] by (simp_all add: r_def)
  define w where "w = s - r + (if 7 - r < min_days c then 7 else 0)"
  define q where "q = (s + 1) mod 7"
  have q: "0 \<le> q" "q \<le> 6" using pos_mod_bound [of 7 "s + 1"] by (simp_all add: q_def)
  have "lc_mod (q + 1 - first_day c) 7 = Some ((q + 1 - first_day c) mod 7)"
    using assms(1) q by (intro lc_mod_eq) (simp_all add: cal_ok_def)
  then have "lc_mod ((s + 1) mod 7 + 1 - first_day c) 7 = Some r" by (simp add: q_def r_def)
  then have "week_start c s = Some w"
    using dow_eq [OF assms(2,3)] r assms(2,3)
    by (simp add: week_start_def to_unsigned_id checked_def i64_def Let_def w_def)
  moreover have "s - 6 \<le> w" "w \<le> s + 6" "s - 7 + min_days c \<le> w" "w \<le> s + min_days c - 1"
    using r assms(1) by (simp_all add: w_def cal_ok_def)
  moreover have "7 dvd w + (2 - first_day c)"
  proof -
    have "r = (s + (2 - first_day c)) mod 7"
      using mod_add_left_eq [of "s + 1" 7 "1 - first_day c"] by (simp add: r_def algebra_simps)
    then have "7 dvd s + (2 - first_day c) - r" by (simp add: mod_eq_dvd_iff [symmetric])
    then have "7 dvd s + (2 - first_day c) - r + (if 7 - r < min_days c then 7 else 0)" by simp
    moreover have "w + (2 - first_day c) = s + (2 - first_day c) - r + (if 7 - r < min_days c then 7 else 0)"
      by (simp add: w_def)
    ultimately show ?thesis by (simp only:)
  qed
  ultimately show thesis by (rule that)
qed

lemma wall_split:
  fixes ms r D :: int
  assumes "0 < D"
  shows "ms div D + (ms mod D + r) div D = (ms + r) div D" "(ms mod D + r) mod D = (ms + r) mod D"
proof -
  have "ms + r = ms mod D + r + ms div D * D" by (simp add: algebra_simps)
  then show "ms div D + (ms mod D + r) div D = (ms + r) div D" "(ms mod D + r) mod D = (ms + r) mod D"
    using assms by (simp_all only: div_mult_self1 mod_mult_self1 less_irrefl)
qed

lemma cday_year:
  assumes "1 \<le> m" "m \<le> 12" "1 \<le> d" "d \<le> 31" "- (2 ^ 30) \<le> y" "y \<le> 2 ^ 30"
  shows "\<bar>cday y m d - cday y 1 1\<bar> < 2 ^ 30"
proof -
  have near: "- 10000000 \<le> jday g y k i - 365 * (y + 4800) - (y + 4800) div 4 \<and> jday g y k i - 365 * (y + 4800) - (y + 4800) div 4 \<le> 10000000"
    if "1 \<le> k" "k \<le> 12" "1 \<le> i" "i \<le> 31" for g k i
  proof -
    define Y where "Y = march_year y k"
    define a where "a = Y div 4"
    define b where "b = Y div 100"
    define f where "f = Y div 400"
    define a' where "a' = (y + 4800) div 4"
    have s: "0 \<le> (153 * march_month k + 2) div 5" "(153 * march_month k + 2) div 5 \<le> 400"
      using that by (auto simp: march_month_def)
    have Y: "y + 4799 \<le> Y" "Y \<le> y + 4800" by (simp_all add: Y_def march_year_def)
    have ab: "4 * a \<le> Y" "Y < 4 * a + 4" "100 * b \<le> Y" "Y < 100 * b + 100" "400 * f \<le> Y" "Y < 400 * f + 400"
        "4 * a' \<le> y + 4800" "y + 4800 < 4 * a' + 4"
      using div_bounds [of 4 Y] div_bounds [of 100 Y] div_bounds [of 400 Y] div_bounds [of 4 "y + 4800"]
      by (simp_all add: a_def b_def f_def a'_def)
    have "jday g y k i = i + (153 * march_month k + 2) div 5 + 365 * Y + a + (if g then f - b - 32045 else - 32083)"
      by (simp add: jday_def Let_def Y_def a_def b_def f_def)
    then show ?thesis unfolding a'_def [symmetric] using s Y ab that assms(5,6) by (simp split: if_splits)
  qed
  define B where "B = 365 * (y + 4800) + (y + 4800) div 4"
  have n: "- 10000000 \<le> cday y k i - B \<and> cday y k i - B \<le> 10000000" if "1 \<le> k" "k \<le> 12" "1 \<le> i" "i \<le> 31" for k i
    using near [OF that, of True] near [OF that, of False] by (simp add: cday_def B_def)
  show ?thesis using n [OF assms(1-4)] n [of 1 1] by (simp add: abs_less_iff)
qed

text \<open>What the date and time fields hold at the day \<open>jd\<close> and \<open>tod\<close> milliseconds.\<close>

definition shows_instant :: "lc_calendar \<Rightarrow> int \<Rightarrow> int \<Rightarrow> (nat \<Rightarrow> int) \<Rightarrow> bool" where
  "shows_instant c jd tod f \<longleftrightarrow> (case date_of jd of (y, m, d) \<Rightarrow>
     f LC_ERA = (if buddhist c then 0 else if 1 \<le> y then 1 else 0) \<and>
     f LC_YEAR = (if buddhist c then y + 543 else if 1 \<le> y then y else 1 - y) \<and>
     f LC_MONTH = m - 1 \<and> f LC_DATE = d \<and> f LC_EXTENDED_YEAR = y \<and>
     f LC_DAY_OF_YEAR = jd - cday y 1 1 + 1 \<and> f LC_DAY_OF_WEEK = (jd + 1) mod 7 + 1 \<and>
     f LC_DAY_OF_WEEK_IN_MONTH = (d - 1) div 7 + 1 \<and>
     f LC_DOW_LOCAL = ((jd + 1) mod 7 + 1 - first_day c) mod 7 + 1 \<and>
     f LC_AM_PM = tod div 3600000 div 12 \<and> f LC_HOUR = tod div 3600000 mod 12 \<and> f LC_HOUR_OF_DAY = tod div 3600000 \<and>
     f LC_MINUTE = tod div 60000 mod 60 \<and> f LC_SECOND = tod div 1000 mod 60 \<and> f LC_MILLISECOND = tod mod 1000 \<and>
     f LC_MILLISECONDS_IN_DAY = tod \<and> f LC_IS_LEAP_MONTH = 0 \<and>
     1 \<le> f LC_WEEK_OF_YEAR \<and> f LC_WEEK_OF_YEAR \<le> 53 \<and> 0 \<le> f LC_WEEK_OF_MONTH \<and> f LC_WEEK_OF_MONTH \<le> 6)"

definition with_fields :: "lc_calendar \<Rightarrow> (nat \<Rightarrow> int) \<Rightarrow> lc_calendar" where
  "with_fields c f = c\<lparr>cal_fields := f, cal_stamps := (\<lambda>_. 1), fields_valid := True, virtual_fields := False\<rparr>"

lemma compute_fields_ok:
  assumes "cal_ok c" "- (2 ^ 62) \<le> millis c" "millis c \<le> 2 ^ 62"
    and "offsets zone (millis c) = Some (raw, dst)" "i32 raw" "i32 dst"
  defines "W \<equiv> millis c + raw + dst"
  shows "\<exists>f. compute_fields zone c = Some (LC_OK, with_fields c f) \<and>
    shows_instant c (W div LC_DAY + LC_EPOCH_JD) (W mod LC_DAY) f"
proof -
  define tod where "tod = millis c mod LC_DAY"
  define jd where "jd = W div LC_DAY + LC_EPOCH_JD"
  define wall where "wall = W mod LC_DAY"
  have raw: "- (2 ^ 31) \<le> raw" "raw < 2 ^ 31" "- (2 ^ 31) \<le> dst" "dst < 2 ^ 31" using assms(5,6) by (simp_all add: i32_def)
  have t: "0 \<le> tod" "tod < LC_DAY" "0 \<le> wall" "wall < LC_DAY" by (simp_all add: tod_def wall_def)
  have W: "- (2 ^ 63) \<le> W" "W \<le> 2 ^ 63" using assms(2,3) raw by (simp_all add: W_def)
  have jd: "- (2 ^ 37) \<le> jd" "jd \<le> 2 ^ 37" using div_bounds [of LC_DAY W] W by (simp_all add: jd_def)
  obtain y m d where date: "date_of jd = (y, m, d)" by (cases "date_of jd") auto
  note near = date_of_near [OF date jd]
  have floors: "lc_floor (millis c) LC_DAY + lc_floor (tod + raw + dst) LC_DAY + LC_EPOCH_JD = jd"
    using wall_split(1) [of LC_DAY "millis c" "raw + dst"] by (simp add: lc_floor_div jd_def W_def tod_def add.assoc)
  have mods: "lc_mod (millis c) LC_DAY = Some tod" "lc_mod (tod + raw + dst) LC_DAY = Some wall"
    using assms(2,3) t raw wall_split(2) [of LC_DAY "millis c" "raw + dst"]
    by (simp_all add: lc_mod_eq tod_def wall_def W_def add.assoc)
  have dc: "lc_day_civil jd (cutover c \<le> jd) = Some (y, m, d)"
    using lc_day_civil_date [OF assms(1), of jd] jd date by simp
  have cv: "civil c y' k i = Some (cday (y' + k div 12) (k mod 12 + 1) i)"
    if "- (2 ^ 31) \<le> y'" "y' \<le> 2 ^ 31" "0 \<le> k" "k \<le> 12" "i = 1" for y' k i
    using that by (intro civil_eq [OF assms(1)]) simp_all
  have cd: "- (2 ^ 53) \<le> cday y' k 1" "cday y' k 1 \<le> 2 ^ 53"
    if "- (2 ^ 31) \<le> y'" "y' \<le> 2 ^ 31" "1 \<le> k" "k \<le> 12" for y' k
    using jday_near [of k y' 1 True] jday_near [of k y' 1 False] that by (simp_all add: cday_def)
  define jan where "jan = cday y 1 1"
  define next' where "next' = cday (y + 1) 1 1"
  define prev where "prev = cday (y - 1) 1 1"
  define first where "first = cday y m 1"
  have cvs: "civil c y 0 1 = Some jan" "civil c (y + 1) 0 1 = Some next'" "civil c (y - 1) 0 1 = Some prev"
      "civil c y (m - 1) 1 = Some first"
    using near by (simp_all add: cv jan_def next'_def prev_def first_def)
  let ?k = "min_days c" and ?r = "2 - first_day c"
  obtain ws where ws: "week_start c jan = Some ws" "jan - 6 \<le> ws" "ws \<le> jan + 6" "jan - 7 + ?k \<le> ws" "ws \<le> jan + ?k - 1" "7 dvd ws + ?r"
    using week_start_near [OF assms(1), of jan] cd [of y 1] near by (auto simp: jan_def)
  obtain wn where wn: "week_start c next' = Some wn" "next' - 6 \<le> wn" "wn \<le> next' + 6"
      "next' - 7 + ?k \<le> wn" "wn \<le> next' + ?k - 1" "7 dvd wn + ?r"
    using week_start_near [OF assms(1), of next'] cd [of "y + 1" 1] near by (auto simp: next'_def)
  obtain wp where wp: "week_start c prev = Some wp" "prev - 6 \<le> wp" "wp \<le> prev + 6"
      "prev - 7 + ?k \<le> wp" "wp \<le> prev + ?k - 1" "7 dvd wp + ?r"
    using week_start_near [OF assms(1), of prev] cd [of "y - 1" 1] near by (auto simp: prev_def)
  obtain wf where wf: "week_start c first = Some wf" "first - 6 \<le> wf" "wf \<le> first + 6"
    using week_start_near [OF assms(1), of first] cd [of y m] near by (auto simp: first_def)
  define ys where "ys = (if jd < ws then (y - 1, wp) else if wn \<le> jd then (y + 1, wn) else (y, ws))"
  have year: "(if jd < ws then civil c (y - 1) 0 1 \<bind> (\<lambda>j. week_start c j \<bind> (\<lambda>s. Some (y - 1, s)))
      else week_start c next' \<bind> (\<lambda>s. Some (if s \<le> jd then (y + 1, s) else (y, ws)))) = Some ys"
    by (simp add: ys_def cvs wn wp)
  define w where "w = (jd + 1) mod 7 + 1"
  have w: "dow jd = Some w" "1 \<le> w" "w \<le> 7" using dow_eq [of jd] jd pos_mod_bound [of 7 "jd + 1"] by (simp_all add: w_def)
  define loc where "loc = (w - first_day c) mod 7"
  have loc: "lc_mod (w - first_day c) 7 = Some loc"
    unfolding loc_def using assms(1) w by (intro lc_mod_eq) (simp_all add: cal_ok_def)
  have um: "to_unsigned (m - 1) = m - 1" using near by (simp add: to_unsigned_id)
  have cds: "- (2 ^ 53) \<le> jan" "jan \<le> 2 ^ 53" "- (2 ^ 53) \<le> next'" "next' \<le> 2 ^ 53" "- (2 ^ 53) \<le> prev" "prev \<le> 2 ^ 53"
      "- (2 ^ 53) \<le> first" "first \<le> 2 ^ 53"
    unfolding jan_def next'_def prev_def first_def using near by (intro cd; simp)+
  have st: "- (2 ^ 54) \<le> snd ys" "snd ys \<le> 2 ^ 54" using ws wn wp cds by (simp_all add: ys_def)
  have ck: "checked [tod + raw, tod + raw + dst, jd - LC_EPOCH_JD, jd, y + 1, y - 1, y + 543, 1 - y,
      jd - jan + 1, jd - snd ys, jd - wf] r = Some r" for r :: "lc_status \<times> lc_calendar"
    using t raw jd near cds st wf by (intro checked_ok) (simp add: i64_def)
  let ?f = "field_values c jd wall raw dst (y, m, d) jan ys wf w loc"
  have "compute_fields zone c = Some (LC_OK, with_fields c ?f)"
    using ck unfolding compute_fields_def assms(4) Let_def
    by (cases ys) (simp only: option.case prod.case mods Option.bind.simps floors dc cvs(1,2,4) um ws(1) wf(1) year w(1) loc
        with_fields_def snd_conv)
  moreover have "shows_instant c jd wall ?f"
  proof -
    define h where "h = wall div 3600000"
    define mi where "mi = wall div 60000"
    define se where "se = wall div 1000"
    have h: "0 \<le> h" "h < 24" "0 \<le> mi" "0 \<le> se" using t by (simp_all add: h_def mi_def se_def)
    have s: "wall sdiv 3600000 = h" "wall sdiv 60000 smod 60 = mi mod 60" "wall sdiv 1000 smod 60 = se mod 60"
        "wall smod 1000 = wall mod 1000" "h smod 12 = h mod 12" "h sdiv 12 = h div 12" "(d - 1) sdiv 7 = (d - 1) div 7"
      using t h near by (simp_all add: sdiv_nonneg smod_nonneg h_def mi_def se_def)
    have dd: "jd - jan = cday y m d - cday y 1 1" by (simp add: cday_date_of [OF date] jan_def)
    have "- (2 ^ 30) < jd - jan" "jd - jan < 2 ^ 30" using cday_year [of m d y] near unfolding dd by (simp_all add: abs_less_iff)
    moreover have "0 \<le> loc" "loc \<le> 6" using pos_mod_bound [of 7 "w - first_day c"] by (simp_all add: loc_def)
    ultimately have i: "to_i32 (if buddhist c then y + 543 else if 1 \<le> y then y else 1 - y) =
          (if buddhist c then y + 543 else if 1 \<le> y then y else 1 - y)"
        "to_i32 m = m" "to_i32 d = d" "to_i32 y = y" "to_i32 (jd - jan + 1) = jd - jan + 1" "to_i32 w = w" "to_i32 loc = loc"
        "to_i32 wall = wall" "to_i32 h = h"
      using near w t h by (simp_all add: to_i32_id)
    have i2: "to_i32 (mi mod 60) = mi mod 60" "to_i32 (se mod 60) = se mod 60" "to_i32 (wall mod 1000) = wall mod 1000"
      using pos_mod_bound [of 60 mi] pos_mod_bound [of 60 se] pos_mod_bound [of 1000 wall] by (simp_all add: to_i32_id)
    obtain wy st' where ys: "ys = (wy, st')" by (cases ys)
    have "1 \<le> ?k" "?k \<le> 7" using assms(1) by (simp_all add: cal_ok_def)
    from week_in_year [OF date this ws(4-6) [unfolded jan_def] wn(4-6) [unfolded next'_def] wp(4-6) [unfolded prev_def]]
    have "0 \<le> jd - st'" "jd - st' \<le> 370" using ys by (auto simp: ys_def split: if_splits)
    then have wk: "1 \<le> to_i32 ((jd - st') sdiv 7 + 1)" "to_i32 ((jd - st') sdiv 7 + 1) \<le> 53"
      by (simp_all add: sdiv_nonneg to_i32_id)
    have "- 6 \<le> jd - wf" "jd - wf \<le> 36" using wf cday_in_month [OF date near(6)] by (simp_all add: first_def)
    then have wm: "0 \<le> to_i32 (lc_floor (jd - wf) 7 + 1)" "to_i32 (lc_floor (jd - wf) 7 + 1) \<le> 6"
      by (simp_all add: lc_floor_div to_i32_id)
    show ?thesis
      unfolding shows_instant_def date prod.case field_values_def Let_def s i i2 ys h_def [symmetric] mi_def [symmetric]
        se_def [symmetric] jan_def [symmetric] w_def [symmetric] loc_def [symmetric]
      using wk wm by simp
  qed
  ultimately show ?thesis unfolding jd_def wall_def by blast
qed


section \<open>The instant of the fields\<close>

text \<open>The fields after one of them was set on a calendar that showed an instant.\<close>

definition one_set :: "nat \<Rightarrow> lc_calendar \<Rightarrow> bool" where
  "one_set k c \<longleftrightarrow> cal_stamps c = (\<lambda>_. 1)(k := 2)"

definition plain_fields :: "nat list" where
  "plain_fields = [LC_ERA, LC_YEAR, LC_MONTH, LC_DATE, LC_DAY_OF_YEAR, LC_AM_PM, LC_HOUR, LC_HOUR_OF_DAY, LC_MINUTE,
     LC_SECOND, LC_MILLISECOND]"

lemma one_two: "(1 :: u32) < 2" "(1 :: u32) \<le> 2" "\<not> (2 :: u32) < 1" "\<not> (2 :: u32) \<le> 1"
  by (simp_all add: word_less_nat_alt word_le_nat_alt)

lemma plain_cases:
  assumes "k \<in> set plain_fields"
    and "P 0" "P 1" "P 2" "P 5" "P 6" "P 9" "P 10" "P 11" "P 12" "P 13" "P (14 :: nat)"
  shows "P k"
  using assms by (auto simp: plain_fields_def)

lemma resolve_date_one:
  assumes "one_set k c" "k \<in> set plain_fields"
  shows "resolve_date c = (if k = LC_DAY_OF_YEAR then LC_DAY_OF_YEAR else LC_DATE)"
proof -
  have "\<forall>c. one_set k c \<longrightarrow> resolve_date c = (if k = LC_DAY_OF_YEAR then LC_DAY_OF_YEAR else LC_DATE)"
    using assms(2)
    by (rule plain_cases) (simp_all add: one_set_def resolve_date_def date_rows_def newer_def Let_def)
  then show ?thesis using assms(1) by blast
qed

lemma newest_one: "one_set k c \<Longrightarrow> k \<in> set plain_fields \<Longrightarrow> cal_stamps c j = 1 \<or> cal_stamps c j = 2"
  by (simp add: one_set_def)

lemma resolved_day_one:
  assumes "cal_ok c" "lenient c" "one_set k c" "k \<in> set plain_fields" "shows_instant c jd tod (cal_fields c)"
    and "- (2 ^ 37) \<le> jd" "jd \<le> 2 ^ 37"
  shows "resolved_day c = Some (Some jd)"
proof -
  obtain y m d where date: "date_of jd = (y, m, d)" by (cases "date_of jd") auto
  note near = date_of_near [OF date assms(6,7)]
  have st: "cal_stamps c j \<noteq> 0" for j using assms(3) by (simp add: one_set_def)
  have late: "\<not> 2 \<le> cal_stamps c j" if "j \<notin> set plain_fields" for j
    using assms(3,4) that by (auto simp: one_set_def one_two)
  have ext: "\<not> cal_stamps c LC_YEAR < cal_stamps c LC_EXTENDED_YEAR"
    using assms(3,4) by (auto simp: one_set_def one_two plain_fields_def)
  have v: "lc_value c j x = cal_fields c j" for j x using st by (simp add: lc_value_def)
  have best: "resolve_date c \<noteq> LC_WEEK_OF_YEAR" using resolve_date_one [OF assms(3,4)] by simp
  have year: "resolved_year c (resolve_date c) = y"
    using assms(5) best ext date by (auto simp: resolved_year_def v shows_instant_def Let_def)
  have f: "cal_fields c LC_MONTH = m - 1" "cal_fields c LC_DATE = d" "cal_fields c LC_DAY_OF_YEAR = jd - cday y 1 1 + 1"
    using assms(5) date by (simp_all add: shows_instant_def)
  have c1: "civil c y (m - 1) d = Some jd"
    using civil_eq [OF assms(1), of y "m - 1" d] near cday_date_of [OF date] by (simp add: div_pos_pos_trivial)
  have c2: "civil c y 0 1 = Some (cday y 1 1)" using civil_eq [OF assms(1), of y 0 1] near by simp
  have "\<bar>jd - cday y 1 1\<bar> < 2 ^ 30" using cday_year [of m d y] near cday_date_of [OF date] by simp
  then have "checked [jd + 1, jd] r = Some r" for r :: "int option"
    using assms(6,7) by (simp add: checked_def i64_def)
  then show ?thesis
    using late [of LC_JULIAN_DAY] assms(2) unfolding resolved_day_def Let_def year v f
    by (simp add: resolve_date_one [OF assms(3,4)] c1 c2 plain_fields_def)
qed

lemma hms_sum: "0 \<le> t \<Longrightarrow> ((t div 3600000 * 60 + t div 60000 mod 60) * 60 + t div 1000 mod 60) * 1000 + t mod 1000 = t" for t :: int
proof -
  have "t div 60000 = t div 1000 div 60" "t div 3600000 = t div 1000 div 60 div 60"
    using zdiv_zmult2_eq [of 60 t 1000] zdiv_zmult2_eq [of 60 t 60000] by simp_all
  then show ?thesis by (simp add: mult.commute div_mult_mod_eq)
qed

lemma time_of_day_one:
  assumes "one_set k c" "k \<in> set plain_fields" "shows_instant c jd tod (cal_fields c)" "0 \<le> tod"
  shows "time_of_day c = tod"
proof -
  obtain y m d where date: "date_of jd = (y, m, d)" by (cases "date_of jd") auto
  have v: "lc_value c j x = cal_fields c j" for j x using assms(1) by (simp add: lc_value_def one_set_def)
  have late: "\<not> 2 \<le> cal_stamps c LC_MILLISECONDS_IN_DAY"
    using assms(1,2) by (auto simp: one_set_def one_two plain_fields_def)
  have f: "cal_fields c LC_AM_PM = tod div 3600000 div 12" "cal_fields c LC_HOUR = tod div 3600000 mod 12"
      "cal_fields c LC_HOUR_OF_DAY = tod div 3600000" "cal_fields c LC_MINUTE = tod div 60000 mod 60"
      "cal_fields c LC_SECOND = tod div 1000 mod 60" "cal_fields c LC_MILLISECOND = tod mod 1000"
    using assms(3) date unfolding shows_instant_def by simp_all
  have hour: "cal_fields c LC_HOUR + 12 * cal_fields c LC_AM_PM = cal_fields c LC_HOUR_OF_DAY"
    unfolding f(1-3) by (simp add: mult.commute)
  have "time_of_day c = ((cal_fields c LC_HOUR_OF_DAY * 60 + cal_fields c LC_MINUTE) * 60 + cal_fields c LC_SECOND) * 1000 +
      cal_fields c LC_MILLISECOND"
    using late unfolding time_of_day_def v Let_def hour by simp
  also have "\<dots> = tod" unfolding f by (rule hms_sum [OF assms(4)])
  finally show ?thesis .
qed

lemma compute_time_one:
  assumes "cal_ok c" "lenient c" "one_set k c" "k \<in> set plain_fields" "shows_instant c jd tod (cal_fields c)"
    and "0 \<le> tod" "tod < LC_DAY" "- (2 ^ 62) - 2 ^ 33 \<le> (jd - LC_EPOCH_JD) * LC_DAY + tod"
    and "(jd - LC_EPOCH_JD) * LC_DAY + tod \<le> 2 ^ 62 + 2 ^ 33"
    and "wall_instant zone c ((jd - LC_EPOCH_JD) * LC_DAY + tod) = Inr ms" "icu c \<longrightarrow> LC_MIN_MS \<le> ms \<and> ms \<le> LC_MAX_MS"
  shows "compute_time zone c = Some (LC_OK, c\<lparr>millis := ms, time_valid := True, virtual_fields := False\<rparr>)"
proof -
  have jd: "- (2 ^ 37) \<le> jd" "jd \<le> 2 ^ 37" using assms(6-9) by simp_all
  note day = resolved_day_one [OF assms(1-5) jd] and td = time_of_day_one [OF assms(3-6)]
  have fl: "lc_floor tod LC_DAY = 0" "lc_mod tod LC_DAY = Some tod"
    using assms(6,7) by (simp_all add: lc_floor_div lc_mod_eq)
  have late: "\<not> 2 \<le> cal_stamps c LC_ZONE_OFFSET" "\<not> 2 \<le> cal_stamps c LC_DST_OFFSET"
    using assms(3,4) by (auto simp: one_set_def one_two plain_fields_def)
  have ck: "checked [jd, jd - LC_EPOCH_JD] r = Some r" for r :: int using jd by (simp add: checked_def i64_def)
  have ck2: "checked [(jd - LC_EPOCH_JD) * LC_DAY, (jd - LC_EPOCH_JD) * LC_DAY + tod] r = Some r" for r :: int
    using assms(6-9) by (simp add: checked_def i64_def)
  have q: "I64_MIN sdiv LC_DAY = - 106751991167" "I64_MAX sdiv LC_DAY = 106751991167" "I64_MAX smod LC_DAY = 25975807"
    by (simp_all add: signed_divide_int_def signed_modulo_int_def sgn_if)
  have lim: "\<not> (jd - LC_EPOCH_JD < - 106751991167 \<or> 106751991167 < jd - LC_EPOCH_JD \<or>
      jd - LC_EPOCH_JD = 106751991167 \<and> 25975807 < tod)"
    using assms(6-9) by simp
  show ?thesis
    unfolding compute_time_def day Let_def td fl q
    using assms(2,10,11) late ck ck2 lim by auto
qed


section \<open>Stamps\<close>

definition stamps_ok :: "lc_calendar \<Rightarrow> bool" where
  "stamps_ok c \<longleftrightarrow> 2 \<le> next_stamp c \<and> (\<forall>i < LC_COUNT. cal_stamps c i < next_stamp c)"

definition older :: "(nat \<Rightarrow> u32) \<Rightarrow> nat \<Rightarrow> nat list" where
  "older s i = filter (\<lambda>j. 2 \<le> s j \<and> s j < s i) [0 ..< LC_COUNT]"

lemma older_length: "length (older s i) \<le> LC_COUNT"
  unfolding older_def by (rule order_trans [OF length_filter_le]) simp

lemma older_mono:
  assumes "i < LC_COUNT" "2 \<le> s i" "s i < s k"
  shows "length (older s i) < length (older s k)"
proof -
  have set: "set (older s x) = {j. j < LC_COUNT \<and> 2 \<le> s j \<and> s j < s x}" for x by (auto simp: older_def)
  have "set (older s i) \<subset> set (older s k)" using assms unfolding set by auto
  then have "card (set (older s i)) < card (set (older s k))" by (intro psubset_card_mono) simp
  moreover have "distinct (older s x)" for x by (simp add: older_def)
  ultimately show ?thesis by (simp only: distinct_card)
qed

lemma unat_rank: "n \<le> 23 \<Longrightarrow> unat (2 + of_nat n :: u32) = 2 + n"
  by (simp add: unat_word_ariths unat_of_nat)

lemma restamp_rank: "i < LC_COUNT \<Longrightarrow> 2 \<le> s i \<Longrightarrow> unat (restamp s i) = 2 + length (older s i)"
  unfolding restamp_def using older_length [of s i] by (simp add: unat_rank flip: older_def)

lemma restamp_low: "\<not> 2 \<le> s i \<Longrightarrow> restamp s i = s i"
  by (simp add: restamp_def)

lemma restamp_order:
  assumes "i < LC_COUNT" "j < LC_COUNT"
  shows "restamp s i < restamp s j \<longleftrightarrow> s i < s j"
proof (cases "2 \<le> s i")
  case i: True
  show ?thesis
  proof (cases "2 \<le> s j")
    case True
    have e: "s i = s j \<Longrightarrow> older s i = older s j" by (simp add: older_def)
    show ?thesis
      using older_mono [of i s j, OF assms(1) i] older_mono [of j s i, OF assms(2) True] e
        restamp_rank [OF assms(1), of s, OF i] restamp_rank [OF assms(2), of s, OF True]
      by (auto simp: word_less_nat_alt linorder_neq_iff) (metis linorder_neqE_nat nat_neq_iff word_unat_eq_iff)
  next
    case False
    then have "s j < s i" "restamp s j = s j" using i by (simp_all add: restamp_low word_le_nat_alt word_less_nat_alt)
    then show ?thesis using restamp_rank [OF assms(1), of s, OF i] False by (simp add: word_less_nat_alt word_le_nat_alt)
  qed
next
  case False
  show ?thesis
  proof (cases "2 \<le> s j")
    case True
    then show ?thesis using False restamp_low [of s i] restamp_rank [OF assms(2), of s, OF True]
      by (simp add: word_less_nat_alt word_le_nat_alt)
  next
    case j: False
    then show ?thesis using False by (simp add: restamp_low)
  qed
qed


lemma rank_room: "(2 :: u32) \<le> of_nat LC_COUNT + 2"
  by code_simp

lemma restamp_below: "i < LC_COUNT \<Longrightarrow> restamp s i < of_nat LC_COUNT + 2"
proof (cases "2 \<le> s i")
  case True
  assume i: "i < LC_COUNT"
  have "set (older s i) \<subseteq> {..< LC_COUNT} - {i}" by (auto simp: older_def)
  then have "card (set (older s i)) \<le> card ({..< LC_COUNT} - {i})" by (intro card_mono) simp_all
  moreover have "distinct (older s i)" by (simp add: older_def)
  ultimately have "length (older s i) \<le> 22" using i by (simp add: distinct_card)
  then show ?thesis using restamp_rank [of i s, OF i True] by (simp add: word_less_nat_alt)
next
  case False
  then show ?thesis by (simp add: restamp_low word_less_nat_alt word_le_nat_alt)
qed

section \<open>Properties\<close>

text \<open>
  C28. Day numbers and dates are inverse.  In the Julian and in the Gregorian calendar every day
  number has a valid date (month 1 to 12, day within the month, leap years respected) from
  which \<open>lc_civil_day\<close> computes it again, and every valid date is what \<open>lc_day_civil\<close> computes
  from its day number; no intermediate value leaves 64 bits.
\<close>

theorem lc_civil_roundtrip:
  assumes "- (2 ^ 37) \<le> jd" "jd \<le> 2 ^ 37" "valid_date g y m d" "- (2 ^ 35) \<le> y" "y \<le> 2 ^ 35"
  shows "(\<exists>y' m' d'. lc_day_civil jd g = Some (y', m', d') \<and> valid_date g y' m' d' \<and> lc_civil_day y' m' d' g = Some jd) \<and>
    (\<exists>n. lc_civil_day y m d g = Some n \<and> lc_day_civil n g = Some (y, m, d))"
proof
  obtain y' m' d' where c: "civil_of g jd = (y', m', d')" by (cases "civil_of g jd") auto
  note near = civil_of_near [OF c assms(1,2)] and j = civil_of_jday [OF c]
  have "lc_civil_day y' m' d' g = Some jd" using near j(2) by (simp add: lc_civil_day_eq)
  moreover have "lc_day_civil jd g = Some (y', m', d')" using assms(1,2) c by (simp add: lc_day_civil_eq)
  ultimately show "\<exists>y' m' d'. lc_day_civil jd g = Some (y', m', d') \<and> valid_date g y' m' d' \<and> lc_civil_day y' m' d' g = Some jd"
    using j(1) by blast
  have m: "1 \<le> m" "m \<le> 12" "1 \<le> d" "d \<le> 31" using assms(3) days_in_le [of m g y] by (simp_all add: valid_date_def)
  have "- (2 ^ 50) \<le> jday g y m d" "jday g y m d \<le> 2 ^ 50"
    using jday_small [OF m assms(4,5), of g] by simp_all
  then have "lc_day_civil (jday g y m d) g = Some (y, m, d)" by (simp add: lc_day_civil_eq jday_civil_of [OF assms(3)])
  moreover have "lc_civil_day y m d g = Some (jday g y m d)" using m assms(4,5) by (simp add: lc_civil_day_eq)
  ultimately show "\<exists>n. lc_civil_day y m d g = Some n \<and> lc_day_civil n g = Some (y, m, d)" by blast
qed

theorem lc_civil_roundtrip_witness:
  "(\<exists>y m d. lc_day_civil 2299161 True = Some (y, m, d) \<and> lc_civil_day y m d True = Some 2299161) \<and>
   (\<exists>n. lc_civil_day 2000 2 29 True = Some n \<and> lc_day_civil n True = Some (2000, 2, 29))"
  using lc_civil_roundtrip [of 2299161 True 2000 2 29]
  by (auto simp: valid_date_def days_in_def leap_def month_days_def)


text \<open>The calendar of the United States locale.\<close>

definition us_calendar :: lc_calendar where "us_calendar = lc_init False False 1 1"


text \<open>
  A set field outranks all others, for ever.  Whatever the counter of the stamps has reached,
  \<open>lc_set\<close> gives the field a stamp above all other fields, keeps the order in which the other
  fields were set and the distinction between unset, computed and set fields, and leaves room
  for the next stamp: the renumbering at the end of the 32-bit range loses nothing.
\<close>

theorem lc_set_order:
  assumes "stamps_ok c" "\<not> virtual_fields c" "field_ok c (int k)"
  shows "\<exists>c'. lc_set zone c (int k) v = Some (LC_OK, c') \<and> stamps_ok c' \<and> cal_fields c' = (cal_fields c)(k := v) \<and>
    (\<forall>i < LC_COUNT. i \<noteq> k \<longrightarrow> cal_stamps c' i < cal_stamps c' k \<and>
      (2 \<le> cal_stamps c' i \<longleftrightarrow> 2 \<le> cal_stamps c i) \<and> (\<not> 2 \<le> cal_stamps c i \<longrightarrow> cal_stamps c' i = cal_stamps c i) \<and>
      (\<forall>j < LC_COUNT. j \<noteq> k \<longrightarrow> (cal_stamps c' i < cal_stamps c' j \<longleftrightarrow> cal_stamps c i < cal_stamps c j)))"
proof -
  define s where "s = (if next_stamp c = 0xffffffff then restamp (cal_stamps c) else cal_stamps c)"
  define n where "n = (if next_stamp c = 0xffffffff then of_nat LC_COUNT + 2 else next_stamp c)"
  define c' where "c' = c\<lparr>cal_fields := (cal_fields c)(k := v), cal_stamps := s(k := n), next_stamp := n + 1,
      time_valid := False, fields_valid := False, virtual_fields := False\<rparr>"
  have set: "lc_set zone c (int k) v = Some (LC_OK, c')"
    using assms(2,3) by (simp add: lc_set_def c'_def s_def n_def Let_def)
  have "n \<noteq> 0xffffffff" by (auto simp: n_def)
  then have "n + 1 \<noteq> 0" by (auto simp: add_eq_0_iff2)
  then have n: "2 \<le> n" "unat (n + 1) = unat n + 1"
    using assms(1) unatSuc [of n] rank_room by (auto simp: n_def stamps_ok_def add.commute)
  have below: "s i < n" if "i < LC_COUNT" for i
    using assms(1) restamp_below [OF that] that by (simp add: s_def n_def stamps_ok_def)
  have "stamps_ok c'"
    using n below by (auto simp: stamps_ok_def c'_def word_less_nat_alt word_le_nat_alt less_Suc_eq)
  moreover have "2 \<le> s i \<longleftrightarrow> 2 \<le> cal_stamps c i" "\<not> 2 \<le> cal_stamps c i \<Longrightarrow> s i = cal_stamps c i" if "i < LC_COUNT" for i
    using restamp_rank [OF that, of "cal_stamps c"] restamp_low [of "cal_stamps c" i]
    by (cases "2 \<le> cal_stamps c i"; simp add: s_def word_le_nat_alt)+
  moreover have "s i < s j \<longleftrightarrow> cal_stamps c i < cal_stamps c j" if "i < LC_COUNT" "j < LC_COUNT" for i j
    using restamp_order [OF that] by (simp add: s_def)
  ultimately show ?thesis using set below by (intro exI [of _ c']) (auto simp: c'_def)
qed

theorem lc_set_order_witness:
  "\<exists>c'. lc_set None (us_calendar\<lparr>next_stamp := 0xffffffff, cal_stamps := (\<lambda>_. 0)(LC_DATE := 7, LC_MONTH := 0xfffffffe)\<rparr>)
      (int LC_YEAR) 1999 = Some (LC_OK, c') \<and> cal_stamps c' LC_DATE < cal_stamps c' LC_MONTH \<and>
      cal_stamps c' LC_MONTH < cal_stamps c' LC_YEAR"
proof -
  let ?c = "us_calendar\<lparr>next_stamp := 0xffffffff, cal_stamps := (\<lambda>_. 0)(LC_DATE := 7, LC_MONTH := 0xfffffffe)\<rparr>"
  have "stamps_ok ?c" "\<not> virtual_fields ?c" "field_ok ?c (int LC_YEAR)"
    by (simp_all add: stamps_ok_def us_calendar_def lc_init_def field_ok_def)
  from lc_set_order [OF this, of None 1999] obtain c' where
    c': "lc_set None ?c (int LC_YEAR) 1999 = Some (LC_OK, c')"
      "\<forall>i < LC_COUNT. i \<noteq> LC_YEAR \<longrightarrow> cal_stamps c' i < cal_stamps c' LC_YEAR \<and>
        (\<forall>j < LC_COUNT. j \<noteq> LC_YEAR \<longrightarrow> (cal_stamps c' i < cal_stamps c' j \<longleftrightarrow> cal_stamps ?c i < cal_stamps ?c j))"
    by auto
  have "cal_stamps c' LC_DATE < cal_stamps c' LC_MONTH \<longleftrightarrow> cal_stamps ?c LC_DATE < cal_stamps ?c LC_MONTH"
    "cal_stamps c' LC_MONTH < cal_stamps c' LC_YEAR"
    using c'(2) by simp_all
  then show ?thesis using c'(1) by simp
qed

text \<open>
  Adding days adds days.  On a calendar without a zone adapter whose time was set, adding to
  the date moves the instant by that many times 24 hours, whatever months, leap years and
  changes of calendar lie between; but within the last day of the 64-bit range the addition
  that \<open>set_wall_day\<close> makes overflows, although the sum it stands for exceeds the range.
\<close>

theorem lc_add_days:
  assumes "cal_ok c" "\<not> icu c" "- (2 ^ 61) \<le> ms" "ms \<le> 2 ^ 61" "i32 n" "field \<in> {LC_DATE, LC_DAY_OF_YEAR, LC_DAY_OF_WEEK}"
  shows "(\<exists>c'. lc_add None (snd (lc_set_millis c ms)) (int field) n = Some (LC_OK, c') \<and> millis c' = ms + n * LC_DAY) \<and>
    lc_add None (snd (lc_set_millis us_calendar (2 ^ 63 - LC_DAY))) (int LC_DATE) 1 = None"
proof
  define c0 where "c0 = snd (lc_set_millis c ms)"
  have c0: "c0 = c\<lparr>millis := ms, time_valid := True, fields_valid := False, virtual_fields := True, next_stamp := 2,
      cal_fields := (\<lambda>_. 0), cal_stamps := (\<lambda>_. 0)\<rparr>"
    using assms(2) by (auto simp: c0_def lc_set_millis_def Let_def)
  define jd where "jd = ms div LC_DAY + LC_EPOCH_JD"
  define tod where "tod = ms mod LC_DAY"
  have ok0: "cal_ok c0" using assms(1) by (simp add: c0 cal_ok_def)
  obtain f where f: "compute_fields None c0 = Some (LC_OK, with_fields c0 f)" "shows_instant c0 jd tod f"
    using compute_fields_ok [OF ok0, of None 0 0] assms(3,4) by (auto simp: c0 jd_def tod_def offsets_def i32_def)
  define c1 where "c1 = with_fields c0 f"
  have c1: "cal_ok c1" "cal_fields c1 = f" "\<not> icu c1" using ok0 assms(2) by (simp_all add: c1_def with_fields_def cal_ok_def c0)
  have comp: "complete None c0 = Some (LC_OK, c1)"
    using f(1) by (simp add: complete_def lc_get_millis_def c0 c1_def with_fields_def)
  obtain y m d where date: "date_of jd = (y, m, d)" by (cases "date_of jd") auto
  have fs: "f LC_EXTENDED_YEAR = y" "f LC_MONTH = m - 1" "f LC_DATE = d" "f LC_MILLISECONDS_IN_DAY = tod"
    using f(2) date by (simp_all add: shows_instant_def)
  have t: "0 \<le> tod" "tod < LC_DAY" "ms = (jd - LC_EPOCH_JD) * LC_DAY + tod"
    by (simp_all add: tod_def jd_def)
  have jd: "- (2 ^ 36) \<le> jd" "jd \<le> 2 ^ 36" using t assms(3,4) by simp_all
  have jd37: "- (2 ^ 37) \<le> jd" "jd \<le> 2 ^ 37" using jd by simp_all
  note near = date_of_near [OF date jd37]
  have cv: "civil c1 y (m - 1) d = Some jd"
    using civil_eq [OF c1(1), of y "m - 1" d] near cday_date_of [OF date] by (simp add: div_pos_pos_trivial)
  have n: "- (2 ^ 31) \<le> n" "n < 2 ^ 31" using assms(5) by (simp_all add: i32_def)
  have q: "I64_MIN sdiv LC_DAY = - 106751991167" "I64_MAX sdiv LC_DAY = 106751991167"
    by (simp_all add: signed_divide_int_def sgn_if)
  have wall: "(jd + n - LC_EPOCH_JD) * LC_DAY + tod = ms + n * LC_DAY" unfolding t(3) by (simp add: algebra_simps)
  have cks: "checked [jd + n - LC_EPOCH_JD] r = Some r"
      "checked [(jd + n - LC_EPOCH_JD) * LC_DAY, (jd + n - LC_EPOCH_JD) * LC_DAY + tod] r = Some r" for r :: int
    using jd n t by (simp_all add: checked_def i64_def)
  have lim: "\<not> (jd + n - LC_EPOCH_JD < - 106751991167 \<or> 106751991167 < jd + n - LC_EPOCH_JD)" using jd n by simp
  have sw: "set_wall_day None c1 (jd + n) tod = Some (lc_set_millis c1 (ms + n * LC_DAY))"
    unfolding set_wall_day_def q cks Option.bind.simps
    using lim by (simp only: if_False cks Option.bind.simps wall wall_instant_def option.case sum.case)
  have fk: "field_ok c0 (int field)" "\<not> int LC_ZONE_OFFSET \<le> int field" "nat (int field) = field"
    using assms(6) by (auto simp: field_ok_def)
  have ck: "checked [jd + n] (jd + n) = Some (jd + n)" using jd n by (simp add: checked_def i64_def)
  show "\<exists>c'. lc_add None (snd (lc_set_millis c ms)) (int field) n = Some (LC_OK, c') \<and> millis c' = ms + n * LC_DAY"
  proof (cases "n = 0")
    case True
    then show ?thesis using fk(1,2) unfolding c0_def [symmetric] by (simp add: lc_add_def) (simp add: c0)
  next
    case False
    then have "lc_add None c0 (int field) n = Some (lc_set_millis c1 (ms + n * LC_DAY))"
      using assms(6) fk unfolding lc_add_def comp
      by (auto simp: c1(2) fs cv ck sw Let_def)
    then show ?thesis unfolding c0_def [symmetric] using c1(3) by (simp add: lc_set_millis_def Let_def)
  qed
  have "map_option (\<lambda>_. ()) (lc_add None (snd (lc_set_millis us_calendar (2 ^ 63 - LC_DAY))) (int LC_DATE) 1) = None"
    by code_simp
  then show "lc_add None (snd (lc_set_millis us_calendar (2 ^ 63 - LC_DAY))) (int LC_DATE) 1 = None" by simp
qed

theorem lc_add_days_witness:
  "\<exists>c'. lc_add None (snd (lc_set_millis us_calendar 951782400000)) (int LC_DATE) 1 = Some (LC_OK, c') \<and>
     millis c' = 951868800000"
  using lc_add_days [of us_calendar 951782400000 1 LC_DATE]
  by (simp add: us_calendar_def lc_init_def cal_ok_def CUTOVER_def i32_def)

text \<open>
  Setting the day of the week can move the time by a year.  On 1 January 2021, a Friday in
  week 53 of the week year 2020 where weeks begin on Monday and need four days, setting the day
  of the week to the Friday that it is selects the week fields but takes the calendar year for
  them, and the result is 7 January 2022.
\<close>

theorem day_of_week_jump:
  "do {
     ((s, v), c) \<leftarrow> lc_get None (snd (lc_set_millis (lc_init False False 2 4) 1609459200000)) (int LC_DAY_OF_WEEK);
     (s', c) \<leftarrow> lc_set None c (int LC_DAY_OF_WEEK) 6;
     (s'', c) \<leftarrow> lc_get_millis None c;
     Some (v, s, s', s'', millis c) } = Some (Some 6, LC_OK, LC_OK, LC_OK, 1641513600000)"
  by code_simp

text \<open>
  The fields of a position within the year, the month, the week or the day: all of
  \<open>java.util.Calendar\<close>'s but the year and the two offsets, with the three that ICU adds.
\<close>

definition ranged_fields :: "bool \<Rightarrow> nat list" where
  "ranged_fields icu' = [LC_ERA, LC_MONTH, LC_WEEK_OF_YEAR, LC_WEEK_OF_MONTH, LC_DATE, LC_DAY_OF_YEAR, LC_DAY_OF_WEEK,
     LC_DAY_OF_WEEK_IN_MONTH, LC_AM_PM, LC_HOUR, LC_HOUR_OF_DAY, LC_MINUTE, LC_SECOND, LC_MILLISECOND] @
     (if icu' then [LC_DOW_LOCAL, LC_MILLISECONDS_IN_DAY, LC_IS_LEAP_MONTH] else [])"



end
