(* ===== verification/Charset.thy ===== *)
theory Charset
  imports Lunaria_Prelude
begin

text \<open>
  Charsets (\<open>src/src/dvm/charset.c\<close>): names and aliases, the conversions between the text of the VM
  (WTF-8, which is UTF-8 that may also spell a lone surrogate), UTF-16 units and the bytes of a
  charset, and the decoder that reads a stream byte by byte.  A buffer is the list of what
  has been written to it, with its capacity; writing past it is a fault.  A result \<open>None\<close> inside
  \<open>Some\<close> is \<open>NULL\<close>.  The converters of the platform (\<open>iconv\<close>) are arguments.
\<close>

section \<open>Names\<close>

datatype jcs_kind = JCS_UTF8 | JCS_LATIN1 | JCS_ASCII | JCS_UTF16 | JCS_UTF16BE | JCS_UTF16LE | JCS_NATIVE

record jcs =
  cs_kind :: jcs_kind
  cs_name :: string

definition alnum :: "char \<Rightarrow> bool" where
  "alnum c \<longleftrightarrow> (let n = of_char c :: nat in 65 \<le> n \<and> n \<le> 90 \<or> 97 \<le> n \<and> n \<le> 122 \<or> 48 \<le> n \<and> n \<le> 57)"

definition jcs_name_legal :: "string option \<Rightarrow> bool" where
  "jcs_name_legal name = (case name of None \<Rightarrow> False | Some [] \<Rightarrow> False
     | Some (c # cs) \<Rightarrow> alnum c \<and> list_all (\<lambda>c. alnum c \<or> c \<in> set ''-+:_.'') cs)"

definition g_builtin :: "(jcs_kind \<times> string \<times> string list) list" where
  "g_builtin =
     [(JCS_UTF8, ''UTF-8'', [''utf8'', ''unicode-1-1-utf-8'']),
      (JCS_LATIN1, ''ISO-8859-1'', [''iso8859_1'', ''iso_8859_1'', ''iso8859-1'', ''iso-8859-1:1987'', ''iso_8859-1:1987'',
         ''iso_8859-1'', ''iso-ir-100'', ''latin1'', ''l1'', ''ibm819'', ''cp819'', ''csisolatin1'', ''819'']),
      (JCS_ASCII, ''US-ASCII'', [''ascii'', ''iso646-us'', ''us'', ''cp367'', ''ibm367'', ''csascii'', ''646'',
         ''iso_646.irv:1983'', ''ansi_x3.4-1968'', ''ansi_x3.4-1986'', ''iso-ir-6'', ''default'']),
      (JCS_UTF16, ''UTF-16'', [''utf16'', ''utf_16'', ''unicode'', ''unicodebig'']),
      (JCS_UTF16BE, ''UTF-16BE'', [''utf_16be'', ''iso-10646-ucs-2'', ''x-utf-16be'', ''unicodebigunmarked'']),
      (JCS_UTF16LE, ''UTF-16LE'', [''utf_16le'', ''x-utf-16le'', ''unicodelittleunmarked''])]"

definition jcs_default :: jcs where
  "jcs_default = \<lparr>cs_kind = JCS_UTF8, cs_name = ''UTF-8''\<rparr>"

text \<open>\<open>strcasecmp\<close> in the C locale, as a test for equality.\<close>

definition ascii_lower :: "char \<Rightarrow> char" where
  "ascii_lower c = (let n = of_char c :: nat in if 65 \<le> n \<and> n \<le> 90 then char_of (n + 32) else c)"

definition same_nocase :: "string \<Rightarrow> string \<Rightarrow> bool" where
  "same_nocase a b \<longleftrightarrow> map ascii_lower a = map ascii_lower b"

primrec builtin_named :: "string \<Rightarrow> (jcs_kind \<times> string \<times> string list) list \<Rightarrow> (jcs_kind \<times> string) option" where
  "builtin_named name [] = None"
| "builtin_named name (e # es) = (case e of (k, nm, aliases) \<Rightarrow>
     if same_nocase name nm \<or> list_ex (same_nocase name) aliases then Some (k, nm) else builtin_named name es)"

definition native_names :: "string list" where
  "native_names = [''Shift_JIS'', ''GBK'', ''GB18030'', ''Big5'', ''EUC-JP'', ''EUC-KR'', ''KOI8-R'', ''KOI8-U'']"

definition canonical_name :: "string \<Rightarrow> string" where
  "canonical_name name =
     fold (\<lambda>n c. if same_nocase name n then n else c) native_names
       (if same_nocase name ''sjis'' \<or> same_nocase name ''shift-jis'' then ''Shift_JIS'' else name)"

text \<open>\<open>opens\<close> tells which names the platform has a converter for.\<close>

definition jcs_lookup :: "(string \<Rightarrow> bool) \<Rightarrow> string option \<Rightarrow> jcs option" where
  "jcs_lookup opens name = (case name of None \<Rightarrow> None
     | Some nm \<Rightarrow>
         if \<not> jcs_name_legal name then None
         else case builtin_named nm g_builtin of
           Some (k, b) \<Rightarrow> Some \<lparr>cs_kind = k, cs_name = take 63 b\<rparr>
         | None \<Rightarrow> if opens nm then Some \<lparr>cs_kind = JCS_NATIVE, cs_name = take 63 (canonical_name nm)\<rparr> else None)"

section \<open>WTF-8 and UTF-16\<close>

definition JCS_FFFD :: u32 where "JCS_FFFD = 0xfffd"

definition emit :: "nat \<Rightarrow> 'a list \<Rightarrow> 'a list \<Rightarrow> 'a list option" where
  "emit cap out xs = (if length out + length xs \<le> cap then Some (out @ xs) else None)"

definition put_cp :: "u32 \<Rightarrow> u8 list" where
  "put_cp cp =
     (if cp < 0x80 then [ucast cp]
      else if cp < 0x800 then [ucast (0xc0 OR drop_bit 6 cp), ucast (0x80 OR (cp AND 0x3f))]
      else if cp < 0x10000 then
        [ucast (0xe0 OR drop_bit 12 cp), ucast (0x80 OR (drop_bit 6 cp AND 0x3f)), ucast (0x80 OR (cp AND 0x3f))]
      else
        [ucast (0xf0 OR drop_bit 18 cp), ucast (0x80 OR (drop_bit 12 cp AND 0x3f)),
         ucast (0x80 OR (drop_bit 6 cp AND 0x3f)), ucast (0x80 OR (cp AND 0x3f))])"

definition is_high :: "u16 \<Rightarrow> bool" where "is_high c \<longleftrightarrow> 0xd800 \<le> c \<and> c \<le> 0xdbff"
definition is_low :: "u16 \<Rightarrow> bool" where "is_low c \<longleftrightarrow> 0xdc00 \<le> c \<and> c \<le> 0xdfff"
definition is_surrogate :: "u16 \<Rightarrow> bool" where "is_surrogate c \<longleftrightarrow> 0xd800 \<le> c \<and> c \<le> 0xdfff"

definition pair_cp :: "u16 \<Rightarrow> u16 \<Rightarrow> u32" where
  "pair_cp c d = 0x10000 + push_bit 10 (ucast c - 0xd800) + (ucast d - 0xdc00)"

fun utf16_bytes :: "nat \<Rightarrow> u16 list \<Rightarrow> u8 list \<Rightarrow> u8 list option" where
  "utf16_bytes cap [] out = Some out"
| "utf16_bytes cap [c] out = emit cap out (put_cp (ucast c))"
| "utf16_bytes cap (c # d # us) out =
     (if is_high c \<and> is_low d then do { out \<leftarrow> emit cap out (put_cp (pair_cp c d)); utf16_bytes cap us out }
      else do { out \<leftarrow> emit cap out (put_cp (ucast c)); utf16_bytes cap (d # us) out })"

definition jcs_utf16_to_wtf8 :: "nat \<Rightarrow> u16 list \<Rightarrow> u8 list option" where
  "jcs_utf16_to_wtf8 cap u = utf16_bytes cap u []"

primrec wtf8_conts :: "nat \<Rightarrow> nat \<Rightarrow> u8 list \<Rightarrow> u32 \<Rightarrow> (u32 \<times> nat) option" where
  "wtf8_conts 0 k s cp = Some (cp, k)"
| "wtf8_conts (Suc m) k s cp = do {
     b \<leftarrow> c_at s k;
     if b AND 0xc0 \<noteq> 0x80 then Some (JCS_FFFD, 1)
     else wtf8_conts m (k + 1) s (push_bit 6 cp OR ucast (b AND 0x3f)) }"

definition wtf8_lead :: "u8 \<Rightarrow> (nat \<times> u32) option" where
  "wtf8_lead b =
     (if b AND 0xe0 = 0xc0 then Some (1, ucast (b AND 0x1f))
      else if b AND 0xf0 = 0xe0 then Some (2, ucast (b AND 0x0f))
      else if b AND 0xf8 = 0xf0 then Some (3, ucast (b AND 0x07))
      else None)"

definition wtf8_cp :: "u8 list \<Rightarrow> (u32 \<times> nat) option" where
  "wtf8_cp s = do {
     b \<leftarrow> c_at s 0;
     if b < 0x80 then Some (ucast b, 1)
     else case wtf8_lead b of None \<Rightarrow> Some (JCS_FFFD, 1)
     | Some (need, cp) \<Rightarrow> if length s \<le> need then Some (JCS_FFFD, 1) else wtf8_conts need 1 s cp }"

lemma wtf8_conts_width: "wtf8_conts m k s cp = Some (c, w) \<Longrightarrow> 0 < k \<Longrightarrow> 0 < w"
  by (induction m arbitrary: k cp) (auto simp: bind_eq_Some_conv split: if_splits)

lemma wtf8_cp_width: "wtf8_cp s = Some (c, w) \<Longrightarrow> 0 < w"
  by (auto simp: wtf8_cp_def bind_eq_Some_conv split: if_splits option.splits dest: wtf8_conts_width)

definition cp_units :: "u32 \<Rightarrow> u16 list" where
  "cp_units cp = (if 0x10000 \<le> cp then [ucast (0xd800 + drop_bit 10 (cp - 0x10000)), ucast (0xdc00 + (cp - 0x10000 AND 0x3ff))]
     else [ucast cp])"

text \<open>Without a buffer (\<open>cap = None\<close>) the units are only counted.\<close>

function wtf8_units :: "nat option \<Rightarrow> u8 list \<Rightarrow> nat \<Rightarrow> u16 list \<Rightarrow> (nat \<times> u16 list) option" where
  "wtf8_units cap s k out =
     (if s = [] then Some (k, out)
      else case wtf8_cp s of None \<Rightarrow> None
      | Some (cp, w) \<Rightarrow>
          (case (case cap of None \<Rightarrow> Some out | Some c \<Rightarrow> emit c out (cp_units cp)) of None \<Rightarrow> None
           | Some out' \<Rightarrow> wtf8_units cap (drop w s) (k + length (cp_units cp)) out'))"
  by pat_completeness auto
termination
  by (relation "measure (\<lambda>(cap, s, k, out). length s)") (auto dest: wtf8_cp_width)

declare wtf8_units.simps [simp del]

definition jcs_wtf8_to_utf16 :: "nat option \<Rightarrow> u8 list \<Rightarrow> (nat \<times> u16 list) option" where
  "jcs_wtf8_to_utf16 cap s = wtf8_units cap s 0 []"

section \<open>Decoding\<close>

definition utf8_lead :: "u8 \<Rightarrow> nat \<times> u8 \<times> u8" where
  "utf8_lead b =
     (if 0xc2 \<le> b \<and> b \<le> 0xdf then (1, 0x80, 0xbf)
      else if b = 0xe0 then (2, 0xa0, 0xbf)
      else if 0xe1 \<le> b \<and> b \<le> 0xec \<or> b = 0xee \<or> b = 0xef then (2, 0x80, 0xbf)
      else if b = 0xed then (2, 0x80, 0x9f)
      else if b = 0xf0 then (3, 0x90, 0xbf)
      else if 0xf1 \<le> b \<and> b \<le> 0xf3 then (3, 0x80, 0xbf)
      else if b = 0xf4 then (3, 0x80, 0x8f)
      else (0, 0, 0))"

fun utf8_got :: "nat \<Rightarrow> u8 \<Rightarrow> u8 \<Rightarrow> u8 list \<Rightarrow> nat" where
  "utf8_got (Suc m) lo hi (b # bs) = (if lo \<le> b \<and> b \<le> hi then Suc (utf8_got m 0x80 0xbf bs) else 0)"
| "utf8_got m lo hi bs = 0"

function utf8_loop :: "nat \<Rightarrow> u8 list \<Rightarrow> u8 list \<Rightarrow> u8 list option" where
  "utf8_loop cap [] out = Some out"
| "utf8_loop cap (b # bs) out =
     (if b < 0x80 then (case emit cap out [b] of None \<Rightarrow> None | Some out' \<Rightarrow> utf8_loop cap bs out')
      else case utf8_lead b of (need, lo, hi) \<Rightarrow>
        (case emit cap out (if need \<noteq> 0 \<and> utf8_got need lo hi bs = need then b # take need bs else put_cp JCS_FFFD) of None \<Rightarrow> None
         | Some out' \<Rightarrow> utf8_loop cap (drop (utf8_got need lo hi bs) bs) out'))"
  by pat_completeness auto
termination
  by (relation "measure (\<lambda>(cap, s, out). length s)") auto

text \<open>The terminator, and the text in front of it.\<close>

definition terminated :: "nat \<Rightarrow> u8 list \<Rightarrow> u8 list option option" where
  "terminated cap out = (if length out < cap then Some (Some out) else None)"

definition utf8_decode :: "alloc \<Rightarrow> u8 list \<Rightarrow> u8 list option option" where
  "utf8_decode al inp = (let cap = length inp * 3 + 1 in
     if \<not> al cap then Some None else do { out \<leftarrow> utf8_loop cap inp []; terminated cap out })"

fun utf16_read :: "nat \<Rightarrow> bool \<Rightarrow> u8 list \<Rightarrow> u16 list \<Rightarrow> (u16 list \<times> u8 list) option" where
  "utf16_read cap little (a # b # r) u = do {
     u \<leftarrow> emit cap u [if little then ucast a OR push_bit 8 (ucast b) else push_bit 8 (ucast a) OR ucast b];
     utf16_read cap little r u }"
| "utf16_read cap little r u = Some (u, r)"

text \<open>The in-place loop that replaces surrogates without a partner.\<close>

fun fix_lone :: "u16 list \<Rightarrow> u16 list" where
  "fix_lone (c # d # us) = (if is_high c \<and> is_low d then c # d # fix_lone us
     else (if is_surrogate c then 0xfffd else c) # fix_lone (d # us))"
| "fix_lone [c] = [if is_surrogate c then 0xfffd else c]"
| "fix_lone [] = []"

definition utf16_bom :: "jcs_kind \<Rightarrow> u8 list \<Rightarrow> nat \<times> bool" where
  "utf16_bom k inp =
     (if k = JCS_UTF16 \<and> take 2 inp = [0xfe, 0xff] then (2, False)
      else if k = JCS_UTF16 \<and> take 2 inp = [0xff, 0xfe] then (2, True)
      else (0, k = JCS_UTF16LE))"

definition utf16_decode :: "alloc \<Rightarrow> jcs_kind \<Rightarrow> u8 list \<Rightarrow> u8 list option option" where
  "utf16_decode al k inp = (case utf16_bom k inp of (i, little) \<Rightarrow>
     let units = (length inp - i) div 2 + 1 in
     if \<not> al (units * 2) \<or> \<not> al (units * 3 + 4) then Some None
     else do {
       (u, r) \<leftarrow> utf16_read units little (drop i inp) [];
       let u = fix_lone u;
       u \<leftarrow> (if r = [] then Some u else emit units u [0xfffd]);
       out \<leftarrow> jcs_utf16_to_wtf8 (units * 3 + 4) u;
       terminated (units * 3 + 4) out })"

primrec latin_loop :: "nat \<Rightarrow> bool \<Rightarrow> u8 list \<Rightarrow> u8 list \<Rightarrow> u8 list option" where
  "latin_loop cap ascii [] out = Some out"
| "latin_loop cap ascii (b # bs) out = do {
     out \<leftarrow> emit cap out (put_cp (if ascii \<and> 0x80 \<le> b then JCS_FFFD else ucast b));
     latin_loop cap ascii bs out }"

text \<open>What the platform offers for the other charsets; \<open>None\<close> is a null pointer.\<close>

record native =
  native_decode :: "string \<Rightarrow> u8 list \<Rightarrow> u8 list option"
  native_encode :: "string \<Rightarrow> u16 list \<Rightarrow> u8 list option"

definition jcs_decode :: "alloc \<Rightarrow> native \<Rightarrow> jcs \<Rightarrow> u8 list \<Rightarrow> u8 list option option" where
  "jcs_decode al N cs inp = (case cs_kind cs of
     JCS_UTF8 \<Rightarrow> utf8_decode al inp
   | JCS_LATIN1 \<Rightarrow> (let cap = length inp * 3 + 1 in if \<not> al cap then Some None
       else do { out \<leftarrow> latin_loop cap False inp []; terminated cap out })
   | JCS_ASCII \<Rightarrow> (let cap = length inp * 3 + 1 in if \<not> al cap then Some None
       else do { out \<leftarrow> latin_loop cap True inp []; terminated cap out })
   | JCS_NATIVE \<Rightarrow> (case native_decode N (cs_name cs) inp of Some r \<Rightarrow> Some (Some r) | None \<Rightarrow> utf8_decode al inp)
   | k \<Rightarrow> utf16_decode al k inp)"

section \<open>Encoding\<close>

definition QUESTION :: "'a::len word" where "QUESTION = 0x3f"

text \<open>The loops over code points; \<open>f\<close> is what a code point and its bytes become.\<close>

function encode_loop :: "(u32 \<Rightarrow> u8 list \<Rightarrow> u8 list) \<Rightarrow> nat \<Rightarrow> u8 list \<Rightarrow> u8 list \<Rightarrow> u8 list option" where
  "encode_loop f cap s out =
     (if s = [] then Some out
      else case wtf8_cp s of None \<Rightarrow> None
      | Some (cp, w) \<Rightarrow> (case emit cap out (f cp (take w s)) of None \<Rightarrow> None
          | Some out' \<Rightarrow> encode_loop f cap (drop w s) out'))"
  by pat_completeness auto
termination
  by (relation "measure (\<lambda>(f, cap, s, out). length s)") (auto dest: wtf8_cp_width)

declare encode_loop.simps [simp del]

definition utf8_out :: "u32 \<Rightarrow> u8 list \<Rightarrow> u8 list" where
  "utf8_out cp bs = (if 0xd800 \<le> cp \<and> cp \<le> 0xdfff then [QUESTION] else bs)"

definition latin_out :: "u32 \<Rightarrow> u32 \<Rightarrow> u8 list \<Rightarrow> u8 list" where
  "latin_out mx cp bs = [if cp \<le> mx then ucast cp else QUESTION]"

text \<open>The loop over units; \<open>prev\<close> is the unit in front.\<close>

fun utf16_out :: "nat \<Rightarrow> bool \<Rightarrow> u16 option \<Rightarrow> u16 list \<Rightarrow> u8 list \<Rightarrow> u8 list option" where
  "utf16_out cap little prev [] out = Some out"
| "utf16_out cap little prev (c # us) out = (
     let paired = (is_high c \<and> us \<noteq> [] \<and> is_low (hd us) \<or> is_low c \<and> (case prev of None \<Rightarrow> False | Some p \<Rightarrow> is_high p));
       x = (if is_surrogate c \<and> \<not> paired then QUESTION else c);
       h = ucast (drop_bit 8 x); l = ucast x in do {
     out \<leftarrow> emit cap out (if little then [l, h] else [h, l]);
     utf16_out cap little (Some c) us out })"

fun native_units :: "u16 list \<Rightarrow> u16 list" where
  "native_units (c # d # us) = (if is_high c \<and> is_low d then c # d # native_units us
     else (if is_surrogate c then QUESTION else c) # native_units (d # us))"
| "native_units [c] = [if is_surrogate c then QUESTION else c]"
| "native_units [] = []"

definition jcs_encode :: "alloc \<Rightarrow> native \<Rightarrow> jcs \<Rightarrow> u8 list \<Rightarrow> u8 list option option" where
  "jcs_encode al N cs s = (let n = length s; k = cs_kind cs in
     if k = JCS_UTF8 then
       (if \<not> al (n + 1) then Some None else map_option Some (encode_loop utf8_out (n + 1) s []))
     else if k = JCS_LATIN1 \<or> k = JCS_ASCII then
       (if \<not> al (n + 1) then Some None
        else map_option Some (encode_loop (latin_out (if k = JCS_ASCII then 0x7f else 0xff)) (n + 1) s []))
     else if \<not> al ((n + 1) * 2) then Some None
     else do {
       (c, u) \<leftarrow> jcs_wtf8_to_utf16 (Some (n + 1)) s;
       if k \<noteq> JCS_NATIVE then
         (if \<not> al (c * 2 + 2) then Some None
          else do {
            out \<leftarrow> (if k = JCS_UTF16 then emit (c * 2 + 2) [] [0xfe, 0xff] else Some []);
            out \<leftarrow> utf16_out (c * 2 + 2) (k = JCS_UTF16LE) None u out;
            Some (Some out) })
       else Some (native_encode N (cs_name cs) (native_units u)) })"

section \<open>The streaming decoder\<close>

record jcs_decoder =
  d_kind :: jcs_kind
  d_q :: "u16 list"
  d_qh :: nat
  d_qn :: nat
  d_held :: int
  d_held_unit :: int
  d_bom_done :: bool
  d_little :: bool
  d_done :: bool

definition jcs_decoder_new :: "alloc \<Rightarrow> nat \<Rightarrow> (string \<Rightarrow> bool) \<Rightarrow> jcs \<Rightarrow> jcs_decoder option" where
  "jcs_decoder_new al size' opens cs = (if \<not> al size' then None
     else Some \<lparr>d_kind = (if cs_kind cs = JCS_NATIVE \<and> \<not> opens (cs_name cs) then cs_kind jcs_default else cs_kind cs),
       d_q = replicate 16 0, d_qh = 0, d_qn = 0, d_held = -3, d_held_unit = -1, d_bom_done = False,
       d_little = (cs_kind cs = JCS_UTF16LE), d_done = False\<rparr>)"

definition dq_push :: "u16 \<Rightarrow> jcs_decoder \<Rightarrow> jcs_decoder option" where
  "dq_push u d = (if d_qn d < 16 then do {
       q \<leftarrow> c_set (d_q d) ((d_qh d + d_qn d) mod 16) u;
       Some (d\<lparr>d_q := q, d_qn := d_qn d + 1\<rparr>) }
     else Some d)"

definition dq_pop :: "jcs_decoder \<Rightarrow> (int \<times> jcs_decoder) option" where
  "dq_pop d = do {
     u \<leftarrow> c_at (d_q d) (d_qh d);
     Some (uint u, d\<lparr>d_qh := (d_qh d + 1) mod 16, d_qn := d_qn d - 1\<rparr>) }"

type_synonym 's reader = "'s \<Rightarrow> int \<times> 's"

definition dec_byte :: "'s reader \<Rightarrow> jcs_decoder \<Rightarrow> 's \<Rightarrow> int \<times> jcs_decoder \<times> 's" where
  "dec_byte nb d s = (if d_held d \<noteq> -3 then (d_held d, d\<lparr>d_held := -3\<rparr>, s)
     else case nb s of (b, s) \<Rightarrow> (b, d, s))"

definition push_cp :: "u32 \<Rightarrow> jcs_decoder \<Rightarrow> jcs_decoder option" where
  "push_cp cp d = (if 0x10000 \<le> cp then do {
       d \<leftarrow> dq_push (ucast (0xd800 + drop_bit 10 (cp - 0x10000))) d;
       dq_push (ucast (0xdc00 + (cp - 0x10000 AND 0x3ff))) d }
     else dq_push (ucast cp) d)"

lemma dec_byte_bom: "dec_byte nb d s = (b, d', s') \<Longrightarrow> d_bom_done d' = d_bom_done d"
  by (auto simp: dec_byte_def split: if_splits prod.splits)

function unit_loop :: "'s reader \<Rightarrow> jcs_decoder \<Rightarrow> 's \<Rightarrow> int \<times> jcs_decoder \<times> 's" where
  "unit_loop nb d s = (case dec_byte nb d s of (b0, d1, s1) \<Rightarrow>
     if b0 < 0 then (b0, d1, s1)
     else case dec_byte nb d1 s1 of (b1, d2, s2) \<Rightarrow>
       if b1 = -2 then (-2, d2, s2)
       else if b1 < 0 then (0xfffd, d2, s2)
       else if d_kind d2 = JCS_UTF16 \<and> \<not> d_bom_done d2 \<and> b0 = 0xfe \<and> b1 = 0xff then
         unit_loop nb (d2\<lparr>d_bom_done := True\<rparr>) s2
       else if d_kind d2 = JCS_UTF16 \<and> \<not> d_bom_done d2 \<and> b0 = 0xff \<and> b1 = 0xfe then
         unit_loop nb (d2\<lparr>d_bom_done := True, d_little := True\<rparr>) s2
       else (if d_little d2 then b0 OR push_bit 8 b1 else push_bit 8 b0 OR b1,
         if d_kind d2 = JCS_UTF16 then d2\<lparr>d_bom_done := True\<rparr> else d2, s2))"
  by pat_completeness auto
termination
  by (relation "measure (\<lambda>(nb, d, s). if d_bom_done d then 0 else 1)") (auto dest!: dec_byte_bom [OF sym])

declare unit_loop.simps [simp del]

definition dec_unit16 :: "'s reader \<Rightarrow> jcs_decoder \<Rightarrow> 's \<Rightarrow> int \<times> jcs_decoder \<times> 's" where
  "dec_unit16 nb d s = (if 0 \<le> d_held_unit d then (d_held_unit d, d\<lparr>d_held_unit := -1\<rparr>, s) else unit_loop nb d s)"

text \<open>
  The continuation bytes of a sequence: \<open>Inl (-2)\<close> when reading failed, \<open>Inl (-1)\<close> when the sequence broke
  off, with the byte that broke it held back.
\<close>

primrec dec_conts :: "'s reader \<Rightarrow> nat \<Rightarrow> u8 \<Rightarrow> u8 \<Rightarrow> u32 \<Rightarrow> jcs_decoder \<Rightarrow> 's \<Rightarrow> (int + u32) \<times> jcs_decoder \<times> 's" where
  "dec_conts nb 0 lo hi cp d s = (Inr cp, d, s)"
| "dec_conts nb (Suc m) lo hi cp d s = (case dec_byte nb d s of (c, d, s) \<Rightarrow>
     if c = -2 then (Inl (-2), d, s)
     else if c < 0 \<or> c < uint lo \<or> uint hi < c then (Inl (-1), d\<lparr>d_held := c\<rparr>, s)
     else dec_conts nb m 0x80 0xbf (push_bit 6 cp OR (word_of_int c AND 0x3f)) d s)"

definition dec_fill_utf8 :: "'s reader \<Rightarrow> jcs_decoder \<Rightarrow> 's \<Rightarrow> (int \<times> jcs_decoder \<times> 's) option" where
  "dec_fill_utf8 nb d s = (case dec_byte nb d s of (b, d, s) \<Rightarrow>
     if b < 0 then Some (b, if b = -1 then d\<lparr>d_done := True\<rparr> else d, s)
     else if b < 0x80 then do { d \<leftarrow> dq_push (word_of_int b) d; Some (0, d, s) }
     else case utf8_lead (word_of_int b) of (need, lo, hi) \<Rightarrow>
       let cp = word_of_int b AND (if need = 1 then 0x1f else if need = 2 then 0x0f else 0x07) in
       case dec_conts nb need lo hi cp d s of (r, d, s) \<Rightarrow>
         if r = Inl (-2) then Some (-2, d, s)
         else do {
           d \<leftarrow> push_cp (case r of Inl _ \<Rightarrow> JCS_FFFD | Inr cp \<Rightarrow> if need = 0 then JCS_FFFD else cp) d;
           Some (0, d, s) })"

definition dec_fill_latin :: "'s reader \<Rightarrow> jcs_decoder \<Rightarrow> 's \<Rightarrow> (int \<times> jcs_decoder \<times> 's) option" where
  "dec_fill_latin nb d s = (case dec_byte nb d s of (b, d, s) \<Rightarrow>
     if b < 0 then Some (b, if b = -1 then d\<lparr>d_done := True\<rparr> else d, s)
     else do {
       d \<leftarrow> dq_push (if d_kind d = JCS_ASCII \<and> 0x80 \<le> b then 0xfffd else word_of_int b) d;
       Some (0, d, s) })"

definition dec_fill_utf16 :: "'s reader \<Rightarrow> jcs_decoder \<Rightarrow> 's \<Rightarrow> (int \<times> jcs_decoder \<times> 's) option" where
  "dec_fill_utf16 nb d s = (case dec_unit16 nb d s of (u, d, s) \<Rightarrow>
     if u < 0 then Some (u, d, s)
     else if 0xd800 \<le> u \<and> u \<le> 0xdbff then
       (case dec_unit16 nb d s of (l, d, s) \<Rightarrow>
          if l = -2 then Some (-2, d, s)
          else if 0xdc00 \<le> l \<and> l \<le> 0xdfff then do {
            d \<leftarrow> dq_push (word_of_int u) d;
            d \<leftarrow> dq_push (word_of_int l) d;
            Some (0, d, s) }
          else do {
            d \<leftarrow> dq_push 0xfffd d;
            Some (0, if 0 \<le> l then d\<lparr>d_held_unit := l\<rparr> else d, s) })
     else do {
       d \<leftarrow> dq_push (if 0xdc00 \<le> u \<and> u \<le> 0xdfff then 0xfffd else word_of_int u) d;
       Some (0, d, s) })"

text \<open>\<open>other\<close> is the loop that feeds a converter of the platform.\<close>

definition dec_fill :: "(jcs_decoder \<Rightarrow> 's \<Rightarrow> (int \<times> jcs_decoder \<times> 's) option) \<Rightarrow> 's reader \<Rightarrow> jcs_decoder \<Rightarrow> 's \<Rightarrow>
    (int \<times> jcs_decoder \<times> 's) option" where
  "dec_fill other nb d s = (if d_done d then Some (-1, d, s)
     else case d_kind d of
       JCS_UTF8 \<Rightarrow> dec_fill_utf8 nb d s
     | JCS_LATIN1 \<Rightarrow> dec_fill_latin nb d s
     | JCS_ASCII \<Rightarrow> dec_fill_latin nb d s
     | JCS_NATIVE \<Rightarrow> other d s
     | _ \<Rightarrow> dec_fill_utf16 nb d s)"

definition jcs_decoder_next :: "(jcs_decoder \<Rightarrow> 's \<Rightarrow> (int \<times> jcs_decoder \<times> 's) option) \<Rightarrow> 's reader \<Rightarrow> jcs_decoder \<Rightarrow> 's \<Rightarrow>
    (int \<times> jcs_decoder \<times> 's) option" where
  "jcs_decoder_next other nb d s = do {
     (r, d, s) \<leftarrow> (if d_qn d = 0 then dec_fill other nb d s else Some (0, d, s));
     if r < 0 \<and> d_qn d = 0 then Some (r, d, s)
     else do { (u, d) \<leftarrow> dq_pop d; Some (u, d, s) } }"

end
