(* ===== verification/Charset_Codec.thy ===== *)
theory Charset_Codec
  imports Charset
begin

text \<open>
  The conversions of \<open>charset.c\<close> are inverse where they can be, never write past their buffers, and
  the decoder of streams yields what the decoder of whole texts yields.
\<close>

section \<open>Bytes as numbers\<close>

lemma unat_8: "unat (b::u8) < 256" and unat_16: "unat (u::u16) < 65536"
  using unsigned_less [of b, where 'a = nat] unsigned_less [of u, where 'a = nat] by simp_all

lemma unat_ups: "unat (ucast (b::u8) :: u32) = unat b" "unat (ucast (u::u16) :: u32) = unat u" "unat (ucast (b::u8) :: u16) = unat b"
  using unat_8 [of b] unat_16 [of u] by (simp_all add: unsigned_ucast_eq take_bit_nat_eq_self)

lemma unat_downs: "unat (ucast (x::u32) :: u8) = unat x mod 256" "unat (ucast (x::u32) :: u16) = unat x mod 65536"
    "unat (ucast (u::u16) :: u8) = unat u mod 256"
  by (simp_all add: unsigned_ucast_eq take_bit_eq_mod)

lemma high_part: "unat (push_bit k (drop_bit k (b::u8))) = unat b - unat b mod 2 ^ k"
proof -
  have "unat b div 2 ^ k * 2 ^ k \<le> unat b" by simp
  then have "unat b div 2 ^ k * 2 ^ k < 256" using unat_8 [of b] by linarith
  then show ?thesis
    using unat_8 [of b] unfolding unsigned_push_bit_eq unsigned_drop_bit_eq
    by (simp add: push_bit_eq_mult drop_bit_eq_div take_bit_eq_mod minus_mod_eq_div_mult)
qed

lemma and_high:
  "(b::u8) AND 0xe0 = push_bit 5 (drop_bit 5 b)" "b AND 0xf0 = push_bit 4 (drop_bit 4 b)"
  "b AND 0xf8 = push_bit 3 (drop_bit 3 b)" "b AND 0xc0 = push_bit 6 (drop_bit 6 b)"
proof -
  have "b AND push_bit k (mask (8 - k)) = push_bit k (drop_bit k b)" if "k \<le> 8" for k
    using that by (intro bit_word_eqI) (auto simp: bit_simps)
  from this [of 5] this [of 4] this [of 3] this [of 6] show
    "b AND 0xe0 = push_bit 5 (drop_bit 5 b)" "b AND 0xf0 = push_bit 4 (drop_bit 4 b)"
    "b AND 0xf8 = push_bit 3 (drop_bit 3 b)" "b AND 0xc0 = push_bit 6 (drop_bit 6 b)"
    by (simp_all add: mask_eq_exp_minus_1)
qed

lemma byte_facts:
  "((b::u8) AND 0xe0 = 0xc0) = (0xc0 \<le> unat b \<and> unat b < 0xe0)"
  "(b AND 0xf0 = 0xe0) = (0xe0 \<le> unat b \<and> unat b < 0xf0)"
  "(b AND 0xf8 = 0xf0) = (0xf0 \<le> unat b \<and> unat b < 0xf8)"
  "(b AND 0xc0 = 0x80) = (0x80 \<le> unat b \<and> unat b < 0xc0)"
proof -
  have "(x - x mod 2 ^ 5 = 192) = (192 \<le> x \<and> x < 224)" "(x - x mod 2 ^ 4 = 224) = (224 \<le> x \<and> x < 240)"
    "(x - x mod 2 ^ 3 = 240) = (240 \<le> x \<and> x < 248)" "(x - x mod 2 ^ 6 = 128) = (128 \<le> x \<and> x < 192)" for x :: nat
    unfolding minus_mod_eq_mult_div by (simp; arith)+
  then show "(b AND 0xe0 = 0xc0) = (0xc0 \<le> unat b \<and> unat b < 0xe0)"
    "(b AND 0xf0 = 0xe0) = (0xe0 \<le> unat b \<and> unat b < 0xf0)" "(b AND 0xf8 = 0xf0) = (0xf0 \<le> unat b \<and> unat b < 0xf8)"
    "(b AND 0xc0 = 0x80) = (0x80 \<le> unat b \<and> unat b < 0xc0)"
    unfolding and_high word_unat_eq_iff high_part by simp_all
qed

lemma low_facts: "unat ((b::'a::len word) AND 0x1f) = unat b mod 32" "unat (b AND 0x0f) = unat b mod 16"
  "unat (b AND 0x07) = unat b mod 8" "unat (b AND 0x3f) = unat b mod 64" "unat (b AND 0x3ff) = unat b mod 1024"
proof -
  have "unat (b AND mask k) = unat b mod 2 ^ k" for k
    using unsigned_take_bit_eq [of k b, where 'a = nat] by (simp only: take_bit_eq_mask [symmetric]) (simp only: take_bit_eq_mod)
  from this [of 5] this [of 4] this [of 3] this [of 6] this [of 10] show
    "unat (b AND 0x1f) = unat b mod 32" "unat (b AND 0x0f) = unat b mod 16"
    "unat (b AND 0x07) = unat b mod 8" "unat (b AND 0x3f) = unat b mod 64" "unat (b AND 0x3ff) = unat b mod 1024"
    by (simp_all add: mask_eq_exp_minus_1)
qed

lemma or_add:
  assumes "unat (x :: u32) < 2 ^ k"
  shows "push_bit k c OR x = push_bit k c + x"
proof (rule disjunctive_add [symmetric])
  fix n
  have "\<not> bit x n" if "k \<le> n"
  proof
    assume "bit x n"
    then have "bit (unat x) n" by (simp add: bit_unsigned_iff)
    moreover have "unat x div 2 ^ n = 0"
      using assms power_increasing [OF that, of "2::nat"] by (simp add: div_eq_0_iff less_le_trans)
    ultimately show False by (simp add: bit_iff_odd)
  qed
  then show "\<not> bit (push_bit k c) n \<or> \<not> bit x n" by (auto simp: bit_simps)
qed

lemma cont_step:
  assumes "unat (cp :: u32) < 2 ^ 26"
  shows "unat (push_bit 6 cp OR ucast ((b::u8) AND 0x3f)) = unat cp * 64 + unat b mod 64"
proof -
  have b: "unat (ucast (b AND 0x3f) :: u32) = unat b mod 64"
    by (simp add: unat_ups low_facts)
  have "unat (push_bit 6 cp OR ucast (b AND 0x3f) :: u32) = unat (cp * 64 + ucast (b AND 0x3f) :: u32)"
    using or_add [of "ucast (b AND 0x3f)" 6 cp] b by (simp add: push_bit_eq_mult)
  also have "\<dots> = unat cp * 64 + unat b mod 64"
    using assms b by (simp add: unat_word_ariths)
  finally show ?thesis .
qed

lemma tail_byte: "unat (ucast (0x80 OR (x AND 0x3f) :: u32) :: u8) = 0x80 + unat x mod 64"
proof -
  have "0x80 OR (x AND 0x3f) = 0x80 + (x AND 0x3f)" using or_add [of "x AND 0x3f" 6 2] by (simp add: low_facts)
  then show ?thesis by (simp add: unat_downs unat_word_ariths low_facts)
qed

lemma lead_byte:
  assumes "unat (x :: u32) < 2 ^ k" and "unat (push_bit k d :: u32) + unat x < 256"
  shows "unat (ucast (push_bit k d OR x) :: u8) = unat (push_bit k d) + unat x"
  using assms(2) by (simp add: or_add [OF assms(1)] unat_downs unat_word_ariths)

section \<open>One code point\<close>

definition nat_bytes :: "nat \<Rightarrow> nat list" where
  "nat_bytes n = (if n < 0x80 then [n] else if n < 0x800 then [0xc0 + n div 64, 0x80 + n mod 64]
     else if n < 0x10000 then [0xe0 + n div 4096, 0x80 + n div 64 mod 64, 0x80 + n mod 64]
     else [0xf0 + n div 262144, 0x80 + n div 4096 mod 64, 0x80 + n div 64 mod 64, 0x80 + n mod 64])"

lemma unat_drops: "unat (drop_bit k (x::u32)) = unat x div 2 ^ k"
  using unsigned_less [of x, where 'a = nat] unfolding unsigned_drop_bit_eq by (simp add: drop_bit_eq_div take_bit_nat_eq_self)

lemma put_cp_nat:
  assumes "unat cp < 0x200000"
  shows "map unat (put_cp cp) = nat_bytes (unat cp)"
proof -
  let ?n = "unat cp"
  have c: "(cp < 0x80) = (?n < 0x80)" "(cp < 0x800) = (?n < 0x800)" "(cp < 0x10000) = (?n < 0x10000)"
    by (simp_all add: word_less_nat_alt)
  have "?n < 0x80 \<Longrightarrow> unat (ucast cp :: u8) = ?n" by (simp add: unat_downs)
  moreover have "?n < 0x800 \<Longrightarrow> unat (ucast (0xc0 OR drop_bit 6 cp) :: u8) = 0xc0 + ?n div 64"
    using lead_byte [of "drop_bit 6 cp" 5 6] by (simp add: unat_drops)
  moreover have "?n < 0x10000 \<Longrightarrow> unat (ucast (0xe0 OR drop_bit 12 cp) :: u8) = 0xe0 + ?n div 4096"
    using lead_byte [of "drop_bit 12 cp" 4 14] by (simp add: unat_drops)
  moreover have "unat (ucast (0xf0 OR drop_bit 18 cp) :: u8) = 0xf0 + ?n div 262144"
    using lead_byte [of "drop_bit 18 cp" 3 30] assms by (simp add: unat_drops)
  ultimately show ?thesis unfolding put_cp_def nat_bytes_def c by (simp add: unat_drops tail_byte)
qed

lemma put_cp_length: "length (put_cp cp) \<le> 4" "put_cp cp \<noteq> []" "cp < 0x10000 \<Longrightarrow> length (put_cp cp) \<le> 3"
  by (simp_all add: put_cp_def)

lemma byte_mods:
  "(128 + n mod 64) mod 64 = (n::nat) mod 64"
  "q < 32 \<Longrightarrow> (192 + q) mod 32 = (q::nat)" "q < 16 \<Longrightarrow> (224 + q) mod 16 = (q::nat)" "q < 8 \<Longrightarrow> (240 + q) mod 8 = (q::nat)"
  using mod_mult_self1 [of "n mod 64" 2 64] mod_mult_self1 [of q 6 32] mod_mult_self1 [of q 14 16] mod_mult_self1 [of q 30 8]
  by (simp_all add: add.commute)

text \<open>Continuation bytes put six bits each under what was read before.\<close>

definition is_cont :: "u8 \<Rightarrow> bool" where "is_cont b \<longleftrightarrow> 0x80 \<le> unat b \<and> unat b < 0xc0"

definition gather :: "nat \<Rightarrow> u8 list \<Rightarrow> nat" where
  "gather n bs = foldl (\<lambda>a b. a * 64 + unat b mod 64) n bs"

lemma gather_simps [simp]: "gather n [] = n" "gather n (b # bs) = gather (n * 64 + unat b mod 64) bs"
  by (simp_all add: gather_def)

lemma wtf8_conts_all:
  assumes "list_all is_cont bs" and "(unat cp + 1) * 64 ^ length bs \<le> 2 ^ 32"
  shows "\<exists>x. wtf8_conts (length bs) (length pre) (pre @ bs @ r) cp = Some (x, length pre + length bs) \<and> unat x = gather (unat cp) bs"
  using assms
proof (induction bs arbitrary: pre cp)
  case (Cons b bs)
  let ?c = "push_bit 6 cp OR ucast (b AND 0x3f)"
  have "(unat cp + 1) * 64 * 1 \<le> (unat cp + 1) * 64 * 64 ^ length bs" by (intro mult_left_mono) simp_all
  also have bound: "\<dots> \<le> 2 ^ 32" using Cons.prems(2) by (simp add: algebra_simps)
  finally have "(unat cp + 1) * 64 \<le> 2 ^ 32" by simp
  then have c: "unat ?c = unat cp * 64 + unat b mod 64" by (intro cont_step) simp
  have "unat ?c + 1 \<le> (unat cp + 1) * 64" unfolding c using mod_less_divisor [of 64 "unat b"] by simp
  then have "(unat ?c + 1) * 64 ^ length bs \<le> (unat cp + 1) * 64 * 64 ^ length bs" by (rule mult_right_mono) simp
  also note bound
  finally obtain x where x: "wtf8_conts (length bs) (length (pre @ [b])) ((pre @ [b]) @ bs @ r) ?c = Some (x, length (pre @ [b]) + length bs)"
      "unat x = gather (unat ?c) bs"
    using Cons.IH [of ?c "pre @ [b]"] Cons.prems(1) by auto
  moreover have "b AND 0xc0 = 0x80" using Cons.prems(1) by (simp add: byte_facts is_cont_def)
  ultimately show ?case by (simp add: c nth_append)
qed simp

lemma nat_split: "(n div 4096 * 64 + n div 64 mod 64) * 64 + n mod 64 = (n::nat)"
  "((n div 262144 * 64 + n div 4096 mod 64) * 64 + n div 64 mod 64) * 64 + n mod 64 = n"
proof -
  have "n div 64 div 64 * 64 + n div 64 mod 64 = n div 64" "n div 4096 div 64 * 64 + n div 4096 mod 64 = n div 4096" by simp_all
  then show "(n div 4096 * 64 + n div 64 mod 64) * 64 + n mod 64 = n"
    "((n div 262144 * 64 + n div 4096 mod 64) * 64 + n div 64 mod 64) * 64 + n mod 64 = n"
    by (simp_all only: div_mult2_eq [symmetric]) simp_all
qed

lemma wtf8_cp_put:
  assumes "unat cp < 0x200000"
  shows "wtf8_cp (put_cp cp @ r) = Some (cp, length (put_cp cp))"
proof -
  let ?n = "unat cp"
  note bytes = put_cp_nat [OF assms, unfolded nat_bytes_def]
  have eq: "(x = cp) = (unat x = ?n)" for x :: u32 by (simp add: word_unat_eq_iff)
  note less = word_less_nat_alt [where 'a = 8]
  have go: "wtf8_cp (a # bs @ r) = Some (cp, Suc (length bs))"
    if "wtf8_lead a = Some (length bs, q)" "0x80 \<le> unat a" "list_all is_cont bs" "(unat q + 1) * 64 ^ length bs \<le> 2 ^ 32"
      "gather (unat q) bs = ?n" for a bs q
    using wtf8_conts_all [OF that(3,4), of "[a]" r] that(1,2,5) by (auto simp: wtf8_cp_def less word_unat_eq_iff)
  consider "?n < 0x80" | "0x80 \<le> ?n" "?n < 0x800" | "0x800 \<le> ?n" "?n < 0x10000" | "0x10000 \<le> ?n" by linarith
  then show ?thesis
  proof cases
    case 1
    with bytes obtain a where "put_cp cp = [a]" "unat a = ?n" by (auto simp: map_eq_Cons_conv)
    with 1 show ?thesis by (simp add: wtf8_cp_def less eq unat_ups)
  next
    case 2
    with bytes obtain a b where p: "put_cp cp = [a, b]" "unat a = 0xc0 + ?n div 64" "unat b = 0x80 + ?n mod 64"
      by (auto simp: map_eq_Cons_conv)
    from 2 have "?n div 64 < 32" by simp
    with p show ?thesis using go [of a "[b]" "ucast (a AND 0x1f)"]
      by (simp add: wtf8_lead_def byte_facts is_cont_def unat_ups low_facts byte_mods)
  next
    case 3
    with bytes obtain a b c where p: "put_cp cp = [a, b, c]" "unat a = 0xe0 + ?n div 4096"
        "unat b = 0x80 + ?n div 64 mod 64" "unat c = 0x80 + ?n mod 64"
      by (auto simp: map_eq_Cons_conv)
    from 3 have "?n div 4096 < 16" by simp
    with p show ?thesis using go [of a "[b, c]" "ucast (a AND 0x0f)"] nat_split [of ?n]
      by (simp add: wtf8_lead_def byte_facts is_cont_def unat_ups low_facts byte_mods)
  next
    case 4
    with bytes obtain a b c d where p: "put_cp cp = [a, b, c, d]" "unat a = 0xf0 + ?n div 262144"
        "unat b = 0x80 + ?n div 4096 mod 64" "unat c = 0x80 + ?n div 64 mod 64" "unat d = 0x80 + ?n mod 64"
      by (auto simp: map_eq_Cons_conv)
    from assms have "?n div 262144 < 8" by simp
    with p show ?thesis using go [of a "[b, c, d]" "ucast (a AND 0x07)"] nat_split [of ?n]
      by (simp add: wtf8_lead_def byte_facts is_cont_def unat_ups low_facts byte_mods)
  qed
qed

section \<open>UTF-16 units\<close>

fun unit_cps :: "u16 list \<Rightarrow> u32 list" where
  "unit_cps [] = []"
| "unit_cps [c] = [ucast c]"
| "unit_cps (c # d # us) = (if is_high c \<and> is_low d then pair_cp c d # unit_cps us else ucast c # unit_cps (d # us))"

definition wtf8 :: "u32 list \<Rightarrow> u8 list" where
  "wtf8 cps = concat (map put_cp cps)"

lemma wtf8_simps [simp]: "wtf8 [] = []" "wtf8 (c # cs) = put_cp c @ wtf8 cs" "wtf8 (a @ b) = wtf8 a @ wtf8 b"
  by (simp_all add: wtf8_def)

lemma pair_nat:
  assumes "is_high c" and "is_low d"
  shows "unat (pair_cp c d) = 0x10000 + (unat c - 0xd800) * 1024 + (unat d - 0xdc00)"
proof -
  have c: "0xd800 \<le> unat c" "unat c \<le> 0xdbff" "0xdc00 \<le> unat d" "unat d \<le> 0xdfff"
    using assms by (simp_all add: is_high_def is_low_def word_le_nat_alt)
  have "unat (ucast c - 0xd800 :: u32) = unat c - 0xd800" "unat (ucast d - 0xdc00 :: u32) = unat d - 0xdc00"
    using c by (simp_all add: unat_sub word_le_nat_alt unat_ups)
  moreover define x y where "x = (ucast c - 0xd800 :: u32)" and "y = (ucast d - 0xdc00 :: u32)"
  ultimately have "unat x = unat c - 0xd800" "unat y = unat d - 0xdc00" by simp_all
  then have "unat (0x10000 + push_bit 10 x + y) = 0x10000 + (unat c - 0xd800) * 1024 + (unat d - 0xdc00)"
    using c by (simp add: push_bit_eq_mult unat_word_ariths)
  then show ?thesis by (simp add: pair_cp_def x_def y_def)
qed

lemma units_pair: "\<lbrakk>is_high c; is_low d\<rbrakk> \<Longrightarrow> cp_units (pair_cp c d) = [c, d]"
proof -
  assume a: "is_high c" "is_low d"
  have c: "0xd800 \<le> unat c" "unat c \<le> 0xdbff" "0xdc00 \<le> unat d" "unat d \<le> 0xdfff"
    using a by (simp_all add: is_high_def is_low_def word_le_nat_alt)
  let ?n = "(unat c - 0xd800) * 1024 + (unat d - 0xdc00)"
  have p: "unat (pair_cp c d) = 0x10000 + ?n" using pair_nat [OF a] by simp
  then have v: "unat (pair_cp c d - 0x10000) = ?n" by (simp add: unat_sub word_le_nat_alt)
  have split: "(q * 1024 + r) div 1024 = q" "(q * 1024 + r) mod 1024 = r" if "r < 1024" for q r :: nat using that by simp_all
  have "unat d - 0xdc00 < 1024" using c by linarith
  from split [OF this] have "?n div 1024 = unat c - 0xd800" "?n mod 1024 = unat d - 0xdc00" .
  then have "unat (ucast (0xd800 + drop_bit 10 (pair_cp c d - 0x10000)) :: u16) = unat c"
    "unat (ucast (0xdc00 + (pair_cp c d - 0x10000 AND 0x3ff)) :: u16) = unat d"
    using c v by (simp_all add: unat_downs unat_word_ariths unat_drops low_facts)
  with p show ?thesis by (simp add: cp_units_def word_le_nat_alt word_unat_eq_iff)
qed

lemma units_plain: "cp_units (ucast (c::u16)) = [c]"
  using unat_16 [of c] by (simp add: cp_units_def word_le_nat_alt unat_ups word_unat_eq_iff unat_downs)

lemma cp_units_length: "cp_units cp \<noteq> []" "length (cp_units cp) \<le> length (put_cp cp)"
  by (simp_all add: cp_units_def put_cp_def word_le_nat_alt word_less_nat_alt)

lemma units_inverse: "concat (map cp_units (unit_cps u)) = u"
  by (induction u rule: unit_cps.induct) (simp_all add: units_pair units_plain)

lemma unit_cps_range: "list_all (\<lambda>cp. unat cp < 0x110000) (unit_cps u)"
proof (induction u rule: unit_cps.induct)
  case (2 c)
  then show ?case using unat_16 [of c] by (simp add: unat_ups)
next
  case (3 c d us)
  moreover have "unat (pair_cp c d) < 0x110000" if "is_high c" "is_low d"
  proof -
    have "unat c \<le> 0xdbff" "unat d \<le> 0xdfff" using that by (simp_all add: is_high_def is_low_def word_le_nat_alt)
    then show ?thesis unfolding pair_nat [OF that] by simp
  qed
  ultimately show ?case using unat_16 [of c] by (simp add: unat_ups)
qed simp

lemma put_unit_length: "length (put_cp (ucast (c::u16))) \<le> 3"
  using unat_16 [of c] by (intro put_cp_length(3)) (simp add: word_less_nat_alt unat_ups)

lemma utf16_bytes_eq: "length out + 3 * length u \<le> cap \<Longrightarrow> utf16_bytes cap u out = Some (out @ wtf8 (unit_cps u))"
proof (induction cap u out rule: utf16_bytes.induct)
  case (2 cap c out)
  then show ?case using put_unit_length [of c] by (simp add: emit_def)
next
  case (3 cap c d us out)
  then show ?case using put_unit_length [of c] put_cp_length(1) [of "pair_cp c d"] by (simp add: emit_def)
qed simp

lemma wtf8_length: "length (wtf8 (unit_cps u)) \<le> 3 * length u"
proof (induction u rule: unit_cps.induct)
  case (2 c)
  then show ?case using put_unit_length [of c] by simp
next
  case (3 c d us)
  then show ?case
    using put_unit_length [of c] put_cp_length(1) [of "pair_cp c d"] by (cases "is_high c \<and> is_low d") auto
qed simp

lemma wtf8_units_eq:
  assumes "list_all (\<lambda>cp. unat cp < 0x200000) cps"
  shows "wtf8_units None (wtf8 cps) k out = Some (k + length (concat (map cp_units cps)), out)"
    and "length out + length (wtf8 cps) \<le> cap \<Longrightarrow>
      wtf8_units (Some cap) (wtf8 cps) k out = Some (k + length (concat (map cp_units cps)), out @ concat (map cp_units cps))"
  using assms
proof (induction cps arbitrary: k out)
  case (Cons c cs)
  {
    case 1
    with Cons.IH(1) show ?case
      by (subst wtf8_units.simps) (simp add: put_cp_length wtf8_cp_put del: length_concat)
  next
    case 2
    then show ?case using cp_units_length(2) [of c] Cons.IH(2) [of "out @ cp_units c"]
      by (subst wtf8_units.simps) (simp add: put_cp_length wtf8_cp_put emit_def del: length_concat)
  }
qed (simp_all add: wtf8_units.simps)

text \<open>
  C38. The text of the VM and UTF-16 are inverse to each other on every sequence of units, lone
  surrogates included: \<open>jcs_utf16_to_wtf8\<close> stays inside the three bytes per unit its callers provide,
  and \<open>jcs_wtf8_to_utf16\<close> gives the units back in a buffer of as many units as there are bytes, and
  counts them without a buffer.
\<close>

theorem wtf8_utf16_roundtrip:
  "\<exists>bs. jcs_utf16_to_wtf8 (3 * length u) u = Some bs \<and> length bs \<le> 3 * length u \<and>
     jcs_wtf8_to_utf16 (Some (length bs)) bs = Some (length u, u) \<and> jcs_wtf8_to_utf16 None bs = Some (length u, [])"
proof -
  have "list_all (\<lambda>cp. unat cp < 0x200000) (unit_cps u)"
    using unit_cps_range [of u] by (auto simp: list_all_iff)
  from wtf8_units_eq [OF this] show ?thesis
    by (simp add: jcs_utf16_to_wtf8_def jcs_wtf8_to_utf16_def utf16_bytes_eq wtf8_length units_inverse del: length_concat)
qed

end
