(* ===== verification/Charset_Stream.thy ===== *)
theory Charset_Stream
  imports Charset_Codec
begin

text \<open>
  Decoding a whole text and decoding it byte by byte agree, and encoding is undone by decoding.  The
  reference of both decoders is the sequence of code points (for UTF-8) or of units (for UTF-16)
  that the bytes denote, with a replacement character for each ill-formed part.
\<close>

section \<open>UTF-8\<close>

definition seq_cp :: "u8 \<Rightarrow> u8 list \<Rightarrow> u32" where
  "seq_cp b cs = of_nat (gather (unat b mod (if length cs = 1 then 32 else if length cs = 2 then 16 else 8)) cs)"

function dec8 :: "u8 list \<Rightarrow> u32 list" where
  "dec8 [] = []"
| "dec8 (b # bs) =
     (if b < 0x80 then ucast b # dec8 bs
      else case utf8_lead b of (need, lo, hi) \<Rightarrow>
        (if need \<noteq> 0 \<and> utf8_got need lo hi bs = need then seq_cp b (take need bs) else JCS_FFFD) #
          dec8 (drop (utf8_got need lo hi bs) bs))"
  by pat_completeness auto
termination
  by (relation "measure length") auto

lemma got_le: "utf8_got m lo hi bs \<le> m" "utf8_got m lo hi bs \<le> length bs"
  by (induction m lo hi bs rule: utf8_got.induct) auto

lemma got_conts: "utf8_got m 0x80 0xbf bs = m \<Longrightarrow> list_all is_cont (take m bs)"
proof (induction m arbitrary: bs)
  case (Suc m)
  then show ?case by (cases bs) (auto simp: is_cont_def word_le_nat_alt split: if_splits)
qed simp

lemma got_pos:
  assumes "utf8_got m lo hi bs = m" and "m \<noteq> 0"
  shows "\<exists>c r. bs = c # r \<and> unat lo \<le> unat c \<and> unat c \<le> unat hi \<and> utf8_got (m - 1) 0x80 0xbf r = m - 1"
  using assms by (cases m; cases bs) (auto simp: word_le_nat_alt split: if_splits)

text \<open>The second column of the table of well-formed sequences, as numbers.\<close>

lemma lead_cases:
  assumes "utf8_lead b = (need, lo, hi)" and "need \<noteq> 0"
  obtains "need = 1" "0xc2 \<le> unat b" "unat b \<le> 0xdf" "lo = 0x80" "hi = 0xbf"
    | "need = 2" "0xe0 \<le> unat b" "unat b \<le> 0xef" "0x80 \<le> unat lo" "unat hi \<le> 0xbf" "unat b = 0xe0 \<longrightarrow> 0xa0 \<le> unat lo"
      "unat b = 0xed \<longrightarrow> unat hi \<le> 0x9f"
    | "need = 3" "0xf0 \<le> unat b" "unat b \<le> 0xf4" "0x80 \<le> unat lo" "unat hi \<le> 0xbf" "unat b = 0xf0 \<longrightarrow> 0x90 \<le> unat lo"
      "unat b = 0xf4 \<longrightarrow> unat hi \<le> 0x8f"
  using assms by (auto simp: utf8_lead_def word_le_nat_alt word_unat_eq_iff split: if_splits)

lemma cont_mod: "\<lbrakk>0x80 \<le> n; n \<le> 0xbf\<rbrakk> \<Longrightarrow> n mod 64 = n - (128::nat)"
  using mod_mult_self1 [of "n - 128" 2 64] by simp

lemma split64: "c < 64 \<Longrightarrow> (x * 64 + c) div 64 = (x::nat)" "c < 64 \<Longrightarrow> (x * 64 + c) mod 64 = (c::nat)"
  by simp_all

lemma div_more: "n div 4096 = n div 64 div 64" "n div 262144 = n div 64 div 64 div (64::nat)"
  by (simp_all flip: div_mult2_eq)

lemma nat_bytes_2:
  "\<lbrakk>2 \<le> a; a < 32; b < 64\<rbrakk> \<Longrightarrow> nat_bytes (a * 64 + b) = [0xc0 + a, 0x80 + b]"
  by (simp add: nat_bytes_def)

lemma nat_bytes_3:
  assumes "a < 16" "b < 64" "c < 64" "32 \<le> a * 64 + b"
  shows "nat_bytes ((a * 64 + b) * 64 + c) = [0xe0 + a, 0x80 + b, 0x80 + c]"
proof -
  define n where "n = (a * 64 + b) * 64 + c"
  have "n div 64 = a * 64 + b" "n mod 64 = c" unfolding n_def by (rule split64 [OF assms(3)])+
  moreover have "2048 \<le> n" "n < 65536" using assms by (simp_all add: n_def)
  ultimately have "nat_bytes n = [0xe0 + a, 0x80 + b, 0x80 + c]"
    using split64 [OF assms(2), of a] unfolding nat_bytes_def div_more by simp
  then show ?thesis by (simp only: n_def)
qed

lemma nat_bytes_4:
  assumes "a \<le> 4" "b < 64" "c < 64" "d < 64" "16 \<le> a * 64 + b"
  shows "nat_bytes (((a * 64 + b) * 64 + c) * 64 + d) = [0xf0 + a, 0x80 + b, 0x80 + c, 0x80 + d]"
proof -
  define n where "n = ((a * 64 + b) * 64 + c) * 64 + d"
  have 1: "n div 64 = (a * 64 + b) * 64 + c" "n mod 64 = d" unfolding n_def by (rule split64 [OF assms(4)])+
  moreover have "((a * 64 + b) * 64 + c) div 64 = a * 64 + b" "((a * 64 + b) * 64 + c) mod 64 = c" by (rule split64 [OF assms(3)])+
  moreover have "65536 \<le> n" using assms by (simp add: n_def)
  ultimately have "nat_bytes n = [0xf0 + a, 0x80 + b, 0x80 + c, 0x80 + d]"
    using split64 [OF assms(2), of a] unfolding nat_bytes_def div_more by (simp only:) simp
  then show ?thesis by (simp only: n_def)
qed

lemma seq_put:
  assumes "map unat bs = nat_bytes n" and "n < 0x110000"
  shows "put_cp (of_nat n) = bs" and "unat (of_nat n :: u32) = n"
proof -
  show n: "unat (of_nat n :: u32) = n" using assms(2) by (simp add: unat_of_nat)
  have "map unat (put_cp (of_nat n)) = map unat bs" using assms n by (simp add: put_cp_nat)
  then show "put_cp (of_nat n) = bs" by (simp add: inj_map_eq_map)
qed

text \<open>A well-formed sequence is the spelling of its code point, which is no surrogate.\<close>

lemma well_formed:
  assumes "utf8_lead b = (need, lo, hi)" and "need \<noteq> 0" and "utf8_got need lo hi bs = need"
  shows "put_cp (seq_cp b (take need bs)) = b # take need bs" and "unat (seq_cp b (take need bs)) < 0x110000"
proof -
  have "\<exists>n < 0x110000. map unat (b # take need bs) = nat_bytes n \<and> seq_cp b (take need bs) = of_nat n"
    using assms(1,2)
  proof (cases rule: lead_cases)
    case 1
    then obtain c r where c: "bs = c # r" "0x80 \<le> unat c" "unat c \<le> 0xbf" using got_pos [OF assms(3,2)] by auto
    have "nat_bytes ((unat b - 192) * 64 + (unat c - 128)) = [unat b, unat c]"
      using 1 c nat_bytes_2 [of "unat b - 192" "unat c - 128"] by simp
    moreover have "unat b mod 32 = unat b - 192" using 1 byte_mods(2) [of "unat b - 192"] by simp
    ultimately show ?thesis
      using 1 c by (intro exI [of _ "(unat b - 192) * 64 + (unat c - 128)"]) (simp add: seq_cp_def cont_mod)
  next
    case 2
    then obtain c r where c: "bs = c # r" "unat lo \<le> unat c" "unat c \<le> unat hi" "utf8_got 1 0x80 0xbf r = 1"
      using got_pos [OF assms(3,2)] by auto
    from this(4) obtain d t where d: "r = d # t" "0x80 \<le> unat d" "unat d \<le> 0xbf" using got_pos [OF c(4)] by auto
    have "nat_bytes (((unat b - 224) * 64 + (unat c - 128)) * 64 + (unat d - 128)) = [unat b, unat c, unat d]"
      using 2 c d nat_bytes_3 [of "unat b - 224" "unat c - 128" "unat d - 128"] by (cases "unat b = 224") auto
    moreover have "unat b mod 16 = unat b - 224" using 2 byte_mods(3) [of "unat b - 224"] by simp
    ultimately show ?thesis
      using 2 c d by (intro exI [of _ "((unat b - 224) * 64 + (unat c - 128)) * 64 + (unat d - 128)"])
        (simp add: seq_cp_def cont_mod)
  next
    case 3
    then obtain c r where c: "bs = c # r" "unat lo \<le> unat c" "unat c \<le> unat hi" "utf8_got 2 0x80 0xbf r = 2"
      using got_pos [OF assms(3,2)] by auto
    from this(4) obtain d t where d: "r = d # t" "0x80 \<le> unat d" "unat d \<le> 0xbf" "utf8_got 1 0x80 0xbf t = 1"
      using got_pos [OF c(4)] by auto
    from this(4) obtain e v where e: "t = e # v" "0x80 \<le> unat e" "unat e \<le> 0xbf" using got_pos [OF d(4)] by auto
    let ?n = "(((unat b - 240) * 64 + (unat c - 128)) * 64 + (unat d - 128)) * 64 + (unat e - 128)"
    have "nat_bytes ?n = [unat b, unat c, unat d, unat e]"
      using 3 c d e nat_bytes_4 [of "unat b - 240" "unat c - 128" "unat d - 128" "unat e - 128"]
      by (cases "unat b = 240") auto
    moreover have "unat b mod 8 = unat b - 240" using 3 byte_mods(4) [of "unat b - 240"] by simp
    moreover have "?n < 0x110000" using 3 c d e by (cases "unat b = 244") auto
    ultimately show ?thesis using 3 c d e by (intro exI [of _ ?n]) (simp add: seq_cp_def cont_mod)
  qed
  then obtain n where n: "n < 0x110000" "map unat (b # take need bs) = nat_bytes n" "seq_cp b (take need bs) = of_nat n" by blast
  from seq_put [OF n(2,1)] n(1,3) show
    "put_cp (seq_cp b (take need bs)) = b # take need bs" "unat (seq_cp b (take need bs)) < 0x110000" by simp_all
qed

declare dec8.simps(2) [simp del] utf8_loop.simps(2) [simp del]

lemma fffd_small: "unat JCS_FFFD = 0xfffd"
  by (simp add: JCS_FFFD_def)

lemma fffd_length: "length (put_cp JCS_FFFD) = 3"
  by (simp add: JCS_FFFD_def put_cp_def)

lemma dec8_range: "list_all (\<lambda>cp. unat cp < 0x110000) (dec8 bs)"
proof (induction bs rule: dec8.induct)
  case (2 b bs)
  obtain need lo hi where l: "utf8_lead b = (need, lo, hi)" by (cases "utf8_lead b")
  show ?case
    using 2(2) [OF _ l [symmetric] refl] 2(1) well_formed(2) [OF l] unat_8 [of b]
    by (auto simp: dec8.simps(2) [of b] l unat_ups fffd_small)
qed simp

lemma utf8_loop_eq: "length out + 3 * length bs \<le> cap \<Longrightarrow> utf8_loop cap bs out = Some (out @ wtf8 (dec8 bs))"
proof (induction cap bs out rule: utf8_loop.induct)
  case (2 cap b bs out)
  show ?case
  proof (cases "b < 0x80")
    case True
    then have "put_cp (ucast b) = [b]"
      by (simp add: put_cp_def word_less_nat_alt unat_ups word_unat_eq_iff unat_downs)
    with True 2 show ?thesis by (simp add: utf8_loop.simps(2) dec8.simps(2) emit_def)
  next
    case False
    obtain need lo hi where l: "utf8_lead b = (need, lo, hi)" by (cases "utf8_lead b")
    let ?g = "utf8_got need lo hi bs"
    define x where "x = (if need \<noteq> 0 \<and> ?g = need then b # take need bs else put_cp JCS_FFFD)"
    have g: "?g \<le> length bs" using got_le(2) .
    have len: "length x + 3 * length (drop ?g bs) \<le> 3 * length (b # bs)"
      using g by (auto simp: x_def fffd_length)
    have "x = put_cp (if need \<noteq> 0 \<and> ?g = need then seq_cp b (take need bs) else JCS_FFFD)"
      using well_formed(1) [OF l] by (simp add: x_def)
    moreover have "emit cap out x = Some (out @ x)" using 2(3) len by (simp add: emit_def)
    moreover have "utf8_loop cap (drop ?g bs) (out @ x) = Some ((out @ x) @ wtf8 (dec8 (drop ?g bs)))"
      using 2(2) [OF False l [symmetric] refl] 2(3) len calculation(2) by (simp add: x_def l)
    ultimately show ?thesis using False l by (simp add: utf8_loop.simps(2) dec8.simps(2) x_def)
  qed
qed simp

lemma dec8_length: "length (wtf8 (dec8 bs)) \<le> 3 * length bs"
proof (induction bs rule: dec8.induct)
  case (2 b bs)
  obtain need lo hi where l: "utf8_lead b = (need, lo, hi)" by (cases "utf8_lead b")
  let ?g = "utf8_got need lo hi bs"
  have g: "?g \<le> length bs" using got_le(2) .
  show ?case
  proof (cases "b < 0x80")
    case True
    have "length (put_cp (ucast b)) \<le> 3" using unat_8 [of b] by (intro put_cp_length(3)) (simp add: word_less_nat_alt unat_ups)
    with True 2(1) show ?thesis by (simp add: dec8.simps(2))
  next
    case False
    have "length (put_cp (if need \<noteq> 0 \<and> ?g = need then seq_cp b (take need bs) else JCS_FFFD)) + 3 * length (drop ?g bs) \<le> 3 * length (b # bs)"
      using g well_formed(1) [OF l] by (auto simp: fffd_length)
    with False 2(2) [OF False l [symmetric] refl] l show ?thesis by (simp add: dec8.simps(2))
  qed
qed simp

lemma utf8_decode_eq: "al (length bs * 3 + 1) \<Longrightarrow> utf8_decode al bs = Some (Some (wtf8 (dec8 bs)))"
  using utf8_loop_eq [of "[]" bs "length bs * 3 + 1"] dec8_length [of bs]
  by (simp add: utf8_decode_def terminated_def)

section \<open>The queue of a decoder\<close>

definition queue :: "jcs_decoder \<Rightarrow> u16 list" where
  "queue d = map (\<lambda>i. d_q d ! ((d_qh d + i) mod 16)) [0..<d_qn d]"

definition queue_ok :: "jcs_decoder \<Rightarrow> bool" where
  "queue_ok d \<longleftrightarrow> length (d_q d) = 16 \<and> d_qh d < 16 \<and> d_qn d \<le> 16"

lemma queue_empty [simp]: "queue d = [] \<longleftrightarrow> d_qn d = 0"
  by (simp add: queue_def)

lemma queue_length [simp]: "length (queue d) = d_qn d"
  by (simp add: queue_def)

lemma slot_inj: "\<lbrakk>i < 16; j < 16; (h + i) mod 16 = (h + j) mod (16::nat)\<rbrakk> \<Longrightarrow> i = j"
proof (induction i j rule: linorder_wlog)
  case (le i j)
  then have "16 dvd (h + j) - (h + i)" using mod_eq_dvd_iff_nat [of "h + i" "h + j" 16] by simp
  with le(1,3) show ?case using dvd_imp_le [of 16 "j - i"] by (cases "i < j") auto
qed simp

lemma dq_push_queue:
  assumes "queue_ok d" and "d_qn d < 16"
  shows "\<exists>q n. dq_push u d = Some (d\<lparr>d_q := q, d_qn := n\<rparr>) \<and> queue_ok (d\<lparr>d_q := q, d_qn := n\<rparr>) \<and>
    queue (d\<lparr>d_q := q, d_qn := n\<rparr>) = queue d @ [u] \<and> n = d_qn d + 1"
proof -
  let ?k = "(d_qh d + d_qn d) mod 16"
  have "?k \<noteq> (d_qh d + i) mod 16" if "i < d_qn d" for i
    using slot_inj [of i "d_qn d" "d_qh d"] that assms(2) by auto
  then have "queue (d\<lparr>d_q := (d_q d)[?k := u], d_qn := d_qn d + 1\<rparr>) = queue d @ [u]"
    using assms by (auto simp: queue_def queue_ok_def nth_list_update_neq)
  moreover have "dq_push u d = Some (d\<lparr>d_q := (d_q d)[?k := u], d_qn := d_qn d + 1\<rparr>)"
    using assms by (simp add: dq_push_def queue_ok_def)
  ultimately show ?thesis using assms by (auto simp: queue_ok_def)
qed

lemma push_cp_queue:
  assumes "queue_ok d" and "d_qn d \<le> 14"
  shows "\<exists>q n. push_cp cp d = Some (d\<lparr>d_q := q, d_qn := n\<rparr>) \<and> queue_ok (d\<lparr>d_q := q, d_qn := n\<rparr>) \<and>
    queue (d\<lparr>d_q := q, d_qn := n\<rparr>) = queue d @ cp_units cp"
proof (cases "0x10000 \<le> cp")
  case True
  obtain q n where 1: "dq_push (ucast (0xd800 + drop_bit 10 (cp - 0x10000))) d = Some (d\<lparr>d_q := q, d_qn := n\<rparr>)"
      "queue_ok (d\<lparr>d_q := q, d_qn := n\<rparr>)" "queue (d\<lparr>d_q := q, d_qn := n\<rparr>) = queue d @ [ucast (0xd800 + drop_bit 10 (cp - 0x10000))]"
      "n = d_qn d + 1"
    using dq_push_queue [OF assms(1)] assms(2) by force
  obtain q' n' where 2: "dq_push (ucast (0xdc00 + (cp - 0x10000 AND 0x3ff))) (d\<lparr>d_q := q, d_qn := n\<rparr>) = Some (d\<lparr>d_q := q', d_qn := n'\<rparr>)"
      "queue_ok (d\<lparr>d_q := q', d_qn := n'\<rparr>)"
      "queue (d\<lparr>d_q := q', d_qn := n'\<rparr>) = queue (d\<lparr>d_q := q, d_qn := n\<rparr>) @ [ucast (0xdc00 + (cp - 0x10000 AND 0x3ff))]"
    using dq_push_queue [OF 1(2)] 1(4) assms(2) by force
  from True 1(1,3) 2 show ?thesis by (auto simp: push_cp_def cp_units_def)
next
  case False
  then show ?thesis using dq_push_queue [OF assms(1), of "ucast cp"] assms(2) by (auto simp: push_cp_def cp_units_def)
qed

lemma dq_pop_queue:
  assumes "queue_ok d" and "queue d = u # us"
  shows "\<exists>h n. dq_pop d = Some (uint u, d\<lparr>d_qh := h, d_qn := n\<rparr>) \<and> queue_ok (d\<lparr>d_qh := h, d_qn := n\<rparr>) \<and>
    queue (d\<lparr>d_qh := h, d_qn := n\<rparr>) = us"
proof -
  let ?d = "d\<lparr>d_qh := (d_qh d + 1) mod 16, d_qn := d_qn d - 1\<rparr>"
  obtain m where m: "d_qn d = Suc m" using assms(2) by (cases "d_qn d") (auto simp: queue_def)
  have "map (\<lambda>i. d_q d ! ((d_qh d + i) mod 16)) [0..<Suc m] = u # us" using assms(2) m by (simp add: queue_def del: upt_Suc)
  then have "u = d_q d ! (d_qh d mod 16)" and us: "us = map (\<lambda>i. d_q d ! ((d_qh d + Suc i) mod 16)) [0..<m]"
    by (simp_all only: upt_conv_Cons [OF zero_less_Suc] list.map list.inject map_Suc_upt [symmetric] map_map o_def add_0_right)
  then have "dq_pop d = Some (uint u, ?d)" using assms(1) by (simp add: dq_pop_def queue_ok_def)
  moreover have "queue ?d = us" unfolding us using m by (simp add: queue_def mod_add_left_eq)
  moreover have "queue_ok ?d" using assms(1) by (auto simp: queue_ok_def)
  ultimately show ?thesis by blast
qed

section \<open>Reading everything\<close>

definition byte_reader :: "u8 list reader" where
  "byte_reader s = (case s of [] \<Rightarrow> (-1, []) | b # bs \<Rightarrow> (uint b, bs))"

text \<open>Asking for units until the decoder returns a negative number.\<close>

primrec drain :: "(jcs_decoder \<Rightarrow> 's \<Rightarrow> (int \<times> jcs_decoder \<times> 's) option) \<Rightarrow> 's reader \<Rightarrow> nat \<Rightarrow> jcs_decoder \<Rightarrow> 's \<Rightarrow>
    (u16 list \<times> int) option" where
  "drain other nb 0 d s = None"
| "drain other nb (Suc n) d s = do {
     (r, d, s) \<leftarrow> jcs_decoder_next other nb d s;
     if r < 0 then Some ([], r) else do { (us, e) \<leftarrow> drain other nb n d s; Some (word_of_int r # us, e) } }"

text \<open>
  What a kind of charset owes the decoder: \<open>rest d s us\<close> says that \<open>us\<close> are the units still to come after
  those in the queue.  Filling an empty queue takes some of them, or reports the end when there are
  none; the position in the queue does not matter.
\<close>

locale unit_source =
  fixes other :: "jcs_decoder \<Rightarrow> u8 list \<Rightarrow> (int \<times> jcs_decoder \<times> u8 list) option"
    and rest :: "jcs_decoder \<Rightarrow> u8 list \<Rightarrow> u16 list \<Rightarrow> bool"
  assumes fill_end: "\<lbrakk>queue_ok d; queue d = []; rest d s []\<rbrakk> \<Longrightarrow>
      \<exists>d' s'. dec_fill other byte_reader d s = Some (-1, d', s') \<and> queue d' = []"
    and fill_some: "\<lbrakk>queue_ok d; queue d = []; rest d s us; us \<noteq> []\<rbrakk> \<Longrightarrow>
      \<exists>d' s' vs. dec_fill other byte_reader d s = Some (0, d', s') \<and> queue_ok d' \<and> queue d' \<noteq> [] \<and> us = queue d' @ vs \<and> rest d' s' vs"
    and rest_queue: "rest (d\<lparr>d_qh := h, d_qn := n\<rparr>) s us = rest d s us"
begin

lemma next_end:
  "\<lbrakk>queue_ok d; queue d = []; rest d s []\<rbrakk> \<Longrightarrow> \<exists>d' s'. jcs_decoder_next other byte_reader d s = Some (-1, d', s')"
  using fill_end [of d s] by (auto simp: jcs_decoder_next_def)

lemma next_some:
  assumes "queue_ok d" and "rest d s us" and "queue d @ us = v # vs"
  shows "\<exists>d' s' us'. jcs_decoder_next other byte_reader d s = Some (uint v, d', s') \<and> queue_ok d' \<and> rest d' s' us' \<and> queue d' @ us' = vs"
proof -
  obtain d1 s1 us1 where f: "(if d_qn d = 0 then dec_fill other byte_reader d s else Some (0, d, s)) = Some (0, d1, s1)"
      "queue_ok d1" "rest d1 s1 us1" "queue d1 @ us1 = v # vs" "queue d1 \<noteq> []"
  proof (cases "d_qn d = 0")
    case True
    then have q: "queue d = []" by simp
    with assms(3) have "us \<noteq> []" by (auto simp del: queue_empty)
    then obtain d' s' ws where "dec_fill other byte_reader d s = Some (0, d', s')" "queue_ok d'" "queue d' \<noteq> []"
        "us = queue d' @ ws" "rest d' s' ws"
      using fill_some [OF assms(1) q assms(2)] by blast
    moreover have "us = v # vs" using assms(3) q by simp
    ultimately show ?thesis using True that [of d' s' ws] by simp
  next
    case False
    with assms that show ?thesis by auto
  qed
  then obtain ws where "queue d1 = v # ws" "vs = ws @ us1" by (cases "queue d1") auto
  with dq_pop_queue [OF f(2), of v ws] f(1,3,5) show ?thesis
    by (auto simp: jcs_decoder_next_def rest_queue)
qed

lemma drains:
  "\<lbrakk>queue_ok d; rest d s us; length (queue d @ us) < n\<rbrakk> \<Longrightarrow> drain other byte_reader n d s = Some (queue d @ us, -1)"
proof (induction n arbitrary: d s us)
  case (Suc n)
  show ?case
  proof (cases "queue d @ us")
    case Nil
    then have "queue d = []" "us = []" by (simp_all del: queue_empty)
    with next_end [of d s] Suc.prems show ?thesis by (auto simp del: queue_empty)
  next
    case (Cons v vs)
    obtain d' s' us' where n: "jcs_decoder_next other byte_reader d s = Some (uint v, d', s')" "queue_ok d'" "rest d' s' us'" "queue d' @ us' = vs"
      using next_some [OF Suc.prems(1,2) Cons] by blast
    moreover have "length (queue d' @ us') < n" using Suc.prems(3) Cons n(4) by simp
    ultimately show ?thesis using Suc.IH [OF n(2,3)] Cons by simp
  qed
qed simp

end

section \<open>Bytes ahead\<close>

text \<open>The bytes that a decoder has not looked at, or has held back.\<close>

definition ahead :: "jcs_decoder \<Rightarrow> u8 list \<Rightarrow> u8 list \<Rightarrow> bool" where
  "ahead d s bs \<longleftrightarrow> d_held d = -3 \<and> bs = s \<or> (\<exists>b. d_held d = uint b \<and> bs = b # s) \<or> d_held d = -1 \<and> s = [] \<and> bs = []"

definition first_byte :: "u8 list \<Rightarrow> int" where
  "first_byte bs = (case bs of [] \<Rightarrow> -1 | b # _ \<Rightarrow> uint b)"

lemma uint_pos: "- 3 \<noteq> uint (b::u8)" "uint b \<noteq> - 3" "uint b \<noteq> - 2" "\<not> uint b < 0"
  using uint_ge_0 [of b] by linarith+

lemma dec_byte_ahead: "ahead d s bs \<Longrightarrow> dec_byte byte_reader d s = (first_byte bs, d\<lparr>d_held := -3\<rparr>, tl bs)"
  by (auto simp: ahead_def dec_byte_def byte_reader_def first_byte_def uint_pos split: list.splits)

lemma dec_byte_plain: "d_held d = -3 \<Longrightarrow> dec_byte byte_reader d s = (first_byte s, d, tl s)"
  using dec_byte_ahead [of d s s] by (simp add: ahead_def)

lemma ahead_hold: "ahead (d\<lparr>d_held := first_byte bs\<rparr>) (tl bs) bs"
  by (cases bs) (auto simp: ahead_def first_byte_def)

lemma queue_other [simp]:
  "queue (d\<lparr>d_held := a\<rparr>) = queue d" "queue (d\<lparr>d_done := b\<rparr>) = queue d" "queue (d\<lparr>d_held_unit := a\<rparr>) = queue d"
  "queue (d\<lparr>d_bom_done := b\<rparr>) = queue d" "queue (d\<lparr>d_little := b\<rparr>) = queue d"
  "queue_ok (d\<lparr>d_held := a\<rparr>) = queue_ok d" "queue_ok (d\<lparr>d_done := b\<rparr>) = queue_ok d" "queue_ok (d\<lparr>d_held_unit := a\<rparr>) = queue_ok d"
  "queue_ok (d\<lparr>d_bom_done := b\<rparr>) = queue_ok d" "queue_ok (d\<lparr>d_little := b\<rparr>) = queue_ok d"
  by (simp_all add: queue_def queue_ok_def)

lemma int_byte: "(word_of_int (uint (c::u8)) :: u32) AND 0x3f = ucast (c AND 0x3f)"
proof -
  have "(word_of_int (uint c) :: u32) = ucast c" by simp
  then show ?thesis by (simp add: word_unat_eq_iff low_facts unat_ups)
qed

lemma dec_conts_eq:
  assumes "d_held d = -3" and "(unat cp + 1) * 64 ^ m \<le> 2 ^ 32"
  shows "if utf8_got m lo hi s = m
    then \<exists>x. dec_conts byte_reader m lo hi cp d s = (Inr x, d, drop m s) \<and> unat x = gather (unat cp) (take m s)
    else dec_conts byte_reader m lo hi cp d s =
      (Inl (-1), d\<lparr>d_held := first_byte (drop (utf8_got m lo hi s) s)\<rparr>, tl (drop (utf8_got m lo hi s) s))"
  using assms(2)
proof (induction m arbitrary: lo hi cp s)
  case (Suc m)
  show ?case
  proof (cases s)
    case Nil
    then show ?thesis by (simp add: dec_byte_plain [OF assms(1)] first_byte_def)
  next
    case (Cons c r)
    have b: "dec_byte byte_reader d (c # r) = (uint c, d, r)" by (simp add: dec_byte_plain [OF assms(1)] first_byte_def)
    let ?c = "push_bit 6 cp OR (word_of_int (uint c) AND 0x3f) :: u32"
    have "(unat cp + 1) * 64 * 1 \<le> (unat cp + 1) * 64 * 64 ^ m" by (intro mult_left_mono) simp_all
    also have bound: "\<dots> \<le> 2 ^ 32" using Suc.prems by (simp add: algebra_simps)
    finally have "(unat cp + 1) * 64 \<le> 2 ^ 32" by simp
    then have n: "unat ?c = unat cp * 64 + unat c mod 64" unfolding int_byte by (intro cont_step) simp
    have "unat ?c + 1 \<le> (unat cp + 1) * 64" unfolding n using mod_less_divisor [of 64 "unat c"] by simp
    then have "(unat ?c + 1) * 64 ^ m \<le> (unat cp + 1) * 64 * 64 ^ m" by (rule mult_right_mono) simp
    also note bound
    finally have IH: "if utf8_got m 0x80 0xbf r = m
      then \<exists>x. dec_conts byte_reader m 0x80 0xbf ?c d r = (Inr x, d, drop m r) \<and> unat x = gather (unat ?c) (take m r)
      else dec_conts byte_reader m 0x80 0xbf ?c d r =
        (Inl (-1), d\<lparr>d_held := first_byte (drop (utf8_got m 0x80 0xbf r) r)\<rparr>, tl (drop (utf8_got m 0x80 0xbf r) r))"
      by (rule Suc.IH)
    have le: "(uint c < uint lo \<or> uint hi < uint c) = (\<not> (lo \<le> c \<and> c \<le> hi))" by (auto simp: word_le_def)
    show ?thesis
    proof (cases "lo \<le> c \<and> c \<le> hi")
      case True
      then have "dec_conts byte_reader (Suc m) lo hi cp d s = dec_conts byte_reader m 0x80 0xbf ?c d r"
        using Cons b le by (simp add: uint_pos)
      with True Cons IH n show ?thesis by (simp split: if_splits)
    next
      case False
      then have "dec_conts byte_reader (Suc m) lo hi cp d s = (Inl (-1), d\<lparr>d_held := uint c\<rparr>, r)"
        using Cons b le by (simp add: uint_pos)
      with False Cons show ?thesis by (auto simp add: first_byte_def simp del: dec_conts.simps)
    qed
  qed
qed simp

section \<open>UTF-8 streams\<close>

definition rest8 :: "jcs_decoder \<Rightarrow> u8 list \<Rightarrow> u16 list \<Rightarrow> bool" where
  "rest8 d s us \<longleftrightarrow> d_kind d = JCS_UTF8 \<and>
     (\<exists>bs. ahead d s bs \<and> (d_done d \<longrightarrow> bs = []) \<and> us = concat (map cp_units (dec8 bs)))"

lemma dec8_nonempty: "concat (map cp_units (dec8 (b # bs))) \<noteq> []"
  using cp_units_length(1) by (simp add: dec8.simps(2) split: prod.split)

lemma rest8_end: "rest8 d s [] \<Longrightarrow> \<exists>x y. dec_fill other byte_reader d s = Some (-1, d\<lparr>d_held := x, d_done := y\<rparr>, [])
    \<or> dec_fill other byte_reader d s = Some (-1, d, s)"
proof -
  assume "rest8 d s []"
  then obtain bs where bs: "d_kind d = JCS_UTF8" "ahead d s bs" "concat (map cp_units (dec8 bs)) = []" unfolding rest8_def by metis
  then have "bs = []" using dec8_nonempty by (cases bs) auto
  with bs(1,2) show ?thesis
    by (auto simp: dec_fill_def dec_fill_utf8_def dec_byte_ahead first_byte_def)
qed

lemma conts_lead:
  assumes l: "utf8_lead b = (need, lo, hi)" and h: "d_held d = -3"
  shows "\<exists>cp h s1. (case dec_conts byte_reader need lo hi
        (word_of_int (uint b) AND (if need = 1 then 0x1f else if need = 2 then 0x0f else 0x07)) d r of (x, e, t) \<Rightarrow>
      if x = Inl (-2) then None
      else Some (case x of Inl _ \<Rightarrow> JCS_FFFD | Inr cp \<Rightarrow> if need = 0 then JCS_FFFD else cp, e, t)) = Some (cp, d\<lparr>d_held := h\<rparr>, s1) \<and>
    ahead (d\<lparr>d_held := h\<rparr>) s1 (drop (utf8_got need lo hi r) r) \<and>
    cp = (if need \<noteq> 0 \<and> utf8_got need lo hi r = need then seq_cp b (take need r) else JCS_FFFD)"
proof -
  let ?g = "utf8_got need lo hi r"
  let ?k = "if need = 1 then 32 else if need = 2 then 16 else 8 :: nat"
  define c where "c = (word_of_int (uint b) AND (if need = 1 then 0x1f else if need = 2 then 0x0f else 0x07) :: u32)"
  have c: "unat c = unat b mod ?k" by (simp add: c_def low_facts unat_ups)
  have "need \<le> 3" using l by (auto simp: utf8_lead_def split: if_splits)
  then have "(64::nat) ^ need \<le> 64 ^ 3" by (intro power_increasing) simp_all
  moreover have "unat c + 1 \<le> 32" unfolding c using mod_less_divisor [of ?k "unat b"] by (auto split: if_splits)
  ultimately have "(unat c + 1) * 64 ^ need \<le> 32 * 64 ^ 3" by (rule mult_le_mono [rotated])
  then have "(unat c + 1) * 64 ^ need \<le> 2 ^ 32" by simp
  note eq = dec_conts_eq [OF h this, of lo hi r]
  have same: "d\<lparr>d_held := -3\<rparr> = d" using h by simp
  show ?thesis
  proof (cases "?g = need")
    case True
    then obtain x where x: "dec_conts byte_reader need lo hi c d r = (Inr x, d, drop need r)" "unat x = gather (unat c) (take need r)"
      using eq by auto
    have len: "length (take need r) = need" using True got_le(2) [of need lo hi r] by simp
    have "seq_cp b (take need r) = of_nat (unat x)" unfolding seq_cp_def len x(2) c ..
    then have "seq_cp b (take need r) = x" by simp
    with x(1) True same h show ?thesis unfolding c_def [symmetric]
      by (intro exI [of _ "if need = 0 then JCS_FFFD else x"] exI [of _ "-3"] exI [of _ "drop need r"]) (simp add: ahead_def)
  next
    case False
    with eq ahead_hold [of "drop ?g r" d] show ?thesis unfolding c_def [symmetric]
      by (intro exI [of _ JCS_FFFD] exI [of _ "first_byte (drop ?g r)"] exI [of _ "tl (drop ?g r)"]) simp
  qed
qed

lemma fill8_step:
  assumes "queue_ok d" and "queue d = []" and "d_kind d = JCS_UTF8" and "ahead d s (b # r)" and "\<not> d_done d"
  shows "\<exists>d' s' bs. dec_fill other byte_reader d s = Some (0, d', s') \<and> queue_ok d' \<and> d_kind d' = JCS_UTF8 \<and> \<not> d_done d' \<and>
    ahead d' s' bs \<and> queue d' = cp_units (hd (dec8 (b # r))) \<and> tl (dec8 (b # r)) = dec8 bs"
proof -
  let ?d = "d\<lparr>d_held := -3\<rparr>"
  have fb: "dec_byte byte_reader d s = (uint b, ?d, r)" using dec_byte_ahead [OF assms(4)] by (simp add: first_byte_def)
  have e: "queue e = [] \<Longrightarrow> d_qn e = 0" for e by simp
  have small: "(uint b < 0x80) = (b < 0x80)" by (simp add: word_less_def)
  show ?thesis
  proof (cases "b < 0x80")
    case True
    obtain q n where "dq_push (word_of_int (uint b)) ?d = Some (?d\<lparr>d_q := q, d_qn := n\<rparr>)" "queue_ok (?d\<lparr>d_q := q, d_qn := n\<rparr>)"
        "queue (?d\<lparr>d_q := q, d_qn := n\<rparr>) = [word_of_int (uint b)]"
      using dq_push_queue [of ?d "word_of_int (uint b)"] assms(1,2) by auto
    moreover have "cp_units (ucast b) = [word_of_int (uint b)]"
      using unat_8 [of b] by (simp add: cp_units_def word_le_nat_alt word_unat_eq_iff unat_ups unat_downs)
    ultimately show ?thesis using True small fb assms(3,5)
      by (intro exI [of _ "?d\<lparr>d_q := q, d_qn := n\<rparr>"] exI [of _ r])
        (auto simp: dec_fill_def dec_fill_utf8_def uint_pos dec8.simps(2) ahead_def)
  next
    case False
    obtain need lo hi where l: "utf8_lead b = (need, lo, hi)" by (cases "utf8_lead b")
    obtain cp d1 s1 where c: "(case dec_conts byte_reader need lo hi
          (word_of_int (uint b) AND (if need = 1 then 0x1f else if need = 2 then 0x0f else 0x07)) ?d r of (x, e, t) \<Rightarrow>
        if x = Inl (-2) then None
        else Some (case x of Inl _ \<Rightarrow> JCS_FFFD | Inr cp \<Rightarrow> if need = 0 then JCS_FFFD else cp, e, t)) = Some (cp, d1, s1)"
      and d1: "\<exists>h. d1 = d\<lparr>d_held := h\<rparr>" "ahead d1 s1 (drop (utf8_got need lo hi r) r)"
      and cp: "cp = (if need \<noteq> 0 \<and> utf8_got need lo hi r = need then seq_cp b (take need r) else JCS_FFFD)"
      using conts_lead [OF l, of ?d r] by auto
    obtain q n where p: "push_cp cp d1 = Some (d1\<lparr>d_q := q, d_qn := n\<rparr>)" "queue_ok (d1\<lparr>d_q := q, d_qn := n\<rparr>)"
        "queue (d1\<lparr>d_q := q, d_qn := n\<rparr>) = cp_units cp"
      using push_cp_queue [of d1 cp] d1(1) assms(1,2) by auto
    have "dec_fill other byte_reader d s = Some (0, d1\<lparr>d_q := q, d_qn := n\<rparr>, s1)"
      using c p(1) fb False small l assms(3,5)
      by (auto simp: dec_fill_def dec_fill_utf8_def uint_pos Let_def split: prod.splits if_splits)
    moreover have "dec8 (b # r) = cp # dec8 (drop (utf8_got need lo hi r) r)" using False l cp by (simp add: dec8.simps(2))
    moreover have "ahead (d1\<lparr>d_q := q, d_qn := n\<rparr>) s1 (drop (utf8_got need lo hi r) r)" using d1(2) by (simp add: ahead_def)
    ultimately show ?thesis using p(2,3) d1(1) assms(3,5) by (intro exI [of _ "d1\<lparr>d_q := q, d_qn := n\<rparr>"]) auto
  qed
qed

interpretation utf8: unit_source other rest8 for other
proof
  fix d s
  assume a: "queue_ok d" "queue d = []" "rest8 d s []"
  from rest8_end [OF a(3), of other] obtain x y where
    "dec_fill other byte_reader d s = Some (-1, d\<lparr>d_held := x, d_done := y\<rparr>, []) \<or> dec_fill other byte_reader d s = Some (-1, d, s)" by blast
  with a(2) show "\<exists>d' s'. dec_fill other byte_reader d s = Some (-1, d', s') \<and> queue d' = []" by auto
next
  fix d s us
  assume a: "queue_ok d" "queue d = []" "rest8 d s us" "us \<noteq> []"
  then obtain bs where bs: "d_kind d = JCS_UTF8" "ahead d s bs" "d_done d \<longrightarrow> bs = []" "us = concat (map cp_units (dec8 bs))"
    unfolding rest8_def by blast
  with a(4) obtain b r where b: "bs = b # r" by (cases bs) auto
  then have "\<not> d_done d" using bs(3) by simp
  from fill8_step [OF a(1,2) bs(1) bs(2) [unfolded b] this, of other] obtain d' s' cs where f:
    "dec_fill other byte_reader d s = Some (0, d', s')" "queue_ok d'" "d_kind d' = JCS_UTF8" "\<not> d_done d'" "ahead d' s' cs"
    "queue d' = cp_units (hd (dec8 (b # r)))" "tl (dec8 (b # r)) = dec8 cs" by blast
  have "dec8 (b # r) \<noteq> []" by (simp add: dec8.simps(2) split: prod.split)
  then have "us = queue d' @ concat (map cp_units (dec8 cs))"
    using f(6,7) bs(4) b by (cases "dec8 (b # r)") auto
  moreover have "rest8 d' s' (concat (map cp_units (dec8 cs)))" using f(3,4,5) by (auto simp: rest8_def)
  moreover have "queue d' \<noteq> []" using f(6) cp_units_length(1) by (metis)
  ultimately show "\<exists>d' s' vs. dec_fill other byte_reader d s = Some (0, d', s') \<and> queue_ok d' \<and> queue d' \<noteq> [] \<and>
      us = queue d' @ vs \<and> rest8 d' s' vs"
    using f(1,2) by blast
qed (simp add: rest8_def ahead_def)

section \<open>One byte per unit\<close>

definition latin_unit :: "jcs_kind \<Rightarrow> u8 \<Rightarrow> u16" where
  "latin_unit k b = (if k = JCS_ASCII \<and> 0x80 \<le> b then 0xfffd else ucast b)"

definition restl :: "jcs_decoder \<Rightarrow> u8 list \<Rightarrow> u16 list \<Rightarrow> bool" where
  "restl d s us \<longleftrightarrow> (d_kind d = JCS_LATIN1 \<or> d_kind d = JCS_ASCII) \<and> d_held d = -3 \<and> (d_done d \<longrightarrow> s = []) \<and>
     us = map (latin_unit (d_kind d)) s"

interpretation latin: unit_source other restl for other
proof
  fix d s
  assume a: "queue_ok d" "queue d = []" "restl d s []"
  then have "dec_byte byte_reader d s = (-1, d, [])" by (auto simp: restl_def dec_byte_plain first_byte_def)
  with a show "\<exists>d' s'. dec_fill other byte_reader d s = Some (-1, d', s') \<and> queue d' = []"
    by (auto simp: restl_def dec_fill_def dec_fill_latin_def)
next
  fix d s us
  assume a: "queue_ok d" "queue d = []" "restl d s us" "us \<noteq> []"
  then obtain b r where s: "s = b # r" by (cases s) (auto simp: restl_def)
  with a(3) have b: "dec_byte byte_reader d s = (uint b, d, r)" by (auto simp: restl_def dec_byte_plain first_byte_def)
  have u: "(if d_kind d = JCS_ASCII \<and> 0x80 \<le> uint b then 0xfffd else word_of_int (uint b)) = latin_unit (d_kind d) b"
    by (simp add: latin_unit_def word_le_def)
  obtain q n where p: "dq_push (latin_unit (d_kind d) b) d = Some (d\<lparr>d_q := q, d_qn := n\<rparr>)" "queue_ok (d\<lparr>d_q := q, d_qn := n\<rparr>)"
      "queue (d\<lparr>d_q := q, d_qn := n\<rparr>) = [latin_unit (d_kind d) b]"
    using dq_push_queue [OF a(1), of "latin_unit (d_kind d) b"] a(2) by auto
  have "dec_fill other byte_reader d s = Some (0, d\<lparr>d_q := q, d_qn := n\<rparr>, r)"
    using a(3) s b u p(1) by (auto simp: restl_def dec_fill_def dec_fill_latin_def uint_pos)
  moreover have "restl (d\<lparr>d_q := q, d_qn := n\<rparr>) r (map (latin_unit (d_kind d)) r)" using a(3) s by (auto simp: restl_def)
  ultimately show "\<exists>d' s' vs. dec_fill other byte_reader d s = Some (0, d', s') \<and> queue_ok d' \<and> queue d' \<noteq> [] \<and>
      us = queue d' @ vs \<and> restl d' s' vs"
    using p(2,3) a(3) s by (intro exI [of _ "d\<lparr>d_q := q, d_qn := n\<rparr>"] exI [of _ r] exI [of _ "map (latin_unit (d_kind d)) r"])
      (auto simp: restl_def simp del: queue_empty)
qed (simp add: restl_def)

definition latin_cp :: "bool \<Rightarrow> u8 \<Rightarrow> u32" where
  "latin_cp ascii b = (if ascii \<and> 0x80 \<le> b then JCS_FFFD else ucast b)"

lemma latin_cp_facts: "unat (latin_cp a b) < 0x10000" "length (put_cp (latin_cp a b)) \<le> 3"
proof -
  show n: "unat (latin_cp a b) < 0x10000" using unat_8 [of b] by (simp add: latin_cp_def fffd_small unat_ups)
  then show "length (put_cp (latin_cp a b)) \<le> 3" by (intro put_cp_length(3)) (simp add: word_less_nat_alt)
qed

lemma latin_loop_eq: "length out + 3 * length bs \<le> cap \<Longrightarrow> latin_loop cap a bs out = Some (out @ wtf8 (map (latin_cp a) bs))"
proof (induction bs arbitrary: out)
  case (Cons b bs)
  then show ?case using latin_cp_facts(2) [of a b] by (simp add: emit_def latin_cp_def)
qed simp

lemma latin_length: "length (wtf8 (map (latin_cp a) bs)) \<le> 3 * length bs"
proof (induction bs)
  case (Cons b bs)
  then show ?case using latin_cp_facts(2) [of a b] by simp
qed simp

lemma latin_units: "concat (map cp_units (map (latin_cp (k = JCS_ASCII)) bs)) = map (latin_unit k) bs"
proof -
  have "cp_units (latin_cp (k = JCS_ASCII) b) = [latin_unit k b]" for b
    using unat_8 [of b] by (simp add: latin_cp_def latin_unit_def cp_units_def JCS_FFFD_def word_le_nat_alt word_unat_eq_iff unat_ups unat_downs)
  then show ?thesis by (induction bs) simp_all
qed

section \<open>UTF-16 streams\<close>

definition unit_of :: "bool \<Rightarrow> u8 \<Rightarrow> u8 \<Rightarrow> u16" where
  "unit_of little a b = (if little then ucast a OR push_bit 8 (ucast b) else push_bit 8 (ucast a) OR ucast b)"

text \<open>The units of a sequence of bytes; an odd byte at the end is one malformed unit.\<close>

fun all_units :: "bool \<Rightarrow> u8 list \<Rightarrow> u16 list" where
  "all_units little (a # b # r) = unit_of little a b # all_units little r"
| "all_units little [a] = [0xfffd]"
| "all_units little [] = []"

definition units_ahead :: "jcs_decoder \<Rightarrow> u8 list \<Rightarrow> u16 list" where
  "units_ahead d s = (if d_kind d = JCS_UTF16 \<and> \<not> d_bom_done d
     then case utf16_bom JCS_UTF16 s of (i, l) \<Rightarrow> all_units l (drop i s) else all_units (d_little d) s)"

definition pend16 :: "jcs_decoder \<Rightarrow> u8 list \<Rightarrow> u16 list" where
  "pend16 d s = (if 0 \<le> d_held_unit d then word_of_int (d_held_unit d) # units_ahead d s else units_ahead d s)"

definition state16 :: "jcs_decoder \<Rightarrow> bool" where
  "state16 d \<longleftrightarrow> d_kind d \<in> {JCS_UTF16, JCS_UTF16BE, JCS_UTF16LE} \<and> d_held d = -3 \<and> \<not> d_done d \<and>
     (d_kind d = JCS_UTF16 \<and> \<not> d_bom_done d \<longrightarrow> \<not> d_little d) \<and> (d_held_unit d = -1 \<or> (\<exists>u::u16. d_held_unit d = uint u))"

definition first_unit :: "u16 list \<Rightarrow> int" where
  "first_unit us = (case us of [] \<Rightarrow> -1 | u # _ \<Rightarrow> uint u)"

lemma unit_int: "uint (unit_of l a b) = (if l then uint a OR push_bit 8 (uint b) else push_bit 8 (uint a) OR uint b)"
  by (rule bit_eqI) (auto simp: unit_of_def bit_uint_iff bit_simps dest: bit_imp_le_length)

lemma unit_loop_settled:
  assumes "d_held d = -3" and "d_kind d = JCS_UTF16 \<longrightarrow> d_bom_done d"
  shows "unit_loop byte_reader d s = (first_unit (all_units (d_little d) s), d, drop 2 s)"
proof -
  have same: "d_bom_done d \<Longrightarrow> d\<lparr>d_bom_done := True\<rparr> = d" by simp
  show ?thesis
    using assms by (cases "(d_little d, s)" rule: all_units.cases)
      (auto simp: unit_loop.simps [of _ d] dec_byte_plain first_byte_def first_unit_def uint_pos unit_int same)
qed

lemma exI3: "P a b c \<Longrightarrow> \<exists>x y z. P x y z"
  by blast

lemma tl_units: "tl (all_units l s) = all_units l (drop 2 s)"
  by (cases "(l, s)" rule: all_units.cases) auto

lemma uint_mark: "(uint (a::u8) = 0xfe) = (a = 0xfe)" "(uint a = 0xff) = (a = 0xff)"
  by (simp_all add: word_uint_eq_iff)

lemma unit_loop_bom:
  assumes "d_held d = -3" and "d_kind d = JCS_UTF16" and "\<not> d_bom_done d" and "\<not> d_little d"
  shows "\<exists>b l s'. unit_loop byte_reader d s = (first_unit (units_ahead d s), d\<lparr>d_bom_done := b, d_little := l\<rparr>, s') \<and>
    (\<not> b \<longrightarrow> \<not> l) \<and> units_ahead (d\<lparr>d_bom_done := b, d_little := l\<rparr>) s' = tl (units_ahead d s)"
proof -
  note run = unit_loop.simps [of byte_reader d] dec_byte_plain [OF assms(1)] first_byte_def uint_pos assms
  have same: "d\<lparr>d_bom_done := False, d_little := False\<rparr> = d" "d\<lparr>d_bom_done := True, d_little := False\<rparr> = d\<lparr>d_bom_done := True\<rparr>"
    using assms(3,4) by simp_all
  consider (nil) "s = []" | (one) a where "s = [a]" | (be) r where "s = 0xfe # 0xff # r" | (le) r where "s = 0xff # 0xfe # r"
    | (plain) a b r where "s = a # b # r" "\<not> (a = 0xfe \<and> b = 0xff)" "\<not> (a = 0xff \<and> b = 0xfe)"
    by (cases "(False, s)" rule: all_units.cases) auto
  then show ?thesis
  proof cases
    case nil
    then show ?thesis
      by (intro exI [of _ False] exI [of _ "[]"]) (simp add: run same units_ahead_def utf16_bom_def first_unit_def)
  next
    case one
    then show ?thesis
      by (intro exI [of _ False] exI [of _ "[]"]) (simp add: run same units_ahead_def utf16_bom_def first_unit_def)
  next
    case (be r)
    have "unit_loop byte_reader d s = unit_loop byte_reader (d\<lparr>d_bom_done := True\<rparr>) r" using be by (simp add: run)
    also have "\<dots> = (first_unit (all_units False r), d\<lparr>d_bom_done := True\<rparr>, drop 2 r)"
      using unit_loop_settled [of "d\<lparr>d_bom_done := True\<rparr>" r] assms by simp
    finally show ?thesis using be assms
      by (intro exI3 [of _ True False "drop 2 r"]) (simp add: same units_ahead_def utf16_bom_def tl_units)
  next
    case (le r)
    have "unit_loop byte_reader d s = unit_loop byte_reader (d\<lparr>d_bom_done := True, d_little := True\<rparr>) r" using le by (simp add: run)
    also have "\<dots> = (first_unit (all_units True r), d\<lparr>d_bom_done := True, d_little := True\<rparr>, drop 2 r)"
      using unit_loop_settled [of "d\<lparr>d_bom_done := True, d_little := True\<rparr>" r] assms by simp
    finally show ?thesis using le assms
      by (intro exI [of _ True] exI [of _ "drop 2 r"]) (simp add: units_ahead_def utf16_bom_def tl_units)
  next
    case (plain a b r)
    then have "unit_loop byte_reader d s = (uint (unit_of False a b), d\<lparr>d_bom_done := True\<rparr>, r)"
      by (auto simp: run uint_mark unit_int)
    moreover have "units_ahead d s = all_units False s" using plain assms by (auto simp: units_ahead_def utf16_bom_def)
    ultimately show ?thesis using plain assms
      by (intro exI3 [of _ True False r]) (auto simp: same units_ahead_def first_unit_def)
  qed
qed

lemma dec_unit16_eq:
  assumes "state16 d"
  shows "\<exists>b l s'. dec_unit16 byte_reader d s = (first_unit (pend16 d s), d\<lparr>d_held_unit := -1, d_bom_done := b, d_little := l\<rparr>, s') \<and>
    state16 (d\<lparr>d_held_unit := -1, d_bom_done := b, d_little := l\<rparr>) \<and>
    pend16 (d\<lparr>d_held_unit := -1, d_bom_done := b, d_little := l\<rparr>) s' = tl (pend16 d s)"
proof (cases "0 \<le> d_held_unit d")
  case True
  then obtain u :: u16 where "d_held_unit d = uint u" using assms by (auto simp: state16_def)
  then have p: "pend16 d s = u # units_ahead d s" and run: "dec_unit16 byte_reader d s = (uint u, d\<lparr>d_held_unit := -1\<rparr>, s)"
    by (simp_all add: pend16_def dec_unit16_def)
  have "state16 (d\<lparr>d_held_unit := -1\<rparr>)" using assms by (simp add: state16_def)
  moreover have "pend16 (d\<lparr>d_held_unit := -1\<rparr>) s = units_ahead d s" by (simp add: pend16_def units_ahead_def)
  moreover have "d\<lparr>d_held_unit := -1, d_bom_done := d_bom_done d, d_little := d_little d\<rparr> = d\<lparr>d_held_unit := -1\<rparr>" by simp
  ultimately show ?thesis using p run
    by (intro exI3 [of _ "d_bom_done d" "d_little d" s]) (simp add: first_unit_def)
next
  case False
  then have h: "d_held_unit d = -1" using assms uint_ge_0 by (auto simp: state16_def)
  then have d: "d\<lparr>d_held_unit := -1\<rparr> = d" by simp
  have p: "pend16 d s = units_ahead d s" using h by (simp add: pend16_def)
  show ?thesis
  proof (cases "d_kind d = JCS_UTF16 \<and> \<not> d_bom_done d")
    case True
    with assms obtain b l s' where "unit_loop byte_reader d s = (first_unit (units_ahead d s), d\<lparr>d_bom_done := b, d_little := l\<rparr>, s')"
        "\<not> b \<longrightarrow> \<not> l" "units_ahead (d\<lparr>d_bom_done := b, d_little := l\<rparr>) s' = tl (units_ahead d s)"
      using unit_loop_bom [of d s] by (auto simp: state16_def)
    moreover have e: "d\<lparr>d_held_unit := -1, d_bom_done := b, d_little := l\<rparr> = d\<lparr>d_bom_done := b, d_little := l\<rparr>" using d by simp
    moreover have "state16 (d\<lparr>d_held_unit := -1, d_bom_done := b, d_little := l\<rparr>)"
      using assms calculation(2) h unfolding e by (auto simp: state16_def)
    moreover have "pend16 (d\<lparr>d_held_unit := -1, d_bom_done := b, d_little := l\<rparr>) s' = tl (units_ahead d s)"
      using calculation(3) h unfolding e by (simp add: pend16_def)
    ultimately show ?thesis using h p
      by (intro exI3 [of _ b l s']) (simp add: dec_unit16_def)
  next
    case False
    then have u: "units_ahead d s = all_units (d_little d) s" for s by (auto simp: units_ahead_def)
    have "unit_loop byte_reader d s = (first_unit (units_ahead d s), d, drop 2 s)"
      using False assms unit_loop_settled [of d s] u by (auto simp: state16_def)
    moreover have "d\<lparr>d_held_unit := -1, d_bom_done := d_bom_done d, d_little := d_little d\<rparr> = d" using d by simp
    ultimately show ?thesis using h p u assms tl_units [of "d_little d" s]
      by (intro exI3 [of _ "d_bom_done d" "d_little d" "drop 2 s"]) (simp add: dec_unit16_def pend16_def d)
  qed
qed

definition rest16 :: "jcs_decoder \<Rightarrow> u8 list \<Rightarrow> u16 list \<Rightarrow> bool" where
  "rest16 d s us \<longleftrightarrow> state16 d \<and> us = fix_lone (pend16 d s)"

lemma high_int: "(0xd800 \<le> uint (u::u16) \<and> uint u \<le> 0xdbff) = is_high u" "(0xdc00 \<le> uint u \<and> uint u \<le> 0xdfff) = is_low u"
  by (simp_all add: is_high_def is_low_def word_le_def)

lemma surrogate_cases: "is_surrogate u = (is_high u \<or> is_low u)" "is_high u \<Longrightarrow> \<not> is_low u"
  by (auto simp: is_surrogate_def is_high_def is_low_def word_le_nat_alt)

lemma fix_other: "\<not> is_high u \<Longrightarrow> fix_lone (u # us) = (if is_low u then 0xfffd else u) # fix_lone us"
  by (cases us) (auto simp: surrogate_cases)

lemma fix_high: "is_high u \<Longrightarrow> fix_lone [u] = [0xfffd]"
    "\<lbrakk>is_high u; \<not> is_low v\<rbrakk> \<Longrightarrow> fix_lone (u # v # us) = 0xfffd # fix_lone (v # us)"
  by (auto simp: surrogate_cases)

lemma fix_empty: "fix_lone us = [] \<longleftrightarrow> us = []"
  by (cases us rule: fix_lone.cases) auto

lemma state16_q [simp]: "state16 (d\<lparr>d_q := q, d_qn := n\<rparr>) = state16 d" "pend16 (d\<lparr>d_q := q, d_qn := n\<rparr>) s = pend16 d s"
    "state16 (d\<lparr>d_qh := h, d_qn := n\<rparr>) = state16 d" "pend16 (d\<lparr>d_qh := h, d_qn := n\<rparr>) s = pend16 d s"
  by (simp_all add: state16_def pend16_def units_ahead_def)

lemma push_one:
  assumes "queue_ok d" and "queue d = []"
  obtains q n where "dq_push u d = Some (d\<lparr>d_q := q, d_qn := n\<rparr>)" "queue_ok (d\<lparr>d_q := q, d_qn := n\<rparr>)" "queue (d\<lparr>d_q := q, d_qn := n\<rparr>) = [u]"
  using dq_push_queue [OF assms(1), of u] assms(2) by auto

lemma push_two:
  assumes "queue_ok d" and "queue d = []"
  obtains q n where "(do { d \<leftarrow> dq_push u d; dq_push v d }) = Some (d\<lparr>d_q := q, d_qn := n\<rparr>)" "queue_ok (d\<lparr>d_q := q, d_qn := n\<rparr>)"
    "queue (d\<lparr>d_q := q, d_qn := n\<rparr>) = [u, v]"
proof -
  obtain q n where 1: "dq_push u d = Some (d\<lparr>d_q := q, d_qn := n\<rparr>)" "queue_ok (d\<lparr>d_q := q, d_qn := n\<rparr>)"
      "queue (d\<lparr>d_q := q, d_qn := n\<rparr>) = [u]" using push_one [OF assms] by blast
  have "d_qn (d\<lparr>d_q := q, d_qn := n\<rparr>) = 1" using 1(3) queue_length [of "d\<lparr>d_q := q, d_qn := n\<rparr>"] by simp
  with dq_push_queue [OF 1(2), of v] 1 that show ?thesis by auto
qed

lemma uint_pos16: "uint (v::u16) \<noteq> - 2"
  using uint_ge_0 [of v] by linarith

lemma fill16_step:
  assumes "queue_ok d" and "queue d = []" and "state16 d" and "pend16 d s = u # us"
  shows "\<exists>d' s' vs. dec_fill_utf16 byte_reader d s = Some (0, d', s') \<and> queue_ok d' \<and> queue d' \<noteq> [] \<and>
    fix_lone (u # us) = queue d' @ vs \<and> rest16 d' s' vs"
proof -
  obtain d1 s1 where r1: "dec_unit16 byte_reader d s = (uint u, d1, s1)" "state16 d1" "pend16 d1 s1 = us"
      "queue_ok d1" "queue d1 = []"
    using dec_unit16_eq [OF assms(3), of s] assms by (auto simp: first_unit_def)
  have pos: "\<not> uint u < 0" by simp
  show ?thesis
  proof (cases "is_high u")
    case False
    obtain q n where p: "dq_push (if is_low u then 0xfffd else u) d1 = Some (d1\<lparr>d_q := q, d_qn := n\<rparr>)"
        "queue_ok (d1\<lparr>d_q := q, d_qn := n\<rparr>)" "queue (d1\<lparr>d_q := q, d_qn := n\<rparr>) = [if is_low u then 0xfffd else u]"
      using push_one [OF r1(4,5)] by blast
    then have "dec_fill_utf16 byte_reader d s = Some (0, d1\<lparr>d_q := q, d_qn := n\<rparr>, s1)"
      using r1(1) False pos by (cases "is_low u") (simp_all add: dec_fill_utf16_def high_int)
    with p(2,3) r1(2,3) fix_other [OF False, of us] show ?thesis by (auto simp: rest16_def simp del: queue_empty)
  next
    case True
    obtain d2 s2 where r2: "dec_unit16 byte_reader d1 s1 = (first_unit us, d2, s2)" "state16 d2" "d_held_unit d2 = -1"
        "pend16 d2 s2 = tl us" "queue_ok d2" "queue d2 = []"
      using dec_unit16_eq [OF r1(2), of s1] r1(3,4,5) by auto
    show ?thesis
    proof (cases "us \<noteq> [] \<and> is_low (hd us)")
      case low: True
      then obtain v t where us: "us = v # t" "is_low v" by (cases us) auto
      obtain q n where p: "(do { d \<leftarrow> dq_push u d2; dq_push v d }) = Some (d2\<lparr>d_q := q, d_qn := n\<rparr>)"
          "queue_ok (d2\<lparr>d_q := q, d_qn := n\<rparr>)" "queue (d2\<lparr>d_q := q, d_qn := n\<rparr>) = [u, v]"
        using push_two [OF r2(5,6)] by blast
      have "dec_fill_utf16 byte_reader d s = Some (0, d2\<lparr>d_q := q, d_qn := n\<rparr>, s2)"
        using r1(1) r2(1) True us pos p(1) by (auto simp: dec_fill_utf16_def high_int first_unit_def bind_eq_Some_conv uint_pos16)
      with p(2,3) r2(2,4) us True show ?thesis by (auto simp: rest16_def simp del: queue_empty)
    next
      case False
      obtain q n where p: "dq_push 0xfffd d2 = Some (d2\<lparr>d_q := q, d_qn := n\<rparr>)"
          "queue_ok (d2\<lparr>d_q := q, d_qn := n\<rparr>)" "queue (d2\<lparr>d_q := q, d_qn := n\<rparr>) = [0xfffd]"
        using push_one [OF r2(5,6)] by blast
      show ?thesis
      proof (cases us)
        case Nil
        then have "dec_fill_utf16 byte_reader d s = Some (0, d2\<lparr>d_q := q, d_qn := n\<rparr>, s2)"
          using r1(1) r2(1) True pos p(1) by (simp add: dec_fill_utf16_def high_int first_unit_def)
        with p(2,3) r2(2,4) Nil fix_high(1) [OF True] show ?thesis by (auto simp: rest16_def simp del: queue_empty)
      next
        case (Cons v t)
        let ?d = "d2\<lparr>d_q := q, d_qn := n, d_held_unit := uint v\<rparr>"
        have low: "\<not> is_low v" using False Cons by simp
        then have "dec_fill_utf16 byte_reader d s = Some (0, ?d, s2)"
          using r1(1) r2(1) True Cons pos p(1) by (simp add: dec_fill_utf16_def high_int first_unit_def uint_pos16)
        moreover have "rest16 ?d s2 (fix_lone (v # t))"
          using r2(2,3,4) Cons by (auto simp: rest16_def state16_def pend16_def units_ahead_def)
        moreover have "queue_ok ?d" "queue ?d = [0xfffd]" using p(2,3) by simp_all
        ultimately show ?thesis using fix_high(2) [OF True low, of t] Cons by (auto simp del: queue_empty)
      qed
    qed
  qed
qed

interpretation utf16: unit_source other rest16 for other
proof
  fix d s
  assume a: "queue_ok d" "queue d = []" "rest16 d s []"
  then have p: "state16 d" "pend16 d s = []" using fix_empty [of "pend16 d s"] by (auto simp: rest16_def)
  from dec_unit16_eq [OF p(1), of s] p a(2) show "\<exists>d' s'. dec_fill other byte_reader d s = Some (-1, d', s') \<and> queue d' = []"
    by (auto simp: dec_fill_def dec_fill_utf16_def state16_def first_unit_def)
next
  fix d s us
  assume a: "queue_ok d" "queue d = []" "rest16 d s us" "us \<noteq> []"
  then obtain u r where p: "state16 d" "pend16 d s = u # r" "us = fix_lone (u # r)"
    by (cases "pend16 d s") (auto simp: rest16_def simp del: fix_lone.simps(1,2))
  have "dec_fill other byte_reader d s = dec_fill_utf16 byte_reader d s"
    using p(1) by (auto simp: dec_fill_def state16_def)
  with fill16_step [OF a(1,2) p(1,2)] p(3) show "\<exists>d' s' vs. dec_fill other byte_reader d s = Some (0, d', s') \<and> queue_ok d' \<and> queue d' \<noteq> [] \<and>
      us = queue d' @ vs \<and> rest16 d' s' vs" by simp
qed (simp add: rest16_def)

section \<open>Whole texts in UTF-16\<close>

lemma utf16_read_eq: "length u + length s div 2 \<le> cap \<Longrightarrow>
    \<exists>us r. utf16_read cap l s u = Some (u @ us, r) \<and> length us = length s div 2 \<and> (r = [] \<longleftrightarrow> even (length s)) \<and>
      all_units l s = us @ (if r = [] then [] else [0xfffd])"
proof (induction cap l s u rule: utf16_read.induct)
  case (1 cap l a b r u)
  let ?x = "unit_of l a b"
  have e: "emit cap u [if l then ucast a OR push_bit 8 (ucast b) else push_bit 8 (ucast a) OR ucast b] = Some (u @ [?x])"
    using 1(2) by (simp add: emit_def unit_of_def)
  moreover have "length (u @ [?x]) + length r div 2 \<le> cap" using 1(2) by simp
  from 1(1) [OF e this] obtain us t where "utf16_read cap l r (u @ [?x]) = Some ((u @ [?x]) @ us, t)" "length us = length r div 2"
      "(t = []) = even (length r)" "all_units l r = us @ (if t = [] then [] else [0xfffd])" by blast
  ultimately show ?case by (intro exI [of _ "?x # us"] exI [of _ t]) simp
qed auto

lemma fix_append: "fix_lone (us @ [0xfffd]) = fix_lone us @ [0xfffd]"
proof -
  have "\<not> is_low 0xfffd" "\<not> is_surrogate 0xfffd" by (simp_all add: is_low_def is_surrogate_def)
  then show ?thesis by (induction us rule: fix_lone.induct) auto
qed

lemma fix_length: "length (fix_lone us) = length us"
  by (induction us rule: fix_lone.induct) auto

definition whole16 :: "jcs_kind \<Rightarrow> u8 list \<Rightarrow> u16 list" where
  "whole16 k bs = (case utf16_bom k bs of (i, l) \<Rightarrow> fix_lone (all_units l (drop i bs)))"

lemma utf16_decode_eq:
  assumes "\<And>n. al n"
  shows "utf16_decode al k bs = Some (Some (wtf8 (unit_cps (whole16 k bs))))"
proof -
  obtain i l where b: "utf16_bom k bs = (i, l)" by (cases "utf16_bom k bs")
  let ?n = "(length bs - i) div 2 + 1"
  obtain us r where r: "utf16_read ?n l (drop i bs) [] = Some (us, r)" "length us = (length bs - i) div 2"
      "all_units l (drop i bs) = us @ (if r = [] then [] else [0xfffd])"
    using utf16_read_eq [of "[]" "drop i bs" ?n l] by auto
  have w: "whole16 k bs = fix_lone us @ (if r = [] then [] else [0xfffd])"
    using b r(3) by (simp add: whole16_def fix_append)
  have "(if r = [] then Some (fix_lone us) else emit ?n (fix_lone us) [0xfffd]) = Some (whole16 k bs)"
    using r(2) by (simp add: w emit_def fix_length)
  moreover have "length (whole16 k bs) \<le> ?n" using r(2) by (simp add: w fix_length)
  moreover from this have "utf16_bytes (?n * 3 + 4) (whole16 k bs) [] = Some (wtf8 (unit_cps (whole16 k bs)))"
    using utf16_bytes_eq [of "[]" "whole16 k bs" "?n * 3 + 4"] by simp
  moreover from calculation have "terminated (?n * 3 + 4) (wtf8 (unit_cps (whole16 k bs))) = Some (Some (wtf8 (unit_cps (whole16 k bs))))"
    using wtf8_length [of "whole16 k bs"] by (simp add: terminated_def)
  ultimately show ?thesis
    unfolding utf16_decode_def jcs_utf16_to_wtf8_def b prod.case Let_def using assms by (simp only: r(1)) simp
qed

end
