(* ===== verification/Charset_Theorems.thy ===== *)
theory Charset_Theorems
  imports Charset_Stream
begin

text \<open>What the charset conversions guarantee as a whole: the two decoders agree, and decoding undoes encoding.\<close>

section \<open>Streams and whole texts\<close>

definition sample_jcs :: "jcs_kind \<Rightarrow> jcs" where
  "sample_jcs k = \<lparr>cs_kind = k, cs_name = ''charset''\<rparr>"

text \<open>The state of a new decoder, and the units that the input denotes.\<close>

definition start :: "jcs_kind \<Rightarrow> jcs_decoder" where
  "start k = \<lparr>d_kind = k, d_q = replicate 16 0, d_qh = 0, d_qn = 0, d_held = -3, d_held_unit = -1, d_bom_done = False,
     d_little = (k = JCS_UTF16LE), d_done = False\<rparr>"

lemma start_queue [simp]: "queue_ok (start k)" "queue (start k) = []"
  by (simp_all add: queue_ok_def start_def)

lemma units_back:
  assumes "list_all (\<lambda>cp. unat cp < 0x110000) cps" and "us = concat (map cp_units cps)"
  shows "jcs_wtf8_to_utf16 (Some (length (wtf8 cps))) (wtf8 cps) = Some (length us, us)"
proof -
  have "list_all (\<lambda>cp. unat cp < 0x200000) cps" using assms(1) by (auto simp: list_all_iff)
  from wtf8_units_eq(2) [OF this, of "[]" "length (wtf8 cps)" 0] show ?thesis
    by (simp add: jcs_wtf8_to_utf16_def assms(2) del: length_concat)
qed

text \<open>
  C39. Reading a stream byte by byte yields the same UTF-16 units as decoding the whole text at once,
  for every charset that is decoded here and every sequence of bytes, well-formed or not: the
  whole decoder stays inside its buffer and ends, its text converts to units without a fault, and
  the streaming decoder hands out exactly these units and then reports the end.
\<close>

theorem stream_decoder_agrees:
  assumes "cs_kind cs \<noteq> JCS_NATIVE" and "\<forall>n. al n"
  shows "\<exists>t us d. jcs_decode al N cs bs = Some (Some t) \<and> jcs_wtf8_to_utf16 (Some (length t)) t = Some (length us, us) \<and>
    jcs_decoder_new al sz opens cs = Some d \<and> (\<forall>n. length us < n \<longrightarrow> drain other byte_reader n d bs = Some (us, -1))"
proof -
  let ?k = "cs_kind cs"
  have new: "jcs_decoder_new al sz opens cs = Some (start ?k)" using assms by (simp add: jcs_decoder_new_def start_def)
  consider (utf8) "?k = JCS_UTF8" | (latin) "?k = JCS_LATIN1 \<or> ?k = JCS_ASCII" | (utf16) "?k \<in> {JCS_UTF16, JCS_UTF16BE, JCS_UTF16LE}"
    using assms(1) by (cases ?k) auto
  then show ?thesis
  proof cases
    case utf8
    let ?us = "concat (map cp_units (dec8 bs))"
    have "rest8 (start ?k) bs ?us" using utf8 by (auto simp: rest8_def start_def ahead_def)
    from utf8.drains [OF start_queue(1) this, of _ other] have "\<forall>n. length ?us < n \<longrightarrow> drain other byte_reader n (start ?k) bs = Some (?us, -1)"
      by simp
    moreover have "jcs_decode al N cs bs = Some (Some (wtf8 (dec8 bs)))" using utf8 assms(2) by (simp add: jcs_decode_def utf8_decode_eq)
    ultimately show ?thesis using new units_back [OF dec8_range refl] by blast
  next
    case latin
    let ?cps = "map (latin_cp (?k = JCS_ASCII)) bs" and ?us = "map (latin_unit ?k) bs"
    have "restl (start ?k) bs ?us" using latin by (auto simp: restl_def start_def)
    from latin.drains [OF start_queue(1) this, of _ other] have "\<forall>n. length ?us < n \<longrightarrow> drain other byte_reader n (start ?k) bs = Some (?us, -1)"
      by simp
    moreover have "list_all (\<lambda>cp. unat cp < 0x110000) ?cps"
      by (auto simp: list_all_iff intro!: less_trans [OF latin_cp_facts(1)])
    moreover have "jcs_decode al N cs bs = Some (Some (wtf8 ?cps))"
      using latin assms(2) latin_loop_eq [of "[]" bs "length bs * 3 + 1" "?k = JCS_ASCII"] latin_length [of "?k = JCS_ASCII" bs]
      by (auto simp: jcs_decode_def terminated_def)
    ultimately show ?thesis using new units_back [OF _ latin_units [symmetric], of ?k bs] by blast
  next
    case utf16
    let ?us = "whole16 ?k bs"
    have "pend16 (start ?k) bs = (case utf16_bom ?k bs of (i, l) \<Rightarrow> all_units l (drop i bs))"
      using utf16 by (auto simp: pend16_def units_ahead_def start_def utf16_bom_def)
    then have "rest16 (start ?k) bs ?us"
      using utf16 by (auto simp: rest16_def whole16_def state16_def start_def split: prod.split)
    from utf16.drains [OF start_queue(1) this, of _ other] have "\<forall>n. length ?us < n \<longrightarrow> drain other byte_reader n (start ?k) bs = Some (?us, -1)"
      by simp
    moreover have "jcs_decode al N cs bs = Some (Some (wtf8 (unit_cps ?us)))"
      using utf16 utf16_decode_eq [of al ?k bs] assms(2) by (auto simp: jcs_decode_def)
    ultimately show ?thesis using new units_back [OF unit_cps_range units_inverse [symmetric], of ?us] by blast
  qed
qed

theorem stream_decoder_agrees_witness:
  "\<exists>t us d. jcs_decode (\<lambda>_. True) \<lparr>native_decode = \<lambda>_ _. None, native_encode = \<lambda>_ _. None\<rparr> (sample_jcs JCS_UTF8) [0xe3, 0x81, 0x82, 0xff] =
       Some (Some t) \<and> jcs_wtf8_to_utf16 (Some (length t)) t = Some (length us, us) \<and>
     jcs_decoder_new (\<lambda>_. True) 64 (\<lambda>_. False) (sample_jcs JCS_UTF8) = Some d \<and>
     drain (\<lambda>_ _. None) byte_reader (length us + 1) d [0xe3, 0x81, 0x82, 0xff] = Some (us, -1)"
  using stream_decoder_agrees [of "sample_jcs JCS_UTF8" "\<lambda>_. True" "\<lparr>native_decode = \<lambda>_ _. None, native_encode = \<lambda>_ _. None\<rparr>"
      "[0xe3, 0x81, 0x82, 0xff]" 64 "\<lambda>_. False" "\<lambda>_ _. None"]
  by (auto simp: sample_jcs_def)

section \<open>Encoding and decoding\<close>

lemma encode_loop_eq:
  assumes "list_all (\<lambda>cp. unat cp < 0x110000 \<and> length (f cp (put_cp cp)) \<le> length (put_cp cp)) cps"
  shows "length out + length (wtf8 cps) \<le> cap \<Longrightarrow>
    encode_loop f cap (wtf8 cps) out = Some (out @ concat (map (\<lambda>cp. f cp (put_cp cp)) cps))"
  using assms
proof (induction cps arbitrary: out)
  case (Cons c cs)
  let ?x = "f c (put_cp c)"
  have "emit cap out ?x = Some (out @ ?x)" using Cons.prems by (simp add: emit_def)
  moreover have "encode_loop f cap (wtf8 cs) (out @ ?x) = Some ((out @ ?x) @ concat (map (\<lambda>cp. f cp (put_cp cp)) cs))"
    using Cons.prems by (intro Cons.IH) simp_all
  moreover have "wtf8_cp (put_cp c @ wtf8 cs) = Some (c, length (put_cp c))" using Cons.prems by (intro wtf8_cp_put) simp
  ultimately show ?case by (subst encode_loop.simps) (simp add: put_cp_length(2))
qed (simp add: encode_loop.simps)

lemma put_cp_inject:
  assumes "unat c < 0x200000" and "unat d < 0x200000" and "put_cp c = put_cp d"
  shows "c = d"
  using wtf8_cp_put [OF assms(1), of "[]"] wtf8_cp_put [OF assms(2), of "[]"] assms(3) by simp

definition scalar :: "u32 \<Rightarrow> bool" where
  "scalar cp \<longleftrightarrow> unat cp < 0x110000 \<and> \<not> (0xd800 \<le> unat cp \<and> unat cp \<le> 0xdfff)"

lemma leads:
  "\<lbrakk>0xc2 \<le> unat a; unat a \<le> 0xdf\<rbrakk> \<Longrightarrow> utf8_lead a = (1, 0x80, 0xbf)"
  "\<lbrakk>0xe0 \<le> unat a; unat a \<le> 0xef\<rbrakk> \<Longrightarrow> utf8_lead a = (2, if unat a = 0xe0 then 0xa0 else 0x80, if unat a = 0xed then 0x9f else 0xbf)"
  "\<lbrakk>0xf0 \<le> unat a; unat a \<le> 0xf4\<rbrakk> \<Longrightarrow> utf8_lead a = (3, if unat a = 0xf0 then 0x90 else 0x80, if unat a = 0xf4 then 0x8f else 0xbf)"
  by (auto simp: utf8_lead_def word_le_nat_alt word_unat_eq_iff)

lemma got_intro:
  assumes "unat lo \<le> unat b" "unat b \<le> unat hi" "list_all is_cont cs"
  shows "utf8_got (Suc (length cs)) lo hi (b # cs @ r) = Suc (length cs)"
proof -
  have "utf8_got (length cs) 0x80 0xbf (cs @ r) = length cs"
    using assms(3) by (induction cs) (auto simp: is_cont_def word_le_nat_alt)
  with assms(1,2) show ?thesis by (simp add: word_le_nat_alt)
qed

lemma mod_high: "\<lbrakk>q div 64 = k; q < k * 64 + m\<rbrakk> \<Longrightarrow> q mod 64 < (m::nat)" "\<lbrakk>q div 64 = 0; m \<le> q\<rbrakk> \<Longrightarrow> m \<le> q mod (64::nat)"
  using div_mult_mod_eq [of q 64] by simp_all

text \<open>The spelling of a scalar value is a well-formed sequence.\<close>

lemma scalar_sequence:
  assumes "scalar cp" and "0x80 \<le> unat cp"
  obtains a cs lo hi where "put_cp cp = a # cs" "0x80 \<le> unat a" "utf8_lead a = (length cs, lo, hi)" "cs \<noteq> []"
    "\<forall>r. utf8_got (length cs) lo hi (cs @ r) = length cs"
proof -
  let ?n = "unat cp"
  have n: "?n < 0x110000" "\<not> (0xd800 \<le> ?n \<and> ?n \<le> 0xdfff)" using assms(1) by (auto simp: scalar_def)
  have "?n < 0x200000" using n by simp
  note bytes = put_cp_nat [OF this, unfolded nat_bytes_def]
  consider "?n < 0x800" | "0x800 \<le> ?n" "?n < 0x10000" | "0x10000 \<le> ?n" by linarith
  then show ?thesis
  proof cases
    case 1
    with bytes assms(2) obtain a b where p: "put_cp cp = [a, b]" "unat a = 0xc0 + ?n div 64" "unat b = 0x80 + ?n mod 64"
      by (auto simp: map_eq_Cons_conv)
    have "2 \<le> ?n div 64" "?n div 64 < 32" using 1 assms(2) by simp_all
    with p leads(1) [of a] got_intro [of "0x80" b "0xbf" "[]"] that [of a "[b]" "0x80" "0xbf"] show ?thesis by simp
  next
    case 2
    with bytes obtain a b c where p: "put_cp cp = [a, b, c]" "unat a = 0xe0 + ?n div 4096"
        "unat b = 0x80 + ?n div 64 mod 64" "unat c = 0x80 + ?n mod 64"
      by (auto simp: map_eq_Cons_conv)
    let ?lo = "if unat a = 0xe0 then 0xa0 else 0x80 :: u8" and ?hi = "if unat a = 0xed then 0x9f else 0xbf :: u8"
    have a: "0xe0 \<le> unat a" "unat a \<le> 0xef" using p(2) 2 by simp_all
    have "unat a = 0xe0 \<Longrightarrow> 32 \<le> ?n div 64 mod 64" using mod_high(2) [of "?n div 64" 32] 2 p(2) by (simp add: div_more)
    moreover have "?n div 64 mod 64 < 32" if "unat a = 0xed"
    proof -
      have q: "?n div 4096 = 13" using that p(2) by simp
      then have "?n < 57344" by simp
      then have "?n div 64 < 13 * 64 + 32" using n(2) by simp
      with q show ?thesis by (intro mod_high(1) [of _ 13]) (simp_all add: div_more)
    qed
    moreover have "?n div 64 mod 64 < 64" by simp
    ultimately have "unat ?lo \<le> unat b" "unat b \<le> unat ?hi" unfolding p(3) by auto
    with p(4) got_intro [of ?lo b ?hi "[c]"] have "utf8_got (length [b, c]) ?lo ?hi ([b, c] @ r) = length [b, c]" for r
      by (simp add: is_cont_def)
    moreover have "utf8_lead a = (length [b, c], ?lo, ?hi)" using leads(2) [OF a] by simp
    ultimately show ?thesis using p(1) a(1) that [of a "[b, c]" ?lo ?hi] by simp
  next
    case 3
    with bytes obtain a b c d where p: "put_cp cp = [a, b, c, d]" "unat a = 0xf0 + ?n div 262144"
        "unat b = 0x80 + ?n div 4096 mod 64" "unat c = 0x80 + ?n div 64 mod 64" "unat d = 0x80 + ?n mod 64"
      by (auto simp: map_eq_Cons_conv)
    let ?lo = "if unat a = 0xf0 then 0x90 else 0x80 :: u8" and ?hi = "if unat a = 0xf4 then 0x8f else 0xbf :: u8"
    have a: "0xf0 \<le> unat a" "unat a \<le> 0xf4" using p(2) n by simp_all
    have d: "?n div 262144 = ?n div 4096 div 64" by (simp add: div_more)
    have "unat a = 0xf0 \<Longrightarrow> 16 \<le> ?n div 4096 mod 64" using mod_high(2) [of "?n div 4096" 16] 3 p(2) d by simp
    moreover have "unat a = 0xf4 \<Longrightarrow> ?n div 4096 mod 64 < 16" using mod_high(1) [of "?n div 4096" 4 16] n p(2) d by simp
    moreover have "?n div 4096 mod 64 < 64" by simp
    ultimately have "unat ?lo \<le> unat b" "unat b \<le> unat ?hi" unfolding p(3) by auto
    with p(4,5) got_intro [of ?lo b ?hi "[c, d]"] have "utf8_got (length [b, c, d]) ?lo ?hi ([b, c, d] @ r) = length [b, c, d]" for r
      by (simp add: is_cont_def)
    moreover have "utf8_lead a = (length [b, c, d], ?lo, ?hi)" using leads(3) [OF a] by simp
    ultimately show ?thesis using p(1) a(1) that [of a "[b, c, d]" ?lo ?hi] by simp
  qed
qed

lemma dec8_put:
  assumes "scalar cp"
  shows "dec8 (put_cp cp @ r) = cp # dec8 r"
proof (cases "unat cp < 0x80")
  case True
  then show ?thesis
    by (simp add: put_cp_def dec8.simps(2) word_less_nat_alt unat_downs word_unat_eq_iff unat_ups)
next
  case False
  then have c: "0x80 \<le> unat cp" by simp
  obtain a cs lo hi where p: "put_cp cp = a # cs" "0x80 \<le> unat a" "utf8_lead a = (length cs, lo, hi)" "cs \<noteq> []"
      "\<forall>r. utf8_got (length cs) lo hi (cs @ r) = length cs"
    by (rule scalar_sequence [OF assms c])
  have "put_cp (seq_cp a cs) = put_cp cp" "unat (seq_cp a cs) < 0x110000"
    using well_formed [OF p(3) _ p(5) [rule_format, of "[]"]] p(1,4) by simp_all
  then have "seq_cp a cs = cp" using assms by (intro put_cp_inject) (simp_all add: scalar_def)
  with p show ?thesis by (simp add: dec8.simps(2) word_less_nat_alt)
qed

lemma dec8_wtf8: "list_all scalar cps \<Longrightarrow> dec8 (wtf8 cps) = cps"
  by (induction cps) (simp_all add: dec8_put)

section \<open>The round trip\<close>

lemma plain_scalar: "fix_lone u = u \<Longrightarrow> list_all scalar (unit_cps u)"
proof (induction u rule: unit_cps.induct)
  case (2 c)
  have "\<not> is_surrogate 0xfffd" by (simp add: is_surrogate_def)
  with 2 have "\<not> is_surrogate c" by (auto split: if_splits)
  then show ?case using unat_16 [of c] by (auto simp: scalar_def unat_ups is_surrogate_def word_le_nat_alt)
next
  case (3 c d us)
  have f: "\<not> is_surrogate 0xfffd" by (simp add: is_surrogate_def)
  show ?case
  proof (cases "is_high c \<and> is_low d")
    case True
    then have "unat (pair_cp c d) < 0x110000" using unit_cps_range [of "[c, d]"] by simp
    moreover have "0x10000 \<le> unat (pair_cp c d)" using pair_nat True by simp
    ultimately show ?thesis using True 3 by (simp add: scalar_def)
  next
    case False
    then have "\<not> is_surrogate c" "fix_lone (d # us) = d # us" using 3(3) f by (auto simp del: fix_lone.simps(2) split: if_splits)
    then show ?thesis
      using False 3(2) unat_16 [of c] by (auto simp: scalar_def unat_ups is_surrogate_def word_le_nat_alt)
  qed
qed simp

lemma utf16_unit_back: "unit_of True (ucast x) (ucast (drop_bit 8 x)) = x" "unit_of False (ucast (drop_bit 8 x)) (ucast x) = x"
  by (rule bit_word_eqI; auto simp: unit_of_def bit_simps)+

definition unit_bytes :: "bool \<Rightarrow> u16 \<Rightarrow> u8 list" where
  "unit_bytes l x = (if l then [ucast x, ucast (drop_bit 8 x)] else [ucast (drop_bit 8 x), ucast x])"

lemma all_units_back: "all_units l (concat (map (unit_bytes l) u)) = u"
  by (cases l; induction u) (simp_all add: unit_bytes_def utf16_unit_back)

lemma utf16_out_eq: "\<lbrakk>fix_lone u = u; length out + 2 * length u \<le> cap\<rbrakk> \<Longrightarrow>
    utf16_out cap l prev u out = Some (out @ concat (map (unit_bytes l) u))"
proof (induction u arbitrary: prev out rule: fix_lone.induct)
  case (1 c d us)
  have f: "\<not> is_surrogate 0xfffd" by (simp add: is_surrogate_def)
  show ?case
  proof (cases "is_high c \<and> is_low d")
    case True
    with 1 show ?thesis by (cases l) (simp_all add: emit_def unit_bytes_def)
  next
    case False
    then have "\<not> is_surrogate c" "fix_lone (d # us) = d # us" using 1(3) f by (auto simp del: fix_lone.simps(2) split: if_splits)
    with False 1(2) [of "out @ unit_bytes l c" "Some c"] 1(4) show ?thesis
      by (cases l) (simp_all add: emit_def unit_bytes_def del: fix_lone.simps)
  qed
next
  case (2 c)
  have "\<not> is_surrogate 0xfffd" by (simp add: is_surrogate_def)
  with 2 have "\<not> is_surrogate c" by (auto split: if_splits)
  with 2 show ?case by (simp add: emit_def unit_bytes_def)
qed simp

text \<open>The units that the charset can spell.\<close>

definition encodable :: "jcs_kind \<Rightarrow> u16 list \<Rightarrow> bool" where
  "encodable k u \<longleftrightarrow> k \<noteq> JCS_NATIVE \<and> fix_lone u = u \<and>
     (k = JCS_LATIN1 \<longrightarrow> list_all (\<lambda>c. c \<le> 0xff) u) \<and> (k = JCS_ASCII \<longrightarrow> list_all (\<lambda>c. c \<le> 0x7f) u)"

lemma small_cps: "list_all (\<lambda>c. c \<le> 0xff) u \<Longrightarrow> unit_cps u = map ucast u"
  by (induction u rule: unit_cps.induct) (auto simp: is_high_def word_le_nat_alt)

lemma latin_back:
  assumes "c \<le> (if a then 0x7f else 0xff :: u16)"
  shows "latin_cp a (hd (latin_out (if a then 0x7f else 0xff) (ucast c) bs)) = ucast c"
    and "latin_out (if a then 0x7f else 0xff) (ucast c) bs = [hd (latin_out (if a then 0x7f else 0xff) (ucast c) bs)]"
  using assms by (auto simp: latin_cp_def latin_out_def word_le_nat_alt word_unat_eq_iff unat_ups unat_downs split: if_splits)

lemma latin_encode:
  assumes "list_all (\<lambda>c. c \<le> (if a then 0x7f else 0xff)) u" and "unit_cps u = map ucast u"
  shows "\<exists>bs. encode_loop (latin_out (if a then 0x7f else 0xff)) (length (wtf8 (unit_cps u)) + 1) (wtf8 (unit_cps u)) [] = Some bs \<and>
    wtf8 (map (latin_cp a) bs) = wtf8 (unit_cps u)"
proof -
  let ?f = "latin_out (if a then 0x7f else 0xff)"
  let ?bs = "concat (map (\<lambda>cp. ?f cp (put_cp cp)) (unit_cps u))"
  have "list_all (\<lambda>cp. unat cp < 0x110000 \<and> length (?f cp (put_cp cp)) \<le> length (put_cp cp)) (unit_cps u)"
    using unit_cps_range [of u] put_cp_length(2) by (auto simp: list_all_iff latin_out_def Suc_le_eq)
  from encode_loop_eq [where f = ?f, OF this, of "[]" "length (wtf8 (unit_cps u)) + 1"]
  have "encode_loop ?f (length (wtf8 (unit_cps u)) + 1) (wtf8 (unit_cps u)) [] = Some ?bs" by simp
  moreover have "map (latin_cp a) ?bs = unit_cps u"
    unfolding assms(2) using assms(1)
  proof (induction u)
    case (Cons c u)
    then show ?case using latin_back [of c a "put_cp (ucast c)"] by (simp add: latin_out_def)
  qed simp
  ultimately show ?thesis by simp
qed

text \<open>
  C40. Encoding a text and decoding the bytes gives the text again, in UTF-8 and the three kinds of
  UTF-16 for every text without lone surrogates, in ISO-8859-1 and US-ASCII for the texts they can
  spell; neither direction leaves its buffers.
\<close>

theorem charset_roundtrip:
  assumes "encodable (cs_kind cs) u" and "\<forall>n. al n" and "jcs_utf16_to_wtf8 (3 * length u) u = Some t"
  shows "\<exists>bs. jcs_encode al N cs t = Some (Some bs) \<and> jcs_decode al N cs bs = Some (Some t)"
proof -
  let ?k = "cs_kind cs"
  have t: "t = wtf8 (unit_cps u)" using assms(3) utf16_bytes_eq [of "[]" u "3 * length u"] by (simp add: jcs_utf16_to_wtf8_def)
  have plain: "fix_lone u = u" using assms(1) by (simp add: encodable_def)
  consider (utf8) "?k = JCS_UTF8" | (latin) "?k = JCS_LATIN1 \<or> ?k = JCS_ASCII" | (utf16) "?k \<in> {JCS_UTF16, JCS_UTF16BE, JCS_UTF16LE}"
    using assms(1) by (cases ?k) (auto simp: encodable_def)
  then show ?thesis
  proof cases
    case utf8
    have sc: "list_all scalar (unit_cps u)" by (rule plain_scalar [OF plain])
    then have "list_all (\<lambda>cp. unat cp < 0x110000 \<and> length (utf8_out cp (put_cp cp)) \<le> length (put_cp cp)) (unit_cps u)"
      by (auto simp: list_all_iff scalar_def utf8_out_def word_le_nat_alt)
    from encode_loop_eq [where f = utf8_out, OF this, of "[]" "length t + 1"]
    have "encode_loop utf8_out (length t + 1) t [] = Some (concat (map (\<lambda>cp. utf8_out cp (put_cp cp)) (unit_cps u)))" by (simp add: t)
    moreover have "concat (map (\<lambda>cp. utf8_out cp (put_cp cp)) (unit_cps u)) = t"
      using sc unfolding t wtf8_def by (intro arg_cong [of _ _ concat] map_cong) (auto simp: list_all_iff scalar_def utf8_out_def word_le_nat_alt)
    ultimately have "jcs_encode al N cs t = Some (Some t)" using utf8 assms(2) by (simp add: jcs_encode_def Let_def)
    moreover have "jcs_decode al N cs t = Some (Some t)"
      using utf8 assms(2) dec8_wtf8 [OF sc] by (simp add: jcs_decode_def utf8_decode_eq t)
    ultimately show ?thesis by blast
  next
    case latin
    let ?a = "?k = JCS_ASCII"
    have le: "list_all (\<lambda>c. c \<le> (if ?a then 0x7f else 0xff)) u" using latin assms(1) by (auto simp: encodable_def)
    then have "list_all (\<lambda>c. c \<le> 0xff) u" by (auto simp: list_all_iff split: if_splits intro: order_trans)
    from latin_encode [OF le small_cps [OF this]] obtain bs where
      bs: "encode_loop (latin_out (if ?a then 0x7f else 0xff)) (length t + 1) t [] = Some bs" "wtf8 (map (latin_cp ?a) bs) = t"
      unfolding t by blast
    have "jcs_encode al N cs t = Some (Some bs)" using latin assms(2) bs(1) by (auto simp: jcs_encode_def Let_def)
    moreover have "jcs_decode al N cs bs = Some (Some t)"
      using latin assms(2) latin_loop_eq [of "[]" bs "length bs * 3 + 1" ?a] latin_length [of ?a bs] bs(2)
      by (auto simp: jcs_decode_def terminated_def)
    ultimately show ?thesis by blast
  next
    case utf16
    let ?l = "?k = JCS_UTF16LE" and ?m = "if ?k = JCS_UTF16 then [0xfe, 0xff] else [] :: u8 list"
    let ?bs = "?m @ concat (map (unit_bytes ?l) u)"
    have range: "list_all (\<lambda>cp. unat cp < 0x200000) (unit_cps u)" using unit_cps_range [of u] by (auto simp: list_all_iff)
    have "jcs_wtf8_to_utf16 (Some (length t + 1)) t = Some (length u, u)"
      using wtf8_units_eq(2) [OF range, of "[]" "length t + 1" 0] by (simp add: jcs_wtf8_to_utf16_def t units_inverse)
    moreover have "utf16_out (length u * 2 + 2) ?l None u ?m = Some ?bs" using utf16_out_eq [OF plain] by simp
    ultimately have "jcs_encode al N cs t = Some (Some ?bs)"
      using utf16 assms(2) by (auto simp: jcs_encode_def Let_def emit_def)
    moreover have "whole16 ?k ?bs = u"
      using utf16 all_units_back [of ?l u] plain by (auto simp: whole16_def utf16_bom_def)
    moreover have "jcs_decode al N cs ?bs = utf16_decode al ?k ?bs" using utf16 by (auto simp: jcs_decode_def)
    ultimately show ?thesis using utf16_decode_eq [of al ?k ?bs] assms(2) t by auto
  qed
qed

theorem charset_roundtrip_witness:
  "\<exists>bs. jcs_encode (\<lambda>_. True) \<lparr>native_decode = \<lambda>_ _. None, native_encode = \<lambda>_ _. None\<rparr> (sample_jcs JCS_UTF16) [0x41] = Some (Some bs) \<and>
     jcs_decode (\<lambda>_. True) \<lparr>native_decode = \<lambda>_ _. None, native_encode = \<lambda>_ _. None\<rparr> (sample_jcs JCS_UTF16) bs = Some (Some [0x41])"
proof -
  have a: "encodable (cs_kind (sample_jcs JCS_UTF16)) [0x41]" by code_simp
  have b: "jcs_utf16_to_wtf8 (3 * length [0x41 :: u16]) [0x41] = Some [0x41]" by code_simp
  show ?thesis by (rule charset_roundtrip [OF a _ b]) simp
qed

section \<open>Names and corner cases\<close>

text \<open>The spelling of the letters of a name does not matter.\<close>

lemma same_nocase_named:
  assumes "same_nocase a b"
  shows "builtin_named a es = builtin_named b es"
proof -
  have "same_nocase a = same_nocase b" using assms by (intro ext) (simp add: same_nocase_def)
  then show ?thesis by (induction es) (auto split: prod.split)
qed

text \<open>A four-byte sequence beyond the last code point is taken for a pair whose halves are both low surrogates.\<close>

lemma wtf8_beyond: "jcs_wtf8_to_utf16 (Some 4) [0xf7, 0xbf, 0xbf, 0xbf] = Some (2, [0xdfbf, 0xdfff])"
  by code_simp

end
